(* ===== verification/Prelude.thy ===== *)
theory Prelude
  imports Main "HOL-Library.Word"
begin

unbundle bit_operations_syntax

text \<open>
  The vocabulary shared by every component of the development.  The machine integers of the
  firmware are words of the same width (\<open>uint8_t\<close> is \<open>u8\<close>, and so on), so that additions wrap and
  the bitwise operators act on bits as they do in C.  The collection \<open>bit_lemmas\<close> gathers the facts
  about single bits of words that the proofs about masks use; \<open>frame\<close> gathers, for each operation
  on the state, what the operation leaves unchanged.
\<close>

type_synonym u8 = "8 word"
type_synonym u16 = "16 word"
type_synonym u32 = "32 word"
type_synonym u64 = "64 word"

named_theorems bit_lemmas \<open>single bits of the results of the bitwise operators\<close>
named_theorems frame \<open>what an operation leaves unchanged\<close>

section \<open>Words and their bits\<close>

lemma bit_mask_1 [bit_lemmas]:
  "bit (2 ^ n :: 'a::len word) i \<longleftrightarrow> i = n \<and> n < LENGTH('a)"
  by (auto simp: bit_simps)

lemma bit_word_eqI_iff: "v = w \<longleftrightarrow> (\<forall>i<LENGTH('a). bit v i \<longleftrightarrow> bit w i)" for v w :: "'a::len word"
  by (auto intro: bit_word_eqI)

lemma word_and_mask_eq_0 [bit_lemmas]:
  "w AND 2 ^ n = 0 \<longleftrightarrow> \<not> bit w n" for w :: "'a::len word"
proof -
  have "w AND 2 ^ n = 0 \<longleftrightarrow> (\<forall>i<LENGTH('a). \<not> (bit w i \<and> i = n))"
    by (simp add: bit_word_eqI_iff bit_simps)
  then show ?thesis
    by (auto dest: bit_imp_le_length)
qed

lemma push_bit_1: "push_bit n 1 = (2 ^ n :: 'a::len word)"
  by simp

lemma word_or_eq_0_iff: "v OR w = 0 \<longleftrightarrow> v = 0 \<and> w = 0" for v w :: "'a::len word"
  by (auto simp: bit_eq_iff bit_simps)

lemma word_eqI_bits: "(\<And>i. i < LENGTH('a) \<Longrightarrow> bit v i \<longleftrightarrow> bit w i) \<Longrightarrow> v = w" for v w :: "'a::len word"
  by (rule bit_word_eqI)

lemma unat_less_numeral_8: "unat (w :: u8) < 256"
  using unsigned_less [of w] by simp

lemma unat_less_numeral_16: "unat (w :: u16) < 65536"
  using unsigned_less [of w] by simp

section \<open>Timers\<close>

text \<open>
  \<open>TIMER_DIFF_16\<close> and \<open>TIMER_DIFF_32\<close> (platforms/timer.h): the difference of two readings of a
  free-running counter, modulo the width of the counter.
\<close>

definition TIMER_DIFF_16 :: "u16 \<Rightarrow> u16 \<Rightarrow> u16" where
  "TIMER_DIFF_16 a b = a - b"

definition TIMER_DIFF_32 :: "u32 \<Rightarrow> u32 \<Rightarrow> u32" where
  "TIMER_DIFF_32 a b = a - b"

text \<open>
  The difference counts the ticks between the readings even when the counter wrapped in between,
  as long as fewer ticks than the counter's period have passed.
\<close>

lemma TIMER_DIFF_16_ticks: "k < 65536 \<Longrightarrow> TIMER_DIFF_16 (t + of_nat k) t = of_nat k"
  by (simp add: TIMER_DIFF_16_def)

lemma unat_TIMER_DIFF_16_ticks: "k < 65536 \<Longrightarrow> unat (TIMER_DIFF_16 (t + of_nat k) t) = k"
  by (simp add: TIMER_DIFF_16_def unat_of_nat)

lemma unat_TIMER_DIFF_32_ticks: "k < 4294967296 \<Longrightarrow> unat (TIMER_DIFF_32 (t + of_nat k) t) = k"
  by (simp add: TIMER_DIFF_32_def unat_of_nat)

lemma TIMER_DIFF_16_self [simp]: "TIMER_DIFF_16 t t = 0"
  by (simp add: TIMER_DIFF_16_def)

section \<open>Lists updated by index\<close>

lemma list_update_map_nth:
  "i < length xs \<Longrightarrow> map f (xs[i := x]) = (map f xs)[i := f x]"
  by (simp add: map_update)

lemma set_list_update_subset: "set (xs[i := x]) \<subseteq> insert x (set xs)"
  by (rule set_update_subset_insert)

end
