(* ===== verification/Bitwise.thy ===== *)
theory Bitwise
  imports Prelude
begin

text \<open>
  quantum/bitwise.c: counting, locating and reversing the bits of a word.  The loops of
  \<open>bitpop\<close> are one function over words of any length, instantiated at the three widths the source
  has; \<open>biton\<close>, \<open>biton16\<close> and \<open>biton32\<close> are the binary searches of the source, step by step.
\<close>

section \<open>Counting bits\<close>

text \<open>\<open>for (c = 0; bits; c++) bits &= bits - 1;\<close> over a counter \<open>c\<close> of type \<open>uint8_t\<close>.\<close>

function bitpop_loop :: "'a::len word \<Rightarrow> u8 \<Rightarrow> u8" where
  "bitpop_loop bits c = (if bits = 0 then c else bitpop_loop (bits AND (bits - 1)) (c + 1))"
  by pat_completeness auto
termination
proof (relation "measure (\<lambda>(bits, c). unat bits)")
  fix bits :: "'a word" and c :: u8
  assume "bits \<noteq> 0"
  have "bits AND (bits - 1) \<le> bits - 1"
    by (rule word_and_le1)
  moreover have "bits - 1 < bits"
    using \<open>bits \<noteq> 0\<close> by (simp add: word_less_nat_alt unat_minus_one unat_eq_zero [symmetric] del: unat_eq_zero)
  ultimately show "((bits AND (bits - 1), c + 1), (bits, c)) \<in> measure (\<lambda>(bits, c). unat bits)"
    by (simp add: word_less_nat_alt word_le_nat_alt)
qed simp

declare bitpop_loop.simps [simp del]

definition bitpop :: "u8 \<Rightarrow> u8" where
  "bitpop bits = bitpop_loop bits 0"

definition bitpop16 :: "u16 \<Rightarrow> u8" where
  "bitpop16 bits = bitpop_loop bits 0"

definition bitpop32 :: "u32 \<Rightarrow> u8" where
  "bitpop32 bits = bitpop_loop bits 0"

section \<open>Locating the highest bit\<close>

definition biton :: "u8 \<Rightarrow> u8" where
  "biton bits =
    (let n = 0;
         (bits, n) = (if drop_bit 4 bits \<noteq> 0 then (drop_bit 4 bits, n + 4) else (bits, n));
         (bits, n) = (if drop_bit 2 bits \<noteq> 0 then (drop_bit 2 bits, n + 2) else (bits, n));
         (bits, n) = (if drop_bit 1 bits \<noteq> 0 then (drop_bit 1 bits, n + 1) else (bits, n))
     in n)"

definition biton16 :: "u16 \<Rightarrow> u8" where
  "biton16 bits =
    (let n = 0;
         (bits, n) = (if drop_bit 8 bits \<noteq> 0 then (drop_bit 8 bits, n + 8) else (bits, n));
         (bits, n) = (if drop_bit 4 bits \<noteq> 0 then (drop_bit 4 bits, n + 4) else (bits, n));
         (bits, n) = (if drop_bit 2 bits \<noteq> 0 then (drop_bit 2 bits, n + 2) else (bits, n));
         (bits, n) = (if drop_bit 1 bits \<noteq> 0 then (drop_bit 1 bits, n + 1) else (bits, n))
     in n)"

definition biton32 :: "u32 \<Rightarrow> u8" where
  "biton32 bits =
    (let n = 0;
         (bits, n) = (if drop_bit 16 bits \<noteq> 0 then (drop_bit 16 bits, n + 16) else (bits, n));
         (bits, n) = (if drop_bit 8 bits \<noteq> 0 then (drop_bit 8 bits, n + 8) else (bits, n));
         (bits, n) = (if drop_bit 4 bits \<noteq> 0 then (drop_bit 4 bits, n + 4) else (bits, n));
         (bits, n) = (if drop_bit 2 bits \<noteq> 0 then (drop_bit 2 bits, n + 2) else (bits, n));
         (bits, n) = (if drop_bit 1 bits \<noteq> 0 then (drop_bit 1 bits, n + 1) else (bits, n))
     in n)"

section \<open>Reversing bits\<close>

definition bitrev :: "u8 \<Rightarrow> u8" where
  "bitrev bits =
    (let bits = push_bit 4 (bits AND 0x0f) OR drop_bit 4 (bits AND 0xf0);
         bits = push_bit 2 (bits AND 0x33) OR drop_bit 2 (bits AND 0xcc);
         bits = push_bit 1 (bits AND 0x55) OR drop_bit 1 (bits AND 0xaa)
     in bits)"

definition bitrev16 :: "u16 \<Rightarrow> u16" where
  "bitrev16 bits =
     push_bit 8 (ucast (bitrev (ucast (bits AND 0x00ff)))) OR
     ucast (bitrev (ucast (drop_bit 8 (bits AND 0xff00))))"

definition bitrev32 :: "u32 \<Rightarrow> u32" where
  "bitrev32 bits =
     push_bit 16 (ucast (bitrev16 (ucast (bits AND 0x0000ffff)))) OR
     ucast (bitrev16 (ucast (drop_bit 16 (bits AND 0xffff0000))))"

section \<open>The search is correct\<close>

text \<open>
  One step of the search, as a function: it keeps that the value is the original shifted by the
  bits counted so far, and halves the window the value is in.
\<close>

lemma div_pow2_eq_1: "a div 2 ^ n = 1 \<Longrightarrow> 2 ^ n \<le> a \<and> a < 2 ^ (n + 1)" for a :: nat
proof -
  assume "a div 2 ^ n = 1"
  then have "a = 2 ^ n + a mod 2 ^ n"
    by (metis div_mult_mod_eq mult_1)
  moreover have "a mod 2 ^ n < 2 ^ n" by simp
  ultimately show ?thesis
    unfolding power_add power_one_right by linarith
qed

definition search_step :: "nat \<Rightarrow> 'a::len word \<times> u8 \<Rightarrow> 'a word \<times> u8" where
  "search_step m p = (if drop_bit m (fst p) \<noteq> 0 then (drop_bit m (fst p), snd p + of_nat m) else p)"

definition search_inv :: "'a::len word \<Rightarrow> nat \<Rightarrow> 'a word \<times> u8 \<Rightarrow> bool" where
  "search_inv w m p \<longleftrightarrow>
     0 < unat (fst p) \<and> unat (fst p) < 2 ^ m \<and> unat (fst p) = unat w div 2 ^ unat (snd p) \<and>
     unat (snd p) + m \<le> LENGTH('a)"

lemma drop_bit_0_nat: "drop_bit n w = 0 \<longleftrightarrow> unat w < 2 ^ n" for w :: "'a::len word"
proof -
  have "drop_bit n w = 0 \<longleftrightarrow> drop_bit n (unat w) = 0"
    by (simp only: unat_eq_0 [symmetric] unat_drop_bit_eq)
  then show ?thesis
    by (simp only: drop_bit_eq_div div_eq_0_iff) simp
qed

lemma search_inv_start: "w \<noteq> 0 \<Longrightarrow> search_inv w LENGTH('a) (w, 0)" for w :: "'a::len word"
  using unsigned_less [of w] by (simp add: search_inv_def unat_gt_0)

lemma search_inv_step:
  fixes w :: "'a::len word"
  assumes inv: "search_inv w (2 * m) p" and m: "0 < m" and len: "LENGTH('a) < 256"
  shows "search_inv w m (search_step m p)"
proof -
  obtain b n where p: "p = (b, n)" by (cases p)
  have b: "0 < unat b" "unat b < 2 ^ (2 * m)" "unat b = unat w div 2 ^ unat n" "unat n + 2 * m \<le> LENGTH('a)"
    using inv by (auto simp: search_inv_def p)
  show ?thesis
  proof (cases "unat b < 2 ^ m")
    case True
    then show ?thesis
      using b by (simp add: search_step_def search_inv_def p drop_bit_0_nat)
  next
    case False
    have nm: "unat (n + of_nat m) = unat n + m"
      using b(4) len m by (simp add: unat_word_ariths unat_of_nat)
    have "unat (drop_bit m b) = unat b div 2 ^ m"
      by (simp only: unat_drop_bit_eq) (simp only: drop_bit_eq_div)
    moreover have "unat b div 2 ^ m < 2 ^ m"
      using b(2) by (simp add: less_mult_imp_div_less mult_2 power_add)
    moreover have "0 < unat b div 2 ^ m"
      using False by (simp add: div_greater_zero_iff)
    moreover have "unat b div 2 ^ m = unat w div 2 ^ (unat n + m)"
      by (simp only: b(3) div_mult2_eq power_add)
    ultimately show ?thesis
      using False b(4) by (simp add: search_step_def search_inv_def p drop_bit_0_nat nm)
  qed
qed

lemma search_inv_done:
  assumes "search_inv w 1 p"
  shows "2 ^ unat (snd p) \<le> unat w \<and> unat w < 2 ^ (unat (snd p) + 1)"
proof -
  have "unat w div 2 ^ unat (snd p) = 1"
    using assms by (auto simp: search_inv_def)
  then show ?thesis
    by (rule div_pow2_eq_1)
qed

lemma biton_steps: "biton w = snd (search_step 1 (search_step 2 (search_step 4 (w, 0))))"
  by (simp add: biton_def search_step_def Let_def split_beta)

lemma biton16_steps:
  "biton16 w = snd (search_step 1 (search_step 2 (search_step 4 (search_step 8 (w, 0)))))"
  by (simp add: biton16_def search_step_def Let_def split_beta)

lemma biton32_steps:
  "biton32 w =
     snd (search_step 1 (search_step 2 (search_step 4 (search_step 8 (search_step 16 (w, 0))))))"
  by (simp add: biton32_def search_step_def Let_def split_beta)

lemma search_inv_1:
  "search_inv w 2 p \<Longrightarrow> LENGTH('a) < 256 \<Longrightarrow> search_inv w 1 (search_step 1 p)" for w :: "'a::len word"
  by (rule search_inv_step) simp_all

lemma search_inv_2:
  "search_inv w 4 p \<Longrightarrow> LENGTH('a) < 256 \<Longrightarrow> search_inv w 2 (search_step 2 p)" for w :: "'a::len word"
  by (rule search_inv_step) simp_all

lemma search_inv_4:
  "search_inv w 8 p \<Longrightarrow> LENGTH('a) < 256 \<Longrightarrow> search_inv w 4 (search_step 4 p)" for w :: "'a::len word"
  by (rule search_inv_step) simp_all

lemma search_inv_8:
  "search_inv w 16 p \<Longrightarrow> LENGTH('a) < 256 \<Longrightarrow> search_inv w 8 (search_step 8 p)" for w :: "'a::len word"
  by (rule search_inv_step) simp_all

lemma search_inv_16:
  "search_inv w 32 p \<Longrightarrow> LENGTH('a) < 256 \<Longrightarrow> search_inv w 16 (search_step 16 p)" for w :: "'a::len word"
  by (rule search_inv_step) simp_all

lemmas search_inv_steps = search_inv_1 search_inv_2 search_inv_4 search_inv_8 search_inv_16

lemma biton_range:
  "w \<noteq> 0 \<Longrightarrow> 2 ^ unat (biton w) \<le> unat w \<and> unat w < 2 ^ (unat (biton w) + 1)"
  unfolding biton_steps using search_inv_start [of w] by (intro search_inv_done search_inv_steps) simp_all

lemma biton16_range:
  "w \<noteq> 0 \<Longrightarrow> 2 ^ unat (biton16 w) \<le> unat w \<and> unat w < 2 ^ (unat (biton16 w) + 1)"
  unfolding biton16_steps using search_inv_start [of w] by (intro search_inv_done search_inv_steps) simp_all

lemma biton32_range:
  "w \<noteq> 0 \<Longrightarrow> 2 ^ unat (biton32 w) \<le> unat w \<and> unat w < 2 ^ (unat (biton32 w) + 1)"
  unfolding biton32_steps using search_inv_start [of w] by (intro search_inv_done search_inv_steps) simp_all

text \<open>A value in such a range has exactly that highest bit.\<close>

lemma bit_unat: "bit (unat w) i \<longleftrightarrow> bit w i" for w :: "'a::len word"
  using bit_unsigned_iff by fastforce

lemma highest_bit_of_range:
  fixes w :: "'a::len word"
  assumes "2 ^ k \<le> unat w" and "unat w < 2 ^ (k + 1)"
  shows "bit w k" and "bit w j \<Longrightarrow> j \<le> k"
proof -
  have "unat w div 2 ^ k = 1"
    using assms by (intro div_nat_eqI) simp_all
  then have "bit (unat w) k" by (simp add: bit_iff_odd)
  then show "bit w k" by (simp only: bit_unat)
  assume "bit w j"
  then have "bit (unat w) j" by (simp only: bit_unat)
  then have "odd (unat w div 2 ^ j)" by (simp add: bit_iff_odd)
  then have "unat w div 2 ^ j \<noteq> 0" by (cases "unat w div 2 ^ j = 0") simp_all
  then have "2 ^ j \<le> unat w" by (simp add: div_eq_0_iff)
  with assms(2) have "(2::nat) ^ j < 2 ^ (k + 1)" by linarith
  then have "j < k + 1" by (rule power_less_imp_less_exp [rotated]) simp
  then show "j \<le> k" by simp
qed

section \<open>The count is the number of bits\<close>

text \<open>\<open>n & (n - 1)\<close> clears exactly one bit, the lowest one.\<close>

lemma and_minus_1_clears_one_nat:
  "0 < n \<Longrightarrow> \<exists>k. bit n k \<and> (\<forall>i. bit (n AND (n - 1)) i \<longleftrightarrow> bit n i \<and> i \<noteq> k)" for n :: nat
proof (induction n rule: less_induct)
  case (less n)
  show ?case
  proof (cases "even n")
    case True
    with less.prems have m: "0 < n div 2" "n div 2 < n" "(n - 1) div 2 = n div 2 - 1" by auto
    then obtain k where k: "bit (n div 2) k"
      "\<And>i. bit (n div 2 AND (n div 2 - 1)) i \<longleftrightarrow> bit (n div 2) i \<and> i \<noteq> k"
      using less.IH by blast
    have "bit n i \<and> bit (n - 1) i \<longleftrightarrow> bit n i \<and> i \<noteq> Suc k" for i
      using k(2) [of "i - 1"] m(3) True by (cases i) (simp_all only: bit_0 bit_Suc bit_and_iff, simp_all)
    then have "bit (n AND (n - 1)) i \<longleftrightarrow> bit n i \<and> i \<noteq> Suc k" for i
      by (simp only: bit_and_iff)
    then show ?thesis using k(1) by (auto simp: bit_Suc intro: exI [of _ "Suc k"])
  next
    case False
    then have "bit n i \<and> bit (n - 1) i \<longleftrightarrow> bit n i \<and> i \<noteq> 0" for i
      by (cases i) (auto simp: bit_0 bit_Suc elim!: oddE)
    then have "bit (n AND (n - 1)) i \<longleftrightarrow> bit n i \<and> i \<noteq> 0" for i
      by (simp only: bit_and_iff)
    moreover have "bit n 0" using False by (simp add: bit_0)
    ultimately show ?thesis by blast
  qed
qed

lemma and_minus_1_clears_one:
  fixes w :: "'a::len word"
  assumes "w \<noteq> 0"
  obtains k where "bit w k" "{i. bit (w AND (w - 1)) i} = {i. bit w i} - {k}"
proof -
  have "0 < unat w" using assms by (simp add: unat_gt_0)
  then obtain k where k: "bit (unat w) k" "\<And>i. bit (unat w AND (unat w - 1)) i \<longleftrightarrow> bit (unat w) i \<and> i \<noteq> k"
    using and_minus_1_clears_one_nat by blast
  have "unat (w AND (w - 1)) = unat w AND (unat w - 1)"
    using assms by (simp add: unsigned_and_eq unat_minus_one)
  then have "bit (w AND (w - 1)) i \<longleftrightarrow> bit w i \<and> i \<noteq> k" for i
    using k(2) [of i] by (metis bit_unat)
  with k(1) that show thesis by (auto simp: bit_unat)
qed

definition bits_of :: "'a::len word \<Rightarrow> nat set" where
  "bits_of w = {i. bit w i}"

lemma finite_bits_of [simp]: "finite (bits_of w)" for w :: "'a::len word"
  by (rule finite_subset [of _ "{..<LENGTH('a)}"]) (auto simp: bits_of_def dest: bit_imp_le_length)

lemma bitpop_loop_card: "bitpop_loop w c = c + of_nat (card (bits_of w))"
proof (induction w c rule: bitpop_loop.induct)
  case (1 w c)
  show ?case
  proof (cases "w = 0")
    case True
    then show ?thesis by (simp add: bitpop_loop.simps bits_of_def)
  next
    case False
    then obtain k where k: "bit w k" "bits_of (w AND (w - 1)) = bits_of w - {k}"
      unfolding bits_of_def by (rule and_minus_1_clears_one)
    have card: "card (bits_of w) = Suc (card (bits_of (w AND (w - 1))))"
      unfolding k(2) using k(1) by (intro card.remove) (simp_all add: bits_of_def)
    have "bitpop_loop w c = bitpop_loop (w AND (w - 1)) (c + 1)"
      using False by (subst bitpop_loop.simps) (simp only: if_False)
    also have "\<dots> = c + 1 + of_nat (card (bits_of (w AND (w - 1))))"
      using False by (rule "1.IH")
    finally show ?thesis
      by (simp only: card of_nat_Suc add.assoc)
  qed
qed

section \<open>Reversal moves every bit to its mirror position\<close>

lemma bit_bitrev: "i < 8 \<Longrightarrow> bit (bitrev w) i \<longleftrightarrow> bit w (7 - i)"
proof -
  assume "i < 8"
  then consider "i = 0" | "i = 1" | "i = 2" | "i = 3" | "i = 4" | "i = 5" | "i = 6" | "i = 7" by linarith
  then show ?thesis
    unfolding bitrev_def Let_def bit_or_iff bit_and_iff bit_push_bit_iff bit_drop_bit_eq comp_def
    by cases simp_all
qed

section \<open>Properties\<close>

lemma card_bits_of_less: "card (bits_of w) \<le> LENGTH('a)" for w :: "'a::len word"
proof -
  have "bits_of w \<subseteq> {..<LENGTH('a)}" by (auto simp: bits_of_def dest: bit_imp_le_length)
  then have "card (bits_of w) \<le> card {..<LENGTH('a)}" by (intro card_mono) simp_all
  then show ?thesis by simp
qed

lemma is_highest_bit:
  assumes "w \<noteq> 0" "2 ^ k \<le> unat w \<and> unat w < 2 ^ (k + 1)"
  shows "k = Max (bits_of w)"
  using highest_bit_of_range [of k w] assms
  by (intro Max_eqI [symmetric]) (auto simp: bits_of_def finite_bits_of [unfolded bits_of_def])

text \<open>
  The three counting loops terminate with the number of set bits of their argument, and the three
  searches return the position of the highest set bit of a non-zero argument and 0 for 0.
\<close>

theorem bitwise_counts_and_searches:
  "unat (bitpop w8) = card (bits_of w8) \<and> unat (bitpop16 w16) = card (bits_of w16) \<and>
   unat (bitpop32 w32) = card (bits_of w32) \<and>
   unat (biton w8) = (if w8 = 0 then 0 else Max (bits_of w8)) \<and>
   unat (biton16 w16) = (if w16 = 0 then 0 else Max (bits_of w16)) \<and>
   unat (biton32 w32) = (if w32 = 0 then 0 else Max (bits_of w32))"
proof -
  have "biton 0 = 0" "biton16 0 = 0" "biton32 0 = 0"
    by (simp_all add: biton_def biton16_def biton32_def)
  then show ?thesis
    using card_bits_of_less [of w8] card_bits_of_less [of w16] card_bits_of_less [of w32]
      is_highest_bit [OF _ biton_range, of w8] is_highest_bit [OF _ biton16_range, of w16]
      is_highest_bit [OF _ biton32_range, of w32]
    by (simp add: bitpop_def bitpop16_def bitpop32_def bitpop_loop_card unat_of_nat)
qed

lemma and_255: "w AND 0xFF = take_bit 8 w" "w AND 0xFFFF = take_bit 16 w" for w :: "'a::len word"
  by (simp_all add: take_bit_eq_mask mask_numeral)

lemma bit_bitrev_iff: "bit (bitrev w) i \<longleftrightarrow> i < 8 \<and> bit w (7 - i)"
  using bit_bitrev [of i w] bit_imp_le_length [of "bitrev w" i] by auto

lemma bit_bitrev16_iff: "bit (bitrev16 w) i \<longleftrightarrow> i < 16 \<and> bit w (15 - i)"
proof (cases "i < 8")
  case True
  then have "8 + (7 - i) = 15 - i" "7 - i < 8" "15 - i < 16" by simp_all
  then show ?thesis
    using True by (simp add: bitrev16_def and_255 bit_simps bit_bitrev_iff)
next
  case False
  then show ?thesis
    by (auto simp: bitrev16_def and_255 bit_simps bit_bitrev_iff)
qed

lemma bit_bitrev32_iff: "bit (bitrev32 w) i \<longleftrightarrow> i < 32 \<and> bit w (31 - i)"
proof (cases "i < 16")
  case True
  then have "16 + (15 - i) = 31 - i" "15 - i < 16" "31 - i < 32" by simp_all
  then show ?thesis
    using True by (simp add: bitrev32_def and_255 bit_simps bit_bitrev16_iff)
next
  case False
  then show ?thesis
    by (auto simp: bitrev32_def and_255 bit_simps bit_bitrev16_iff)
qed

text \<open>
  Reversal at each width moves every bit to its mirror position, hence reversing twice is the
  identity.
\<close>

theorem bitrev_mirror:
  "(bit (bitrev w8) i \<longleftrightarrow> i < 8 \<and> bit w8 (7 - i)) \<and> (bit (bitrev16 w16) i \<longleftrightarrow> i < 16 \<and> bit w16 (15 - i)) \<and>
   (bit (bitrev32 w32) i \<longleftrightarrow> i < 32 \<and> bit w32 (31 - i)) \<and>
   bitrev (bitrev w8) = w8 \<and> bitrev16 (bitrev16 w16) = w16 \<and> bitrev32 (bitrev32 w32) = w32"
proof -
  have "bitrev (bitrev w8) = w8"
    by (rule bit_word_eqI) (auto simp: bit_bitrev_iff)
  moreover have "bitrev16 (bitrev16 w16) = w16"
    by (rule bit_word_eqI) (auto simp: bit_bitrev16_iff)
  moreover have "bitrev32 (bitrev32 w32) = w32"
    by (rule bit_word_eqI) (auto simp: bit_bitrev32_iff)
  ultimately show ?thesis
    by (simp add: bit_bitrev_iff bit_bitrev16_iff bit_bitrev32_iff)
qed

end
