(* ===== verification/Report.thy ===== *)
theory Report
  imports Bitwise
begin

text \<open>
  tmk_core/protocol/report.c: the keyboard report as a set of pressed keys, in its two layouts.  The
  C union \<open>report_keyboard_t\<close> overlays the six key slots of the boot layout and the bitmap of the
  NKRO layout.  The record below is that union for the configuration \<open>NKRO_ENABLE\<close> without
  \<open>KEYBOARD_SHARED_EP\<close> (the ChibiOS and LUFA default): byte 0 is \<open>mods\<close> or \<open>nkro.report_id\<close>, byte 1
  is \<open>reserved\<close> or \<open>nkro.mods\<close>, and the remaining \<open>SHARED_EPSIZE - 2 = 30\<close> bytes are the bitmap,
  whose first six are the array \<open>keys\<close>.  The parameter \<open>nkro\<close> of the operations is the condition
  \<open>keyboard_protocol && keymap_config.nkro\<close>.  \<open>RING_BUFFERED_6KRO_REPORT_ENABLE\<close> is off.

  The locale \<open>key_set\<close> is what the rest of the firmware relies on: a report is a finite set of
  pressed keys with \<open>add\<close> and \<open>del\<close>.  Both layouts are interpretations of it.
\<close>

section \<open>The report and its operations\<close>

record report_keyboard =
  rk_mods :: u8
  rk_reserved :: u8
  rk_payload :: "u8 list"

definition KEYBOARD_REPORT_KEYS :: nat where
  "KEYBOARD_REPORT_KEYS = 6"

definition KEYBOARD_REPORT_BITS :: nat where
  "KEYBOARD_REPORT_BITS = 30"

definition empty_report :: report_keyboard where
  "empty_report = \<lparr>rk_mods = 0, rk_reserved = 0, rk_payload = replicate KEYBOARD_REPORT_BITS 0\<rparr>"

text \<open>The array \<open>keys\<close> of the boot layout.\<close>

definition rk_keys :: "report_keyboard \<Rightarrow> u8 list" where
  "rk_keys r = take KEYBOARD_REPORT_KEYS (rk_payload r)"

definition has_anykey :: "bool \<Rightarrow> report_keyboard \<Rightarrow> u8" where
  "has_anykey nkro r =
     fold (\<lambda>p cnt. if p \<noteq> 0 then cnt + 1 else cnt) (if nkro then rk_payload r else rk_keys r) 0"

text \<open>
  In NKRO mode the search for a non-zero byte may run off the end of the bitmap, and the code then
  reads \<open>bits[KEYBOARD_REPORT_BITS]\<close>: the value \<open>None\<close> is that read outside the array.
\<close>

fun skip_zero_bytes :: "u8 list \<Rightarrow> nat \<Rightarrow> nat" where
  "skip_zero_bytes [] i = i"
| "skip_zero_bytes (b # bs) i = (if b = 0 then skip_zero_bytes bs (i + 1) else i)"

definition get_first_key :: "bool \<Rightarrow> report_keyboard \<Rightarrow> u8 option" where
  "get_first_key nkro r =
    (if nkro then
       (let i = skip_zero_bytes (rk_payload r) 0
        in if i < length (rk_payload r)
           then Some (push_bit 3 (of_nat i) OR biton (rk_payload r ! i)) else None)
     else Some (rk_keys r ! 0))"

definition is_key_pressed :: "bool \<Rightarrow> report_keyboard \<Rightarrow> u8 \<Rightarrow> bool" where
  "is_key_pressed nkro r key =
    (if key = 0 then False
     else if nkro then
       (if unat (drop_bit 3 key) < KEYBOARD_REPORT_BITS
        then rk_payload r ! unat (drop_bit 3 key) AND push_bit (unat (key AND 7)) 1 \<noteq> 0
        else False)
     else key \<in> set (rk_keys r))"

text \<open>
  The loop of \<open>add_key_byte\<close>: the index where it stops (at the key, or past the end) and the
  first empty slot it saw.
\<close>

fun scan_keys :: "u8 \<Rightarrow> u8 list \<Rightarrow> nat \<Rightarrow> nat option \<Rightarrow> nat \<times> nat option" where
  "scan_keys code [] i free = (i, free)"
| "scan_keys code (k # ks) i free =
     (if k = code then (i, free)
      else scan_keys code ks (i + 1) (if free = None \<and> k = 0 then Some i else free))"

definition add_key_byte :: "report_keyboard \<Rightarrow> u8 \<Rightarrow> report_keyboard" where
  "add_key_byte r code =
    (let (i, free) = scan_keys code (rk_keys r) 0 None
     in if i = KEYBOARD_REPORT_KEYS then
          (case free of None \<Rightarrow> r | Some j \<Rightarrow> r\<lparr>rk_payload := (rk_payload r)[j := code]\<rparr>)
        else r)"

definition del_key_byte :: "report_keyboard \<Rightarrow> u8 \<Rightarrow> report_keyboard" where
  "del_key_byte r code =
     r\<lparr>rk_payload := map (\<lambda>k. if k = code then 0 else k) (rk_keys r) @
                      drop KEYBOARD_REPORT_KEYS (rk_payload r)\<rparr>"

definition add_key_bit :: "report_keyboard \<Rightarrow> u8 \<Rightarrow> report_keyboard" where
  "add_key_bit r code =
    (let i = unat (drop_bit 3 code)
     in if i < KEYBOARD_REPORT_BITS
        then r\<lparr>rk_payload := (rk_payload r)[i := rk_payload r ! i OR push_bit (unat (code AND 7)) 1]\<rparr>
        else r)"

definition del_key_bit :: "report_keyboard \<Rightarrow> u8 \<Rightarrow> report_keyboard" where
  "del_key_bit r code =
    (let i = unat (drop_bit 3 code)
     in if i < KEYBOARD_REPORT_BITS
        then r\<lparr>rk_payload := (rk_payload r)[i := rk_payload r ! i AND NOT (push_bit (unat (code AND 7)) 1)]\<rparr>
        else r)"

definition add_key_to_report :: "bool \<Rightarrow> report_keyboard \<Rightarrow> u8 \<Rightarrow> report_keyboard" where
  "add_key_to_report nkro r key = (if nkro then add_key_bit r key else add_key_byte r key)"

definition del_key_from_report :: "bool \<Rightarrow> report_keyboard \<Rightarrow> u8 \<Rightarrow> report_keyboard" where
  "del_key_from_report nkro r key = (if nkro then del_key_bit r key else del_key_byte r key)"

definition clear_keys_from_report :: "bool \<Rightarrow> report_keyboard \<Rightarrow> report_keyboard" where
  "clear_keys_from_report nkro r =
    (if nkro then r\<lparr>rk_payload := replicate KEYBOARD_REPORT_BITS 0\<rparr>
     else r\<lparr>rk_payload := replicate KEYBOARD_REPORT_KEYS 0 @ drop KEYBOARD_REPORT_KEYS (rk_payload r)\<rparr>)"

section \<open>The interface: a set of pressed keys\<close>

text \<open>
  \<open>fits r k\<close> says that \<open>add\<close> can record \<open>k\<close>: in the boot layout a free slot, in the NKRO layout a
  code below the size of the bitmap.
\<close>

locale key_set =
  fixes inv :: "'r \<Rightarrow> bool"
    and pressed :: "'r \<Rightarrow> u8 \<Rightarrow> bool"
    and fits :: "'r \<Rightarrow> u8 \<Rightarrow> bool"
    and add :: "'r \<Rightarrow> u8 \<Rightarrow> 'r"
    and del :: "'r \<Rightarrow> u8 \<Rightarrow> 'r"
    and clear :: "'r \<Rightarrow> 'r"
    and any :: "'r \<Rightarrow> bool"
  assumes inv_add: "inv r \<Longrightarrow> k \<noteq> 0 \<Longrightarrow> inv (add r k)"
    and inv_del: "inv r \<Longrightarrow> k \<noteq> 0 \<Longrightarrow> inv (del r k)"
    and inv_clear: "inv r \<Longrightarrow> inv (clear r)"
    and pressed_add: "inv r \<Longrightarrow> k \<noteq> 0 \<Longrightarrow> pressed (add r k) j \<longleftrightarrow> pressed r j \<or> j = k \<and> fits r k"
    and pressed_del: "inv r \<Longrightarrow> k \<noteq> 0 \<Longrightarrow> pressed (del r k) j \<longleftrightarrow> pressed r j \<and> j \<noteq> k"
    and pressed_clear: "inv r \<Longrightarrow> \<not> pressed (clear r) j"
    and any_iff: "inv r \<Longrightarrow> any r \<longleftrightarrow> (\<exists>j. pressed r j)"
begin

lemma add_pressed: "inv r \<Longrightarrow> k \<noteq> 0 \<Longrightarrow> fits r k \<Longrightarrow> pressed (add r k) k"
  by (simp add: pressed_add)

lemma del_not_pressed: "inv r \<Longrightarrow> k \<noteq> 0 \<Longrightarrow> \<not> pressed (del r k) k"
  by (simp add: pressed_del)

text \<open>A tap leaves no trace: adding and removing a key that was up restores the pressed set.\<close>

lemma del_add: "inv r \<Longrightarrow> k \<noteq> 0 \<Longrightarrow> \<not> pressed r k \<Longrightarrow> pressed (del (add r k) k) j \<longleftrightarrow> pressed r j"
  by (auto simp: pressed_add pressed_del inv_add)

lemma any_clear: "inv r \<Longrightarrow> \<not> any (clear r)"
  by (simp add: any_iff inv_clear pressed_clear)

text \<open>Releasing every key of a list leaves none of them pressed, and touches no other.\<close>

lemma inv_fold_del: "inv r \<Longrightarrow> 0 \<notin> set ks \<Longrightarrow> inv (fold (\<lambda>k r. del r k) ks r)"
  by (induction ks arbitrary: r) (auto simp: inv_del)

lemma pressed_fold_del:
  "inv r \<Longrightarrow> 0 \<notin> set ks \<Longrightarrow> pressed (fold (\<lambda>k r. del r k) ks r) j \<longleftrightarrow> pressed r j \<and> j \<notin> set ks"
  by (induction ks arbitrary: r) (auto simp: inv_del pressed_del)

end

section \<open>The boot layout is a set of at most six keys\<close>

definition kro6_inv :: "report_keyboard \<Rightarrow> bool" where
  "kro6_inv r \<longleftrightarrow> length (rk_payload r) = KEYBOARD_REPORT_BITS \<and> distinct (filter (\<lambda>k. k \<noteq> 0) (rk_keys r))"

definition kro6_fits :: "report_keyboard \<Rightarrow> u8 \<Rightarrow> bool" where
  "kro6_fits r k \<longleftrightarrow> 0 \<in> set (rk_keys r)"

lemma length_rk_keys: "length (rk_payload r) = KEYBOARD_REPORT_BITS \<Longrightarrow> length (rk_keys r) = 6"
  by (simp add: rk_keys_def KEYBOARD_REPORT_KEYS_def KEYBOARD_REPORT_BITS_def)

lemma scan_keys_present: "code \<in> set ks \<Longrightarrow> fst (scan_keys code ks i e) < i + length ks"
proof (induction ks arbitrary: i e)
  case (Cons k ks)
  then show ?case using Cons.IH [of "i + 1"] by auto
qed simp

lemma scan_keys_absent:
  "code \<notin> set ks \<Longrightarrow> scan_keys code ks i e =
     (i + length ks,
      case e of Some j \<Rightarrow> Some j
      | None \<Rightarrow> if 0 \<in> set ks then Some (i + length (takeWhile (\<lambda>k. k \<noteq> 0) ks)) else None)"
  by (induction ks arbitrary: i e) (auto split: option.splits)

lemma nth_first_zero:
  "0 \<in> set ks \<Longrightarrow> length (takeWhile (\<lambda>k. k \<noteq> 0) ks) < length ks \<and> ks ! length (takeWhile (\<lambda>k. k \<noteq> 0) ks) = (0 :: u8)"
  by (induction ks) auto

text \<open>The effect of \<open>add_key_byte\<close> on the slots: the key goes to the first empty slot, if any.\<close>

lemma rk_keys_add_key_byte:
  assumes "length (rk_payload r) = KEYBOARD_REPORT_BITS"
  shows "rk_keys (add_key_byte r k) =
    (if k \<in> set (rk_keys r) \<or> 0 \<notin> set (rk_keys r) then rk_keys r
     else (rk_keys r)[length (takeWhile (\<lambda>k. k \<noteq> 0) (rk_keys r)) := k])"
proof (cases "k \<in> set (rk_keys r)")
  case True
  then have "fst (scan_keys k (rk_keys r) 0 None) \<noteq> KEYBOARD_REPORT_KEYS"
    using scan_keys_present [of k "rk_keys r" 0 None] length_rk_keys [OF assms]
    by (simp add: KEYBOARD_REPORT_KEYS_def)
  then show ?thesis using True by (simp add: add_key_byte_def split_beta Let_def)
next
  case False
  show ?thesis
  proof (cases "0 \<in> set (rk_keys r)")
    case True
    then have "length (takeWhile (\<lambda>k. k \<noteq> 0) (rk_keys r)) < 6"
      using nth_first_zero [of "rk_keys r"] length_rk_keys [OF assms] by simp
    then show ?thesis
      using False True length_rk_keys [OF assms]
      by (simp add: add_key_byte_def scan_keys_absent KEYBOARD_REPORT_KEYS_def take_update_swap rk_keys_def)
  next
    case zero: False
    then show ?thesis using False by (simp add: add_key_byte_def scan_keys_absent)
  qed
qed

lemma rk_keys_del_key_byte:
  assumes "length (rk_payload r) = KEYBOARD_REPORT_BITS"
  shows "rk_keys (del_key_byte r k) = map (\<lambda>j. if j = k then 0 else j) (rk_keys r)"
  using length_rk_keys [OF assms] by (simp add: rk_keys_def del_key_byte_def KEYBOARD_REPORT_KEYS_def)

lemma length_payload_add_key_byte [simp]: "length (rk_payload (add_key_byte r k)) = length (rk_payload r)"
  by (simp add: add_key_byte_def split_beta Let_def split: option.splits)

lemma length_payload_del_key_byte [simp]:
  "length (rk_payload r) = KEYBOARD_REPORT_BITS \<Longrightarrow> length (rk_payload (del_key_byte r k)) = KEYBOARD_REPORT_BITS"
  by (simp add: del_key_byte_def length_rk_keys KEYBOARD_REPORT_BITS_def KEYBOARD_REPORT_KEYS_def)

lemma filter_nonzero_map: "filter (\<lambda>j. j \<noteq> 0) (map (\<lambda>j. if j = k then 0 else j) ks) = filter (\<lambda>j. j \<noteq> 0 \<and> j \<noteq> k) ks"
  for ks :: "u8 list"
  by (induction ks) auto

lemma distinct_nonzero_update:
  fixes ks :: "u8 list"
  assumes "distinct (filter (\<lambda>j. j \<noteq> 0) ks)" "k \<notin> set ks" "i < length ks"
  shows "distinct (filter (\<lambda>j. j \<noteq> 0) (ks[i := k]))"
proof -
  have "ks = take i ks @ ks ! i # drop (Suc i) ks" using assms(3) by (rule id_take_nth_drop)
  then have "distinct (filter (\<lambda>j. j \<noteq> 0) (take i ks @ ks ! i # drop (Suc i) ks))"
    using assms(1) by simp
  then show ?thesis
    unfolding upd_conv_take_nth_drop [OF assms(3)]
    using assms(2) by (auto dest: in_set_takeD in_set_dropD split: if_splits)
qed

lemma set_update_zero:
  fixes ks :: "u8 list"
  assumes "i < length ks" "ks ! i = 0" "j \<noteq> 0"
  shows "j \<in> set (ks[i := k]) \<longleftrightarrow> j \<in> set ks \<or> j = k"
proof -
  have "ks = take i ks @ 0 # drop (Suc i) ks" using assms(1,2) id_take_nth_drop by fastforce
  then have "set ks = insert 0 (set (take i ks) \<union> set (drop (Suc i) ks))"
    by (metis list.simps(15) set_append Un_insert_right)
  then show ?thesis
    unfolding upd_conv_take_nth_drop [OF assms(1)] using assms(3) by auto
qed

lemma has_anykey_count:
  "fold (\<lambda>p cnt. if p \<noteq> 0 then cnt + 1 else cnt) bs c = c + (of_nat (length (filter (\<lambda>p. p \<noteq> 0) bs)) :: u8)"
  for bs :: "u8 list"
  by (induction bs arbitrary: c) auto

lemma has_anykey_iff:
  assumes "length (rk_payload r) = KEYBOARD_REPORT_BITS"
  shows "has_anykey nkro r \<noteq> 0 \<longleftrightarrow> (\<exists>p \<in> set (if nkro then rk_payload r else rk_keys r). p \<noteq> 0)"
proof -
  define bs where "bs = (if nkro then rk_payload r else rk_keys r)"
  have "length bs \<le> 30"
    using assms length_rk_keys [OF assms] by (simp add: bs_def KEYBOARD_REPORT_BITS_def)
  then have "length (filter (\<lambda>p. p \<noteq> 0) bs) < 256"
    using length_filter_le [of "\<lambda>p. p \<noteq> 0" bs] by linarith
  then have "(of_nat (length (filter (\<lambda>p. p \<noteq> 0) bs)) :: u8) = 0 \<longleftrightarrow> filter (\<lambda>p. p \<noteq> 0) bs = []"
    by (simp add: word_of_nat_eq_0_iff dvd_imp_le [THEN leD] flip: length_0_conv) (auto dest: dvd_imp_le)
  then show ?thesis
    unfolding has_anykey_def has_anykey_count bs_def [symmetric] by (auto simp: filter_empty_conv)
qed

interpretation kro6: key_set kro6_inv "is_key_pressed False" kro6_fits add_key_byte del_key_byte
  "clear_keys_from_report False" "\<lambda>r. has_anykey False r \<noteq> 0"
proof
  fix r :: report_keyboard and k j :: u8 assume inv: "kro6_inv r" and k: "k \<noteq> 0"
  then have len: "length (rk_payload r) = KEYBOARD_REPORT_BITS" by (simp add: kro6_inv_def)
  note keys = rk_keys_add_key_byte [OF len] rk_keys_del_key_byte [OF len]
  show "kro6_inv (add_key_byte r k)"
    using inv nth_first_zero [of "rk_keys r"]
    by (auto simp: kro6_inv_def keys intro: distinct_nonzero_update)
  show "kro6_inv (del_key_byte r k)"
    using inv by (simp add: kro6_inv_def keys filter_nonzero_map) (metis distinct_filter filter_filter)
  show "is_key_pressed False (add_key_byte r k) j \<longleftrightarrow> is_key_pressed False r j \<or> j = k \<and> kro6_fits r k"
    using k nth_first_zero [of "rk_keys r"]
    by (auto simp: is_key_pressed_def keys kro6_fits_def set_update_zero)
  show "is_key_pressed False (del_key_byte r k) j \<longleftrightarrow> is_key_pressed False r j \<and> j \<noteq> k"
    by (auto simp: is_key_pressed_def keys)
next
  fix r :: report_keyboard and j :: u8 assume inv: "kro6_inv r"
  then have len: "length (rk_payload r) = KEYBOARD_REPORT_BITS" by (simp add: kro6_inv_def)
  have keys: "rk_keys (clear_keys_from_report False r) = replicate 6 0"
    by (simp add: rk_keys_def clear_keys_from_report_def KEYBOARD_REPORT_KEYS_def)
  show "kro6_inv (clear_keys_from_report False r)"
    using len by (simp add: kro6_inv_def keys)
      (simp add: clear_keys_from_report_def KEYBOARD_REPORT_BITS_def KEYBOARD_REPORT_KEYS_def)
  show "\<not> is_key_pressed False (clear_keys_from_report False r) j"
    by (simp add: is_key_pressed_def keys)
  show "has_anykey False r \<noteq> 0 \<longleftrightarrow> (\<exists>j. is_key_pressed False r j)"
    by (auto simp: has_anykey_iff [OF len] is_key_pressed_def)
qed

section \<open>The NKRO layout is a set of keys below 240\<close>

text \<open>
  Bit 0 of byte 0 stands for \<open>KC_NO\<close>, which no caller adds; the invariant says that it is clear, so
  that a non-zero byte always is a pressed key.
\<close>

definition nkro_inv :: "report_keyboard \<Rightarrow> bool" where
  "nkro_inv r \<longleftrightarrow> length (rk_payload r) = KEYBOARD_REPORT_BITS \<and> \<not> bit (rk_payload r ! 0) 0"

definition nkro_fits :: "report_keyboard \<Rightarrow> u8 \<Rightarrow> bool" where
  "nkro_fits r k \<longleftrightarrow> unat k < 8 * KEYBOARD_REPORT_BITS"

lemma nkro_byte: "unat (drop_bit 3 k) = unat k div 8" for k :: u8
  by (simp only: unat_drop_bit_eq) (simp add: drop_bit_eq_div)

lemma nkro_bit: "unat (k AND 7) = unat k mod 8" for k :: u8
proof -
  have "k AND 7 = take_bit 3 k" by (simp add: take_bit_eq_mask mask_eq_exp_minus_1)
  then have "unat (k AND 7) = take_bit 3 (unat k)" by (simp only: unsigned_take_bit_eq)
  then show ?thesis by (simp add: take_bit_eq_mod)
qed

lemma nkro_pressed:
  "is_key_pressed True r k \<longleftrightarrow>
     k \<noteq> 0 \<and> unat k div 8 < KEYBOARD_REPORT_BITS \<and> bit (rk_payload r ! (unat k div 8)) (unat k mod 8)"
  by (simp add: is_key_pressed_def nkro_byte nkro_bit bit_lemmas)

lemma nkro_position_inj: "j = k \<longleftrightarrow> unat j div 8 = unat k div 8 \<and> unat j mod 8 = unat k mod 8" for j k :: u8
  by (metis div_mult_mod_eq word_unat_eq_iff)

lemma nth_add_key_bit:
  assumes "length (rk_payload r) = KEYBOARD_REPORT_BITS" "i < KEYBOARD_REPORT_BITS" "b < 8"
  shows "bit (rk_payload (add_key_bit r k) ! i) b \<longleftrightarrow>
    bit (rk_payload r ! i) b \<or> unat k div 8 = i \<and> unat k mod 8 = b"
  using assms by (auto simp: add_key_bit_def Let_def nkro_byte nkro_bit nth_list_update bit_or_iff bit_lemmas)

lemma nth_del_key_bit:
  assumes "length (rk_payload r) = KEYBOARD_REPORT_BITS" "i < KEYBOARD_REPORT_BITS" "b < 8"
  shows "bit (rk_payload (del_key_bit r k) ! i) b \<longleftrightarrow>
    bit (rk_payload r ! i) b \<and> \<not> (unat k div 8 = i \<and> unat k mod 8 = b)"
  using assms by (auto simp: del_key_bit_def Let_def nkro_byte nkro_bit nth_list_update bit_and_iff bit_not_iff bit_lemmas)

lemma length_payload_key_bit [simp]:
  "length (rk_payload (add_key_bit r k)) = length (rk_payload r)"
  "length (rk_payload (del_key_bit r k)) = length (rk_payload r)"
  by (simp_all add: add_key_bit_def del_key_bit_def Let_def)

lemma nonzero_byte_has_bit: "p \<noteq> 0 \<longleftrightarrow> (\<exists>b<8. bit p b)" for p :: u8
  using bit_word_eqI_iff [of p 0] by simp

lemma nkro_any:
  assumes "nkro_inv r"
  shows "has_anykey True r \<noteq> 0 \<longleftrightarrow> (\<exists>j. is_key_pressed True r j)"
proof -
  have len: "length (rk_payload r) = KEYBOARD_REPORT_BITS" and bit0: "\<not> bit (rk_payload r ! 0) 0"
    using assms by (auto simp: nkro_inv_def)
  have "has_anykey True r \<noteq> 0 \<longleftrightarrow> (\<exists>i<KEYBOARD_REPORT_BITS. \<exists>b<8. bit (rk_payload r ! i) b)"
    unfolding has_anykey_iff [OF len] if_True using len by (metis in_set_conv_nth nonzero_byte_has_bit)
  also have "\<dots> \<longleftrightarrow> (\<exists>j. is_key_pressed True r j)"
  proof
    assume "\<exists>i<KEYBOARD_REPORT_BITS. \<exists>b<8. bit (rk_payload r ! i) b"
    then obtain i b where ib: "i < KEYBOARD_REPORT_BITS" "b < 8" "bit (rk_payload r ! i) b" by blast
    define j :: u8 where "j = of_nat (8 * i + b)"
    have "8 * i + b < 256" using ib(1,2) by (simp add: KEYBOARD_REPORT_BITS_def)
    then have j: "unat j = 8 * i + b" by (simp only: j_def unat_of_nat) simp
    moreover have "j \<noteq> 0"
    proof
      assume "j = 0"
      then have "i = 0" "b = 0" using j by simp_all
      with ib(3) bit0 show False by simp
    qed
    ultimately have "is_key_pressed True r j" using ib by (simp add: nkro_pressed)
    then show "\<exists>j. is_key_pressed True r j" ..
  next
    assume "\<exists>j. is_key_pressed True r j"
    then show "\<exists>i<KEYBOARD_REPORT_BITS. \<exists>b<8. bit (rk_payload r ! i) b"
      by (metis nkro_pressed mod_less_divisor zero_less_numeral)
  qed
  finally show ?thesis .
qed

lemma nonzero_key_position: "k \<noteq> 0 \<Longrightarrow> 8 dvd unat k \<Longrightarrow> 0 < unat k div 8" for k :: u8
  using unat_gt_0 [of k] by (auto elim: dvdE)

interpretation nkro: key_set nkro_inv "is_key_pressed True" nkro_fits add_key_bit del_key_bit
  "clear_keys_from_report True" "\<lambda>r. has_anykey True r \<noteq> 0"
proof
  fix r :: report_keyboard and k j :: u8 assume inv: "nkro_inv r" and k: "k \<noteq> 0"
  then have len: "length (rk_payload r) = KEYBOARD_REPORT_BITS" by (simp add: nkro_inv_def)
  have pos: "0 < KEYBOARD_REPORT_BITS" by (simp add: KEYBOARD_REPORT_BITS_def)
  show "nkro_inv (add_key_bit r k)" "nkro_inv (del_key_bit r k)"
    using inv k pos nonzero_key_position [of k]
    by (auto simp: nkro_inv_def nth_add_key_bit nth_del_key_bit)
  show "is_key_pressed True (add_key_bit r k) j \<longleftrightarrow> is_key_pressed True r j \<or> j = k \<and> nkro_fits r k"
    using k nkro_position_inj [of j k] by (auto simp: nkro_pressed nth_add_key_bit len nkro_fits_def)
  show "is_key_pressed True (del_key_bit r k) j \<longleftrightarrow> is_key_pressed True r j \<and> j \<noteq> k"
    using nkro_position_inj [of j k] by (auto simp: nkro_pressed nth_del_key_bit len)
next
  fix r :: report_keyboard and j :: u8 assume inv: "nkro_inv r"
  show "nkro_inv (clear_keys_from_report True r)"
    by (simp add: nkro_inv_def clear_keys_from_report_def KEYBOARD_REPORT_BITS_def)
  show "\<not> is_key_pressed True (clear_keys_from_report True r) j"
    by (simp add: nkro_pressed clear_keys_from_report_def)
  show "has_anykey True r \<noteq> 0 \<longleftrightarrow> (\<exists>j. is_key_pressed True r j)"
    using inv by (rule nkro_any)
qed

section \<open>Both layouts behind one interface\<close>

text \<open>
  \<open>report_inv\<close> and \<open>report_fits\<close> are the invariant and the capacity of the layout in use;
  \<open>add_key_to_report\<close> and its kin are then a set of keys whatever the layout.
\<close>

definition report_inv :: "bool \<Rightarrow> report_keyboard \<Rightarrow> bool" where
  "report_inv nkro r = (if nkro then nkro_inv r else kro6_inv r)"

definition report_fits :: "bool \<Rightarrow> report_keyboard \<Rightarrow> u8 \<Rightarrow> bool" where
  "report_fits nkro r k = (if nkro then nkro_fits r k else kro6_fits r k)"

lemma report_key_set:
  "key_set (report_inv nkro) (is_key_pressed nkro) (report_fits nkro) (add_key_to_report nkro)
     (del_key_from_report nkro) (clear_keys_from_report nkro) (\<lambda>r. has_anykey nkro r \<noteq> 0)"
  using kro6.key_set_axioms nkro.key_set_axioms
  by (cases nkro) (simp_all add: report_inv_def [abs_def] report_fits_def [abs_def]
      add_key_to_report_def [abs_def] del_key_from_report_def [abs_def])

interpretation report: key_set "report_inv nkro" "is_key_pressed nkro" "report_fits nkro"
  "add_key_to_report nkro" "del_key_from_report nkro" "clear_keys_from_report nkro"
  "\<lambda>r. has_anykey nkro r \<noteq> 0" for nkro
  by (rule report_key_set)

lemma report_inv_empty: "report_inv nkro empty_report"
  by (simp add: report_inv_def nkro_inv_def kro6_inv_def empty_report_def rk_keys_def
      KEYBOARD_REPORT_BITS_def KEYBOARD_REPORT_KEYS_def)

lemma not_pressed_empty: "\<not> is_key_pressed nkro empty_report k"
  by (cases nkro) (auto simp: nkro_pressed is_key_pressed_def empty_report_def rk_keys_def)

section \<open>Properties\<close>

text \<open>
  (C36) In either layout, pressing a key records exactly that key when it fits (a free slot in the
  boot layout, a code below 240 in the bitmap), keeps the report well formed and leaves every other
  key as it was; a boot report with no free slot drops the key.
\<close>

theorem add_key_records:
  assumes "report_inv nkro r" and "k \<noteq> 0"
  shows "report_inv nkro (add_key_to_report nkro r k) \<and>
    (\<forall>j. is_key_pressed nkro (add_key_to_report nkro r k) j \<longleftrightarrow>
       is_key_pressed nkro r j \<or> j = k \<and> report_fits nkro r k)"
  using assms by (simp add: report.inv_add report.pressed_add)

theorem add_key_records_witness:
  "report_inv False empty_report \<and> (4::u8) \<noteq> 0 \<and>
   is_key_pressed False (add_key_to_report False empty_report 4) 4 \<and>
   \<not> is_key_pressed False (add_key_to_report False empty_report 4) 5"
proof -
  have "report_fits False empty_report 4"
    by (simp add: report_fits_def kro6_fits_def rk_keys_def empty_report_def
        KEYBOARD_REPORT_BITS_def KEYBOARD_REPORT_KEYS_def)
  then show ?thesis
    using add_key_records [OF report_inv_empty [of False], of 4] report_inv_empty [of False]
    by (simp add: not_pressed_empty)
qed

text \<open>
  In either layout, releasing a key removes exactly that key: it is no longer pressed in any
  slot, every other key keeps its state, and a press followed by its release restores the set.
\<close>

theorem del_key_removes:
  assumes "report_inv nkro r" and "k \<noteq> 0"
  shows "report_inv nkro (del_key_from_report nkro r k) \<and>
    (\<forall>j. is_key_pressed nkro (del_key_from_report nkro r k) j \<longleftrightarrow> is_key_pressed nkro r j \<and> j \<noteq> k) \<and>
    (\<not> is_key_pressed nkro r k \<longrightarrow>
      (\<forall>j. is_key_pressed nkro (del_key_from_report nkro (add_key_to_report nkro r k) k) j \<longleftrightarrow>
        is_key_pressed nkro r j))"
  using assms by (simp add: report.inv_del report.pressed_del report.del_add)

theorem del_key_removes_witness:
  "report_inv True (add_key_to_report True empty_report 4) \<and>
   \<not> is_key_pressed True (del_key_from_report True (add_key_to_report True empty_report 4) 4) 4"
proof -
  have "report_inv True (add_key_to_report True empty_report 4)"
    by (rule report.inv_add) (simp_all add: report_inv_empty)
  then show ?thesis using del_key_removes [of True "add_key_to_report True empty_report 4" 4] by simp
qed

lemma takeWhile_short_iff: "length (takeWhile P xs) < length xs \<longleftrightarrow> (\<exists>x \<in> set xs. \<not> P x)"
  by (induction xs) auto

lemma skip_zero_bytes_eq: "skip_zero_bytes bs i = i + length (takeWhile (\<lambda>b. b = 0) bs)"
  by (induction bs arbitrary: i) auto

lemma biton_bit: "p \<noteq> 0 \<Longrightarrow> unat (biton p) < 8 \<and> bit p (unat (biton p))"
  using biton_range [of p] highest_bit_of_range(1) [of "unat (biton p)" p] bit_imp_le_length [of p "unat (biton p)"]
  by simp

lemma unat_nkro_code:
  assumes "i < 30" "unat b < 8"
  shows "unat (push_bit 3 (of_nat i) OR b :: u8) = 8 * i + unat b"
proof -
  have "take_bit 3 b = b"
    using assms(2) by (simp add: word_unat_eq_iff unsigned_take_bit_eq take_bit_nat_eq_self)
  then have "push_bit 3 (of_nat i) AND b = push_bit 3 (of_nat i) AND take_bit 3 b"
    by simp
  also have "\<dots> = 0"
    by (rule bit_word_eqI) (auto simp: bit_simps)
  finally have "push_bit 3 (of_nat i) AND b = 0" .
  then have "push_bit 3 (of_nat i) OR b = push_bit 3 (of_nat i) + b"
    by (rule disjunctive_add_eq_or [symmetric])
  moreover have "unat (push_bit 3 (of_nat i) + b) = 8 * i + unat b"
    using assms by (simp add: unat_word_ariths unat_of_nat push_bit_eq_mult)
  ultimately show ?thesis by simp
qed

lemma get_first_key_pressed:
  assumes inv: "nkro_inv r" and k: "get_first_key True r = Some k"
  shows "is_key_pressed True r k"
proof -
  define i where "i = length (takeWhile (\<lambda>b. b = 0) (rk_payload r))"
  have len: "length (rk_payload r) = 30" using inv by (simp add: nkro_inv_def KEYBOARD_REPORT_BITS_def)
  have i: "i < 30" and k: "k = push_bit 3 (of_nat i) OR biton (rk_payload r ! i)"
    using k len by (auto simp: get_first_key_def skip_zero_bytes_eq Let_def i_def split: if_splits)
  have p: "rk_payload r ! i \<noteq> 0"
    using nth_length_takeWhile [of "\<lambda>b. b = 0" "rk_payload r"] i len by (simp add: i_def)
  note b = biton_bit [OF p]
  have code: "unat k = 8 * i + unat (biton (rk_payload r ! i))"
    unfolding k using i b by (intro unat_nkro_code) simp_all
  have "k \<noteq> 0"
  proof
    assume "k = 0"
    then have "8 * i + unat (biton (rk_payload r ! i)) = 0"
      using code by (simp only: unsigned_0)
    then have "i = 0" "unat (biton (rk_payload r ! i)) = 0"
      by linarith+
    with b inv show False by (metis nkro_inv_def)
  qed
  then show ?thesis
    using b i code by (simp add: nkro_pressed KEYBOARD_REPORT_BITS_def)
qed

text \<open>
  \<open>get_first_key\<close> on an NKRO report reads outside the bitmap exactly when no key is pressed;
  whenever it returns a keycode, that key is pressed.
\<close>

theorem get_first_key_out_of_bounds:
  assumes "report_inv True r"
  shows "(get_first_key True r = None \<longleftrightarrow> (\<forall>k. \<not> is_key_pressed True r k)) \<and>
    (\<forall>k. get_first_key True r = Some k \<longrightarrow> is_key_pressed True r k)"
proof -
  have inv: "nkro_inv r" using assms by (simp add: report_inv_def)
  then have len: "length (rk_payload r) = KEYBOARD_REPORT_BITS" by (simp add: nkro_inv_def)
  have "get_first_key True r = None \<longleftrightarrow> (\<forall>p \<in> set (rk_payload r). p = 0)"
    using takeWhile_short_iff [of "\<lambda>b. b = 0" "rk_payload r"]
    by (auto simp: get_first_key_def skip_zero_bytes_eq Let_def)
  also have "\<dots> \<longleftrightarrow> has_anykey True r = 0"
    using has_anykey_iff [OF len, of True] by auto
  also have "\<dots> \<longleftrightarrow> (\<forall>k. \<not> is_key_pressed True r k)"
    using nkro_any [OF inv] by blast
  finally show ?thesis using get_first_key_pressed [OF inv] by blast
qed

theorem get_first_key_out_of_bounds_witness: "get_first_key True empty_report = None"
  using get_first_key_out_of_bounds [OF report_inv_empty [of True]] by (simp add: not_pressed_empty)

end
