(* ===== verification/Keycodes.thy ===== *)
theory Keycodes
  imports Prelude
begin

text \<open>
  From a position of the keymap to the action it stands for.  quantum/keycodes.h and
  quantum/quantum_keycodes.h number the keycodes, quantum/keycode_config.c remaps them by the
  user's "magic" settings, quantum/action_code.h packs actions into 16 bits and
  quantum/keymap_common.c translates a keycode into such an action.  An action is the C union
  \<open>action_t\<close>: a 16-bit word, with one reader per bit-field of the union.

  The keymap itself is generated from the user's layout and is a parameter, a field of the record
  \<open>keymap_tables\<close>.  The modelled configuration has every action kind enabled (no \<open>NO_ACTION_*\<close>
  option), \<open>EXTRAKEY_ENABLE\<close>, \<open>SWAP_HANDS_ENABLE\<close>, and not \<open>LEGACY_MAGIC_HANDLING\<close>.
\<close>

section \<open>Keycodes\<close>

abbreviation KC_NO :: "'a::len word" where "KC_NO \<equiv> 0x00"

abbreviation KC_TRANSPARENT :: "'a::len word" where "KC_TRANSPARENT \<equiv> 0x01"

abbreviation KC_A :: "'a::len word" where "KC_A \<equiv> 0x04"

abbreviation KC_ESCAPE :: "'a::len word" where "KC_ESCAPE \<equiv> 0x29"

abbreviation KC_BACKSPACE :: "'a::len word" where "KC_BACKSPACE \<equiv> 0x2A"

abbreviation KC_BACKSLASH :: "'a::len word" where "KC_BACKSLASH \<equiv> 0x31"

abbreviation KC_GRAVE :: "'a::len word" where "KC_GRAVE \<equiv> 0x35"

abbreviation KC_CAPS_LOCK :: "'a::len word" where "KC_CAPS_LOCK \<equiv> 0x39"

abbreviation KC_LOCKING_CAPS_LOCK :: "'a::len word" where "KC_LOCKING_CAPS_LOCK \<equiv> 0x82"

abbreviation KC_EXSEL :: "'a::len word" where "KC_EXSEL \<equiv> 0xA4"

abbreviation KC_SYSTEM_POWER :: "'a::len word" where "KC_SYSTEM_POWER \<equiv> 0xA5"

abbreviation KC_SYSTEM_WAKE :: "'a::len word" where "KC_SYSTEM_WAKE \<equiv> 0xA7"

abbreviation KC_AUDIO_MUTE :: "'a::len word" where "KC_AUDIO_MUTE \<equiv> 0xA8"

abbreviation KC_LAUNCHPAD :: "'a::len word" where "KC_LAUNCHPAD \<equiv> 0xC2"

abbreviation KC_MS_UP :: "'a::len word" where "KC_MS_UP \<equiv> 0xCD"

abbreviation KC_MS_ACCEL2 :: "'a::len word" where "KC_MS_ACCEL2 \<equiv> 0xDF"

abbreviation KC_LEFT_CTRL :: "'a::len word" where "KC_LEFT_CTRL \<equiv> 0xE0"

abbreviation KC_LEFT_SHIFT :: "'a::len word" where "KC_LEFT_SHIFT \<equiv> 0xE1"

abbreviation KC_LEFT_ALT :: "'a::len word" where "KC_LEFT_ALT \<equiv> 0xE2"

abbreviation KC_LEFT_GUI :: "'a::len word" where "KC_LEFT_GUI \<equiv> 0xE3"

abbreviation KC_RIGHT_CTRL :: "'a::len word" where "KC_RIGHT_CTRL \<equiv> 0xE4"

abbreviation KC_RIGHT_ALT :: "'a::len word" where "KC_RIGHT_ALT \<equiv> 0xE6"

abbreviation KC_RIGHT_GUI :: "'a::len word" where "KC_RIGHT_GUI \<equiv> 0xE7"

text \<open>The classes of 8-bit keycodes.\<close>

definition IS_BASIC_KEYCODE :: "'a::len word \<Rightarrow> bool" where
  "IS_BASIC_KEYCODE code \<longleftrightarrow> KC_A \<le> code \<and> code \<le> KC_EXSEL"

definition IS_SYSTEM_KEYCODE :: "'a::len word \<Rightarrow> bool" where
  "IS_SYSTEM_KEYCODE code \<longleftrightarrow> KC_SYSTEM_POWER \<le> code \<and> code \<le> KC_SYSTEM_WAKE"

definition IS_CONSUMER_KEYCODE :: "'a::len word \<Rightarrow> bool" where
  "IS_CONSUMER_KEYCODE code \<longleftrightarrow> KC_AUDIO_MUTE \<le> code \<and> code \<le> KC_LAUNCHPAD"

definition IS_MOUSE_KEYCODE :: "'a::len word \<Rightarrow> bool" where
  "IS_MOUSE_KEYCODE code \<longleftrightarrow> KC_MS_UP \<le> code \<and> code \<le> KC_MS_ACCEL2"

definition IS_MODIFIER_KEYCODE :: "'a::len word \<Rightarrow> bool" where
  "IS_MODIFIER_KEYCODE code \<longleftrightarrow> KC_LEFT_CTRL \<le> code \<and> code \<le> KC_RIGHT_GUI"

text \<open>\<open>MOD_BIT(code)\<close> (quantum/keycode.h): the modifier's bit in the report, by its low three bits.\<close>

definition MOD_BIT :: "u8 \<Rightarrow> u8" where
  "MOD_BIT code = push_bit (unat (code AND 0x07)) 1"

section \<open>System and consumer usages\<close>

definition KEYCODE2SYSTEM :: "u8 \<Rightarrow> u16" where
  "KEYCODE2SYSTEM key =
    (if key = 0xA5 then 0x81 else if key = 0xA6 then 0x82 else if key = 0xA7 then 0x83 else 0)"

definition KEYCODE2CONSUMER :: "u8 \<Rightarrow> u16" where
  "KEYCODE2CONSUMER key =
    (case map_of
       [(0xA8, 0x0E2), (0xA9, 0x0E9), (0xAA, 0x0EA), (0xAB, 0x0B5), (0xAC, 0x0B6), (0xBB, 0x0B3),
        (0xBC, 0x0B4), (0xAD, 0x0B7), (0xB0, 0x0CC), (0xAE, 0x0CD), (0xAF, 0x183), (0xB1, 0x18A),
        (0xB2, 0x192), (0xB3, 0x194), (0xBF, 0x19F), (0xC0, 0x1CB), (0xB4, 0x221), (0xB5, 0x223),
        (0xB6, 0x224), (0xB7, 0x225), (0xB8, 0x226), (0xB9, 0x227), (0xBD, 0x06F), (0xBE, 0x070),
        (0xBA, 0x22A), (0xC1, 0x29F), (0xC2, 0x2A0)] key
     of Some usage \<Rightarrow> usage | None \<Rightarrow> 0)"

section \<open>The user's keycode settings\<close>

record keymap_config_t =
  swap_control_capslock :: bool
  capslock_to_control :: bool
  swap_lalt_lgui :: bool
  swap_ralt_rgui :: bool
  no_gui :: bool
  swap_grave_esc :: bool
  swap_backslash_backspace :: bool
  nkro :: bool
  swap_lctl_lgui :: bool
  swap_rctl_rgui :: bool
  oneshot_enable :: bool
  swap_escape_capslock :: bool
  autocorrect_enable :: bool

definition keycode_config :: "keymap_config_t \<Rightarrow> u16 \<Rightarrow> u16" where
  "keycode_config c keycode =
    (if keycode = KC_CAPS_LOCK \<or> keycode = KC_LOCKING_CAPS_LOCK then
       (if swap_control_capslock c \<or> capslock_to_control c then KC_LEFT_CTRL
        else if swap_escape_capslock c then KC_ESCAPE
        else keycode)
     else if keycode = KC_LEFT_CTRL then
       (if swap_control_capslock c then KC_CAPS_LOCK
        else if swap_lctl_lgui c then (if no_gui c then KC_NO else KC_LEFT_GUI)
        else KC_LEFT_CTRL)
     else if keycode = KC_LEFT_ALT then
       (if swap_lalt_lgui c then (if no_gui c then KC_NO else KC_LEFT_GUI) else KC_LEFT_ALT)
     else if keycode = KC_LEFT_GUI then
       (if swap_lalt_lgui c then KC_LEFT_ALT
        else if swap_lctl_lgui c then KC_LEFT_CTRL
        else if no_gui c then KC_NO
        else KC_LEFT_GUI)
     else if keycode = KC_RIGHT_CTRL then
       (if swap_rctl_rgui c then (if no_gui c then KC_NO else KC_RIGHT_GUI) else KC_RIGHT_CTRL)
     else if keycode = KC_RIGHT_ALT then
       (if swap_ralt_rgui c then (if no_gui c then KC_NO else KC_RIGHT_GUI) else KC_RIGHT_ALT)
     else if keycode = KC_RIGHT_GUI then
       (if swap_ralt_rgui c then KC_RIGHT_ALT
        else if swap_rctl_rgui c then KC_RIGHT_CTRL
        else if no_gui c then KC_NO
        else KC_RIGHT_GUI)
     else if keycode = KC_GRAVE then
       (if swap_grave_esc c then KC_ESCAPE else KC_GRAVE)
     else if keycode = KC_ESCAPE then
       (if swap_grave_esc c then KC_GRAVE
        else if swap_escape_capslock c then KC_CAPS_LOCK
        else KC_ESCAPE)
     else if keycode = KC_BACKSLASH then
       (if swap_backslash_backspace c then KC_BACKSPACE else KC_BACKSLASH)
     else if keycode = KC_BACKSPACE then
       (if swap_backslash_backspace c then KC_BACKSLASH else KC_BACKSPACE)
     else keycode)"

text \<open>
  The 5-bit modifiers of quantum/modifiers.h: bit 4 says that the low four are the right-hand
  ones.
\<close>

abbreviation MOD_LCTL :: u8 where "MOD_LCTL \<equiv> 0x01"

abbreviation MOD_LALT :: u8 where "MOD_LALT \<equiv> 0x04"

abbreviation MOD_LGUI :: u8 where "MOD_LGUI \<equiv> 0x08"

abbreviation MOD_RCTL :: u8 where "MOD_RCTL \<equiv> 0x11"

abbreviation MOD_RALT :: u8 where "MOD_RALT \<equiv> 0x14"

abbreviation MOD_RGUI :: u8 where "MOD_RGUI \<equiv> 0x18"

definition mod_config :: "keymap_config_t \<Rightarrow> u8 \<Rightarrow> u8" where
  "mod_config c mod0 =
    (let m = mod0;
         m = (if swap_lalt_lgui c \<and> ((m AND MOD_RALT = MOD_LALT) \<noteq> (m AND MOD_RGUI = MOD_LGUI))
              then m XOR (MOD_LALT OR MOD_LGUI) else m);
         m = (if swap_ralt_rgui c \<and> ((m AND MOD_RALT = MOD_RALT) \<noteq> (m AND MOD_RGUI = MOD_RGUI))
              then m XOR (MOD_LALT OR MOD_LGUI) else m);
         m = (if swap_lctl_lgui c \<and> ((m AND MOD_RCTL = MOD_LCTL) \<noteq> (m AND MOD_RGUI = MOD_LGUI))
              then m XOR (MOD_LCTL OR MOD_LGUI) else m);
         m = (if swap_rctl_rgui c \<and> ((m AND MOD_RCTL = MOD_RCTL) \<noteq> (m AND MOD_RGUI = MOD_RGUI))
              then m XOR (MOD_LCTL OR MOD_LGUI) else m);
         m = (if no_gui c then (m AND NOT MOD_LGUI) AND NOT MOD_RGUI else m)
     in m)"

section \<open>Action codes\<close>

type_synonym action_t = u16

abbreviation ACT_LMODS :: u8 where "ACT_LMODS \<equiv> 0x0"

abbreviation ACT_RMODS :: u8 where "ACT_RMODS \<equiv> 0x1"

abbreviation ACT_LMODS_TAP :: u8 where "ACT_LMODS_TAP \<equiv> 0x2"

abbreviation ACT_RMODS_TAP :: u8 where "ACT_RMODS_TAP \<equiv> 0x3"

abbreviation ACT_USAGE :: u8 where "ACT_USAGE \<equiv> 0x4"

abbreviation ACT_MOUSEKEY :: u8 where "ACT_MOUSEKEY \<equiv> 0x5"

abbreviation ACT_SWAP_HANDS :: u8 where "ACT_SWAP_HANDS \<equiv> 0x6"

abbreviation ACT_LAYER :: u8 where "ACT_LAYER \<equiv> 0x8"

abbreviation ACT_LAYER_MODS :: u8 where "ACT_LAYER_MODS \<equiv> 0x9"

abbreviation ACT_LAYER_TAP :: u8 where "ACT_LAYER_TAP \<equiv> 0xA"

abbreviation ACT_LAYER_TAP_EXT :: u8 where "ACT_LAYER_TAP_EXT \<equiv> 0xB"

text \<open>The readers of the union's bit-fields, from the least significant bit.\<close>

definition kind_id :: "action_t \<Rightarrow> u8" where
  "kind_id a = ucast (drop_bit 12 a)"

definition key_code :: "action_t \<Rightarrow> u8" where
  "key_code a = ucast a"

definition key_mods :: "action_t \<Rightarrow> u8" where
  "key_mods a = ucast (drop_bit 8 a) AND 0x0F"

definition layer_bitop_bits :: "action_t \<Rightarrow> u8" where
  "layer_bitop_bits a = ucast a AND 0x0F"

definition layer_bitop_xbit :: "action_t \<Rightarrow> bool" where
  "layer_bitop_xbit a = bit a 4"

definition layer_bitop_part :: "action_t \<Rightarrow> u8" where
  "layer_bitop_part a = ucast (drop_bit 5 a) AND 0x07"

definition layer_bitop_on :: "action_t \<Rightarrow> u8" where
  "layer_bitop_on a = ucast (drop_bit 8 a) AND 0x03"

definition layer_bitop_op :: "action_t \<Rightarrow> u8" where
  "layer_bitop_op a = ucast (drop_bit 10 a) AND 0x03"

definition layer_mods_mods :: "action_t \<Rightarrow> u8" where
  "layer_mods_mods a = ucast a"

definition layer_mods_layer :: "action_t \<Rightarrow> u8" where
  "layer_mods_layer a = ucast (drop_bit 8 a) AND 0x0F"

definition layer_tap_code :: "action_t \<Rightarrow> u8" where
  "layer_tap_code a = ucast a"

definition layer_tap_val :: "action_t \<Rightarrow> u8" where
  "layer_tap_val a = ucast (drop_bit 8 a) AND 0x1F"

definition usage_code :: "action_t \<Rightarrow> u16" where
  "usage_code a = a AND 0x03FF"

definition usage_page :: "action_t \<Rightarrow> u8" where
  "usage_page a = ucast (drop_bit 10 a) AND 0x03"

definition swap_code :: "action_t \<Rightarrow> u8" where
  "swap_code a = ucast a"

abbreviation ACTION_NO :: action_t where "ACTION_NO \<equiv> 0"

abbreviation ACTION_TRANSPARENT :: action_t where "ACTION_TRANSPARENT \<equiv> 1"

text \<open>The constructors.  C computes them as \<open>int\<close> and stores the low 16 bits.\<close>

definition ACTION :: "u16 \<Rightarrow> u16 \<Rightarrow> action_t" where
  "ACTION kind param = push_bit 12 kind OR param"

definition ACTION_KEY :: "u16 \<Rightarrow> action_t" where
  "ACTION_KEY key = ACTION 0x0 key"

definition ACTION_MODS_KEY :: "u16 \<Rightarrow> u16 \<Rightarrow> action_t" where
  "ACTION_MODS_KEY mods key = ACTION 0x0 (push_bit 8 (mods AND 0x1F) OR key)"

definition ACTION_MODS_TAP_KEY :: "u16 \<Rightarrow> u16 \<Rightarrow> action_t" where
  "ACTION_MODS_TAP_KEY mods key = ACTION 0x2 (push_bit 8 (mods AND 0x1F) OR key)"

definition ACTION_MODS_ONESHOT :: "u16 \<Rightarrow> action_t" where
  "ACTION_MODS_ONESHOT mods = ACTION 0x2 (push_bit 8 (mods AND 0x1F) OR 0x00)"

definition ACTION_USAGE_SYSTEM :: "u16 \<Rightarrow> action_t" where
  "ACTION_USAGE_SYSTEM usage = ACTION 0x4 (push_bit 10 0 OR usage)"

definition ACTION_USAGE_CONSUMER :: "u16 \<Rightarrow> action_t" where
  "ACTION_USAGE_CONSUMER usage = ACTION 0x4 (push_bit 10 1 OR usage)"

definition ACTION_MOUSEKEY :: "u16 \<Rightarrow> action_t" where
  "ACTION_MOUSEKEY key = ACTION 0x5 key"

definition ACTION_LAYER_BITOP :: "u16 \<Rightarrow> u16 \<Rightarrow> u16 \<Rightarrow> u16 \<Rightarrow> action_t" where
  "ACTION_LAYER_BITOP op part bits on =
     ACTION 0x8 (push_bit 10 op OR push_bit 8 on OR push_bit 5 part OR (bits AND 0x1F))"

definition ACTION_LAYER_TAP :: "u16 \<Rightarrow> u16 \<Rightarrow> action_t" where
  "ACTION_LAYER_TAP layer key = ACTION 0xA (push_bit 8 layer OR key)"

definition ACTION_LAYER_MODS :: "u16 \<Rightarrow> u16 \<Rightarrow> action_t" where
  "ACTION_LAYER_MODS layer mods = ACTION 0x9 (push_bit 8 layer OR mods)"

definition ACTION_LAYER_GOTO :: "u16 \<Rightarrow> action_t" where
  "ACTION_LAYER_GOTO layer = ACTION_LAYER_BITOP 3 (layer div 4) (push_bit (unat (layer mod 4)) 1) 1"

definition ACTION_DEFAULT_LAYER_SET :: "u16 \<Rightarrow> action_t" where
  "ACTION_DEFAULT_LAYER_SET layer =
     ACTION_LAYER_BITOP 3 (layer div 4) (push_bit (unat (layer mod 4)) 1) 0"

definition ACTION_LAYER_TOGGLE :: "u16 \<Rightarrow> action_t" where
  "ACTION_LAYER_TOGGLE layer =
     ACTION_LAYER_BITOP 2 (layer div 4) (push_bit (unat (layer mod 4)) 1) 2"

definition ACTION_LAYER_MOMENTARY :: "u16 \<Rightarrow> action_t" where
  "ACTION_LAYER_MOMENTARY layer = ACTION_LAYER_TAP layer 0xF1"

definition ACTION_LAYER_ONESHOT :: "u16 \<Rightarrow> action_t" where
  "ACTION_LAYER_ONESHOT layer = ACTION_LAYER_TAP layer 0xF4"

definition ACTION_LAYER_TAP_TOGGLE :: "u16 \<Rightarrow> action_t" where
  "ACTION_LAYER_TAP_TOGGLE layer = ACTION_LAYER_TAP layer 0xF0"

section \<open>Keycodes of the layer and tap functions\<close>

definition TO :: "u16 \<Rightarrow> u16" where
  "TO layer = 0x5200 OR (layer AND 0x1F)"

definition MO :: "u16 \<Rightarrow> u16" where
  "MO layer = 0x5220 OR (layer AND 0x1F)"

definition DF :: "u16 \<Rightarrow> u16" where
  "DF layer = 0x5240 OR (layer AND 0x1F)"

definition TG :: "u16 \<Rightarrow> u16" where
  "TG layer = 0x5260 OR (layer AND 0x1F)"

definition OSL :: "u16 \<Rightarrow> u16" where
  "OSL layer = 0x5280 OR (layer AND 0x1F)"

definition TT :: "u16 \<Rightarrow> u16" where
  "TT layer = 0x52C0 OR (layer AND 0x1F)"

definition LM :: "u16 \<Rightarrow> u16 \<Rightarrow> u16" where
  "LM layer m = 0x5000 OR push_bit 5 (layer AND 0xF) OR (m AND 0x1F)"

definition LT :: "u16 \<Rightarrow> u16 \<Rightarrow> u16" where
  "LT layer kc = 0x4000 OR push_bit 8 (layer AND 0xF) OR (kc AND 0xFF)"

definition MT :: "u16 \<Rightarrow> u16 \<Rightarrow> u16" where
  "MT m kc = 0x2000 OR push_bit 8 (m AND 0x1F) OR (kc AND 0xFF)"

text \<open>Ranges of keycodes, and the parts of a keycode.\<close>

definition IS_QK_MODS :: "u16 \<Rightarrow> bool" where
  "IS_QK_MODS code \<longleftrightarrow> 0x0100 \<le> code \<and> code \<le> 0x1FFF"

definition IS_QK_MOD_TAP :: "u16 \<Rightarrow> bool" where
  "IS_QK_MOD_TAP code \<longleftrightarrow> 0x2000 \<le> code \<and> code \<le> 0x3FFF"

definition IS_QK_LAYER_TAP :: "u16 \<Rightarrow> bool" where
  "IS_QK_LAYER_TAP code \<longleftrightarrow> 0x4000 \<le> code \<and> code \<le> 0x4FFF"

definition IS_QK_TO :: "u16 \<Rightarrow> bool" where
  "IS_QK_TO code \<longleftrightarrow> 0x5200 \<le> code \<and> code \<le> 0x521F"

definition IS_QK_MOMENTARY :: "u16 \<Rightarrow> bool" where
  "IS_QK_MOMENTARY code \<longleftrightarrow> 0x5220 \<le> code \<and> code \<le> 0x523F"

definition IS_QK_TOGGLE_LAYER :: "u16 \<Rightarrow> bool" where
  "IS_QK_TOGGLE_LAYER code \<longleftrightarrow> 0x5260 \<le> code \<and> code \<le> 0x527F"

definition IS_QK_ONE_SHOT_LAYER :: "u16 \<Rightarrow> bool" where
  "IS_QK_ONE_SHOT_LAYER code \<longleftrightarrow> 0x5280 \<le> code \<and> code \<le> 0x529F"

definition IS_QK_ONE_SHOT_MOD :: "u16 \<Rightarrow> bool" where
  "IS_QK_ONE_SHOT_MOD code \<longleftrightarrow> 0x52A0 \<le> code \<and> code \<le> 0x52BF"

definition IS_QK_LAYER_TAP_TOGGLE :: "u16 \<Rightarrow> bool" where
  "IS_QK_LAYER_TAP_TOGGLE code \<longleftrightarrow> 0x52C0 \<le> code \<and> code \<le> 0x52DF"

definition IS_QK_SWAP_HANDS :: "u16 \<Rightarrow> bool" where
  "IS_QK_SWAP_HANDS code \<longleftrightarrow> 0x5600 \<le> code \<and> code \<le> 0x56FF"

definition IS_QK_TAP_DANCE :: "u16 \<Rightarrow> bool" where
  "IS_QK_TAP_DANCE code \<longleftrightarrow> 0x5700 \<le> code \<and> code \<le> 0x57FF"

definition IS_SWAP_HANDS_KEYCODE :: "u16 \<Rightarrow> bool" where
  "IS_SWAP_HANDS_KEYCODE code \<longleftrightarrow> 0x56F0 \<le> code \<and> code \<le> 0x56F6"

definition OSM :: "u16 \<Rightarrow> u16" where
  "OSM m = 0x52A0 OR (m AND 0x1F)"

definition QK_MOD_TAP_GET_MODS :: "u16 \<Rightarrow> u8" where
  "QK_MOD_TAP_GET_MODS kc = ucast (drop_bit 8 kc AND 0x1F)"

definition QK_MOD_TAP_GET_TAP_KEYCODE :: "u16 \<Rightarrow> u16" where
  "QK_MOD_TAP_GET_TAP_KEYCODE kc = kc AND 0xFF"

definition QK_LAYER_TAP_GET_TAP_KEYCODE :: "u16 \<Rightarrow> u16" where
  "QK_LAYER_TAP_GET_TAP_KEYCODE kc = kc AND 0xFF"

definition QK_SWAP_HANDS_GET_TAP_KEYCODE :: "u16 \<Rightarrow> u16" where
  "QK_SWAP_HANDS_GET_TAP_KEYCODE kc = kc AND 0xFF"

section \<open>From a keycode to an action\<close>

definition action_for_keycode :: "keymap_config_t \<Rightarrow> u16 \<Rightarrow> action_t" where
  "action_for_keycode c keycode0 =
    (let keycode = keycode_config c keycode0 in
     if KC_A \<le> keycode \<and> keycode \<le> KC_EXSEL \<or> KC_LEFT_CTRL \<le> keycode \<and> keycode \<le> KC_RIGHT_GUI then
       ACTION_KEY keycode
     else if KC_SYSTEM_POWER \<le> keycode \<and> keycode \<le> KC_SYSTEM_WAKE then
       ACTION_USAGE_SYSTEM (KEYCODE2SYSTEM (ucast keycode))
     else if KC_AUDIO_MUTE \<le> keycode \<and> keycode \<le> KC_LAUNCHPAD then
       ACTION_USAGE_CONSUMER (KEYCODE2CONSUMER (ucast keycode))
     else if KC_MS_UP \<le> keycode \<and> keycode \<le> KC_MS_ACCEL2 then
       ACTION_MOUSEKEY keycode
     else if keycode = KC_TRANSPARENT then
       ACTION_TRANSPARENT
     else if 0x0100 \<le> keycode \<and> keycode \<le> 0x1FFF then
       ACTION_MODS_KEY (ucast (mod_config c (ucast (drop_bit 8 keycode AND 0x1F))))
         (keycode_config c (keycode AND 0xFF))
     else if 0x4000 \<le> keycode \<and> keycode \<le> 0x4FFF then
       ACTION_LAYER_TAP (drop_bit 8 keycode AND 0xF) (keycode_config c (keycode AND 0xFF))
     else if 0x5200 \<le> keycode \<and> keycode \<le> 0x521F then
       ACTION_LAYER_GOTO (keycode AND 0x1F)
     else if 0x5220 \<le> keycode \<and> keycode \<le> 0x523F then
       ACTION_LAYER_MOMENTARY (keycode AND 0x1F)
     else if 0x5240 \<le> keycode \<and> keycode \<le> 0x525F then
       ACTION_DEFAULT_LAYER_SET (keycode AND 0x1F)
     else if 0x5260 \<le> keycode \<and> keycode \<le> 0x527F then
       ACTION_LAYER_TOGGLE (keycode AND 0x1F)
     else if 0x5280 \<le> keycode \<and> keycode \<le> 0x529F then
       ACTION_LAYER_ONESHOT (keycode AND 0x1F)
     else if 0x52A0 \<le> keycode \<and> keycode \<le> 0x52BF then
       ACTION_MODS_ONESHOT (ucast (mod_config c (ucast (keycode AND 0x1F))))
     else if 0x52C0 \<le> keycode \<and> keycode \<le> 0x52DF then
       ACTION_LAYER_TAP_TOGGLE (keycode AND 0x1F)
     else if 0x5000 \<le> keycode \<and> keycode \<le> 0x51FF then
       (let m = (ucast (mod_config c (ucast (keycode AND 0x1F))) :: u16)
        in ACTION_LAYER_MODS (drop_bit 5 keycode AND 0xF) (if m AND 0x10 \<noteq> 0 then push_bit 4 m else m))
     else if 0x2000 \<le> keycode \<and> keycode \<le> 0x3FFF then
       ACTION_MODS_TAP_KEY (ucast (mod_config c (ucast (drop_bit 8 keycode AND 0x1F))))
         (keycode_config c (keycode AND 0xFF))
     else if 0x5600 \<le> keycode \<and> keycode \<le> 0x56FF then
       ACTION 0x6 (keycode_config c (keycode AND 0xFF))
     else ACTION_NO)"

section \<open>Positions and the keymap\<close>

record keypos_t =
  kp_col :: u8
  kp_row :: u8

definition KEYEQ :: "keypos_t \<Rightarrow> keypos_t \<Rightarrow> bool" where
  "KEYEQ a b \<longleftrightarrow> kp_row a = kp_row b \<and> kp_col a = kp_col b"

lemma KEYEQ_iff [simp]: "KEYEQ a b \<longleftrightarrow> a = b"
  by (cases a; cases b) (auto simp: KEYEQ_def)

abbreviation KEYLOC_ENCODER_CW :: u8 where "KEYLOC_ENCODER_CW \<equiv> 253"

abbreviation KEYLOC_ENCODER_CCW :: u8 where "KEYLOC_ENCODER_CCW \<equiv> 252"

text \<open>
  The generated tables and the size of the matrix.  \<open>km_encoder_map\<close> is \<open>ENCODER_MAP_ENABLE\<close>.
\<close>

record keymap_tables =
  MATRIX_ROWS :: nat
  MATRIX_COLS :: nat
  NUM_ENCODERS :: nat
  km_encoder_map :: bool
  keymap_layers :: nat
  keymaps :: "nat \<Rightarrow> nat \<Rightarrow> nat \<Rightarrow> u16"
  encoder_map :: "nat \<Rightarrow> nat \<Rightarrow> bool \<Rightarrow> u16"

definition keycode_at_keymap_location :: "('a) keymap_tables_scheme \<Rightarrow> u8 \<Rightarrow> u8 \<Rightarrow> u8 \<Rightarrow> u16" where
  "keycode_at_keymap_location t layer_num row column =
    (if unat layer_num < keymap_layers t \<and> unat row < MATRIX_ROWS t \<and> unat column < MATRIX_COLS t
     then keymaps t (unat layer_num) (unat row) (unat column) else KC_TRANSPARENT)"

definition keycode_at_encodermap_location :: "('a) keymap_tables_scheme \<Rightarrow> u8 \<Rightarrow> u8 \<Rightarrow> bool \<Rightarrow> u16" where
  "keycode_at_encodermap_location t layer_num encoder_idx clockwise =
    (if unat layer_num < keymap_layers t \<and> unat encoder_idx < NUM_ENCODERS t
     then encoder_map t (unat layer_num) (unat encoder_idx) clockwise else KC_TRANSPARENT)"

definition keymap_key_to_keycode :: "('a) keymap_tables_scheme \<Rightarrow> u8 \<Rightarrow> keypos_t \<Rightarrow> u16" where
  "keymap_key_to_keycode t layer key =
    (if unat (kp_row key) < MATRIX_ROWS t \<and> unat (kp_col key) < MATRIX_COLS t
     then keycode_at_keymap_location t layer (kp_row key) (kp_col key)
     else if km_encoder_map t \<and> kp_row key = KEYLOC_ENCODER_CW \<and> unat (kp_col key) < NUM_ENCODERS t
     then keycode_at_encodermap_location t layer (kp_col key) True
     else if km_encoder_map t \<and> kp_row key = KEYLOC_ENCODER_CCW \<and> unat (kp_col key) < NUM_ENCODERS t
     then keycode_at_encodermap_location t layer (kp_col key) False
     else KC_NO)"

definition action_for_key :: "('a) keymap_tables_scheme \<Rightarrow> keymap_config_t \<Rightarrow> u8 \<Rightarrow> keypos_t \<Rightarrow> action_t" where
  "action_for_key t c layer key = action_for_keycode c (keymap_key_to_keycode t layer key)"

section \<open>Remapping touches only the keys of the settings\<close>

lemma not_8bit_keycode: "0x0100 \<le> k \<Longrightarrow> n < 0x0100 \<Longrightarrow> (k = n) = False" for k n :: u16
  by auto

lemma keycode_config_id [simp]: "0x0100 \<le> k \<Longrightarrow> keycode_config c k = k"
  by (simp add: keycode_config_def not_8bit_keycode)

lemma if_le_intro: "a \<le> m \<Longrightarrow> b \<le> m \<Longrightarrow> (if P then a else b) \<le> m"
  by simp

lemma keycode_config_8bit: "k \<le> 0xFF \<Longrightarrow> keycode_config c k \<le> 0xFF"
  unfolding keycode_config_def by (intro if_le_intro) simp_all

lemma action_for_keycode_A: "action_for_keycode c KC_NO = ACTION_NO"
  by (simp add: action_for_keycode_def keycode_config_def Let_def)

section \<open>Reading back what the constructors pack\<close>

lemma less_32_cases:
  assumes "l < (32 :: u16)"
  obtains "l = 0" | "l = 1" | "l = 2" | "l = 3" | "l = 4" | "l = 5" | "l = 6" | "l = 7" | "l = 8"
    | "l = 9" | "l = 10" | "l = 11" | "l = 12" | "l = 13" | "l = 14" | "l = 15" | "l = 16" | "l = 17"
    | "l = 18" | "l = 19" | "l = 20" | "l = 21" | "l = 22" | "l = 23" | "l = 24" | "l = 25"
    | "l = 26" | "l = 27" | "l = 28" | "l = 29" | "l = 30" | "l = 31"
proof -
  have "unat l \<in> {..<32}" using assms by (simp add: word_less_nat_alt)
  then have "(of_nat (unat l) :: u16) \<in> of_nat ` {..<32}" by (rule imageI)
  then show thesis using that by (simp add: lessThan_nat_numeral lessThan_Suc) blast
qed

lemmas action_readers = kind_id_def key_code_def key_mods_def layer_bitop_bits_def layer_bitop_xbit_def
  layer_bitop_part_def layer_bitop_on_def layer_bitop_op_def layer_mods_mods_def layer_mods_layer_def
  layer_tap_code_def layer_tap_val_def swap_code_def

lemmas action_constructors = ACTION_def ACTION_KEY_def ACTION_MODS_KEY_def ACTION_MODS_TAP_KEY_def
  ACTION_MODS_ONESHOT_def ACTION_LAYER_BITOP_def ACTION_LAYER_TAP_def ACTION_LAYER_MODS_def
  ACTION_LAYER_GOTO_def ACTION_DEFAULT_LAYER_SET_def ACTION_LAYER_TOGGLE_def
  ACTION_LAYER_MOMENTARY_def ACTION_LAYER_ONESHOT_def ACTION_LAYER_TAP_TOGGLE_def

lemma and_masks:
  "w AND 0xF = take_bit 4 w" "w AND 0x1F = take_bit 5 w" "w AND 0xFF = take_bit 8 w"
  "w AND 0x07 = take_bit 3 w" "w AND 0x03 = take_bit 2 w"
  for w :: "'a::len word"
  by (simp_all add: take_bit_eq_mask mask_numeral)

text \<open>What the readers return of a packed action with a four-bit and with a five-bit middle field.\<close>

lemma packed_kind:
  "kind_id (ACTION k (push_bit 8 (take_bit 4 m) OR take_bit 8 y)) = ucast (take_bit 4 k)"
  unfolding kind_id_def ACTION_def by (rule bit_word_eqI) (auto simp: bit_simps)

lemma packed_kind_mods:
  "kind_id (ACTION k (push_bit 8 (take_bit 5 m) OR take_bit 8 y)) = ucast (take_bit 4 k OR drop_bit 4 (take_bit 5 m))"
  unfolding kind_id_def ACTION_def by (rule bit_word_eqI) (auto simp: bit_simps)

lemma packed_val:
  "layer_tap_val (ACTION k (push_bit 8 (take_bit 4 m) OR take_bit 8 y)) =
     ucast (take_bit 4 m) OR ucast (take_bit 5 (push_bit 4 k))"
  unfolding layer_tap_val_def ACTION_def and_masks by (rule bit_word_eqI) (auto simp: bit_simps)

lemma packed_code: "layer_tap_code (ACTION k (push_bit 8 m OR take_bit 8 y)) = ucast y"
  unfolding layer_tap_code_def ACTION_def and_masks by (rule bit_word_eqI) (auto simp: bit_simps)

lemma packed_key_code: "key_code (ACTION k (push_bit 8 m OR take_bit 8 y)) = ucast y"
  unfolding key_code_def ACTION_def and_masks by (rule bit_word_eqI) (auto simp: bit_simps)

lemma packed_key_mods: "key_mods (ACTION k (push_bit 8 m OR take_bit 8 y)) = ucast (take_bit 4 m)"
  unfolding key_mods_def ACTION_def and_masks by (rule bit_word_eqI) (auto simp: bit_simps)

lemma packed_lm_kind:
  "kind_id (ACTION k (push_bit 8 (take_bit 4 m) OR y)) = ucast (take_bit 4 k OR drop_bit 12 y)"
  unfolding kind_id_def ACTION_def by (rule bit_word_eqI) (auto simp: bit_simps)

lemma packed_lm_layer:
  "layer_mods_layer (ACTION k (push_bit 8 m OR y)) = ucast (take_bit 4 (m OR drop_bit 8 y))"
  unfolding layer_mods_layer_def ACTION_def and_masks by (rule bit_word_eqI) (auto simp: bit_simps)

lemma packed_lm_mods: "layer_mods_mods (ACTION k (push_bit 8 m OR y)) = ucast (take_bit 8 y)"
  unfolding layer_mods_mods_def ACTION_def and_masks by (rule bit_word_eqI) (auto simp: bit_simps)

section \<open>The ranges of the keycodes\<close>

lemma action_layer_tap_range:
  assumes "0x4000 \<le> k" "k \<le> 0x4FFF"
  shows "action_for_keycode c k = ACTION_LAYER_TAP (drop_bit 8 k AND 0xF) (keycode_config c (k AND 0xFF))"
proof -
  have "0x0100 \<le> k" using assms(1) by (simp add: word_le_nat_alt)
  then show ?thesis
    using assms unfolding action_for_keycode_def Let_def by (auto simp: word_le_nat_alt)
qed

lemma action_mod_tap_range:
  assumes "0x2000 \<le> k" "k \<le> 0x3FFF"
  shows "action_for_keycode c k = ACTION_MODS_TAP_KEY (ucast (mod_config c (ucast (drop_bit 8 k AND 0x1F))))
    (keycode_config c (k AND 0xFF))"
proof -
  have "0x0100 \<le> k" using assms(1) by (simp add: word_le_nat_alt)
  then show ?thesis
    using assms unfolding action_for_keycode_def Let_def by (auto simp: word_le_nat_alt)
qed

lemma action_mods_range:
  assumes "0x0100 \<le> k" "k \<le> 0x1FFF"
  shows "action_for_keycode c k = ACTION_MODS_KEY (ucast (mod_config c (ucast (drop_bit 8 k AND 0x1F))))
    (keycode_config c (k AND 0xFF))"
  using assms unfolding action_for_keycode_def Let_def by (auto simp: word_le_nat_alt)

lemma action_layer_mod_range:
  assumes "0x5000 \<le> k" "k \<le> 0x51FF"
  shows "action_for_keycode c k =
    (let m = (ucast (mod_config c (ucast (k AND 0x1F))) :: u16)
     in ACTION_LAYER_MODS (drop_bit 5 k AND 0xF) (if m AND 0x10 \<noteq> 0 then push_bit 4 m else m))"
proof -
  have "0x0100 \<le> k" using assms(1) by (simp add: word_le_nat_alt)
  then show ?thesis
    using assms unfolding action_for_keycode_def Let_def by (auto simp: word_le_nat_alt)
qed

lemma keycode_config_take_bit: "take_bit 8 (keycode_config c (take_bit 8 k)) = keycode_config c (take_bit 8 k)"
proof -
  have "take_bit 8 k \<le> (0xFF :: u16)"
    by (metis and_masks(3) word_and_le1)
  then have "keycode_config c (take_bit 8 k) < 2 ^ 8"
    using keycode_config_8bit [of "take_bit 8 k" c] by (simp add: word_le_nat_alt word_less_nat_alt)
  then show ?thesis
    using less_mask_eq take_bit_eq_mask by (metis take_bit_eq_mask)
qed

section \<open>What mod_config keeps\<close>

lemma mod_config_hand: "\<not> no_gui c \<Longrightarrow> bit (mod_config c m) 4 = bit m 4"
  unfolding mod_config_def Let_def
  by (simp add: if_distrib [of "\<lambda>x. bit x 4"] bit_simps)

lemma mod_config_high_bits:
  "bit (mod_config c m) 5 = bit m 5" "bit (mod_config c m) 6 = bit m 6" "bit (mod_config c m) 7 = bit m 7"
  unfolding mod_config_def Let_def
  by (simp_all add: if_distrib [of "\<lambda>x. bit x 5"] if_distrib [of "\<lambda>x. bit x 6"]
      if_distrib [of "\<lambda>x. bit x 7"] bit_simps)

lemma mod_config_take_bit: "take_bit 5 (mod_config c (take_bit 5 m)) = mod_config c (take_bit 5 m)"
proof (rule bit_word_eqI)
  fix i assume "i < LENGTH(8)"
  then consider "i < 5" | "i = 5" | "i = 6" | "i = 7" by fastforce
  then show "bit (take_bit 5 (mod_config c (take_bit 5 m))) i = bit (mod_config c (take_bit 5 m)) i"
   by cases (simp_all add: bit_take_bit_iff mod_config_high_bits)
qed

section \<open>The fields of the keycodes\<close>

lemma and_mask_less_32: "l AND 0x1F < (32 :: u16)"
  using word_and_le1 [of l "0x1F"] by (simp add: word_le_nat_alt word_less_nat_alt)

lemma LM_fields: "drop_bit 5 (LM l m) AND 0xF = take_bit 4 l" "LM l m AND 0x1F = take_bit 5 m"
  unfolding LM_def and_masks by (auto intro!: bit_word_eqI simp: bit_simps)

lemma LT_fields: "drop_bit 8 (LT l m) AND 0xF = take_bit 4 l" "LT l m AND 0xFF = take_bit 8 m"
  unfolding LT_def and_masks by (auto intro!: bit_word_eqI simp: bit_simps)

lemma MT_fields: "drop_bit 8 (MT l m) AND 0x1F = take_bit 5 l" "MT l m AND 0xFF = take_bit 8 m"
  unfolding MT_def and_masks by (auto intro!: bit_word_eqI simp: bit_simps)

lemma LT_range: "0x4000 \<le> LT l kc" "LT l kc \<le> 0x4FFF"
proof -
  show "0x4000 \<le> LT l kc" unfolding LT_def or.assoc by (rule le_word_or2)
  have "LT l kc AND 0x4FFF = LT l kc"
    by (simp add: LT_def push_bit_and and.assoc bit.conj_disj_distrib2)
  then show "LT l kc \<le> 0x4FFF" by (metis word_and_le1)
qed

lemma MT_range: "0x2000 \<le> MT l kc" "MT l kc \<le> 0x3FFF"
proof -
  show "0x2000 \<le> MT l kc" unfolding MT_def or.assoc by (rule le_word_or2)
  have "MT l kc AND 0x3FFF = MT l kc"
    by (simp add: MT_def push_bit_and and.assoc bit.conj_disj_distrib2)
  then show "MT l kc \<le> 0x3FFF" by (metis word_and_le1)
qed

lemma LM_range: "0x5000 \<le> LM l kc" "LM l kc \<le> 0x51FF"
proof -
  show "0x5000 \<le> LM l kc" unfolding LM_def or.assoc by (rule le_word_or2)
  have "LM l kc AND 0x51FF = LM l kc"
    by (simp add: LM_def push_bit_and and.assoc bit.conj_disj_distrib2)
  then show "LM l kc \<le> 0x51FF" by (metis word_and_le1)
qed

lemma and_16: "w AND 0x10 = 0 \<longleftrightarrow> \<not> bit w 4" for w :: "'a::len word"
  using word_and_mask_eq_0 [of w 4] by simp

lemma bit_3: "bit (3 :: 'a::linordered_euclidean_semiring_bit_operations) n \<longleftrightarrow> n = 0 \<or> n = 1"
proof -
  have "bit (mask 2 :: 'a) n \<longleftrightarrow> n < 2" by (simp add: bit_mask_iff)
  then show ?thesis by (simp add: mask_numeral less_2_cases_iff)
qed

lemma bit_3_16: "bit (3 :: u16) n \<longleftrightarrow> n = 0 \<or> n = 1" "bit (3 :: u8) n \<longleftrightarrow> n = 0 \<or> n = 1"
proof -
  have "bit (mask 2 :: u16) n \<longleftrightarrow> n < 2" "bit (mask 2 :: u8) n \<longleftrightarrow> n < 2" by (auto simp add: bit_mask_iff)
  then show "bit (3 :: u16) n \<longleftrightarrow> n = 0 \<or> n = 1" "bit (3 :: u8) n \<longleftrightarrow> n = 0 \<or> n = 1" by (simp_all add: mask_numeral less_2_cases_iff)
qed

section \<open>Properties\<close>

text \<open>
  \<open>decodes_layer_tap a l code\<close>: the action is a layer-tap action of layer \<open>l\<close> with that code.
  \<open>decodes_layer_bitop a op on l\<close>: it is a layer operation whose mask, shifted to its part as
  \<open>process_action\<close> does, is exactly the bit of layer \<open>l\<close>.
\<close>

definition decodes_layer_tap :: "action_t \<Rightarrow> u16 \<Rightarrow> u8 \<Rightarrow> bool" where
  "decodes_layer_tap a l code \<longleftrightarrow>
     (kind_id a = ACT_LAYER_TAP \<or> kind_id a = ACT_LAYER_TAP_EXT) \<and> layer_tap_val a = ucast l \<and> layer_tap_code a = code"

definition decodes_layer_bitop :: "action_t \<Rightarrow> u8 \<Rightarrow> u8 \<Rightarrow> u16 \<Rightarrow> bool" where
  "decodes_layer_bitop a op on l \<longleftrightarrow>
     kind_id a = ACT_LAYER \<and> layer_bitop_op a = op \<and> layer_bitop_on a = on \<and> \<not> layer_bitop_xbit a \<and>
     push_bit (4 * unat (layer_bitop_part a)) (ucast (layer_bitop_bits a)) = (2 ^ unat l :: u32)"

text \<open>
  LT and MT pack and unpack without loss: the action of LT is the layer-tap of the low four bits
  of its layer, the action of MT the mod-tap of its remapped modifiers, on the side the hand bit
  says, and both carry the remapped tap keycode.
\<close>

theorem tap_keycodes_decode:
  "kind_id (action_for_keycode c (LT l kc)) = ACT_LAYER_TAP \<and>
   layer_tap_val (action_for_keycode c (LT l kc)) = ucast l AND 0xF \<and>
   layer_tap_code (action_for_keycode c (LT l kc)) = ucast (keycode_config c (kc AND 0xFF)) \<and>
   kind_id (action_for_keycode c (MT m kc)) =
     (if bit (mod_config c (ucast m AND 0x1F)) 4 then ACT_RMODS_TAP else ACT_LMODS_TAP) \<and>
   key_mods (action_for_keycode c (MT m kc)) = mod_config c (ucast m AND 0x1F) AND 0xF \<and>
   key_code (action_for_keycode c (MT m kc)) = ucast (keycode_config c (kc AND 0xFF))"
proof -
  define M where "M = mod_config c (ucast m AND 0x1F)"
  have M: "mod_config c (ucast (take_bit 5 m)) = M" by (simp add: M_def and_masks unsigned_take_bit_eq)
  have lt: "action_for_keycode c (LT l kc) = ACTION 0xA (push_bit 8 (take_bit 4 l) OR take_bit 8 (keycode_config c (kc AND 0xFF)))"
    by (simp add: action_layer_tap_range LT_range LT_fields [unfolded and_masks] ACTION_LAYER_TAP_def keycode_config_take_bit and_masks)
  have mt: "action_for_keycode c (MT m kc) = ACTION 0x2 (push_bit 8 (take_bit 5 (ucast M)) OR take_bit 8 (keycode_config c (kc AND 0xFF)))"
    by (simp add: action_mod_tap_range MT_range MT_fields [unfolded and_masks] ACTION_MODS_TAP_KEY_def keycode_config_take_bit and_masks M)
  show ?thesis
    unfolding lt mt M_def [symmetric] packed_kind packed_val packed_code packed_kind_mods packed_key_code packed_key_mods
    by (auto intro!: bit_word_eqI simp: and_masks unsigned_take_bit_eq bit_simps bit_3 bit_3_16)
qed

lemma layer_functions_decode:
  "decodes_layer_bitop (action_for_keycode c (TO l)) 3 1 (l AND 0x1F) \<and>
   decodes_layer_tap (action_for_keycode c (MO l)) (l AND 0x1F) 0xF1 \<and>
   decodes_layer_bitop (action_for_keycode c (DF l)) 3 0 (l AND 0x1F) \<and>
   decodes_layer_bitop (action_for_keycode c (TG l)) 2 2 (l AND 0x1F) \<and>
   decodes_layer_tap (action_for_keycode c (OSL l)) (l AND 0x1F) 0xF4 \<and>
   decodes_layer_tap (action_for_keycode c (TT l)) (l AND 0x1F) 0xF0"
  unfolding TO_def MO_def DF_def TG_def OSL_def TT_def using and_mask_less_32 [of l]
  by (cases "l AND 0x1F" rule: less_32_cases) (simp_all add: action_for_keycode_def Let_def decodes_layer_tap_def decodes_layer_bitop_def action_readers action_constructors)

lemma LM_decodes:
  fixes c l m
  defines "M \<equiv> mod_config c (ucast m AND 0x1F)"
  shows "kind_id (action_for_keycode c (LM l m)) = ACT_LAYER_MODS \<and>
    layer_mods_layer (action_for_keycode c (LM l m)) = (if bit M 4 then (ucast l AND 0xF) OR 1 else ucast l AND 0xF) \<and>
    layer_mods_mods (action_for_keycode c (LM l m)) = (if bit M 4 then push_bit 4 M else M)"
proof -
  have M: "mod_config c (ucast (take_bit 5 m)) = M" by (simp add: M_def and_masks unsigned_take_bit_eq)
  have tM: "take_bit 5 M = M" by (simp add: M_def and_masks mod_config_take_bit)
  have u: "bit (ucast M :: u16) 4 = bit M 4" by (simp add: bit_ucast_iff)
  have lm: "action_for_keycode c (LM l m) = ACTION 0x9 (push_bit 8 (take_bit 4 l) OR (if bit M 4 then push_bit 4 (ucast (take_bit 5 M)) else ucast (take_bit 5 M)))"
    using tM by (simp add: action_layer_mod_range LM_range LM_fields and_16 ACTION_LAYER_MODS_def Let_def M u)
  have b5: "bit M n \<Longrightarrow> n < 5" for n
    using tM by (metis bit_take_bit_iff)
  show ?thesis
    unfolding lm packed_lm_kind packed_lm_layer packed_lm_mods
    by (cases "bit M 4")
      (auto intro!: bit_word_eqI simp: and_masks unsigned_take_bit_eq bit_simps dest: b5)
qed

text \<open>
  LM with a left-hand modifier names its layer and its modifiers.  With a right-hand modifier the
  modifiers are shifted by four into an eight-bit field although the hand bit is still set, so the
  hand bit reaches bit 8 of the action: the layer is OR-ed with 1 and an even layer becomes the next
  odd one.
\<close>

theorem LM_right_hand:
  assumes "\<not> no_gui c"
  shows "kind_id (action_for_keycode c (LM l m)) = ACT_LAYER_MODS \<and>
    layer_mods_layer (action_for_keycode c (LM l m)) = (if bit m 4 then (ucast l AND 0xF) OR 1 else ucast l AND 0xF) \<and>
    layer_mods_mods (action_for_keycode c (LM l m)) = 
      (if bit m 4 then push_bit 4 (mod_config c (ucast m AND 0x1F)) else mod_config c (ucast m AND 0x1F))"
  using LM_decodes [of c l m] by (simp add: mod_config_hand assms and_masks bit_simps)

text \<open>
  (C39) The layer keycodes name their layers, whatever the user's settings.  For each of the 32 layers, TO, DF and TG become
  the layer operation set-and-on-both, set-default and toggle on that layer's bit, and MO, OSL and TT the
  layer-tap action of that layer with the code of the function.  For each of the 16 layers that LT and LM can address, LT
  becomes the layer-tap action of that layer with the remapped tap key, and LM the layer-modifier action with the
  remapped modifiers: of that layer when they are left-hand ones, and when they are right-hand ones, as the bit of the hand
  spills over into the layer, of the odd layer at or above it.
\<close>

theorem layer_keycodes_decode:
  fixes c l m k
  defines "M \<equiv> mod_config c (ucast m AND 0x1F)"
  shows "decodes_layer_bitop (action_for_keycode c (TO l)) 3 1 (l AND 0x1F) \<and>
   decodes_layer_tap (action_for_keycode c (MO l)) (l AND 0x1F) 0xF1 \<and>
   decodes_layer_bitop (action_for_keycode c (DF l)) 3 0 (l AND 0x1F) \<and>
   decodes_layer_bitop (action_for_keycode c (TG l)) 2 2 (l AND 0x1F) \<and>
   decodes_layer_tap (action_for_keycode c (OSL l)) (l AND 0x1F) 0xF4 \<and>
   decodes_layer_tap (action_for_keycode c (TT l)) (l AND 0x1F) 0xF0 \<and>
   decodes_layer_tap (action_for_keycode c (LT l k)) (l AND 0xF) (ucast (keycode_config c (k AND 0xFF))) \<and>
   kind_id (action_for_keycode c (LM l m)) = ACT_LAYER_MODS \<and>
   layer_mods_layer (action_for_keycode c (LM l m)) = (ucast l AND 0xF) OR (if bit M 4 then 1 else 0) \<and>
   layer_mods_mods (action_for_keycode c (LM l m)) = (if bit M 4 then push_bit 4 M else M)"
proof -
  have "decodes_layer_tap (action_for_keycode c (LT l k)) (l AND 0xF) (ucast (keycode_config c (k AND 0xFF)))"
    using tap_keycodes_decode [of c l k] by (simp add: decodes_layer_tap_def and_masks unsigned_take_bit_eq)
  then show ?thesis
    using layer_functions_decode [of c l] LM_decodes [of c l m] by (simp add: M_def)
qed

theorem LM_right_hand_witness:
  "layer_mods_layer (action_for_keycode
     \<lparr>swap_control_capslock = False, capslock_to_control = False, swap_lalt_lgui = False,
      swap_ralt_rgui = False, no_gui = False, swap_grave_esc = False, swap_backslash_backspace = False,
      nkro = False, swap_lctl_lgui = False, swap_rctl_rgui = False, oneshot_enable = True,
      swap_escape_capslock = False, autocorrect_enable = False\<rparr> (LM 2 0x11)) = 3"
  by (subst LM_right_hand [THEN conjunct2, THEN conjunct1]) simp_all

lemma if_neq_intro: "a \<noteq> m \<Longrightarrow> b \<noteq> m \<Longrightarrow> (if P then a else b) \<noteq> m"
  by simp

text \<open>
  With GUI keys disabled no keycode and no modifier mask is remapped to a GUI key; but the mask
  also loses the bit that says which hand, so a right-hand modifier becomes the left-hand one.
\<close>

theorem no_gui_config:
  assumes "no_gui c"
  shows "keycode_config c k \<noteq> KC_LEFT_GUI \<and> keycode_config c k \<noteq> KC_RIGHT_GUI \<and>
    mod_config c m AND 0x08 = 0 \<and> mod_config c m AND 0x10 = 0"
proof -
  have "keycode_config c k \<noteq> KC_LEFT_GUI" "keycode_config c k \<noteq> KC_RIGHT_GUI"
    unfolding keycode_config_def using assms by (simp_all split: if_split)
  moreover have "((w AND NOT MOD_LGUI) AND NOT MOD_RGUI) AND 0x08 = 0"
    "((w AND NOT MOD_LGUI) AND NOT MOD_RGUI) AND 0x10 = 0" for w
    by (simp_all add: and.assoc)
  then have "mod_config c m AND 0x08 = 0" "mod_config c m AND 0x10 = 0"
    using assms by (simp_all only: mod_config_def Let_def if_True)
  ultimately show ?thesis by simp
qed

theorem no_gui_config_witness:
  "mod_config \<lparr>swap_control_capslock = False, capslock_to_control = False, swap_lalt_lgui = False,
      swap_ralt_rgui = False, no_gui = True, swap_grave_esc = False, swap_backslash_backspace = False,
      nkro = False, swap_lctl_lgui = False, swap_rctl_rgui = False, oneshot_enable = True,
      swap_escape_capslock = False, autocorrect_enable = False\<rparr> MOD_RALT AND 0x10 = 0"
  by (rule no_gui_config [THEN conjunct2, THEN conjunct2, THEN conjunct2]) simp

end
