(* ===== verification/Layers.thy ===== *)
theory Layers
  imports Bitwise Keycodes
begin

text \<open>
  quantum/action_layer.c and quantum/tri_layer.c: the two layer masks, the resolution of a position to
  an action through the active layers, and the cache of the layer each position was pressed on, which
  makes a release undo what its press did although the layers have changed in between.

  The modelled configuration is the default one: \<open>LAYER_STATE_16BIT\<close> (16 layers, four cache bits), no
  \<open>STRICT_LAYER_RELEASE\<close> and no \<open>SEMI_STRICT_LAYER_RELEASE\<close>.  The hooks \<open>layer_state_set_kb\<close> and
  \<open>default_layer_state_set_kb\<close>, which a keyboard may override, are fields of the configuration.
  The debug output is left out.
\<close>

section \<open>State and configuration\<close>

type_synonym layer_state_t = u16

abbreviation MAX_LAYER :: nat where "MAX_LAYER \<equiv> 16"

abbreviation MAX_LAYER_BITS :: nat where "MAX_LAYER_BITS \<equiv> 4"

abbreviation CHAR_BIT :: nat where "CHAR_BIT \<equiv> 8"

record layer_config = keymap_tables +
  layer_state_set_kb :: "layer_state_t \<Rightarrow> layer_state_t"
  default_layer_state_set_kb :: "layer_state_t \<Rightarrow> layer_state_t"

record layer_vars =
  keymap_config :: keymap_config_t
  layer_state :: layer_state_t
  default_layer_state :: layer_state_t
  source_layers_cache :: "u8 list list"
  encoder_source_layers_cache :: "u8 list list"
  disable_action_cache :: bool

definition get_highest_layer :: "layer_state_t \<Rightarrow> u8" where
  "get_highest_layer state = biton16 state"

section \<open>Layer masks\<close>

definition default_layer_state_set ::
    "('c) layer_config_scheme \<Rightarrow> layer_state_t \<Rightarrow> ('s) layer_vars_scheme \<Rightarrow> ('s) layer_vars_scheme" where
  "default_layer_state_set cf state s = s\<lparr>default_layer_state := default_layer_state_set_kb cf state\<rparr>"

definition default_layer_set ::
    "('c) layer_config_scheme \<Rightarrow> layer_state_t \<Rightarrow> ('s) layer_vars_scheme \<Rightarrow> ('s) layer_vars_scheme" where
  "default_layer_set cf state s = default_layer_state_set cf state s"

definition default_layer_or ::
    "('c) layer_config_scheme \<Rightarrow> layer_state_t \<Rightarrow> ('s) layer_vars_scheme \<Rightarrow> ('s) layer_vars_scheme" where
  "default_layer_or cf state s = default_layer_state_set cf (default_layer_state s OR state) s"

definition default_layer_and ::
    "('c) layer_config_scheme \<Rightarrow> layer_state_t \<Rightarrow> ('s) layer_vars_scheme \<Rightarrow> ('s) layer_vars_scheme" where
  "default_layer_and cf state s = default_layer_state_set cf (default_layer_state s AND state) s"

definition default_layer_xor ::
    "('c) layer_config_scheme \<Rightarrow> layer_state_t \<Rightarrow> ('s) layer_vars_scheme \<Rightarrow> ('s) layer_vars_scheme" where
  "default_layer_xor cf state s = default_layer_state_set cf (default_layer_state s XOR state) s"

definition layer_state_set ::
    "('c) layer_config_scheme \<Rightarrow> layer_state_t \<Rightarrow> ('s) layer_vars_scheme \<Rightarrow> ('s) layer_vars_scheme" where
  "layer_state_set cf state s = s\<lparr>layer_state := layer_state_set_kb cf state\<rparr>"

definition layer_clear ::
    "('c) layer_config_scheme \<Rightarrow> ('s) layer_vars_scheme \<Rightarrow> ('s) layer_vars_scheme" where
  "layer_clear cf s = layer_state_set cf 0 s"

definition layer_state_cmp :: "layer_state_t \<Rightarrow> u8 \<Rightarrow> bool" where
  "layer_state_cmp cmp_layer_state layer =
    (if cmp_layer_state = 0 then layer = 0
     else cmp_layer_state AND push_bit (unat layer) 1 \<noteq> 0)"

definition layer_state_is :: "('s) layer_vars_scheme \<Rightarrow> u8 \<Rightarrow> bool" where
  "layer_state_is s layer = layer_state_cmp (layer_state s) layer"

definition layer_move ::
    "('c) layer_config_scheme \<Rightarrow> u8 \<Rightarrow> ('s) layer_vars_scheme \<Rightarrow> ('s) layer_vars_scheme" where
  "layer_move cf layer s = layer_state_set cf (push_bit (unat layer) 1) s"

definition layer_on ::
    "('c) layer_config_scheme \<Rightarrow> u8 \<Rightarrow> ('s) layer_vars_scheme \<Rightarrow> ('s) layer_vars_scheme" where
  "layer_on cf layer s = layer_state_set cf (layer_state s OR push_bit (unat layer) 1) s"

definition layer_off ::
    "('c) layer_config_scheme \<Rightarrow> u8 \<Rightarrow> ('s) layer_vars_scheme \<Rightarrow> ('s) layer_vars_scheme" where
  "layer_off cf layer s = layer_state_set cf (layer_state s AND NOT (push_bit (unat layer) 1)) s"

definition layer_invert ::
    "('c) layer_config_scheme \<Rightarrow> u8 \<Rightarrow> ('s) layer_vars_scheme \<Rightarrow> ('s) layer_vars_scheme" where
  "layer_invert cf layer s = layer_state_set cf (layer_state s XOR push_bit (unat layer) 1) s"

definition layer_or ::
    "('c) layer_config_scheme \<Rightarrow> layer_state_t \<Rightarrow> ('s) layer_vars_scheme \<Rightarrow> ('s) layer_vars_scheme" where
  "layer_or cf state s = layer_state_set cf (layer_state s OR state) s"

definition layer_and ::
    "('c) layer_config_scheme \<Rightarrow> layer_state_t \<Rightarrow> ('s) layer_vars_scheme \<Rightarrow> ('s) layer_vars_scheme" where
  "layer_and cf state s = layer_state_set cf (layer_state s AND state) s"

definition layer_xor ::
    "('c) layer_config_scheme \<Rightarrow> layer_state_t \<Rightarrow> ('s) layer_vars_scheme \<Rightarrow> ('s) layer_vars_scheme" where
  "layer_xor cf state s = layer_state_set cf (layer_state s XOR state) s"

definition update_tri_layer_state :: "layer_state_t \<Rightarrow> u8 \<Rightarrow> u8 \<Rightarrow> u8 \<Rightarrow> layer_state_t" where
  "update_tri_layer_state state layer1 layer2 layer3 =
    (let mask12 = push_bit (unat layer1) 1 OR push_bit (unat layer2) 1;
         mask3 = push_bit (unat layer3) 1
     in if state AND mask12 = mask12 then state OR mask3 else state AND NOT mask3)"

definition update_tri_layer ::
    "('c) layer_config_scheme \<Rightarrow> u8 \<Rightarrow> u8 \<Rightarrow> u8 \<Rightarrow> ('s) layer_vars_scheme \<Rightarrow> ('s) layer_vars_scheme" where
  "update_tri_layer cf layer1 layer2 layer3 s =
     layer_state_set cf (update_tri_layer_state (layer_state s) layer1 layer2 layer3) s"

section \<open>The source layer cache\<close>

text \<open>
  A cache row holds, for eight positions, one byte per bit of the layer number.
\<close>

definition update_source_layers_cache_impl :: "u8 \<Rightarrow> u16 \<Rightarrow> u8 list list \<Rightarrow> u8 list list" where
  "update_source_layers_cache_impl layer entry_number cache =
    (let storage_idx = unat entry_number div CHAR_BIT;
         storage_bit = unat entry_number mod CHAR_BIT
     in fold (\<lambda>bit_number cache.
          let old = cache ! storage_idx ! bit_number;
              m = (if layer AND push_bit bit_number 1 \<noteq> 0 then - 1 else 0)
          in cache[storage_idx := (cache ! storage_idx)
               [bit_number := old XOR ((m XOR old) AND push_bit storage_bit 1)]])
        [0..<MAX_LAYER_BITS] cache)"

definition read_source_layers_cache_impl :: "u16 \<Rightarrow> u8 list list \<Rightarrow> u8" where
  "read_source_layers_cache_impl entry_number cache =
    (let storage_idx = unat entry_number div CHAR_BIT;
         storage_bit = unat entry_number mod CHAR_BIT
     in fold (\<lambda>bit_number layer.
          layer OR push_bit bit_number
            (if cache ! storage_idx ! bit_number AND push_bit storage_bit 1 \<noteq> 0 then 1 else 0))
        [0..<MAX_LAYER_BITS] 0)"

definition matrix_entry :: "('c) keymap_tables_scheme \<Rightarrow> keypos_t \<Rightarrow> u16" where
  "matrix_entry t key = of_nat (unat (kp_row key) * MATRIX_COLS t) + of_nat (unat (kp_col key))"

definition update_source_layers_cache ::
    "('c) layer_config_scheme \<Rightarrow> keypos_t \<Rightarrow> u8 \<Rightarrow> ('s) layer_vars_scheme \<Rightarrow> ('s) layer_vars_scheme" where
  "update_source_layers_cache cf key layer s =
    (if unat (kp_row key) < MATRIX_ROWS cf \<and> unat (kp_col key) < MATRIX_COLS cf then
       s\<lparr>source_layers_cache :=
           update_source_layers_cache_impl layer (matrix_entry cf key) (source_layers_cache s)\<rparr>
     else if km_encoder_map cf \<and> (kp_row key = KEYLOC_ENCODER_CW \<or> kp_row key = KEYLOC_ENCODER_CCW) then
       s\<lparr>encoder_source_layers_cache :=
           update_source_layers_cache_impl layer (ucast (kp_col key)) (encoder_source_layers_cache s)\<rparr>
     else s)"

definition read_source_layers_cache ::
    "('c) layer_config_scheme \<Rightarrow> ('s) layer_vars_scheme \<Rightarrow> keypos_t \<Rightarrow> u8" where
  "read_source_layers_cache cf s key =
    (if unat (kp_row key) < MATRIX_ROWS cf \<and> unat (kp_col key) < MATRIX_COLS cf then
       read_source_layers_cache_impl (matrix_entry cf key) (source_layers_cache s)
     else if km_encoder_map cf \<and> (kp_row key = KEYLOC_ENCODER_CW \<or> kp_row key = KEYLOC_ENCODER_CCW) then
       read_source_layers_cache_impl (ucast (kp_col key)) (encoder_source_layers_cache s)
     else 0)"

section \<open>From a position to its action\<close>

text \<open>The search from layer 15 down, as a recursion over the layer numbers still to try.\<close>

fun layer_search ::
    "('c) layer_config_scheme \<Rightarrow> keymap_config_t \<Rightarrow> layer_state_t \<Rightarrow> keypos_t \<Rightarrow> nat list \<Rightarrow> u8" where
  "layer_search cf c layers key [] = 0"
| "layer_search cf c layers key (i # is) =
    (if layers AND push_bit i 1 \<noteq> 0 \<and> action_for_key cf c (of_nat i) key \<noteq> ACTION_TRANSPARENT
     then of_nat i else layer_search cf c layers key is)"

definition layer_switch_get_layer ::
    "('c) layer_config_scheme \<Rightarrow> ('s) layer_vars_scheme \<Rightarrow> keypos_t \<Rightarrow> u8" where
  "layer_switch_get_layer cf s key =
     layer_search cf (keymap_config s) (layer_state s OR default_layer_state s) key (rev [0..<MAX_LAYER])"

definition layer_switch_get_action ::
    "('c) layer_config_scheme \<Rightarrow> ('s) layer_vars_scheme \<Rightarrow> keypos_t \<Rightarrow> action_t" where
  "layer_switch_get_action cf s key =
     action_for_key cf (keymap_config s) (layer_switch_get_layer cf s key) key"

definition store_or_get_action ::
    "('c) layer_config_scheme \<Rightarrow> bool \<Rightarrow> keypos_t \<Rightarrow> ('s) layer_vars_scheme \<Rightarrow>
     action_t \<times> ('s) layer_vars_scheme" where
  "store_or_get_action cf pressed key s =
    (if disable_action_cache s then (layer_switch_get_action cf s key, s)
     else if pressed then
       (let layer = layer_switch_get_layer cf s key;
            s = update_source_layers_cache cf key layer s
        in (action_for_key cf (keymap_config s) layer key, s))
     else (action_for_key cf (keymap_config s) (read_source_layers_cache cf s key) key, s))"

section \<open>The tri layer keys\<close>

record tri_layer =
  tri_layer_lower_layer :: u8
  tri_layer_upper_layer :: u8
  tri_layer_adjust_layer :: u8

definition set_tri_layer_layers :: "u8 \<Rightarrow> u8 \<Rightarrow> u8 \<Rightarrow> tri_layer" where
  "set_tri_layer_layers lower raise adjust =
    \<lparr>tri_layer_lower_layer = lower, tri_layer_upper_layer = raise, tri_layer_adjust_layer = adjust\<rparr>"

abbreviation QK_TRI_LAYER_LOWER :: u16 where "QK_TRI_LAYER_LOWER \<equiv> 0x7C77"

abbreviation QK_TRI_LAYER_UPPER :: u16 where "QK_TRI_LAYER_UPPER \<equiv> 0x7C78"

definition process_tri_layer ::
    "('c) layer_config_scheme \<Rightarrow> tri_layer \<Rightarrow> u16 \<Rightarrow> bool \<Rightarrow> ('s) layer_vars_scheme \<Rightarrow> bool \<times> ('s) layer_vars_scheme" where
  "process_tri_layer cf t keycode pressed s =
    (let update = update_tri_layer cf (tri_layer_lower_layer t) (tri_layer_upper_layer t) (tri_layer_adjust_layer t)
     in if keycode = QK_TRI_LAYER_LOWER then
          (False, update (if pressed then layer_on cf (tri_layer_lower_layer t) s
                          else layer_off cf (tri_layer_lower_layer t) s))
        else if keycode = QK_TRI_LAYER_UPPER then
          (False, update (if pressed then layer_on cf (tri_layer_upper_layer t) s
                          else layer_off cf (tri_layer_upper_layer t) s))
        else (True, s))"

section \<open>The cache as an interface\<close>

text \<open>
  What \<open>store_or_get_action\<close> relies on: a store with one value per slot, where a write is read back and
  leaves the other slots alone.
\<close>

locale slot_cache =
  fixes ok :: "'s \<Rightarrow> bool"
    and valid :: "'k \<Rightarrow> bool"
    and slot :: "'k \<Rightarrow> 'e"
    and fits :: "'v \<Rightarrow> bool"
    and put :: "'k \<Rightarrow> 'v \<Rightarrow> 's \<Rightarrow> 's"
    and get :: "'s \<Rightarrow> 'k \<Rightarrow> 'v"
  assumes ok_put: "ok s \<Longrightarrow> valid k \<Longrightarrow> ok (put k v s)"
    and get_put: "ok s \<Longrightarrow> valid k \<Longrightarrow> valid j \<Longrightarrow> fits v \<Longrightarrow> get (put k v s) j = (if slot j = slot k then v else get s j)"
begin

text \<open>Writes to other slots do not change what is read.\<close>

lemma get_other_puts:
  assumes "ok s" "valid j" "\<forall>(k, v) \<in> set kvs. valid k \<and> fits v \<and> slot k \<noteq> slot j"
  shows "get (fold (\<lambda>(k, v). put k v) kvs s) j = get s j"
  using assms(1,3)
proof (induction kvs arbitrary: s)
  case (Cons kv kvs)
  obtain k v where kv: "kv = (k, v)" by (cases kv)
  have "ok (put k v s)" using Cons.prems by (simp add: kv ok_put)
  then have "get (fold (\<lambda>(k, v). put k v) kvs (put k v s)) j = get (put k v s) j"
    using Cons.prems(2) by (intro Cons.IH) simp_all
  then show ?case
    using Cons.prems assms(2) by (auto simp: kv get_put)
qed simp

end

text \<open>The shape of a cache with a bit column for each of \<open>n\<close> entries.\<close>

definition cache_shape :: "nat \<Rightarrow> u8 list list \<Rightarrow> bool" where
  "cache_shape n cache \<longleftrightarrow> length cache = (n + (CHAR_BIT - 1)) div CHAR_BIT \<and> (\<forall>row \<in> set cache. length row = MAX_LAYER_BITS)"

lemma cache_row: "cache_shape n cache \<Longrightarrow> e < n \<Longrightarrow> e div 8 < length cache \<and> length (cache ! (e div 8)) = 4"
  by (auto simp: cache_shape_def)

lemma upt_0_4: "[0..<4] = [0, 1, 2, 3 :: nat]" by code_simp

lemma bit_unat_less: "unat w < 2 ^ k \<Longrightarrow> bit w b \<Longrightarrow> b < k" for w :: "'a::len word"
  by (metis bit_take_bit_iff bit_unat take_bit_nat_eq_self)

lemma length_4E: "length xs = 4 \<Longrightarrow> \<exists>a b c d. xs = [a, b, c, d]"
  by (auto simp: numeral_eq_Suc length_Suc_conv)

lemma update_cell:
  assumes "e div 8 < length cache" "length (cache ! (e div 8)) = 4" "e = unat en"
  shows "update_source_layers_cache_impl layer en cache =
    cache[e div 8 := map (\<lambda>b. cache ! (e div 8) ! b XOR (((if bit layer b then - 1 else 0) XOR cache ! (e div 8) ! b) AND 2 ^ (e mod 8))) [0..<4]]"
proof -
  obtain r0 r1 r2 r3 where r: "cache ! (e div 8) = [r0, r1, r2, r3]" using length_4E [OF assms(2)] by blast
  have l: "layer AND 2 = 0 \<longleftrightarrow> \<not> bit layer 1" "layer AND 4 = 0 \<longleftrightarrow> \<not> bit layer 2" "layer AND 8 = 0 \<longleftrightarrow> \<not> bit layer 3"
      "layer AND 1 = 0 \<longleftrightarrow> \<not> bit layer 0"
    using word_and_mask_eq_0 [of layer 1] word_and_mask_eq_0 [of layer 2] word_and_mask_eq_0 [of layer 3]
      word_and_mask_eq_0 [of layer 0] by simp_all
  show ?thesis
    unfolding update_source_layers_cache_impl_def Let_def assms(3) [symmetric]
    using assms(1) by (simp add: upt_0_4 r l push_bit_1)
qed

lemma bit_small_powers: "bit (2 :: int) b \<longleftrightarrow> b = 1" "bit (4 :: int) b \<longleftrightarrow> b = 2" "bit (8 :: int) b \<longleftrightarrow> b = 3"
  using bit_exp_iff [of 1 b, where 'a = int] bit_exp_iff [of 2 b, where 'a = int] bit_exp_iff [of 3 b, where 'a = int] by auto

lemma less_4_iff: "b < 4 \<longleftrightarrow> b = 0 \<or> b = 1 \<or> b = 2 \<or> b = (3 :: nat)" by auto

lemma read_bit:
  "bit (read_source_layers_cache_impl en cache) b \<longleftrightarrow> b < 4 \<and> bit (cache ! (unat en div 8) ! b) (unat en mod 8)"
  unfolding read_source_layers_cache_impl_def Let_def
  by (simp add: upt_0_4 push_bit_1 bit_lemmas bit_or_iff if_distrib [of "\<lambda>x. bit x b"] cong: if_cong)
    (auto simp: bit_small_powers less_4_iff bit_1_iff)

lemma read_update:
  assumes shape: "cache_shape n cache" and e: "unat en < n" "unat fn < n" and l: "unat layer < 16"
  shows "read_source_layers_cache_impl fn (update_source_layers_cache_impl layer en cache) =
    (if fn = en then layer else read_source_layers_cache_impl fn cache)"
proof (rule bit_word_eqI)
  fix b assume "b < LENGTH(8)"
  note r = cache_row [OF shape e(1)] cache_row [OF shape e(2)]
  have lb: "bit layer b \<Longrightarrow> b < 4"
    using l bit_unat_less [of layer 4 b] by simp
  have "fn = en \<longleftrightarrow> unat fn div 8 = unat en div 8 \<and> unat fn mod 8 = unat en mod 8"
    by (metis div_mult_mod_eq word_unat_eq_iff)
  then show "bit (read_source_layers_cache_impl fn (update_source_layers_cache_impl layer en cache)) b =
    bit (if fn = en then layer else read_source_layers_cache_impl fn cache) b"
    using r lb
    by (auto simp: read_bit update_cell [OF conjunct1 [OF r(1)] conjunct2 [OF r(1)] refl] nth_list_update bit_simps split: if_splits)
qed

lemma shape_update:
  assumes shape: "cache_shape n cache" and e: "unat en < n"
  shows "cache_shape n (update_source_layers_cache_impl layer en cache)"
  using shape cache_row [OF shape e] unfolding cache_shape_def
  by (auto simp: update_cell [OF conjunct1 conjunct2 refl] dest!: set_mp [OF set_update_subset_insert])
text \<open>
  The matrix fits the 16-bit entry number and the rows below those that stand for encoders.
\<close>

definition cache_ok :: "('c) layer_config_scheme \<Rightarrow> ('s) layer_vars_scheme \<Rightarrow> bool" where
  "cache_ok cf s \<longleftrightarrow> MATRIX_ROWS cf * MATRIX_COLS cf \<le> 65536 \<and>
     cache_shape (MATRIX_ROWS cf * MATRIX_COLS cf) (source_layers_cache s) \<and>
     cache_shape (NUM_ENCODERS cf) (encoder_source_layers_cache s)"

definition in_matrix :: "('c) layer_config_scheme \<Rightarrow> keypos_t \<Rightarrow> bool" where
  "in_matrix cf key \<longleftrightarrow> unat (kp_row key) < MATRIX_ROWS cf \<and> unat (kp_col key) < MATRIX_COLS cf"

definition cached_key :: "('c) layer_config_scheme \<Rightarrow> keypos_t \<Rightarrow> bool" where
  "cached_key cf key \<longleftrightarrow> in_matrix cf key \<or>
     km_encoder_map cf \<and> (kp_row key = KEYLOC_ENCODER_CW \<or> kp_row key = KEYLOC_ENCODER_CCW) \<and>
     unat (kp_col key) < NUM_ENCODERS cf"

definition cache_slot :: "('c) layer_config_scheme \<Rightarrow> keypos_t \<Rightarrow> keypos_t + u8" where
  "cache_slot cf key = (if in_matrix cf key then Inl key else Inr (kp_col key))"

lemma matrix_entry_less:
  assumes "in_matrix cf key" "MATRIX_ROWS cf * MATRIX_COLS cf \<le> 65536"
  shows "unat (matrix_entry cf key) = unat (kp_row key) * MATRIX_COLS cf + unat (kp_col key)"
    and "unat (matrix_entry cf key) < MATRIX_ROWS cf * MATRIX_COLS cf"
proof -
  have "unat (kp_row key) * MATRIX_COLS cf + unat (kp_col key) < (unat (kp_row key) + 1) * MATRIX_COLS cf"
    using assms(1) by (simp add: in_matrix_def)
  also have "\<dots> \<le> MATRIX_ROWS cf * MATRIX_COLS cf"
    using assms(1) by (intro mult_le_mono1) (simp add: in_matrix_def)
  finally have less: "unat (kp_row key) * MATRIX_COLS cf + unat (kp_col key) < MATRIX_ROWS cf * MATRIX_COLS cf" .
  then have "unat (of_nat (unat (kp_row key) * MATRIX_COLS cf + unat (kp_col key)) :: u16) =
    unat (kp_row key) * MATRIX_COLS cf + unat (kp_col key)"
    using assms(2) by (simp only: unat_of_nat) simp
  then show *: "unat (matrix_entry cf key) = unat (kp_row key) * MATRIX_COLS cf + unat (kp_col key)"
    by (simp add: matrix_entry_def)
  show "unat (matrix_entry cf key) < MATRIX_ROWS cf * MATRIX_COLS cf"
    using less by (simp only: *)
qed

lemma matrix_entry_inj:
  assumes "in_matrix cf j" "in_matrix cf k" "MATRIX_ROWS cf * MATRIX_COLS cf \<le> 65536"
  shows "matrix_entry cf j = matrix_entry cf k \<longleftrightarrow> j = k"
proof
  assume "matrix_entry cf j = matrix_entry cf k"
  then have eq: "unat (kp_row j) * MATRIX_COLS cf + unat (kp_col j) = unat (kp_row k) * MATRIX_COLS cf + unat (kp_col k)"
    using assms by (simp flip: matrix_entry_less(1))
  have "unat (kp_col j) < MATRIX_COLS cf" "unat (kp_col k) < MATRIX_COLS cf"
    using assms(1,2) by (simp_all add: in_matrix_def)
  then have "unat (kp_row j) = unat (kp_row k)" "unat (kp_col j) = unat (kp_col k)"
    using arg_cong [OF eq, of "\<lambda>x. x div MATRIX_COLS cf"] arg_cong [OF eq, of "\<lambda>x. x mod MATRIX_COLS cf"]
    by simp_all
  then show "j = k" by (simp add: keypos_t.equality word_unat_eq_iff)
qed simp

definition layer_fits :: "u8 \<Rightarrow> bool" where
  "layer_fits layer \<longleftrightarrow> unat layer < MAX_LAYER"

lemma cache_in_matrix:
  assumes "in_matrix cf k"
  shows "update_source_layers_cache cf k v s =
      s\<lparr>source_layers_cache := update_source_layers_cache_impl v (matrix_entry cf k) (source_layers_cache s)\<rparr>"
    and "read_source_layers_cache cf s k = read_source_layers_cache_impl (matrix_entry cf k) (source_layers_cache s)"
    and "cache_slot cf k = Inl k"
  using assms
  by (simp_all add: in_matrix_def update_source_layers_cache_def read_source_layers_cache_def cache_slot_def)

lemma cache_encoder:
  assumes "cached_key cf k" "\<not> in_matrix cf k"
  shows "update_source_layers_cache cf k v s =
      s\<lparr>encoder_source_layers_cache :=
          update_source_layers_cache_impl v (ucast (kp_col k)) (encoder_source_layers_cache s)\<rparr>"
    and "read_source_layers_cache cf s k =
      read_source_layers_cache_impl (ucast (kp_col k)) (encoder_source_layers_cache s)"
    and "cache_slot cf k = Inr (kp_col k)"
    and "unat (ucast (kp_col k) :: u16) < NUM_ENCODERS cf"
  using assms unat_less_numeral_8 [of "kp_col k"]
  unfolding cached_key_def update_source_layers_cache_def read_source_layers_cache_def cache_slot_def
    in_matrix_def [symmetric]
  by (simp_all add: unsigned_ucast_eq take_bit_nat_eq_self)

interpretation source_cache: slot_cache "cache_ok cf" "cached_key cf" "cache_slot cf" layer_fits
  "update_source_layers_cache cf" "read_source_layers_cache cf" for cf :: "('c) layer_config_scheme"
proof
  fix s :: "('a) layer_vars_scheme" and k j :: keypos_t and v :: u8
  assume ok: "cache_ok cf s" and k: "cached_key cf k"
  then have dims: "MATRIX_ROWS cf * MATRIX_COLS cf \<le> 65536"
    and shapes: "cache_shape (MATRIX_ROWS cf * MATRIX_COLS cf) (source_layers_cache s)"
      "cache_shape (NUM_ENCODERS cf) (encoder_source_layers_cache s)"
    by (simp_all add: cache_ok_def)
  note less = matrix_entry_less(2) [OF _ dims]
  show "cache_ok cf (update_source_layers_cache cf k v s)"
    using dims shapes k
    by (cases "in_matrix cf k") (simp_all add: cache_ok_def cache_in_matrix cache_encoder shape_update less)
  assume j: "cached_key cf j" and v: "layer_fits v"
  have ucast_inj: "ucast (kp_col j) = (ucast (kp_col k) :: u16) \<longleftrightarrow> kp_col j = kp_col k"
    by (auto simp: word_unat_eq_iff unsigned_ucast_eq take_bit_nat_eq_self less_trans [OF unat_less_numeral_8])
  show "read_source_layers_cache cf (update_source_layers_cache cf k v s) j =
    (if cache_slot cf j = cache_slot cf k then v else read_source_layers_cache cf s j)"
  proof (cases "in_matrix cf k"; cases "in_matrix cf j")
    assume m: "in_matrix cf k" "in_matrix cf j"
    then show ?thesis
      using v read_update [OF shapes(1) less less, of k j v]
      by (simp add: cache_in_matrix layer_fits_def matrix_entry_inj dims)
  next
    assume m: "\<not> in_matrix cf k" "\<not> in_matrix cf j"
    then show ?thesis
      using v read_update [OF shapes(2) cache_encoder(4) cache_encoder(4), of k j v] k j
      by (simp add: cache_encoder layer_fits_def ucast_inj)
  qed (use k j in \<open>simp_all add: cache_in_matrix cache_encoder\<close>)
qed

section \<open>The search finds the highest layer that binds the position\<close>

lemma and_push_bit: "w AND push_bit i 1 \<noteq> 0 \<longleftrightarrow> bit w i" for w :: "'a::len word"
  by (simp add: push_bit_1 bit_lemmas)

text \<open>\<open>binds\<close>: the layer is on and does not pass the position through to a lower one.\<close>

definition binds :: "('c) layer_config_scheme \<Rightarrow> keymap_config_t \<Rightarrow> layer_state_t \<Rightarrow> keypos_t \<Rightarrow> nat \<Rightarrow> bool" where
  "binds cf c layers key i \<longleftrightarrow> bit layers i \<and> action_for_key cf c (of_nat i) key \<noteq> ACTION_TRANSPARENT"

lemma layer_search_first:
  "layer_search cf c layers key is =
     (case List.find (binds cf c layers key) is of None \<Rightarrow> 0 | Some i \<Rightarrow> of_nat i)"
  by (induction "is") (simp_all add: binds_def and_push_bit [symmetric])

lemma find_rev_upt_Some:
  "List.find P (rev [0..<n]) = Some i \<longleftrightarrow> P i \<and> i < n \<and> (\<forall>j. P j \<and> j < n \<longrightarrow> j \<le> i)"
proof (induction n)
  case (Suc n)
  show ?case
  proof (cases "P n")
    case True
    then show ?thesis
      by (auto simp: less_Suc_eq intro: le_antisym less_imp_le)
  next
    case False
    then show ?thesis
      using Suc.IH by (auto simp: less_Suc_eq)
  qed
qed simp

lemma find_rev_upt_None: "List.find P (rev [0..<n]) = None \<longleftrightarrow> (\<forall>j<n. \<not> P j)"
  by (auto simp: find_None_iff)

lemma layer_search_range: "layer_fits (layer_search cf c layers key (rev [0..<MAX_LAYER]))"
  by (auto simp: layer_search_first layer_fits_def find_rev_upt_Some unat_of_nat split: option.split)

lemma layer_switch_get_layer_fits: "layer_fits (layer_switch_get_layer cf s key)"
  by (simp only: layer_switch_get_layer_def layer_search_range)

section \<open>Layer operations on sets of layers\<close>

text \<open>The abstraction of a layer mask: the set of the layers that are on.\<close>

definition layers_on :: "layer_state_t \<Rightarrow> nat set" where
  "layers_on m = {i. bit m i}"

lemma bit_layer_lt: "bit (m :: layer_state_t) i \<Longrightarrow> i < MAX_LAYER"
  using bit_imp_le_length [of m i] by simp

lemma layers_on_ops [simp]:
  "layers_on (m OR n) = layers_on m \<union> layers_on n"
  "layers_on (m AND n) = layers_on m \<inter> layers_on n"
  "layers_on (m XOR n) = (layers_on m - layers_on n) \<union> (layers_on n - layers_on m)"
  "layers_on 0 = {}"
  by (auto simp: layers_on_def bit_simps)

lemma layers_on_inject: "layers_on v = layers_on w \<longleftrightarrow> v = w"
  by (auto simp: layers_on_def set_eq_iff intro: bit_word_eqI)

lemma layers_on_shift: "layers_on (push_bit k 1) = {k} \<inter> {..<MAX_LAYER}"
  by (auto simp: layers_on_def push_bit_1 bit_lemmas)

lemma layers_on_not: "layers_on (NOT n) = {..<MAX_LAYER} - layers_on n"
  by (auto simp: layers_on_def bit_simps)

lemma layers_on_lt: "i \<in> layers_on m \<Longrightarrow> i < MAX_LAYER"
  by (simp add: layers_on_def bit_layer_lt)

section \<open>Sequences of layer changes and key events\<close>

datatype layer_event =
    LayerSet layer_state_t
  | DefaultSet layer_state_t
  | KeyPress keypos_t
  | KeyRelease keypos_t

fun layer_exec ::
    "('c) layer_config_scheme \<Rightarrow> layer_event \<Rightarrow> ('s) layer_vars_scheme \<Rightarrow> ('s) layer_vars_scheme" where
  "layer_exec cf (LayerSet m) s = layer_state_set cf m s"
| "layer_exec cf (DefaultSet m) s = default_layer_set cf m s"
| "layer_exec cf (KeyPress k) s = snd (store_or_get_action cf True k s)"
| "layer_exec cf (KeyRelease k) s = snd (store_or_get_action cf False k s)"

text \<open>The events that do not press a position sharing the cache slot of \<open>k\<close>.\<close>

fun spares :: "('c) layer_config_scheme \<Rightarrow> keypos_t \<Rightarrow> layer_event \<Rightarrow> bool" where
  "spares cf k (KeyPress j) \<longleftrightarrow> cached_key cf j \<and> cache_slot cf j \<noteq> cache_slot cf k"
| "spares cf k _ \<longleftrightarrow> True"

lemma cache_frame [frame]:
  "keymap_config (update_source_layers_cache cf k v s) = keymap_config s"
  "disable_action_cache (update_source_layers_cache cf k v s) = disable_action_cache s"
  by (simp_all add: update_source_layers_cache_def)

lemma layer_set_cache [simp]:
  "cache_ok cf (layer_state_set cf m s) = cache_ok cf s"
  "cache_ok cf (default_layer_set cf m s) = cache_ok cf s"
  "read_source_layers_cache cf (layer_state_set cf m s) k = read_source_layers_cache cf s k"
  "read_source_layers_cache cf (default_layer_set cf m s) k = read_source_layers_cache cf s k"
  by (auto simp: cache_ok_def read_source_layers_cache_def layer_state_set_def default_layer_set_def
      default_layer_state_set_def)

lemma layer_set_frame [frame]:
  "keymap_config (layer_state_set cf m s) = keymap_config s"
  "disable_action_cache (layer_state_set cf m s) = disable_action_cache s"
  "keymap_config (default_layer_set cf m s) = keymap_config s"
  "disable_action_cache (default_layer_set cf m s) = disable_action_cache s"
  by (simp_all add: layer_state_set_def default_layer_set_def default_layer_state_set_def)

lemma store_press:
  "\<not> disable_action_cache s \<Longrightarrow> store_or_get_action cf True k s =
     (action_for_key cf (keymap_config s) (layer_switch_get_layer cf s k) k,
      update_source_layers_cache cf k (layer_switch_get_layer cf s k) s)"
  by (simp add: store_or_get_action_def Let_def frame)

lemma get_release:
  "\<not> disable_action_cache s \<Longrightarrow> store_or_get_action cf False k s =
     (action_for_key cf (keymap_config s) (read_source_layers_cache cf s k) k, s)"
  by (simp add: store_or_get_action_def)

lemma layer_exec_spares:
  assumes "cache_ok cf s" "\<not> disable_action_cache s" "cached_key cf k" "spares cf k e"
  shows "cache_ok cf (layer_exec cf e s) \<and> \<not> disable_action_cache (layer_exec cf e s) \<and>
    keymap_config (layer_exec cf e s) = keymap_config s \<and>
    read_source_layers_cache cf (layer_exec cf e s) k = read_source_layers_cache cf s k"
  using assms
  by (cases e) (simp_all add: frame store_press get_release source_cache.ok_put source_cache.get_put
      layer_switch_get_layer_fits eq_commute)

lemma layer_run_spares:
  assumes "cache_ok cf s" "\<not> disable_action_cache s" "cached_key cf k" "\<forall>e \<in> set es. spares cf k e"
  shows "\<not> disable_action_cache (fold (layer_exec cf) es s) \<and>
    keymap_config (fold (layer_exec cf) es s) = keymap_config s \<and>
    read_source_layers_cache cf (fold (layer_exec cf) es s) k = read_source_layers_cache cf s k"
  using assms(1,2,4)
proof (induction es arbitrary: s)
  case (Cons e es)
  then show ?case
    using layer_exec_spares [of cf s k e] assms(3) by simp
qed simp

section \<open>Properties\<close>

text \<open>
  (C7) A release does what its press did: whatever layer changes and events of other positions come
  in between, the action found at the release of a position is the one its press found.
\<close>

theorem release_matches_press:
  assumes "cache_ok cf s" "\<not> disable_action_cache s" "cached_key cf k"
    and "\<forall>e \<in> set es. spares cf k e"
  shows "fst (store_or_get_action cf False k (fold (layer_exec cf) es (snd (store_or_get_action cf True k s)))) =
    fst (store_or_get_action cf True k s)"
proof -
  define l where "l = layer_switch_get_layer cf s k"
  define s1 where "s1 = update_source_layers_cache cf k l s"
  have s1: "snd (store_or_get_action cf True k s) = s1"
    "fst (store_or_get_action cf True k s) = action_for_key cf (keymap_config s) l k"
    using assms(2) by (simp_all add: store_press s1_def l_def)
  have "cache_ok cf s1" "\<not> disable_action_cache s1" "keymap_config s1 = keymap_config s"
    "read_source_layers_cache cf s1 k = l"
    using assms(1-3) layer_switch_get_layer_fits [of cf s k]
    by (simp_all add: s1_def frame source_cache.ok_put source_cache.get_put l_def)
  then show ?thesis
    using layer_run_spares [OF _ _ assms(3,4), of s1] by (simp add: s1 get_release)
qed

text \<open>
  The layer a position resolves to is the highest layer on (in either mask) whose action there
  is not transparent, and layer 0 when there is none.
\<close>

theorem layer_switch_get_layer_highest:
  "let B = binds cf (keymap_config s) (layer_state s OR default_layer_state s) key;
       l = unat (layer_switch_get_layer cf s key)
   in if \<exists>i. B i then B l \<and> (\<forall>i. B i \<longrightarrow> i \<le> l) else l = 0"
proof -
  define B where "B = binds cf (keymap_config s) (layer_state s OR default_layer_state s) key"
  have lt: "B i \<Longrightarrow> i < MAX_LAYER" for i
    by (auto simp: B_def binds_def dest: bit_layer_lt)
  have "layer_switch_get_layer cf s key =
      (case List.find B (rev [0..<MAX_LAYER]) of None \<Rightarrow> 0 | Some i \<Rightarrow> of_nat i)"
    by (simp only: layer_switch_get_layer_def layer_search_first B_def)
  then show ?thesis
    unfolding B_def [symmetric] Let_def
    by (cases "List.find B (rev [0..<MAX_LAYER])")
      (use lt in \<open>auto simp: find_rev_upt_Some find_rev_upt_None unat_of_nat simp del: upt_rec_numeral\<close>)
qed

lemma layer_ops_sets:
  assumes "layer_state_set_kb cf = id" and "unat l < MAX_LAYER"
  shows "layers_on (layer_state (layer_on cf l s)) = insert (unat l) (layers_on (layer_state s)) \<and>
    layers_on (layer_state (layer_off cf l s)) = layers_on (layer_state s) - {unat l} \<and>
    layers_on (layer_state (layer_invert cf l s)) =
      (if unat l \<in> layers_on (layer_state s) then layers_on (layer_state s) - {unat l}
       else insert (unat l) (layers_on (layer_state s))) \<and>
    layers_on (layer_state (layer_move cf l s)) = {unat l} \<and>
    layers_on (layer_state (layer_clear cf s)) = {} \<and>
    layers_on (layer_state (layer_or cf m s)) = layers_on (layer_state s) \<union> layers_on m \<and>
    layers_on (layer_state (layer_and cf m s)) = layers_on (layer_state s) \<inter> layers_on m \<and>
    layers_on (layer_state (layer_xor cf m s)) =
      (layers_on (layer_state s) - layers_on m) \<union> (layers_on m - layers_on (layer_state s)) \<and>
    (layer_state_is s l \<longleftrightarrow> unat l \<in> layers_on (layer_state s) \<or> layer_state s = 0 \<and> l = 0)"
proof -
  have "layer_state_is s l \<longleftrightarrow> unat l \<in> layers_on (layer_state s) \<or> layer_state s = 0 \<and> l = 0"
    unfolding layer_state_is_def layer_state_cmp_def and_push_bit by (auto simp: layers_on_def)
  then show ?thesis
    using assms
    by (auto simp: layer_on_def layer_off_def layer_invert_def layer_move_def layer_clear_def layer_or_def
        layer_and_def layer_xor_def layer_state_set_def layers_on_not layers_on_shift
        dest: layers_on_lt simp del: push_bit_of_1)
qed

text \<open>
  (C29) On sets of layers the operations are the set operations, through the user's hook: on inserts,
  off removes, invert toggles, move leaves only the layer, and the three mask operations are union,
  intersection and symmetric difference.
\<close>

theorem layer_ops_refine_sets:
  assumes "layer_state_set_kb cf = id" and "unat l < MAX_LAYER"
  shows "layers_on (layer_state (layer_on cf l s)) = insert (unat l) (layers_on (layer_state s)) \<and>
    layers_on (layer_state (layer_off cf l s)) = layers_on (layer_state s) - {unat l} \<and>
    layers_on (layer_state (layer_invert cf l s)) =
      (if unat l \<in> layers_on (layer_state s) then layers_on (layer_state s) - {unat l}
       else insert (unat l) (layers_on (layer_state s))) \<and>
    layers_on (layer_state (layer_move cf l s)) = {unat l} \<and>
    layers_on (layer_state (layer_clear cf s)) = {} \<and>
    layers_on (layer_state (layer_or cf m s)) = layers_on (layer_state s) \<union> layers_on m \<and>
    layers_on (layer_state (layer_and cf m s)) = layers_on (layer_state s) \<inter> layers_on m \<and>
    layers_on (layer_state (layer_xor cf m s)) =
      (layers_on (layer_state s) - layers_on m) \<union> (layers_on m - layers_on (layer_state s)) \<and>
    (layer_state_is s l \<longleftrightarrow> unat l \<in> layers_on (layer_state s) \<or> layer_state s = 0 \<and> l = 0)"
  using assms by (rule layer_ops_sets)

lemma layers_on_tri:
  "layers_on (update_tri_layer_state m l1 l2 l3) =
     (if {unat l1, unat l2} \<inter> {..<MAX_LAYER} \<subseteq> layers_on m
      then layers_on m \<union> ({unat l3} \<inter> {..<MAX_LAYER}) else layers_on m - {unat l3})"
proof -
  define k where "k = push_bit (unat l1) 1 OR (push_bit (unat l2) 1 :: layer_state_t)"
  have k: "layers_on k = {unat l1, unat l2} \<inter> {..<MAX_LAYER}"
    unfolding k_def layers_on_ops layers_on_shift by auto
  have "m AND k = k \<longleftrightarrow> layers_on k \<subseteq> layers_on m"
    unfolding layers_on_inject [symmetric] by auto
  then show ?thesis
    unfolding update_tri_layer_state_def Let_def k_def [symmetric] k [symmetric]
    using layers_on_lt [of _ m] by (simp add: layers_on_not layers_on_shift del: push_bit_of_1) auto
qed

text \<open>
  After any event of a tri layer key, the adjust layer is on exactly when both the lower and the
  upper layer are, the layer of the key is on exactly when the key is down, and no other layer changes.
\<close>

theorem tri_layer_keys:
  fixes s :: "('s) layer_vars_scheme" and pressed :: bool
  assumes "layer_state_set_kb cf = id"
    and "unat (tri_layer_lower_layer t) < MAX_LAYER" "unat (tri_layer_upper_layer t) < MAX_LAYER"
      "unat (tri_layer_adjust_layer t) < MAX_LAYER"
    and "distinct [tri_layer_lower_layer t, tri_layer_upper_layer t, tri_layer_adjust_layer t]"
    and "keycode = QK_TRI_LAYER_LOWER \<and> layer = tri_layer_lower_layer t \<or>
      keycode = QK_TRI_LAYER_UPPER \<and> layer = tri_layer_upper_layer t"
  defines "m \<equiv> layers_on (layer_state s)"
    and "m' \<equiv> layers_on (layer_state (snd (process_tri_layer cf t keycode pressed s)))"
  shows "(unat (tri_layer_adjust_layer t) \<in> m' \<longleftrightarrow>
      unat (tri_layer_lower_layer t) \<in> m' \<and> unat (tri_layer_upper_layer t) \<in> m') \<and>
    (unat layer \<in> m' \<longleftrightarrow> pressed) \<and>
    m' - {unat layer, unat (tri_layer_adjust_layer t)} = m - {unat layer, unat (tri_layer_adjust_layer t)}"
proof -
  have on: "layers_on (layer_state (layer_on cf l s)) = insert (unat l) m"
    and off: "layers_on (layer_state (layer_off cf l s)) = m - {unat l}" if "unat l < MAX_LAYER" for l
    using layer_ops_sets [OF assms(1) that, of s 0] by (simp_all only: m_def)
  show ?thesis
    using assms(2-6) on off
    by (auto simp: m'_def process_tri_layer_def Let_def update_tri_layer_def layer_state_set_def assms(1)
        layers_on_tri word_unat_eq_iff)
qed

section \<open>Concrete inputs\<close>

text \<open>A two by two matrix with three layers: layer 0 is all \<open>KC_A\<close>, layer 1 binds the first position.\<close>

definition example_layer_config :: layer_config where
  "example_layer_config = \<lparr>MATRIX_ROWS = 2, MATRIX_COLS = 2, NUM_ENCODERS = 0, km_encoder_map = False,
     keymap_layers = 3,
     keymaps = (\<lambda>l r c. if l = 0 then 0x04 else if l = 1 \<and> r = 0 \<and> c = 0 then 0x05 else 0x01),
     encoder_map = (\<lambda>_ _ _. 0), layer_state_set_kb = id, default_layer_state_set_kb = id\<rparr>"

definition example_keymap_config :: keymap_config_t where
  "example_keymap_config = \<lparr>swap_control_capslock = False, capslock_to_control = False,
     swap_lalt_lgui = False, swap_ralt_rgui = False, no_gui = False, swap_grave_esc = False,
     swap_backslash_backspace = False, nkro = False, swap_lctl_lgui = False, swap_rctl_rgui = False,
     oneshot_enable = True, swap_escape_capslock = False, autocorrect_enable = False\<rparr>"

definition example_layer_vars :: layer_vars where
  "example_layer_vars = \<lparr>keymap_config = example_keymap_config, layer_state = 2, default_layer_state = 1,
     source_layers_cache = [[0, 0, 0, 0]], encoder_source_layers_cache = [], disable_action_cache = False\<rparr>"

lemmas layer_example = example_layer_config_def example_keymap_config_def example_layer_vars_def

lemma example_cache_ok: "cache_ok example_layer_config example_layer_vars"
  by (simp add: cache_ok_def cache_shape_def layer_example)

theorem release_matches_press_witness:
  "fst (store_or_get_action example_layer_config False \<lparr>kp_col = 0, kp_row = 0\<rparr>
     (fold (layer_exec example_layer_config) [LayerSet 0, KeyPress \<lparr>kp_col = 1, kp_row = 0\<rparr>]
       (snd (store_or_get_action example_layer_config True \<lparr>kp_col = 0, kp_row = 0\<rparr> example_layer_vars)))) = 0x05"
  by (subst release_matches_press)
    (simp_all add: example_cache_ok, simp_all add: layer_example cached_key_def in_matrix_def cache_slot_def
      store_or_get_action_def layer_switch_get_layer_def upt_rec action_for_key_def keymap_key_to_keycode_def
      keycode_at_keymap_location_def action_for_keycode_def keycode_config_def action_constructors frame
      Let_def update_source_layers_cache_def)

theorem layer_switch_get_layer_highest_witness:
  "layer_switch_get_layer example_layer_config example_layer_vars \<lparr>kp_col = 0, kp_row = 0\<rparr> = 1"
proof -
  define B where "B = binds example_layer_config (keymap_config example_layer_vars)
    (layer_state example_layer_vars OR default_layer_state example_layer_vars) \<lparr>kp_col = 0, kp_row = 0\<rparr>"
  define l where "l = layer_switch_get_layer example_layer_config example_layer_vars \<lparr>kp_col = 0, kp_row = 0\<rparr>"
  have one: "B 1"
    by (simp add: B_def binds_def layer_example action_for_key_def keymap_key_to_keycode_def
        keycode_at_keymap_location_def action_for_keycode_def keycode_config_def action_constructors
        bit_simps Let_def)
  have "layer_state example_layer_vars OR default_layer_state example_layer_vars = mask 2"
    by (simp add: layer_example mask_eq_exp_minus_1)
  then have le: "i \<le> 1" if "B i" for i
    using that by (simp add: B_def binds_def bit_mask_iff)
  have "B (unat l) \<and> 1 \<le> unat l"
    using layer_switch_get_layer_highest [of example_layer_config example_layer_vars "\<lparr>kp_col = 0, kp_row = 0\<rparr>"] one
    by (auto simp: Let_def B_def l_def split: if_splits)
  then have "unat l = 1"
    using le [of "unat l"] by linarith
  then show ?thesis
    by (simp add: l_def [symmetric] word_unat_eq_iff)
qed

theorem layer_ops_refine_sets_witness:
  "layers_on (layer_state (layer_on example_layer_config 3 example_layer_vars)) = {1, 3}"
  using layer_ops_refine_sets [of example_layer_config 3 example_layer_vars 0]
  by (simp add: layer_example layers_on_def bit_simps) (auto simp: bit_numeral_rec)

theorem tri_layer_keys_witness:
  "unat (2 :: u8) \<in> layers_on (layer_state (snd (process_tri_layer example_layer_config (set_tri_layer_layers 1 2 3)
     QK_TRI_LAYER_UPPER True example_layer_vars)))"
  by (subst tri_layer_keys [of _ _ _ 2, THEN conjunct2, THEN conjunct1])
    (simp_all add: example_layer_config_def set_tri_layer_layers_def)

end
