(* ===== verification/Mods.thy ===== *)
theory Mods
  imports Layers Report
begin

text \<open>
  quantum/action_util.c and the sending half of tmk_core/protocol/host.c: the modifier sets, the
  one-shot modifiers, layer and hand swap, and the report to the host.

  What the host and the hooks see is the trace \<open>out\<close>, in the order of the calls.  \<open>timer\<close> is the value
  \<open>timer_read()\<close> returns; it does not advance inside an operation.  The configuration has
  \<open>NKRO_ENABLE\<close> with \<open>NKRO_SHARED_EP\<close> and no \<open>KEYBOARD_SHARED_EP\<close>, \<open>KEY_OVERRIDE_ENABLE\<close>,
  \<open>SWAP_HANDS_ENABLE\<close>, no \<open>BLUETOOTH_ENABLE\<close> and not \<open>PROTOCOL_VUSB\<close>; \<open>ONESHOT_TIMEOUT\<close> is a number,
  0 when undefined.
\<close>

section \<open>State, configuration and trace\<close>

datatype host_event =
    UartKeyboard
  | UartSystem
  | UartConsumer
  | SendKeyboard bool report_keyboard
  | SendSystem u16
  | SendConsumer u16
  | OneshotModsChanged u8
  | OneshotLockedModsChanged u8
  | OneshotLayerChanged u8
  | EeconfigKeymap keymap_config_t
  | MousekeyOn u8
  | MousekeyOff u8
  | MousekeyClear
  | MousekeySend
  | LedSet
  | WaitMs nat

datatype swap_hands_oneshot_t = SHO_OFF | SHO_ACTIVE | SHO_PRESSED | SHO_USED

record mods_config = layer_config +
  ONESHOT_TIMEOUT :: nat
  host_driver :: bool

record mods_vars = layer_vars +
  real_mods :: u8
  weak_mods :: u8
  weak_override_mods :: u8
  suppressed_mods :: u8
  oneshot_mods :: u8
  oneshot_locked_mods :: u8
  oneshot_time :: u16
  oneshot_layer_data :: u8
  oneshot_layer_time :: u16
  swap_hands :: bool
  swap_hands_oneshot :: swap_hands_oneshot_t
  oneshot_swaphands_time :: u16
  keyboard_report :: report_keyboard
  last_report :: report_keyboard
  keyboard_protocol :: bool
  last_system_usage :: u16
  last_consumer_usage :: u16
  timer :: u16
  out :: "host_event list"

definition emit :: "host_event \<Rightarrow> ('s) mods_vars_scheme \<Rightarrow> ('s) mods_vars_scheme" where
  "emit e s = s\<lparr>out := out s @ [e]\<rparr>"

text \<open>The layout in use: \<open>keyboard_protocol && keymap_config.nkro\<close>.\<close>

definition use_nkro :: "('s) mods_vars_scheme \<Rightarrow> bool" where
  "use_nkro s \<longleftrightarrow> keyboard_protocol s \<and> nkro (keymap_config s)"

section \<open>The host\<close>

abbreviation REPORT_ID_NKRO :: u8 where "REPORT_ID_NKRO \<equiv> 6"

text \<open>
  \<open>host_keyboard_send\<close> is called with the buffer \<open>keyboard_report\<close> itself, so the NKRO header it writes
  stays in the buffer.
\<close>

definition host_keyboard_send ::
    "('c) mods_config_scheme \<Rightarrow> ('s) mods_vars_scheme \<Rightarrow> ('s) mods_vars_scheme" where
  "host_keyboard_send cf s =
    (let s = emit UartKeyboard s
     in if \<not> host_driver cf then s
        else let s = (if use_nkro s then
                   s\<lparr>keyboard_report := (keyboard_report s)
                      \<lparr>rk_reserved := rk_mods (keyboard_report s), rk_mods := REPORT_ID_NKRO\<rparr>\<rparr>
                 else s)
             in emit (SendKeyboard (use_nkro s) (keyboard_report s)) s)"

definition host_system_send :: "('c) mods_config_scheme \<Rightarrow> u16 \<Rightarrow> ('s) mods_vars_scheme \<Rightarrow> ('s) mods_vars_scheme" where
  "host_system_send cf usage s =
    (if usage = last_system_usage s then s
     else let s = emit UartSystem (s\<lparr>last_system_usage := usage\<rparr>)
          in if \<not> host_driver cf then s else emit (SendSystem usage) s)"

definition host_consumer_send :: "('c) mods_config_scheme \<Rightarrow> u16 \<Rightarrow> ('s) mods_vars_scheme \<Rightarrow> ('s) mods_vars_scheme" where
  "host_consumer_send cf usage s =
    (if usage = last_consumer_usage s then s
     else let s = emit UartConsumer (s\<lparr>last_consumer_usage := usage\<rparr>)
          in if \<not> host_driver cf then s else emit (SendConsumer usage) s)"

section \<open>Keys of the report buffer\<close>

definition add_key :: "u8 \<Rightarrow> ('s) mods_vars_scheme \<Rightarrow> ('s) mods_vars_scheme" where
  "add_key key s = s\<lparr>keyboard_report := add_key_to_report (use_nkro s) (keyboard_report s) key\<rparr>"

definition del_key :: "u8 \<Rightarrow> ('s) mods_vars_scheme \<Rightarrow> ('s) mods_vars_scheme" where
  "del_key key s = s\<lparr>keyboard_report := del_key_from_report (use_nkro s) (keyboard_report s) key\<rparr>"

definition clear_keys :: "('s) mods_vars_scheme \<Rightarrow> ('s) mods_vars_scheme" where
  "clear_keys s = s\<lparr>keyboard_report := clear_keys_from_report (use_nkro s) (keyboard_report s)\<rparr>"

section \<open>Modifiers\<close>

definition add_mods :: "u8 \<Rightarrow> ('s) mods_vars_scheme \<Rightarrow> ('s) mods_vars_scheme" where
  "add_mods mods s = s\<lparr>real_mods := real_mods s OR mods\<rparr>"

definition del_mods :: "u8 \<Rightarrow> ('s) mods_vars_scheme \<Rightarrow> ('s) mods_vars_scheme" where
  "del_mods mods s = s\<lparr>real_mods := real_mods s AND NOT mods\<rparr>"

definition set_mods :: "u8 \<Rightarrow> ('s) mods_vars_scheme \<Rightarrow> ('s) mods_vars_scheme" where
  "set_mods mods s = s\<lparr>real_mods := mods\<rparr>"

definition clear_mods :: "('s) mods_vars_scheme \<Rightarrow> ('s) mods_vars_scheme" where
  "clear_mods s = s\<lparr>real_mods := 0\<rparr>"

definition add_weak_mods :: "u8 \<Rightarrow> ('s) mods_vars_scheme \<Rightarrow> ('s) mods_vars_scheme" where
  "add_weak_mods mods s = s\<lparr>weak_mods := weak_mods s OR mods\<rparr>"

definition del_weak_mods :: "u8 \<Rightarrow> ('s) mods_vars_scheme \<Rightarrow> ('s) mods_vars_scheme" where
  "del_weak_mods mods s = s\<lparr>weak_mods := weak_mods s AND NOT mods\<rparr>"

definition set_weak_mods :: "u8 \<Rightarrow> ('s) mods_vars_scheme \<Rightarrow> ('s) mods_vars_scheme" where
  "set_weak_mods mods s = s\<lparr>weak_mods := mods\<rparr>"

definition clear_weak_mods :: "('s) mods_vars_scheme \<Rightarrow> ('s) mods_vars_scheme" where
  "clear_weak_mods s = s\<lparr>weak_mods := 0\<rparr>"

definition set_weak_override_mods :: "u8 \<Rightarrow> ('s) mods_vars_scheme \<Rightarrow> ('s) mods_vars_scheme" where
  "set_weak_override_mods mods s = s\<lparr>weak_override_mods := mods\<rparr>"

definition clear_weak_override_mods :: "('s) mods_vars_scheme \<Rightarrow> ('s) mods_vars_scheme" where
  "clear_weak_override_mods s = s\<lparr>weak_override_mods := 0\<rparr>"

definition set_suppressed_override_mods :: "u8 \<Rightarrow> ('s) mods_vars_scheme \<Rightarrow> ('s) mods_vars_scheme" where
  "set_suppressed_override_mods mods s = s\<lparr>suppressed_mods := mods\<rparr>"

definition clear_suppressed_override_mods :: "('s) mods_vars_scheme \<Rightarrow> ('s) mods_vars_scheme" where
  "clear_suppressed_override_mods s = s\<lparr>suppressed_mods := 0\<rparr>"

definition has_anymod :: "('s) mods_vars_scheme \<Rightarrow> u8" where
  "has_anymod s = bitpop (real_mods s)"

section \<open>One-shot modifiers\<close>

definition add_oneshot_locked_mods :: "u8 \<Rightarrow> ('s) mods_vars_scheme \<Rightarrow> ('s) mods_vars_scheme" where
  "add_oneshot_locked_mods mods s =
    (if oneshot_locked_mods s AND mods \<noteq> mods then
       (let m = oneshot_locked_mods s OR mods
        in emit (OneshotLockedModsChanged m) (s\<lparr>oneshot_locked_mods := m\<rparr>))
     else s)"

definition set_oneshot_locked_mods :: "u8 \<Rightarrow> ('s) mods_vars_scheme \<Rightarrow> ('s) mods_vars_scheme" where
  "set_oneshot_locked_mods mods s =
    (if mods \<noteq> oneshot_locked_mods s
     then emit (OneshotLockedModsChanged mods) (s\<lparr>oneshot_locked_mods := mods\<rparr>) else s)"

definition clear_oneshot_locked_mods :: "('s) mods_vars_scheme \<Rightarrow> ('s) mods_vars_scheme" where
  "clear_oneshot_locked_mods s =
    (if oneshot_locked_mods s \<noteq> 0
     then emit (OneshotLockedModsChanged 0) (s\<lparr>oneshot_locked_mods := 0\<rparr>) else s)"

definition del_oneshot_locked_mods :: "u8 \<Rightarrow> ('s) mods_vars_scheme \<Rightarrow> ('s) mods_vars_scheme" where
  "del_oneshot_locked_mods mods s =
    (if oneshot_locked_mods s AND mods \<noteq> 0 then
       (let m = oneshot_locked_mods s AND NOT mods
        in emit (OneshotLockedModsChanged m) (s\<lparr>oneshot_locked_mods := m\<rparr>))
     else s)"

definition has_oneshot_mods_timed_out :: "('c) mods_config_scheme \<Rightarrow> ('s) mods_vars_scheme \<Rightarrow> bool" where
  "has_oneshot_mods_timed_out cf s \<longleftrightarrow>
     0 < ONESHOT_TIMEOUT cf \<and> ONESHOT_TIMEOUT cf \<le> unat (TIMER_DIFF_16 (timer s) (oneshot_time s))"

definition add_oneshot_mods :: "('c) mods_config_scheme \<Rightarrow> u8 \<Rightarrow> ('s) mods_vars_scheme \<Rightarrow> ('s) mods_vars_scheme" where
  "add_oneshot_mods cf mods s =
    (if oneshot_mods s AND mods \<noteq> mods then
       (let s = (if 0 < ONESHOT_TIMEOUT cf then s\<lparr>oneshot_time := timer s\<rparr> else s)
        in emit (OneshotModsChanged mods) (s\<lparr>oneshot_mods := oneshot_mods s OR mods\<rparr>))
     else s)"

definition del_oneshot_mods :: "('c) mods_config_scheme \<Rightarrow> u8 \<Rightarrow> ('s) mods_vars_scheme \<Rightarrow> ('s) mods_vars_scheme" where
  "del_oneshot_mods cf mods s =
    (if oneshot_mods s AND mods \<noteq> 0 then
       (let s = s\<lparr>oneshot_mods := oneshot_mods s AND NOT mods\<rparr>;
            s = (if 0 < ONESHOT_TIMEOUT cf
                 then s\<lparr>oneshot_time := (if oneshot_mods s \<noteq> 0 then timer s else 0)\<rparr> else s)
        in emit (OneshotModsChanged (oneshot_mods s)) s)
     else s)"

definition set_oneshot_mods :: "('c) mods_config_scheme \<Rightarrow> u8 \<Rightarrow> ('s) mods_vars_scheme \<Rightarrow> ('s) mods_vars_scheme" where
  "set_oneshot_mods cf mods s =
    (if oneshot_enable (keymap_config s) \<and> oneshot_mods s \<noteq> mods then
       (let s = (if 0 < ONESHOT_TIMEOUT cf then s\<lparr>oneshot_time := timer s\<rparr> else s)
        in emit (OneshotModsChanged mods) (s\<lparr>oneshot_mods := mods\<rparr>))
     else s)"

definition clear_oneshot_mods :: "('c) mods_config_scheme \<Rightarrow> ('s) mods_vars_scheme \<Rightarrow> ('s) mods_vars_scheme" where
  "clear_oneshot_mods cf s =
    (if oneshot_mods s \<noteq> 0 then
       (let s = s\<lparr>oneshot_mods := 0\<rparr>;
            s = (if 0 < ONESHOT_TIMEOUT cf then s\<lparr>oneshot_time := 0\<rparr> else s)
        in emit (OneshotModsChanged 0) s)
     else s)"

section \<open>One-shot layer\<close>

abbreviation ONESHOT_PRESSED :: u8 where "ONESHOT_PRESSED \<equiv> 0b01"

abbreviation ONESHOT_OTHER_KEY_PRESSED :: u8 where "ONESHOT_OTHER_KEY_PRESSED \<equiv> 0b10"

abbreviation ONESHOT_START :: u8 where "ONESHOT_START \<equiv> 0b11"

abbreviation ONESHOT_TOGGLED :: u8 where "ONESHOT_TOGGLED \<equiv> 0b100"

definition get_oneshot_layer :: "('s) mods_vars_scheme \<Rightarrow> u8" where
  "get_oneshot_layer s = drop_bit 3 (oneshot_layer_data s)"

definition get_oneshot_layer_state :: "('s) mods_vars_scheme \<Rightarrow> u8" where
  "get_oneshot_layer_state s = oneshot_layer_data s AND 0b111"

definition has_oneshot_layer_timed_out :: "('c) mods_config_scheme \<Rightarrow> ('s) mods_vars_scheme \<Rightarrow> bool" where
  "has_oneshot_layer_timed_out cf s \<longleftrightarrow>
     ONESHOT_TIMEOUT cf \<le> unat (TIMER_DIFF_16 (timer s) (oneshot_layer_time s)) \<and>
     get_oneshot_layer_state s AND ONESHOT_TOGGLED = 0"

definition set_oneshot_layer ::
    "('c) mods_config_scheme \<Rightarrow> u8 \<Rightarrow> u8 \<Rightarrow> ('s) mods_vars_scheme \<Rightarrow> ('s) mods_vars_scheme" where
  "set_oneshot_layer cf layer state s =
    (if oneshot_enable (keymap_config s) then
       (let s = s\<lparr>oneshot_layer_data := push_bit 3 layer OR state\<rparr>;
            s = layer_on cf layer s;
            s = (if 0 < ONESHOT_TIMEOUT cf then s\<lparr>oneshot_layer_time := timer s\<rparr> else s)
        in emit (OneshotLayerChanged (get_oneshot_layer s)) s)
     else layer_on cf layer s)"

definition reset_oneshot_layer :: "('c) mods_config_scheme \<Rightarrow> ('s) mods_vars_scheme \<Rightarrow> ('s) mods_vars_scheme" where
  "reset_oneshot_layer cf s =
    (let s = s\<lparr>oneshot_layer_data := 0\<rparr>;
         s = (if 0 < ONESHOT_TIMEOUT cf then s\<lparr>oneshot_layer_time := 0\<rparr> else s)
     in emit (OneshotLayerChanged (get_oneshot_layer s)) s)"

definition clear_oneshot_layer_state ::
    "('c) mods_config_scheme \<Rightarrow> u8 \<Rightarrow> ('s) mods_vars_scheme \<Rightarrow> ('s) mods_vars_scheme" where
  "clear_oneshot_layer_state cf state s =
    (let start_state = oneshot_layer_data s;
         s = s\<lparr>oneshot_layer_data := oneshot_layer_data s AND NOT state\<rparr>
     in if (get_oneshot_layer_state s = 0 \<and> start_state \<noteq> oneshot_layer_data s) \<and>
           oneshot_enable (keymap_config s)
        then reset_oneshot_layer cf (layer_off cf (get_oneshot_layer s) s)
        else s)"

definition is_oneshot_layer_active :: "('s) mods_vars_scheme \<Rightarrow> bool" where
  "is_oneshot_layer_active s \<longleftrightarrow> get_oneshot_layer_state s \<noteq> 0"

definition oneshot_set :: "('c) mods_config_scheme \<Rightarrow> bool \<Rightarrow> ('s) mods_vars_scheme \<Rightarrow> ('s) mods_vars_scheme" where
  "oneshot_set cf active s =
    (if oneshot_enable (keymap_config s) \<noteq> active then
       (let s = s\<lparr>keymap_config := (keymap_config s)\<lparr>oneshot_enable := active\<rparr>\<rparr>;
            s = emit (EeconfigKeymap (keymap_config s)) s
        in clear_oneshot_layer_state cf ONESHOT_OTHER_KEY_PRESSED s)
     else s)"

definition oneshot_toggle :: "('c) mods_config_scheme \<Rightarrow> ('s) mods_vars_scheme \<Rightarrow> ('s) mods_vars_scheme" where
  "oneshot_toggle cf s = oneshot_set cf (\<not> oneshot_enable (keymap_config s)) s"

definition oneshot_disable :: "('c) mods_config_scheme \<Rightarrow> ('s) mods_vars_scheme \<Rightarrow> ('s) mods_vars_scheme" where
  "oneshot_disable cf s = oneshot_set cf False s"

section \<open>One-shot hand swap\<close>

definition has_oneshot_swaphands_timed_out :: "('c) mods_config_scheme \<Rightarrow> ('s) mods_vars_scheme \<Rightarrow> bool" where
  "has_oneshot_swaphands_timed_out cf s \<longleftrightarrow>
     ONESHOT_TIMEOUT cf \<le> unat (TIMER_DIFF_16 (timer s) (oneshot_swaphands_time s)) \<and>
     swap_hands_oneshot s = SHO_ACTIVE"

definition set_oneshot_swaphands :: "('c) mods_config_scheme \<Rightarrow> ('s) mods_vars_scheme \<Rightarrow> ('s) mods_vars_scheme" where
  "set_oneshot_swaphands cf s =
    (let s = s\<lparr>swap_hands_oneshot := SHO_PRESSED, swap_hands := True\<rparr>
     in if 0 < ONESHOT_TIMEOUT cf then
          (let s = s\<lparr>oneshot_swaphands_time := timer s\<rparr>
           in if oneshot_layer_time s \<noteq> 0 then s\<lparr>oneshot_layer_time := oneshot_swaphands_time s\<rparr> else s)
        else s)"

definition clear_oneshot_swaphands :: "('c) mods_config_scheme \<Rightarrow> ('s) mods_vars_scheme \<Rightarrow> ('s) mods_vars_scheme" where
  "clear_oneshot_swaphands cf s =
    (let s = s\<lparr>swap_hands_oneshot := SHO_OFF, swap_hands := False\<rparr>
     in if 0 < ONESHOT_TIMEOUT cf then s\<lparr>oneshot_swaphands_time := 0\<rparr> else s)"

definition release_oneshot_swaphands :: "('c) mods_config_scheme \<Rightarrow> ('s) mods_vars_scheme \<Rightarrow> ('s) mods_vars_scheme" where
  "release_oneshot_swaphands cf s =
    (let s = (if swap_hands_oneshot s = SHO_PRESSED then s\<lparr>swap_hands_oneshot := SHO_ACTIVE\<rparr> else s)
     in if swap_hands_oneshot s = SHO_USED then clear_oneshot_swaphands cf s else s)"

definition use_oneshot_swaphands :: "('c) mods_config_scheme \<Rightarrow> ('s) mods_vars_scheme \<Rightarrow> ('s) mods_vars_scheme" where
  "use_oneshot_swaphands cf s =
    (let s = (if swap_hands_oneshot s = SHO_PRESSED then s\<lparr>swap_hands_oneshot := SHO_USED\<rparr> else s)
     in if swap_hands_oneshot s = SHO_ACTIVE then clear_oneshot_swaphands cf s else s)"

section \<open>Sending the report\<close>

text \<open>The modifiers of the next report, and what computing them does to the one-shot modifiers.\<close>

definition put_report_mods :: "u8 \<Rightarrow> ('s) mods_vars_scheme \<Rightarrow> ('s) mods_vars_scheme" where
  "put_report_mods m s = s\<lparr>keyboard_report := (keyboard_report s)\<lparr>rk_mods := m\<rparr>\<rparr>"

definition update_report_mods :: "('c) mods_config_scheme \<Rightarrow> ('s) mods_vars_scheme \<Rightarrow> ('s) mods_vars_scheme" where
  "update_report_mods cf s =
    (let s = put_report_mods (real_mods s OR weak_mods s) s;
         s = (if oneshot_mods s \<noteq> 0 then
                (let s = (if has_oneshot_mods_timed_out cf s then clear_oneshot_mods cf s else s);
                     s = put_report_mods (rk_mods (keyboard_report s) OR oneshot_mods s) s
                 in if has_anykey (use_nkro s) (keyboard_report s) \<noteq> 0 then clear_oneshot_mods cf s else s)
              else s)
     in put_report_mods ((rk_mods (keyboard_report s) AND NOT (suppressed_mods s)) OR weak_override_mods s) s)"

definition send_keyboard_report :: "('c) mods_config_scheme \<Rightarrow> ('s) mods_vars_scheme \<Rightarrow> ('s) mods_vars_scheme" where
  "send_keyboard_report cf s =
    (let s = update_report_mods cf s
     in if keyboard_report s \<noteq> last_report s
        then host_keyboard_send cf (s\<lparr>last_report := keyboard_report s\<rparr>) else s)"

section \<open>What the operations leave unchanged\<close>

lemma emit_frame [simp]:
  "out (emit e s) = out s @ [e]" "keyboard_report (emit e s) = keyboard_report s"
  "last_report (emit e s) = last_report s" "keymap_config (emit e s) = keymap_config s"
  "layer_state (emit e s) = layer_state s" "oneshot_layer_data (emit e s) = oneshot_layer_data s"
  "oneshot_mods (emit e s) = oneshot_mods s" "keyboard_protocol (emit e s) = keyboard_protocol s"
  "real_mods (emit e s) = real_mods s" "weak_mods (emit e s) = weak_mods s"
  "weak_override_mods (emit e s) = weak_override_mods s" "suppressed_mods (emit e s) = suppressed_mods s"
  "oneshot_time (emit e s) = oneshot_time s" "timer (emit e s) = timer s"
  by (simp_all add: emit_def)

lemma use_nkro_cong [simp]:
  "use_nkro (emit e s) = use_nkro s" "use_nkro (put_report_mods m s) = use_nkro s"
  "use_nkro (s\<lparr>last_report := r\<rparr>) = use_nkro s" "use_nkro (s\<lparr>keyboard_report := r\<rparr>) = use_nkro s"
  by (simp_all add: use_nkro_def emit_def put_report_mods_def)

lemma put_report_mods_frame [simp]:
  "keyboard_report (put_report_mods m s) = (keyboard_report s)\<lparr>rk_mods := m\<rparr>"
  "oneshot_mods (put_report_mods m s) = oneshot_mods s" "last_report (put_report_mods m s) = last_report s"
  "out (put_report_mods m s) = out s" "suppressed_mods (put_report_mods m s) = suppressed_mods s"
  "weak_override_mods (put_report_mods m s) = weak_override_mods s" "real_mods (put_report_mods m s) = real_mods s"
  "weak_mods (put_report_mods m s) = weak_mods s"
  "has_oneshot_mods_timed_out cf (put_report_mods m s) = has_oneshot_mods_timed_out cf s"
  by (simp_all add: put_report_mods_def has_oneshot_mods_timed_out_def)

lemma clear_oneshot_mods_frame [simp]:
  "keyboard_report (clear_oneshot_mods cf s) = keyboard_report s"
  "last_report (clear_oneshot_mods cf s) = last_report s" "oneshot_mods (clear_oneshot_mods cf s) = 0"
  "suppressed_mods (clear_oneshot_mods cf s) = suppressed_mods s"
  "weak_override_mods (clear_oneshot_mods cf s) = weak_override_mods s"
  "use_nkro (clear_oneshot_mods cf s) = use_nkro s" "real_mods (clear_oneshot_mods cf s) = real_mods s"
  "weak_mods (clear_oneshot_mods cf s) = weak_mods s"
  by (simp_all add: clear_oneshot_mods_def emit_def use_nkro_def Let_def)

lemma has_anykey_mods [simp]: "has_anykey n (r\<lparr>rk_mods := m\<rparr>) = has_anykey n r"
  "has_anykey n (r\<lparr>rk_reserved := m\<rparr>) = has_anykey n r"
  by (simp_all add: has_anykey_def rk_keys_def)

section \<open>What the host has seen\<close>

text \<open>The modifiers and the payload of the last keyboard report sent.\<close>

definition host_view :: "host_event list \<Rightarrow> u8 \<times> u8 list" where
  "host_view es =
     fold (\<lambda>e v. case e of
         SendKeyboard n r \<Rightarrow> (if n then rk_reserved r else rk_mods r, rk_payload r)
       | _ \<Rightarrow> v) es (0, replicate KEYBOARD_REPORT_BITS 0)"

definition is_keyboard_send :: "host_event \<Rightarrow> bool" where
  "is_keyboard_send e \<longleftrightarrow> (case e of SendKeyboard n r \<Rightarrow> True | _ \<Rightarrow> False)"

lemma host_view_snoc: "host_view (es @ [SendKeyboard n r]) = (if n then rk_reserved r else rk_mods r, rk_payload r)"
  by (simp add: host_view_def)

lemma host_view_snoc_other: "\<not> is_keyboard_send e \<Longrightarrow> host_view (es @ [e]) = host_view es"
  by (cases e) (simp_all add: host_view_def is_keyboard_send_def)

text \<open>The buffer of the last report sent agrees with what the host has seen.\<close>

definition host_synced :: "('s) mods_vars_scheme \<Rightarrow> bool" where
  "host_synced s \<longleftrightarrow> host_view (out s) = (rk_mods (last_report s), rk_payload (last_report s))"

text \<open>The modifiers the report should carry.\<close>

definition live_oneshot_mods :: "('c) mods_config_scheme \<Rightarrow> ('s) mods_vars_scheme \<Rightarrow> u8" where
  "live_oneshot_mods cf s = (if has_oneshot_mods_timed_out cf s then 0 else oneshot_mods s)"

definition wanted_mods :: "('c) mods_config_scheme \<Rightarrow> ('s) mods_vars_scheme \<Rightarrow> u8" where
  "wanted_mods cf s =
     ((real_mods s OR weak_mods s OR live_oneshot_mods cf s) AND NOT (suppressed_mods s)) OR weak_override_mods s"

lemma update_report_mods_report:
  "keyboard_report (update_report_mods cf s) = (keyboard_report s)\<lparr>rk_mods := wanted_mods cf s\<rparr>"
  by (simp add: update_report_mods_def Let_def wanted_mods_def live_oneshot_mods_def or.assoc)

lemma update_report_mods_frame [simp]:
  "last_report (update_report_mods cf s) = last_report s" "use_nkro (update_report_mods cf s) = use_nkro s"
  by (simp_all add: update_report_mods_def Let_def)

lemma update_report_mods_oneshot:
  "oneshot_mods (update_report_mods cf s) =
    (if has_anykey (use_nkro s) (keyboard_report s) \<noteq> 0 then 0 else live_oneshot_mods cf s)"
  by (simp add: update_report_mods_def Let_def live_oneshot_mods_def)

lemma clear_oneshot_mods_out:
  "host_view (out (clear_oneshot_mods cf s)) = host_view (out s)"
  by (simp add: clear_oneshot_mods_def Let_def host_view_snoc_other is_keyboard_send_def)

lemma update_report_mods_out: "host_view (out (update_report_mods cf s)) = host_view (out s)"
  by (simp add: update_report_mods_def Let_def clear_oneshot_mods_out)

lemma send_keyboard_report_sync:
  assumes "host_driver cf" "host_synced s"
  shows "host_synced (send_keyboard_report cf s) \<and>
    host_view (out (send_keyboard_report cf s)) = (wanted_mods cf s, rk_payload (keyboard_report s))"
  using assms
  by (auto simp: send_keyboard_report_def Let_def host_synced_def host_keyboard_send_def update_report_mods_report
      update_report_mods_out host_view_snoc host_view_snoc_other is_keyboard_send_def
      dest!: sym [of _ "last_report s"])

lemma timed_out_cong:
  "timer s' = timer s \<Longrightarrow> oneshot_time s' = oneshot_time s \<Longrightarrow>
    has_oneshot_mods_timed_out cf s' = has_oneshot_mods_timed_out cf s"
  by (simp add: has_oneshot_mods_timed_out_def)

lemma host_keyboard_send_frame [simp]:
  "oneshot_mods (host_keyboard_send cf s) = oneshot_mods s" "real_mods (host_keyboard_send cf s) = real_mods s"
  "weak_mods (host_keyboard_send cf s) = weak_mods s" "suppressed_mods (host_keyboard_send cf s) = suppressed_mods s"
  "weak_override_mods (host_keyboard_send cf s) = weak_override_mods s"
  "use_nkro (host_keyboard_send cf s) = use_nkro s" "last_report (host_keyboard_send cf s) = last_report s"
  "rk_payload (keyboard_report (host_keyboard_send cf s)) = rk_payload (keyboard_report s)"
  by (simp_all add: host_keyboard_send_def Let_def use_nkro_def emit_def)

lemma update_report_mods_frame2 [simp]:
  "real_mods (update_report_mods cf s) = real_mods s" "weak_mods (update_report_mods cf s) = weak_mods s"
  "suppressed_mods (update_report_mods cf s) = suppressed_mods s"
  "weak_override_mods (update_report_mods cf s) = weak_override_mods s"
  by (simp_all add: update_report_mods_def Let_def)

lemma send_frame [simp]:
  "real_mods (send_keyboard_report cf s) = real_mods s" "weak_mods (send_keyboard_report cf s) = weak_mods s"
  "suppressed_mods (send_keyboard_report cf s) = suppressed_mods s"
  "weak_override_mods (send_keyboard_report cf s) = weak_override_mods s"
  "use_nkro (send_keyboard_report cf s) = use_nkro s"
  "rk_payload (keyboard_report (send_keyboard_report cf s)) = rk_payload (keyboard_report s)"
  by (auto simp: send_keyboard_report_def Let_def update_report_mods_report
      dest: arg_cong [of _ _ rk_payload])

lemma send_oneshot:
  "oneshot_mods (send_keyboard_report cf s) =
    (if has_anykey (use_nkro s) (keyboard_report s) \<noteq> 0 then 0 else live_oneshot_mods cf s)"
  by (simp add: send_keyboard_report_def Let_def update_report_mods_oneshot)

lemma update_report_mods_no_oneshot:
  "oneshot_mods s = 0 \<Longrightarrow> update_report_mods cf s = put_report_mods (wanted_mods cf s) s"
  by (simp add: update_report_mods_def put_report_mods_def wanted_mods_def live_oneshot_mods_def Let_def)

section \<open>The one-shot layer\<close>

lemma layer_set_frame_mods [simp]:
  "oneshot_layer_data (layer_on cf l s) = oneshot_layer_data s"
  "oneshot_layer_data (layer_off cf l s) = oneshot_layer_data s"
  "keymap_config (layer_on cf l s) = keymap_config s" "keymap_config (layer_off cf l s) = keymap_config s"
  by (simp_all add: layer_on_def layer_off_def layer_state_set_def)

lemma and_7: "w AND 7 = take_bit 3 w" for w :: u8
  by (simp add: take_bit_eq_mask mask_numeral)

lemma oneshot_fields_0:
  assumes "unat l < 32"
  shows "drop_bit 3 (push_bit 3 l) = l" "push_bit 3 l AND 7 = (0 :: u8)"
proof -
  have l: "take_bit 5 l = l"
    using assms by (simp add: word_unat_eq_iff unsigned_take_bit_eq take_bit_nat_eq_self)
  have "drop_bit 3 (push_bit 3 l) = take_bit 5 l"
    by (rule bit_word_eqI) (auto simp: bit_simps)
  then show "drop_bit 3 (push_bit 3 l) = l"
    using l by simp
  show "push_bit 3 l AND 7 = (0 :: u8)"
    unfolding and_7 by (rule bit_word_eqI) (auto simp: bit_simps)
qed

lemma oneshot_fields:
  assumes "unat l < 32" "st \<in> {1, 2, 3, 4}"
  shows "drop_bit 3 (push_bit 3 l OR st) = l" "(push_bit 3 l OR st) AND 7 = (st :: u8)"
proof -
  have st: "st AND 7 = st" "drop_bit 3 st = 0"
    using assms(2) by auto
  show "drop_bit 3 (push_bit 3 l OR st) = l" "(push_bit 3 l OR st) AND 7 = st"
    using st oneshot_fields_0 [OF assms(1)] by (simp_all add: drop_bit_or bit.conj_disj_distrib2)
qed

section \<open>Properties\<close>

text \<open>
  (C8) Sending keeps the host up to date: in either layout, when the host has seen the report last
  sent, then after \<open>send_keyboard_report\<close> it has seen the keys of the buffer and the modifiers wanted
  (real, weak and unexpired one-shot modifiers, less the suppressed, plus the override ones), and this
  stays so for the next call.
\<close>

theorem send_report_syncs_host:
  assumes "host_driver cf" "host_synced s"
  shows "host_synced (send_keyboard_report cf s) \<and>
    host_view (out (send_keyboard_report cf s)) = (wanted_mods cf s, rk_payload (keyboard_report s))"
  using assms by (rule send_keyboard_report_sync)

text \<open>
  With the boot layout and no one-shot modifier pending, sending again without a change sends
  nothing.  With the NKRO layout the same second call repeats the report when the header byte held
  other modifiers: \<open>host_keyboard_send\<close> has written the modifiers into byte 1 of the buffer after the
  copy used for the comparison was taken.
\<close>

theorem send_report_repeats:
  assumes "host_driver cf" "oneshot_mods s = 0"
  shows "(\<not> use_nkro s \<longrightarrow>
      out (send_keyboard_report cf (send_keyboard_report cf s)) = out (send_keyboard_report cf s)) \<and>
    (use_nkro s \<and> rk_reserved (keyboard_report s) \<noteq> wanted_mods cf s \<and>
      (keyboard_report s)\<lparr>rk_mods := wanted_mods cf s\<rparr> \<noteq> last_report s \<longrightarrow>
      (let r = (keyboard_report s)\<lparr>rk_mods := REPORT_ID_NKRO, rk_reserved := wanted_mods cf s\<rparr>
       in out (send_keyboard_report cf (send_keyboard_report cf s)) =
          out s @ [UartKeyboard, SendKeyboard True r, UartKeyboard, SendKeyboard True r]))"
proof -
  define s1 where "s1 = send_keyboard_report cf s"
  have "oneshot_mods s1 = 0"
    using assms(2) by (simp add: s1_def send_oneshot live_oneshot_mods_def)
  then have w: "wanted_mods cf s1 = wanted_mods cf s"
    using assms(2) by (simp add: wanted_mods_def live_oneshot_mods_def s1_def)
  note u = update_report_mods_no_oneshot [OF \<open>oneshot_mods s1 = 0\<close>] update_report_mods_no_oneshot [OF assms(2)]
  have boot: "out (send_keyboard_report cf s1) = out s1" if "\<not> use_nkro s"
  proof -
    have "keyboard_report s1 = (keyboard_report s)\<lparr>rk_mods := wanted_mods cf s\<rparr>"
      "last_report s1 = (keyboard_report s)\<lparr>rk_mods := wanted_mods cf s\<rparr>"
      using that assms(1)
      by (auto simp: s1_def send_keyboard_report_def Let_def u host_keyboard_send_def)
    then show ?thesis
      by (simp add: send_keyboard_report_def [of cf s1] Let_def u w)
  qed
  have nkro: "out (send_keyboard_report cf s1) = out s @ [UartKeyboard, SendKeyboard True r, UartKeyboard, SendKeyboard True r]"
    if "use_nkro s" "rk_reserved (keyboard_report s) \<noteq> wanted_mods cf s"
      "(keyboard_report s)\<lparr>rk_mods := wanted_mods cf s\<rparr> \<noteq> last_report s"
      "r = (keyboard_report s)\<lparr>rk_mods := REPORT_ID_NKRO, rk_reserved := wanted_mods cf s\<rparr>" for r
  proof -
    have "keyboard_report s1 = r" "last_report s1 = (keyboard_report s)\<lparr>rk_mods := wanted_mods cf s\<rparr>"
      "out s1 = out s @ [UartKeyboard, SendKeyboard True r]" "use_nkro s1"
      using that assms(1) by (simp_all add: s1_def send_keyboard_report_def Let_def u host_keyboard_send_def)
    moreover have "r\<lparr>rk_mods := wanted_mods cf s\<rparr> \<noteq> (keyboard_report s)\<lparr>rk_mods := wanted_mods cf s\<rparr>"
      using that(2) by (cases "keyboard_report s") (simp add: that(4))
    ultimately show ?thesis
      using assms(1) that(4)
      by (simp add: send_keyboard_report_def [of cf s1] Let_def u w host_keyboard_send_def)
  qed
  show ?thesis
    using boot nkro unfolding s1_def Let_def by blast
qed

text \<open>
  (C37) One-shot modifiers apply to exactly one report with a key: they are part of the modifiers of the
  report sent, and once that report has a key they are gone from every later one; without a key they
  stay pending until they expire.
\<close>

theorem oneshot_mods_used_once:
  assumes "host_driver cf" "host_synced s" "\<not> has_oneshot_mods_timed_out cf s"
  defines "s1 \<equiv> send_keyboard_report cf s"
  shows "fst (host_view (out s1)) =
      (((real_mods s OR weak_mods s) OR oneshot_mods s) AND NOT (suppressed_mods s)) OR weak_override_mods s \<and>
    (if has_anykey (use_nkro s) (keyboard_report s) \<noteq> 0
     then fst (host_view (out (send_keyboard_report cf s1))) =
       ((real_mods s OR weak_mods s) AND NOT (suppressed_mods s)) OR weak_override_mods s
     else oneshot_mods s1 = oneshot_mods s)"
proof -
  have s1: "host_synced s1" "host_view (out s1) = (wanted_mods cf s, rk_payload (keyboard_report s))"
    using send_keyboard_report_sync [OF assms(1,2)] by (simp_all add: s1_def)
  have "oneshot_mods s1 = (if has_anykey (use_nkro s) (keyboard_report s) \<noteq> 0 then 0 else oneshot_mods s)"
    using assms(3) by (simp add: s1_def send_oneshot live_oneshot_mods_def)
  moreover have "wanted_mods cf s1 = ((real_mods s OR weak_mods s) AND NOT (suppressed_mods s)) OR weak_override_mods s"
    if "oneshot_mods s1 = 0"
    using that by (simp add: wanted_mods_def live_oneshot_mods_def s1_def)
  ultimately show ?thesis
    using send_keyboard_report_sync [OF assms(1) s1(1)] s1(2) assms(3)
    by (auto simp: wanted_mods_def live_oneshot_mods_def or.assoc)
qed

text \<open>
  (C38) A one-shot layer ends when both its key has been released and another key has been pressed, in
  either order, and not before: after one of the two events the layer is still on and pending, after
  both it is off and nothing is pending.
\<close>

theorem oneshot_layer_ends:
  fixes cf :: "('c) mods_config_scheme" and s :: "('s) mods_vars_scheme" and l e1 e2 :: u8
  assumes "layer_state_set_kb cf = id" "oneshot_enable (keymap_config s)" "unat l < MAX_LAYER"
    and "{e1, e2} = {ONESHOT_PRESSED, ONESHOT_OTHER_KEY_PRESSED}"
  defines "s1 \<equiv> clear_oneshot_layer_state cf e1 (set_oneshot_layer cf l ONESHOT_START s)"
    and "s2 \<equiv> clear_oneshot_layer_state cf e2
      (clear_oneshot_layer_state cf e1 (set_oneshot_layer cf l ONESHOT_START s))"
  shows "unat l \<in> layers_on (layer_state s1) \<and> is_oneshot_layer_active s1 \<and> get_oneshot_layer s1 = l \<and>
    layers_on (layer_state s2) = layers_on (layer_state s) - {unat l} \<and> \<not> is_oneshot_layer_active s2"
proof -
  define s0 where "s0 = set_oneshot_layer cf l ONESHOT_START s"
  have s0: "oneshot_layer_data s0 = push_bit 3 l OR 3"
    "layers_on (layer_state s0) = insert (unat l) (layers_on (layer_state s))"
    "oneshot_enable (keymap_config s0)"
    using assms(2) layer_ops_sets [OF assms(1) assms(3), of "s\<lparr>oneshot_layer_data := push_bit 3 l OR 3\<rparr>" 0]
    by (simp_all add: s0_def set_oneshot_layer_def Let_def)
  have low: "push_bit 3 l AND NOT 1 = (push_bit 3 l :: u8)" "push_bit 3 l AND NOT 2 = (push_bit 3 l :: u8)"
    by (rule bit_word_eqI, auto simp: bit_simps bit_small_powers)+
  have clear: "(push_bit 3 l OR 3) AND NOT 1 = push_bit 3 l OR (2 :: u8)"
    "(push_bit 3 l OR 3) AND NOT 2 = push_bit 3 l OR (1 :: u8)"
    "(push_bit 3 l OR 2) AND NOT 2 = (push_bit 3 l :: u8)" "(push_bit 3 l OR 1) AND NOT 1 = (push_bit 3 l :: u8)"
    by (simp_all add: bit.conj_disj_distrib2 low [simplified] del: push_bit_numeral)
  have l: "unat l < 32" using assms(3) by simp
  define m where "m = (if e1 = 1 then push_bit 3 l OR 2 else push_bit 3 l OR (1 :: u8))"
  have e: "e1 = 1 \<and> e2 = 2 \<or> e1 = 2 \<and> e2 = 1"
    using assms(4) by (auto simp: doubleton_eq_iff)
  have m: "m AND 7 = e2" "drop_bit 3 m = l" "m AND NOT e2 = push_bit 3 l"
    using e oneshot_fields [OF l, of 1] oneshot_fields [OF l, of 2] by (auto simp: m_def clear clear [simplified])
  have "(push_bit 3 l OR 3) AND NOT e1 = m"
    using e by (auto simp: m_def clear clear [simplified])
  then have s1: "s1 = s0\<lparr>oneshot_layer_data := m\<rparr>"
    using e m(1) by (auto simp: s1_def s0_def [symmetric] clear_oneshot_layer_state_def Let_def
        get_oneshot_layer_state_def s0(1))
  have z: "push_bit 3 l AND 7 = (0 :: u8)" "drop_bit 3 (push_bit 3 l :: u8) = l"
    using oneshot_fields_0 [OF l] by simp_all
  have "push_bit 3 l \<noteq> m"
    using z m(1) e by auto
  then have s2: "s2 = reset_oneshot_layer cf (layer_off cf l (s1\<lparr>oneshot_layer_data := push_bit 3 l\<rparr>))"
    using m(3) z s0(3) unfolding s2_def s1_def [unfolded s0_def [symmetric], symmetric] s0_def [symmetric]
    by (simp add: clear_oneshot_layer_state_def [of cf e2] Let_def get_oneshot_layer_state_def get_oneshot_layer_def s1)
  have "layers_on (layer_state s2) = layers_on (layer_state s1) - {unat l}"
    using layer_ops_sets [OF assms(1,3), of "s1\<lparr>oneshot_layer_data := push_bit 3 l\<rparr>" 0]
    by (simp add: s2 reset_oneshot_layer_def Let_def)
  then show ?thesis
    using s0(2) m e
    by (auto simp: s1 is_oneshot_layer_active_def get_oneshot_layer_state_def get_oneshot_layer_def
        s2 reset_oneshot_layer_def Let_def)
qed

text \<open>
  Disabling one-shot keys while a one-shot layer waits for the next key leaves that layer on for
  good: its state is cleared without switching it off, and from then on nothing that ends one-shot
  layers will, even after one-shot keys are enabled again.
\<close>

theorem oneshot_disable_sticks_layer:
  fixes cf :: "('c) mods_config_scheme" and s :: "('s) mods_vars_scheme"
  assumes "oneshot_enable (keymap_config s)" "get_oneshot_layer_state s = ONESHOT_OTHER_KEY_PRESSED"
    and "e \<in> {ONESHOT_PRESSED, ONESHOT_OTHER_KEY_PRESSED, ONESHOT_START, ONESHOT_TOGGLED}"
  defines "s1 \<equiv> oneshot_disable cf s"
  shows "layer_state s1 = layer_state s \<and> \<not> is_oneshot_layer_active s1 \<and>
    layer_state (clear_oneshot_layer_state cf e s1) = layer_state s \<and>
    layer_state (clear_oneshot_layer_state cf e (oneshot_set cf True s1)) = layer_state s"
proof -
  define d where "d = oneshot_layer_data s AND NOT 2"
  have "d AND 7 = (oneshot_layer_data s AND 7) AND NOT 2"
    unfolding d_def and.assoc and.commute [of "NOT 2" 7] by (rule refl)
  then have z: "d AND 7 = 0"
    using assms(2) by (simp add: get_oneshot_layer_state_def)
  have nk: "d AND NOT k = d" if "k \<in> {1, 2, 3, 4}" for k
  proof -
    have "k AND 7 = k" using that by auto
    then have "d AND k = (d AND 7) AND k"
      unfolding and.assoc and.commute [of 7 k] by (rule arg_cong [OF sym])
    then have "d AND k = 0" by (simp add: z)
    moreover have "(d AND k) OR (d AND NOT k) = d"
      by (simp only: bit.conj_disj_distrib [symmetric] bit.disj_cancel_right bit.conj_one_right)
    ultimately show ?thesis by simp
  qed
  have d: "d AND NOT 2 = d" "d AND NOT e = d"
    by (rule nk, simp, rule nk, rule assms(3))
  have s1: "oneshot_layer_data s1 = d" "layer_state s1 = layer_state s" "\<not> oneshot_enable (keymap_config s1)"
    using assms(1) by (simp_all add: s1_def oneshot_disable_def oneshot_set_def Let_def
        clear_oneshot_layer_state_def d_def)
  have s2: "oneshot_layer_data (oneshot_set cf True s1) = d" "layer_state (oneshot_set cf True s1) = layer_state s"
    using s1 d by (simp_all add: oneshot_set_def Let_def clear_oneshot_layer_state_def)
  show ?thesis
    using s1 s2 d z
    by (simp add: is_oneshot_layer_active_def get_oneshot_layer_state_def clear_oneshot_layer_state_def Let_def)
qed

section \<open>Concrete inputs\<close>

definition example_mods_config :: mods_config where
  "example_mods_config = layer_config.extend example_layer_config \<lparr>ONESHOT_TIMEOUT = 0, host_driver = True\<rparr>"

definition example_mods_vars :: mods_vars where
  "example_mods_vars = layer_vars.extend example_layer_vars
     \<lparr>real_mods = 0, weak_mods = 0, weak_override_mods = 0, suppressed_mods = 0, oneshot_mods = 0,
      oneshot_locked_mods = 0, oneshot_time = 0, oneshot_layer_data = 0, oneshot_layer_time = 0,
      swap_hands = False, swap_hands_oneshot = SHO_OFF, oneshot_swaphands_time = 0,
      keyboard_report = empty_report, last_report = empty_report, keyboard_protocol = True,
      last_system_usage = 0, last_consumer_usage = 0, timer = 0, out = []\<rparr>"

lemmas mods_example = example_mods_config_def example_mods_vars_def layer_config.extend_def layer_vars.extend_def
  layer_example

lemma example_mods [simp]:
  "host_driver example_mods_config" "ONESHOT_TIMEOUT example_mods_config = 0"
  "layer_state_set_kb example_mods_config = id" "oneshot_enable (keymap_config example_mods_vars)"
  "host_synced example_mods_vars" "oneshot_mods example_mods_vars = 0" "\<not> use_nkro example_mods_vars"
  by (simp_all add: mods_example host_synced_def host_view_def empty_report_def use_nkro_def)

theorem send_report_syncs_host_witness:
  "fst (host_view (out (send_keyboard_report example_mods_config (example_mods_vars\<lparr>real_mods := 2\<rparr>)))) = 2"
  by (subst send_report_syncs_host [THEN conjunct2])
    (simp_all add: mods_example host_synced_def host_view_def empty_report_def wanted_mods_def live_oneshot_mods_def
      has_oneshot_mods_timed_out_def)

theorem send_report_repeats_witness:
  "out (send_keyboard_report example_mods_config (send_keyboard_report example_mods_config example_mods_vars)) =
   out (send_keyboard_report example_mods_config example_mods_vars)"
  using send_report_repeats [of example_mods_config example_mods_vars] by simp

theorem oneshot_mods_used_once_witness:
  "fst (host_view (out (send_keyboard_report example_mods_config (example_mods_vars\<lparr>oneshot_mods := 2\<rparr>)))) = 2"
  by (subst oneshot_mods_used_once [THEN conjunct1])
    (simp_all add: mods_example host_synced_def host_view_def empty_report_def has_oneshot_mods_timed_out_def)

theorem oneshot_layer_ends_witness:
  "layers_on (layer_state (clear_oneshot_layer_state example_mods_config ONESHOT_OTHER_KEY_PRESSED
     (clear_oneshot_layer_state example_mods_config ONESHOT_PRESSED
       (set_oneshot_layer example_mods_config 3 ONESHOT_START example_mods_vars)))) =
   layers_on (layer_state example_mods_vars) - {unat (3 :: u8)}"
  using oneshot_layer_ends [of example_mods_config example_mods_vars 3 ONESHOT_PRESSED ONESHOT_OTHER_KEY_PRESSED]
  by simp

theorem oneshot_disable_sticks_layer_witness:
  "layer_state (clear_oneshot_layer_state example_mods_config ONESHOT_OTHER_KEY_PRESSED
     (oneshot_disable example_mods_config (example_mods_vars\<lparr>oneshot_layer_data := 0x0A\<rparr>))) =
   layer_state (example_mods_vars\<lparr>oneshot_layer_data := 0x0A\<rparr>)"
  by (rule oneshot_disable_sticks_layer [THEN conjunct2, THEN conjunct2, THEN conjunct1])
    (simp_all add: get_oneshot_layer_state_def)

end
