(* ===== verification/Events.thy ===== *)
theory Events
  imports Keycodes
begin

text \<open>
  quantum/keyboard.h and quantum/action.h: key events, and the records that carry an event through the
  tapping machine to the action code.  \<open>tap.count\<close> is a four-bit field; the model keeps it as a byte
  and says where it stays below 16.  \<open>COMBO_ENABLE\<close> and \<open>REPEAT_KEY_ENABLE\<close> are off, so that a record
  has no keycode of its own.
\<close>

datatype keyevent_type_t = TICK_EVENT | KEY_EVENT | ENCODER_CW_EVENT | ENCODER_CCW_EVENT | COMBO_EVENT

record keyevent_t =
  ev_key :: keypos_t
  ev_time :: u16
  ev_type :: keyevent_type_t
  ev_pressed :: bool

record keyrecord_t =
  event :: keyevent_t
  tap_interrupted :: bool
  tap_count :: u8

definition IS_NOEVENT :: "keyevent_t \<Rightarrow> bool" where
  "IS_NOEVENT e \<longleftrightarrow> ev_type e = TICK_EVENT"

definition IS_EVENT :: "keyevent_t \<Rightarrow> bool" where
  "IS_EVENT e \<longleftrightarrow> ev_type e \<noteq> TICK_EVENT"

definition IS_KEYEVENT :: "keyevent_t \<Rightarrow> bool" where
  "IS_KEYEVENT e \<longleftrightarrow> ev_type e = KEY_EVENT"

definition IS_COMBOEVENT :: "keyevent_t \<Rightarrow> bool" where
  "IS_COMBOEVENT e \<longleftrightarrow> ev_type e = COMBO_EVENT"

definition IS_ENCODEREVENT :: "keyevent_t \<Rightarrow> bool" where
  "IS_ENCODEREVENT e \<longleftrightarrow> ev_type e = ENCODER_CW_EVENT \<or> ev_type e = ENCODER_CCW_EVENT"

lemma IS_EVENT_iff: "IS_EVENT e \<longleftrightarrow> \<not> IS_NOEVENT e"
  by (simp add: IS_EVENT_def IS_NOEVENT_def)

text \<open>The factories \<open>MAKE_EVENT\<close>, \<open>MAKE_KEYEVENT\<close> and \<open>MAKE_TICK_EVENT\<close>, with the time of the call.\<close>

definition MAKE_EVENT :: "u8 \<Rightarrow> u8 \<Rightarrow> bool \<Rightarrow> keyevent_type_t \<Rightarrow> u16 \<Rightarrow> keyevent_t" where
  "MAKE_EVENT row col press event_type now =
     \<lparr>ev_key = \<lparr>kp_col = col, kp_row = row\<rparr>, ev_time = now, ev_type = event_type, ev_pressed = press\<rparr>"

definition MAKE_KEYEVENT :: "u8 \<Rightarrow> u8 \<Rightarrow> bool \<Rightarrow> u16 \<Rightarrow> keyevent_t" where
  "MAKE_KEYEVENT row col press now = MAKE_EVENT row col press KEY_EVENT now"

definition MAKE_TICK_EVENT :: "u16 \<Rightarrow> keyevent_t" where
  "MAKE_TICK_EVENT now = MAKE_EVENT 0 0 False TICK_EVENT now"

text \<open>\<open>(keyrecord_t){}\<close> and \<open>(keyrecord_t){.event = e}\<close>.\<close>

definition empty_record :: keyrecord_t where
  "empty_record = \<lparr>event = MAKE_TICK_EVENT 0, tap_interrupted = False, tap_count = 0\<rparr>"

definition record_of_event :: "keyevent_t \<Rightarrow> keyrecord_t" where
  "record_of_event e = \<lparr>event = e, tap_interrupted = False, tap_count = 0\<rparr>"

lemma empty_record_simps [simp]:
  "IS_NOEVENT (event empty_record)" "tap_count empty_record = 0" "\<not> tap_interrupted empty_record"
  "\<not> ev_pressed (event empty_record)"
  by (simp_all add: empty_record_def MAKE_TICK_EVENT_def MAKE_EVENT_def IS_NOEVENT_def)

lemma record_of_event_simps [simp]:
  "event (record_of_event e) = e" "tap_count (record_of_event e) = 0" "\<not> tap_interrupted (record_of_event e)"
  by (simp_all add: record_of_event_def)

end
