(* ===== verification/Actions.thy ===== *)
theory Actions
  imports Mods Events
begin

text \<open>
  quantum/action.c: what an action does.  A key record reaches \<open>process_record\<close>, which finds the action
  of its position and runs it: keys and modifiers change the report, layer actions the layer masks,
  and the remaining kinds the consumer, system and mouse reports and the hand swap.

  Each case of the switch in \<open>process_action\<close> is a definition; \<open>process_action\<close> puts them together with
  the code before and after the switch.  Configuration: \<open>EXTRAKEY_ENABLE\<close>, \<open>MOUSEKEY_ENABLE\<close> (calls of
  mousekey.c are trace events), \<open>SWAP_HANDS_ENABLE\<close>; no \<open>LOCKING_SUPPORT_ENABLE\<close>, \<open>COMMAND_ENABLE\<close>,
  \<open>COMBO_ENABLE\<close>, \<open>REPEAT_KEY_ENABLE\<close>, \<open>PROGRAMMABLE_BUTTON_ENABLE\<close>, \<open>AUTO_SHIFT_ENABLE\<close>, pointing
  device or \<open>DUMMY_MOD_NEUTRALIZER_KEYCODE\<close>.  The overridable \<open>process_record_quantum\<close>, its post hook and
  the per-key settings are fields of the configuration; the hook may change the state, not the record.  The state may
  be extended: features that hook into the code keep their variables behind those of \<open>action_vars\<close>.
\<close>

section \<open>State and configuration\<close>

record action_vars = mods_vars +
  swap_held :: bool
  matrix_swap_state :: "u8 list"
  encoder_swap_state :: "u8 list"
  retro_tapping_counter :: int

record 'h actions_config = mods_config +
  hand_swap_config :: "nat \<Rightarrow> nat \<Rightarrow> keypos_t"
  encoder_hand_swap_config :: "nat \<Rightarrow> u8"
  TAPPING_TOGGLE :: nat
  ONESHOT_TAP_TOGGLE :: nat
  TAP_CODE_DELAY :: nat
  TAP_HOLD_CAPS_DELAY :: nat
  RETRO_TAPPING :: bool
  get_retro_tapping :: "u16 \<Rightarrow> keyrecord_t \<Rightarrow> bool"
  HOLD_ON_OTHER_KEY_PRESS_PER_KEY :: bool
  get_hold_on_other_key_press :: "u16 \<Rightarrow> keyrecord_t \<Rightarrow> bool"
  process_record_quantum :: "keyrecord_t \<Rightarrow> 'h action_vars_scheme \<Rightarrow> bool \<times> 'h action_vars_scheme"
  post_process_record_quantum :: "keyrecord_t \<Rightarrow> 'h action_vars_scheme \<Rightarrow> 'h action_vars_scheme"

section \<open>Codes and modifiers\<close>

definition register_mouse :: "u8 \<Rightarrow> bool \<Rightarrow> ('s) mods_vars_scheme \<Rightarrow> ('s) mods_vars_scheme" where
  "register_mouse mouse_keycode pressed s =
     emit MousekeySend (emit (if pressed then MousekeyOn mouse_keycode else MousekeyOff mouse_keycode) s)"

definition register_code :: "('c) mods_config_scheme \<Rightarrow> u8 \<Rightarrow> ('s) mods_vars_scheme \<Rightarrow> ('s) mods_vars_scheme" where
  "register_code cf code s =
    (if code = KC_NO then s
     else if IS_BASIC_KEYCODE code then
       (let s = (if is_key_pressed (use_nkro s) (keyboard_report s) code
                 then send_keyboard_report cf (del_key code s) else s)
        in send_keyboard_report cf (add_key code s))
     else if IS_MODIFIER_KEYCODE code then send_keyboard_report cf (add_mods (MOD_BIT code) s)
     else if IS_SYSTEM_KEYCODE code then host_system_send cf (KEYCODE2SYSTEM code) s
     else if IS_CONSUMER_KEYCODE code then host_consumer_send cf (KEYCODE2CONSUMER code) s
     else if IS_MOUSE_KEYCODE code then register_mouse code True s
     else s)"

definition unregister_code :: "('c) mods_config_scheme \<Rightarrow> u8 \<Rightarrow> ('s) mods_vars_scheme \<Rightarrow> ('s) mods_vars_scheme" where
  "unregister_code cf code s =
    (if code = KC_NO then s
     else if IS_BASIC_KEYCODE code then send_keyboard_report cf (del_key code s)
     else if IS_MODIFIER_KEYCODE code then send_keyboard_report cf (del_mods (MOD_BIT code) s)
     else if IS_SYSTEM_KEYCODE code then host_system_send cf 0 s
     else if IS_CONSUMER_KEYCODE code then host_consumer_send cf 0 s
     else if IS_MOUSE_KEYCODE code then register_mouse code False s
     else s)"

definition tap_code_delay ::
    "('c) mods_config_scheme \<Rightarrow> u8 \<Rightarrow> u16 \<Rightarrow> ('s) mods_vars_scheme \<Rightarrow> ('s) mods_vars_scheme" where
  "tap_code_delay cf code delay s =
    (let s = register_code cf code s;
         s = fold (\<lambda>_ s. emit (WaitMs 1) s) [0..<unat delay] s
     in unregister_code cf code s)"

definition tap_code :: "('h, 'c) actions_config_scheme \<Rightarrow> u8 \<Rightarrow> ('s) mods_vars_scheme \<Rightarrow> ('s) mods_vars_scheme" where
  "tap_code cf code s =
     tap_code_delay cf code (of_nat (if code = KC_CAPS_LOCK then TAP_HOLD_CAPS_DELAY cf else TAP_CODE_DELAY cf)) s"

definition register_mods :: "('c) mods_config_scheme \<Rightarrow> u8 \<Rightarrow> ('s) mods_vars_scheme \<Rightarrow> ('s) mods_vars_scheme" where
  "register_mods cf mods s = (if mods \<noteq> 0 then send_keyboard_report cf (add_mods mods s) else s)"

definition unregister_mods :: "('c) mods_config_scheme \<Rightarrow> u8 \<Rightarrow> ('s) mods_vars_scheme \<Rightarrow> ('s) mods_vars_scheme" where
  "unregister_mods cf mods s = (if mods \<noteq> 0 then send_keyboard_report cf (del_mods mods s) else s)"

definition register_weak_mods ::
    "('c) mods_config_scheme \<Rightarrow> u8 \<Rightarrow> ('s) mods_vars_scheme \<Rightarrow> ('s) mods_vars_scheme" where
  "register_weak_mods cf mods s = (if mods \<noteq> 0 then send_keyboard_report cf (add_weak_mods mods s) else s)"

definition unregister_weak_mods ::
    "('c) mods_config_scheme \<Rightarrow> u8 \<Rightarrow> ('s) mods_vars_scheme \<Rightarrow> ('s) mods_vars_scheme" where
  "unregister_weak_mods cf mods s = (if mods \<noteq> 0 then send_keyboard_report cf (del_weak_mods mods s) else s)"

definition clear_keyboard_but_mods_and_keys ::
    "('c) mods_config_scheme \<Rightarrow> ('s) mods_vars_scheme \<Rightarrow> ('s) mods_vars_scheme" where
  "clear_keyboard_but_mods_and_keys cf s =
    (let s = host_system_send cf 0 s;
         s = host_consumer_send cf 0 s;
         s = clear_weak_mods s;
         s = send_keyboard_report cf s
     in emit MousekeySend (emit MousekeyClear s))"

definition clear_keyboard_but_mods ::
    "('c) mods_config_scheme \<Rightarrow> ('s) mods_vars_scheme \<Rightarrow> ('s) mods_vars_scheme" where
  "clear_keyboard_but_mods cf s = clear_keyboard_but_mods_and_keys cf (clear_keys s)"

definition clear_keyboard :: "('c) mods_config_scheme \<Rightarrow> ('s) mods_vars_scheme \<Rightarrow> ('s) mods_vars_scheme" where
  "clear_keyboard cf s = clear_keyboard_but_mods cf (clear_mods s)"

section \<open>Swapping hands\<close>

definition should_swap_hands :: "nat \<Rightarrow> u8 list \<Rightarrow> bool \<Rightarrow> ('s) mods_vars_scheme \<Rightarrow> bool" where
  "should_swap_hands index swap_state pressed s =
    (if pressed then swap_hands s
     else swap_state ! (index div CHAR_BIT) AND push_bit (index mod CHAR_BIT) 1 \<noteq> 0)"

definition set_swap_hands_state :: "nat \<Rightarrow> u8 list \<Rightarrow> bool \<Rightarrow> u8 list" where
  "set_swap_hands_state index swap_state on =
    (let i = index div CHAR_BIT; bit_val = push_bit (index mod CHAR_BIT) 1
     in if on then swap_state[i := swap_state ! i OR bit_val]
        else swap_state[i := swap_state ! i AND NOT bit_val])"

definition process_hand_swap ::
    "('h, 'c) actions_config_scheme \<Rightarrow> keyevent_t \<Rightarrow> 'h action_vars_scheme \<Rightarrow> keyevent_t \<times> 'h action_vars_scheme" where
  "process_hand_swap cf ev s =
    (let row = unat (kp_row (ev_key ev)); col = unat (kp_col (ev_key ev)) in
     if IS_KEYEVENT ev \<and> row < MATRIX_ROWS cf \<and> col < MATRIX_COLS cf then
       (let index = row * MATRIX_COLS cf + col;
            do_swap = should_swap_hands index (matrix_swap_state s) (ev_pressed ev) s;
            ev = (if do_swap then ev\<lparr>ev_key := hand_swap_config cf row col\<rparr> else ev)
        in (ev, s\<lparr>matrix_swap_state := set_swap_hands_state index (matrix_swap_state s) do_swap\<rparr>))
     else if km_encoder_map cf \<and> IS_ENCODEREVENT ev \<and>
         (kp_row (ev_key ev) = KEYLOC_ENCODER_CW \<or> kp_row (ev_key ev) = KEYLOC_ENCODER_CCW) then
       (let do_swap = should_swap_hands col (encoder_swap_state s) (ev_pressed ev) s;
            ev = (if do_swap
                  then ev\<lparr>ev_key := \<lparr>kp_col = encoder_hand_swap_config cf col, kp_row = kp_row (ev_key ev)\<rparr>\<rparr>
                  else ev)
        in (ev, s\<lparr>encoder_swap_state := set_swap_hands_state col (encoder_swap_state s) do_swap\<rparr>))
     else (ev, s))"

section \<open>Tap actions\<close>

abbreviation OP_TAP_TOGGLE :: u8 where "OP_TAP_TOGGLE \<equiv> 0xF0"
abbreviation OP_ON_OFF :: u8 where "OP_ON_OFF \<equiv> 0xF1"
abbreviation OP_OFF_ON :: u8 where "OP_OFF_ON \<equiv> 0xF2"
abbreviation OP_SET_CLEAR :: u8 where "OP_SET_CLEAR \<equiv> 0xF3"
abbreviation OP_ONESHOT :: u8 where "OP_ONESHOT \<equiv> 0xF4"

abbreviation OP_SH_TOGGLE :: u8 where "OP_SH_TOGGLE \<equiv> 0xF0"
abbreviation OP_SH_TAP_TOGGLE :: u8 where "OP_SH_TAP_TOGGLE \<equiv> 0xF1"
abbreviation OP_SH_ON_OFF :: u8 where "OP_SH_ON_OFF \<equiv> 0xF2"
abbreviation OP_SH_OFF_ON :: u8 where "OP_SH_OFF_ON \<equiv> 0xF3"
abbreviation OP_SH_OFF :: u8 where "OP_SH_OFF \<equiv> 0xF4"
abbreviation OP_SH_ON :: u8 where "OP_SH_ON \<equiv> 0xF5"
abbreviation OP_SH_ONESHOT :: u8 where "OP_SH_ONESHOT \<equiv> 0xF6"

definition is_tap_action :: "action_t \<Rightarrow> bool" where
  "is_tap_action a =
    (if kind_id a \<in> {ACT_LMODS_TAP, ACT_RMODS_TAP, ACT_LAYER_TAP, ACT_LAYER_TAP_EXT} then
       layer_tap_code a \<le> KC_RIGHT_GUI \<or> layer_tap_code a = OP_TAP_TOGGLE \<or> layer_tap_code a = OP_ONESHOT
     else if kind_id a = ACT_SWAP_HANDS then
       swap_code a \<le> KC_RIGHT_GUI \<or> swap_code a = OP_SH_TAP_TOGGLE
     else False)"

definition is_tap_record :: "('c) layer_config_scheme \<Rightarrow> keyrecord_t \<Rightarrow> ('s) layer_vars_scheme \<Rightarrow> bool" where
  "is_tap_record cf r s =
    (if IS_NOEVENT (event r) then False
     else is_tap_action (layer_switch_get_action cf s (ev_key (event r))))"

definition get_event_keycode ::
    "('c) layer_config_scheme \<Rightarrow> keyevent_t \<Rightarrow> bool \<Rightarrow> ('s) layer_vars_scheme \<Rightarrow> u16 \<times> ('s) layer_vars_scheme" where
  "get_event_keycode cf ev update_layer_cache s =
    (if \<not> disable_action_cache s then
       (if ev_pressed ev \<and> update_layer_cache then
          (let layer = layer_switch_get_layer cf s (ev_key ev)
           in (keymap_key_to_keycode cf layer (ev_key ev), update_source_layers_cache cf (ev_key ev) layer s))
        else (keymap_key_to_keycode cf (read_source_layers_cache cf s (ev_key ev)) (ev_key ev), s))
     else (keymap_key_to_keycode cf (layer_switch_get_layer cf s (ev_key ev)) (ev_key ev), s))"

definition process_record_tap_hint :: "('c) layer_config_scheme \<Rightarrow> keyrecord_t \<Rightarrow> 'h action_vars_scheme \<Rightarrow> 'h action_vars_scheme" where
  "process_record_tap_hint cf r s =
    (if \<not> IS_KEYEVENT (event r) then s
     else let a = layer_switch_get_action cf s (ev_key (event r))
          in if kind_id a = ACT_SWAP_HANDS \<and> swap_code a \<noteq> OP_SH_ONESHOT
             then s\<lparr>swap_hands := \<not> swap_hands s, swap_held := True\<rparr> else s)"

section \<open>The cases of process_action\<close>

text \<open>\<open>ACT_LMODS\<close> and \<open>ACT_RMODS\<close>, also the one-shot modifier keys while one-shot keys are disabled.\<close>

definition process_key_action ::
    "('c) mods_config_scheme \<Rightarrow> bool \<Rightarrow> u8 \<Rightarrow> u8 \<Rightarrow> ('s) mods_vars_scheme \<Rightarrow> ('s) mods_vars_scheme" where
  "process_key_action cf pressed mods code s =
    (let real = IS_MODIFIER_KEYCODE code \<or> code = KC_NO in
     if pressed then
       (let s = (if mods \<noteq> 0
                 then send_keyboard_report cf (if real then add_mods mods s else add_weak_mods mods s) else s)
        in register_code cf code s)
     else
       (let s = unregister_code cf code s
        in if mods \<noteq> 0
           then send_keyboard_report cf (if real then del_mods mods s else del_weak_mods mods s) else s))"

text \<open>The modifiers of a key action, in the eight-bit form: the right-hand ones in the upper half.\<close>

definition action_mods :: "action_t \<Rightarrow> bool \<Rightarrow> u8" where
  "action_mods a left = (if left then key_mods a else push_bit 4 (key_mods a))"

definition process_oneshot_mods ::
    "('h, 'c) actions_config_scheme \<Rightarrow> bool \<Rightarrow> u8 \<Rightarrow> u8 \<Rightarrow> ('s) mods_vars_scheme \<Rightarrow> ('s) mods_vars_scheme" where
  "process_oneshot_mods cf pressed count mods s =
    (if pressed then
       (if count = 0 then register_mods cf mods s
        else if count = 1 then add_oneshot_mods cf mods s
        else if 1 < ONESHOT_TAP_TOGGLE cf \<and> unat count = ONESHOT_TAP_TOGGLE cf then
          add_oneshot_locked_mods mods (del_oneshot_mods cf mods (register_mods cf mods s))
        else s)
     else
       (if count = 0 then del_oneshot_locked_mods mods (del_oneshot_mods cf mods (unregister_mods cf mods s))
        else if 1 < ONESHOT_TAP_TOGGLE cf \<and> count = 1 \<and> mods AND real_mods s \<noteq> 0 then
          del_oneshot_locked_mods mods (del_oneshot_mods cf mods (unregister_mods cf mods s))
        else s))"

definition wait_tap :: "('h, 'c) actions_config_scheme \<Rightarrow> u8 \<Rightarrow> ('s) mods_vars_scheme \<Rightarrow> ('s) mods_vars_scheme" where
  "wait_tap cf code s =
     emit (WaitMs (if code = KC_CAPS_LOCK then TAP_HOLD_CAPS_DELAY cf else TAP_CODE_DELAY cf)) s"

text \<open>The case may cancel the tap of the record when a mod-tap key was interrupted.\<close>

definition process_mods_tap ::
    "('h, 'c) actions_config_scheme \<Rightarrow> keyrecord_t \<Rightarrow> action_t \<Rightarrow> 'h action_vars_scheme \<Rightarrow> keyrecord_t \<times> 'h action_vars_scheme" where
  "process_mods_tap cf r a s =
    (let pressed = ev_pressed (event r); count = tap_count r;
         mods = action_mods a (kind_id a = ACT_LMODS_TAP)
     in if layer_tap_code a = 0x00 then
          (r, if \<not> oneshot_enable (keymap_config s) then process_key_action cf pressed mods (key_code a) s
              else process_oneshot_mods cf pressed count mods s)
        else if layer_tap_code a = 0x01 then
          (r, if pressed then (if unat count \<le> TAPPING_TOGGLE cf then register_mods cf mods s else s)
              else (if unat count < TAPPING_TOGGLE cf then unregister_mods cf mods s else s))
        else if pressed then
          (if 0 < count then
             (if HOLD_ON_OTHER_KEY_PRESS_PER_KEY cf \<and>
                 get_hold_on_other_key_press cf (fst (get_event_keycode cf (event r) False s)) r \<and>
                 tap_interrupted r
              then (r\<lparr>tap_count := 0\<rparr>, register_mods cf mods s)
              else (r, register_code cf (key_code a) s))
           else (r, register_mods cf mods s))
        else
          (r, if 0 < count then unregister_code cf (key_code a) (wait_tap cf (layer_tap_code a) s)
              else unregister_mods cf mods s))"

definition process_usage ::
    "('c) mods_config_scheme \<Rightarrow> bool \<Rightarrow> action_t \<Rightarrow> ('s) mods_vars_scheme \<Rightarrow> ('s) mods_vars_scheme" where
  "process_usage cf pressed a s =
    (let usage = (if pressed then usage_code a else 0)
     in if usage_page a = 0 then host_system_send cf usage s
        else if usage_page a = 1 then host_consumer_send cf usage s
        else s)"

definition process_layer_bitop ::
    "('c) layer_config_scheme \<Rightarrow> bool \<Rightarrow> action_t \<Rightarrow> ('s) layer_vars_scheme \<Rightarrow> ('s) layer_vars_scheme" where
  "process_layer_bitop cf pressed a s =
    (let shift = unat (layer_bitop_part a) * 4;
         bits = push_bit shift (ucast (layer_bitop_bits a));
         mask = (if layer_bitop_xbit a then NOT (push_bit shift 0xf) else 0);
         op = layer_bitop_op a
     in if layer_bitop_on a = 0 then
          (if \<not> pressed then
             (if op = 0 then default_layer_and cf (bits OR mask) s
              else if op = 1 then default_layer_or cf (bits OR mask) s
              else if op = 2 then default_layer_xor cf (bits OR mask) s
              else default_layer_set cf (bits OR mask) s)
           else s)
        else if (if pressed then layer_bitop_on a AND 1 \<noteq> 0 else layer_bitop_on a AND 2 \<noteq> 0) then
          (if op = 0 then layer_and cf (bits OR mask) s
           else if op = 1 then layer_or cf (bits OR mask) s
           else if op = 2 then layer_xor cf (bits OR mask) s
           else layer_state_set cf (bits OR mask) s)
        else s)"

definition process_layer_mods ::
    "('c) mods_config_scheme \<Rightarrow> bool \<Rightarrow> action_t \<Rightarrow> ('s) mods_vars_scheme \<Rightarrow> ('s) mods_vars_scheme" where
  "process_layer_mods cf pressed a s =
    (if pressed then register_mods cf (layer_mods_mods a) (layer_on cf (layer_mods_layer a) s)
     else layer_off cf (layer_mods_layer a) (unregister_mods cf (layer_mods_mods a) s))"

text \<open>
  One-shot layers; with a tap toggle the case also resets \<open>do_release_oneshot\<close> (the first component).
\<close>

definition process_oneshot_layer ::
    "('h, 'c) actions_config_scheme \<Rightarrow> bool \<Rightarrow> bool \<Rightarrow> u8 \<Rightarrow> u8 \<Rightarrow> ('s) mods_vars_scheme \<Rightarrow> bool \<times> ('s) mods_vars_scheme" where
  "process_oneshot_layer cf do_release pressed count layer s =
    (if \<not> oneshot_enable (keymap_config s) then
       (do_release, if pressed then layer_on cf layer s else layer_off cf layer s)
     else if 1 < ONESHOT_TAP_TOGGLE cf then
       (False,
        if pressed then
          (if get_oneshot_layer_state s = ONESHOT_TOGGLED then layer_off cf layer (reset_oneshot_layer cf s)
           else if unat count < ONESHOT_TAP_TOGGLE cf
           then set_oneshot_layer cf layer ONESHOT_START (layer_on cf layer s) else s)
        else
          (if ONESHOT_TAP_TOGGLE cf \<le> unat count
           then set_oneshot_layer cf layer ONESHOT_TOGGLED (reset_oneshot_layer cf s)
           else clear_oneshot_layer_state cf ONESHOT_PRESSED s))
     else
       (do_release,
        if pressed then set_oneshot_layer cf layer ONESHOT_START (layer_on cf layer s)
        else let s = clear_oneshot_layer_state cf ONESHOT_PRESSED s
             in if 1 < count then clear_oneshot_layer_state cf ONESHOT_OTHER_KEY_PRESSED s else s))"

definition process_layer_tap ::
    "('h, 'c) actions_config_scheme \<Rightarrow> bool \<Rightarrow> bool \<Rightarrow> u8 \<Rightarrow> action_t \<Rightarrow> ('s) mods_vars_scheme \<Rightarrow>
     bool \<times> ('s) mods_vars_scheme" where
  "process_layer_tap cf do_release pressed count a s =
    (let code = layer_tap_code a; layer = layer_tap_val a in
     if code = OP_TAP_TOGGLE then
       (do_release,
        if (if pressed then unat count < TAPPING_TOGGLE cf else unat count \<le> TAPPING_TOGGLE cf)
        then layer_invert cf layer s else s)
     else if code = OP_ON_OFF then (do_release, if pressed then layer_on cf layer s else layer_off cf layer s)
     else if code = OP_OFF_ON then (do_release, if pressed then layer_off cf layer s else layer_on cf layer s)
     else if code = OP_SET_CLEAR then (do_release, if pressed then layer_move cf layer s else layer_clear cf s)
     else if code = OP_ONESHOT then process_oneshot_layer cf do_release pressed count layer s
     else
       (do_release,
        if pressed then (if 0 < count then register_code cf code s else layer_on cf layer s)
        else (if 0 < count then unregister_code cf code (wait_tap cf code s) else layer_off cf layer s)))"

definition process_swap_hands ::
    "('h, 'c) actions_config_scheme \<Rightarrow> keyrecord_t \<Rightarrow> action_t \<Rightarrow> 'h action_vars_scheme \<Rightarrow> keyrecord_t \<times> 'h action_vars_scheme" where
  "process_swap_hands cf r a s =
    (let code = swap_code a; pressed = ev_pressed (event r); count = tap_count r in
     if code = OP_SH_TOGGLE then (r, if pressed then s\<lparr>swap_hands := \<not> swap_hands s\<rparr> else s)
     else if code = OP_SH_ON_OFF then (r, s\<lparr>swap_hands := pressed\<rparr>)
     else if code = OP_SH_OFF_ON then (r, s\<lparr>swap_hands := \<not> pressed\<rparr>)
     else if code = OP_SH_ON then (r, if \<not> pressed then s\<lparr>swap_hands := True\<rparr> else s)
     else if code = OP_SH_OFF then (r, if \<not> pressed then s\<lparr>swap_hands := False\<rparr> else s)
     else if code = OP_SH_ONESHOT then
       (r, if pressed then set_oneshot_swaphands cf s else release_oneshot_swaphands cf s)
     else if code = OP_SH_TAP_TOGGLE then
       (r, if pressed then
             (if swap_held s then s\<lparr>swap_held := False\<rparr> else s\<lparr>swap_hands := \<not> swap_hands s\<rparr>)
           else (if unat count < TAPPING_TOGGLE cf then s\<lparr>swap_hands := \<not> swap_hands s\<rparr> else s))
     else if 0 < count then
       (let s = (if swap_held s then s\<lparr>swap_hands := \<not> swap_hands s, swap_held := False\<rparr> else s)
        in if pressed then (r, register_code cf code s)
           else (empty_record, unregister_code cf code (emit (WaitMs (TAP_CODE_DELAY cf)) s)))
     else (r, if swap_held s \<and> \<not> pressed then s\<lparr>swap_hands := \<not> swap_hands s, swap_held := False\<rparr> else s))"

section \<open>process_action and process_record\<close>

text \<open>The code before the switch: does this press end a one-shot layer?\<close>

definition ends_oneshot_layer :: "keyrecord_t \<Rightarrow> action_t \<Rightarrow> ('s) mods_vars_scheme \<Rightarrow> bool" where
  "ends_oneshot_layer r a s \<longleftrightarrow>
     is_oneshot_layer_active s \<and> ev_pressed (event r) \<and>
     (kind_id a = ACT_USAGE \<or>
      \<not> (IS_MODIFIER_KEYCODE (key_code a) \<or>
         tap_count r = 0 \<and> (kind_id a = ACT_LMODS_TAP \<or> kind_id a = ACT_RMODS_TAP))) \<and>
     \<not> (kind_id a = ACT_SWAP_HANDS \<and> swap_code a = OP_SH_ONESHOT) \<and>
     oneshot_enable (keymap_config s)"

text \<open>The switch over the kind of the action.\<close>

definition action_switch ::
    "('h, 'c) actions_config_scheme \<Rightarrow> keyrecord_t \<Rightarrow> action_t \<Rightarrow> bool \<Rightarrow> 'h action_vars_scheme \<Rightarrow>
     keyrecord_t \<times> bool \<times> 'h action_vars_scheme" where
  "action_switch cf r a do_release s =
    (let k = kind_id a; pressed = ev_pressed (event r) in
     if k = ACT_LMODS \<or> k = ACT_RMODS then
       (r, do_release, process_key_action cf pressed (action_mods a (k = ACT_LMODS)) (key_code a) s)
     else if k = ACT_LMODS_TAP \<or> k = ACT_RMODS_TAP then
       (let (r, s) = process_mods_tap cf r a s in (r, do_release, s))
     else if k = ACT_USAGE then (r, do_release, process_usage cf pressed a s)
     else if k = ACT_MOUSEKEY then (r, do_release, register_mouse (key_code a) pressed s)
     else if k = ACT_LAYER then (r, do_release, process_layer_bitop cf pressed a s)
     else if k = ACT_LAYER_MODS then (r, do_release, process_layer_mods cf pressed a s)
     else if k = ACT_LAYER_TAP \<or> k = ACT_LAYER_TAP_EXT then
       (let (do_release, s) = process_layer_tap cf do_release pressed (tap_count r) a s in (r, do_release, s))
     else if k = ACT_SWAP_HANDS then
       (let (r, s) = process_swap_hands cf r a s in (r, do_release, s))
     else (r, do_release, s))"

text \<open>The code after the switch, up to the release of a one-shot layer.\<close>

definition update_layer_leds :: "action_t \<Rightarrow> ('s) mods_vars_scheme \<Rightarrow> ('s) mods_vars_scheme" where
  "update_layer_leds a s =
    (if kind_id a \<in> {ACT_LAYER, ACT_LAYER_MODS, ACT_LAYER_TAP, ACT_LAYER_TAP_EXT} then emit LedSet s else s)"

text \<open>\<open>pressed\<close> and \<open>count\<close> are the locals read before the switch, \<open>r\<close> the record after it.\<close>

definition process_retro_tapping ::
    "('h, 'c) actions_config_scheme \<Rightarrow> bool \<Rightarrow> u8 \<Rightarrow> keyrecord_t \<Rightarrow> action_t \<Rightarrow> 'h action_vars_scheme \<Rightarrow> 'h action_vars_scheme" where
  "process_retro_tapping cf pressed count r a s =
    (if \<not> RETRO_TAPPING cf then s
     else if \<not> is_tap_action a then s\<lparr>retro_tapping_counter := 0\<rparr>
     else if pressed then (if 0 < count then s\<lparr>retro_tapping_counter := 0\<rparr> else s)
     else if 0 < count then s\<lparr>retro_tapping_counter := 0\<rparr>
     else let s = (if get_retro_tapping cf (fst (get_event_keycode cf (event r) False s)) r \<and>
                      retro_tapping_counter s = 2
                   then tap_code cf (layer_tap_code a) s else s)
          in s\<lparr>retro_tapping_counter := 0\<rparr>)"

definition process_action_body ::
    "('h, 'c) actions_config_scheme \<Rightarrow> keyrecord_t \<Rightarrow> action_t \<Rightarrow> 'h action_vars_scheme \<Rightarrow> keyrecord_t \<times> bool \<times> 'h action_vars_scheme" where
  "process_action_body cf r0 a s =
    (let pressed = ev_pressed (event r0); count = tap_count r0;
         ends = ends_oneshot_layer r0 a s;
         s = (if ends then clear_oneshot_layer_state cf ONESHOT_OTHER_KEY_PRESSED s else s);
         do_release = (ends \<and> \<not> is_oneshot_layer_active s);
         (r, do_release, s) = action_switch cf r0 a do_release s;
         s = update_layer_leds a s;
         s = process_retro_tapping cf pressed count r a s;
         s = (if pressed \<and> \<not> (kind_id a = ACT_SWAP_HANDS \<and> swap_code a = OP_SH_ONESHOT)
              then use_oneshot_swaphands cf s else s)
     in (r, do_release \<and> get_oneshot_layer_state s AND ONESHOT_PRESSED = 0, s))"

lemma action_switch_release: "action_switch cf r a do_release s = (r', True, s') \<Longrightarrow> do_release"
  by (auto simp: action_switch_def process_layer_tap_def process_oneshot_layer_def Let_def split_beta
      split: if_splits)

lemma process_action_body_release:
  "process_action_body cf r a s = (r', True, s') \<Longrightarrow> ev_pressed (event r)"
  by (auto simp: process_action_body_def ends_oneshot_layer_def Let_def split: prod.splits if_splits
      dest!: action_switch_release)

text \<open>
  \<open>process_record\<close> and \<open>process_action\<close> call each other when a press ends a one-shot layer; the inner
  call processes the release of the same position, which ends none.  The test of \<open>ev_pressed\<close> beside
  \<open>release\<close> is implied by it (\<open>process_action_body_release\<close>) and shows that the recursion ends.
\<close>

function process_record ::
    "('h, 'c) actions_config_scheme \<Rightarrow> keyrecord_t \<Rightarrow> 'h action_vars_scheme \<Rightarrow> keyrecord_t \<times> 'h action_vars_scheme" where
  "process_record cf r s =
    (if IS_NOEVENT (event r) then (r, s)
     else let (go_on, s) = process_record_quantum cf r s in
     if \<not> go_on then
       (r, if is_oneshot_layer_active s \<and> ev_pressed (event r) \<and> oneshot_enable (keymap_config s)
           then clear_oneshot_layer_state cf ONESHOT_OTHER_KEY_PRESSED s else s)
     else let (a, s) = store_or_get_action cf (ev_pressed (event r)) (ev_key (event r)) s;
              (r', release, s) = process_action_body cf r a s;
              (r', s) = (if release \<and> ev_pressed (event r) then
                  (let r' = r'\<lparr>event := (event r')\<lparr>ev_pressed := False\<rparr>\<rparr>;
                       (r', s) = process_record cf r' (layer_on cf (get_oneshot_layer s) s)
                   in (r', layer_off cf (get_oneshot_layer s) s))
                else (r', s))
          in (r', post_process_record_quantum cf r' s))"
  by pat_completeness auto
termination
  by (relation "measure (\<lambda>(cf, r, s). if ev_pressed (event r) then 1 else 0)") auto

declare process_record.simps [simp del]

definition process_record_nocache ::
    "('h, 'c) actions_config_scheme \<Rightarrow> keyrecord_t \<Rightarrow> 'h action_vars_scheme \<Rightarrow> keyrecord_t \<times> 'h action_vars_scheme" where
  "process_record_nocache cf r s =
    (let (r, s) = process_record cf r (s\<lparr>disable_action_cache := True\<rparr>)
     in (r, s\<lparr>disable_action_cache := False\<rparr>))"

section \<open>action_exec up to the tapping machine\<close>

definition action_exec_prepare ::
    "('h, 'c) actions_config_scheme \<Rightarrow> keyevent_t \<Rightarrow> 'h action_vars_scheme \<Rightarrow> keyrecord_t \<times> 'h action_vars_scheme" where
  "action_exec_prepare cf ev s =
    (let s = (if IS_EVENT ev \<and> RETRO_TAPPING cf
              then s\<lparr>retro_tapping_counter := retro_tapping_counter s + 1\<rparr> else s);
         s = (if ev_pressed ev then clear_weak_mods s else s);
         (ev, s) = (if IS_EVENT ev then process_hand_swap cf ev s else (ev, s));
         s = (if oneshot_enable (keymap_config s) \<and> 0 < ONESHOT_TIMEOUT cf then
                (let s = (if has_oneshot_layer_timed_out cf s
                          then clear_oneshot_layer_state cf ONESHOT_OTHER_KEY_PRESSED s else s);
                     s = (if has_oneshot_mods_timed_out cf s then clear_oneshot_mods cf s else s)
                 in if has_oneshot_swaphands_timed_out cf s then clear_oneshot_swaphands cf s else s)
              else s)
     in (record_of_event ev, s))"

section \<open>What the code operations leave unchanged\<close>

lemma clear_oneshot_mods_frame2 [simp]:
  "oneshot_layer_data (clear_oneshot_mods cf s) = oneshot_layer_data s"
  "keymap_config (clear_oneshot_mods cf s) = keymap_config s"
  "layer_state (clear_oneshot_mods cf s) = layer_state s"
  "keyboard_protocol (clear_oneshot_mods cf s) = keyboard_protocol s"
  by (simp_all add: clear_oneshot_mods_def emit_def Let_def)

lemma host_send_frame [simp]:
  "oneshot_layer_data (host_keyboard_send cf s) = oneshot_layer_data s"
  "oneshot_layer_data (host_system_send cf u s) = oneshot_layer_data s"
  "oneshot_layer_data (host_consumer_send cf u s) = oneshot_layer_data s"
  "keymap_config (host_keyboard_send cf s) = keymap_config s"
  "keymap_config (host_system_send cf u s) = keymap_config s"
  "keymap_config (host_consumer_send cf u s) = keymap_config s"
  "layer_state (host_keyboard_send cf s) = layer_state s"
  "layer_state (host_system_send cf u s) = layer_state s"
  "layer_state (host_consumer_send cf u s) = layer_state s"
  by (simp_all add: host_keyboard_send_def host_system_send_def host_consumer_send_def Let_def emit_def)

lemma send_frame2 [simp]:
  "oneshot_layer_data (send_keyboard_report cf s) = oneshot_layer_data s"
  "keymap_config (send_keyboard_report cf s) = keymap_config s"
  "layer_state (send_keyboard_report cf s) = layer_state s"
  by (simp_all add: send_keyboard_report_def update_report_mods_def put_report_mods_def Let_def)

lemma mods_frame [simp]:
  "oneshot_layer_data (add_mods m s) = oneshot_layer_data s" "keymap_config (add_mods m s) = keymap_config s"
  "oneshot_layer_data (del_mods m s) = oneshot_layer_data s" "keymap_config (del_mods m s) = keymap_config s"
  "oneshot_layer_data (add_weak_mods m s) = oneshot_layer_data s" "keymap_config (add_weak_mods m s) = keymap_config s"
  "oneshot_layer_data (del_weak_mods m s) = oneshot_layer_data s" "keymap_config (del_weak_mods m s) = keymap_config s"
  "oneshot_layer_data (add_key c s) = oneshot_layer_data s" "keymap_config (add_key c s) = keymap_config s"
  "oneshot_layer_data (del_key c s) = oneshot_layer_data s" "keymap_config (del_key c s) = keymap_config s"
  "layer_state (add_mods m s) = layer_state s" "layer_state (del_mods m s) = layer_state s"
  "layer_state (add_weak_mods m s) = layer_state s" "layer_state (del_weak_mods m s) = layer_state s"
  "layer_state (add_key c s) = layer_state s" "layer_state (del_key c s) = layer_state s"
  by (simp_all add: add_mods_def del_mods_def add_weak_mods_def del_weak_mods_def add_key_def del_key_def)

lemma code_frame [simp]:
  "oneshot_layer_data (register_code cf c s) = oneshot_layer_data s"
  "keymap_config (register_code cf c s) = keymap_config s"
  "layer_state (register_code cf c s) = layer_state s"
  "oneshot_layer_data (unregister_code cf c s) = oneshot_layer_data s"
  "keymap_config (unregister_code cf c s) = keymap_config s"
  "layer_state (unregister_code cf c s) = layer_state s"
  "oneshot_layer_data (register_mods cf m s) = oneshot_layer_data s"
  "oneshot_layer_data (unregister_mods cf m s) = oneshot_layer_data s"
  "oneshot_layer_data (register_mouse c b s) = oneshot_layer_data s"
  "oneshot_layer_data (wait_tap cf2 c s) = oneshot_layer_data s"
  by (simp_all add: register_code_def unregister_code_def register_mods_def unregister_mods_def register_mouse_def
      wait_tap_def Let_def)

lemma oneshot_mods_ops_frame [simp]:
  "oneshot_layer_data (add_oneshot_mods cf m s) = oneshot_layer_data s"
  "oneshot_layer_data (del_oneshot_mods cf m s) = oneshot_layer_data s"
  "oneshot_layer_data (add_oneshot_locked_mods m s) = oneshot_layer_data s"
  "oneshot_layer_data (del_oneshot_locked_mods m s) = oneshot_layer_data s"
  by (simp_all add: add_oneshot_mods_def del_oneshot_mods_def add_oneshot_locked_mods_def
      del_oneshot_locked_mods_def Let_def)

lemma swaphands_frame [simp]:
  "oneshot_layer_data (set_oneshot_swaphands cf s) = oneshot_layer_data s"
  "oneshot_layer_data (release_oneshot_swaphands cf s) = oneshot_layer_data s"
  "oneshot_layer_data (use_oneshot_swaphands cf s) = oneshot_layer_data s"
  by (simp_all add: set_oneshot_swaphands_def release_oneshot_swaphands_def use_oneshot_swaphands_def
      clear_oneshot_swaphands_def Let_def)

lemma fold_emit_frame [simp]: "oneshot_layer_data (fold (\<lambda>_ s. emit e s) xs s) = oneshot_layer_data s"
  by (induction xs arbitrary: s) simp_all

lemma handler_frame [simp]:
  "oneshot_layer_data (process_key_action cf p m c s) = oneshot_layer_data s"
  "oneshot_layer_data (process_oneshot_mods cf2 p n m s) = oneshot_layer_data s"
  "oneshot_layer_data (process_usage cf p a s) = oneshot_layer_data s"
  by (simp_all add: process_key_action_def process_oneshot_mods_def process_usage_def Let_def)

lemma process_mods_tap_frame [simp]:
  "oneshot_layer_data (snd (process_mods_tap cf r a s)) = oneshot_layer_data s"
  by (simp add: process_mods_tap_def Let_def)

lemma process_swap_hands_frame [simp]:
  "oneshot_layer_data (snd (process_swap_hands cf r a s)) = oneshot_layer_data s"
  by (simp add: process_swap_hands_def Let_def)

lemma process_retro_frame [simp]:
  "oneshot_layer_data (process_retro_tapping cf p n r a s) = oneshot_layer_data s"
  by (simp add: process_retro_tapping_def tap_code_def tap_code_delay_def Let_def)

lemma layer_ops_data [simp]:
  "oneshot_layer_data (process_layer_bitop cf p a s) = oneshot_layer_data s"
  "oneshot_layer_data (layer_invert cf l s) = oneshot_layer_data s"
  "oneshot_layer_data (layer_move cf l s) = oneshot_layer_data s"
  "oneshot_layer_data (layer_clear cf s) = oneshot_layer_data s"
  "oneshot_layer_data (update_layer_leds a s) = oneshot_layer_data s"
  by (simp_all add: process_layer_bitop_def default_layer_and_def default_layer_or_def default_layer_xor_def
      default_layer_set_def default_layer_state_set_def layer_and_def layer_or_def layer_xor_def layer_state_set_def
      layer_invert_def layer_move_def layer_clear_def update_layer_leds_def Let_def)

lemma process_layer_mods_frame [simp]:
  "oneshot_layer_data (process_layer_mods cf p a s) = oneshot_layer_data s"
  by (simp add: process_layer_mods_def)

end
