(* ===== verification/ActionFacts.thy ===== *)
theory ActionFacts
  imports Actions
begin

text \<open>
  The properties of the action code: hand swap, tap toggle, one-shot layers, keys and modifiers as the
  host sees them.  The swap state is a second provider of the interface \<open>slot_cache\<close>.
\<close>

section \<open>The swap state remembers how each position was pressed\<close>

definition swap_bit :: "u8 list \<Rightarrow> nat \<Rightarrow> bool" where
  "swap_bit st i \<longleftrightarrow> st ! (i div CHAR_BIT) AND push_bit (i mod CHAR_BIT) 1 \<noteq> 0"

definition swap_shape :: "nat \<Rightarrow> u8 list \<Rightarrow> bool" where
  "swap_shape n st \<longleftrightarrow> length st = (n + (CHAR_BIT - 1)) div CHAR_BIT"

lemma swap_shape_nth: "swap_shape n st \<Longrightarrow> i < n \<Longrightarrow> i div 8 < length st"
  by (auto simp: swap_shape_def)

interpretation swap_state: slot_cache "swap_shape n" "\<lambda>i. i < n" id "\<lambda>_. True"
  "\<lambda>i on st. set_swap_hands_state i st on" swap_bit for n
proof
  fix st :: "u8 list" and i j :: nat and on :: bool
  assume shape: "swap_shape n st" and i: "i < n"
  show "swap_shape n (set_swap_hands_state i st on)"
    using shape by (simp add: swap_shape_def set_swap_hands_state_def Let_def)
  assume j: "j < n"
  have pos: "j = i \<longleftrightarrow> j div 8 = i div 8 \<and> j mod 8 = i mod 8"
    by (metis div_mult_mod_eq)
  have "swap_bit (set_swap_hands_state i st on) j =
      (if j div 8 = i div 8 \<and> j mod 8 = i mod 8 then on else swap_bit st j)"
    unfolding swap_bit_def set_swap_hands_state_def Let_def and_push_bit
    using swap_shape_nth [OF shape i] swap_shape_nth [OF shape j] mod_less_divisor [of 8 j]
    by (auto simp: nth_list_update bit_or_iff bit_and_iff bit_not_iff bit_mask_1 push_bit_1 simp del: mod_less_divisor)
  then show "swap_bit (set_swap_hands_state i st on) j = (if id j = id i then on else swap_bit st j)"
    using pos by simp
qed

definition matrix_event :: "('h, 'c) actions_config_scheme \<Rightarrow> keyevent_t \<Rightarrow> bool" where
  "matrix_event cf e \<longleftrightarrow> IS_KEYEVENT e \<and> unat (kp_row (ev_key e)) < MATRIX_ROWS cf \<and> unat (kp_col (ev_key e)) < MATRIX_COLS cf"

definition matrix_index :: "('h, 'c) actions_config_scheme \<Rightarrow> keypos_t \<Rightarrow> nat" where
  "matrix_index cf k = unat (kp_row k) * MATRIX_COLS cf + unat (kp_col k)"

text \<open>The position a matrix event is moved to.\<close>

definition swapped_key :: "('h, 'c) actions_config_scheme \<Rightarrow> bool \<Rightarrow> keypos_t \<Rightarrow> keypos_t" where
  "swapped_key cf on k = (if on then hand_swap_config cf (unat (kp_row k)) (unat (kp_col k)) else k)"

lemma process_hand_swap_matrix:
  assumes "matrix_event cf e"
  shows "ev_key (fst (process_hand_swap cf e s)) =
      swapped_key cf (if ev_pressed e then swap_hands s else swap_bit (matrix_swap_state s) (matrix_index cf (ev_key e)))
        (ev_key e)"
    and "matrix_swap_state (snd (process_hand_swap cf e s)) =
      set_swap_hands_state (matrix_index cf (ev_key e)) (matrix_swap_state s)
        (if ev_pressed e then swap_hands s else swap_bit (matrix_swap_state s) (matrix_index cf (ev_key e)))"
    and "swap_hands (snd (process_hand_swap cf e s)) = swap_hands s"
  using assms
  by (simp_all add: process_hand_swap_def matrix_event_def matrix_index_def Let_def should_swap_hands_def
      swapped_key_def swap_bit_def)

lemma process_hand_swap_other:
  "\<not> matrix_event cf e \<Longrightarrow> matrix_swap_state (snd (process_hand_swap cf e s)) = matrix_swap_state s"
  by (auto simp: process_hand_swap_def matrix_event_def Let_def)

lemma matrix_index_less:
  "matrix_event cf e \<Longrightarrow> matrix_index cf (ev_key e) < MATRIX_ROWS cf * MATRIX_COLS cf"
proof -
  assume "matrix_event cf e"
  then have r: "unat (kp_row (ev_key e)) + 1 \<le> MATRIX_ROWS cf" and c: "unat (kp_col (ev_key e)) < MATRIX_COLS cf"
    by (simp_all add: matrix_event_def)
  have "matrix_index cf (ev_key e) < (unat (kp_row (ev_key e)) + 1) * MATRIX_COLS cf"
    using c by (simp add: matrix_index_def)
  also have "\<dots> \<le> MATRIX_ROWS cf * MATRIX_COLS cf"
    using r by (rule mult_le_mono1)
  finally show ?thesis .
qed

lemma matrix_index_inj:
  assumes "matrix_event cf d" "matrix_event cf e" "matrix_index cf (ev_key d) = matrix_index cf (ev_key e)"
  shows "ev_key d = ev_key e"
proof -
  have "unat (kp_col (ev_key d)) < MATRIX_COLS cf" "unat (kp_col (ev_key e)) < MATRIX_COLS cf"
    using assms(1,2) by (simp_all add: matrix_event_def)
  then have "unat (kp_row (ev_key d)) = unat (kp_row (ev_key e))" "unat (kp_col (ev_key d)) = unat (kp_col (ev_key e))"
    using arg_cong [OF assms(3), of "\<lambda>x. x div MATRIX_COLS cf"] arg_cong [OF assms(3), of "\<lambda>x. x mod MATRIX_COLS cf"]
    by (simp_all add: matrix_index_def)
  then show ?thesis by (simp add: keypos_t.equality word_unat_eq_iff)
qed

text \<open>What may happen between a press and its release: other events, and changes of the swap.\<close>

datatype swap_step = SwapEvent keyevent_t | SetSwap bool

fun swap_exec :: "('h, 'c) actions_config_scheme \<Rightarrow> swap_step \<Rightarrow> 'h action_vars_scheme \<Rightarrow> 'h action_vars_scheme" where
  "swap_exec cf (SwapEvent e) s = snd (process_hand_swap cf e s)"
| "swap_exec cf (SetSwap b) s = s\<lparr>swap_hands := b\<rparr>"

fun swap_spares :: "('h, 'c) actions_config_scheme \<Rightarrow> keypos_t \<Rightarrow> swap_step \<Rightarrow> bool" where
  "swap_spares cf k (SwapEvent e) \<longleftrightarrow> (matrix_event cf e \<longrightarrow> ev_key e \<noteq> k)"
| "swap_spares cf k (SetSwap b) \<longleftrightarrow> True"

lemma swap_run_spares:
  assumes "swap_shape (MATRIX_ROWS cf * MATRIX_COLS cf) (matrix_swap_state s)" "matrix_event cf e"
    "\<forall>x \<in> set xs. swap_spares cf (ev_key e) x"
  shows "swap_bit (matrix_swap_state (fold (swap_exec cf) xs s)) (matrix_index cf (ev_key e)) =
    swap_bit (matrix_swap_state s) (matrix_index cf (ev_key e))"
  using assms(1,3)
proof (induction xs arbitrary: s)
  case (Cons x xs)
  define n where "n = MATRIX_ROWS cf * MATRIX_COLS cf"
  have "swap_shape n (matrix_swap_state (swap_exec cf x s)) \<and>
    swap_bit (matrix_swap_state (swap_exec cf x s)) (matrix_index cf (ev_key e)) =
    swap_bit (matrix_swap_state s) (matrix_index cf (ev_key e))"
  proof (cases x)
    case (SwapEvent d)
    show ?thesis
    proof (cases "matrix_event cf d")
      case True
      then have "matrix_index cf (ev_key e) \<noteq> matrix_index cf (ev_key d)"
        using matrix_index_inj [OF assms(2) True] Cons.prems(2) SwapEvent by auto
      then show ?thesis
        using True SwapEvent Cons.prems(1) matrix_index_less [OF True] matrix_index_less [OF assms(2)]
        by (simp add: process_hand_swap_matrix swap_state.ok_put swap_state.get_put [where n = n] n_def)
    qed (use SwapEvent Cons.prems(1) in \<open>simp add: process_hand_swap_other n_def\<close>)
  qed (use Cons.prems(1) in \<open>simp add: n_def\<close>)
  then show ?case
    using Cons.IH [of "swap_exec cf x s"] Cons.prems(2) by (simp add: n_def)
qed simp

section \<open>Properties\<close>

text \<open>
  (C25) The hand swap moves a release to where its press went: however the swap is switched and whatever
  other positions do in between, press and release of a matrix position reach the same position.
\<close>

theorem hand_swap_release_follows_press:
  assumes "swap_shape (MATRIX_ROWS cf * MATRIX_COLS cf) (matrix_swap_state s)"
    and "matrix_event cf e" "ev_pressed e" "\<forall>x \<in> set xs. swap_spares cf (ev_key e) x"
  shows "ev_key (fst (process_hand_swap cf (e\<lparr>ev_pressed := False, ev_time := t\<rparr>)
      (fold (swap_exec cf) xs (snd (process_hand_swap cf e s))))) =
    ev_key (fst (process_hand_swap cf e s))"
proof -
  define s1 where "s1 = snd (process_hand_swap cf e s)"
  note less = matrix_index_less [OF assms(2)]
  have rel: "matrix_event cf (e\<lparr>ev_pressed := False, ev_time := t\<rparr>)"
    using assms(2) by (simp add: matrix_event_def IS_KEYEVENT_def)
  have "swap_shape (MATRIX_ROWS cf * MATRIX_COLS cf) (matrix_swap_state s1)"
    "swap_bit (matrix_swap_state s1) (matrix_index cf (ev_key e)) = swap_hands s"
    using assms(1-3) less
    by (simp_all add: s1_def process_hand_swap_matrix swap_state.ok_put
        swap_state.get_put [where n = "MATRIX_ROWS cf * MATRIX_COLS cf"])
  then have "swap_bit (matrix_swap_state (fold (swap_exec cf) xs s1)) (matrix_index cf (ev_key e)) = swap_hands s"
    using swap_run_spares [OF _ assms(2,4)] by simp
  then show ?thesis
    using assms(2,3) by (simp add: s1_def [symmetric] process_hand_swap_matrix(1) [OF rel] process_hand_swap_matrix(1))
qed

lemma layers_on_invert:
  assumes "layer_state_set_kb cf = id" "unat l < MAX_LAYER"
  shows "layers_on (layer_state (layer_invert cf l s)) =
    (layers_on (layer_state s) - {unat l}) \<union> ({unat l} - layers_on (layer_state s))"
  using layer_ops_sets [OF assms, of s 0] by auto

text \<open>
  A tap-toggle key (TT) leaves its layer as it was after a hold and after any number of taps
  other than the toggle count, and toggles it exactly at that count.
\<close>

theorem tap_toggle_layer:
  assumes "layer_state_set_kb cf = id" "unat (layer_tap_val a) < MAX_LAYER" "layer_tap_code a = OP_TAP_TOGGLE"
  shows "layers_on (layer_state (snd (process_layer_tap cf d False count a (snd (process_layer_tap cf d True count a s))))) =
    (if unat count = TAPPING_TOGGLE cf
     then (layers_on (layer_state s) - {unat (layer_tap_val a)}) \<union> ({unat (layer_tap_val a)} - layers_on (layer_state s))
     else layers_on (layer_state s))"
  using assms by (auto simp: process_layer_tap_def Let_def layers_on_invert)

lemma cleared_oneshot_layer:
  assumes "oneshot_enable (keymap_config s)" "is_oneshot_layer_active s"
    "\<not> is_oneshot_layer_active (clear_oneshot_layer_state cf e s)"
  shows "oneshot_layer_data (clear_oneshot_layer_state cf e s) = 0"
  using assms
  by (auto simp: clear_oneshot_layer_state_def Let_def is_oneshot_layer_active_def get_oneshot_layer_state_def
      reset_oneshot_layer_def split: if_splits)

lemma process_layer_tap_data:
  "process_layer_tap cf d p n a s = (True, s') \<Longrightarrow> p \<Longrightarrow> oneshot_layer_data s = 0 \<Longrightarrow>
    oneshot_layer_data s' AND ONESHOT_PRESSED = 0 \<Longrightarrow> oneshot_layer_data s' = 0"
  by (auto simp: process_layer_tap_def process_oneshot_layer_def set_oneshot_layer_def Let_def bit.conj_disj_distrib2
      split: if_splits)

lemma action_switch_data:
  assumes "action_switch cf r a d s = (r', True, s')" "ev_pressed (event r)" "oneshot_layer_data s = 0"
    "oneshot_layer_data s' AND ONESHOT_PRESSED = 0"
  shows "oneshot_layer_data s' = 0"
  using assms process_layer_tap_data [of cf d True "tap_count r" a s s']
  by (auto simp: action_switch_def Let_def split: if_splits prod.splits)
    (metis process_mods_tap_frame process_swap_hands_frame snd_conv)+

text \<open>
  When a press ends a one-shot layer, the layer switched on around the release of the same key is
  layer 0: the one-shot state has been reset, so \<open>get_oneshot_layer()\<close> no longer is the one-shot layer.
\<close>

theorem oneshot_release_on_layer_0:
  assumes "process_action_body cf r a s = (r', True, s')"
  shows "ev_pressed (event r) \<and> ends_oneshot_layer r a s \<and> get_oneshot_layer s' = 0"
proof -
  define s1 where "s1 = clear_oneshot_layer_state cf ONESHOT_OTHER_KEY_PRESSED s"
  have p: "ev_pressed (event r)" "ends_oneshot_layer r a s"
    using assms process_action_body_release [OF assms]
    by (auto simp: process_action_body_def Let_def split: prod.splits if_splits dest!: action_switch_release)
  then have act: "oneshot_enable (keymap_config s)" "is_oneshot_layer_active s"
    by (simp_all add: ends_oneshot_layer_def)
  obtain r2 d2 s2 where sw: "action_switch cf r a (\<not> is_oneshot_layer_active s1) s1 = (r2, d2, s2)"
    by (cases "action_switch cf r a (\<not> is_oneshot_layer_active s1) s1")
  have d2: "d2" "oneshot_layer_data s' = oneshot_layer_data s2" "get_oneshot_layer_state s' AND ONESHOT_PRESSED = 0"
    using assms p sw by (auto simp: process_action_body_def Let_def s1_def)
  then have "\<not> is_oneshot_layer_active s1"
    using action_switch_release [of cf r a _ s1] sw by auto
  then have "oneshot_layer_data s1 = 0"
    unfolding s1_def by (rule cleared_oneshot_layer [OF act])
  moreover have "oneshot_layer_data s2 AND ONESHOT_PRESSED = 0"
    using d2(2,3) by (simp add: get_oneshot_layer_state_def and.assoc)
  ultimately have "oneshot_layer_data s2 = 0"
    using action_switch_data [of cf r a _ s1 r2 s2] sw d2(1) p(1) by simp
  then show ?thesis
    using p d2(2) by (simp add: get_oneshot_layer_def)
qed

definition host_pressed :: "('s) mods_vars_scheme \<Rightarrow> host_event list \<Rightarrow> u8 \<Rightarrow> bool" where
  "host_pressed s es k = is_key_pressed (use_nkro s) (empty_report\<lparr>rk_payload := snd (host_view es)\<rparr>) k"

lemma is_key_pressed_payload: "is_key_pressed n (r\<lparr>rk_payload := rk_payload q\<rparr>) k = is_key_pressed n q k"
  by (simp add: is_key_pressed_def rk_keys_def)

lemma payload_cong:
  "rk_payload q = rk_payload r \<Longrightarrow> is_key_pressed n q k = is_key_pressed n r k"
  "rk_payload q = rk_payload r \<Longrightarrow> report_inv n q = report_inv n r"
  "rk_payload q = rk_payload r \<Longrightarrow> report_fits n q k = report_fits n r k"
  by (simp_all add: is_key_pressed_def rk_keys_def report_inv_def nkro_inv_def kro6_inv_def report_fits_def
      kro6_fits_def nkro_fits_def)

lemma send_host_pressed:
  assumes "host_driver cf" "host_synced s"
  shows "host_synced (send_keyboard_report cf s)"
    and "host_pressed s' (out (send_keyboard_report cf s)) k = is_key_pressed (use_nkro s') (keyboard_report s) k"
    and "report_inv n (keyboard_report (send_keyboard_report cf s)) = report_inv n (keyboard_report s)"
    and "report_fits n (keyboard_report (send_keyboard_report cf s)) k = report_fits n (keyboard_report s) k"
    and "is_key_pressed n (keyboard_report (send_keyboard_report cf s)) k = is_key_pressed n (keyboard_report s) k"
proof -
  note sync = send_keyboard_report_sync [OF assms]
  show "host_synced (send_keyboard_report cf s)"
    "host_pressed s' (out (send_keyboard_report cf s)) k = is_key_pressed (use_nkro s') (keyboard_report s) k"
    using sync by (simp_all add: host_pressed_def is_key_pressed_payload)
  have "rk_payload (keyboard_report (send_keyboard_report cf s)) = rk_payload (keyboard_report s)"
    by simp
  then show "report_inv n (keyboard_report (send_keyboard_report cf s)) = report_inv n (keyboard_report s)"
    "report_fits n (keyboard_report (send_keyboard_report cf s)) k = report_fits n (keyboard_report s) k"
    "is_key_pressed n (keyboard_report (send_keyboard_report cf s)) k = is_key_pressed n (keyboard_report s) k"
    by (fact payload_cong)+
qed

lemma key_ops_simps [simp]:
  "keyboard_report (add_key k s) = add_key_to_report (use_nkro s) (keyboard_report s) k"
  "keyboard_report (del_key k s) = del_key_from_report (use_nkro s) (keyboard_report s) k"
  "host_synced (add_key k s) = host_synced s" "host_synced (del_key k s) = host_synced s"
  "use_nkro (add_key k s) = use_nkro s" "use_nkro (del_key k s) = use_nkro s"
  "out (add_key k s) = out s" "out (del_key k s) = out s"
  by (simp_all add: add_key_def del_key_def host_synced_def use_nkro_def)

lemma basic_keycode_nonzero: "IS_BASIC_KEYCODE code \<Longrightarrow> code \<noteq> 0" for code :: u8
  by (auto simp: IS_BASIC_KEYCODE_def)

lemma send_out_grows: "\<exists>es. out (send_keyboard_report cf s) = out s @ es"
  by (auto simp: send_keyboard_report_def host_keyboard_send_def update_report_mods_def clear_oneshot_mods_def Let_def)

lemma report_fits_after_del:
  assumes "report_inv n r" "is_key_pressed n r k"
  shows "report_fits n (del_key_from_report n r k) k"
proof (cases n)
  case True
  then show ?thesis
    using assms by (simp add: report_fits_def nkro_fits_def nkro_pressed less_mult_imp_div_less)
      (simp add: KEYBOARD_REPORT_BITS_def, linarith)
next
  case False
  then have "length (rk_payload r) = KEYBOARD_REPORT_BITS" "k \<in> set (rk_keys r)"
    using assms by (auto simp: report_inv_def kro6_inv_def is_key_pressed_def split: if_splits)
  then show ?thesis
    using False by (auto simp: report_fits_def kro6_fits_def del_key_from_report_def rk_keys_del_key_byte)
qed

text \<open>
  (C35) A basic key reaches the host: when the report has room for it, after \<open>register_code\<close> the host sees
  the key pressed and the others as they were, after \<open>unregister_code\<close> it sees it released.  Pressing a key that
  is down already, and that the host sees down, sends a report without it before the one with it: at some point of what
  the call sends the host sees the key released.
\<close>

theorem register_code_reaches_host:
  fixes cf :: "('c) mods_config_scheme" and s :: "('s) mods_vars_scheme"
  assumes "host_driver cf" "host_synced s" "report_inv (use_nkro s) (keyboard_report s)"
    and "IS_BASIC_KEYCODE code"
    and "report_fits (use_nkro s) (keyboard_report s) code \<or> is_key_pressed (use_nkro s) (keyboard_report s) code"
  defines "s1 \<equiv> register_code cf code s"
  shows "host_synced s1 \<and> report_inv (use_nkro s1) (keyboard_report s1) \<and>
    (\<forall>k. host_pressed s (out s1) k \<longleftrightarrow> k = code \<or> is_key_pressed (use_nkro s) (keyboard_report s) k) \<and>
    (\<forall>k. host_pressed s (out (unregister_code cf code s1)) k \<longleftrightarrow>
       k \<noteq> code \<and> is_key_pressed (use_nkro s) (keyboard_report s) k) \<and>
    (is_key_pressed (use_nkro s) (keyboard_report s) code \<and> host_pressed s (out s) code \<longrightarrow>
      (\<exists>es fs. out s1 = out s @ es @ fs \<and> \<not> host_pressed s (out s @ es) code))"
proof -
  define n where "n = use_nkro s"
  define m where "m = (if is_key_pressed n (keyboard_report s) code then send_keyboard_report cf (del_key code s) else s)"
  note nz = basic_keycode_nonzero [OF assms(4)]
  have s1: "s1 = send_keyboard_report cf (add_key code m)"
    using assms(4) nz by (simp add: s1_def register_code_def m_def n_def)
  have m: "host_synced m" "use_nkro m = n" "report_inv n (keyboard_report m)" "report_fits n (keyboard_report m) code"
    "\<And>k. k \<noteq> code \<Longrightarrow> is_key_pressed n (keyboard_report m) k = is_key_pressed n (keyboard_report s) k"
    using assms(1-3,5) nz
    by (auto simp: m_def n_def [symmetric] send_host_pressed report.inv_del report.pressed_del report_fits_after_del)
  have pr: "is_key_pressed n (keyboard_report (add_key code m)) k \<longleftrightarrow> k = code \<or> is_key_pressed n (keyboard_report s) k" for k
    using m nz by (cases "k = code") (auto simp: report.pressed_add)
  have inv: "report_inv n (keyboard_report (add_key code m))"
    using m nz by (simp add: report.inv_add)
  have u: "use_nkro s1 = n" "host_synced s1" "report_inv n (keyboard_report s1)"
    using m inv assms(1) by (simp_all add: s1 send_host_pressed)
  have "host_pressed s (out s1) k \<longleftrightarrow> k = code \<or> is_key_pressed n (keyboard_report s) k" for k
    using m assms(1) pr by (simp add: s1 send_host_pressed n_def [symmetric])
  moreover have "host_pressed s (out (unregister_code cf code s1)) k \<longleftrightarrow> k \<noteq> code \<and> is_key_pressed n (keyboard_report s) k" for k
  proof -
    have un: "unregister_code cf code s1 = send_keyboard_report cf (del_key code s1)"
      using assms(4) nz by (simp add: unregister_code_def)
    have "is_key_pressed n (keyboard_report s1) k \<longleftrightarrow> k = code \<or> is_key_pressed n (keyboard_report s) k"
      using m assms(1) pr by (simp add: s1 send_host_pressed)
    then show ?thesis
      using u nz assms(1) by (auto simp: un send_host_pressed n_def [symmetric] report.pressed_del)
  qed
  moreover have "\<exists>es fs. out s1 = out s @ es @ fs \<and> \<not> host_pressed s (out s @ es) code" if down: "is_key_pressed n (keyboard_report s) code"
  proof -
    obtain es where es: "out m = out s @ es"
      using send_out_grows [of cf "del_key code s"] down by (auto simp: m_def)
    obtain fs where "out s1 = out m @ fs"
      using send_out_grows [of cf "add_key code m"] by (auto simp: s1)
    moreover have "\<not> host_pressed s (out m) code"
      using down assms(1-3) nz by (simp add: m_def n_def [symmetric] send_host_pressed report.pressed_del)
    ultimately show ?thesis
      by (intro exI [of _ es] exI [of _ fs]) (simp add: es)
  qed
  ultimately show ?thesis
    using u by (simp add: n_def)
qed

lemma host_view_other2:
  "\<not> is_keyboard_send e \<Longrightarrow> \<not> is_keyboard_send f \<Longrightarrow> host_view (es @ [e, f]) = host_view es"
  using host_view_snoc_other [of f "es @ [e]"] host_view_snoc_other [of e es] by simp

lemma host_usage_frame [simp]:
  "host_synced (host_system_send cf u s) = host_synced s" "host_synced (host_consumer_send cf u s) = host_synced s"
  "use_nkro (host_system_send cf u s) = use_nkro s" "use_nkro (host_consumer_send cf u s) = use_nkro s"
  "keyboard_report (host_system_send cf u s) = keyboard_report s"
  "keyboard_report (host_consumer_send cf u s) = keyboard_report s"
  "wanted_mods cf2 (host_system_send cf u s) = wanted_mods cf2 s"
  "wanted_mods cf2 (host_consumer_send cf u s) = wanted_mods cf2 s"
  "last_system_usage (host_system_send cf u s) = u" "last_consumer_usage (host_consumer_send cf u s) = u"
  "last_system_usage (host_consumer_send cf u s) = last_system_usage s"
  by (simp_all add: host_system_send_def host_consumer_send_def Let_def host_synced_def host_view_snoc_other
      host_view_other2 is_keyboard_send_def use_nkro_def emit_def wanted_mods_def live_oneshot_mods_def has_oneshot_mods_timed_out_def)

lemma clear_mods_frame [simp]:
  "host_synced (clear_weak_mods s) = host_synced s" "use_nkro (clear_weak_mods s) = use_nkro s"
  "keyboard_report (clear_weak_mods s) = keyboard_report s"
  "host_synced (clear_mods s) = host_synced s" "use_nkro (clear_mods s) = use_nkro s"
  "keyboard_report (clear_mods s) = keyboard_report s"
  "host_synced (clear_keys s) = host_synced s" "use_nkro (clear_keys s) = use_nkro s"
  "keyboard_report (clear_keys s) = clear_keys_from_report (use_nkro s) (keyboard_report s)"
  "real_mods (clear_mods s) = 0" "real_mods (clear_keys s) = real_mods s" "real_mods (clear_weak_mods s) = real_mods s"
  "weak_mods (clear_weak_mods s) = 0"
  "last_system_usage (clear_weak_mods s) = last_system_usage s"
  "last_consumer_usage (clear_weak_mods s) = last_consumer_usage s"
  by (simp_all add: clear_weak_mods_def clear_mods_def clear_keys_def host_synced_def use_nkro_def)

lemma usage_mods_frame [simp]:
  "real_mods (host_system_send cf u s) = real_mods s" "real_mods (host_consumer_send cf u s) = real_mods s"
  by (simp_all add: host_system_send_def host_consumer_send_def Let_def)

text \<open>The system and the consumer usage that the host has been sent last; 0 stands for none.\<close>

definition usage_step :: "host_event \<Rightarrow> u16 \<times> u16 \<Rightarrow> u16 \<times> u16" where
  "usage_step e v = (case e of SendSystem u \<Rightarrow> (u, snd v) | SendConsumer u \<Rightarrow> (fst v, u) | _ \<Rightarrow> v)"

definition usage_view :: "host_event list \<Rightarrow> u16 \<times> u16" where
  "usage_view es = fold usage_step es (0, 0)"

text \<open>The variables that hold back a repeated usage agree with what the host has been sent.\<close>

definition usage_synced :: "('s) mods_vars_scheme \<Rightarrow> bool" where
  "usage_synced s \<longleftrightarrow> usage_view (out s) = (last_system_usage s, last_consumer_usage s)"

lemma usage_view_append: "usage_view (es @ fs) = fold usage_step fs (usage_view es)"
  by (simp add: usage_view_def)

lemma clear_oneshot_usage [simp]:
  "last_system_usage (clear_oneshot_mods cf s) = last_system_usage s" "last_consumer_usage (clear_oneshot_mods cf s) = last_consumer_usage s"
  "usage_view (out (clear_oneshot_mods cf s)) = usage_view (out s)"
  by (simp_all add: clear_oneshot_mods_def Let_def usage_view_append usage_step_def) (simp_all add: emit_def)

lemma update_report_mods_usage [simp]:
  "last_system_usage (update_report_mods cf s) = last_system_usage s" "last_consumer_usage (update_report_mods cf s) = last_consumer_usage s"
  "usage_view (out (update_report_mods cf s)) = usage_view (out s)"
  by (simp_all add: update_report_mods_def put_report_mods_def Let_def)

lemma send_usage_frame [simp]:
  "last_system_usage (send_keyboard_report cf s) = last_system_usage s"
  "last_consumer_usage (send_keyboard_report cf s) = last_consumer_usage s"
  "usage_view (out (send_keyboard_report cf s)) = usage_view (out s)"
  by (simp_all add: send_keyboard_report_def Let_def host_keyboard_send_def usage_view_append usage_step_def)
    (simp_all add: emit_def)

lemma usage_sends:
  assumes "host_driver cf" "usage_synced s"
  shows "usage_view (out (host_system_send cf u s)) = (u, last_consumer_usage s)" "usage_synced (host_system_send cf u s)"
    "usage_view (out (host_consumer_send cf u s)) = (last_system_usage s, u)" "usage_synced (host_consumer_send cf u s)"
proof -
  have last: "last_consumer_usage (host_system_send cf u s) = last_consumer_usage s"
    by (simp add: host_system_send_def Let_def emit_def)
  show sent: "usage_view (out (host_system_send cf u s)) = (u, last_consumer_usage s)"
    "usage_view (out (host_consumer_send cf u s)) = (last_system_usage s, u)"
    using assms by (simp_all add: usage_synced_def host_system_send_def host_consumer_send_def Let_def usage_view_append usage_step_def)
  show "usage_synced (host_system_send cf u s)" "usage_synced (host_consumer_send cf u s)"
    using sent by (simp_all add: usage_synced_def last)
qed

lemma usage_mods_synced [simp]:
  "usage_synced (clear_weak_mods s) = usage_synced s" "usage_synced (clear_mods s) = usage_synced s"
  "usage_synced (clear_keys s) = usage_synced s" "usage_synced (send_keyboard_report cf s) = usage_synced s"
  by (simp_all add: usage_synced_def) (simp_all add: clear_weak_mods_def clear_mods_def clear_keys_def)

text \<open>
  (C9) \<open>clear_keyboard\<close> releases everything: afterwards the host sees no key and only the one-shot and override
  modifiers that are still due; the last system usage and the last consumer usage that it has been sent are none, as are the
  variables that hold back repeated ones; and the last thing done is to clear the mouse keys and to send their report.
\<close>

theorem clear_keyboard_releases_all:
  fixes cf :: "('c) mods_config_scheme" and s :: "('s) mods_vars_scheme"
  assumes "host_driver cf" "host_synced s" "report_inv (use_nkro s) (keyboard_report s)" "usage_synced s"
  defines "s1 \<equiv> clear_keyboard cf s"
  shows "host_synced s1 \<and> \<not> host_pressed s (out s1) k \<and>
    fst (host_view (out s1)) = (live_oneshot_mods cf s AND NOT (suppressed_mods s)) OR weak_override_mods s \<and>
    usage_view (out s1) = (0, 0) \<and> last_system_usage s1 = 0 \<and> last_consumer_usage s1 = 0 \<and>
    (\<exists>es. out s1 = es @ [MousekeyClear, MousekeySend])"
proof -
  define s2 where "s2 = clear_weak_mods (host_consumer_send cf 0 (host_system_send cf 0 (clear_keys (clear_mods s))))"
  have s1: "s1 = emit MousekeySend (emit MousekeyClear (send_keyboard_report cf s2))"
    by (simp add: s1_def s2_def clear_keyboard_def clear_keyboard_but_mods_def clear_keyboard_but_mods_and_keys_def Let_def)
  have "host_synced s2" "keyboard_report s2 = clear_keys_from_report (use_nkro s) (keyboard_report s)"
    using assms(2) by (simp_all add: s2_def)
  moreover have "wanted_mods cf s2 = (live_oneshot_mods cf s AND NOT (suppressed_mods s)) OR weak_override_mods s"
    by (simp add: s2_def wanted_mods_def live_oneshot_mods_def has_oneshot_mods_timed_out_def)
      (simp add: clear_weak_mods_def clear_keys_def clear_mods_def host_system_send_def host_consumer_send_def
        Let_def emit_def)
  moreover have "host_view (out s1) = host_view (out (send_keyboard_report cf s2))"
    by (simp add: s1 host_view_other2 is_keyboard_send_def)
  moreover have "host_synced s1 = host_synced (send_keyboard_report cf s2)"
    using calculation by (simp add: host_synced_def) (simp add: s1)
  moreover have "last_system_usage s1 = 0 \<and> last_consumer_usage s1 = 0"
    by (simp add: s1 s2_def) (simp add: emit_def)
  moreover have "usage_view (out s1) = (0, 0)"
  proof -
    have "usage_synced (host_system_send cf 0 (clear_keys (clear_mods s)))"
      using usage_sends(2) [OF assms(1), of "clear_keys (clear_mods s)" 0] assms(4) by simp
    then have "usage_view (out (host_consumer_send cf 0 (host_system_send cf 0 (clear_keys (clear_mods s))))) = (0, 0)"
      using usage_sends(3) [OF assms(1), where u = 0] by fastforce
    then show ?thesis
      by (simp add: s1 s2_def usage_view_append usage_step_def) (simp add: clear_weak_mods_def)
  qed
  moreover have "\<exists>es. out s1 = es @ [MousekeyClear, MousekeySend]"
    by (simp add: s1 emit_def)
  ultimately show ?thesis
    using send_keyboard_report_sync [OF assms(1), of s2] report.pressed_clear [OF assms(3)]
    by (simp add: host_pressed_def is_key_pressed_payload)
qed

section \<open>Concrete inputs\<close>

definition example_actions_config :: "unit actions_config" where
  "example_actions_config = mods_config.extend example_mods_config
     \<lparr>hand_swap_config = (\<lambda>r c. \<lparr>kp_col = of_nat (1 - c), kp_row = of_nat r\<rparr>),
      encoder_hand_swap_config = of_nat, TAPPING_TOGGLE = 5, ONESHOT_TAP_TOGGLE = 0, TAP_CODE_DELAY = 0,
      TAP_HOLD_CAPS_DELAY = 80, RETRO_TAPPING = False, get_retro_tapping = (\<lambda>_ _. True),
      HOLD_ON_OTHER_KEY_PRESS_PER_KEY = False, get_hold_on_other_key_press = (\<lambda>_ _. False),
      process_record_quantum = (\<lambda>r s. (True, s)), post_process_record_quantum = (\<lambda>r s. s)\<rparr>"

definition example_action_vars :: action_vars where
  "example_action_vars = mods_vars.extend example_mods_vars
     \<lparr>swap_held = False, matrix_swap_state = [0], encoder_swap_state = [], retro_tapping_counter = 0\<rparr>"

lemmas actions_example = example_actions_config_def example_action_vars_def mods_config.extend_def
  mods_vars.extend_def mods_example

theorem hand_swap_release_follows_press_witness:
  "ev_key (fst (process_hand_swap example_actions_config
      (MAKE_KEYEVENT 0 0 True 10\<lparr>ev_pressed := False, ev_time := 20\<rparr>)
      (fold (swap_exec example_actions_config) [SetSwap False]
        (snd (process_hand_swap example_actions_config (MAKE_KEYEVENT 0 0 True 10)
          (example_action_vars\<lparr>swap_hands := True\<rparr>)))))) = \<lparr>kp_col = 1, kp_row = 0\<rparr>"
proof -
  have "matrix_event example_actions_config (MAKE_KEYEVENT 0 0 True 10)" "ev_pressed (MAKE_KEYEVENT 0 0 True 10)"
    "swap_shape (MATRIX_ROWS example_actions_config * MATRIX_COLS example_actions_config)
      (matrix_swap_state (example_action_vars\<lparr>swap_hands := True\<rparr>))"
    by (simp_all add: matrix_event_def MAKE_KEYEVENT_def MAKE_EVENT_def IS_KEYEVENT_def actions_example swap_shape_def)
  moreover have "ev_key (fst (process_hand_swap example_actions_config (MAKE_KEYEVENT 0 0 True 10)
      (example_action_vars\<lparr>swap_hands := True\<rparr>))) = \<lparr>kp_col = 1, kp_row = 0\<rparr>"
    by (simp add: process_hand_swap_def Let_def MAKE_KEYEVENT_def MAKE_EVENT_def IS_KEYEVENT_def actions_example
        should_swap_hands_def)
  ultimately show ?thesis
    using hand_swap_release_follows_press [where cf = example_actions_config and xs = "[SetSwap False]" and t = 20]
    by simp
qed

theorem tap_toggle_layer_witness:
  "layers_on (layer_state (snd (process_layer_tap example_actions_config False False 5 0xA3F0
     (snd (process_layer_tap example_actions_config False True 5 0xA3F0 example_action_vars))))) = {1, 3}"
  by (subst tap_toggle_layer)
    (simp_all add: actions_example action_readers, auto simp: layers_on_def bit_simps bit_small_powers)

theorem register_code_reaches_host_witness:
  "host_pressed example_mods_vars (out (register_code example_mods_config 0x04 example_mods_vars)) 0x04"
  using register_code_reaches_host [where cf = example_mods_config and s = example_mods_vars and code = "0x04"] report_inv_empty [of False]
  by (simp add: IS_BASIC_KEYCODE_def report_fits_def kro6_fits_def)
    (simp add: mods_example rk_keys_def empty_report_def KEYBOARD_REPORT_BITS_def KEYBOARD_REPORT_KEYS_def
      report_inv_def kro6_inv_def)

text \<open>A consumer usage is held, and let go.\<close>

theorem clear_keyboard_releases_all_witness:
  "let s = host_consumer_send example_mods_config 0xE2 example_mods_vars
   in usage_view (out s) = (0, 0xE2) \<and> usage_view (out (clear_keyboard example_mods_config s)) = (0, 0) \<and>
      \<not> host_pressed s (out (clear_keyboard example_mods_config s)) 4"
proof -
  define s where "s = host_consumer_send example_mods_config 0xE2 example_mods_vars"
  have driver: "host_driver example_mods_config" and start: "host_synced example_mods_vars" "usage_synced example_mods_vars"
    "\<not> use_nkro example_mods_vars" "keyboard_report example_mods_vars = empty_report" "last_system_usage example_mods_vars = 0"
    by (simp_all add: mods_example host_synced_def host_view_def usage_synced_def usage_view_def use_nkro_def) (simp_all add: empty_report_def)
  have synced: "host_synced s" and report: "report_inv (use_nkro s) (keyboard_report s)" and usage: "usage_synced s"
    and view: "usage_view (out s) = (0, 0xE2)"
    using start report_inv_empty [of False] usage_sends(3,4) [OF driver start(2), where u = "0xE2"] by (simp_all add: s_def)
  show ?thesis
    using clear_keyboard_releases_all [OF driver synced report usage] view by (simp add: s_def [symmetric])
qed

theorem oneshot_release_on_layer_0_witness:
  "get_oneshot_layer (snd (snd (process_action_body example_actions_config
     (record_of_event (MAKE_KEYEVENT 0 1 True 10)) 0x0004
     (example_action_vars\<lparr>oneshot_layer_data := 0x0A, layer_state := 2\<rparr>)))) = 0"
proof -
  define q where "q = process_action_body example_actions_config
     (record_of_event (MAKE_KEYEVENT 0 1 True 10)) 0x0004
     (example_action_vars\<lparr>oneshot_layer_data := 0x0A, layer_state := 2\<rparr>)"
  have "fst (snd q)"
    by (simp add: q_def process_action_body_def Let_def split_beta ends_oneshot_layer_def MAKE_KEYEVENT_def MAKE_EVENT_def
        is_oneshot_layer_active_def get_oneshot_layer_state_def action_readers action_switch_def
        clear_oneshot_layer_state_def reset_oneshot_layer_def IS_MODIFIER_KEYCODE_def get_oneshot_layer_def)
      (simp add: actions_example)
  then have "q = (fst q, True, snd (snd q))"
    by (cases q) auto
  then show ?thesis
    unfolding q_def by (rule oneshot_release_on_layer_0 [THEN conjunct2, THEN conjunct2])
qed

end
