(* ===== verification/Tapping.thy ===== *)
theory Tapping
  imports ActionFacts "HOL-Library.Multiset"
begin

text \<open>
  quantum/action_tapping.c: the machine that decides whether a dual-role key was tapped or held.  A key
  with a tap action is not processed when it is pressed: it becomes the tapping key, the events behind
  it wait in a ring buffer of \<open>WAITING_BUFFER_SIZE\<close> records, and a release, another key or the end of
  the tapping term settles it.

  The operations that the machine calls (\<open>process_record\<close>, \<open>is_tap_record\<close>, \<open>clear_keyboard\<close> and the
  per-key settings) are the fields of a record, \<open>tapping_env\<close>, over the state of the rest of the
  firmware; \<open>actions_env\<close> fills it with the operations of \<open>Actions\<close>.  Configuration: \<open>AUTO_SHIFT_ENABLE\<close>
  with \<open>RETRO_SHIFT\<close> is off, so \<open>TAP_GET_RETRO_TAPPING\<close> and \<open>MAYBE_RETRO_SHIFTING\<close> are false; \<open>COMBO_ENABLE\<close>
  is off; the tapping term, quick tap term, permissive hold and hold on other key press are the per-key
  functions, of which the global settings are the constant ones.  Debug output is left out.
\<close>

section \<open>State\<close>

abbreviation WAITING_BUFFER_SIZE :: nat where "WAITING_BUFFER_SIZE \<equiv> 8"

text \<open>The static variables of the file, and the state of the rest of the firmware as \<open>world\<close>.\<close>

record 'w tapping_vars =
  tapping_key :: keyrecord_t
  waiting_buffer :: "keyrecord_t list"
  waiting_buffer_head :: nat
  waiting_buffer_tail :: nat
  tworld :: 'w

record 'w tapping_env =
  te_process_record :: "keyrecord_t \<Rightarrow> 'w \<Rightarrow> keyrecord_t \<times> 'w"
  te_is_tap_record :: "keyrecord_t \<Rightarrow> 'w \<Rightarrow> bool"
  te_tap_hint :: "keyrecord_t \<Rightarrow> 'w \<Rightarrow> 'w"
  te_get_action :: "keypos_t \<Rightarrow> 'w \<Rightarrow> action_t"
  te_clear_keyboard :: "'w \<Rightarrow> 'w"
  te_tapping_term :: "keyrecord_t \<Rightarrow> 'w \<Rightarrow> u16"
  te_quick_tap_term :: "keyrecord_t \<Rightarrow> 'w \<Rightarrow> u16"
  te_permissive_hold :: "keyrecord_t \<Rightarrow> 'w \<Rightarrow> bool"
  te_hold_on_other :: "keyrecord_t \<Rightarrow> 'w \<Rightarrow> bool"

definition initial_tapping :: "'w \<Rightarrow> 'w tapping_vars" where
  "initial_tapping w = \<lparr>tapping_key = empty_record, waiting_buffer = replicate WAITING_BUFFER_SIZE empty_record,
     waiting_buffer_head = 0, waiting_buffer_tail = 0, tworld = w\<rparr>"

section \<open>Tests on the tapping key\<close>

definition IS_TAPPING_RECORD :: "keyrecord_t \<Rightarrow> 'w tapping_vars \<Rightarrow> bool" where
  "IS_TAPPING_RECORD r t \<longleftrightarrow> ev_key (event (tapping_key t)) = ev_key (event r)"

definition WITHIN_TAPPING_TERM :: "'w tapping_env \<Rightarrow> keyevent_t \<Rightarrow> 'w tapping_vars \<Rightarrow> bool" where
  "WITHIN_TAPPING_TERM e ev t \<longleftrightarrow>
     TIMER_DIFF_16 (ev_time ev) (ev_time (event (tapping_key t))) < te_tapping_term e (tapping_key t) (tworld t)"

definition WITHIN_QUICK_TAP_TERM :: "'w tapping_env \<Rightarrow> keyevent_t \<Rightarrow> 'w tapping_vars \<Rightarrow> bool" where
  "WITHIN_QUICK_TAP_TERM e ev t \<longleftrightarrow>
     TIMER_DIFF_16 (ev_time ev) (ev_time (event (tapping_key t))) < te_quick_tap_term e (tapping_key t) (tworld t)"

section \<open>The waiting buffer\<close>

text \<open>
  The loops over the buffer run \<open>i\<close> from the tail to the head, modulo the size; \<open>waiting_indices\<close> is the
  list of the \<open>i\<close> they visit (\<open>waiting_indices_step\<close> gives the recursion of the loop).
\<close>

definition waiting_indices :: "nat \<Rightarrow> nat \<Rightarrow> nat list" where
  "waiting_indices tail head =
     map (\<lambda>k. (tail + k) mod WAITING_BUFFER_SIZE)
       [0..<(head + WAITING_BUFFER_SIZE - tail) mod WAITING_BUFFER_SIZE]"

definition waiting_records :: "'w tapping_vars \<Rightarrow> keyrecord_t list" where
  "waiting_records t =
     map (\<lambda>i. waiting_buffer t ! i) (waiting_indices (waiting_buffer_tail t) (waiting_buffer_head t))"

definition waiting_buffer_enq :: "keyrecord_t \<Rightarrow> 'w tapping_vars \<Rightarrow> bool \<times> 'w tapping_vars" where
  "waiting_buffer_enq r t =
    (if IS_NOEVENT (event r) then (True, t)
     else if (waiting_buffer_head t + 1) mod WAITING_BUFFER_SIZE = waiting_buffer_tail t then (False, t)
     else (True, t\<lparr>waiting_buffer := (waiting_buffer t)[waiting_buffer_head t := r],
       waiting_buffer_head := (waiting_buffer_head t + 1) mod WAITING_BUFFER_SIZE\<rparr>))"

definition waiting_buffer_clear :: "'w tapping_vars \<Rightarrow> 'w tapping_vars" where
  "waiting_buffer_clear t = t\<lparr>waiting_buffer_head := 0, waiting_buffer_tail := 0\<rparr>"

definition waiting_buffer_typed :: "keyevent_t \<Rightarrow> 'w tapping_vars \<Rightarrow> bool" where
  "waiting_buffer_typed ev t =
     list_ex (\<lambda>i. let w = event (waiting_buffer t ! i)
         in ev_key ev = ev_key w \<and> ev_pressed ev \<noteq> ev_pressed w)
       (waiting_indices (waiting_buffer_tail t) (waiting_buffer_head t))"

definition waiting_buffer_has_anykey_pressed :: "'w tapping_vars \<Rightarrow> bool" where
  "waiting_buffer_has_anykey_pressed t =
     list_ex (\<lambda>i. ev_pressed (event (waiting_buffer t ! i)))
       (waiting_indices (waiting_buffer_tail t) (waiting_buffer_head t))"

text \<open>\<open>process_record(&tapping_key)\<close>, which may change the tapping key itself.\<close>

definition process_tapping_key :: "'w tapping_env \<Rightarrow> 'w tapping_vars \<Rightarrow> 'w tapping_vars" where
  "process_tapping_key e t =
     (let (r, w) = te_process_record e (tapping_key t) (tworld t) in t\<lparr>tapping_key := r, tworld := w\<rparr>)"

text \<open>The body of the loop of \<open>waiting_buffer_scan_tap\<close>: is the record the release of the tapping key?\<close>

definition is_tap_release :: "'w tapping_env \<Rightarrow> 'w tapping_vars \<Rightarrow> nat \<Rightarrow> bool" where
  "is_tap_release e t i =
    (let c = event (waiting_buffer t ! i)
     in IS_EVENT c \<and> ev_key c = ev_key (event (tapping_key t)) \<and> \<not> ev_pressed c \<and> WITHIN_TAPPING_TERM e c t)"

definition waiting_buffer_scan_tap :: "'w tapping_env \<Rightarrow> 'w tapping_vars \<Rightarrow> 'w tapping_vars" where
  "waiting_buffer_scan_tap e t =
    (if 0 < tap_count (tapping_key t) \<or> \<not> ev_pressed (event (tapping_key t)) then t
     else case List.find (is_tap_release e t) (waiting_indices (waiting_buffer_tail t) (waiting_buffer_head t)) of
       None \<Rightarrow> t
     | Some i \<Rightarrow> process_tapping_key e (t\<lparr>tapping_key := (tapping_key t)\<lparr>tap_count := 1\<rparr>,
         waiting_buffer := (waiting_buffer t)[i := (waiting_buffer t ! i)\<lparr>tap_count := 1\<rparr>]\<rparr>))"

section \<open>process_tapping\<close>

text \<open>
  Each result is the return value, the record as the code leaves it, and the state.  The record may lie
  in the waiting buffer; \<open>process_waiting_buffer\<close> writes it back.  The code reads the buffer before it
  writes the record in every branch, so that passing the record by value is faithful.
\<close>

definition pass_record :: "'w tapping_env \<Rightarrow> keyrecord_t \<Rightarrow> 'w tapping_vars \<Rightarrow> keyrecord_t \<times> 'w tapping_vars" where
  "pass_record e r t = (let (r, w) = te_process_record e r (tworld t) in (r, t\<lparr>tworld := w\<rparr>))"

definition copy_tap :: "keyrecord_t \<Rightarrow> keyrecord_t \<Rightarrow> keyrecord_t" where
  "copy_tap k r = r\<lparr>tap_interrupted := tap_interrupted k, tap_count := tap_count k\<rparr>"

text \<open>No tapping key.\<close>

definition process_reset ::
    "'w tapping_env \<Rightarrow> keyrecord_t \<Rightarrow> 'w tapping_vars \<Rightarrow> bool \<times> keyrecord_t \<times> 'w tapping_vars" where
  "process_reset e r t =
    (if \<not> IS_EVENT (event r) then (True, r, t)
     else if ev_pressed (event r) \<and> te_is_tap_record e r (tworld t) then
       (let t = t\<lparr>tapping_key := r\<rparr>;
            t = t\<lparr>tworld := te_tap_hint e (tapping_key t) (tworld t)\<rparr>
        in (True, r, waiting_buffer_scan_tap e t))
     else (let (r, t) = pass_record e r t in (True, r, t)))"

text \<open>
  The release of a key that was pressed before the tapping key: modifiers and layers are kept till the
  end of the tapping.
\<close>

definition retained_release :: "action_t \<Rightarrow> keyrecord_t \<Rightarrow> bool" where
  "retained_release a r =
    (if kind_id a \<in> {ACT_LMODS, ACT_RMODS} then
       key_mods a \<noteq> 0 \<and> key_code a = 0 \<or> IS_MODIFIER_KEYCODE (key_code a)
     else if kind_id a \<in> {ACT_LMODS_TAP, ACT_RMODS_TAP} then
       key_mods a \<noteq> 0 \<and> tap_count r = 0 \<or> IS_MODIFIER_KEYCODE (key_code a)
     else if kind_id a \<in> {ACT_LAYER_TAP, ACT_LAYER_TAP_EXT} then
       layer_tap_code a \<le> OP_TAP_TOGGLE - 1 \<or> layer_tap_code a \<in> {OP_ON_OFF, OP_OFF_ON, OP_SET_CLEAR}
     else False)"

text \<open>The tapping key settles as held: it is processed without a tap, and the machine resets.\<close>

definition settle_hold :: "'w tapping_env \<Rightarrow> 'w tapping_vars \<Rightarrow> 'w tapping_vars" where
  "settle_hold e t = (process_tapping_key e t)\<lparr>tapping_key := empty_record\<rparr>"

text \<open>The tapping key is down and not settled, and the event is within the tapping term.\<close>

definition process_undecided ::
    "'w tapping_env \<Rightarrow> keyrecord_t \<Rightarrow> 'w tapping_vars \<Rightarrow> bool \<times> keyrecord_t \<times> 'w tapping_vars" where
  "process_undecided e r t =
    (let ev = event r in
     if IS_TAPPING_RECORD r t \<and> \<not> ev_pressed ev then
       (let t = process_tapping_key e (t\<lparr>tapping_key := (tapping_key t)\<lparr>tap_count := 1\<rparr>\<rparr>)
        in (False, copy_tap (tapping_key t) r, t))
     else if \<not> ev_pressed ev \<and> waiting_buffer_typed ev t \<and> te_permissive_hold e (tapping_key t) (tworld t) then
       (False, r, settle_hold e t)
     else if \<not> ev_pressed ev \<and> \<not> waiting_buffer_typed ev t then
       (if retained_release (te_get_action e (ev_key ev) (tworld t)) r then (False, r, t)
        else let (r, t) = pass_record e r t in (True, r, t))
     else if ev_pressed ev then
       (let t = t\<lparr>tapping_key := (tapping_key t)\<lparr>tap_interrupted := True\<rparr>\<rparr>
        in if te_hold_on_other e (tapping_key t) (tworld t) then (False, r, settle_hold e t) else (False, r, t))
     else (False, r, t))"

text \<open>The record that releases the last tap when a new one starts.\<close>

definition last_tap_release :: "keyevent_t \<Rightarrow> 'w tapping_vars \<Rightarrow> keyrecord_t" where
  "last_tap_release ev t = (tapping_key t)
     \<lparr>event := (event (tapping_key t))\<lparr>ev_time := ev_time ev, ev_pressed := False\<rparr>\<rparr>"

text \<open>
  The tapping key is down after a tap was settled; \<open>keep\<close> says whether its release leaves it as the tapping
  key (within the tapping term) or resets the machine (after it).
\<close>

definition process_tapped ::
    "'w tapping_env \<Rightarrow> bool \<Rightarrow> keyrecord_t \<Rightarrow> 'w tapping_vars \<Rightarrow> bool \<times> keyrecord_t \<times> 'w tapping_vars" where
  "process_tapped e keep r t =
    (if IS_TAPPING_RECORD r t \<and> \<not> ev_pressed (event r) then
       (let (r, t) = pass_record e (copy_tap (tapping_key t) r) t
        in (True, r, t\<lparr>tapping_key := if keep then r else empty_record\<rparr>))
     else if te_is_tap_record e r (tworld t) \<and> ev_pressed (event r) then
       (let t = (if 1 < tap_count (tapping_key t) then snd (pass_record e (last_tap_release (event r) t) t) else t)
        in (True, r, waiting_buffer_scan_tap e (t\<lparr>tapping_key := r\<rparr>)))
     else (let (r, t) = pass_record e r t in (True, r, t)))"

text \<open>The tapping key is up, and the event is within the tapping term of its last press or release.\<close>

definition process_released ::
    "'w tapping_env \<Rightarrow> keyrecord_t \<Rightarrow> 'w tapping_vars \<Rightarrow> bool \<times> keyrecord_t \<times> 'w tapping_vars" where
  "process_released e r t =
    (if ev_pressed (event r) then
       (if IS_TAPPING_RECORD r t then
          (if WITHIN_QUICK_TAP_TERM e (event r) t \<and> \<not> tap_interrupted (tapping_key t) \<and>
              0 < tap_count (tapping_key t) then
             (let r = copy_tap (tapping_key t) r;
                  r = (if tap_count r < 15 then r\<lparr>tap_count := tap_count r + 1\<rparr> else r);
                  (r, t) = pass_record e r t
              in (True, r, t\<lparr>tapping_key := r\<rparr>))
           else (True, r, t\<lparr>tapping_key := r\<rparr>))
        else if te_is_tap_record e r (tworld t) then
          (True, r, waiting_buffer_scan_tap e (t\<lparr>tapping_key := r\<rparr>))
        else
          (let (r, t) = pass_record e r (t\<lparr>tapping_key := (tapping_key t)\<lparr>tap_interrupted := True\<rparr>\<rparr>)
           in (True, r, t)))
     else (let (r, t) = pass_record e r t in (True, r, t)))"

definition process_tapping ::
    "'w tapping_env \<Rightarrow> keyrecord_t \<Rightarrow> 'w tapping_vars \<Rightarrow> bool \<times> keyrecord_t \<times> 'w tapping_vars" where
  "process_tapping e r t =
    (if IS_NOEVENT (event (tapping_key t)) then process_reset e r t
     else if ev_pressed (event (tapping_key t)) then
       (if WITHIN_TAPPING_TERM e (event r) t then
          (if IS_NOEVENT (event r) then (True, r, t)
           else if tap_count (tapping_key t) = 0 then process_undecided e r t
           else process_tapped e True r t)
        else
          (if tap_count (tapping_key t) = 0 then (False, r, settle_hold e t)
           else if IS_NOEVENT (event r) then (True, r, t)
           else process_tapped e False r t))
     else
       (if WITHIN_TAPPING_TERM e (event r) t then
          (if IS_NOEVENT (event r) then (True, r, t) else process_released e r t)
        else (False, r, t\<lparr>tapping_key := empty_record\<rparr>)))"

section \<open>action_tapping_process\<close>

primrec process_waiting_buffer :: "'w tapping_env \<Rightarrow> nat list \<Rightarrow> 'w tapping_vars \<Rightarrow> 'w tapping_vars" where
  "process_waiting_buffer e [] t = t"
| "process_waiting_buffer e (i # is) t =
    (let (done, r, t) = process_tapping e (waiting_buffer t ! i) t;
         t = t\<lparr>waiting_buffer := (waiting_buffer t)[i := r]\<rparr>
     in if done
        then process_waiting_buffer e is (t\<lparr>waiting_buffer_tail := (i + 1) mod WAITING_BUFFER_SIZE\<rparr>)
        else t)"

definition tapping_overflow :: "'w tapping_env \<Rightarrow> 'w tapping_vars \<Rightarrow> 'w tapping_vars" where
  "tapping_overflow e t =
     (waiting_buffer_clear (t\<lparr>tworld := te_clear_keyboard e (tworld t)\<rparr>))\<lparr>tapping_key := empty_record\<rparr>"

definition action_tapping_process :: "'w tapping_env \<Rightarrow> keyrecord_t \<Rightarrow> 'w tapping_vars \<Rightarrow> 'w tapping_vars" where
  "action_tapping_process e r t =
    (let (done, r, t) = process_tapping e r t;
         t = (if done then t
              else let (ok, t) = waiting_buffer_enq r t in if ok then t else tapping_overflow e t)
     in process_waiting_buffer e (waiting_indices (waiting_buffer_tail t) (waiting_buffer_head t)) t)"

section \<open>The indices of the waiting buffer\<close>

lemma waiting_indices_same [simp]: "waiting_indices i i = []"
  by (simp add: waiting_indices_def)

lemma waiting_count_step:
  "tail < 8 \<Longrightarrow> head < 8 \<Longrightarrow> tail \<noteq> head \<Longrightarrow>
     (head + 8 - tail) mod 8 = Suc ((head + 8 - (tail + 1) mod 8) mod (8 :: nat))"
  by (cases "tail = 7"; cases "tail < head") (auto simp: mod_if)

lemma waiting_indices_step:
  assumes "tail < WAITING_BUFFER_SIZE" "head < WAITING_BUFFER_SIZE"
  shows "waiting_indices tail head =
    (if tail = head then [] else tail # waiting_indices ((tail + 1) mod WAITING_BUFFER_SIZE) head)"
proof -
  have "(tail + Suc k) mod 8 = ((tail + 1) mod 8 + k) mod 8" for k
    by (metis add.commute add_Suc_right mod_add_left_eq plus_1_eq_Suc)
  then show ?thesis
    using assms by (simp add: waiting_indices_def waiting_count_step map_upt_Suc del: upt_Suc)
qed

lemma waiting_indices_lt: "i \<in> set (waiting_indices tail head) \<Longrightarrow> i < WAITING_BUFFER_SIZE"
  by (auto simp: waiting_indices_def)

lemma length_waiting_indices: "length (waiting_indices tail head) = (head + 8 - tail) mod 8"
  by (simp add: waiting_indices_def)

lemma waiting_indices_enq:
  assumes "tail < 8" "head < 8" "(head + 1) mod 8 \<noteq> tail"
  shows "waiting_indices tail ((head + 1) mod 8) = waiting_indices tail head @ [head]"
proof -
  have "((head + 1) mod 8 + 8 - tail) mod 8 = Suc ((head + 8 - tail) mod 8)"
    using assms by (cases "head = 7"; cases "tail \<le> head") (auto simp: mod_if)
  moreover have "(tail + (head + 8 - tail) mod 8) mod 8 = head"
    using assms by (simp add: mod_add_right_eq)
  ultimately show ?thesis
    by (simp add: waiting_indices_def)
qed

lemma mod_add_cancel:
  assumes "(a + x) mod n = (a + y) mod n" "x \<le> y" "y < n"
  shows "x = (y :: nat)"
proof -
  have "n dvd (a + y) - (a + x)"
    using assms(1,2) by (subst mod_eq_dvd_iff_nat [symmetric]) simp_all
  then have "n dvd y - x"
    by simp
  moreover have "y - x < n"
    using assms(3) by simp
  ultimately show ?thesis
    using assms(2) by (auto dest: nat_dvd_not_less [rotated])
qed

lemma waiting_indices_distinct: "distinct (waiting_indices tail head)"
proof -
  have "inj_on (\<lambda>k. (tail + k) mod 8) {0..<(head + 8 - tail) mod (8 :: nat)}"
  proof (rule inj_onI)
    fix x y
    assume xy: "x \<in> {0..<(head + 8 - tail) mod 8}" "y \<in> {0..<(head + 8 - tail) mod 8}"
      and eq: "(tail + x) mod 8 = (tail + y) mod 8"
    have "(head + 8 - tail) mod 8 < (8 :: nat)"
      by simp
    with xy have "x < 8" "y < 8"
      by (simp_all only: atLeastLessThan_iff) linarith+
    then show "x = y"
      using mod_add_cancel [OF eq] mod_add_cancel [OF eq [symmetric]] by (cases "x \<le> y") auto
  qed
  then show ?thesis
    by (simp add: waiting_indices_def distinct_map)
qed

lemma waiting_indices_head: "tail < 8 \<Longrightarrow> head < 8 \<Longrightarrow> head \<notin> set (waiting_indices tail head)"
proof -
  assume *: "tail < 8" "head < 8"
  show ?thesis
  proof (cases "(head + 1) mod 8 = tail")
    case False
    then show ?thesis
      using waiting_indices_distinct [of tail "(head + 1) mod 8"]
      by (simp only: waiting_indices_enq [OF * False] distinct_append) simp
  next
    case True
    show ?thesis
    proof
      assume "head \<in> set (waiting_indices tail head)"
      then obtain k where k: "k < (head + 8 - tail) mod 8" "head = (tail + k) mod 8"
        by (auto simp: waiting_indices_def)
      have "(head + 8 - tail) mod 8 < 8"
        by simp
      with k have "k < 7" if "(head + 8 - tail) mod 8 = 7"
        using that by simp
      have tl: "tail = (tail + (k + 1)) mod 8"
        using True k(2) by (simp add: mod_Suc_eq)
      have "k + 1 < 8"
        using k(1) True * by (cases "head = 7"; cases "tail \<le> head") (auto simp: mod_if split: if_splits)
      then show False
        using mod_add_cancel [of tail 0 8 "k + 1"] tl * by simp
    qed
  qed
qed

lemma list_update_map_notin: "i \<notin> set is \<Longrightarrow> map (\<lambda>j. xs[i := x] ! j) is = map (\<lambda>j. xs ! j) is"
  by (induction "is") simp_all

lemma waiting_records_enq:
  assumes "waiting_buffer_tail t < 8" "waiting_buffer_head t < 8" "length (waiting_buffer t) = 8"
    and "waiting_buffer_enq r t = (True, t')" "\<not> IS_NOEVENT (event r)"
  shows "waiting_records t' = waiting_records t @ [r]"
  using assms
  by (auto simp: waiting_buffer_enq_def waiting_records_def waiting_indices_enq waiting_indices_head
      list_update_map_notin simp del: One_nat_def split: if_splits)

lemma waiting_full_iff:
  assumes "waiting_buffer_tail t < 8" "waiting_buffer_head t < 8"
  shows "(waiting_buffer_head t + 1) mod 8 = waiting_buffer_tail t \<longleftrightarrow> length (waiting_records t) = 7"
  using assms
  by (cases "waiting_buffer_head t = 7"; cases "waiting_buffer_tail t \<le> waiting_buffer_head t")
    (auto simp: waiting_records_def length_waiting_indices mod_if)

section \<open>The invariant\<close>

text \<open>
  What a processed record may come back as: unchanged, turned into the release of the key (a press that
  ended a one-shot layer), or emptied (a tapped hand-swap key).
\<close>

definition record_outcome :: "keyrecord_t \<Rightarrow> keyrecord_t \<Rightarrow> bool" where
  "record_outcome r r' \<longleftrightarrow>
     r' = r \<or> r' = r\<lparr>event := (event r)\<lparr>ev_pressed := False\<rparr>\<rparr> \<or> r' = empty_record"

text \<open>A tick presses nothing.\<close>

definition tick_ok :: "keyrecord_t \<Rightarrow> bool" where
  "tick_ok r \<longleftrightarrow> (IS_NOEVENT (event r) \<longrightarrow> \<not> ev_pressed (event r))"

text \<open>Records offered to the machine: a press has no tap count yet.\<close>

definition fresh :: "keyrecord_t \<Rightarrow> bool" where
  "fresh r \<longleftrightarrow> (ev_pressed (event r) \<longrightarrow> tap_count r = 0) \<and> tap_count r \<le> 15 \<and> tick_ok r"

text \<open>The tapping key is down, or tapped; the four-bit counter does not overflow.\<close>

definition key_ok :: "keyrecord_t \<Rightarrow> bool" where
  "key_ok k \<longleftrightarrow>
     (IS_EVENT (event k) \<longrightarrow> ev_pressed (event k) \<or> 0 < tap_count k) \<and> tap_count k \<le> 15 \<and> tick_ok k"

definition buffer_ok :: "'w tapping_vars \<Rightarrow> bool" where
  "buffer_ok t \<longleftrightarrow> length (waiting_buffer t) = WAITING_BUFFER_SIZE \<and>
     waiting_buffer_head t < WAITING_BUFFER_SIZE \<and> waiting_buffer_tail t < WAITING_BUFFER_SIZE"

definition tapping_inv :: "'w tapping_vars \<Rightarrow> bool" where
  "tapping_inv t \<longleftrightarrow> buffer_ok t \<and> key_ok (tapping_key t) \<and>
     (\<forall>r \<in> set (waiting_records t). fresh r \<and> IS_EVENT (event r))"

text \<open>What \<open>process_tapping\<close> may do to the buffer: count a waiting release as a tap.\<close>

definition counted :: "keyrecord_t \<Rightarrow> keyrecord_t \<Rightarrow> bool" where
  "counted r r' \<longleftrightarrow> r' = r \<or> \<not> ev_pressed (event r) \<and> r' = r\<lparr>tap_count := 1\<rparr>"

definition same_buffer :: "'w tapping_vars \<Rightarrow> 'w tapping_vars \<Rightarrow> bool" where
  "same_buffer t t' \<longleftrightarrow> waiting_buffer_head t' = waiting_buffer_head t \<and>
     waiting_buffer_tail t' = waiting_buffer_tail t \<and>
     list_all2 counted (waiting_buffer t) (waiting_buffer t')"

lemma counted_refl [simp]: "counted r r"
  by (simp add: counted_def)

lemma counted_event: "counted r r' \<Longrightarrow> event r' = event r"
  by (auto simp: counted_def)

lemma counted_fresh: "counted r r' \<Longrightarrow> fresh r \<Longrightarrow> fresh r'"
  by (auto simp: counted_def fresh_def tick_ok_def)

lemma same_buffer_eq:
  "waiting_buffer t' = waiting_buffer t \<Longrightarrow> waiting_buffer_head t' = waiting_buffer_head t \<Longrightarrow>
     waiting_buffer_tail t' = waiting_buffer_tail t \<Longrightarrow> same_buffer t t'"
  by (simp add: same_buffer_def list.rel_refl)

lemma same_buffer_refl [simp]: "same_buffer t t"
  by (simp add: same_buffer_eq)

lemma same_buffer_nth:
  "same_buffer t t' \<Longrightarrow> i < length (waiting_buffer t) \<Longrightarrow> counted (waiting_buffer t ! i) (waiting_buffer t' ! i)"
  by (auto simp: same_buffer_def list_all2_conv_all_nth)

lemma same_buffer_buffer_ok: "same_buffer t t' \<Longrightarrow> buffer_ok t \<Longrightarrow> buffer_ok t'"
  by (auto simp: same_buffer_def buffer_ok_def dest: list_all2_lengthD)

lemma process_tapping_key_frame [simp]:
  "waiting_buffer (process_tapping_key e t) = waiting_buffer t"
  "waiting_buffer_head (process_tapping_key e t) = waiting_buffer_head t"
  "waiting_buffer_tail (process_tapping_key e t) = waiting_buffer_tail t"
  by (simp_all add: process_tapping_key_def split_beta)

lemma settle_hold_frame [simp]:
  "waiting_buffer (settle_hold e t) = waiting_buffer t"
  "waiting_buffer_head (settle_hold e t) = waiting_buffer_head t"
  "waiting_buffer_tail (settle_hold e t) = waiting_buffer_tail t"
  "tapping_key (settle_hold e t) = empty_record"
  by (simp_all add: settle_hold_def)

lemma pass_record_frame [simp]:
  "waiting_buffer (snd (pass_record e r t)) = waiting_buffer t"
  "waiting_buffer_head (snd (pass_record e r t)) = waiting_buffer_head t"
  "waiting_buffer_tail (snd (pass_record e r t)) = waiting_buffer_tail t"
  "tapping_key (snd (pass_record e r t)) = tapping_key t"
  by (simp_all add: pass_record_def split_beta)

lemma key_ok_empty [simp]: "key_ok empty_record"
  by (simp add: key_ok_def IS_EVENT_iff tick_ok_def)

lemma key_ok_tick: "key_ok k \<Longrightarrow> tick_ok k"
  by (simp add: key_ok_def)

lemma tick_ok_update [simp]: "tick_ok (k\<lparr>tap_count := c\<rparr>) \<longleftrightarrow> tick_ok k"
  by (simp add: tick_ok_def)

lemma find_Some_in: "List.find P xs = Some x \<Longrightarrow> P x \<and> x \<in> set xs"
  by (auto simp: find_Some_iff)

lemma counted_update: "counted (xs ! i) y \<Longrightarrow> list_all2 counted xs (xs[i := y])"
  by (simp add: list_all2_conv_all_nth) (metis counted_refl nth_list_update_eq nth_list_update_neq)

lemma not_event_empty [simp]: "\<not> IS_EVENT (event empty_record)"
  by (simp add: IS_EVENT_iff)

lemma scan_tap_same_buffer: "same_buffer t (waiting_buffer_scan_tap e t)"
proof (cases "List.find (is_tap_release e t) (waiting_indices (waiting_buffer_tail t) (waiting_buffer_head t))")
  case (Some i)
  then have "\<not> ev_pressed (event (waiting_buffer t ! i))"
    by (auto dest!: find_Some_in simp: is_tap_release_def Let_def)
  then have "counted (waiting_buffer t ! i) ((waiting_buffer t ! i)\<lparr>tap_count := 1\<rparr>)"
    by (simp add: counted_def)
  then show ?thesis
    using Some by (auto simp: waiting_buffer_scan_tap_def same_buffer_def counted_update list.rel_refl)
qed (simp add: waiting_buffer_scan_tap_def)

text \<open>
  The contract between the tapping machine and the code that processes records.
\<close>

locale record_processor =
  fixes e :: "'w tapping_env"
  assumes outcome: "record_outcome r (fst (te_process_record e r w))"
    and tap_event: "te_is_tap_record e r w \<Longrightarrow> IS_EVENT (event r)"
begin

lemma tapped_key_ok:
  "0 < tap_count r \<Longrightarrow> tap_count r \<le> 15 \<Longrightarrow> tick_ok r \<Longrightarrow> key_ok (fst (te_process_record e r w))"
  using outcome [of r w] by (auto simp: record_outcome_def key_ok_def tick_ok_def)

lemma process_tapping_key_ok:
  "0 < tap_count (tapping_key t) \<Longrightarrow> tap_count (tapping_key t) \<le> 15 \<Longrightarrow> tick_ok (tapping_key t) \<Longrightarrow>
     key_ok (tapping_key (process_tapping_key e t))"
  using tapped_key_ok by (simp add: process_tapping_key_def split_beta)

lemma scan_tap_key_ok: "key_ok (tapping_key t) \<Longrightarrow> key_ok (tapping_key (waiting_buffer_scan_tap e t))"
  by (simp add: waiting_buffer_scan_tap_def process_tapping_key_ok key_ok_tick split: option.split)

lemma fresh_press_ok: "fresh r \<Longrightarrow> ev_pressed (event r) \<Longrightarrow> key_ok r"
  by (simp add: fresh_def key_ok_def)

lemma undecided_step:
  assumes "process_undecided e r t = (d, r', t')" "key_ok (tapping_key t)" "fresh r"
    "ev_pressed (event (tapping_key t))"
  shows "key_ok (tapping_key t') \<and> same_buffer t t' \<and> (\<not> d \<longrightarrow> event r' = event r \<and> fresh r')"
proof -
  have tap: "key_ok (tapping_key (process_tapping_key e (t\<lparr>tapping_key := (tapping_key t)\<lparr>tap_count := 1\<rparr>\<rparr>)))"
    by (rule process_tapping_key_ok) (use assms(2) in \<open>simp_all add: key_ok_def tick_ok_def\<close>)
  then show ?thesis
    using assms
    by (auto simp: process_undecided_def Let_def split_beta pass_record_def fresh_def key_ok_def copy_tap_def tick_ok_def
        intro!: same_buffer_eq split: if_splits)
qed

lemma tapped_step:
  assumes "process_tapped e keep r t = (d, r', t')" "key_ok (tapping_key t)" "fresh r"
    "0 < tap_count (tapping_key t)"
  shows "key_ok (tapping_key t') \<and> same_buffer t t' \<and> d"
proof -
  consider (tap) "IS_TAPPING_RECORD r t" "\<not> ev_pressed (event r)"
    | (start) "\<not> (IS_TAPPING_RECORD r t \<and> \<not> ev_pressed (event r))" "te_is_tap_record e r (tworld t)" "ev_pressed (event r)"
    | (other) "\<not> (IS_TAPPING_RECORD r t \<and> \<not> ev_pressed (event r))"
      "\<not> (te_is_tap_record e r (tworld t) \<and> ev_pressed (event r))"
    by blast
  then show ?thesis
  proof cases
    case tap
    have "key_ok (fst (te_process_record e (copy_tap (tapping_key t) r) w))" for w
      by (rule tapped_key_ok) (use assms(2-4) tap in \<open>simp_all add: copy_tap_def key_ok_def tick_ok_def\<close>)
    then show ?thesis
      using assms(1) tap
      by (auto simp: process_tapped_def Let_def split_beta pass_record_def intro!: same_buffer_eq)
  next
    case start
    define t1 where "t1 = (if 1 < tap_count (tapping_key t)
      then snd (pass_record e (last_tap_release (event r) t) t) else t)\<lparr>tapping_key := r\<rparr>"
    have "same_buffer t t1" "tapping_key t1 = r"
      by (simp_all add: t1_def same_buffer_eq)
    moreover have "t' = waiting_buffer_scan_tap e t1" "d"
      using assms(1) start by (auto simp: process_tapped_def t1_def Let_def)
    ultimately show ?thesis
      using scan_tap_same_buffer [of t1 e] scan_tap_key_ok [of t1] fresh_press_ok [OF assms(3) start(3)]
        list_all2_trans [of counted counted counted]
      by (auto simp: same_buffer_def t1_def)
  next
    case other
    then show ?thesis
      using assms by (auto simp: process_tapped_def Let_def split_beta pass_record_def intro!: same_buffer_eq)
  qed
qed

lemma sequential_tap_count:
  fixes c :: u8
  assumes "c \<le> 15"
  shows "(if c < 15 then c + 1 else c) \<le> 15 \<and> 0 < (if c < 15 then c + 1 else c)"
proof -
  have "unat c \<le> 15"
    using assms by (simp add: word_le_nat_alt)
  then show ?thesis
    by (auto simp: word_le_nat_alt word_less_nat_alt unat_word_ariths)
qed

lemma released_step:
  assumes "process_released e r t = (d, r', t')" "key_ok (tapping_key t)" "fresh r"
    "\<not> ev_pressed (event (tapping_key t))"
  shows "key_ok (tapping_key t') \<and> same_buffer t t' \<and> d"
proof (cases "ev_pressed (event r)")
  case False
  then show ?thesis
    using assms by (auto simp: process_released_def Let_def split_beta pass_record_def intro!: same_buffer_eq)
next
  case True
  define r1 where "r1 = (let r = copy_tap (tapping_key t) r
    in if tap_count r < 15 then r\<lparr>tap_count := tap_count r + 1\<rparr> else r)"
  have "tap_count (tapping_key t) \<le> 15"
    using assms(2) by (simp add: key_ok_def)
  then have "0 < tap_count r1" "tap_count r1 \<le> 15"
    using sequential_tap_count [of "tap_count (tapping_key t)"]
    by (simp_all add: r1_def Let_def copy_tap_def split: if_splits)
  moreover have "tick_ok r1"
    using assms(3) by (simp add: r1_def Let_def copy_tap_def fresh_def tick_ok_def)
  ultimately have seq: "key_ok (fst (te_process_record e r1 w))" for w
    by (rule tapped_key_ok)
  have scan: "key_ok (tapping_key (waiting_buffer_scan_tap e (t\<lparr>tapping_key := r\<rparr>)))"
    "same_buffer t (waiting_buffer_scan_tap e (t\<lparr>tapping_key := r\<rparr>))" "key_ok r"
    using scan_tap_key_ok [of "t\<lparr>tapping_key := r\<rparr>"] scan_tap_same_buffer [of "t\<lparr>tapping_key := r\<rparr>" e]
      fresh_press_ok [OF assms(3) True] by (simp_all add: same_buffer_def)
  have int: "key_ok ((tapping_key t)\<lparr>tap_interrupted := True\<rparr>)"
    using assms(2) by (simp add: key_ok_def tick_ok_def)
  have "process_released e r t =
    (if IS_TAPPING_RECORD r t then
       (if WITHIN_QUICK_TAP_TERM e (event r) t \<and> \<not> tap_interrupted (tapping_key t) \<and> 0 < tap_count (tapping_key t)
        then (let (r, t) = pass_record e r1 t in (True, r, t\<lparr>tapping_key := r\<rparr>))
        else (True, r, t\<lparr>tapping_key := r\<rparr>))
     else if te_is_tap_record e r (tworld t) then (True, r, waiting_buffer_scan_tap e (t\<lparr>tapping_key := r\<rparr>))
     else (let (r, t) = pass_record e r (t\<lparr>tapping_key := (tapping_key t)\<lparr>tap_interrupted := True\<rparr>\<rparr>)
           in (True, r, t)))"
    using True by (simp add: process_released_def r1_def Let_def)
  with assms(1) show ?thesis
    using scan seq int
    by (auto simp: split_beta pass_record_def intro!: same_buffer_eq split: if_splits)
qed

lemma reset_step:
  assumes "process_reset e r t = (d, r', t')" "key_ok (tapping_key t)" "fresh r"
  shows "key_ok (tapping_key t') \<and> same_buffer t t' \<and> d"
proof -
  define t1 where "t1 = t\<lparr>tapping_key := r, tworld := te_tap_hint e r (tworld t)\<rparr>"
  have scan: "key_ok (tapping_key (waiting_buffer_scan_tap e t1))" "same_buffer t (waiting_buffer_scan_tap e t1)"
    if "ev_pressed (event r)"
    using scan_tap_key_ok [of t1] scan_tap_same_buffer [of t1 e] fresh_press_ok [OF assms(3) that]
    by (simp_all add: same_buffer_def t1_def)
  then show ?thesis
    using assms(1,2)
    by (auto simp: process_reset_def Let_def split_beta t1_def pass_record_def intro!: same_buffer_eq split: if_splits)
qed

lemma process_tapping_step:
  assumes "process_tapping e r t = (d, r', t')" "key_ok (tapping_key t)" "fresh r"
  shows "key_ok (tapping_key t') \<and> same_buffer t t' \<and> (\<not> d \<longrightarrow> event r' = event r \<and> fresh r')"
proof -
  have pos: "0 < tap_count (tapping_key t)" if "tap_count (tapping_key t) \<noteq> 0"
    using that by (simp add: word_neq_0_conv)
  show ?thesis
    using assms
    by (auto simp: process_tapping_def same_buffer_eq pos split: if_splits
        dest: reset_step undecided_step tapped_step [OF _ _ _ pos] released_step)
qed

end
section \<open>Accounting for events\<close>

text \<open>
  A ghost log of the processed events: the same machine, whose world also lists the event of every
  processed record.
\<close>

definition logged :: "'w tapping_env \<Rightarrow> ('w \<times> keyevent_t list) tapping_env" where
  "logged e = \<lparr>te_process_record = (\<lambda>r (w, l).
       let (r', w') = te_process_record e r w in (r', (w', l @ [event r]))),
     te_is_tap_record = (\<lambda>r (w, l). te_is_tap_record e r w),
     te_tap_hint = (\<lambda>r (w, l). (te_tap_hint e r w, l)),
     te_get_action = (\<lambda>k (w, l). te_get_action e k w),
     te_clear_keyboard = (\<lambda>(w, l). (te_clear_keyboard e w, l)),
     te_tapping_term = (\<lambda>r (w, l). te_tapping_term e r w),
     te_quick_tap_term = (\<lambda>r (w, l). te_quick_tap_term e r w),
     te_permissive_hold = (\<lambda>r (w, l). te_permissive_hold e r w),
     te_hold_on_other = (\<lambda>r (w, l). te_hold_on_other e r w)\<rparr>"

text \<open>\<open>no_loss A B\<close>: every event of \<open>A\<close> is in \<open>B\<close>, which adds releases at most.\<close>

definition no_loss :: "keyevent_t multiset \<Rightarrow> keyevent_t multiset \<Rightarrow> bool" where
  "no_loss A B \<longleftrightarrow> A \<subseteq># B \<and> filter_mset ev_pressed A = filter_mset ev_pressed B"

text \<open>The press of a tapping key that is not settled has not been processed.\<close>

definition unsettled :: "keyrecord_t \<Rightarrow> keyevent_t multiset" where
  "unsettled k = (if ev_pressed (event k) \<and> tap_count k = 0 then {#event k#} else {#})"

definition event_of :: "keyrecord_t \<Rightarrow> keyevent_t multiset" where
  "event_of r = (if IS_EVENT (event r) then {#event r#} else {#})"

definition settled :: "('w \<times> keyevent_t list) tapping_vars \<Rightarrow> keyevent_t multiset" where
  "settled t = mset (snd (tworld t)) + unsettled (tapping_key t)"

definition all_events :: "('w \<times> keyevent_t list) tapping_vars \<Rightarrow> keyevent_t multiset" where
  "all_events t = settled t + mset (map event (waiting_records t))"

lemma no_loss_refl [simp]: "no_loss A A"
  by (simp add: no_loss_def)

lemma no_loss_trans: "no_loss A B \<Longrightarrow> no_loss B C \<Longrightarrow> no_loss A C"
  by (auto simp: no_loss_def intro: subset_mset.order_trans)

lemma no_loss_add: "no_loss A B \<Longrightarrow> no_loss (A + C) (B + C)"
  by (simp add: no_loss_def)

lemma no_loss_release: "\<not> ev_pressed x \<Longrightarrow> no_loss A (add_mset x A)"
  by (simp add: no_loss_def)

lemma unsettled_simps [simp]:
  "unsettled empty_record = {#}"
  "0 < tap_count k \<Longrightarrow> unsettled k = {#}"
  "\<not> ev_pressed (event k) \<Longrightarrow> unsettled k = {#}"
  "unsettled (k\<lparr>tap_interrupted := b\<rparr>) = unsettled k"
  by (auto simp: unsettled_def)

lemma unsettled_press: "fresh r \<Longrightarrow> ev_pressed (event r) \<Longrightarrow> unsettled r = {#event r#}"
  by (simp add: unsettled_def fresh_def)

lemma logged_process [simp]:
  "te_process_record (logged e) r w =
     (fst (te_process_record e r (fst w)), (snd (te_process_record e r (fst w)), snd w @ [event r]))"
  by (cases w) (simp add: logged_def split_beta)

lemma logged_hint [simp]: "snd (te_tap_hint (logged e) r w) = snd w"
  by (cases w) (simp add: logged_def)

lemma pass_record_settled [simp]:
  "settled (snd (pass_record (logged e) r t)) = add_mset (event r) (settled t)"
  by (simp add: pass_record_def settled_def)

lemma pass_record_settledD:
  "pass_record (logged e) r t = (r', t') \<Longrightarrow> settled t' = add_mset (event r) (settled t)"
  by (metis pass_record_settled snd_conv)

lemma settled_key: "settled (t\<lparr>tapping_key := k\<rparr>) = mset (snd (tworld t)) + unsettled k"
  by (simp add: settled_def)

lemma reset_returns: "process_reset e r t = (d, r', t') \<Longrightarrow> d"
  by (auto simp: process_reset_def Let_def split_beta split: if_splits)

lemma tapped_returns: "process_tapped e keep r t = (d, r', t') \<Longrightarrow> d"
  by (auto simp: process_tapped_def Let_def split_beta split: if_splits)

lemma released_returns: "process_released e r t = (d, r', t') \<Longrightarrow> d"
  by (auto simp: process_released_def Let_def split_beta split: if_splits)

context record_processor
begin

lemma tapped_unsettled [simp]: "0 < tap_count r \<Longrightarrow> unsettled (fst (te_process_record e r w)) = {#}"
  using outcome [of r w] by (auto simp: record_outcome_def)

lemma scan_tap_settled [simp]: "settled (waiting_buffer_scan_tap (logged e) t) = settled t"
  by (auto simp: waiting_buffer_scan_tap_def process_tapping_key_def settled_def word_neq_0_conv [symmetric]
      split: option.split) (simp add: unsettled_def)

lemma settle_hold_settled:
  "ev_pressed (event (tapping_key t)) \<Longrightarrow> tap_count (tapping_key t) = 0 \<Longrightarrow>
     settled (settle_hold (logged e) t) = settled t"
  by (simp add: settle_hold_def process_tapping_key_def settled_def unsettled_def)

lemma undecided_accounts:
  assumes "process_undecided (logged e) r t = (d, r', t')" "fresh r"
    "ev_pressed (event (tapping_key t))" "tap_count (tapping_key t) = 0"
  shows "settled t + {#event r#} = settled t' + (if d then {#} else {#event r#})"
proof -
  have tap: "settled (process_tapping_key (logged e) (t\<lparr>tapping_key := (tapping_key t)\<lparr>tap_count := 1\<rparr>\<rparr>)) = settled t"
    using assms(3,4) by (simp add: process_tapping_key_def settled_def) (simp add: unsettled_def)
  have int: "settled (settle_hold (logged e) (t\<lparr>tapping_key := (tapping_key t)\<lparr>tap_interrupted := True\<rparr>\<rparr>)) = settled t"
    using assms(3,4) by (subst settle_hold_settled) (simp_all add: settled_def)
  show ?thesis
    using assms(1) tap int settle_hold_settled [OF assms(3,4)]
    by (auto simp: process_undecided_def Let_def split_beta settled_key settled_def [of t, symmetric]
        prod_eq_iff split: if_splits)
qed

lemma tapped_accounts:
  assumes "process_tapped (logged e) keep r t = (d, r', t')" "fresh r" "0 < tap_count (tapping_key t)"
  shows "no_loss (settled t + {#event r#}) (settled t')"
proof (cases "te_is_tap_record (logged e) r (tworld t) \<and> ev_pressed (event r)")
  case True
  define t1 where "t1 = (if 1 < tap_count (tapping_key t)
    then snd (pass_record (logged e) (last_tap_release (event r) t) t) else t)"
  have t': "settled t' = settled (t1\<lparr>tapping_key := r\<rparr>)"
    using assms(1) True by (auto simp: process_tapped_def t1_def Let_def)
  have "no_loss (mset (snd (tworld t))) (mset (snd (tworld t1)))"
    by (simp add: t1_def pass_record_def last_tap_release_def no_loss_release)
  then have "no_loss (mset (snd (tworld t)) + {#event r#}) (mset (snd (tworld t1)) + {#event r#})"
    by (rule no_loss_add)
  then show ?thesis
    using assms(2,3) True by (simp add: t' settled_key unsettled_press) (simp add: settled_def)
next
  case False
  then show ?thesis
    using assms
    by (auto simp: process_tapped_def Let_def split_beta pass_record_def copy_tap_def settled_def
        split: if_splits)
qed

lemma settled_passed:
  "settled (snd (pass_record (logged e) r t)\<lparr>tapping_key := k\<rparr>) =
     add_mset (event r) (mset (snd (tworld t)) + unsettled k)"
  by (simp add: pass_record_def settled_def)

lemma released_accounts:
  assumes "process_released (logged e) r t = (d, r', t')" "fresh r" "\<not> ev_pressed (event (tapping_key t))"
    "key_ok (tapping_key t)"
  shows "settled t' = settled t + {#event r#}"
proof -
  have c: "0 < tap_count (tapping_key t) + 1" if "tap_count (tapping_key t) < 15"
    using that sequential_tap_count [of "tap_count (tapping_key t)"] by (simp add: order_less_imp_le)
  have t: "settled t = mset (snd (tworld t))"
    using assms(3) by (simp add: settled_def)
  define q where "q = (if tap_count (tapping_key t) < 15
     then copy_tap (tapping_key t) r\<lparr>tap_count := tap_count (tapping_key t) + 1\<rparr> else copy_tap (tapping_key t) r)"
  have seq: "settled (snd (pass_record (logged e) q t)\<lparr>tapping_key := fst (pass_record (logged e) q t)\<rparr>) =
      settled t + {#event r#}" if "0 < tap_count (tapping_key t)"
  proof -
    have "0 < tap_count q" "event q = event r"
      using that c by (simp_all add: q_def copy_tap_def)
    then show ?thesis
      by (simp add: settled_passed t) (simp add: pass_record_def)
  qed
  have other: "settled (snd (pass_record (logged e) r (t\<lparr>tapping_key := (tapping_key t)\<lparr>tap_interrupted := True\<rparr>\<rparr>))) =
      settled t + {#event r#}"
    using assms(3) by (simp add: settled_key t)
  have start: "settled (t\<lparr>tapping_key := r\<rparr>) = settled t + {#event r#}" if "ev_pressed (event r)"
    using unsettled_press [OF assms(2) that] by (simp add: settled_key t)
  have "tap_count (copy_tap k r) = tap_count k" for k r
    by (simp add: copy_tap_def)
  then show ?thesis
    using assms(1) seq other start
    by (auto simp: process_released_def Let_def split_beta q_def dest!: pass_record_settledD split: if_splits)
qed

lemma settled_hint [simp]:
  "settled (t\<lparr>tworld := te_tap_hint (logged e) r (tworld t')\<rparr>) = mset (snd (tworld t')) + unsettled (tapping_key t)"
  by (simp add: settled_def)

lemma reset_accounts:
  assumes "process_reset (logged e) r t = (d, r', t')" "fresh r" "unsettled (tapping_key t) = {#}"
  shows "settled t' = settled t + event_of r"
proof -
  have t: "settled t = mset (snd (tworld t))"
    using assms(3) by (simp add: settled_def)
  have "settled (t\<lparr>tapping_key := r, tworld := te_tap_hint (logged e) r (tworld t)\<rparr>) = settled t + {#event r#}"
    if "ev_pressed (event r)"
    using unsettled_press [OF assms(2) that] by (simp add: settled_def assms(3))
  then show ?thesis
    using assms(1)
    by (auto simp: process_reset_def Let_def split_beta event_of_def dest!: pass_record_settledD split: if_splits)
qed

lemma process_tapping_accounts:
  assumes "process_tapping (logged e) r t = (d, r', t')" "key_ok (tapping_key t)" "fresh r"
  shows "no_loss (settled t + event_of r) (settled t' + (if d then {#} else event_of r))"
proof -
  have pos: "0 < tap_count (tapping_key t)" if "tap_count (tapping_key t) \<noteq> 0"
    using that by (simp add: word_neq_0_conv)
  have ev: "event_of r = {#event r#}" if "\<not> IS_NOEVENT (event r)"
    using that by (simp add: event_of_def IS_EVENT_iff)
  have no: "event_of r = {#}" if "IS_NOEVENT (event r)"
    using that by (simp add: event_of_def IS_EVENT_iff)
  show ?thesis
  proof (cases "IS_NOEVENT (event (tapping_key t))")
    case True
    then have "unsettled (tapping_key t) = {#}" "process_reset (logged e) r t = (d, r', t')"
      using assms(1,2) by (simp_all add: process_tapping_def key_ok_def tick_ok_def)
    then show ?thesis
      using reset_accounts [OF _ assms(3)] reset_returns by fastforce
  next
    case False
    note active = this
    show ?thesis
    proof (cases "ev_pressed (event (tapping_key t))")
      case down: True
      show ?thesis
      proof (cases "tap_count (tapping_key t) = 0")
        case True
        have "IS_NOEVENT (event r) \<and> d \<and> t' = t \<or> \<not> d \<and> t' = settle_hold (logged e) t \<or>
            \<not> IS_NOEVENT (event r) \<and> process_undecided (logged e) r t = (d, r', t')"
          using assms(1) active down True by (auto simp: process_tapping_def split: if_splits)
        then show ?thesis
          using undecided_accounts [OF _ assms(3) down True] settle_hold_settled [OF down True]
          by (elim disjE) (simp_all add: ev no)
      next
        case False
        then have "IS_NOEVENT (event r) \<and> d \<and> t' = t \<or>
            \<not> IS_NOEVENT (event r) \<and> (\<exists>keep. process_tapped (logged e) keep r t = (d, r', t'))"
          using assms(1) active down by (auto simp: process_tapping_def split: if_splits)
        then show ?thesis
          using tapped_accounts [OF _ assms(3) pos [OF False]] tapped_returns by (fastforce simp: ev no)
      qed
    next
      case up: False
      have "IS_NOEVENT (event r) \<and> d \<and> t' = t \<or> \<not> d \<and> t' = t\<lparr>tapping_key := empty_record\<rparr> \<or>
          \<not> IS_NOEVENT (event r) \<and> process_released (logged e) r t = (d, r', t')"
        using assms(1) active up by (auto simp: process_tapping_def split: if_splits)
      moreover have "settled (t\<lparr>tapping_key := empty_record\<rparr>) = settled t"
        using up by (simp add: settled_def)
      ultimately show ?thesis
        using released_accounts [OF _ assms(3) up assms(2)] released_returns by (fastforce simp: ev no)
    qed
  qed
qed

end

section \<open>The loop over the waiting buffer\<close>

lemma counted_step: "counted x y \<Longrightarrow> event y = event x \<and> (fresh x \<longrightarrow> fresh y)"
  using counted_event [of x y] counted_fresh [of x y] by blast

lemma counted_events: "list_all2 counted xs ys \<Longrightarrow> map event ys = map event xs"
  by (induction rule: list_all2_induct) (simp_all add: counted_step)

lemma counted_waiting:
  assumes "list_all2 counted xs ys" "\<forall>r \<in> set xs. fresh r \<and> IS_EVENT (event r)"
  shows "\<forall>r \<in> set ys. fresh r \<and> IS_EVENT (event r)"
proof
  fix r
  assume "r \<in> set ys"
  then obtain x where "x \<in> set xs" "counted x r"
    using assms(1) by (metis in_set_conv_nth list_all2_conv_all_nth)
  then show "fresh r \<and> IS_EVENT (event r)"
    using counted_step [of x r] assms(2) by metis
qed

lemma counted_map:
  "same_buffer t t' \<Longrightarrow> buffer_ok t \<Longrightarrow> \<forall>i \<in> set is. i < WAITING_BUFFER_SIZE \<Longrightarrow>
     list_all2 counted (map ((!) (waiting_buffer t)) is) (map ((!) (waiting_buffer t')) is)"
  by (simp add: list_all2_map1 list_all2_map2 list_all2_same buffer_ok_def same_buffer_nth)

text \<open>One turn of the loop, in terms of the waiting records.\<close>

lemma waiting_step:
  fixes r :: keyrecord_t
  assumes "buffer_ok t" "waiting_indices (waiting_buffer_tail t) (waiting_buffer_head t) = i # is" "same_buffer t t1"
  defines "t2 \<equiv> t1\<lparr>waiting_buffer := (waiting_buffer t1)[i := r]\<rparr>"
  defines "t3 \<equiv> t2\<lparr>waiting_buffer_tail := (i + 1) mod WAITING_BUFFER_SIZE\<rparr>"
  shows "\<exists>rs rs'. waiting_records t = waiting_buffer t ! i # rs \<and> list_all2 counted rs rs' \<and>
    waiting_records t2 = r # rs' \<and> waiting_records t3 = rs' \<and>
    is = waiting_indices (waiting_buffer_tail t3) (waiting_buffer_head t3) \<and> buffer_ok t2 \<and> buffer_ok t3"
proof -
  define rs where "rs = map ((!) (waiting_buffer t)) is"
  define rs' where "rs' = map ((!) (waiting_buffer t1)) is"
  have ne: "waiting_buffer_tail t \<noteq> waiting_buffer_head t" and i: "i = waiting_buffer_tail t"
    and is_eq: "is = waiting_indices ((i + 1) mod WAITING_BUFFER_SIZE) (waiting_buffer_head t)"
    using assms(1,2) waiting_indices_step [of "waiting_buffer_tail t" "waiting_buffer_head t"]
    by (auto simp: buffer_ok_def split: if_splits)
  have same: "waiting_buffer_head t1 = waiting_buffer_head t" "waiting_buffer_tail t1 = waiting_buffer_tail t"
    "length (waiting_buffer t1) = length (waiting_buffer t)"
    using assms(3) by (auto simp: same_buffer_def dest: list_all2_lengthD)
  have lt: "i < length (waiting_buffer t1)"
    using assms(1) i same by (simp add: buffer_ok_def)
  have notin: "i \<notin> set is"
    using waiting_indices_distinct [of "waiting_buffer_tail t" "waiting_buffer_head t"] by (simp add: assms(2))
  have "waiting_records t = waiting_buffer t ! i # rs"
    using assms(2) by (simp add: waiting_records_def rs_def)
  moreover have "list_all2 counted rs rs'"
    unfolding rs_def rs'_def using assms(1,3) is_eq waiting_indices_lt by (intro counted_map) auto
  moreover have "waiting_records t2 = r # rs'"
    using assms(2) lt notin by (simp add: waiting_records_def rs'_def t2_def same list_update_map_notin)
  moreover have "waiting_records t3 = rs'"
    using is_eq notin by (simp add: waiting_records_def rs'_def t3_def t2_def same list_update_map_notin)
  moreover have "is = waiting_indices (waiting_buffer_tail t3) (waiting_buffer_head t3)"
    using is_eq by (simp add: t3_def t2_def same)
  moreover have "buffer_ok t2" "buffer_ok t3"
    using same_buffer_buffer_ok [OF assms(3,1)] by (simp_all add: buffer_ok_def t2_def t3_def)
  ultimately show ?thesis
    by blast
qed

context record_processor
begin

lemma logged_processor: "record_processor (logged e)"
  by unfold_locales (auto simp: outcome, auto simp: logged_def split: prod.splits dest: tap_event)

text \<open>What one turn of the loop does to the invariant and the events, for the two states it may end in.\<close>

lemma waiting_turn:
  assumes "tapping_inv t" "waiting_indices (waiting_buffer_tail t) (waiting_buffer_head t) = i # is"
    "process_tapping e (waiting_buffer t ! i) t = (d, r', t1)"
  defines "t2 \<equiv> t1\<lparr>waiting_buffer := (waiting_buffer t1)[i := r']\<rparr>"
  defines "t3 \<equiv> t2\<lparr>waiting_buffer_tail := (i + 1) mod WAITING_BUFFER_SIZE\<rparr>"
  shows "tapping_inv t3 \<and> is = waiting_indices (waiting_buffer_tail t3) (waiting_buffer_head t3) \<and>
    (\<not> d \<longrightarrow> tapping_inv t2) \<and> key_ok (tapping_key t) \<and> fresh (waiting_buffer t ! i) \<and>
    IS_EVENT (event (waiting_buffer t ! i)) \<and>
    map event (waiting_records t) = event (waiting_buffer t ! i) # map event (waiting_records t3) \<and>
    (\<not> d \<longrightarrow> map event (waiting_records t2) = map event (waiting_records t))"
proof -
  have "waiting_buffer t ! i \<in> set (waiting_records t)"
    using assms(2) by (simp add: waiting_records_def)
  with assms(1) have pre: "key_ok (tapping_key t)" "fresh (waiting_buffer t ! i)" "buffer_ok t"
    "IS_EVENT (event (waiting_buffer t ! i))"
    unfolding tapping_inv_def by blast+
  note post = process_tapping_step [OF assms(3) pre(1,2)]
  have same: "same_buffer t t1"
    using post by simp
  from waiting_step [OF pre(3) assms(2) this, of r'] obtain rs rs' where w: "waiting_records t = waiting_buffer t ! i # rs" "list_all2 counted rs rs'"
    "waiting_records t2 = r' # rs'" "waiting_records t3 = rs'"
    "is = waiting_indices (waiting_buffer_tail t3) (waiting_buffer_head t3)" "buffer_ok t2" "buffer_ok t3"
    unfolding t2_def t3_def by blast
  have key: "key_ok (tapping_key t2)" "key_ok (tapping_key t3)"
    using post by (simp_all add: t2_def t3_def)
  have "\<forall>r \<in> set rs. fresh r \<and> IS_EVENT (event r)"
    using assms(1) unfolding tapping_inv_def w(1) by (metis list.set_intros(2))
  note rs' = counted_waiting [OF w(2) this] counted_events [OF w(2)]
  have "tapping_inv t3"
    unfolding tapping_inv_def w(4) using key(2) w(7) rs'(1) by (intro conjI)
  moreover have "tapping_inv t2" if "\<not> d"
    unfolding tapping_inv_def w(3) set_simps ball_simps using key(1) w(6) rs'(1) post pre(4) that by (metis insert_iff)
  ultimately show ?thesis
    using w(5) pre rs'(2) post unfolding w(1,3,4) list.map by metis
qed

lemma waiting_buffer_inv:
  "tapping_inv t \<Longrightarrow> is = waiting_indices (waiting_buffer_tail t) (waiting_buffer_head t) \<Longrightarrow>
     tapping_inv (process_waiting_buffer e is t)"
proof (induction "is" arbitrary: t)
  case (Cons i "is")
  obtain d r' t1 where step: "process_tapping e (waiting_buffer t ! i) t = (d, r', t1)"
    by (metis prod_cases3)
  define t2 where "t2 = t1\<lparr>waiting_buffer := (waiting_buffer t1)[i := r']\<rparr>"
  define t3 where "t3 = t2\<lparr>waiting_buffer_tail := (i + 1) mod WAITING_BUFFER_SIZE\<rparr>"
  have "process_waiting_buffer e (i # is) t = (if d then process_waiting_buffer e is t3 else t2)"
    by (simp add: step t2_def t3_def)
  then show ?case
    using waiting_turn [OF Cons.prems(1) Cons.prems(2) [symmetric] step] Cons.IH [of t3]
    unfolding t2_def [symmetric] t3_def [symmetric] by simp
qed simp

end

context record_processor
begin

lemma waiting_buffer_accounts:
  "tapping_inv t \<Longrightarrow> is = waiting_indices (waiting_buffer_tail t) (waiting_buffer_head t) \<Longrightarrow>
     no_loss (all_events t) (all_events (process_waiting_buffer (logged e) is t))"
proof (induction "is" arbitrary: t)
  case (Cons i "is")
  obtain d r' t1 where step: "process_tapping (logged e) (waiting_buffer t ! i) t = (d, r', t1)"
    by (metis prod_cases3)
  define t2 where "t2 = t1\<lparr>waiting_buffer := (waiting_buffer t1)[i := r']\<rparr>"
  define t3 where "t3 = t2\<lparr>waiting_buffer_tail := (i + 1) mod WAITING_BUFFER_SIZE\<rparr>"
  have run: "process_waiting_buffer (logged e) (i # is) t =
      (if d then process_waiting_buffer (logged e) is t3 else t2)"
    by (simp add: step t2_def t3_def)
  note turn = record_processor.waiting_turn [OF logged_processor Cons.prems(1) Cons.prems(2) [symmetric] step,
      folded t2_def, folded t3_def]
  define m where "m = mset (map event (waiting_records t3))"
  have "no_loss (settled t + {#event (waiting_buffer t ! i)#} + m)
      (settled t1 + (if d then {#} else {#event (waiting_buffer t ! i)#}) + m)"
    using process_tapping_accounts [OF step] turn by (intro no_loss_add) (simp add: event_of_def split: if_splits)
  moreover have "all_events t = settled t + {#event (waiting_buffer t ! i)#} + m"
    using turn by (simp add: all_events_def m_def del: mset_map)
  moreover have "settled t3 = settled t1" "settled t2 = settled t1"
    by (simp_all add: settled_def t2_def t3_def)
  then have "all_events t3 = settled t1 + m" "\<not> d \<Longrightarrow> all_events t2 = settled t1 + {#event (waiting_buffer t ! i)#} + m"
    using turn by (simp_all add: all_events_def m_def del: mset_map)
  ultimately show ?case
    using turn Cons.IH [of t3] no_loss_trans unfolding run by (cases d) auto
qed simp

text \<open>One call of \<open>action_tapping_process\<close> while the buffer has room.\<close>

lemma action_tapping_inv:
  assumes "tapping_inv t" "fresh r"
  shows "tapping_inv (action_tapping_process e r t)"
proof -
  obtain d r' t1 where step: "process_tapping e r t = (d, r', t1)"
    by (metis prod_cases3)
  have post: "key_ok (tapping_key t1)" "same_buffer t t1" "\<not> d \<Longrightarrow> fresh r'"
    using process_tapping_step [OF step _ assms(2)] assms(1) by (auto simp: tapping_inv_def)
  have buf: "buffer_ok t1"
    using same_buffer_buffer_ok [OF post(2)] assms(1) by (simp add: tapping_inv_def)
  have "list_all2 counted (waiting_records t) (waiting_records t1)"
    using counted_map [OF post(2)] post(2) assms(1) waiting_indices_lt
    by (auto simp: waiting_records_def tapping_inv_def same_buffer_def)
  with assms(1) have fr: "\<forall>r \<in> set (waiting_records t1). fresh r \<and> IS_EVENT (event r)"
    using counted_waiting unfolding tapping_inv_def by blast
  have t1: "tapping_inv t1"
    using post(1) buf fr by (simp add: tapping_inv_def)
  define t2 where "t2 = (if d then t1 else
    let (ok, t) = waiting_buffer_enq r' t1 in if ok then t else tapping_overflow e t)"
  have "tapping_inv t2"
  proof (cases "d \<or> IS_NOEVENT (event r')")
    case True
    then show ?thesis
      using t1 by (auto simp: t2_def waiting_buffer_enq_def)
  next
    case False
    show ?thesis
    proof (cases "fst (waiting_buffer_enq r' t1)")
      case True
      then obtain t' where t': "waiting_buffer_enq r' t1 = (True, t')"
        by (cases "waiting_buffer_enq r' t1") auto
      have "waiting_records t' = waiting_records t1 @ [r']"
        using buf t' False by (intro waiting_records_enq) (simp_all add: buffer_ok_def)
      moreover have "buffer_ok t'" "tapping_key t' = tapping_key t1"
        using buf t' False by (auto simp: waiting_buffer_enq_def buffer_ok_def split: if_splits)
      ultimately show ?thesis
        using False t1 post(3) t' by (simp add: t2_def tapping_inv_def IS_EVENT_iff)
    next
      case False
      then show ?thesis
        using buf t1 by (auto simp: t2_def Let_def split_beta tapping_overflow_def waiting_buffer_clear_def
            tapping_inv_def buffer_ok_def waiting_records_def waiting_buffer_enq_def)
    qed
  qed
  then have "tapping_inv (process_waiting_buffer e (waiting_indices (waiting_buffer_tail t2) (waiting_buffer_head t2)) t2)"
    by (rule waiting_buffer_inv) simp
  then show ?thesis
    by (simp only: action_tapping_process_def step t2_def Let_def prod.case)
qed

lemma action_tapping_accounts:
  assumes "tapping_inv t" "fresh r" "length (waiting_records t) < WAITING_BUFFER_SIZE - 1"
  shows "no_loss (all_events t + event_of r) (all_events (action_tapping_process (logged e) r t))"
proof -
  obtain d r' t1 where step: "process_tapping (logged e) r t = (d, r', t1)"
    by (metis prod_cases3)
  have post: "key_ok (tapping_key t1)" "same_buffer t t1" "\<not> d \<Longrightarrow> fresh r' \<and> event r' = event r"
    using record_processor.process_tapping_step [OF logged_processor step _ assms(2)] assms(1)
    by (auto simp: tapping_inv_def)
  have buf: "buffer_ok t1"
    using same_buffer_buffer_ok [OF post(2)] assms(1) by (simp add: tapping_inv_def)
  have cnt: "list_all2 counted (waiting_records t) (waiting_records t1)"
    using counted_map [OF post(2)] post(2) assms(1) waiting_indices_lt
    by (auto simp: waiting_records_def tapping_inv_def same_buffer_def)
  with assms(1) have fr: "\<forall>r \<in> set (waiting_records t1). fresh r \<and> IS_EVENT (event r)"
    using counted_waiting unfolding tapping_inv_def by blast
  have t1: "tapping_inv t1"
    using post(1) buf fr by (simp add: tapping_inv_def)
  define m where "m = mset (map event (waiting_records t))"
  have m: "m = mset (map event (waiting_records t1))"
    using counted_events [OF cnt] by (simp add: m_def del: mset_map)
  define t2 where "t2 = (if d then t1 else
    let (ok, t) = waiting_buffer_enq r' t1 in if ok then t else tapping_overflow (logged e) t)"
  have room: "(waiting_buffer_head t1 + 1) mod 8 \<noteq> waiting_buffer_tail t1"
    using waiting_full_iff [of t1] buf assms(3) list_all2_lengthD [OF cnt] by (simp add: buffer_ok_def)
  have "tapping_inv t2 \<and> all_events t2 = settled t1 + m + (if d then {#} else event_of r)"
  proof (cases "d \<or> IS_NOEVENT (event r')")
    case True
    then show ?thesis
      using t1 post(3)
      by (auto simp: t2_def waiting_buffer_enq_def all_events_def m event_of_def IS_EVENT_iff simp del: mset_map)
  next
    case False
    then obtain t' where t': "waiting_buffer_enq r' t1 = (True, t')"
      using room by (auto simp: waiting_buffer_enq_def)
    have "waiting_records t' = waiting_records t1 @ [r']"
      using buf t' False by (intro waiting_records_enq) (simp_all add: buffer_ok_def)
    moreover have "buffer_ok t'" "tapping_key t' = tapping_key t1" "tworld t' = tworld t1"
      using buf t' False by (auto simp: waiting_buffer_enq_def buffer_ok_def split: if_splits)
    ultimately show ?thesis
      using False t1 post(3) t'
      by (simp add: t2_def tapping_inv_def IS_EVENT_iff all_events_def settled_def m event_of_def)
  qed
  moreover have "no_loss (settled t + event_of r + m) (settled t1 + (if d then {#} else event_of r) + m)"
    using process_tapping_accounts [OF step _ assms(2)] assms(1) by (intro no_loss_add) (simp add: tapping_inv_def)
  ultimately have "no_loss (all_events t + event_of r) (all_events t2)" "tapping_inv t2"
    by (simp_all add: all_events_def [of t] m_def [symmetric] ac_simps del: mset_map)
  then have "no_loss (all_events t + event_of r) (all_events
      (process_waiting_buffer (logged e) (waiting_indices (waiting_buffer_tail t2) (waiting_buffer_head t2)) t2))"
    using waiting_buffer_accounts by (blast intro: no_loss_trans)
  then show ?thesis
    by (simp only: action_tapping_process_def step t2_def Let_def prod.case)
qed

end

section \<open>The log is a ghost\<close>

definition erase_log :: "('w \<times> 'l) tapping_vars \<Rightarrow> 'w tapping_vars" where
  "erase_log t = \<lparr>tapping_key = tapping_key t, waiting_buffer = waiting_buffer t,
     waiting_buffer_head = waiting_buffer_head t, waiting_buffer_tail = waiting_buffer_tail t, tworld = fst (tworld t)\<rparr>"

lemma erase_log_simps [simp]:
  "tapping_key (erase_log t) = tapping_key t" "waiting_buffer (erase_log t) = waiting_buffer t"
  "waiting_buffer_head (erase_log t) = waiting_buffer_head t"
  "waiting_buffer_tail (erase_log t) = waiting_buffer_tail t" "tworld (erase_log t) = fst (tworld t)"
  "erase_log (t\<lparr>tapping_key := k\<rparr>) = (erase_log t)\<lparr>tapping_key := k\<rparr>"
  "erase_log (t\<lparr>waiting_buffer := b\<rparr>) = (erase_log t)\<lparr>waiting_buffer := b\<rparr>"
  "erase_log (t\<lparr>waiting_buffer_head := i\<rparr>) = (erase_log t)\<lparr>waiting_buffer_head := i\<rparr>"
  "erase_log (t\<lparr>waiting_buffer_tail := i\<rparr>) = (erase_log t)\<lparr>waiting_buffer_tail := i\<rparr>"
  "erase_log (t\<lparr>tworld := w\<rparr>) = (erase_log t)\<lparr>tworld := fst w\<rparr>"
  by (simp_all add: erase_log_def)

lemma logged_fields [simp]:
  "te_is_tap_record (logged e) r w = te_is_tap_record e r (fst w)"
  "fst (te_tap_hint (logged e) r w) = te_tap_hint e r (fst w)"
  "te_get_action (logged e) k w = te_get_action e k (fst w)"
  "fst (te_clear_keyboard (logged e) w) = te_clear_keyboard e (fst w)"
  "te_tapping_term (logged e) r w = te_tapping_term e r (fst w)"
  "te_quick_tap_term (logged e) r w = te_quick_tap_term e r (fst w)"
  "te_permissive_hold (logged e) r w = te_permissive_hold e r (fst w)"
  "te_hold_on_other (logged e) r w = te_hold_on_other e r (fst w)"
  by (cases w, simp add: logged_def)+

lemma erase_tests [simp]:
  "IS_TAPPING_RECORD r (erase_log t) = IS_TAPPING_RECORD r t"
  "waiting_buffer_typed ev (erase_log t) = waiting_buffer_typed ev t"
  "WITHIN_TAPPING_TERM (logged e) ev t = WITHIN_TAPPING_TERM e ev (erase_log t)"
  "WITHIN_QUICK_TAP_TERM (logged e) ev t = WITHIN_QUICK_TAP_TERM e ev (erase_log t)"
  "last_tap_release ev (erase_log t) = last_tap_release ev t"
  by (simp_all add: IS_TAPPING_RECORD_def waiting_buffer_typed_def WITHIN_TAPPING_TERM_def
      WITHIN_QUICK_TAP_TERM_def last_tap_release_def)

lemma is_tap_release_erase [simp]: "is_tap_release (logged e) t = is_tap_release e (erase_log t)"
  by (rule ext) (simp add: is_tap_release_def)

lemma erase_parts [simp]:
  "erase_log (process_tapping_key (logged e) t) = process_tapping_key e (erase_log t)"
  "fst (pass_record (logged e) r t) = fst (pass_record e r (erase_log t))"
  "erase_log (snd (pass_record (logged e) r t)) = snd (pass_record e r (erase_log t))"
  by (simp_all add: process_tapping_key_def pass_record_def split_beta)

lemma erase_settle [simp]: "erase_log (settle_hold (logged e) t) = settle_hold e (erase_log t)"
  by (simp add: settle_hold_def)

lemma erase_scan [simp]: "erase_log (waiting_buffer_scan_tap (logged e) t) = waiting_buffer_scan_tap e (erase_log t)"
  by (simp add: waiting_buffer_scan_tap_def split: option.split)

text \<open>\<open>erased q q'\<close>: the same result up to the log.\<close>

definition erased ::
    "bool \<times> keyrecord_t \<times> ('w \<times> 'l) tapping_vars \<Rightarrow> bool \<times> keyrecord_t \<times> 'w tapping_vars \<Rightarrow> bool" where
  "erased q q' \<longleftrightarrow> (case q of (d, r, t) \<Rightarrow> q' = (d, r, erase_log t))"

lemma erased_branches:
  "erased (process_reset (logged e) r t) (process_reset e r (erase_log t))"
  "erased (process_undecided (logged e) r t) (process_undecided e r (erase_log t))"
  "erased (process_tapped (logged e) keep r t) (process_tapped e keep r (erase_log t))"
  "erased (process_released (logged e) r t) (process_released e r (erase_log t))"
proof -
  show "erased (process_reset (logged e) r t) (process_reset e r (erase_log t))"
    by (simp add: erased_def process_reset_def Let_def split_beta)
  show "erased (process_tapped (logged e) keep r t) (process_tapped e keep r (erase_log t))"
    by (simp add: erased_def process_tapped_def Let_def split_beta)
  show "erased (process_released (logged e) r t) (process_released e r (erase_log t))"
    by (simp add: erased_def process_released_def Let_def split_beta)
  have "tapping_key (process_tapping_key (logged e) t) = tapping_key (process_tapping_key e (erase_log t))" for t :: "('a \<times> keyevent_t list) tapping_vars"
    by (metis erase_log_simps(1) erase_parts(1))
  then show "erased (process_undecided (logged e) r t) (process_undecided e r (erase_log t))"
    by (simp add: erased_def process_undecided_def Let_def split_beta)
qed

lemma erased_process_tapping: "erased (process_tapping (logged e) r t) (process_tapping e r (erase_log t))"
  using erased_branches [where e = e and r = r and t = t] by (simp add: process_tapping_def) (simp add: erased_def)

lemma erase_waiting_buffer:
  "erase_log (process_waiting_buffer (logged e) is t) = process_waiting_buffer e is (erase_log t)"
proof (induction "is" arbitrary: t)
  case (Cons i "is")
  then show ?case
    using erased_process_tapping [of e "waiting_buffer t ! i" t]
    by (simp add: erased_def Let_def split: prod.splits)
qed simp

lemma erase_enq:
  "waiting_buffer_enq r (erase_log t) = (fst (waiting_buffer_enq r t), erase_log (snd (waiting_buffer_enq r t)))"
  by (simp add: waiting_buffer_enq_def)

lemma erase_overflow: "erase_log (tapping_overflow (logged e) t) = tapping_overflow e (erase_log t)"
  by (simp add: tapping_overflow_def waiting_buffer_clear_def)

lemma tapping_overflow_empty [simp]:
  "waiting_buffer_head (tapping_overflow e t) = 0" "waiting_buffer_tail (tapping_overflow e t) = 0"
  by (simp_all add: tapping_overflow_def waiting_buffer_clear_def)

lemma erase_action_tapping:
  "erase_log (action_tapping_process (logged e) r t) = action_tapping_process e r (erase_log t)"
proof -
  obtain d r' t1 where step: "process_tapping (logged e) r t = (d, r', t1)"
    by (metis prod_cases3)
  then have "process_tapping e r (erase_log t) = (d, r', erase_log t1)"
    using erased_process_tapping [of e r t] by (simp add: erased_def)
  then show ?thesis
    by (simp add: action_tapping_process_def step Let_def erase_waiting_buffer erase_enq erase_overflow split_beta)
qed

section \<open>The tapping machine over the actions\<close>

record 'h tapping_config = "'h actions_config" +
  get_tapping_term :: "u16 \<Rightarrow> keyrecord_t \<Rightarrow> u16"
  get_quick_tap_term :: "u16 \<Rightarrow> keyrecord_t \<Rightarrow> u16"
  get_permissive_hold :: "u16 \<Rightarrow> keyrecord_t \<Rightarrow> bool"
  HOLD_ON_OTHER_KEY_PRESS :: bool
  pre_process_record_quantum :: "keyrecord_t \<Rightarrow> 'h action_vars_scheme \<Rightarrow> bool \<times> 'h action_vars_scheme"

text \<open>\<open>get_record_keycode(record, false)\<close>: without \<open>COMBO_ENABLE\<close> the keycode of the event; it changes no state.\<close>

definition get_record_keycode :: "('c) layer_config_scheme \<Rightarrow> keyrecord_t \<Rightarrow> ('s) layer_vars_scheme \<Rightarrow> u16" where
  "get_record_keycode cf r s = fst (get_event_keycode cf (event r) False s)"

definition actions_env :: "('h, 'c) tapping_config_scheme \<Rightarrow> 'h action_vars_scheme tapping_env" where
  "actions_env cf = \<lparr>te_process_record = process_record cf,
     te_is_tap_record = is_tap_record cf,
     te_tap_hint = process_record_tap_hint cf,
     te_get_action = (\<lambda>k s. layer_switch_get_action cf s k),
     te_clear_keyboard = clear_keyboard cf,
     te_tapping_term = (\<lambda>r s. get_tapping_term cf (get_record_keycode cf r s) r),
     te_quick_tap_term = (\<lambda>r s. get_quick_tap_term cf (get_record_keycode cf r s) r),
     te_permissive_hold = (\<lambda>r s. get_permissive_hold cf (get_record_keycode cf r s) r),
     te_hold_on_other = (\<lambda>r s. if HOLD_ON_OTHER_KEY_PRESS_PER_KEY cf
       then get_hold_on_other_key_press cf (get_record_keycode cf r s) r else HOLD_ON_OTHER_KEY_PRESS cf)\<rparr>"

definition action_exec ::
    "('h, 'c) tapping_config_scheme \<Rightarrow> keyevent_t \<Rightarrow> 'h action_vars_scheme tapping_vars \<Rightarrow> 'h action_vars_scheme tapping_vars" where
  "action_exec cf ev t =
    (let (r, s) = action_exec_prepare cf ev (tworld t);
         (go_on, s) = (if IS_NOEVENT (event r) then (True, s) else pre_process_record_quantum cf r s);
         t = t\<lparr>tworld := s\<rparr>
     in if go_on then action_tapping_process (actions_env cf) r t else t)"

text \<open>How the action code changes the record.\<close>

lemma process_mods_tap_record:
  "\<not> HOLD_ON_OTHER_KEY_PRESS_PER_KEY cf \<Longrightarrow> fst (process_mods_tap cf r a s) = r"
  by (simp add: process_mods_tap_def Let_def)

lemma process_swap_hands_record: "fst (process_swap_hands cf r a s) \<in> {r, empty_record}"
  by (simp add: process_swap_hands_def Let_def)

lemma action_switch_record:
  "\<not> HOLD_ON_OTHER_KEY_PRESS_PER_KEY cf \<Longrightarrow> fst (action_switch cf r a b s) \<in> {r, empty_record}"
  using process_swap_hands_record [of cf r a s] process_mods_tap_record [of cf r a s]
  by (simp add: action_switch_def Let_def split_beta)

lemma process_action_body_record:
  "\<not> HOLD_ON_OTHER_KEY_PRESS_PER_KEY cf \<Longrightarrow> fst (process_action_body cf r a s) \<in> {r, empty_record}"
  using action_switch_record [of cf r a]
  by (simp add: process_action_body_def Let_def split_beta)

lemma empty_record_released [simp]:
  "empty_record\<lparr>event := (event empty_record)\<lparr>ev_pressed := False\<rparr>\<rparr> = empty_record"
  by (simp add: empty_record_def MAKE_TICK_EVENT_def MAKE_EVENT_def)

lemma record_outcome_release:
  "r' \<in> {r, empty_record} \<Longrightarrow> record_outcome (r'\<lparr>event := (event r')\<lparr>ev_pressed := False\<rparr>\<rparr>) q \<Longrightarrow> record_outcome r q"
  by (auto simp: record_outcome_def)

lemma process_record_outcome:
  "\<not> HOLD_ON_OTHER_KEY_PRESS_PER_KEY cf \<Longrightarrow> record_outcome r (fst (process_record cf r s))"
proof (induction cf r s rule: process_record.induct)
  case (1 cf r s)
  have refl: "record_outcome r r"
    by (simp add: record_outcome_def)
  show ?case
  proof (cases "IS_NOEVENT (event r) \<or> \<not> fst (process_record_quantum cf r s)")
    case True
    then show ?thesis
      using refl by (subst process_record.simps) (auto simp: split_beta Let_def)
  next
    case False
    define s1 where "s1 = snd (process_record_quantum cf r s)"
    define a s2 where "a = fst (store_or_get_action cf (ev_pressed (event r)) (ev_key (event r)) s1)"
      and "s2 = snd (store_or_get_action cf (ev_pressed (event r)) (ev_key (event r)) s1)"
    define q where "q = process_action_body cf r a s2"
    have q: "fst q \<in> {r, empty_record}"
      unfolding q_def by (rule process_action_body_record [OF "1.prems"])
    show ?thesis
    proof (cases "fst (snd q) \<and> ev_pressed (event r)")
      case True
      have "record_outcome ((fst q)\<lparr>event := (event (fst q))\<lparr>ev_pressed := False\<rparr>\<rparr>)
        (fst (process_record cf ((fst q)\<lparr>event := (event (fst q))\<lparr>ev_pressed := False\<rparr>\<rparr>)
          (layer_on cf (get_oneshot_layer (snd (snd q))) (snd (snd q)))))"
        by (rule "1.IH") (use False True in \<open>auto simp: "1.prems" s1_def a_def s2_def q_def prod_eq_iff\<close>)
      then have "record_outcome r (fst (process_record cf ((fst q)\<lparr>event := (event (fst q))\<lparr>ev_pressed := False\<rparr>\<rparr>)
          (layer_on cf (get_oneshot_layer (snd (snd q))) (snd (snd q)))))"
        by (rule record_outcome_release [OF q])
      then show ?thesis
        using False True
        by (subst process_record.simps) (auto simp: split_beta Let_def s1_def a_def s2_def q_def)
    next
      case no: False
      have "record_outcome r (fst q)"
        using q by (auto simp: record_outcome_def)
      then show ?thesis
        using False no
        by (subst process_record.simps) (auto simp: split_beta Let_def s1_def a_def s2_def q_def)
    qed
  qed
qed

text \<open>
  The action code meets the contract when a tap-hold key does not take its decision back, that is without
  \<open>HOLD_ON_OTHER_KEY_PRESS_PER_KEY\<close>.
\<close>

interpretation actions: record_processor "actions_env (cf\<lparr>HOLD_ON_OTHER_KEY_PRESS_PER_KEY := False\<rparr>)" for cf
  by unfold_locales
    (simp_all add: actions_env_def process_record_outcome is_tap_record_def IS_EVENT_iff split: if_splits)

section \<open>A recording environment\<close>

text \<open>
  To watch the decisions of the machine: keys in \<open>taps\<close> are dual-role keys, the settings are constants,
  and the world is the list of the processed records (position, press or release, tap count).
\<close>

definition trace_env :: "u16 \<Rightarrow> bool \<Rightarrow> bool \<Rightarrow> keypos_t set \<Rightarrow> (keypos_t \<times> bool \<times> u8) list tapping_env" where
  "trace_env term permissive hold taps = \<lparr>
     te_process_record = (\<lambda>r l. (r, l @ [(ev_key (event r), ev_pressed (event r), tap_count r)])),
     te_is_tap_record = (\<lambda>r l. IS_EVENT (event r) \<and> ev_key (event r) \<in> taps),
     te_tap_hint = (\<lambda>r l. l), te_get_action = (\<lambda>k l. 0), te_clear_keyboard = id,
     te_tapping_term = (\<lambda>r l. term), te_quick_tap_term = (\<lambda>r l. term),
     te_permissive_hold = (\<lambda>r l. permissive), te_hold_on_other = (\<lambda>r l. hold)\<rparr>"

definition key_at :: "keypos_t \<Rightarrow> bool \<Rightarrow> u16 \<Rightarrow> keyrecord_t" where
  "key_at k p t = record_of_event \<lparr>ev_key = k, ev_time = t, ev_type = KEY_EVENT, ev_pressed = p\<rparr>"

definition tick_at :: "u16 \<Rightarrow> keyrecord_t" where
  "tick_at t = record_of_event (MAKE_TICK_EVENT t)"

definition processed ::
    "(keypos_t \<times> bool \<times> u8) list tapping_env \<Rightarrow> keyrecord_t list \<Rightarrow> (keypos_t \<times> bool \<times> u8) list" where
  "processed e rs = tworld (fold (action_tapping_process e) rs (initial_tapping []))"

interpretation trace: record_processor "trace_env term permissive hold taps" for "term" permissive hold taps
  by unfold_locales (simp_all add: trace_env_def record_outcome_def)

lemma key_at_simps [simp]:
  "event (key_at k p t) = \<lparr>ev_key = k, ev_time = t, ev_type = KEY_EVENT, ev_pressed = p\<rparr>"
  "tap_count (key_at k p t) = 0" "\<not> tap_interrupted (key_at k p t)"
  "IS_NOEVENT (event (tick_at t))" "ev_time (event (tick_at t)) = t" "\<not> ev_pressed (event (tick_at t))"
  by (simp_all add: key_at_def tick_at_def MAKE_TICK_EVENT_def MAKE_EVENT_def IS_NOEVENT_def)

lemma key_event [simp]: "IS_EVENT \<lparr>ev_key = k, ev_time = t, ev_type = KEY_EVENT, ev_pressed = p\<rparr>"
  "\<not> IS_NOEVENT \<lparr>ev_key = k, ev_time = t, ev_type = KEY_EVENT, ev_pressed = p\<rparr>"
  by (simp_all add: IS_EVENT_def IS_NOEVENT_def)

lemmas tapping_defs = action_tapping_process_def process_tapping_def process_reset_def process_undecided_def
  process_tapped_def process_released_def pass_record_def process_tapping_key_def settle_hold_def
  waiting_buffer_scan_tap_def waiting_buffer_enq_def waiting_buffer_typed_def is_tap_release_def
  WITHIN_TAPPING_TERM_def WITHIN_QUICK_TAP_TERM_def IS_TAPPING_RECORD_def copy_tap_def TIMER_DIFF_16_def
  initial_tapping_def

lemma waiting_indices_small [simp]:
  "waiting_indices 0 (Suc 0) = [0]" "waiting_indices 0 (Suc (Suc 0)) = [0, Suc 0]"
  "waiting_indices (Suc 0) (Suc (Suc 0)) = [Suc 0]" "waiting_indices 0 (Suc (Suc (Suc 0))) = [0, Suc 0, Suc (Suc 0)]"
  "waiting_indices (Suc 0) (Suc (Suc (Suc 0))) = [Suc 0, Suc (Suc 0)]"
  "waiting_indices (Suc (Suc 0)) (Suc (Suc (Suc 0))) = [Suc (Suc 0)]"
  by (simp_all add: waiting_indices_def upt_rec)

section \<open>Properties\<close>

text \<open>
  (C3) The tapping key is down or tapped, a press in the waiting buffer has no tap count, the indices stay
  inside the buffer and the counter below 16, whatever records arrive.
\<close>

theorem tapping_invariant:
  assumes "\<not> HOLD_ON_OTHER_KEY_PRESS_PER_KEY cf" "tapping_inv t" "fresh r"
  shows "tapping_inv (action_tapping_process (actions_env cf) r t)"
proof -
  have "cf\<lparr>HOLD_ON_OTHER_KEY_PRESS_PER_KEY := False\<rparr> = cf"
    using assms(1) by (cases cf) simp
  then show ?thesis
    using actions.action_tapping_inv [OF assms(2,3), of cf] by simp
qed

text \<open>
  (C4) While the buffer has room no event is lost and no press is doubled: what was processed, plus what
  waits, is what arrived, up to extra releases.  The log that counts the events is a ghost: without it the
  machine is the one of the code.
\<close>

theorem no_press_lost:
  fixes cf :: "('h, 'c) tapping_config_scheme"
  assumes "\<not> HOLD_ON_OTHER_KEY_PRESS_PER_KEY cf" "tapping_inv t" "fresh r"
    and "length (waiting_records t) < WAITING_BUFFER_SIZE - 1"
  defines "t' \<equiv> action_tapping_process (logged (actions_env cf)) r t"
  shows "erase_log t' = action_tapping_process (actions_env cf) r (erase_log t) \<and>
    all_events t + event_of r \<subseteq># all_events t' \<and>
    filter_mset ev_pressed (all_events t') = filter_mset ev_pressed (all_events t + event_of r)"
proof -
  have "cf\<lparr>HOLD_ON_OTHER_KEY_PRESS_PER_KEY := False\<rparr> = cf"
    using assms(1) by (cases cf) simp
  then show ?thesis
    using actions.action_tapping_accounts [OF assms(2-4), of cf] erase_action_tapping
    by (simp add: no_loss_def t'_def)
qed

text \<open>
  (C31) A key pressed while seven records wait behind an undecided key clears the keyboard and drops
  everything, the pressed key and the undecided key with it.
\<close>

theorem full_buffer_clears_all:
  assumes "buffer_ok t" "length (waiting_records t) = WAITING_BUFFER_SIZE - 1"
    and "\<not> IS_NOEVENT (event (tapping_key t))" "ev_pressed (event (tapping_key t))" "tap_count (tapping_key t) = 0"
    and "\<not> IS_NOEVENT (event r)" "ev_pressed (event r)" "WITHIN_TAPPING_TERM e (event r) t"
    and "\<And>k w. \<not> te_hold_on_other e k w"
  shows "tapping_key (action_tapping_process e r t) = empty_record \<and>
    waiting_records (action_tapping_process e r t) = [] \<and>
    tworld (action_tapping_process e r t) = te_clear_keyboard e (tworld t)"
proof -
  define t1 where "t1 = t\<lparr>tapping_key := (tapping_key t)\<lparr>tap_interrupted := True\<rparr>\<rparr>"
  have "process_tapping e r t = (False, r, t1)"
    using assms(3-9) by (simp add: process_tapping_def process_undecided_def t1_def Let_def)
  moreover have "waiting_buffer_enq r t1 = (False, t1)"
    using assms(1,2,6) waiting_full_iff [of t] by (simp add: waiting_buffer_enq_def t1_def buffer_ok_def)
  ultimately have "action_tapping_process e r t = tapping_overflow e t1"
    by (simp add: action_tapping_process_def Let_def)
  then show ?thesis
    by (simp add: tapping_overflow_def waiting_buffer_clear_def waiting_records_def t1_def)
qed

text \<open>
  Without dual-role keys the machine is transparent: it processes every event at once, in order.
\<close>

theorem no_tap_keys_transparent:
  assumes "\<And>r w. \<not> te_is_tap_record e r w"
    and "IS_NOEVENT (event (tapping_key t))" "waiting_buffer_head t = waiting_buffer_tail t"
  shows "fold (action_tapping_process e) rs t =
    t\<lparr>tworld := fold (\<lambda>r w. if IS_EVENT (event r) then snd (te_process_record e r w) else w) rs (tworld t)\<rparr>"
  using assms(2,3)
proof (induction rs arbitrary: t)
  case (Cons r rs)
  have "action_tapping_process e r t =
      t\<lparr>tworld := (if IS_EVENT (event r) then snd (te_process_record e r (tworld t)) else tworld t)\<rparr>"
    using assms(1) Cons.prems
    by (simp add: action_tapping_process_def process_tapping_def process_reset_def pass_record_def Let_def split_beta)
  then show ?case
    using Cons.IH [of "action_tapping_process e r t"] Cons.prems by simp
qed simp

text \<open>
  (C6) Tap or hold.  Alone, a dual-role key released within the tapping term is a tap, and held for the
  term a hold, decided by the first tick.  With another key: pressed and released in between it makes a
  hold under permissive hold and decides nothing otherwise; pressed, it makes a hold under hold on other
  key press, and otherwise releasing the dual-role key first makes a tap, followed by the other key.
\<close>

theorem tap_or_hold:
  assumes "a \<in> taps" "b \<notin> taps" "soon - start < T" "later - start < T" "\<not> late - start < T"
  shows "processed (trace_env T p h taps) [key_at a True start, key_at a False soon] = [(a, True, 1), (a, False, 1)] \<and>
    processed (trace_env T p h taps) [key_at a True start, tick_at soon] = [] \<and>
    processed (trace_env T p h taps) [key_at a True start, tick_at late] = [(a, True, 0)] \<and>
    processed (trace_env T p False taps) [key_at a True start, key_at b True soon, key_at b False later] =
      (if p then [(a, True, 0), (b, True, 0), (b, False, 0)] else []) \<and>
    processed (trace_env T p True taps) [key_at a True start, key_at b True soon] = [(a, True, 0), (b, True, 0)] \<and>
    processed (trace_env T p False taps) [key_at a True start, key_at b True soon, key_at a False later] =
      [(a, True, 1), (b, True, 0), (a, False, 1)]"
proof -
  have ab: "a \<noteq> b" "b \<noteq> a"
    using assms(1,2) by auto
  note defs = tapping_defs processed_def Let_def split_beta trace_env_def
  have "processed (trace_env T p h taps) [key_at a True start, key_at a False soon] = [(a, True, 1), (a, False, 1)]"
    using assms ab by (simp add: defs)
  moreover have "processed (trace_env T p h taps) [key_at a True start, tick_at soon] = []"
    using assms ab by (simp add: defs)
  moreover have "processed (trace_env T p h taps) [key_at a True start, tick_at late] = [(a, True, 0)]"
    using assms ab by (simp add: defs)
  moreover have "processed (trace_env T p False taps) [key_at a True start, key_at b True soon, key_at b False later] =
      (if p then [(a, True, 0), (b, True, 0), (b, False, 0)] else [])"
    using assms ab by (cases p) (simp_all add: defs)
  moreover have "processed (trace_env T p True taps) [key_at a True start, key_at b True soon] = [(a, True, 0), (b, True, 0)]"
    using assms ab by (simp add: defs)
  moreover have "processed (trace_env T p False taps) [key_at a True start, key_at b True soon, key_at a False later] =
      [(a, True, 1), (b, True, 0), (a, False, 1)]"
    using assms ab by (simp add: defs)
  ultimately show ?thesis
    by blast
qed

theorem tap_or_hold_witness:
  "processed (trace_env 200 True False {\<lparr>kp_col = 0, kp_row = 0\<rparr>})
     [key_at \<lparr>kp_col = 0, kp_row = 0\<rparr> True 65500, key_at \<lparr>kp_col = 0, kp_row = 0\<rparr> False 50] =
     [(\<lparr>kp_col = 0, kp_row = 0\<rparr>, True, 1), (\<lparr>kp_col = 0, kp_row = 0\<rparr>, False, 1)]"
  by (rule tap_or_hold [where a = "\<lparr>kp_col = 0, kp_row = 0\<rparr>" and b = "\<lparr>kp_col = 1, kp_row = 0\<rparr>" and
      soon = 50 and later = 60 and late = 500, THEN conjunct1]) simp_all

text \<open>
  The order of events is not always kept.  Two dual-role keys go down in one scan, and two plain keys
  in the first scan at the end of the tapping term: settling the second dual-role key leaves the first
  plain key in the buffer with the machine already reset, and the second plain key is processed before it.
\<close>

theorem plain_keys_overtake:
  assumes "{a, b} \<subseteq> taps" "{x, y} \<inter> taps = {}" "distinct [a, b]" "distinct [x, y]"
    and "\<not> late - start < T" "0 < T"
  shows "processed (trace_env T p False taps)
      [key_at a True start, key_at b True start, key_at x True late, key_at y True late] =
    [(a, True, 0), (b, True, 0), (y, True, 0), (x, True, 0)]"
proof -
  have "a \<in> taps" "b \<in> taps" "x \<notin> taps" "y \<notin> taps" "a \<noteq> b" "x \<noteq> y"
    "a \<noteq> x" "a \<noteq> y" "b \<noteq> x" "b \<noteq> y" "b \<noteq> a" "y \<noteq> x"
    using assms(1-4) by auto
  then show ?thesis
    using assms(5,6) by (simp add: tapping_defs processed_def Let_def split_beta trace_env_def)
qed

theorem plain_keys_overtake_witness:
  "processed (trace_env 200 True False {\<lparr>kp_col = 0, kp_row = 0\<rparr>, \<lparr>kp_col = 1, kp_row = 0\<rparr>})
     [key_at \<lparr>kp_col = 0, kp_row = 0\<rparr> True 10, key_at \<lparr>kp_col = 1, kp_row = 0\<rparr> True 10,
      key_at \<lparr>kp_col = 0, kp_row = 1\<rparr> True 210, key_at \<lparr>kp_col = 1, kp_row = 1\<rparr> True 210] =
     [(\<lparr>kp_col = 0, kp_row = 0\<rparr>, True, 0), (\<lparr>kp_col = 1, kp_row = 0\<rparr>, True, 0),
      (\<lparr>kp_col = 1, kp_row = 1\<rparr>, True, 0), (\<lparr>kp_col = 0, kp_row = 1\<rparr>, True, 0)]"
  by (rule plain_keys_overtake) simp_all

definition example_tapping_config :: "unit tapping_config" where
  "example_tapping_config = actions_config.extend example_actions_config
     \<lparr>get_tapping_term = (\<lambda>_ _. 200), get_quick_tap_term = (\<lambda>_ _. 200), get_permissive_hold = (\<lambda>_ _. True),
      HOLD_ON_OTHER_KEY_PRESS = False, pre_process_record_quantum = (\<lambda>r s. (True, s))\<rparr>"

lemma initial_tapping_inv [simp]: "tapping_inv (initial_tapping w)" "waiting_records (initial_tapping w) = []"
  by (simp_all add: initial_tapping_def tapping_inv_def buffer_ok_def waiting_records_def)

lemma fresh_key_at [simp]: "fresh (key_at k p t)"
  by (simp add: fresh_def tick_ok_def)

lemma example_tapping_hold: "\<not> HOLD_ON_OTHER_KEY_PRESS_PER_KEY example_tapping_config"
  by (simp add: example_tapping_config_def actions_config.extend_def actions_example)

theorem tapping_invariant_witness:
  "tapping_inv (action_tapping_process (actions_env example_tapping_config)
     (key_at \<lparr>kp_col = 1, kp_row = 0\<rparr> True 5) (initial_tapping example_action_vars))"
  by (rule tapping_invariant [OF example_tapping_hold]) simp_all

theorem no_press_lost_witness:
  "all_events (initial_tapping (example_action_vars, [])) + event_of (key_at \<lparr>kp_col = 1, kp_row = 0\<rparr> True 5) \<subseteq>#
     all_events (action_tapping_process (logged (actions_env example_tapping_config))
       (key_at \<lparr>kp_col = 1, kp_row = 0\<rparr> True 5) (initial_tapping (example_action_vars, [])))"
  by (rule no_press_lost [OF example_tapping_hold, THEN conjunct2, THEN conjunct1]) simp_all

text \<open>Seven keys wait behind a dual-role key; the eighth overflows the buffer.\<close>

definition full_tapping :: "(keypos_t \<times> bool \<times> u8) list tapping_vars" where
  "full_tapping = \<lparr>tapping_key = key_at \<lparr>kp_col = 0, kp_row = 0\<rparr> True 10,
     waiting_buffer = map (\<lambda>i. key_at \<lparr>kp_col = of_nat i, kp_row = 1\<rparr> True 20) [0..<8],
     waiting_buffer_head = 7, waiting_buffer_tail = 0, tworld = []\<rparr>"

theorem full_buffer_clears_all_witness:
  "waiting_records (action_tapping_process (trace_env 200 True False {\<lparr>kp_col = 0, kp_row = 0\<rparr>})
     (key_at \<lparr>kp_col = 7, kp_row = 1\<rparr> True 30) full_tapping) = []"
  by (rule full_buffer_clears_all [THEN conjunct2, THEN conjunct1])
    (simp_all add: full_tapping_def buffer_ok_def waiting_records_def length_waiting_indices WITHIN_TAPPING_TERM_def
      TIMER_DIFF_16_def trace_env_def)

theorem no_tap_keys_transparent_witness:
  "tworld (fold (action_tapping_process (trace_env 200 True False {}))
     [key_at \<lparr>kp_col = 7, kp_row = 1\<rparr> True 30, tick_at 31] (initial_tapping [])) =
     [(\<lparr>kp_col = 7, kp_row = 1\<rparr>, True, 0)]"
  by (subst no_tap_keys_transparent) (simp_all add: initial_tapping_def trace_env_def IS_EVENT_iff)

end
