(* ===== verification/WearLog.thy ===== *)
theory WearLog
  imports Prelude
begin

text \<open>
  quantum/wear_leveling/wear_leveling_internal.h: the entries of the write log, for two-byte backing
  stores (\<open>BACKING_STORE_WRITE_SIZE\<close> 2, the only size with all three encodings), and lib/fnv/hash_64a.c,
  the hash that guards the consolidated data.  An entry is a union of eight bytes and four little-endian
  half words; the model keeps the bytes and reads the half words from them.
\<close>

section \<open>Half words in memory\<close>

definition le16 :: "u8 \<Rightarrow> u8 \<Rightarrow> u16" where
  "le16 lo hi = ucast lo OR push_bit 8 (ucast hi)"

definition lo8 :: "u16 \<Rightarrow> u8" where
  "lo8 w = ucast w"

definition hi8 :: "u16 \<Rightarrow> u8" where
  "hi8 w = ucast (drop_bit 8 w)"

text \<open>An array of half words over an array of bytes, and back.\<close>

fun words_of_bytes :: "u8 list \<Rightarrow> u16 list" where
  "words_of_bytes (lo # hi # bs) = le16 lo hi # words_of_bytes bs"
| "words_of_bytes [b] = []"
| "words_of_bytes [] = []"

definition bytes_of_words :: "u16 list \<Rightarrow> u8 list" where
  "bytes_of_words ws = concat (map (\<lambda>w. [lo8 w, hi8 w]) ws)"

lemma le16_halves [simp]: "lo8 (le16 a b) = a" "hi8 (le16 a b) = b" "le16 (lo8 w) (hi8 w) = w"
proof -
  show "lo8 (le16 a b) = a"
    by (rule bit_word_eqI) (auto simp: le16_def lo8_def bit_simps)
  show "hi8 (le16 a b) = b"
    by (rule bit_word_eqI) (auto simp: le16_def hi8_def bit_simps dest: bit_imp_le_length)
  show "le16 (lo8 w) (hi8 w) = w"
  proof (rule bit_word_eqI)
    fix n
    assume "n < LENGTH(16)"
    then show "bit (le16 (lo8 w) (hi8 w)) n = bit w n"
      by (cases "n < 8") (auto simp: le16_def lo8_def hi8_def bit_simps)
  qed
qed

lemma words_of_bytes_of_words [simp]: "words_of_bytes (bytes_of_words ws) = ws"
  by (induction ws) (simp_all add: bytes_of_words_def)

lemma bytes_of_words_of_bytes: "even (length bs) \<Longrightarrow> bytes_of_words (words_of_bytes bs) = bs"
  by (induction bs rule: words_of_bytes.induct) (simp_all add: bytes_of_words_def)

lemma length_words_of_bytes: "length (words_of_bytes bs) = length bs div 2"
  by (induction bs rule: words_of_bytes.induct) simp_all

lemma length_bytes_of_words [simp]: "length (bytes_of_words ws) = 2 * length ws"
  by (induction ws) (simp_all add: bytes_of_words_def)

section \<open>The hash\<close>

abbreviation FNV1A_64_INIT :: u64 where "FNV1A_64_INIT \<equiv> 0xcbf29ce484222325"
abbreviation FNV_64_PRIME :: u64 where "FNV_64_PRIME \<equiv> 0x100000001b3"

text \<open>One octet: the shifts and additions that stand for the multiplication by the prime.\<close>

definition fnv_64a_octet :: "u64 \<Rightarrow> u8 \<Rightarrow> u64" where
  "fnv_64a_octet hval b =
    (let hval = hval XOR ucast b
     in hval + (push_bit 1 hval + push_bit 4 hval + push_bit 5 hval + push_bit 7 hval + push_bit 8 hval +
          push_bit 40 hval))"

definition fnv_64a_buf :: "u8 list \<Rightarrow> u64 \<Rightarrow> u64" where
  "fnv_64a_buf buf hval = fold (\<lambda>b h. fnv_64a_octet h b) buf hval"

definition u64_words :: "u64 \<Rightarrow> u16 list" where
  "u64_words v = map (\<lambda>i. ucast (drop_bit (16 * i) v)) [0..<4]"

lemma u64_words_inject: "u64_words v = u64_words w \<longleftrightarrow> v = w"
proof
  assume eq: "u64_words v = u64_words w"
  have part: "(ucast (drop_bit (16 * i) v) :: u16) = ucast (drop_bit (16 * i) w)" if "i < 4" for i
    using eq that unfolding u64_words_def by (metis (no_types, lifting) map_eq_conv atLeast_upt lessThan_iff)
  show "v = w"
  proof (rule bit_word_eqI)
    fix n
    assume "n < LENGTH(64)"
    then have "n div 16 < 4" "n mod 16 < 16"
      by auto
    then have "bit (ucast (drop_bit (16 * (n div 16)) v) :: u16) (n mod 16) =
        bit (ucast (drop_bit (16 * (n div 16)) w) :: u16) (n mod 16)"
      using part by simp
    then show "bit v n = bit w n"
      by (simp add: bit_simps)
  qed
qed simp

lemma length_u64_words [simp]: "length (u64_words v) = 4"
  by (simp add: u64_words_def)

text \<open>
  The shifts and additions of the hash are the multiplication by the FNV prime, modulo \<open>2 ^ 64\<close>.
\<close>

theorem fnv_octet_multiplies: "fnv_64a_octet hval b = (hval XOR ucast b) * FNV_64_PRIME"
  by (simp add: fnv_64a_octet_def Let_def push_bit_eq_mult algebra_simps)

section \<open>Log entries\<close>

definition BITMASK_FOR_BITCOUNT :: "nat \<Rightarrow> 'a::len word" where
  "BITMASK_FOR_BITCOUNT n = push_bit n 1 - 1"

lemma BITMASK_mask: "BITMASK_FOR_BITCOUNT n = mask n"
  by (simp add: BITMASK_FOR_BITCOUNT_def mask_eq_decr_exp)

type_synonym write_log_entry_t = "u8 list"

definition raw16 :: "write_log_entry_t \<Rightarrow> nat \<Rightarrow> u16" where
  "raw16 log i = le16 (log ! (2 * i)) (log ! (2 * i + 1))"

abbreviation LOG_ENTRY_TYPE_MULTIBYTE :: u8 where "LOG_ENTRY_TYPE_MULTIBYTE \<equiv> 0"
abbreviation LOG_ENTRY_TYPE_OPTIMIZED_64 :: u8 where "LOG_ENTRY_TYPE_OPTIMIZED_64 \<equiv> 1"
abbreviation LOG_ENTRY_TYPE_WORD_01 :: u8 where "LOG_ENTRY_TYPE_WORD_01 \<equiv> 2"
abbreviation LOG_ENTRY_MULTIBYTE_MAX_BYTES :: nat where "LOG_ENTRY_MULTIBYTE_MAX_BYTES \<equiv> 5"

definition LOG_ENTRY_GET_TYPE :: "write_log_entry_t \<Rightarrow> u8" where
  "LOG_ENTRY_GET_TYPE log = drop_bit 6 (log ! 0) AND BITMASK_FOR_BITCOUNT 2"

definition LOG_ENTRY_MULTIBYTE_GET_ADDRESS :: "write_log_entry_t \<Rightarrow> u32" where
  "LOG_ENTRY_MULTIBYTE_GET_ADDRESS log =
     push_bit 16 (ucast (log ! 0) AND BITMASK_FOR_BITCOUNT 3) OR push_bit 8 (ucast (log ! 1)) OR ucast (log ! 2)"

definition LOG_ENTRY_MULTIBYTE_GET_LENGTH :: "write_log_entry_t \<Rightarrow> u8" where
  "LOG_ENTRY_MULTIBYTE_GET_LENGTH log = drop_bit 3 (log ! 0) AND BITMASK_FOR_BITCOUNT 3"

definition LOG_ENTRY_MAKE_MULTIBYTE :: "u32 \<Rightarrow> nat \<Rightarrow> write_log_entry_t" where
  "LOG_ENTRY_MAKE_MULTIBYTE address len =
    [push_bit 6 (LOG_ENTRY_TYPE_MULTIBYTE AND BITMASK_FOR_BITCOUNT 2)
       OR push_bit 3 (of_nat len AND BITMASK_FOR_BITCOUNT 3)
       OR (ucast (drop_bit 16 address) AND BITMASK_FOR_BITCOUNT 3),
     ucast (drop_bit 8 address) AND BITMASK_FOR_BITCOUNT 8,
     ucast address AND BITMASK_FOR_BITCOUNT 8, 0, 0, 0, 0, 0]"

definition LOG_ENTRY_OPTIMIZED_64_GET_ADDRESS :: "write_log_entry_t \<Rightarrow> u32" where
  "LOG_ENTRY_OPTIMIZED_64_GET_ADDRESS log = ucast (log ! 0 AND BITMASK_FOR_BITCOUNT 6)"

definition LOG_ENTRY_OPTIMIZED_64_GET_VALUE :: "write_log_entry_t \<Rightarrow> u8" where
  "LOG_ENTRY_OPTIMIZED_64_GET_VALUE log = log ! 1"

definition LOG_ENTRY_MAKE_OPTIMIZED_64 :: "u32 \<Rightarrow> u8 \<Rightarrow> write_log_entry_t" where
  "LOG_ENTRY_MAKE_OPTIMIZED_64 address v =
    [push_bit 6 (LOG_ENTRY_TYPE_OPTIMIZED_64 AND BITMASK_FOR_BITCOUNT 2)
       OR (ucast address AND BITMASK_FOR_BITCOUNT 6), v, 0, 0, 0, 0, 0, 0]"

definition LOG_ENTRY_WORD_01_GET_ADDRESS :: "write_log_entry_t \<Rightarrow> u32" where
  "LOG_ENTRY_WORD_01_GET_ADDRESS log =
     push_bit 9 (ucast (log ! 0 AND BITMASK_FOR_BITCOUNT 5)) OR push_bit 1 (ucast (log ! 1))"

definition LOG_ENTRY_WORD_01_GET_VALUE :: "write_log_entry_t \<Rightarrow> u8" where
  "LOG_ENTRY_WORD_01_GET_VALUE log = drop_bit 5 (log ! 0) AND BITMASK_FOR_BITCOUNT 1"

definition LOG_ENTRY_MAKE_WORD_01 :: "u32 \<Rightarrow> u16 \<Rightarrow> write_log_entry_t" where
  "LOG_ENTRY_MAKE_WORD_01 address v =
    [push_bit 6 (LOG_ENTRY_TYPE_WORD_01 AND BITMASK_FOR_BITCOUNT 2)
       OR push_bit 5 ((if v \<noteq> 0 then 1 else 0) AND BITMASK_FOR_BITCOUNT 1)
       OR (ucast (drop_bit 9 address) AND BITMASK_FOR_BITCOUNT 5),
     ucast (drop_bit 1 address), 0, 0, 0, 0, 0, 0]"

lemma small_bits: "a < 2 ^ k \<Longrightarrow> k \<le> n \<Longrightarrow> \<not> bit a n" for a :: "'a::len word"
  by (metis bit_take_bit_iff less_mask_eq take_bit_eq_mask linorder_not_le)

lemma multibyte_round_trip:
  fixes a :: u32
  assumes "unat a < 2 ^ 19" "len < 8"
  shows "LOG_ENTRY_GET_TYPE (LOG_ENTRY_MAKE_MULTIBYTE a len) = LOG_ENTRY_TYPE_MULTIBYTE"
    and "LOG_ENTRY_MULTIBYTE_GET_ADDRESS (LOG_ENTRY_MAKE_MULTIBYTE a len) = a"
    and "unat (LOG_ENTRY_MULTIBYTE_GET_LENGTH (LOG_ENTRY_MAKE_MULTIBYTE a len)) = len"
proof -
  show "LOG_ENTRY_GET_TYPE (LOG_ENTRY_MAKE_MULTIBYTE a len) = LOG_ENTRY_TYPE_MULTIBYTE"
    unfolding LOG_ENTRY_GET_TYPE_def LOG_ENTRY_MAKE_MULTIBYTE_def BITMASK_mask
    by (rule bit_word_eqI) (simp add: bit_simps)
  have a: "a < 2 ^ 19"
    using assms(1) by (simp add: word_less_nat_alt)
  show "LOG_ENTRY_MULTIBYTE_GET_ADDRESS (LOG_ENTRY_MAKE_MULTIBYTE a len) = a"
  proof (rule bit_word_eqI)
    fix n :: nat
    consider "n < 8" | "8 \<le> n" "n < 16" | "16 \<le> n" "n < 19" | "19 \<le> n"
      by linarith
    then show "bit (LOG_ENTRY_MULTIBYTE_GET_ADDRESS (LOG_ENTRY_MAKE_MULTIBYTE a len)) n = bit a n"
      unfolding LOG_ENTRY_MULTIBYTE_GET_ADDRESS_def LOG_ENTRY_MAKE_MULTIBYTE_def BITMASK_mask
      using small_bits [OF a, of n] by cases (auto simp: bit_simps)
  qed
  have l: "(of_nat len :: u8) < 2 ^ 3"
    using assms(2) by (simp add: word_less_nat_alt unat_of_nat)
  have "LOG_ENTRY_MULTIBYTE_GET_LENGTH (LOG_ENTRY_MAKE_MULTIBYTE a len) = of_nat len"
    unfolding LOG_ENTRY_MULTIBYTE_GET_LENGTH_def LOG_ENTRY_MAKE_MULTIBYTE_def BITMASK_mask
  proof (rule bit_word_eqI)
    fix n :: nat
    assume "n < LENGTH(8)"
    then show "bit (drop_bit 3
        ([push_bit 6 (LOG_ENTRY_TYPE_MULTIBYTE AND mask 2) OR push_bit 3 (word_of_nat len AND mask 3) OR
          ucast (drop_bit 16 a) AND mask 3, ucast (drop_bit 8 a) AND mask 8, ucast a AND mask 8, 0, 0, 0, 0, 0] ! 0) AND
        mask 3) n = bit (word_of_nat len :: u8) n"
      using small_bits [OF l, of n] by (cases "3 \<le> n") (auto simp: bit_simps)
  qed
  then show "unat (LOG_ENTRY_MULTIBYTE_GET_LENGTH (LOG_ENTRY_MAKE_MULTIBYTE a len)) = len"
    using assms(2) by (simp add: unat_of_nat)
qed

lemma optimized_64_round_trip:
  fixes a :: u32
  assumes "unat a < 64"
  shows "LOG_ENTRY_GET_TYPE (LOG_ENTRY_MAKE_OPTIMIZED_64 a v) = LOG_ENTRY_TYPE_OPTIMIZED_64"
    and "LOG_ENTRY_OPTIMIZED_64_GET_ADDRESS (LOG_ENTRY_MAKE_OPTIMIZED_64 a v) = a"
    and "LOG_ENTRY_OPTIMIZED_64_GET_VALUE (LOG_ENTRY_MAKE_OPTIMIZED_64 a v) = v"
proof -
  have a: "a < 2 ^ 6"
    using assms(1) by (simp add: word_less_nat_alt)
  show "LOG_ENTRY_GET_TYPE (LOG_ENTRY_MAKE_OPTIMIZED_64 a v) = LOG_ENTRY_TYPE_OPTIMIZED_64"
    unfolding LOG_ENTRY_GET_TYPE_def LOG_ENTRY_MAKE_OPTIMIZED_64_def BITMASK_mask
    by (rule bit_word_eqI) (auto simp: bit_simps)
  show "LOG_ENTRY_OPTIMIZED_64_GET_ADDRESS (LOG_ENTRY_MAKE_OPTIMIZED_64 a v) = a"
  proof (rule bit_word_eqI)
    fix n :: nat
    show "bit (LOG_ENTRY_OPTIMIZED_64_GET_ADDRESS (LOG_ENTRY_MAKE_OPTIMIZED_64 a v)) n = bit a n"
      unfolding LOG_ENTRY_OPTIMIZED_64_GET_ADDRESS_def LOG_ENTRY_MAKE_OPTIMIZED_64_def BITMASK_mask
      using small_bits [OF a, of n] by (cases "n < 6") (auto simp: bit_simps)
  qed
qed (simp add: LOG_ENTRY_OPTIMIZED_64_GET_VALUE_def LOG_ENTRY_MAKE_OPTIMIZED_64_def)

lemma word_01_round_trip:
  fixes a :: u32 and w :: u16
  assumes "unat a < 16384" "even (unat a)" "w = 0 \<or> w = 1"
  shows "LOG_ENTRY_GET_TYPE (LOG_ENTRY_MAKE_WORD_01 a w) = LOG_ENTRY_TYPE_WORD_01"
    and "LOG_ENTRY_WORD_01_GET_ADDRESS (LOG_ENTRY_MAKE_WORD_01 a w) = a"
    and "LOG_ENTRY_WORD_01_GET_VALUE (LOG_ENTRY_MAKE_WORD_01 a w) = ucast w"
proof -
  have "\<not> bit (unat a) 0"
    using assms(2) by (simp add: bit_0)
  then have a: "a < 2 ^ 14" "\<not> bit a 0"
    using assms(1) by (simp_all only: bit_unsigned_iff) (simp_all add: word_less_nat_alt)
  show "LOG_ENTRY_GET_TYPE (LOG_ENTRY_MAKE_WORD_01 a w) = LOG_ENTRY_TYPE_WORD_01"
    unfolding LOG_ENTRY_GET_TYPE_def LOG_ENTRY_MAKE_WORD_01_def BITMASK_mask
    by (rule bit_word_eqI) (auto simp: bit_simps bit_1_iff)
  have dbl: "bit (x * 2) n \<longleftrightarrow> n < 32 \<and> n \<noteq> 0 \<and> bit x (n - 1)" for x :: u32 and n
    using bit_double_iff [of x n] by (auto simp: mult.commute dest: bit_imp_le_length)
  show "LOG_ENTRY_WORD_01_GET_ADDRESS (LOG_ENTRY_MAKE_WORD_01 a w) = a"
  proof (rule bit_word_eqI)
    fix n :: nat
    consider "n = 0" | "0 < n" "n < 9" | "9 \<le> n" "n < 14" | "14 \<le> n"
      by linarith
    then show "bit (LOG_ENTRY_WORD_01_GET_ADDRESS (LOG_ENTRY_MAKE_WORD_01 a w)) n = bit a n"
      unfolding LOG_ENTRY_WORD_01_GET_ADDRESS_def LOG_ENTRY_MAKE_WORD_01_def BITMASK_mask
      using small_bits [OF a(1), of n] a(2) by cases (auto simp: bit_simps dbl)
  qed
  show "LOG_ENTRY_WORD_01_GET_VALUE (LOG_ENTRY_MAKE_WORD_01 a w) = ucast w"
    unfolding LOG_ENTRY_WORD_01_GET_VALUE_def LOG_ENTRY_MAKE_WORD_01_def BITMASK_mask
    using assms(3) by (intro bit_word_eqI) (auto simp: bit_simps bit_1_iff)
qed
text \<open>
  (C34) Every encoding is read back as it was written: type, address, length and value.
\<close>

theorem log_entry_round_trip:
  fixes a :: u32 and w :: u16
  shows "(unat a < 2 ^ 19 \<and> len < 8 \<longrightarrow>
      LOG_ENTRY_GET_TYPE (LOG_ENTRY_MAKE_MULTIBYTE a len) = LOG_ENTRY_TYPE_MULTIBYTE \<and>
      LOG_ENTRY_MULTIBYTE_GET_ADDRESS (LOG_ENTRY_MAKE_MULTIBYTE a len) = a \<and>
      unat (LOG_ENTRY_MULTIBYTE_GET_LENGTH (LOG_ENTRY_MAKE_MULTIBYTE a len)) = len) \<and>
    (unat a < 64 \<longrightarrow>
      LOG_ENTRY_GET_TYPE (LOG_ENTRY_MAKE_OPTIMIZED_64 a v) = LOG_ENTRY_TYPE_OPTIMIZED_64 \<and>
      LOG_ENTRY_OPTIMIZED_64_GET_ADDRESS (LOG_ENTRY_MAKE_OPTIMIZED_64 a v) = a \<and>
      LOG_ENTRY_OPTIMIZED_64_GET_VALUE (LOG_ENTRY_MAKE_OPTIMIZED_64 a v) = v) \<and>
    (unat a < 16384 \<and> even (unat a) \<and> (w = 0 \<or> w = 1) \<longrightarrow>
      LOG_ENTRY_GET_TYPE (LOG_ENTRY_MAKE_WORD_01 a w) = LOG_ENTRY_TYPE_WORD_01 \<and>
      LOG_ENTRY_WORD_01_GET_ADDRESS (LOG_ENTRY_MAKE_WORD_01 a w) = a \<and>
      LOG_ENTRY_WORD_01_GET_VALUE (LOG_ENTRY_MAKE_WORD_01 a w) = ucast w)"
  using multibyte_round_trip [of a len] optimized_64_round_trip [of a v] word_01_round_trip [of a w] by blast

theorem log_entry_round_trip_witness:
  "LOG_ENTRY_MULTIBYTE_GET_ADDRESS (LOG_ENTRY_MAKE_MULTIBYTE 0x12345 5) = 0x12345 \<and>
   LOG_ENTRY_OPTIMIZED_64_GET_VALUE (LOG_ENTRY_MAKE_OPTIMIZED_64 0x3F 7) = 7 \<and>
   LOG_ENTRY_WORD_01_GET_ADDRESS (LOG_ENTRY_MAKE_WORD_01 0x3FFE 1) = 0x3FFE"
  using log_entry_round_trip [of "0x12345" 5 7 0] log_entry_round_trip [of "0x3F" 5 7 0]
    log_entry_round_trip [of "0x3FFE" 5 7 1] by simp

end
