(* ===== verification/WearLeveling.thy ===== *)
theory WearLeveling
  imports WearLog
begin

text \<open>
  quantum/wear_leveling/wear_leveling.c: the emulated EEPROM.  The logical data live in a cache; every
  write appends entries to a log in the backing store, and when the log reaches the end of the store, the
  store is erased and the whole cache is written to its beginning, followed by a hash.  At start the
  consolidated data are read and the log is played back.

  The driver of the backing store is a record of its operations over the driver's state; reading does not
  change that state.  The bulk operations are the weak ones of the file.  \<open>BACKING_STORE_WRITE_SIZE\<close> is 2.
  Addresses inside the store are natural numbers (all stay within \<open>WEAR_LEVELING_BACKING_SIZE\<close> plus one
  entry); the addresses and lengths of the interface are 32-bit words, as is \<open>size_t\<close> on these targets.
  What the code reads of its stack without having written it is a field of the configuration.
\<close>

section \<open>State\<close>

record 'b backing_store =
  bs_init :: "'b \<Rightarrow> bool \<times> 'b"
  bs_unlock :: "'b \<Rightarrow> bool \<times> 'b"
  bs_erase :: "'b \<Rightarrow> bool \<times> 'b"
  bs_write :: "nat \<Rightarrow> u16 \<Rightarrow> 'b \<Rightarrow> bool \<times> 'b"
  bs_lock :: "'b \<Rightarrow> bool \<times> 'b"
  bs_read :: "nat \<Rightarrow> 'b \<Rightarrow> u16 option"

record wear_leveling_config =
  WEAR_LEVELING_LOGICAL_SIZE :: nat
  WEAR_LEVELING_BACKING_SIZE :: nat
  unwritten_checksum :: u64
  behind_entry :: "u8 list"

record 'b wear_leveling =
  cache :: "u8 list"
  write_address :: nat
  unlocked :: bool
  store :: 'b

datatype backing_store_lock_status_t = STATUS_FAILURE | STATUS_SUCCESS | STATUS_UNCHANGED

datatype wear_leveling_status_t = WEAR_LEVELING_FAILED | WEAR_LEVELING_SUCCESS | WEAR_LEVELING_CONSOLIDATED

section \<open>Bulk access to the backing store\<close>

fun backing_store_read_bulk :: "'b backing_store \<Rightarrow> nat \<Rightarrow> nat \<Rightarrow> 'b \<Rightarrow> u16 list option" where
  "backing_store_read_bulk d a 0 b = Some []"
| "backing_store_read_bulk d a (Suc n) b =
    (case bs_read d a b of None \<Rightarrow> None
     | Some w \<Rightarrow> map_option ((#) w) (backing_store_read_bulk d (a + 2) n b))"

fun backing_store_write_bulk :: "'b backing_store \<Rightarrow> nat \<Rightarrow> u16 list \<Rightarrow> 'b \<Rightarrow> bool \<times> 'b" where
  "backing_store_write_bulk d a [] b = (True, b)"
| "backing_store_write_bulk d a (w # ws) b =
    (let (ok, b) = bs_write d a w b in if \<not> ok then (False, b) else backing_store_write_bulk d (a + 2) ws b)"

section \<open>Locking, cache and consolidated data\<close>

definition wear_leveling_unlock ::
    "'b backing_store \<Rightarrow> 'b wear_leveling \<Rightarrow> backing_store_lock_status_t \<times> 'b wear_leveling" where
  "wear_leveling_unlock d s =
    (if unlocked s then (STATUS_UNCHANGED, s)
     else let (ok, b) = bs_unlock d (store s) in
       if \<not> ok then (STATUS_FAILURE, s\<lparr>store := b\<rparr>) else (STATUS_SUCCESS, s\<lparr>store := b, unlocked := True\<rparr>))"

definition wear_leveling_lock ::
    "'b backing_store \<Rightarrow> 'b wear_leveling \<Rightarrow> backing_store_lock_status_t \<times> 'b wear_leveling" where
  "wear_leveling_lock d s =
    (if \<not> unlocked s then (STATUS_UNCHANGED, s)
     else let (ok, b) = bs_lock d (store s) in
       if \<not> ok then (STATUS_FAILURE, s\<lparr>store := b\<rparr>) else (STATUS_SUCCESS, s\<lparr>store := b, unlocked := False\<rparr>))"

definition wear_leveling_clear_cache :: "wear_leveling_config \<Rightarrow> 'b wear_leveling \<Rightarrow> 'b wear_leveling" where
  "wear_leveling_clear_cache cf s =
    s\<lparr>cache := replicate (WEAR_LEVELING_LOGICAL_SIZE cf) 0, write_address := WEAR_LEVELING_LOGICAL_SIZE cf + 8\<rparr>"

definition wear_leveling_read_consolidated ::
    "wear_leveling_config \<Rightarrow> 'b backing_store \<Rightarrow> 'b wear_leveling \<Rightarrow> wear_leveling_status_t \<times> 'b wear_leveling" where
  "wear_leveling_read_consolidated cf d s =
    (case backing_store_read_bulk d 0 (length (cache s) div 2) (store s) of
       None \<Rightarrow> (WEAR_LEVELING_FAILED, wear_leveling_clear_cache cf s)
     | Some ws \<Rightarrow>
        (let s = s\<lparr>cache := bytes_of_words ws\<rparr>;
             expected = fnv_64a_buf (cache s) FNV1A_64_INIT;
             entry = (case backing_store_read_bulk d (WEAR_LEVELING_LOGICAL_SIZE cf) 4 (store s) of
               None \<Rightarrow> u64_words (unwritten_checksum cf) | Some ws \<Rightarrow> ws)
         in (WEAR_LEVELING_SUCCESS,
             if entry = u64_words expected then s else wear_leveling_clear_cache cf s)))"

definition wear_leveling_write_consolidated ::
    "wear_leveling_config \<Rightarrow> 'b backing_store \<Rightarrow> 'b wear_leveling \<Rightarrow> wear_leveling_status_t \<times> 'b wear_leveling" where
  "wear_leveling_write_consolidated cf d s =
    (let (lock_status, s) = wear_leveling_unlock d s;
         (ok, b) = backing_store_write_bulk d 0 (words_of_bytes (cache s)) (store s);
         (status, b) = (if \<not> ok then (WEAR_LEVELING_FAILED, b)
           else let (ok, b) = backing_store_write_bulk d (WEAR_LEVELING_LOGICAL_SIZE cf)
                  (u64_words (fnv_64a_buf (cache s) FNV1A_64_INIT)) b
                in (if ok then WEAR_LEVELING_CONSOLIDATED else WEAR_LEVELING_FAILED, b));
         s = s\<lparr>store := b\<rparr>
     in (status, if lock_status = STATUS_SUCCESS then snd (wear_leveling_lock d s) else s))"

definition wear_leveling_consolidate_force ::
    "wear_leveling_config \<Rightarrow> 'b backing_store \<Rightarrow> 'b wear_leveling \<Rightarrow> wear_leveling_status_t \<times> 'b wear_leveling" where
  "wear_leveling_consolidate_force cf d s =
    (let (ok, b) = bs_erase d (store s); s = s\<lparr>store := b\<rparr>
     in if \<not> ok then (WEAR_LEVELING_FAILED, s)
        else let (status, s) = wear_leveling_write_consolidated cf d s
             in (status, s\<lparr>write_address := WEAR_LEVELING_LOGICAL_SIZE cf + 8\<rparr>))"

definition wear_leveling_consolidate_if_needed ::
    "wear_leveling_config \<Rightarrow> 'b backing_store \<Rightarrow> 'b wear_leveling \<Rightarrow> wear_leveling_status_t \<times> 'b wear_leveling" where
  "wear_leveling_consolidate_if_needed cf d s =
    (if WEAR_LEVELING_BACKING_SIZE cf \<le> write_address s then wear_leveling_consolidate_force cf d s
     else (WEAR_LEVELING_SUCCESS, s))"

section \<open>Writing the log\<close>

definition wear_leveling_append_raw ::
    "wear_leveling_config \<Rightarrow> 'b backing_store \<Rightarrow> u16 \<Rightarrow> 'b wear_leveling \<Rightarrow>
     wear_leveling_status_t \<times> 'b wear_leveling" where
  "wear_leveling_append_raw cf d v s =
    (let (ok, b) = bs_write d (write_address s) v (store s); s = s\<lparr>store := b\<rparr>
     in if \<not> ok then (WEAR_LEVELING_FAILED, s)
        else wear_leveling_consolidate_if_needed cf d (s\<lparr>write_address := write_address s + 2\<rparr>))"

text \<open>The appends of one entry, up to the first that does not return \<open>WEAR_LEVELING_SUCCESS\<close>.\<close>

fun append_words ::
    "wear_leveling_config \<Rightarrow> 'b backing_store \<Rightarrow> u16 list \<Rightarrow> 'b wear_leveling \<Rightarrow>
     wear_leveling_status_t \<times> 'b wear_leveling" where
  "append_words cf d [] s = (WEAR_LEVELING_SUCCESS, s)"
| "append_words cf d (w # ws) s =
    (let (status, s) = wear_leveling_append_raw cf d w s
     in if status \<noteq> WEAR_LEVELING_SUCCESS then (status, s) else append_words cf d ws s)"

text \<open>The entry of \<open>wear_leveling_write_raw_multibyte\<close>: the values follow the three header bytes.\<close>

definition multibyte_log :: "nat \<Rightarrow> u8 list \<Rightarrow> write_log_entry_t" where
  "multibyte_log address p =
    fold (\<lambda>i log. log[3 + i := p ! i]) [0..<length p] (LOG_ENTRY_MAKE_MULTIBYTE (of_nat address) (length p))"

definition wear_leveling_write_raw_multibyte ::
    "wear_leveling_config \<Rightarrow> 'b backing_store \<Rightarrow> nat \<Rightarrow> u8 list \<Rightarrow> 'b wear_leveling \<Rightarrow>
     wear_leveling_status_t \<times> 'b wear_leveling" where
  "wear_leveling_write_raw_multibyte cf d address p s =
    (let log = multibyte_log address p
     in append_words cf d
       ([raw16 log 0, raw16 log 1] @ (if 1 < length p then [raw16 log 2] else []) @
        (if 3 < length p then [raw16 log 3] else [])) s)"

text \<open>One round of the loop of \<open>wear_leveling_write_raw\<close>: how many bytes it takes, and the words it appends.\<close>

definition next_write :: "nat \<Rightarrow> u8 list \<Rightarrow> nat \<times> u16 list option" where
  "next_write address p =
    (if 2 \<le> length p \<and> address mod 2 = 0 \<and> address < 16384 \<and> le16 (p ! 0) (p ! 1) \<in> {0, 1} then
       (2, Some [raw16 (LOG_ENTRY_MAKE_WORD_01 (of_nat address) (le16 (p ! 0) (p ! 1))) 0])
     else if address < 64 then (1, Some [raw16 (LOG_ENTRY_MAKE_OPTIMIZED_64 (of_nat address) (p ! 0)) 0])
     else (if LOG_ENTRY_MULTIBYTE_MAX_BYTES \<le> length p then LOG_ENTRY_MULTIBYTE_MAX_BYTES else length p, None))"

lemma next_write_pos: "p \<noteq> [] \<Longrightarrow> 0 < fst (next_write a p) \<and> fst (next_write a p) \<le> length p"
  by (cases p) (auto simp: next_write_def)

function wear_leveling_write_raw ::
    "wear_leveling_config \<Rightarrow> 'b backing_store \<Rightarrow> nat \<Rightarrow> u8 list \<Rightarrow> 'b wear_leveling \<Rightarrow>
     wear_leveling_status_t \<times> 'b wear_leveling" where
  "wear_leveling_write_raw cf d address p s =
    (if p = [] then (WEAR_LEVELING_SUCCESS, s)
     else let (n, words) = next_write address p;
              (status, s) = (case words of Some ws \<Rightarrow> append_words cf d ws s
                | None \<Rightarrow> wear_leveling_write_raw_multibyte cf d address (take n p) s)
          in if status \<noteq> WEAR_LEVELING_SUCCESS then (status, s)
             else wear_leveling_write_raw cf d (address + n) (drop n p) s)"
  by pat_completeness auto
termination
  by (relation "measure (\<lambda>(cf, d, a, p, s). length p)")
    (simp, clarsimp, metis next_write_pos diff_less fst_conv length_greater_0_conv)

declare wear_leveling_write_raw.simps [simp del]

section \<open>Playing back the log\<close>

text \<open>\<open>memcpy(&cache[a], bs, length bs)\<close>.\<close>

definition put_bytes :: "nat \<Rightarrow> u8 list \<Rightarrow> u8 list \<Rightarrow> u8 list" where
  "put_bytes a bs c = take a c @ bs @ drop (a + length bs) c"

text \<open>An optional half word of a multi-byte entry.\<close>

definition playback_word :: "'b backing_store \<Rightarrow> 'b \<Rightarrow> bool \<Rightarrow> nat \<Rightarrow> (u16 \<times> nat) option" where
  "playback_word d b present a =
    (if present then (case bs_read d a b of None \<Rightarrow> None | Some w \<Rightarrow> Some (w, a + 2)) else Some (0, a))"

text \<open>The results: the cache, the address behind what was read, and whether the playback goes on.\<close>

definition playback_multibyte ::
    "wear_leveling_config \<Rightarrow> 'b backing_store \<Rightarrow> 'b \<Rightarrow> u16 \<Rightarrow> nat \<Rightarrow> u8 list \<Rightarrow> u8 list \<times> nat \<times> bool" where
  "playback_multibyte cf d b v a c =
    (case bs_read d a b of None \<Rightarrow> (c, a, False)
     | Some w1 \<Rightarrow>
        (let a = a + 2; log = bytes_of_words [v, w1];
             addr = unat (LOG_ENTRY_MULTIBYTE_GET_ADDRESS log); l = unat (LOG_ENTRY_MULTIBYTE_GET_LENGTH log)
         in if WEAR_LEVELING_LOGICAL_SIZE cf < addr + l then (c, a, False)
            else case playback_word d b (1 < l) a of None \<Rightarrow> (c, a, False)
            | Some (w2, a) \<Rightarrow>
               (case playback_word d b (3 < l) a of None \<Rightarrow> (c, a, False)
                | Some (w3, a) \<Rightarrow>
                   (put_bytes addr (take l (drop 3 (bytes_of_words [v, w1, w2, w3] @ behind_entry cf))) c, a, True))))"

definition playback_entry ::
    "wear_leveling_config \<Rightarrow> 'b backing_store \<Rightarrow> 'b \<Rightarrow> u16 \<Rightarrow> nat \<Rightarrow> u8 list \<Rightarrow> u8 list \<times> nat \<times> bool" where
  "playback_entry cf d b v a c =
    (let log = bytes_of_words [v]; t = LOG_ENTRY_GET_TYPE log in
     if t = LOG_ENTRY_TYPE_MULTIBYTE then playback_multibyte cf d b v a c
     else if t = LOG_ENTRY_TYPE_OPTIMIZED_64 then
       (let addr = unat (LOG_ENTRY_OPTIMIZED_64_GET_ADDRESS log)
        in if WEAR_LEVELING_LOGICAL_SIZE cf \<le> addr then (c, a, False)
           else (c[addr := LOG_ENTRY_OPTIMIZED_64_GET_VALUE log], a, True))
     else if t = LOG_ENTRY_TYPE_WORD_01 then
       (let addr = unat (LOG_ENTRY_WORD_01_GET_ADDRESS log)
        in if WEAR_LEVELING_LOGICAL_SIZE cf \<le> addr + 1 then (c, a, False)
           else (c[addr := LOG_ENTRY_WORD_01_GET_VALUE log, addr + 1 := 0], a, True))
     else (c, a, False))"

lemma playback_entry_mono: "playback_entry cf d b v a c = (c', a', ok) \<Longrightarrow> a \<le> a'"
  by (auto simp: playback_entry_def playback_multibyte_def playback_word_def Let_def
      split: if_splits option.splits)

function playback_loop ::
    "wear_leveling_config \<Rightarrow> 'b backing_store \<Rightarrow> 'b \<Rightarrow> nat \<Rightarrow> u8 list \<Rightarrow> u8 list \<times> nat \<times> bool" where
  "playback_loop cf d b a c =
    (if a < WEAR_LEVELING_BACKING_SIZE cf then
       (case bs_read d a b of None \<Rightarrow> (c, a, False)
        | Some v \<Rightarrow>
           (if v = 0 then (c, a, True)
            else let (c, a', ok) = playback_entry cf d b v (a + 2) c
                 in if ok then playback_loop cf d b a' c else (c, a', False)))
     else (c, a, True))"
  by pat_completeness auto
termination
  by (relation "measure (\<lambda>(cf, d, b, a, c). WEAR_LEVELING_BACKING_SIZE cf - a)")
    (auto dest!: playback_entry_mono [OF sym])

declare playback_loop.simps [simp del]

definition wear_leveling_playback_log ::
    "wear_leveling_config \<Rightarrow> 'b backing_store \<Rightarrow> 'b wear_leveling \<Rightarrow> wear_leveling_status_t \<times> 'b wear_leveling" where
  "wear_leveling_playback_log cf d s =
    (let (c, a, ok) = playback_loop cf d (store s) (WEAR_LEVELING_LOGICAL_SIZE cf + 8) (cache s);
         s = s\<lparr>cache := c, write_address := a\<rparr>
     in if \<not> ok then wear_leveling_consolidate_force cf d s else wear_leveling_consolidate_if_needed cf d s)"

section \<open>The interface\<close>

definition wear_leveling_init ::
    "wear_leveling_config \<Rightarrow> 'b backing_store \<Rightarrow> 'b wear_leveling \<Rightarrow> wear_leveling_status_t \<times> 'b wear_leveling" where
  "wear_leveling_init cf d s =
    (let s = wear_leveling_clear_cache cf s; (ok, b) = bs_init d (store s); s = s\<lparr>store := b\<rparr>
     in if \<not> ok then (WEAR_LEVELING_FAILED, wear_leveling_clear_cache cf s)
        else let (status, s) = wear_leveling_read_consolidated cf d s
             in if status = WEAR_LEVELING_FAILED then (status, wear_leveling_clear_cache cf s)
                else let (status, s) = wear_leveling_playback_log cf d s
                     in (status, if status = WEAR_LEVELING_FAILED then wear_leveling_clear_cache cf s else s))"

definition wear_leveling_erase ::
    "wear_leveling_config \<Rightarrow> 'b backing_store \<Rightarrow> 'b wear_leveling \<Rightarrow> wear_leveling_status_t \<times> 'b wear_leveling" where
  "wear_leveling_erase cf d s =
    (let (lock_status, s) = wear_leveling_unlock d s
     in if lock_status = STATUS_FAILURE then (WEAR_LEVELING_FAILED, snd (wear_leveling_lock d s))
        else let (ret, b) = bs_erase d (store s);
                 s = wear_leveling_clear_cache cf (s\<lparr>store := b\<rparr>);
                 (ret, s) = (if lock_status = STATUS_SUCCESS
                   then let (lk, s) = wear_leveling_lock d s in (ret \<and> lk \<noteq> STATUS_FAILURE, s) else (ret, s))
             in (if ret then WEAR_LEVELING_SUCCESS else WEAR_LEVELING_FAILED, s))"

text \<open>\<open>address + length > WEAR_LEVELING_LOGICAL_SIZE\<close>, with the 32-bit addition of the code.\<close>

definition out_of_range :: "wear_leveling_config \<Rightarrow> u32 \<Rightarrow> u32 \<Rightarrow> bool" where
  "out_of_range cf address len \<longleftrightarrow> of_nat (WEAR_LEVELING_LOGICAL_SIZE cf) < address + len"

definition wear_leveling_write ::
    "wear_leveling_config \<Rightarrow> 'b backing_store \<Rightarrow> u32 \<Rightarrow> u8 list \<Rightarrow> 'b wear_leveling \<Rightarrow>
     wear_leveling_status_t \<times> 'b wear_leveling" where
  "wear_leveling_write cf d address v s =
    (let a = unat address in
     if out_of_range cf address (of_nat (length v)) then (WEAR_LEVELING_FAILED, s)
     else if take (length v) (drop a (cache s)) = v then (WEAR_LEVELING_SUCCESS, s)
     else
       let s = s\<lparr>cache := put_bytes a v (cache s)\<rparr>;
           (lock_status, s) = wear_leveling_unlock d s
       in if lock_status = STATUS_FAILURE then (WEAR_LEVELING_FAILED, snd (wear_leveling_lock d s))
          else let (status, s) = wear_leveling_write_raw cf d a v s;
                   (status, s) = (if status = WEAR_LEVELING_SUCCESS
                     then wear_leveling_consolidate_if_needed cf d s else (status, s))
               in if lock_status = STATUS_SUCCESS then
                    (let (lk, s) = wear_leveling_lock d s
                     in (if lk = STATUS_FAILURE then WEAR_LEVELING_FAILED else status, s))
                  else (status, s))"

definition wear_leveling_read ::
    "wear_leveling_config \<Rightarrow> u32 \<Rightarrow> u32 \<Rightarrow> 'b wear_leveling \<Rightarrow> wear_leveling_status_t \<times> u8 list" where
  "wear_leveling_read cf address len s =
    (if out_of_range cf address len then (WEAR_LEVELING_FAILED, [])
     else (WEAR_LEVELING_SUCCESS, take (unat len) (drop (unat address) (cache s))))"

section \<open>Playback as a relation\<close>

text \<open>\<open>agree d b b' lo hi\<close>: the two states of the driver read the same half words in the range.\<close>

definition agree :: "'b backing_store \<Rightarrow> 'b \<Rightarrow> 'b \<Rightarrow> nat \<Rightarrow> nat \<Rightarrow> bool" where
  "agree d b b' lo hi \<longleftrightarrow> (\<forall>x. even x \<and> lo \<le> x \<and> x < hi \<longrightarrow> bs_read d x b' = bs_read d x b)"

lemma agreeD: "agree d b b' lo hi \<Longrightarrow> even x \<Longrightarrow> lo \<le> x \<Longrightarrow> x < hi \<Longrightarrow> bs_read d x b' = bs_read d x b"
  by (simp add: agree_def)

lemma agree_mono: "agree d b b' lo hi \<Longrightarrow> lo \<le> lo' \<Longrightarrow> hi' \<le> hi \<Longrightarrow> agree d b b' lo' hi'"
  by (simp add: agree_def)

inductive plays ::
    "wear_leveling_config \<Rightarrow> 'b backing_store \<Rightarrow> 'b \<Rightarrow> nat \<Rightarrow> u8 list \<Rightarrow> nat \<Rightarrow> u8 list \<Rightarrow> bool"
  for cf d b where
  plays_refl: "plays cf d b a c a c"
| plays_step: "plays cf d b a c a2 c2"
    if "a < WEAR_LEVELING_BACKING_SIZE cf" "bs_read d a b = Some v" "v \<noteq> 0"
      "playback_entry cf d b v (a + 2) c = (c1, a1, True)" "plays cf d b a1 c1 a2 c2"

lemma plays_loop: "plays cf d b a c a' c' \<Longrightarrow> playback_loop cf d b a c = playback_loop cf d b a' c'"
proof (induction rule: plays.induct)
  case (plays_step a v c c1 a1 a2 c2)
  then show ?case
    by (subst playback_loop.simps) simp
qed simp

lemma plays_trans: "plays cf d b a c a1 c1 \<Longrightarrow> plays cf d b a1 c1 a2 c2 \<Longrightarrow> plays cf d b a c a2 c2"
  by (induction rule: plays.induct) (auto intro: plays_step)

lemma playback_word_mono: "playback_word d b p a = Some (w, a') \<Longrightarrow> a' = (if p then a + 2 else a)"
  by (auto simp: playback_word_def split: if_splits option.splits)

lemma playback_word_cong:
  "playback_word d b p a = Some (w, a') \<Longrightarrow> agree d b b' a a' \<Longrightarrow> even a \<Longrightarrow> playback_word d b' p a = Some (w, a')"
  by (auto simp: playback_word_def agree_def split: if_splits option.splits)

lemma playback_multibyte_cong:
  assumes "playback_multibyte cf d b v a c = (c', a', True)" "agree d b b' a a'" "even a"
  shows "playback_multibyte cf d b' v a c = (c', a', True) \<and> even a' \<and> a \<le> a'"
proof -
  obtain w1 where w1: "bs_read d a b = Some w1"
    using assms(1) by (cases "bs_read d a b") (auto simp: playback_multibyte_def)
  define addr l where "addr = unat (LOG_ENTRY_MULTIBYTE_GET_ADDRESS (bytes_of_words [v, w1]))"
    and "l = unat (LOG_ENTRY_MULTIBYTE_GET_LENGTH (bytes_of_words [v, w1]))"
  note unf = playback_multibyte_def Let_def addr_def [symmetric] l_def [symmetric]
  have range: "\<not> WEAR_LEVELING_LOGICAL_SIZE cf < addr + l"
    using assms(1) w1 by (auto simp: unf)
  obtain w2 a2 where w2: "playback_word d b (1 < l) (a + 2) = Some (w2, a2)"
    using assms(1) w1 range by (cases "playback_word d b (1 < l) (a + 2)") (auto simp: unf)
  obtain w3 a3 where w3: "playback_word d b (3 < l) a2 = Some (w3, a3)"
    using assms(1) w1 range w2 by (cases "playback_word d b (3 < l) a2") (auto simp: unf)
  have a3: "a3 = a'"
    using assms(1) w1 range w2 w3 by (simp add: unf)
  have ev: "even a2" "a + 2 \<le> a2" "a2 \<le> a3" "even a3"
    using playback_word_mono [OF w2] playback_word_mono [OF w3] assms(3) by (auto split: if_splits)
  have "bs_read d a b' = Some w1"
    using agreeD [OF assms(2,3)] w1 ev a3 by simp
  moreover have "playback_word d b' (1 < l) (a + 2) = Some (w2, a2)"
    using playback_word_cong [OF w2] agree_mono [OF assms(2)] ev a3 assms(3) by simp
  moreover have "playback_word d b' (3 < l) a2 = Some (w3, a3)"
    using playback_word_cong [OF w3] agree_mono [OF assms(2)] ev a3 by simp
  ultimately show ?thesis
    using assms(1) w1 range w2 w3 ev a3 by (simp add: unf)
qed

lemma playback_entry_cong:
  assumes "playback_entry cf d b v a c = (c', a', True)" "agree d b b' a a'" "even a"
  shows "playback_entry cf d b' v a c = (c', a', True) \<and> even a' \<and> a \<le> a'"
  using assms playback_multibyte_cong [of cf d b v a c c' a' b']
  by (auto simp: playback_entry_def Let_def split: if_splits)

lemma plays_even: "plays cf d b a c a' c' \<Longrightarrow> even a \<Longrightarrow> even a' \<and> a \<le> a'"
proof (induction rule: plays.induct)
  case (plays_step a v c c1 a1 a2 c2)
  have "even a1 \<and> a + 2 \<le> a1"
    using playback_entry_cong [OF plays_step.hyps(4), of b] plays_step.prems by (simp add: agree_def)
  then show ?case
    using plays_step.IH by simp
qed simp

lemma plays_cong:
  "plays cf d b a c a' c' \<Longrightarrow> even a \<Longrightarrow> agree d b b' a a' \<Longrightarrow> plays cf d b' a c a' c'"
proof (induction rule: plays.induct)
  case (plays_refl a c)
  show ?case
    by (rule plays.plays_refl)
next
  case (plays_step a v c c1 a1 a2 c2)
  have a1: "even a1 \<and> a + 2 \<le> a1"
    using playback_entry_cong [OF plays_step.hyps(4), of b] plays_step.prems(1) by (simp add: agree_def)
  have a2: "a1 \<le> a2"
    using plays_even [OF plays_step.hyps(5)] a1 by simp
  have "playback_entry cf d b' v (a + 2) c = (c1, a1, True)"
    using playback_entry_cong [OF plays_step.hyps(4)] plays_step.prems agree_mono [OF plays_step.prems(2)] a1 a2
    by simp
  moreover have "bs_read d a b' = Some v"
    using agreeD [OF plays_step.prems(2)] plays_step.prems(1) plays_step.hyps(2) a1 a2 by simp
  moreover have "plays cf d b' a1 c1 a2 c2"
    using plays_step.IH a1 agree_mono [OF plays_step.prems(2)] by simp
  ultimately show ?case
    using plays_step.hyps(1,3) by (blast intro: plays.plays_step)
qed

section \<open>Every entry plays back what was written\<close>

lemma length_put_bytes [simp]: "a + length bs \<le> length c \<Longrightarrow> length (put_bytes a bs c) = length c"
  by (simp add: put_bytes_def)

lemma put_bytes_Nil [simp]: "put_bytes a [] c = c"
  by (simp add: put_bytes_def)

lemma put_bytes_split:
  assumes "a + length p \<le> length c" "n \<le> length p"
  shows "put_bytes (a + n) (drop n p) (put_bytes a (take n p) c) = put_bytes a p c"
proof -
  define X where "X = put_bytes a (take n p) c"
  have 1: "take (a + n) X = take a c @ take n p"
    using assms by (simp add: X_def put_bytes_def min_def)
  have len: "a + n + length (drop n p) = a + length p" "length p - n + (a + n) = a + length p"
    using assms(2) by simp_all
  have 2: "drop (a + length p) X = drop (a + length p) c"
    using assms unfolding X_def put_bytes_def by (simp add: min_def add.commute [of "length p" a])
  have "put_bytes (a + n) (drop n p) X = (take a c @ take n p) @ drop n p @ drop (a + length p) c"
    unfolding put_bytes_def len 1 2 ..
  then show ?thesis
    unfolding X_def [symmetric] by (simp add: put_bytes_def)
qed

lemma put_bytes_1: "a < length c \<Longrightarrow> put_bytes a [x] c = c[a := x]"
  by (simp add: put_bytes_def upd_conv_take_nth_drop)

lemma put_bytes_2: "a + 1 < length c \<Longrightarrow> put_bytes a [x, y] c = c[a := x, a + 1 := y]"
proof -
  assume *: "a + 1 < length c"
  then have "put_bytes a [x, y] c = put_bytes (a + 1) [y] (put_bytes a [x] c)"
    using put_bytes_split [of a "[x, y]" c 1] by simp
  with * show ?thesis
    by (simp add: put_bytes_1)
qed

lemma bytes_of_raw16: "bytes_of_words [raw16 log 0] = [log ! 0, log ! 1]"
  by (simp add: bytes_of_words_def raw16_def)

lemma entry_readers_prefix:
  "LOG_ENTRY_GET_TYPE [log ! 0, log ! 1] = LOG_ENTRY_GET_TYPE log"
  "LOG_ENTRY_OPTIMIZED_64_GET_ADDRESS [log ! 0, log ! 1] = LOG_ENTRY_OPTIMIZED_64_GET_ADDRESS log"
  "LOG_ENTRY_OPTIMIZED_64_GET_VALUE [log ! 0, log ! 1] = LOG_ENTRY_OPTIMIZED_64_GET_VALUE log"
  "LOG_ENTRY_WORD_01_GET_ADDRESS [log ! 0, log ! 1] = LOG_ENTRY_WORD_01_GET_ADDRESS log"
  "LOG_ENTRY_WORD_01_GET_VALUE [log ! 0, log ! 1] = LOG_ENTRY_WORD_01_GET_VALUE log"
  by (simp_all add: LOG_ENTRY_GET_TYPE_def LOG_ENTRY_OPTIMIZED_64_GET_ADDRESS_def
      LOG_ENTRY_OPTIMIZED_64_GET_VALUE_def LOG_ENTRY_WORD_01_GET_ADDRESS_def LOG_ENTRY_WORD_01_GET_VALUE_def)

lemmas entry_readers = bytes_of_raw16 entry_readers_prefix [simplified] entry_readers_prefix

lemma raw16_lo: "lo8 (raw16 log 0) = log ! 0"
  by (simp add: raw16_def)

lemma raw16_nonzero: "LOG_ENTRY_GET_TYPE log \<noteq> 0 \<Longrightarrow> raw16 log 0 \<noteq> 0"
proof
  assume t: "LOG_ENTRY_GET_TYPE log \<noteq> 0" and "raw16 log 0 = 0"
  then have "lo8 (raw16 log 0) = 0"
    by (simp add: lo8_def)
  then have "log ! 0 = 0"
    by (simp add: raw16_def)
  with t show False
    by (simp add: LOG_ENTRY_GET_TYPE_def)
qed

lemma plays_optimized:
  assumes "address < 64" "address < length c" "length c = WEAR_LEVELING_LOGICAL_SIZE cf"
    and "bs_read d a b = Some (raw16 (LOG_ENTRY_MAKE_OPTIMIZED_64 (of_nat address) x) 0)"
    and "a < WEAR_LEVELING_BACKING_SIZE cf"
  shows "plays cf d b a c (a + 2) (put_bytes address [x] c)"
proof -
  have u: "unat (of_nat address :: u32) = address"
    using assms(1) by (simp add: unat_of_nat)
  note rt = optimized_64_round_trip [of "of_nat address" x, unfolded u, OF assms(1)]
  have "playback_entry cf d b (raw16 (LOG_ENTRY_MAKE_OPTIMIZED_64 (of_nat address) x) 0) (a + 2) c =
      (put_bytes address [x] c, a + 2, True)"
    using assms(2,3) by (simp add: playback_entry_def entry_readers rt u put_bytes_1 [symmetric] Let_def)
  then show ?thesis
    using assms(4,5) raw16_nonzero rt(1) by (intro plays_step [OF _ _ _ _ plays_refl]) auto
qed

lemma plays_word_01:
  assumes "address < 16384" "even address" "address + 1 < length c" "length c = WEAR_LEVELING_LOGICAL_SIZE cf"
    and "le16 x y \<in> {0, 1}"
    and "bs_read d a b = Some (raw16 (LOG_ENTRY_MAKE_WORD_01 (of_nat address) (le16 x y)) 0)"
    and "a < WEAR_LEVELING_BACKING_SIZE cf"
  shows "plays cf d b a c (a + 2) (put_bytes address [x, y] c)"
proof -
  have u: "unat (of_nat address :: u32) = address"
    using assms(1) by (simp add: unat_of_nat)
  have v: "le16 x y = 0 \<or> le16 x y = 1"
    using assms(5) by simp
  note rt = word_01_round_trip [of "of_nat address" "le16 x y", unfolded u, OF assms(1,2) v]
  have "hi8 (le16 x y) = 0"
    using v by (elim disjE) (simp_all add: hi8_def)
  then have y: "y = 0"
    by simp
  have x: "ucast (le16 x y) = x"
    using le16_halves(1) [of x y] by (simp add: lo8_def)
  have put: "put_bytes address [x, y] c = c[address := x, address + 1 := 0]"
    by (simp only: put_bytes_2 [OF assms(3)] y)
  have "playback_entry cf d b (raw16 (LOG_ENTRY_MAKE_WORD_01 (of_nat address) (le16 x y)) 0) (a + 2) c =
      (put_bytes address [x, y] c, a + 2, True)"
    using assms(3,4) x unfolding put by (simp add: playback_entry_def entry_readers rt u Let_def)
  then show ?thesis
    using assms(6,7) raw16_nonzero rt(1) by (intro plays_step [OF _ _ _ _ plays_refl]) auto
qed

lemma fold_update_nth:
  "k + length p \<le> length h \<Longrightarrow>
     fold (\<lambda>i l. l[k + i := p ! i]) [0..<length p] h = take k h @ p @ drop (k + length p) h"
proof (induction p rule: rev_induct)
  case (snoc x p)
  have "fold (\<lambda>i l. l[k + i := (p @ [x]) ! i]) [0..<length p] h = fold (\<lambda>i l. l[k + i := p ! i]) [0..<length p] h"
    by (rule fold_cong) (simp_all add: nth_append)
  moreover have "drop (k + length p) h = h ! (k + length p) # drop (Suc (k + length p)) h"
    using snoc.prems by (simp add: Cons_nth_drop_Suc)
  ultimately show ?case
    using snoc by (simp add: list_update_append min_def)
qed simp

lemma multibyte_log_bytes:
  assumes "length p \<le> 5"
  shows "multibyte_log address p = take 3 (LOG_ENTRY_MAKE_MULTIBYTE (of_nat address) (length p)) @ p @
    replicate (5 - length p) 0"
proof -
  define h where "h = LOG_ENTRY_MAKE_MULTIBYTE (of_nat address) (length p)"
  obtain h0 h1 h2 where h: "h = [h0, h1, h2] @ replicate 5 0"
    by (simp add: h_def LOG_ENTRY_MAKE_MULTIBYTE_def eval_nat_numeral)
  show ?thesis
    using fold_update_nth [of 3 p h] assms unfolding multibyte_log_def h_def [symmetric]
    by (simp add: h numeral_3_eq_3)
qed

lemma raw16_bytes [simp]: "lo8 (raw16 log i) = log ! (2 * i)" "hi8 (raw16 log i) = log ! (2 * i + 1)"
  by (simp_all add: raw16_def)

lemma zero_bytes [simp]: "lo8 0 = 0" "hi8 0 = 0"
  by (simp_all add: lo8_def hi8_def)

lemma plays_multibyte:
  assumes "0 < length p" "length p \<le> 5" "address + length p \<le> length c" "length c = WEAR_LEVELING_LOGICAL_SIZE cf"
    and "length c \<le> 2 ^ 19"
  defines "log \<equiv> multibyte_log address p"
  assumes "bs_read d a b = Some (raw16 log 0)" "bs_read d (a + 2) b = Some (raw16 log 1)"
    and "1 < length p \<Longrightarrow> bs_read d (a + 4) b = Some (raw16 log 2)"
    and "3 < length p \<Longrightarrow> bs_read d (a + 6) b = Some (raw16 log 3)"
    and "a < WEAR_LEVELING_BACKING_SIZE cf"
  shows "plays cf d b a c (a + 4 + (if 1 < length p then 2 else 0) + (if 3 < length p then 2 else 0))
    (put_bytes address p c)"
proof -
  define h where "h = LOG_ENTRY_MAKE_MULTIBYTE (of_nat address) (length p)"
  obtain h0 h1 h2 where h: "h = [h0, h1, h2, 0, 0, 0, 0, 0]"
    by (simp add: h_def LOG_ENTRY_MAKE_MULTIBYTE_def)
  have log: "log = [h0, h1, h2] @ p @ replicate (5 - length p) 0"
    unfolding log_def multibyte_log_bytes [OF assms(2)] h_def [symmetric] by (simp add: h)
  have lt: "address < 2 ^ 19"
    using assms(1,3,5) by linarith
  then have u: "unat (of_nat address :: u32) = address"
    by (simp add: unat_of_nat)
  have "unat (of_nat address :: u32) < 2 ^ 19" "length p < 8"
    using lt assms(2) by (simp_all only: u)
  note rt = multibyte_round_trip [OF this, folded h_def, unfolded h u]
  define w1 where "w1 = raw16 log 1"
  have b2: "bytes_of_words [raw16 log 0, w1] = [h0, h1, h2, p ! 0]"
    using assms(1) by (simp add: bytes_of_words_def raw16_def w1_def log nth_append)
  have b1: "bytes_of_words [raw16 log 0] = [h0, h1]"
    by (simp add: bytes_of_words_def raw16_def log)
  have ty: "LOG_ENTRY_GET_TYPE [h0, h1] = LOG_ENTRY_TYPE_MULTIBYTE"
    using rt(1) by (simp add: LOG_ENTRY_GET_TYPE_def)
  have ad: "unat (LOG_ENTRY_MULTIBYTE_GET_ADDRESS [h0, h1, h2, p ! 0]) = address"
    using rt(2) u by (simp add: LOG_ENTRY_MULTIBYTE_GET_ADDRESS_def)
  have ln: "unat (LOG_ENTRY_MULTIBYTE_GET_LENGTH [h0, h1, h2, p ! 0]) = length p"
    using rt(3) by (simp add: LOG_ENTRY_MULTIBYTE_GET_LENGTH_def)
  have nz: "raw16 log 0 \<noteq> 0"
  proof
    assume "raw16 log 0 = 0"
    then have "lo8 (raw16 log 0) = 0"
      by (simp add: lo8_def)
    then have "h0 = 0"
      by (simp add: raw16_def log)
    then show False
      using ln assms(1) by (simp add: LOG_ENTRY_MULTIBYTE_GET_LENGTH_def)
  qed
  have len: "length p = 1 \<or> length p = 2 \<or> length p = 3 \<or> length p = 4 \<or> length p = 5"
    using assms(1,2) by linarith
  define w2 where "w2 = (if 1 < length p then raw16 log 2 else 0)"
  define w3 where "w3 = (if 3 < length p then raw16 log 3 else 0)"
  define a2 where "a2 = a + 4 + (if 1 < length p then 2 else 0)"
  define a3 where "a3 = a2 + (if 3 < length p then 2 else 0)"
  have r1: "bs_read d (a + 2) b = Some w1"
    using assms(8) by (simp only: w1_def)
  have r2: "playback_word d b (1 < length p) (a + 2 + 2) = Some (w2, a2)"
    using assms(9) by (auto simp: playback_word_def w2_def a2_def eval_nat_numeral)
  have r3: "playback_word d b (3 < length p) a2 = Some (w3, a3)"
    using assms(10) by (auto simp: playback_word_def w3_def a3_def a2_def eval_nat_numeral)
  have bytes: "take (length p) (drop 3 (bytes_of_words [raw16 log 0, w1, w2, w3] @ junk)) = p" for junk
  proof -
    have "bytes_of_words [raw16 log 0, w1, w2, w3] =
        [h0, h1, h2, log ! 3] @ (if 1 < length p then [log ! 4, log ! 5] else [0, 0]) @
        (if 3 < length p then [log ! 6, log ! 7] else [0, 0])"
      by (simp add: bytes_of_words_def w1_def w2_def w3_def) (simp add: log)
    then show ?thesis
      using len by (elim disjE) (auto simp: log eval_nat_numeral length_Suc_conv)
  qed
  have range: "\<not> WEAR_LEVELING_LOGICAL_SIZE cf < address + length p"
    using assms(3,4) by simp
  have "playback_multibyte cf d b (raw16 log 0) (a + 2) c = (put_bytes address p c, a3, True)"
    by (simp only: playback_multibyte_def r1 r2 r3 b2 ad ln bytes range Let_def option.case prod.case if_False)
  then have "playback_entry cf d b (raw16 log 0) (a + 2) c = (put_bytes address p c, a3, True)"
    by (simp add: playback_entry_def b1 ty)
  then have "plays cf d b a c a3 (put_bytes address p c)"
    by (rule plays_step [OF assms(11,7) nz _ plays_refl])
  then show ?thesis
    by (simp only: a3_def a2_def)
qed

section \<open>What the store holds\<close>

text \<open>The cache as \<open>wear_leveling_read_consolidated\<close> leaves it.\<close>

definition consolidated_cache :: "wear_leveling_config \<Rightarrow> 'b backing_store \<Rightarrow> 'b \<Rightarrow> u8 list" where
  "consolidated_cache cf d b = cache (snd (wear_leveling_read_consolidated cf d
     \<lparr>cache = replicate (WEAR_LEVELING_LOGICAL_SIZE cf) 0, write_address = 0, unlocked = False, store = b\<rparr>))"

text \<open>
  The sizes that \<open>_Static_assert\<close> checks (in the form used here), that a log entry can address, and that
  leave room for a log.
\<close>

definition sizes_ok :: "wear_leveling_config \<Rightarrow> bool" where
  "sizes_ok cf \<longleftrightarrow> even (WEAR_LEVELING_LOGICAL_SIZE cf) \<and> even (WEAR_LEVELING_BACKING_SIZE cf) \<and>
     WEAR_LEVELING_LOGICAL_SIZE cf + 8 < WEAR_LEVELING_BACKING_SIZE cf \<and> WEAR_LEVELING_LOGICAL_SIZE cf \<le> 2 ^ 19"

text \<open>Between two operations: the log, played back over the consolidated data, gives the cache.\<close>

definition durable :: "wear_leveling_config \<Rightarrow> 'b backing_store \<Rightarrow> 'b \<Rightarrow> nat \<Rightarrow> u8 list \<Rightarrow> bool" where
  "durable cf d b a c \<longleftrightarrow>
     plays cf d b (WEAR_LEVELING_LOGICAL_SIZE cf + 8) (consolidated_cache cf d b) a c"

definition log_space :: "wear_leveling_config \<Rightarrow> 'b wear_leveling \<Rightarrow> bool" where
  "log_space cf s \<longleftrightarrow> length (cache s) = WEAR_LEVELING_LOGICAL_SIZE cf \<and> even (write_address s) \<and>
     WEAR_LEVELING_LOGICAL_SIZE cf + 8 \<le> write_address s \<and> write_address s < WEAR_LEVELING_BACKING_SIZE cf"

text \<open>
  The contract of a backing store: half words of an erased store are zero and can be written once, while
  it is unlocked.
\<close>

locale log_store =
  fixes d :: "'b backing_store" and mem :: "'b \<Rightarrow> nat \<Rightarrow> u16" and locked :: "'b \<Rightarrow> bool"
    and ok :: "'b \<Rightarrow> bool" and size :: nat
  assumes reads: "ok b \<Longrightarrow> even a \<Longrightarrow> a < size \<Longrightarrow> bs_read d a b = Some (mem b a)"
    and inits: "ok b \<Longrightarrow> fst (bs_init d b) \<and> ok (snd (bs_init d b)) \<and>
      (even a \<and> a < size \<longrightarrow> mem (snd (bs_init d b)) a = mem b a)"
    and unlocks: "ok b \<Longrightarrow> fst (bs_unlock d b) \<and> ok (snd (bs_unlock d b)) \<and> \<not> locked (snd (bs_unlock d b)) \<and>
      (even a \<and> a < size \<longrightarrow> mem (snd (bs_unlock d b)) a = mem b a)"
    and locks: "ok b \<Longrightarrow> fst (bs_lock d b) \<and> ok (snd (bs_lock d b)) \<and>
      (even a \<and> a < size \<longrightarrow> mem (snd (bs_lock d b)) a = mem b a)"
    and erases: "ok b \<Longrightarrow> \<not> locked b \<Longrightarrow> fst (bs_erase d b) \<and> ok (snd (bs_erase d b)) \<and>
      \<not> locked (snd (bs_erase d b)) \<and> (even a \<and> a < size \<longrightarrow> mem (snd (bs_erase d b)) a = 0)"
    and writes: "ok b \<Longrightarrow> \<not> locked b \<Longrightarrow> even a \<Longrightarrow> a < size \<Longrightarrow> mem b a = 0 \<Longrightarrow>
      fst (bs_write d a v b) \<and> ok (snd (bs_write d a v b)) \<and> \<not> locked (snd (bs_write d a v b)) \<and>
      (even x \<and> x < size \<longrightarrow> mem (snd (bs_write d a v b)) x = (if x = a then v else mem b x))"
begin

lemma agree_mem:
  "ok b \<Longrightarrow> ok b' \<Longrightarrow> hi \<le> size \<Longrightarrow> (\<And>x. even x \<Longrightarrow> lo \<le> x \<Longrightarrow> x < hi \<Longrightarrow> mem b' x = mem b x) \<Longrightarrow> agree d b b' lo hi"
  by (simp add: agree_def reads)

lemma read_bulk:
  "ok b \<Longrightarrow> even a \<Longrightarrow> a + 2 * n \<le> size \<Longrightarrow>
     backing_store_read_bulk d a n b = Some (map (\<lambda>i. mem b (a + 2 * i)) [0..<n])"
proof (induction n arbitrary: a)
  case (Suc n)
  then show ?case
    using Suc.IH [of "a + 2"] by (simp add: reads map_upt_Suc del: upt_Suc)
qed simp

lemma write_bulk:
  "ok b \<Longrightarrow> \<not> locked b \<Longrightarrow> even a \<Longrightarrow> a + 2 * length ws \<le> size \<Longrightarrow>
   (\<forall>i < length ws. mem b (a + 2 * i) = 0) \<Longrightarrow> backing_store_write_bulk d a ws b = (r, b') \<Longrightarrow>
   r \<and> ok b' \<and> \<not> locked b' \<and> (\<forall>i < length ws. mem b' (a + 2 * i) = ws ! i) \<and>
   (\<forall>x. even x \<and> x < size \<and> (x < a \<or> a + 2 * length ws \<le> x) \<longrightarrow> mem b' x = mem b x)"
proof (induction ws arbitrary: a b)
  case (Cons w ws)
  define b1 where "b1 = snd (bs_write d a w b)"
  have a: "a < size" "mem b a = 0"
    using Cons.prems(4,5) by auto
  note w = writes [OF Cons.prems(1-3) a, of w, folded b1_def]
  have b1: "ok b1" "\<not> locked b1" "\<And>x. even x \<Longrightarrow> x < size \<Longrightarrow> mem b1 x = (if x = a then w else mem b x)"
    using w by auto
  have run: "backing_store_write_bulk d (a + 2) ws b1 = (r, b')"
    using Cons.prems(6) w by (simp add: b1_def split_beta)
  have zero: "\<forall>i < length ws. mem b1 (a + 2 + 2 * i) = 0"
  proof (intro allI impI)
    fix i
    assume i: "i < length ws"
    then have "mem b (a + 2 * Suc i) = 0"
      using Cons.prems(5) by (metis length_Cons Suc_less_eq)
    then show "mem b1 (a + 2 + 2 * i) = 0"
      using b1(3) [of "a + 2 + 2 * i"] Cons.prems(3,4) i by (simp add: algebra_simps)
  qed
  have IH: "r \<and> ok b' \<and> \<not> locked b' \<and> (\<forall>i < length ws. mem b' (a + 2 + 2 * i) = ws ! i) \<and>
     (\<forall>x. even x \<and> x < size \<and> (x < a + 2 \<or> a + 2 + 2 * length ws \<le> x) \<longrightarrow> mem b' x = mem b1 x)"
    using Cons.IH [OF b1(1,2) _ _ zero run] Cons.prems(3,4) by simp
  have "mem b' (a + 2 * i) = (w # ws) ! i" if "i < length (w # ws)" for i
  proof (cases i)
    case 0
    then show ?thesis
      using IH b1(3) [of a] Cons.prems(3) a by simp
  next
    case (Suc j)
    then show ?thesis
      using IH that by (auto simp: algebra_simps)
  qed
  moreover have "mem b' x = mem b x" if "even x" "x < size" "x < a \<or> a + 2 * length (w # ws) \<le> x" for x
    using IH b1(3) [of x] that by auto
  ultimately show ?case
    using IH by blast
qed simp

text \<open>The consolidated data depend on the half words below the log only.\<close>

lemma consolidated_cache_eq:
  assumes "ok b" "sizes_ok cf" "WEAR_LEVELING_BACKING_SIZE cf \<le> size"
  shows "consolidated_cache cf d b =
    (let c = bytes_of_words (map (\<lambda>i. mem b (2 * i)) [0..<WEAR_LEVELING_LOGICAL_SIZE cf div 2])
     in if map (\<lambda>i. mem b (WEAR_LEVELING_LOGICAL_SIZE cf + 2 * i)) [0..<4] = u64_words (fnv_64a_buf c FNV1A_64_INIT)
        then c else replicate (WEAR_LEVELING_LOGICAL_SIZE cf) 0)"
  using assms
  by (simp add: consolidated_cache_def wear_leveling_read_consolidated_def read_bulk sizes_ok_def Let_def
      wear_leveling_clear_cache_def)

lemma consolidated_cache_cong:
  assumes "ok b" "ok b'" "sizes_ok cf" "WEAR_LEVELING_BACKING_SIZE cf \<le> size"
    and "\<And>x. even x \<Longrightarrow> x < WEAR_LEVELING_LOGICAL_SIZE cf + 8 \<Longrightarrow> mem b' x = mem b x"
  shows "consolidated_cache cf d b' = consolidated_cache cf d b"
proof -
  have "map (\<lambda>i. mem b' (2 * i)) [0..<WEAR_LEVELING_LOGICAL_SIZE cf div 2] =
      map (\<lambda>i. mem b (2 * i)) [0..<WEAR_LEVELING_LOGICAL_SIZE cf div 2]"
    by (rule map_cong) (auto intro!: assms(5))
  moreover have "map (\<lambda>i. mem b' (WEAR_LEVELING_LOGICAL_SIZE cf + 2 * i)) [0..<4] =
      map (\<lambda>i. mem b (WEAR_LEVELING_LOGICAL_SIZE cf + 2 * i)) [0..<4]"
    using assms(3) by (intro map_cong) (auto intro!: assms(5) simp: sizes_ok_def)
  ultimately show ?thesis
    unfolding consolidated_cache_eq [OF assms(1,3,4)] consolidated_cache_eq [OF assms(2-4)] by (simp only:)
qed

lemma length_consolidated_cache:
  assumes "ok b" "sizes_ok cf" "WEAR_LEVELING_BACKING_SIZE cf \<le> size"
  shows "length (consolidated_cache cf d b) = WEAR_LEVELING_LOGICAL_SIZE cf"
  using assms(2) unfolding consolidated_cache_eq [OF assms] by (simp add: Let_def sizes_ok_def)

text \<open>
  A change of the store that keeps the half words below the write address keeps what is durable.
\<close>

lemma durable_cong:
  assumes "durable cf d b a c" "ok b" "ok b'" "sizes_ok cf" "WEAR_LEVELING_BACKING_SIZE cf \<le> size"
    and "a \<le> size" "WEAR_LEVELING_LOGICAL_SIZE cf + 8 \<le> a" "\<And>x. even x \<Longrightarrow> x < a \<Longrightarrow> mem b' x = mem b x"
  shows "durable cf d b' a c"
proof -
  have "consolidated_cache cf d b' = consolidated_cache cf d b"
    using assms(7,8) by (intro consolidated_cache_cong [OF assms(2-5)]) simp
  moreover have "agree d b b' (WEAR_LEVELING_LOGICAL_SIZE cf + 8) a"
    using assms(2,3,6,8) by (intro agree_mem) auto
  ultimately show ?thesis
    using plays_cong [OF assms(1) [unfolded durable_def]] assms(4) by (simp add: durable_def sizes_ok_def)
qed

end

section \<open>Writing keeps the data durable\<close>

definition erased_from ::
    "wear_leveling_config \<Rightarrow> ('b \<Rightarrow> nat \<Rightarrow> u16) \<Rightarrow> 'b \<Rightarrow> nat \<Rightarrow> bool" where
  "erased_from cf mem b a \<longleftrightarrow> (\<forall>x. even x \<and> a \<le> x \<and> x < WEAR_LEVELING_BACKING_SIZE cf \<longrightarrow> mem b x = 0)"

text \<open>A store that fits the sizes of the configuration.\<close>

locale sized_log_store = log_store d mem locked ok size
  for d :: "'b backing_store" and mem locked ok size +
  fixes cf :: wear_leveling_config
  assumes sizes: "sizes_ok cf" and fits: "WEAR_LEVELING_BACKING_SIZE cf \<le> size"
begin

definition writable :: "'b wear_leveling \<Rightarrow> bool" where
  "writable s \<longleftrightarrow> ok (store s) \<and> \<not> locked (store s) \<and> unlocked s \<and> log_space cf s \<and>
     erased_from cf mem (store s) (write_address s)"

definition saved :: "'b wear_leveling \<Rightarrow> bool" where
  "saved s \<longleftrightarrow> durable cf d (store s) (write_address s) (cache s)"

lemma size_facts:
  "even (WEAR_LEVELING_LOGICAL_SIZE cf)" "even (WEAR_LEVELING_BACKING_SIZE cf)"
  "WEAR_LEVELING_LOGICAL_SIZE cf + 8 < WEAR_LEVELING_BACKING_SIZE cf" "WEAR_LEVELING_LOGICAL_SIZE cf + 8 \<le> size"
  "WEAR_LEVELING_LOGICAL_SIZE cf \<le> 2 ^ 19"
  using sizes fits by (simp_all add: sizes_ok_def)

lemma consolidated:
  assumes "ok b" "length c = WEAR_LEVELING_LOGICAL_SIZE cf"
    and "\<forall>i < length (words_of_bytes c). mem b (2 * i) = words_of_bytes c ! i"
    and "\<forall>i < 4. mem b (WEAR_LEVELING_LOGICAL_SIZE cf + 2 * i) = u64_words (fnv_64a_buf c FNV1A_64_INIT) ! i"
  shows "consolidated_cache cf d b = c"
proof -
  have "map (\<lambda>i. mem b (2 * i)) [0..<WEAR_LEVELING_LOGICAL_SIZE cf div 2] = words_of_bytes c"
    using assms(2,3) by (intro nth_equalityI) (simp_all add: length_words_of_bytes)
  then have c: "bytes_of_words (map (\<lambda>i. mem b (2 * i)) [0..<WEAR_LEVELING_LOGICAL_SIZE cf div 2]) = c"
    using bytes_of_words_of_bytes [of c] assms(2) size_facts(1) by simp
  have "map (\<lambda>i. mem b (WEAR_LEVELING_LOGICAL_SIZE cf + 2 * i)) [0..<4] = u64_words (fnv_64a_buf c FNV1A_64_INIT)"
    using assms(4) by (intro nth_equalityI) (simp_all del: upt_rec_numeral)
  then show ?thesis
    unfolding consolidated_cache_eq [OF assms(1) sizes fits] Let_def c by (simp only: refl if_True)
qed

text \<open>Writing the cache and its checksum into an erased store.\<close>

lemma write_erased:
  assumes "ok b1" "\<not> locked b1" "\<And>a. even a \<Longrightarrow> a < size \<Longrightarrow> mem b1 a = 0" "length c = WEAR_LEVELING_LOGICAL_SIZE cf"
  obtains b2 b3 where "backing_store_write_bulk d 0 (words_of_bytes c) b1 = (True, b2)"
    "backing_store_write_bulk d (WEAR_LEVELING_LOGICAL_SIZE cf) (u64_words (fnv_64a_buf c FNV1A_64_INIT)) b2 = (True, b3)"
    "ok b3" "\<not> locked b3" "consolidated_cache cf d b3 = c" "erased_from cf mem b3 (WEAR_LEVELING_LOGICAL_SIZE cf + 8)"
proof -
  define ws where "ws = words_of_bytes c"
  have ws: "2 * length ws = WEAR_LEVELING_LOGICAL_SIZE cf"
    using assms(4) size_facts(1) by (simp add: ws_def length_words_of_bytes)
  define hs where "hs = u64_words (fnv_64a_buf c FNV1A_64_INIT)"
  obtain r2 b2 where run2: "backing_store_write_bulk d 0 ws b1 = (r2, b2)"
    by (metis surj_pair)
  have b2: "r2" "ok b2" "\<not> locked b2" "\<forall>i < length ws. mem b2 (2 * i) = ws ! i"
    "\<And>x. even x \<Longrightarrow> x < size \<Longrightarrow> WEAR_LEVELING_LOGICAL_SIZE cf \<le> x \<Longrightarrow> mem b2 x = 0"
    using write_bulk [OF assms(1,2) _ _ _ run2] assms(3) ws size_facts(4) by auto
  obtain r3 b3 where run3: "backing_store_write_bulk d (WEAR_LEVELING_LOGICAL_SIZE cf) hs b2 = (r3, b3)"
    by (metis surj_pair)
  have b3: "r3 \<and> ok b3 \<and> \<not> locked b3 \<and>
      (\<forall>i < 4. mem b3 (WEAR_LEVELING_LOGICAL_SIZE cf + 2 * i) = hs ! i) \<and>
      (\<forall>x. even x \<and> x < size \<and> (x < WEAR_LEVELING_LOGICAL_SIZE cf \<or> WEAR_LEVELING_LOGICAL_SIZE cf + 8 \<le> x) \<longrightarrow>
         mem b3 x = mem b2 x)"
    using write_bulk [OF b2(2,3) _ _ _ run3] b2(5) size_facts by (simp add: hs_def)
  have low: "\<forall>i < length ws. mem b3 (2 * i) = ws ! i"
  proof (intro allI impI)
    fix i
    assume "i < length ws"
    then show "mem b3 (2 * i) = ws ! i"
      using b3 b2(4) ws size_facts(4) by auto
  qed
  have "consolidated_cache cf d b3 = c"
    using b3 low assms(4) by (intro consolidated) (simp_all add: ws_def hs_def)
  moreover have "erased_from cf mem b3 (WEAR_LEVELING_LOGICAL_SIZE cf + 8)"
    using b3 b2(5) size_facts fits by (auto simp: erased_from_def)
  ultimately show ?thesis
    using that run2 run3 b2(1) b3 by (simp add: ws_def hs_def)
qed

lemma consolidate_force:
  assumes "ok (store s)" "\<not> locked (store s)" "unlocked s" "length (cache s) = WEAR_LEVELING_LOGICAL_SIZE cf"
  shows "\<exists>s'. wear_leveling_consolidate_force cf d s = (WEAR_LEVELING_CONSOLIDATED, s') \<and> writable s' \<and>
    saved s' \<and> cache s' = cache s"
proof -
  define b1 where "b1 = snd (bs_erase d (store s))"
  have b1: "fst (bs_erase d (store s))" "ok b1" "\<not> locked b1" "\<And>a. even a \<Longrightarrow> a < size \<Longrightarrow> mem b1 a = 0"
    using erases [OF assms(1,2)] by (auto simp: b1_def)
  obtain b2 b3 where run: "backing_store_write_bulk d 0 (words_of_bytes (cache s)) b1 = (True, b2)"
    "backing_store_write_bulk d (WEAR_LEVELING_LOGICAL_SIZE cf) (u64_words (fnv_64a_buf (cache s) FNV1A_64_INIT)) b2 = (True, b3)"
    and b3: "ok b3" "\<not> locked b3" "consolidated_cache cf d b3 = cache s" "erased_from cf mem b3 (WEAR_LEVELING_LOGICAL_SIZE cf + 8)"
    using write_erased [OF b1(2-4) assms(4)] by blast
  define s' where "s' = s\<lparr>store := b3, write_address := WEAR_LEVELING_LOGICAL_SIZE cf + 8\<rparr>"
  have "wear_leveling_consolidate_force cf d s = (WEAR_LEVELING_CONSOLIDATED, s')"
    using b1(1) run assms(3)
    by (simp add: wear_leveling_consolidate_force_def wear_leveling_write_consolidated_def wear_leveling_unlock_def
        split_beta Let_def s'_def b1_def)
  moreover have "writable s'" "saved s'"
    using b3 assms(3,4) size_facts by (auto simp: writable_def saved_def durable_def plays_refl s'_def log_space_def)
  ultimately show ?thesis
    by (auto simp: s'_def)
qed

text \<open>What appending may end in: the words are in the log, or the whole cache was consolidated.\<close>

definition appended :: "u16 list \<Rightarrow> 'b wear_leveling \<Rightarrow> wear_leveling_status_t \<Rightarrow> 'b wear_leveling \<Rightarrow> bool" where
  "appended ws s status s' \<longleftrightarrow> writable s' \<and> cache s' = cache s \<and>
    (status = WEAR_LEVELING_CONSOLIDATED \<and> saved s' \<or>
     status = WEAR_LEVELING_SUCCESS \<and> write_address s' = write_address s + 2 * length ws \<and>
     (\<forall>i < length ws. mem (store s') (write_address s + 2 * i) = ws ! i) \<and>
     (\<forall>x. even x \<and> x < write_address s \<longrightarrow> mem (store s') x = mem (store s) x))"

lemma append_raw:
  assumes "writable s" "wear_leveling_append_raw cf d v s = (status, s')"
  shows "appended [v] s status s'"
proof -
  define b1 where "b1 = snd (bs_write d (write_address s) v (store s))"
  define s1 where "s1 = s\<lparr>store := b1, write_address := write_address s + 2\<rparr>"
  have pre: "ok (store s)" "\<not> locked (store s)" "even (write_address s)" "write_address s < size"
    "mem (store s) (write_address s) = 0"
    using assms(1) fits by (auto simp: writable_def log_space_def erased_from_def)
  have b1: "fst (bs_write d (write_address s) v (store s))" "ok b1" "\<not> locked b1"
    "\<And>x. even x \<Longrightarrow> x < size \<Longrightarrow> mem b1 x = (if x = write_address s then v else mem (store s) x)"
    using writes [OF pre, of v] by (auto simp: b1_def)
  have run: "(status, s') = wear_leveling_consolidate_if_needed cf d s1"
    using assms(2) b1(1) by (simp add: wear_leveling_append_raw_def split_beta s1_def b1_def Let_def)
  show ?thesis
  proof (cases "WEAR_LEVELING_BACKING_SIZE cf \<le> write_address s + 2")
    case True
    then have "(status, s') = wear_leveling_consolidate_force cf d s1"
      using run by (simp add: wear_leveling_consolidate_if_needed_def s1_def)
    moreover obtain s2 where "wear_leveling_consolidate_force cf d s1 = (WEAR_LEVELING_CONSOLIDATED, s2)" "writable s2"
      "saved s2" "cache s2 = cache s1"
      using consolidate_force [of s1] b1(2,3) assms(1) by (auto simp: s1_def writable_def log_space_def)
    ultimately show ?thesis
      by (simp add: appended_def s1_def)
  next
    case False
    then have "status = WEAR_LEVELING_SUCCESS" "s' = s1"
      using run by (simp_all add: wear_leveling_consolidate_if_needed_def s1_def)
    then show ?thesis
      using False b1 assms(1) fits pre(4)
      by (auto simp: appended_def s1_def writable_def log_space_def erased_from_def)
  qed
qed

lemma append_all:
  "writable s \<Longrightarrow> append_words cf d ws s = (status, s') \<Longrightarrow> appended ws s status s'"
proof (induction ws arbitrary: s)
  case Nil
  then show ?case
    by (simp add: appended_def)
next
  case (Cons w ws)
  obtain status1 s1 where step: "wear_leveling_append_raw cf d w s = (status1, s1)"
    by (metis surj_pair)
  note one = append_raw [OF Cons.prems(1) step]
  show ?case
  proof (cases "status1 = WEAR_LEVELING_SUCCESS")
    case True
    then have run: "append_words cf d ws s1 = (status, s')"
      using Cons.prems(2) step by simp
    have IH: "appended ws s1 status s'"
      using one by (intro Cons.IH [OF _ run]) (simp add: appended_def)
    have wa: "write_address s1 = write_address s + 2" "mem (store s1) (write_address s) = w" "even (write_address s)"
      using one True Cons.prems(1) by (auto simp: appended_def writable_def log_space_def)
    have "mem (store s') (write_address s + 2 * i) = (w # ws) ! i"
      if "status = WEAR_LEVELING_SUCCESS" "i < length (w # ws)" for i
      using IH wa that by (cases i) (auto simp: appended_def algebra_simps)
    moreover have "mem (store s') x = mem (store s) x"
      if "status = WEAR_LEVELING_SUCCESS" "even x" "x < write_address s" for x
      using IH wa that one True by (auto simp: appended_def)
    ultimately show ?thesis
      using IH wa one by (auto simp: appended_def)
  next
    case False
    then show ?thesis
      using Cons.prems(2) step one by (auto simp: appended_def)
  qed
qed

end

context sized_log_store
begin

text \<open>One round of \<open>wear_leveling_write_raw\<close>: the words it appends play back the bytes it takes.\<close>

definition round_words :: "nat \<Rightarrow> u8 list \<Rightarrow> u16 list" where
  "round_words address p =
    (case snd (next_write address p) of Some ws \<Rightarrow> ws
     | None \<Rightarrow>
        (let log = multibyte_log address (take (fst (next_write address p)) p); n = fst (next_write address p)
         in [raw16 log 0, raw16 log 1] @ (if 1 < n then [raw16 log 2] else []) @ (if 3 < n then [raw16 log 3] else [])))"

lemma write_raw_rec:
  "p \<noteq> [] \<Longrightarrow> wear_leveling_write_raw cf d address p s =
    (let (status, s) = append_words cf d (round_words address p) s
     in if status \<noteq> WEAR_LEVELING_SUCCESS then (status, s)
        else wear_leveling_write_raw cf d (address + fst (next_write address p)) (drop (fst (next_write address p)) p) s)"
  using next_write_pos [of p address]
  by (subst wear_leveling_write_raw.simps)
    (simp add: split_beta round_words_def wear_leveling_write_raw_multibyte_def Let_def min_def split: option.split)

lemma round_plays:
  assumes "p \<noteq> []" "address + length p \<le> length c" "length c = WEAR_LEVELING_LOGICAL_SIZE cf"
    and "ok b" "even a" "a + 2 * length (round_words address p) \<le> size" "a < WEAR_LEVELING_BACKING_SIZE cf"
    and "\<forall>i < length (round_words address p). mem b (a + 2 * i) = round_words address p ! i"
  shows "plays cf d b a c (a + 2 * length (round_words address p)) (put_bytes address (take (fst (next_write address p)) p) c)"
proof -
  have rd: "bs_read d (a + 2 * i) b = Some (round_words address p ! i)" if "i < length (round_words address p)" for i
    using assms(4-6,8) that by (simp add: reads)
  define W where "W \<longleftrightarrow> 2 \<le> length p \<and> address mod 2 = 0 \<and> address < 16384 \<and> le16 (p ! 0) (p ! 1) \<in> {0, 1}"
  consider (word) W | (small) "\<not> W" "address < 64" | (multi) "\<not> W" "\<not> address < 64"
    by blast
  then show ?thesis
  proof cases
    case word
    note word = word [unfolded W_def]
    then have nw: "next_write address p = (2, Some [raw16 (LOG_ENTRY_MAKE_WORD_01 (of_nat address) (le16 (p ! 0) (p ! 1))) 0])"
      by (simp add: next_write_def)
    have "take 2 p = [p ! 0, p ! 1]"
      using word by (cases p; cases "tl p") auto
    then show ?thesis
      using plays_word_01 [of address c cf "p ! 0" "p ! 1" d a b] word assms(2,3,7) rd [of 0]
      by (simp add: nw round_words_def mod2_eq_if split: if_splits)
  next
    case small
    then have nw: "next_write address p = (1, Some [raw16 (LOG_ENTRY_MAKE_OPTIMIZED_64 (of_nat address) (p ! 0)) 0])"
      unfolding next_write_def W_def by (simp only: if_False if_True)
    have "take 1 p = [p ! 0]" "address < length c"
      using assms(1,2) by (cases p; simp)+
    then show ?thesis
      using plays_optimized [of address c cf d a b "p ! 0"] small(2) assms(3,7) rd [of 0]
      by (simp add: nw round_words_def)
  next
    case multi
    define n where "n = (if 5 \<le> length p then 5 else length p)"
    define q where "q = take n p"
    define log where "log = multibyte_log address q"
    have nw: "next_write address p = (n, None)"
      using multi unfolding next_write_def n_def W_def by (simp only: if_False)
    have n: "0 < n" "n \<le> 5" "n \<le> length p"
      using assms(1) by (simp_all add: n_def)
    then have q: "length q = n"
      by (simp add: q_def)
    have words: "round_words address p =
        [raw16 log 0, raw16 log 1] @ (if 1 < n then [raw16 log 2] else []) @ (if 3 < n then [raw16 log 3] else [])"
      by (simp add: round_words_def nw log_def q_def Let_def)
    have len: "2 * length (round_words address p) = 4 + (if 1 < n then 2 else 0) + (if 3 < n then 2 else 0)"
      by (simp add: words)
    have r: "bs_read d a b = Some (raw16 log 0)" "bs_read d (a + 2) b = Some (raw16 log 1)"
      "1 < n \<Longrightarrow> bs_read d (a + 4) b = Some (raw16 log 2)" "3 < n \<Longrightarrow> bs_read d (a + 6) b = Some (raw16 log 3)"
      using rd [of 0] rd [of 1] rd [of 2] rd [of 3] by (simp_all add: words)
    have "plays cf d b a c (a + 4 + (if 1 < length q then 2 else 0) + (if 3 < length q then 2 else 0)) (put_bytes address q c)"
      by (rule plays_multibyte) (use n q assms(2,3,7) size_facts(5) r in \<open>simp_all add: log_def\<close>)
    then show ?thesis
      by (simp only: nw fst_conv q_def [symmetric] len q add.assoc)
  qed
qed

lemma write_raw:
  "writable s \<Longrightarrow> durable cf d (store s) (write_address s) c \<Longrightarrow> length c = WEAR_LEVELING_LOGICAL_SIZE cf \<Longrightarrow>
   address + length p \<le> length c \<Longrightarrow> cache s = put_bytes address p c \<Longrightarrow>
   wear_leveling_write_raw cf d address p s = (status, s') \<Longrightarrow>
   status \<noteq> WEAR_LEVELING_FAILED \<and> writable s' \<and> saved s' \<and> cache s' = cache s"
proof (induction "length p" arbitrary: p address s c rule: less_induct)
  case less
  show ?case
  proof (cases "p = []")
    case True
    then show ?thesis
      using less.prems by (simp add: wear_leveling_write_raw.simps saved_def)
  next
    case False
    define n where "n = fst (next_write address p)"
    define ws where "ws = round_words address p"
    have n: "0 < n" "n \<le> length p"
      using next_write_pos [OF False] by (simp_all add: n_def)
    obtain status1 s1 where step: "append_words cf d ws s = (status1, s1)"
      by (metis surj_pair)
    note app = append_all [OF less.prems(1) step]
    note rec = write_raw_rec [OF False, of address s, folded n_def ws_def, unfolded step]
    show ?thesis
    proof (cases "status1 = WEAR_LEVELING_SUCCESS")
      case True
      have run: "wear_leveling_write_raw cf d (address + n) (drop n p) s1 = (status, s')"
        using less.prems(6) rec True by simp
      have wa: "write_address s1 = write_address s + 2 * length ws" "write_address s1 < WEAR_LEVELING_BACKING_SIZE cf"
        "cache s1 = cache s" "writable s1" "ok (store s)" "ok (store s1)" "even (write_address s)"
        "write_address s < WEAR_LEVELING_BACKING_SIZE cf" "WEAR_LEVELING_LOGICAL_SIZE cf + 8 \<le> write_address s"
        using app True less.prems(1) by (auto simp: appended_def writable_def log_space_def)
      have "plays cf d (store s1) (write_address s) c (write_address s1) (put_bytes address (take n p) c)"
        unfolding wa(1) n_def ws_def
        by (rule round_plays [OF False less.prems(4,3) wa(6,7)])
          (use app True wa fits in \<open>auto simp: appended_def ws_def\<close>)
      moreover have "durable cf d (store s1) (write_address s) c"
        by (rule durable_cong [OF less.prems(2) wa(5,6) sizes fits]) (use app True wa fits in \<open>auto simp: appended_def\<close>)
      ultimately have "durable cf d (store s1) (write_address s1) (put_bytes address (take n p) c)"
        by (auto simp: durable_def intro: plays_trans)
      moreover have "cache s1 = put_bytes (address + n) (drop n p) (put_bytes address (take n p) c)"
        using put_bytes_split [OF less.prems(4) n(2)] less.prems(5) wa(3) by simp
      ultimately have "status \<noteq> WEAR_LEVELING_FAILED \<and> writable s' \<and> saved s' \<and> cache s' = cache s1"
        using n less.prems(3,4) by (intro less.hyps [OF _ wa(4) _ _ _ _ run]) auto
      then show ?thesis
        using wa(3) by simp
    next
      case no: False
      then have "status = status1" "s' = s1"
        using less.prems(6) rec by simp_all
      then show ?thesis
        using app no by (auto simp: appended_def)
    qed
  qed
qed

text \<open>The resting state of the component, between two operations.\<close>

definition resting :: "'b wear_leveling \<Rightarrow> bool" where
  "resting s \<longleftrightarrow> ok (store s) \<and> log_space cf s \<and> erased_from cf mem (store s) (write_address s) \<and> saved s \<and> \<not> unlocked s"

lemma mem_same_rests:
  assumes "ok b" "ok b'" "log_space cf s" "erased_from cf mem b (write_address s)"
    "durable cf d b (write_address s) c" "\<And>x. even x \<Longrightarrow> x < size \<Longrightarrow> mem b' x = mem b x"
  shows "erased_from cf mem b' (write_address s) \<and> durable cf d b' (write_address s) c"
proof
  show "erased_from cf mem b' (write_address s)"
    using assms(4,6) fits by (auto simp: erased_from_def)
  show "durable cf d b' (write_address s) c"
    by (rule durable_cong [OF assms(5,1,2) sizes fits]) (use assms(3,6) fits in \<open>auto simp: log_space_def\<close>)
qed

lemma unlock_rest:
  assumes "resting s"
  obtains s1 where "wear_leveling_unlock d s = (STATUS_SUCCESS, s1)" "writable s1" "saved s1" "cache s1 = cache s"
    "write_address s1 = write_address s"
proof
  define b where "b = snd (bs_unlock d (store s))"
  have b: "fst (bs_unlock d (store s))" "ok b" "\<not> locked b" "\<And>x. even x \<Longrightarrow> x < size \<Longrightarrow> mem b x = mem (store s) x"
    using unlocks [of "store s"] assms by (auto simp: b_def resting_def)
  show "wear_leveling_unlock d s = (STATUS_SUCCESS, s\<lparr>store := b, unlocked := True\<rparr>)"
    using assms b(1) by (simp add: wear_leveling_unlock_def split_beta b_def resting_def)
  have "erased_from cf mem b (write_address s) \<and> durable cf d b (write_address s) (cache s)"
    by (rule mem_same_rests [OF _ b(2) _ _ _ b(4)]) (use assms in \<open>auto simp: resting_def saved_def\<close>)
  then show "writable (s\<lparr>store := b, unlocked := True\<rparr>)" "saved (s\<lparr>store := b, unlocked := True\<rparr>)"
    using b assms by (auto simp: writable_def saved_def resting_def log_space_def)
qed simp_all

lemma lock_rest:
  assumes "writable s" "saved s"
  obtains s1 where "wear_leveling_lock d s = (STATUS_SUCCESS, s1)" "resting s1" "cache s1 = cache s"
proof
  define b where "b = snd (bs_lock d (store s))"
  have b: "fst (bs_lock d (store s))" "ok b" "\<And>x. even x \<Longrightarrow> x < size \<Longrightarrow> mem b x = mem (store s) x"
    using locks [of "store s"] assms by (auto simp: b_def writable_def)
  show "wear_leveling_lock d s = (STATUS_SUCCESS, s\<lparr>store := b, unlocked := False\<rparr>)"
    using assms b(1) by (simp add: wear_leveling_lock_def split_beta b_def writable_def)
  have "erased_from cf mem b (write_address s) \<and> durable cf d b (write_address s) (cache s)"
    by (rule mem_same_rests [OF _ b(2) _ _ _ b(3)]) (use assms in \<open>auto simp: writable_def saved_def\<close>)
  then show "resting (s\<lparr>store := b, unlocked := False\<rparr>)"
    using b assms by (auto simp: resting_def writable_def saved_def log_space_def)
qed simp

lemma init_restores:
  assumes "resting s"
  obtains t' where "wear_leveling_init cf d (t\<lparr>store := store s\<rparr>) = (WEAR_LEVELING_SUCCESS, t')" "cache t' = cache s"
    "unlocked t' = unlocked t" "\<not> unlocked t \<Longrightarrow> resting t'"
proof
  define b where "b = snd (bs_init d (store s))"
  have b: "fst (bs_init d (store s))" "ok b" "\<And>x. even x \<Longrightarrow> x < size \<Longrightarrow> mem b x = mem (store s) x"
    using inits [of "store s"] assms by (auto simp: b_def resting_def)
  define t1 where "t1 = t\<lparr>store := b, cache := cache s, write_address := write_address s\<rparr>"
  have sp: "ok (store s)" "log_space cf s" "erased_from cf mem (store s) (write_address s)"
    "durable cf d (store s) (write_address s) (cache s)"
    using assms by (simp_all add: resting_def saved_def)
  have keep: "erased_from cf mem b (write_address s)" "durable cf d b (write_address s) (cache s)"
    using mem_same_rests [OF sp(1) b(2) sp(2-4) b(3)] by simp_all
  have zero: "mem b (write_address s) = 0" "write_address s < WEAR_LEVELING_BACKING_SIZE cf"
    using keep(1) sp(2) by (simp_all add: erased_from_def log_space_def)
  define t0 where "t0 = t\<lparr>cache := replicate (WEAR_LEVELING_LOGICAL_SIZE cf) 0,
    write_address := WEAR_LEVELING_LOGICAL_SIZE cf + 8, store := b\<rparr>"
  define t2 where "t2 = snd (wear_leveling_read_consolidated cf d t0)"
  have read: "wear_leveling_read_consolidated cf d t0 = (WEAR_LEVELING_SUCCESS, t2)"
    "cache t2 = consolidated_cache cf d b" "store t2 = b" "unlocked t2 = unlocked t"
    using b(2) size_facts
    by (simp_all add: t2_def wear_leveling_read_consolidated_def consolidated_cache_def read_bulk t0_def
        wear_leveling_clear_cache_def Let_def)
  have "playback_loop cf d b (WEAR_LEVELING_LOGICAL_SIZE cf + 8) (consolidated_cache cf d b) =
      playback_loop cf d b (write_address s) (cache s)"
    using keep(2) by (simp add: durable_def plays_loop)
  also have "\<dots> = (cache s, write_address s, True)"
    using zero b(2) sp(2) fits by (subst playback_loop.simps) (simp add: reads log_space_def)
  finally have play: "playback_loop cf d b (WEAR_LEVELING_LOGICAL_SIZE cf + 8) (consolidated_cache cf d b) =
      (cache s, write_address s, True)" .
  have log: "wear_leveling_playback_log cf d t2 = (WEAR_LEVELING_SUCCESS, t2\<lparr>cache := cache s, write_address := write_address s\<rparr>)"
    using zero(2) by (simp add: wear_leveling_playback_log_def read play wear_leveling_consolidate_if_needed_def Let_def)
  define t3 where "t3 = t2\<lparr>cache := cache s, write_address := write_address s\<rparr>"
  show "wear_leveling_init cf d (t\<lparr>store := store s\<rparr>) = (WEAR_LEVELING_SUCCESS, t3)"
    using b(1) read log
    by (simp add: wear_leveling_init_def wear_leveling_clear_cache_def split_beta Let_def b_def t0_def t3_def)
  show "cache t3 = cache s" "unlocked t3 = unlocked t"
    by (simp_all add: t3_def read)
  show "resting t3" if "\<not> unlocked t"
    using keep sp b(2) that read by (simp add: resting_def t3_def log_space_def saved_def)
qed

text \<open>A store of zeros is an empty log over zeros.\<close>

lemma blank_durable:
  assumes "ok b" "\<And>x. even x \<Longrightarrow> x < size \<Longrightarrow> mem b x = 0"
  shows "durable cf d b (WEAR_LEVELING_LOGICAL_SIZE cf + 8) (replicate (WEAR_LEVELING_LOGICAL_SIZE cf) 0)"
proof -
  have "map (\<lambda>i. mem b (2 * i)) [0..<WEAR_LEVELING_LOGICAL_SIZE cf div 2] =
      replicate (WEAR_LEVELING_LOGICAL_SIZE cf div 2) 0"
    using assms(2) size_facts by (intro nth_equalityI) simp_all
  moreover have "bytes_of_words (replicate n 0) = replicate (2 * n) 0" for n
    by (induction n) (simp_all add: bytes_of_words_def)
  ultimately have "consolidated_cache cf d b = replicate (WEAR_LEVELING_LOGICAL_SIZE cf) 0"
    using size_facts(1) unfolding consolidated_cache_eq [OF assms(1) sizes fits] Let_def by simp
  then show ?thesis
    by (simp add: durable_def plays_refl)
qed

lemma blank_rests:
  assumes "ok b" "\<And>x. even x \<Longrightarrow> x < size \<Longrightarrow> mem b x = 0" "store s = b" "\<not> unlocked s"
  shows "resting (wear_leveling_clear_cache cf s)"
  using blank_durable [OF assms(1,2)] assms size_facts fits
  by (auto simp: resting_def saved_def wear_leveling_clear_cache_def log_space_def erased_from_def)

lemma erase_rests:
  assumes "resting s"
  obtains s' where "wear_leveling_erase cf d s = (WEAR_LEVELING_SUCCESS, s')" "resting s'"
    "cache s' = replicate (WEAR_LEVELING_LOGICAL_SIZE cf) 0"
proof -
  obtain s1 where s1: "wear_leveling_unlock d s = (STATUS_SUCCESS, s1)" "writable s1"
    using unlock_rest [OF assms] by metis
  define b where "b = snd (bs_erase d (store s1))"
  have b: "fst (bs_erase d (store s1))" "ok b" "\<not> locked b" "\<And>x. even x \<Longrightarrow> x < size \<Longrightarrow> mem b x = 0"
    using erases [of "store s1"] s1(2) by (auto simp: b_def writable_def)
  define s2 where "s2 = wear_leveling_clear_cache cf (s1\<lparr>store := b\<rparr>)"
  have s2: "writable s2" "saved s2" "cache s2 = replicate (WEAR_LEVELING_LOGICAL_SIZE cf) 0"
    using blank_durable [OF b(2,4)] b s1(2) size_facts fits
    by (auto simp: s2_def writable_def saved_def wear_leveling_clear_cache_def log_space_def erased_from_def)
  obtain s3 where s3: "wear_leveling_lock d s2 = (STATUS_SUCCESS, s3)" "resting s3" "cache s3 = cache s2"
    using lock_rest [OF s2(1,2)] by metis
  show ?thesis
  proof (rule that [of s3])
    show "wear_leveling_erase cf d s = (WEAR_LEVELING_SUCCESS, s3)"
      using b(1) s3(1)
      by (simp add: wear_leveling_erase_def s1(1) split_beta Let_def b_def s2_def)
  qed (use s3 s2 in simp_all)
qed

lemma unlock_cache:
  "wear_leveling_unlock d (s\<lparr>cache := c\<rparr>) =
     (fst (wear_leveling_unlock d s), snd (wear_leveling_unlock d s)\<lparr>cache := c\<rparr>)"
  by (simp add: wear_leveling_unlock_def split_beta)

lemma in_range:
  assumes "unat address + n \<le> WEAR_LEVELING_LOGICAL_SIZE cf"
  shows "\<not> out_of_range cf address (of_nat n)"
proof -
  have "unat (address + of_nat n :: u32) = unat address + n"
    using assms size_facts(5) by (simp add: unat_word_ariths unat_of_nat)
  then show ?thesis
    using assms size_facts(5) by (simp add: out_of_range_def word_less_nat_alt unat_of_nat)
qed

lemma write_rests:
  assumes "resting s" "unat address + length v \<le> WEAR_LEVELING_LOGICAL_SIZE cf"
  obtains status s' where "wear_leveling_write cf d address v s = (status, s')" "status \<noteq> WEAR_LEVELING_FAILED"
    "resting s'" "cache s' = put_bytes (unat address) v (cache s)"
proof (cases "take (length v) (drop (unat address) (cache s)) = v")
  case True
  have "put_bytes (unat address) v (cache s) = cache s"
  proof -
    have "drop (unat address + length v) (cache s) = drop (length v) (drop (unat address) (cache s))"
      by (simp add: add.commute)
    then show ?thesis
      using True by (metis append_take_drop_id put_bytes_def)
  qed
  then show ?thesis
    using that [of WEAR_LEVELING_SUCCESS s] in_range [OF assms(2)] True assms(1)
    by (simp add: wear_leveling_write_def Let_def)
next
  case False
  define c where "c = put_bytes (unat address) v (cache s)"
  have len: "length (cache s) = WEAR_LEVELING_LOGICAL_SIZE cf"
    using assms(1) by (simp add: resting_def log_space_def)
  obtain s1 where s1: "wear_leveling_unlock d s = (STATUS_SUCCESS, s1)" "writable s1" "saved s1" "cache s1 = cache s"
    using unlock_rest [OF assms(1)] by metis
  obtain status s2 where run: "wear_leveling_write_raw cf d (unat address) v (s1\<lparr>cache := c\<rparr>) = (status, s2)"
    by (metis surj_pair)
  have "status \<noteq> WEAR_LEVELING_FAILED \<and> writable s2 \<and> saved s2 \<and> cache s2 = cache (s1\<lparr>cache := c\<rparr>)"
    by (rule write_raw [OF _ _ _ _ _ run, of "cache s"])
      (use s1 len assms(2) in \<open>simp_all add: c_def writable_def saved_def log_space_def\<close>)
  then have s2: "status \<noteq> WEAR_LEVELING_FAILED \<and> writable s2 \<and> saved s2 \<and> cache s2 = c"
    by simp
  then have room: "wear_leveling_consolidate_if_needed cf d s2 = (WEAR_LEVELING_SUCCESS, s2)"
    by (simp add: wear_leveling_consolidate_if_needed_def writable_def log_space_def)
  obtain s3 where s3: "wear_leveling_lock d s2 = (STATUS_SUCCESS, s3)" "resting s3" "cache s3 = cache s2"
    using lock_rest s2 by metis
  show ?thesis
  proof (rule that [of status s3])
    show "wear_leveling_write cf d address v s = (status, s3)"
      using in_range [OF assms(2)] False s1(1) run room s3(1)
      by (simp add: wear_leveling_write_def Let_def unlock_cache c_def split_beta)
  qed (use s2 s3 in \<open>simp_all add: c_def\<close>)
qed

end

section \<open>The component as an array of bytes\<close>

text \<open>What the rest of the firmware does with the component; a power cycle clears the RAM and runs the initialisation.\<close>

datatype eeprom_op = Write_block u32 "u8 list" | Erase_all | Power_cycle

definition power_on :: "wear_leveling_config \<Rightarrow> 'b \<Rightarrow> 'b wear_leveling" where
  "power_on cf b =
    \<lparr>cache = replicate (WEAR_LEVELING_LOGICAL_SIZE cf) 0, write_address = 0, unlocked = False, store = b\<rparr>"

fun eeprom_step ::
    "wear_leveling_config \<Rightarrow> 'b backing_store \<Rightarrow> ('b \<Rightarrow> 'b) \<Rightarrow> eeprom_op \<Rightarrow> 'b wear_leveling \<Rightarrow>
     wear_leveling_status_t \<times> 'b wear_leveling" where
  "eeprom_step cf d rs (Write_block a v) s = wear_leveling_write cf d a v s"
| "eeprom_step cf d rs Erase_all s = wear_leveling_erase cf d s"
| "eeprom_step cf d rs Power_cycle s = wear_leveling_init cf d (power_on cf (rs (store s)))"

fun eeprom_run ::
    "wear_leveling_config \<Rightarrow> 'b backing_store \<Rightarrow> ('b \<Rightarrow> 'b) \<Rightarrow> eeprom_op list \<Rightarrow> 'b wear_leveling \<Rightarrow>
     wear_leveling_status_t list \<times> 'b wear_leveling" where
  "eeprom_run cf d rs [] s = ([], s)"
| "eeprom_run cf d rs (x # xs) s =
    (let (status, s) = eeprom_step cf d rs x s; (statuses, s) = eeprom_run cf d rs xs s in (status # statuses, s))"

text \<open>The abstract array, and the operations inside it.\<close>

fun array_step :: "wear_leveling_config \<Rightarrow> eeprom_op \<Rightarrow> u8 list \<Rightarrow> u8 list" where
  "array_step cf (Write_block a v) c = put_bytes (unat a) v c"
| "array_step cf Erase_all c = replicate (WEAR_LEVELING_LOGICAL_SIZE cf) 0"
| "array_step cf Power_cycle c = c"

fun in_array :: "wear_leveling_config \<Rightarrow> eeprom_op \<Rightarrow> bool" where
  "in_array cf (Write_block a v) \<longleftrightarrow> unat a + length v \<le> WEAR_LEVELING_LOGICAL_SIZE cf"
| "in_array cf _ \<longleftrightarrow> True"

text \<open>A store whose contents a reset keeps.\<close>

locale resettable_log_store = sized_log_store d mem locked ok size cf
  for d :: "'b backing_store" and mem locked ok size cf +
  fixes rs :: "'b \<Rightarrow> 'b"
  assumes resets: "ok b \<Longrightarrow> ok (rs b) \<and> (even a \<and> a < size \<longrightarrow> mem (rs b) a = mem b a)"
begin

lemma step_refines:
  assumes "resting s" "in_array cf x"
  obtains status s' where "eeprom_step cf d rs x s = (status, s')" "status \<noteq> WEAR_LEVELING_FAILED" "resting s'"
    "cache s' = array_step cf x (cache s)"
proof (cases x)
  case (Write_block a v)
  then show ?thesis
    using write_rests [OF assms(1), of a v] assms(2) that by auto
next
  case Erase_all
  then show ?thesis
    using erase_rests [OF assms(1)] that by auto
next
  case Power_cycle
  define s0 where "s0 = s\<lparr>store := rs (store s)\<rparr>"
  have ok: "ok (store s)" "ok (store s0)" "log_space cf s" "erased_from cf mem (store s) (write_address s)"
    "durable cf d (store s) (write_address s) (cache s)"
    "\<And>a. even a \<Longrightarrow> a < size \<Longrightarrow> mem (store s0) a = mem (store s) a"
    using assms(1) resets [of "store s"] by (auto simp: resting_def s0_def saved_def)
  have "resting s0"
    using mem_same_rests [OF ok] ok assms(1) by (simp add: resting_def s0_def saved_def log_space_def)
  then obtain t' where t': "wear_leveling_init cf d ((power_on cf (rs (store s)))\<lparr>store := store s0\<rparr>) =
      (WEAR_LEVELING_SUCCESS, t')" "cache t' = cache s0" "resting t'"
    using init_restores [of s0 "power_on cf (rs (store s))"] by (metis (no_types) power_on_def wear_leveling.select_convs(3))
  have "(power_on cf (rs (store s)))\<lparr>store := store s0\<rparr> = power_on cf (rs (store s))"
    by (simp add: power_on_def s0_def)
  then show ?thesis
    using that [of WEAR_LEVELING_SUCCESS t'] t' Power_cycle by (simp add: s0_def)
qed

lemma run_refines:
  "resting s \<Longrightarrow> list_all (in_array cf) xs \<Longrightarrow> eeprom_run cf d rs xs s = (statuses, s') \<Longrightarrow>
   WEAR_LEVELING_FAILED \<notin> set statuses \<and> resting s' \<and> cache s' = fold (array_step cf) xs (cache s)"
proof (induction xs arbitrary: s statuses s')
  case (Cons x xs)
  obtain status s1 where step: "eeprom_step cf d rs x s = (status, s1)" "status \<noteq> WEAR_LEVELING_FAILED" "resting s1"
    "cache s1 = array_step cf x (cache s)"
    using step_refines [of s x] Cons.prems by auto
  obtain statuses1 s2 where run: "eeprom_run cf d rs xs s1 = (statuses1, s2)"
    by (metis surj_pair)
  then show ?case
    using Cons.IH [OF step(3) _ run] Cons.prems step by auto
qed simp

text \<open>From a store of zeros: the first initialisation succeeds.\<close>

lemma run_from_blank:
  assumes "ok b" "\<And>x. even x \<Longrightarrow> x < size \<Longrightarrow> mem b x = 0" "list_all (in_array cf) xs"
    and "eeprom_run cf d rs (Power_cycle # xs) (power_on cf b) = (statuses, s')"
  shows "WEAR_LEVELING_FAILED \<notin> set statuses \<and> resting s' \<and>
    cache s' = fold (array_step cf) xs (replicate (WEAR_LEVELING_LOGICAL_SIZE cf) 0)"
proof -
  define s where "s = wear_leveling_clear_cache cf (power_on cf b)"
  have "resting s"
    unfolding s_def by (rule blank_rests [OF assms(1,2)]) (simp_all add: power_on_def)
  moreover have "eeprom_step cf d rs Power_cycle s = eeprom_step cf d rs Power_cycle (power_on cf b)"
    by (simp add: s_def power_on_def wear_leveling_clear_cache_def)
  then have "eeprom_run cf d rs (Power_cycle # xs) s = (statuses, s')"
    using assms(4) by simp
  ultimately show ?thesis
    using run_refines [of s "Power_cycle # xs" statuses s'] assms(3)
    by (simp add: s_def wear_leveling_clear_cache_def)
qed

end

end
