(* ===== verification/Recovery.thy ===== *)
theory Recovery
  imports WearLeveling
begin

text \<open>
  The repair of a corrupt log at start (quantum/wear_leveling/wear_leveling.c), over the backing stores that can be
  erased whether or not they are unlocked, and the instance the repository tests it with:
  \<open>MockBackingStore\<close> of quantum/wear_leveling/tests/backing_mocks.cpp, whose callbacks let every operation succeed.
\<close>

section \<open>A store that erases without being unlocked\<close>

text \<open>Playing back a log keeps the length of the cache.\<close>

lemma playback_entry_length:
  assumes "length c = WEAR_LEVELING_LOGICAL_SIZE cf" "playback_entry cf d b v a c = (c', a', ok)"
  shows "length c' = WEAR_LEVELING_LOGICAL_SIZE cf"
proof -
  have "length (put_bytes x (take l bs) c) = length c" if "x + l \<le> length c" for x l bs
    using that by (simp add: put_bytes_def)
  then show ?thesis
    using assms by (auto simp: playback_entry_def playback_multibyte_def Let_def split: if_splits option.splits)
qed

lemma playback_loop_length:
  "length c = WEAR_LEVELING_LOGICAL_SIZE cf \<Longrightarrow> playback_loop cf d b a c = (c', a', ok) \<Longrightarrow>
   length c' = WEAR_LEVELING_LOGICAL_SIZE cf"
proof (induction cf d b a c rule: playback_loop.induct)
  case (1 cf d b a c)
  show ?case
  proof (cases "\<exists>v. a < WEAR_LEVELING_BACKING_SIZE cf \<and> bs_read d a b = Some v \<and> v \<noteq> 0")
    case True
    then obtain v where v: "a < WEAR_LEVELING_BACKING_SIZE cf" "bs_read d a b = Some v" "v \<noteq> 0"
      by blast
    obtain c1 a1 ok1 where e: "playback_entry cf d b v (a + 2) c = (c1, a1, ok1)"
      by (metis surj_pair)
    note len = playback_entry_length [OF "1.prems"(1) e]
    have "playback_loop cf d b a c = (if ok1 then playback_loop cf d b a1 c1 else (c1, a1, False))"
      using v e by (subst playback_loop.simps) simp
    then show ?thesis
      using "1.IH" [OF v(1,2,3) e [symmetric] refl _ len] "1.prems"(2) len by (cases ok1) simp_all
  next
    case False
    then show ?thesis
      using "1.prems" by (subst (asm) playback_loop.simps) (auto split: if_splits option.splits)
  qed
qed

locale always_erasable_log_store = sized_log_store d mem locked ok size cf
  for d :: "'b backing_store" and mem locked ok size cf +
  assumes erases_locked: "ok b \<Longrightarrow> fst (bs_erase d b) \<and> ok (snd (bs_erase d b)) \<and>
    (even a \<and> a < size \<longrightarrow> mem (snd (bs_erase d b)) a = 0)"
begin

lemma length_consolidated: "ok b \<Longrightarrow> length (consolidated_cache cf d b) = WEAR_LEVELING_LOGICAL_SIZE cf"
  by (rule length_consolidated_cache [OF _ sizes fits])

text \<open>The consolidation of a store that is not unlocked: it is unlocked for the writes, and locked again.\<close>

lemma consolidate_resting:
  assumes "ok (store s)" "\<not> unlocked s" "length (cache s) = WEAR_LEVELING_LOGICAL_SIZE cf"
  obtains s' where "wear_leveling_consolidate_force cf d s = (WEAR_LEVELING_CONSOLIDATED, s')" "resting s'" "cache s' = cache s"
proof -
  define b0 where "b0 = snd (bs_erase d (store s))"
  have b0: "fst (bs_erase d (store s))" "ok b0" "\<And>a. even a \<Longrightarrow> a < size \<Longrightarrow> mem b0 a = 0"
    using erases_locked [OF assms(1)] by (auto simp: b0_def)
  define b1 where "b1 = snd (bs_unlock d b0)"
  have b1: "fst (bs_unlock d b0)" "ok b1" "\<not> locked b1" "\<And>a. even a \<Longrightarrow> a < size \<Longrightarrow> mem b1 a = 0"
    using unlocks [OF b0(2)] b0(3) by (auto simp: b1_def)
  obtain b2 b3 where run: "backing_store_write_bulk d 0 (words_of_bytes (cache s)) b1 = (True, b2)"
    "backing_store_write_bulk d (WEAR_LEVELING_LOGICAL_SIZE cf) (u64_words (fnv_64a_buf (cache s) FNV1A_64_INIT)) b2 = (True, b3)"
    and b3: "ok b3" "\<not> locked b3" "consolidated_cache cf d b3 = cache s" "erased_from cf mem b3 (WEAR_LEVELING_LOGICAL_SIZE cf + 8)"
    using write_erased [OF b1(2-4) assms(3)] by blast
  define s3 where "s3 = s\<lparr>store := b3, unlocked := True, write_address := WEAR_LEVELING_LOGICAL_SIZE cf + 8\<rparr>"
  have "writable s3" "saved s3"
    using b3 assms(3) size_facts by (auto simp: writable_def saved_def durable_def plays_refl s3_def log_space_def)
  then obtain s4 where s4: "wear_leveling_lock d s3 = (STATUS_SUCCESS, s4)" "resting s4" "cache s4 = cache s3"
    by (rule lock_rest)
  have "wear_leveling_consolidate_force cf d s = (WEAR_LEVELING_CONSOLIDATED, s4)"
    using b0(1) b1(1) run assms(2) s4(1)
    by (auto simp: wear_leveling_consolidate_force_def wear_leveling_write_consolidated_def wear_leveling_unlock_def
        wear_leveling_lock_def split_beta Let_def s3_def b0_def b1_def split: if_splits)
  then show ?thesis
    using that s4(2,3) by (simp add: s3_def)
qed

lemma corrupt_log_repaired:
  assumes "ok b" "b' = snd (bs_init d b)"
    and "playback_loop cf d b' (WEAR_LEVELING_LOGICAL_SIZE cf + 8) (consolidated_cache cf d b') = (c, a, fine)"
    and "\<not> fine \<or> WEAR_LEVELING_BACKING_SIZE cf \<le> a"
  obtains s' where "wear_leveling_init cf d (power_on cf b) = (WEAR_LEVELING_CONSOLIDATED, s')" "resting s'" "cache s' = c"
proof -
  have b': "fst (bs_init d b)" "ok b'"
    using inits [OF assms(1)] by (auto simp: assms(2))
  define t0 where "t0 = (wear_leveling_clear_cache cf (power_on cf b))\<lparr>store := b'\<rparr>"
  define t2 where "t2 = snd (wear_leveling_read_consolidated cf d t0)"
  have read: "wear_leveling_read_consolidated cf d t0 = (WEAR_LEVELING_SUCCESS, t2)"
    "cache t2 = consolidated_cache cf d b'" "store t2 = b'" "\<not> unlocked t2"
    using b'(2) size_facts
    by (simp_all add: t2_def wear_leveling_read_consolidated_def consolidated_cache_def read_bulk t0_def power_on_def
        wear_leveling_clear_cache_def Let_def)
  define t3 where "t3 = t2\<lparr>cache := c, write_address := a\<rparr>"
  have "length c = WEAR_LEVELING_LOGICAL_SIZE cf"
    by (rule playback_loop_length [OF length_consolidated [OF b'(2)] assms(3)])
  then obtain s' where s': "wear_leveling_consolidate_force cf d t3 = (WEAR_LEVELING_CONSOLIDATED, s')" "resting s'"
      "cache s' = cache t3"
    using consolidate_resting [of t3] b'(2) read by (auto simp: t3_def)
  have "wear_leveling_playback_log cf d t2 = (WEAR_LEVELING_CONSOLIDATED, s')"
    using assms(3,4) s'(1) read
    by (auto simp: wear_leveling_playback_log_def wear_leveling_consolidate_if_needed_def Let_def t3_def)
  then have "wear_leveling_init cf d (power_on cf b) = (WEAR_LEVELING_CONSOLIDATED, s')"
    using b'(1) read(1) by (simp add: wear_leveling_init_def split_beta Let_def t0_def power_on_def
        wear_leveling_clear_cache_def assms(2))
  then show ?thesis
    using that s'(2,3) by (simp add: t3_def)
qed

lemma repaired_stays:
  assumes "resting s'"
  obtains t' where "wear_leveling_init cf d (power_on cf (store s')) = (WEAR_LEVELING_SUCCESS, t')" "cache t' = cache s'"
  using init_restores [OF assms, of "power_on cf (store s')"] that by (auto simp: power_on_def)

end

section \<open>The store of the tests\<close>

record MockBackingStore =
  mock_locked :: bool
  backing_storage :: "u16 list"
  backing_erasure_count :: nat
  backing_total_write_count :: nat

definition mock_unlock :: "MockBackingStore \<Rightarrow> bool \<times> MockBackingStore" where
  "mock_unlock b = (True, b\<lparr>mock_locked := False\<rparr>)"

definition mock_erase :: "MockBackingStore \<Rightarrow> bool \<times> MockBackingStore" where
  "mock_erase b = (True, b\<lparr>backing_storage := map (\<lambda>_. 0xFFFF) (backing_storage b),
     backing_erasure_count := backing_erasure_count b + 1\<rparr>)"

definition mock_write :: "nat \<Rightarrow> u16 \<Rightarrow> MockBackingStore \<Rightarrow> bool \<times> MockBackingStore" where
  "mock_write address v b = (True, b\<lparr>backing_storage := (backing_storage b)[address div 2 := NOT v],
     backing_total_write_count := backing_total_write_count b + 1\<rparr>)"

definition mock_lock :: "MockBackingStore \<Rightarrow> bool \<times> MockBackingStore" where
  "mock_lock b = (True, b\<lparr>mock_locked := True\<rparr>)"

definition mock_read :: "nat \<Rightarrow> MockBackingStore \<Rightarrow> u16 option" where
  "mock_read address b = Some (NOT (backing_storage b ! (address div 2)))"

definition mock_store :: "MockBackingStore backing_store" where
  "mock_store = \<lparr>bs_init = Pair True, bs_unlock = mock_unlock, bs_erase = mock_erase, bs_write = mock_write,
     bs_lock = mock_lock, bs_read = mock_read\<rparr>"

definition mock_word :: "MockBackingStore \<Rightarrow> nat \<Rightarrow> u16" where
  "mock_word b a = NOT (backing_storage b ! (a div 2))"

definition mock_ok :: "wear_leveling_config \<Rightarrow> MockBackingStore \<Rightarrow> bool" where
  "mock_ok cf b \<longleftrightarrow> 2 * length (backing_storage b) = WEAR_LEVELING_BACKING_SIZE cf"

lemma mock_always_erasable:
  assumes "sizes_ok cf"
  shows "always_erasable_log_store mock_store mock_word mock_locked (mock_ok cf) (WEAR_LEVELING_BACKING_SIZE cf) cf"
proof -
  have "x div 2 = a div 2 \<longleftrightarrow> x = a" if "even x" "even a" for x a :: nat
    using that by (auto elim!: evenE)
  then show ?thesis
    using assms by unfold_locales
      (auto simp: mock_store_def mock_unlock_def mock_erase_def mock_write_def mock_lock_def mock_read_def mock_word_def
        mock_ok_def nth_list_update)
qed

text \<open>The sizes of the tests (quantum/wear_leveling/tests/rules.mk).\<close>

definition test_sizes :: wear_leveling_config where
  "test_sizes = \<lparr>WEAR_LEVELING_LOGICAL_SIZE = 16, WEAR_LEVELING_BACKING_SIZE = 48, unwritten_checksum = 0, behind_entry = []\<rparr>"

lemma test_sizes_ok: "sizes_ok test_sizes"
  by (simp add: sizes_ok_def test_sizes_def)

interpretation mock: always_erasable_log_store mock_store mock_word mock_locked "mock_ok test_sizes"
  "WEAR_LEVELING_BACKING_SIZE test_sizes" test_sizes
  by (rule mock_always_erasable [OF test_sizes_ok])

text \<open>
  (C24) A log that cannot be played back to its end, or that is full, is repaired at start.  Where the store can be
  erased without having been unlocked, the initialisation consolidates what was played back before the entry that
  failed: the cache, and so every read in its range, holds these bytes, and the next start finds them in a sound log.
\<close>

theorem corrupt_log_consolidates:
  assumes "always_erasable_log_store d mem locked ok n cf" "ok b" "b' = snd (bs_init d b)"
    and "playback_loop cf d b' (WEAR_LEVELING_LOGICAL_SIZE cf + 8) (consolidated_cache cf d b') = (c, a, fine)"
    and "\<not> fine \<or> WEAR_LEVELING_BACKING_SIZE cf \<le> a"
  shows "\<exists>s. wear_leveling_init cf d (power_on cf b) = (WEAR_LEVELING_CONSOLIDATED, s) \<and> cache s = c \<and>
    length c = WEAR_LEVELING_LOGICAL_SIZE cf \<and> \<not> unlocked s \<and>
    (\<exists>t. wear_leveling_init cf d (power_on cf (store s)) = (WEAR_LEVELING_SUCCESS, t) \<and> cache t = c)"
proof -
  obtain s where s: "wear_leveling_init cf d (power_on cf b) = (WEAR_LEVELING_CONSOLIDATED, s)"
      "sized_log_store.resting d mem ok cf s" "cache s = c"
    by (rule always_erasable_log_store.corrupt_log_repaired [OF assms])
  obtain t where t: "wear_leveling_init cf d (power_on cf (store s)) = (WEAR_LEVELING_SUCCESS, t)" "cache t = cache s"
    by (rule always_erasable_log_store.repaired_stays [OF assms(1) s(2)])
  have "length (cache s) = WEAR_LEVELING_LOGICAL_SIZE cf \<and> \<not> unlocked s"
    using s(2) by (simp add: sized_log_store.resting_def [OF always_erasable_log_store.axioms(1) [OF assms(1)]] log_space_def)
  then show ?thesis
    using s t by auto
qed

text \<open>
  The log of the test \<open>PlaybackReadbackOptimized64_OOB\<close>: an invalid checksum, the byte \<open>0x11\<close> at the address 1, and a byte
  at an address behind the end.
\<close>

definition oob_log :: MockBackingStore where
  "oob_log = \<lparr>mock_locked = True, backing_storage = replicate 8 0xFFFF @ replicate 4 0 @
     [NOT (raw16 (LOG_ENTRY_MAKE_OPTIMIZED_64 0x01 0x11) 0), NOT (raw16 (LOG_ENTRY_MAKE_OPTIMIZED_64 0x30 0x11) 0),
      NOT (raw16 (LOG_ENTRY_MAKE_OPTIMIZED_64 0x01 0x12) 0)] @ replicate 9 0xFFFF,
     backing_erasure_count = 0, backing_total_write_count = 0\<rparr>"

lemma oob_entries:
  "raw16 (LOG_ENTRY_MAKE_OPTIMIZED_64 0x01 0x11) 0 = 0x1141" "raw16 (LOG_ENTRY_MAKE_OPTIMIZED_64 0x30 0x11) 0 = 0x1170"
  by (simp_all add: raw16_def LOG_ENTRY_MAKE_OPTIMIZED_64_def BITMASK_mask le16_def mask_eq_exp_minus_1)

lemma oob_bytes: "bytes_of_words [0x1141] = [0x41, 0x11]" "bytes_of_words [0x1170] = [0x70, 0x11]"
  by (simp_all add: bytes_of_words_def lo8_def hi8_def)

theorem corrupt_log_consolidates_witness:
  "\<exists>s. wear_leveling_init test_sizes mock_store (power_on test_sizes oob_log) = (WEAR_LEVELING_CONSOLIDATED, s) \<and>
     cache s = (replicate 16 0)[1 := 0x11]"
proof -
  have ok: "mock_ok test_sizes oob_log" and sel: "bs_init mock_store = Pair True" "bs_read mock_store = mock_read"
    by (simp_all add: mock_ok_def oob_log_def test_sizes_def mock_store_def)
  have cells: "mock_read 24 oob_log = Some 0x1141" "mock_read 26 oob_log = Some 0x1170"
    by (simp_all add: mock_read_def oob_log_def oob_entries nth_append)
  have sizes: "WEAR_LEVELING_LOGICAL_SIZE test_sizes = 16" "WEAR_LEVELING_BACKING_SIZE test_sizes = 48"
    by (simp_all add: test_sizes_def)
  have zeros: "map (\<lambda>i. mock_word oob_log (2 * i)) [0..<8] = replicate 8 0"
    by (rule nth_equalityI) (simp_all add: mock_word_def oob_log_def nth_append)
  have "bytes_of_words (replicate 8 0) = replicate 16 0"
    by (simp add: bytes_of_words_def numeral_eq_Suc)
  then have bytes: "bytes_of_words (map (\<lambda>i. mock_word oob_log (2 * i)) [0..<16 div 2]) = replicate 16 0"
    using zeros by (simp del: upt_rec_numeral)
  have cache: "consolidated_cache test_sizes mock_store oob_log = replicate 16 0"
    using mock.consolidated_cache_eq [OF ok test_sizes_ok] by (simp only: sizes bytes Let_def order_refl if_cancel simp_thms)
  have e1: "playback_entry test_sizes mock_store oob_log 0x1141 26 c = (c[1 := 0x11], 26, True)" for c
    by (simp add: playback_entry_def oob_bytes LOG_ENTRY_GET_TYPE_def BITMASK_mask mask_eq_exp_minus_1 test_sizes_def
        LOG_ENTRY_OPTIMIZED_64_GET_ADDRESS_def LOG_ENTRY_OPTIMIZED_64_GET_VALUE_def)
  have e2: "playback_entry test_sizes mock_store oob_log 0x1170 28 c = (c, 28, False)" for c
    by (simp add: playback_entry_def oob_bytes LOG_ENTRY_GET_TYPE_def BITMASK_mask mask_eq_exp_minus_1 test_sizes_def
        LOG_ENTRY_OPTIMIZED_64_GET_ADDRESS_def)
  have "playback_loop test_sizes mock_store oob_log 26 c = (c, 28, False)" for c
    using e2 cells by (subst playback_loop.simps) (simp add: sel test_sizes_def)
  then have "playback_loop test_sizes mock_store oob_log 24 c = (c[1 := 0x11], 28, False)" for c
    using e1 cells by (subst playback_loop.simps) (simp add: sel test_sizes_def)
  then show ?thesis
    using corrupt_log_consolidates [OF mock_always_erasable [OF test_sizes_ok] ok, of oob_log "(replicate 16 0)[1 := 0x11]" 28 False]
    by (auto simp: sel cache sizes)
qed

end
