(* ===== verification/FlashOps.thy ===== *)
theory FlashOps
  imports WearLeveling
begin

text \<open>
  The flash operations of the STM32 families without sectors
  (platforms/chibios/drivers/flash/legacy_flash_ops.c), as the register accesses the code performs.

  The flash controller is hardware: its registers, its memory and the bit masks of its header are a parameter,
  \<open>flash_config\<close>.  What the code relies on is \<open>controller_ok\<close>, the erase, program, lock and reset
  procedures of the reference manuals: an operation that is started on an idle, unlocked controller ends within the
  time the code waits for it.  Time passes in \<open>delay\<close>, the busy loop of the code.
\<close>

section \<open>The controller\<close>

record 'h flash_controller =
  FLASH_SR :: "'h \<Rightarrow> u32"
  FLASH_CR :: "'h \<Rightarrow> u32"
  write_SR :: "u32 \<Rightarrow> 'h \<Rightarrow> 'h"
  write_CR :: "u32 \<Rightarrow> 'h \<Rightarrow> 'h"
  write_AR :: "u32 \<Rightarrow> 'h \<Rightarrow> 'h"
  write_KEYR :: "u32 \<Rightarrow> 'h \<Rightarrow> 'h"
  write_half_word :: "u32 \<Rightarrow> u16 \<Rightarrow> 'h \<Rightarrow> 'h"
  memory :: "'h \<Rightarrow> u32 \<Rightarrow> u8"
  delay :: "'h \<Rightarrow> 'h"
  flash_reset :: "'h \<Rightarrow> 'h"
  FLASH_SR_BSY :: u32
  FLASH_SR_PGERR :: u32
  FLASH_SR_WRPERR :: u32
  FLASH_SR_EOP :: u32
  FLASH_OBR_OPTERR :: "u32 option"
  FLASH_CR_PG :: u32
  FLASH_CR_PER :: u32
  FLASH_CR_STRT :: u32
  FLASH_CR_LOCK :: u32
  FLASH_KEY1 :: u32
  FLASH_KEY2 :: u32

record 'h flash_config = "'h flash_controller" +
  EMULATION_BASE_PAGE_ADDRESS :: u32
  EMULATION_PAGE_SIZE :: u32
  EMULATION_PAGE_COUNT :: nat

section \<open>The operations\<close>

datatype FLASH_Status =
  FLASH_BUSY | FLASH_ERROR_PG | FLASH_ERROR_WRP | FLASH_ERROR_OPT | FLASH_COMPLETE | FLASH_TIMEOUT | FLASH_BAD_ADDRESS

definition IS_FLASH_ADDRESS :: "u32 \<Rightarrow> bool" where
  "IS_FLASH_ADDRESS ADDRESS \<longleftrightarrow> 0x08000000 \<le> ADDRESS \<and> ADDRESS < 0x0807FFFF"

definition EraseTimeout :: u32 where
  "EraseTimeout = 0x00000FFF"

definition ProgramTimeout :: u32 where
  "ProgramTimeout = 0x0000001F"

definition FLASH_GetStatus :: "'h flash_config \<Rightarrow> 'h \<Rightarrow> FLASH_Status" where
  "FLASH_GetStatus fc h =
    (if FLASH_SR fc h AND FLASH_SR_BSY fc = FLASH_SR_BSY fc then FLASH_BUSY
     else if FLASH_SR fc h AND FLASH_SR_PGERR fc \<noteq> 0 then FLASH_ERROR_PG
     else if FLASH_SR fc h AND FLASH_SR_WRPERR fc \<noteq> 0 then FLASH_ERROR_WRP
     else if \<exists>m \<in> set_option (FLASH_OBR_OPTERR fc). FLASH_SR fc h AND m \<noteq> 0 then FLASH_ERROR_OPT
     else FLASH_COMPLETE)"

text \<open>The loop of \<open>FLASH_WaitForLastOperation\<close>, with what is left of \<open>Timeout\<close>.\<close>

fun wait_while_busy :: "'h flash_config \<Rightarrow> nat \<Rightarrow> 'h \<Rightarrow> FLASH_Status \<times> 'h" where
  "wait_while_busy fc 0 h = (FLASH_TIMEOUT, h)"
| "wait_while_busy fc (Suc Timeout) h =
    (if FLASH_GetStatus fc h = FLASH_BUSY then wait_while_busy fc Timeout (delay fc h)
     else (FLASH_GetStatus fc h, h))"

definition FLASH_WaitForLastOperation :: "'h flash_config \<Rightarrow> u32 \<Rightarrow> 'h \<Rightarrow> FLASH_Status \<times> 'h" where
  "FLASH_WaitForLastOperation fc Timeout h = wait_while_busy fc (unat Timeout) h"

definition FLASH_ErasePage :: "'h flash_config \<Rightarrow> u32 \<Rightarrow> 'h \<Rightarrow> FLASH_Status \<times> 'h" where
  "FLASH_ErasePage fc Page_Address h =
    (let (status, h) = FLASH_WaitForLastOperation fc EraseTimeout h
     in if status \<noteq> FLASH_COMPLETE then (status, h)
        else let h = write_CR fc (FLASH_CR fc h OR FLASH_CR_PER fc) h;
                 h = write_AR fc Page_Address h;
                 h = write_CR fc (FLASH_CR fc h OR FLASH_CR_STRT fc) h;
                 (status, h) = FLASH_WaitForLastOperation fc EraseTimeout h;
                 h = (if status \<noteq> FLASH_TIMEOUT then write_CR fc (FLASH_CR fc h AND NOT (FLASH_CR_PER fc)) h else h)
             in (status, write_SR fc (FLASH_SR_EOP fc OR FLASH_SR_PGERR fc OR FLASH_SR_WRPERR fc) h))"

definition FLASH_ProgramHalfWord :: "'h flash_config \<Rightarrow> u32 \<Rightarrow> u16 \<Rightarrow> 'h \<Rightarrow> FLASH_Status \<times> 'h" where
  "FLASH_ProgramHalfWord fc Address Data h =
    (if \<not> IS_FLASH_ADDRESS Address then (FLASH_BAD_ADDRESS, h)
     else let (status, h) = FLASH_WaitForLastOperation fc ProgramTimeout h
       in if status \<noteq> FLASH_COMPLETE then (status, h)
          else let h = write_CR fc (FLASH_CR fc h OR FLASH_CR_PG fc) h;
                   h = write_half_word fc Address Data h;
                   (status, h) = FLASH_WaitForLastOperation fc ProgramTimeout h;
                   h = (if status \<noteq> FLASH_TIMEOUT then write_CR fc (FLASH_CR fc h AND NOT (FLASH_CR_PG fc)) h else h)
               in (status, write_SR fc (FLASH_SR_EOP fc OR FLASH_SR_PGERR fc OR FLASH_SR_WRPERR fc) h))"

definition FLASH_Unlock :: "'h flash_config \<Rightarrow> 'h \<Rightarrow> 'h" where
  "FLASH_Unlock fc h =
    (if FLASH_CR fc h AND FLASH_CR_LOCK fc \<noteq> 0 then write_KEYR fc (FLASH_KEY2 fc) (write_KEYR fc (FLASH_KEY1 fc) h) else h)"

definition FLASH_Lock :: "'h flash_config \<Rightarrow> 'h \<Rightarrow> 'h" where
  "FLASH_Lock fc h = write_CR fc (FLASH_CR fc h OR FLASH_CR_LOCK fc) h"

section \<open>What the hardware promises\<close>

definition flash_locked :: "'h flash_config \<Rightarrow> 'h \<Rightarrow> bool" where
  "flash_locked fc h \<longleftrightarrow> FLASH_CR fc h AND FLASH_CR_LOCK fc \<noteq> 0"

text \<open>No operation runs, no error is pending, and none is selected.\<close>

definition flash_idle :: "'h flash_config \<Rightarrow> 'h \<Rightarrow> bool" where
  "flash_idle fc h \<longleftrightarrow> FLASH_GetStatus fc h = FLASH_COMPLETE \<and>
     FLASH_CR fc h AND (FLASH_CR_PG fc OR FLASH_CR_PER fc OR FLASH_CR_STRT fc) = 0"

text \<open>
  An operation that runs in \<open>h\<close> ends before \<open>T\<close> delays have passed.  When the bit that selected it is taken back
  and the flags are cleared, the controller is idle, as locked as it was, and its memory is \<open>m\<close>.
\<close>

definition flash_ends :: "'h flash_config \<Rightarrow> u32 \<Rightarrow> u32 \<Rightarrow> bool \<Rightarrow> (u32 \<Rightarrow> u8) \<Rightarrow> 'h \<Rightarrow> bool" where
  "flash_ends fc selected T l m h \<longleftrightarrow>
     (\<exists>n < unat T. (\<forall>i < n. FLASH_GetStatus fc ((delay fc ^^ i) h) = FLASH_BUSY) \<and>
       (let h = (delay fc ^^ n) h;
            h' = write_SR fc (FLASH_SR_EOP fc OR FLASH_SR_PGERR fc OR FLASH_SR_WRPERR fc)
              (write_CR fc (FLASH_CR fc h AND NOT selected) h)
        in FLASH_GetStatus fc h = FLASH_COMPLETE \<and> flash_idle fc h' \<and> flash_locked fc h' = l \<and> memory fc h' = m))"

definition start_erase :: "'h flash_config \<Rightarrow> u32 \<Rightarrow> 'h \<Rightarrow> 'h" where
  "start_erase fc a h =
    (let h = write_AR fc a (write_CR fc (FLASH_CR fc h OR FLASH_CR_PER fc) h)
     in write_CR fc (FLASH_CR fc h OR FLASH_CR_STRT fc) h)"

definition start_program :: "'h flash_config \<Rightarrow> u32 \<Rightarrow> u16 \<Rightarrow> 'h \<Rightarrow> 'h" where
  "start_program fc x v h = write_half_word fc x v (write_CR fc (FLASH_CR fc h OR FLASH_CR_PG fc) h)"

definition emulation_page :: "'h flash_config \<Rightarrow> nat \<Rightarrow> u32" where
  "emulation_page fc i = EMULATION_BASE_PAGE_ADDRESS fc + of_nat i * EMULATION_PAGE_SIZE fc"

definition erased_page :: "'h flash_config \<Rightarrow> u32 \<Rightarrow> (u32 \<Rightarrow> u8) \<Rightarrow> u32 \<Rightarrow> u8" where
  "erased_page fc a m x = (if x - a < EMULATION_PAGE_SIZE fc then 0xFF else m x)"

text \<open>
  The two keys unlock the controller, setting the lock bit locks it, and a reset does; setting PER, the address of a page
  and STRT erases the page, storing a half word with PG set programs it where the flash is erased.
\<close>

definition controller_ok :: "'h flash_config \<Rightarrow> bool" where
  "controller_ok fc \<longleftrightarrow> (\<forall>h. flash_idle fc h \<longrightarrow>
     (flash_locked fc h \<longrightarrow> (let h' = write_KEYR fc (FLASH_KEY2 fc) (write_KEYR fc (FLASH_KEY1 fc) h)
       in flash_idle fc h' \<and> \<not> flash_locked fc h' \<and> memory fc h' = memory fc h)) \<and>
     (let h' = write_CR fc (FLASH_CR fc h OR FLASH_CR_LOCK fc) h
       in flash_idle fc h' \<and> flash_locked fc h' \<and> memory fc h' = memory fc h) \<and>
     (let h' = flash_reset fc h in flash_idle fc h' \<and> flash_locked fc h' \<and> memory fc h' = memory fc h) \<and>
     (\<not> flash_locked fc h \<longrightarrow>
       (\<forall>i < EMULATION_PAGE_COUNT fc. flash_ends fc (FLASH_CR_PER fc) EraseTimeout False
          (erased_page fc (emulation_page fc i) (memory fc h)) (start_erase fc (emulation_page fc i) h)) \<and>
       (\<forall>x v. IS_FLASH_ADDRESS x \<and> even (unat x) \<and> memory fc h x = 0xFF \<and> memory fc h (x + 1) = 0xFF \<longrightarrow>
          flash_ends fc (FLASH_CR_PG fc) ProgramTimeout False
            ((memory fc h)(x := lo8 v, x + 1 := hi8 v)) (start_program fc x v h))))"

section \<open>The operations do what they promise\<close>

lemma wait_ends:
  assumes "n < T" "\<forall>i < n. FLASH_GetStatus fc ((delay fc ^^ i) h) = FLASH_BUSY"
    and "FLASH_GetStatus fc ((delay fc ^^ n) h) = FLASH_COMPLETE"
  shows "wait_while_busy fc T h = (FLASH_COMPLETE, (delay fc ^^ n) h)"
  using assms
proof (induction n arbitrary: T h)
  case 0
  then show ?case
    by (cases T) simp_all
next
  case (Suc n)
  then obtain T' where T: "T = Suc T'"
    by (cases T) auto
  have "FLASH_GetStatus fc h = FLASH_BUSY"
    using Suc.prems(2) [rule_format, of 0] by simp
  moreover have "\<forall>i < n. FLASH_GetStatus fc ((delay fc ^^ i) (delay fc h)) = FLASH_BUSY"
    using Suc.prems(2) by (auto simp: funpow_Suc_right simp del: funpow.simps)
  ultimately show ?case
    using Suc.IH [of T' "delay fc h"] Suc.prems(1,3) by (simp add: T funpow_Suc_right del: funpow.simps)
qed

lemma wait_idle: "flash_idle fc h \<Longrightarrow> T \<noteq> 0 \<Longrightarrow> FLASH_WaitForLastOperation fc T h = (FLASH_COMPLETE, h)"
  using wait_ends [of 0 "unat T" fc h] by (simp add: FLASH_WaitForLastOperation_def flash_idle_def unat_gt_0)

lemma timeouts: "EraseTimeout \<noteq> 0" "ProgramTimeout \<noteq> 0"
  by (simp_all add: EraseTimeout_def ProgramTimeout_def)

lemma FLASH_ErasePage_ends:
  assumes "flash_idle fc h" "flash_ends fc (FLASH_CR_PER fc) EraseTimeout l m (start_erase fc a h)"
  obtains h' where "FLASH_ErasePage fc a h = (FLASH_COMPLETE, h')" "flash_idle fc h'" "flash_locked fc h' = l" "memory fc h' = m"
proof -
  obtain n where n: "n < unat EraseTimeout" "\<forall>i < n. FLASH_GetStatus fc ((delay fc ^^ i) (start_erase fc a h)) = FLASH_BUSY"
      "FLASH_GetStatus fc ((delay fc ^^ n) (start_erase fc a h)) = FLASH_COMPLETE"
    and "let h1 = (delay fc ^^ n) (start_erase fc a h);
           h' = write_SR fc (FLASH_SR_EOP fc OR FLASH_SR_PGERR fc OR FLASH_SR_WRPERR fc)
             (write_CR fc (FLASH_CR fc h1 AND NOT (FLASH_CR_PER fc)) h1)
         in flash_idle fc h' \<and> flash_locked fc h' = l \<and> memory fc h' = m"
    using assms(2) by (auto simp: flash_ends_def Let_def)
  then show ?thesis
    using that wait_ends [OF n] wait_idle [OF assms(1) timeouts(1)]
    by (simp add: FLASH_ErasePage_def start_erase_def FLASH_WaitForLastOperation_def Let_def)
qed

lemma FLASH_ProgramHalfWord_ends:
  assumes "flash_idle fc h" "flash_ends fc (FLASH_CR_PG fc) ProgramTimeout l m (start_program fc x v h)" "IS_FLASH_ADDRESS x"
  obtains h' where "FLASH_ProgramHalfWord fc x v h = (FLASH_COMPLETE, h')" "flash_idle fc h'" "flash_locked fc h' = l"
    "memory fc h' = m"
proof -
  obtain n where n: "n < unat ProgramTimeout"
      "\<forall>i < n. FLASH_GetStatus fc ((delay fc ^^ i) (start_program fc x v h)) = FLASH_BUSY"
      "FLASH_GetStatus fc ((delay fc ^^ n) (start_program fc x v h)) = FLASH_COMPLETE"
    and "let h1 = (delay fc ^^ n) (start_program fc x v h);
           h' = write_SR fc (FLASH_SR_EOP fc OR FLASH_SR_PGERR fc OR FLASH_SR_WRPERR fc)
             (write_CR fc (FLASH_CR fc h1 AND NOT (FLASH_CR_PG fc)) h1)
         in flash_idle fc h' \<and> flash_locked fc h' = l \<and> memory fc h' = m"
    using assms(2) by (auto simp: flash_ends_def Let_def)
  then show ?thesis
    using that assms(3) wait_ends [OF n] wait_idle [OF assms(1) timeouts(2)]
    by (simp add: FLASH_ProgramHalfWord_def start_program_def FLASH_WaitForLastOperation_def Let_def)
qed

lemma FLASH_Unlock_ok:
  assumes "controller_ok fc" "flash_idle fc h"
  shows "flash_idle fc (FLASH_Unlock fc h)" "\<not> flash_locked fc (FLASH_Unlock fc h)" "memory fc (FLASH_Unlock fc h) = memory fc h"
  using assms by (auto simp: FLASH_Unlock_def controller_ok_def flash_locked_def Let_def)

lemma FLASH_Lock_ok:
  assumes "controller_ok fc" "flash_idle fc h"
  shows "flash_idle fc (FLASH_Lock fc h)" "flash_locked fc (FLASH_Lock fc h)" "memory fc (FLASH_Lock fc h) = memory fc h"
  using assms by (auto simp: FLASH_Lock_def controller_ok_def Let_def)

lemma flash_reset_ok:
  assumes "controller_ok fc" "flash_idle fc h"
  shows "flash_idle fc (flash_reset fc h)" "flash_locked fc (flash_reset fc h)" "memory fc (flash_reset fc h) = memory fc h"
  using assms by (auto simp: controller_ok_def Let_def)

section \<open>A controller\<close>

text \<open>
  The flash interface of the STM32F0 reference manual, with pages of 2048 bytes, an erase that takes three delays and a
  programming that takes one.
\<close>

record fpec =
  fp_pg :: bool
  fp_per :: bool
  fp_lock :: bool
  fp_eop :: bool
  fp_pgerr :: bool
  fp_key :: bool
  fp_ar :: u32
  fp_busy :: nat
  fp_memory :: "u32 \<Rightarrow> u8"

definition fpec_CR :: "fpec \<Rightarrow> u32" where
  "fpec_CR h = (if fp_pg h then 1 else 0) OR (if fp_per h then 2 else 0) OR (if fp_lock h then 0x80 else 0)"

definition fpec_SR :: "fpec \<Rightarrow> u32" where
  "fpec_SR h = (if 0 < fp_busy h then 1 else 0) OR (if fp_pgerr h then 4 else 0) OR (if fp_eop h then 0x20 else 0)"

definition fpec_write_CR :: "u32 \<Rightarrow> fpec \<Rightarrow> fpec" where
  "fpec_write_CR c h =
    (if fp_lock h then h
     else let h = h\<lparr>fp_pg := c AND 1 \<noteq> 0, fp_per := c AND 2 \<noteq> 0, fp_lock := c AND 0x80 \<noteq> 0\<rparr>
       in if c AND 0x40 \<noteq> 0 \<and> fp_per h
          then h\<lparr>fp_busy := 3, fp_memory := \<lambda>x. if x - (fp_ar h - fp_ar h mod 2048) < 2048 then 0xFF else fp_memory h x\<rparr>
          else h)"

definition fpec_write_SR :: "u32 \<Rightarrow> fpec \<Rightarrow> fpec" where
  "fpec_write_SR c h = h\<lparr>fp_eop := fp_eop h \<and> c AND 0x20 = 0, fp_pgerr := fp_pgerr h \<and> c AND 4 = 0\<rparr>"

definition fpec_write_KEYR :: "u32 \<Rightarrow> fpec \<Rightarrow> fpec" where
  "fpec_write_KEYR k h = h\<lparr>fp_key := k = 0x45670123, fp_lock := fp_lock h \<and> \<not> (fp_key h \<and> k = 0xCDEF89AB)\<rparr>"

definition fpec_write_half_word :: "u32 \<Rightarrow> u16 \<Rightarrow> fpec \<Rightarrow> fpec" where
  "fpec_write_half_word x v h =
    (if fp_lock h \<or> \<not> fp_pg h then h
     else if v = 0 \<or> fp_memory h x = 0xFF \<and> fp_memory h (x + 1) = 0xFF
     then h\<lparr>fp_busy := 1, fp_memory := (fp_memory h)(x := lo8 v, x + 1 := hi8 v)\<rparr>
     else h\<lparr>fp_pgerr := True\<rparr>)"

definition fpec_delay :: "fpec \<Rightarrow> fpec" where
  "fpec_delay h = h\<lparr>fp_busy := fp_busy h - 1, fp_eop := fp_eop h \<or> fp_busy h = 1\<rparr>"

definition fpec_reset :: "fpec \<Rightarrow> fpec" where
  "fpec_reset h = h\<lparr>fp_pg := False, fp_per := False, fp_lock := True, fp_eop := False, fp_pgerr := False, fp_key := False,
     fp_busy := 0\<rparr>"

text \<open>
  The sizes of wear_leveling_legacy_config.h for the STM32F072 with 128 kB of flash at \<open>0x08000000\<close>: one page of
  2048 bytes at the end of the flash.
\<close>

definition stm32f072_flash :: "fpec flash_config" where
  "stm32f072_flash =
    \<lparr>FLASH_SR = fpec_SR, FLASH_CR = fpec_CR, write_SR = fpec_write_SR, write_CR = fpec_write_CR,
     write_AR = (\<lambda>a h. h\<lparr>fp_ar := a\<rparr>), write_KEYR = fpec_write_KEYR, write_half_word = fpec_write_half_word,
     memory = fp_memory, delay = fpec_delay, flash_reset = fpec_reset,
     FLASH_SR_BSY = 1, FLASH_SR_PGERR = 4, FLASH_SR_WRPERR = 0x10, FLASH_SR_EOP = 0x20, FLASH_OBR_OPTERR = Some 1,
     FLASH_CR_PG = 1, FLASH_CR_PER = 2, FLASH_CR_STRT = 0x40, FLASH_CR_LOCK = 0x80,
     FLASH_KEY1 = 0x45670123, FLASH_KEY2 = 0xCDEF89AB,
     EMULATION_BASE_PAGE_ADDRESS = 0x08000000 + 128 * 1024 - 1 * 2048, EMULATION_PAGE_SIZE = 2048, EMULATION_PAGE_COUNT = 1\<rparr>"

text \<open>Erased flash, after a reset.\<close>

definition erased_flash :: fpec where
  "erased_flash = \<lparr>fp_pg = False, fp_per = False, fp_lock = True, fp_eop = False, fp_pgerr = False, fp_key = False, fp_ar = 0,
     fp_busy = 0, fp_memory = (\<lambda>_. 0xFF)\<rparr>"

lemmas fpec_defs = fpec_CR_def fpec_SR_def fpec_write_CR_def fpec_write_SR_def fpec_write_KEYR_def fpec_write_half_word_def
  fpec_delay_def fpec_reset_def

lemma stm32f072_sel [simp]:
  "FLASH_SR stm32f072_flash = fpec_SR" "FLASH_CR stm32f072_flash = fpec_CR" "write_SR stm32f072_flash = fpec_write_SR"
  "write_CR stm32f072_flash = fpec_write_CR" "write_AR stm32f072_flash = (\<lambda>a h. h\<lparr>fp_ar := a\<rparr>)"
  "write_KEYR stm32f072_flash = fpec_write_KEYR" "write_half_word stm32f072_flash = fpec_write_half_word"
  "memory stm32f072_flash = fp_memory" "delay stm32f072_flash = fpec_delay" "flash_reset stm32f072_flash = fpec_reset"
  "FLASH_SR_BSY stm32f072_flash = 1" "FLASH_SR_PGERR stm32f072_flash = 4" "FLASH_SR_WRPERR stm32f072_flash = 0x10"
  "FLASH_SR_EOP stm32f072_flash = 0x20" "FLASH_OBR_OPTERR stm32f072_flash = Some 1" "FLASH_CR_PG stm32f072_flash = 1"
  "FLASH_CR_PER stm32f072_flash = 2" "FLASH_CR_STRT stm32f072_flash = 0x40" "FLASH_CR_LOCK stm32f072_flash = 0x80"
  "FLASH_KEY1 stm32f072_flash = 0x45670123" "FLASH_KEY2 stm32f072_flash = 0xCDEF89AB"
  "EMULATION_BASE_PAGE_ADDRESS stm32f072_flash = 0x0801F800" "EMULATION_PAGE_SIZE stm32f072_flash = 2048"
  "EMULATION_PAGE_COUNT stm32f072_flash = 1"
  by (simp_all add: stm32f072_flash_def)

lemma fpec_idle: "flash_idle stm32f072_flash h \<longleftrightarrow> \<not> fp_pg h \<and> \<not> fp_per h \<and> \<not> fp_pgerr h \<and> fp_busy h = 0"
  by (cases "fp_pg h"; cases "fp_per h"; cases "fp_pgerr h"; cases "fp_lock h"; cases "fp_eop h"; cases "fp_busy h = 0")
    (simp_all add: flash_idle_def FLASH_GetStatus_def fpec_defs)

lemma fpec_status:
  "FLASH_GetStatus stm32f072_flash h =
    (if 0 < fp_busy h then FLASH_BUSY else if fp_pgerr h then FLASH_ERROR_PG else FLASH_COMPLETE)"
  by (cases "fp_pgerr h"; cases "fp_eop h"; cases "fp_busy h = 0")
    (simp_all add: FLASH_GetStatus_def fpec_defs)

lemma fpec_locked: "flash_locked stm32f072_flash h = fp_lock h"
  by (cases "fp_pg h"; cases "fp_per h"; cases "fp_lock h")
    (simp_all add: flash_locked_def fpec_defs)

lemma fpec_delays:
  "(fpec_delay ^^ i) h = h\<lparr>fp_busy := fp_busy h - i, fp_eop := fp_eop h \<or> 0 < fp_busy h \<and> fp_busy h \<le> i\<rparr>"
  by (induction i arbitrary: h) (auto simp: fpec_delay_def intro!: fpec.equality)

lemma fpec_page: "i < EMULATION_PAGE_COUNT stm32f072_flash \<Longrightarrow> emulation_page stm32f072_flash i = 0x0801F800"
  by (simp add: emulation_page_def)

lemma fpec_unlocks:
  assumes "flash_idle stm32f072_flash h"
  shows "let h' = write_KEYR stm32f072_flash (FLASH_KEY2 stm32f072_flash) (write_KEYR stm32f072_flash (FLASH_KEY1 stm32f072_flash) h)
    in flash_idle stm32f072_flash h' \<and> \<not> flash_locked stm32f072_flash h' \<and> memory stm32f072_flash h' = memory stm32f072_flash h"
  using assms by (simp add: fpec_idle fpec_locked Let_def fpec_write_KEYR_def)

lemma fpec_locks:
  assumes "flash_idle stm32f072_flash h"
  shows "let h' = write_CR stm32f072_flash (FLASH_CR stm32f072_flash h OR FLASH_CR_LOCK stm32f072_flash) h
    in flash_idle stm32f072_flash h' \<and> flash_locked stm32f072_flash h' \<and> memory stm32f072_flash h' = memory stm32f072_flash h"
  using assms by (cases "fp_lock h") (simp_all add: fpec_idle fpec_locked Let_def fpec_write_CR_def fpec_CR_def)

lemma fpec_erases:
  assumes "flash_idle stm32f072_flash h" "\<not> flash_locked stm32f072_flash h"
  shows "flash_ends stm32f072_flash 2 EraseTimeout False (erased_page stm32f072_flash 0x0801F800 (fp_memory h))
    (start_erase stm32f072_flash 0x0801F800 h)"
proof -
  define m where "m = erased_page stm32f072_flash 0x0801F800 (fp_memory h)"
  have "start_erase stm32f072_flash 0x0801F800 h = h\<lparr>fp_ar := 0x0801F800, fp_per := True, fp_busy := 3, fp_memory := m\<rparr>"
    using assms unfolding fpec_idle fpec_locked
    by (cases h) (simp add: start_erase_def fpec_CR_def fpec_write_CR_def Let_def m_def erased_page_def [abs_def] cong: if_cong)
  then show ?thesis
    using assms unfolding flash_ends_def fpec_status fpec_idle fpec_locked m_def [symmetric]
    by (intro exI [of _ 3]) (simp add: EraseTimeout_def fpec_delays fpec_CR_def fpec_write_CR_def fpec_write_SR_def Let_def)
qed

lemma fpec_programs:
  assumes "flash_idle stm32f072_flash h" "\<not> flash_locked stm32f072_flash h" "fp_memory h x = 0xFF" "fp_memory h (x + 1) = 0xFF"
  shows "flash_ends stm32f072_flash 1 ProgramTimeout False ((fp_memory h)(x := lo8 v, x + 1 := hi8 v))
    (start_program stm32f072_flash x v h)"
proof -
  define m where "m = (fp_memory h)(x := lo8 v, x + 1 := hi8 v)"
  have "start_program stm32f072_flash x v h = h\<lparr>fp_pg := True, fp_busy := 1, fp_memory := m\<rparr>"
    using assms unfolding fpec_idle fpec_locked
    by (simp add: start_program_def fpec_CR_def fpec_write_CR_def fpec_write_half_word_def Let_def m_def)
  then show ?thesis
    using assms unfolding flash_ends_def fpec_status fpec_idle fpec_locked m_def [symmetric]
    by (intro exI [of _ 1])
      (simp add: ProgramTimeout_def fpec_delay_def fpec_CR_def fpec_write_CR_def fpec_write_SR_def Let_def)
qed

lemma stm32f072_controller: "controller_ok stm32f072_flash"
  unfolding controller_ok_def
proof (intro allI impI conjI)
  fix h :: fpec
  show "let h' = flash_reset stm32f072_flash h
       in flash_idle stm32f072_flash h' \<and> flash_locked stm32f072_flash h' \<and> memory stm32f072_flash h' = memory stm32f072_flash h"
    by (simp add: fpec_idle fpec_locked Let_def fpec_reset_def)
qed (use fpec_unlocks fpec_locks fpec_erases fpec_programs in \<open>simp_all add: fpec_page\<close>)

section \<open>A locked controller\<close>

text \<open>
  The code does not look at the lock.  Where a locked controller ignores what is written to CR, \<open>FLASH_ErasePage\<close> of a
  locked flash reports success and erases nothing: no operation starts for the code to wait for.
\<close>

theorem locked_erase_is_lost:
  assumes "flash_idle fc h" "flash_locked fc h"
    and "\<And>c h. flash_locked fc h \<Longrightarrow> write_CR fc c h = h"
    and "\<And>h. FLASH_SR fc (write_AR fc a h) = FLASH_SR fc h \<and> FLASH_CR fc (write_AR fc a h) = FLASH_CR fc h \<and>
      memory fc (write_AR fc a h) = memory fc h"
    and "\<And>c h. memory fc (write_SR fc c h) = memory fc h"
  shows "\<exists>h'. FLASH_ErasePage fc a h = (FLASH_COMPLETE, h') \<and> memory fc h' = memory fc h"
proof -
  have "flash_idle fc (write_AR fc a h) = flash_idle fc h" "flash_locked fc (write_AR fc a h) = flash_locked fc h"
    by (simp_all only: flash_idle_def flash_locked_def FLASH_GetStatus_def assms(4))
  then show ?thesis
    using assms by (simp add: FLASH_ErasePage_def wait_idle timeouts Let_def)
qed

theorem locked_erase_is_lost_witness:
  "\<exists>h'. FLASH_ErasePage stm32f072_flash 0x0801F800 (erased_flash\<lparr>fp_memory := \<lambda>_. 7\<rparr>) = (FLASH_COMPLETE, h') \<and>
     fp_memory h' = (\<lambda>_. 7)"
  using locked_erase_is_lost [where fc = stm32f072_flash and h = "erased_flash\<lparr>fp_memory := \<lambda>_. 7\<rparr>" and a = "0x0801F800"]
  by (simp add: fpec_idle fpec_locked erased_flash_def fpec_write_CR_def fpec_SR_def fpec_CR_def fpec_write_SR_def)

end
