(* ===== verification/FlashStore.thy ===== *)
theory FlashStore
  imports FlashOps
begin

text \<open>
  A backing store for the wear-leveling component: the legacy flash driver
  (platforms/chibios/drivers/wear_leveling/wear_leveling_legacy.c) over the flash operations of \<open>FlashOps\<close>,
  and the EEPROM interface on top of both (drivers/eeprom/eeprom_wear_leveling.c and eeprom_driver.c).

  The driver keeps the complement of what it is given, so that erased flash reads as zeros.  The driver satisfies the
  contracts of the wear-leveling component: an emulated EEPROM on erased flash behaves as an array of bytes
  that survives every power cycle between two operations.
\<close>

section \<open>The driver\<close>

definition half_word :: "(u32 \<Rightarrow> u8) \<Rightarrow> u32 \<Rightarrow> u16" where
  "half_word m x = le16 (m x) (m (x + 1))"

definition legacy_init :: "'h \<Rightarrow> bool \<times> 'h" where
  "legacy_init h = (True, h)"

definition legacy_unlock :: "'h flash_config \<Rightarrow> 'h \<Rightarrow> bool \<times> 'h" where
  "legacy_unlock fc h = (True, FLASH_Unlock fc h)"

definition erase_page :: "'h flash_config \<Rightarrow> nat \<Rightarrow> bool \<times> 'h \<Rightarrow> bool \<times> 'h" where
  "erase_page fc i s =
    (let (ret, h) = s;
         (status, h) = FLASH_ErasePage fc (EMULATION_BASE_PAGE_ADDRESS fc + of_nat i * EMULATION_PAGE_SIZE fc) h
     in (if status \<noteq> FLASH_COMPLETE then False else ret, h))"

definition legacy_erase :: "'h flash_config \<Rightarrow> 'h \<Rightarrow> bool \<times> 'h" where
  "legacy_erase fc h = fold (erase_page fc) [0..<EMULATION_PAGE_COUNT fc] (True, h)"

definition legacy_write :: "'h flash_config \<Rightarrow> nat \<Rightarrow> u16 \<Rightarrow> 'h \<Rightarrow> bool \<times> 'h" where
  "legacy_write fc address v h =
    (let (status, h) = FLASH_ProgramHalfWord fc (EMULATION_BASE_PAGE_ADDRESS fc + of_nat address) (NOT v) h
     in (status = FLASH_COMPLETE, h))"

definition legacy_lock :: "'h flash_config \<Rightarrow> 'h \<Rightarrow> bool \<times> 'h" where
  "legacy_lock fc h = (True, FLASH_Lock fc h)"

definition legacy_read :: "'h flash_config \<Rightarrow> nat \<Rightarrow> 'h \<Rightarrow> u16 option" where
  "legacy_read fc address h = Some (NOT (half_word (memory fc h) (EMULATION_BASE_PAGE_ADDRESS fc + of_nat address)))"

definition legacy_store :: "'h flash_config \<Rightarrow> 'h backing_store" where
  "legacy_store fc =
    \<lparr>bs_init = legacy_init, bs_unlock = legacy_unlock fc, bs_erase = legacy_erase fc, bs_write = legacy_write fc,
     bs_lock = legacy_lock fc, bs_read = legacy_read fc\<rparr>"

lemma legacy_store_sel [simp]:
  "bs_init (legacy_store fc) = legacy_init" "bs_unlock (legacy_store fc) = legacy_unlock fc"
  "bs_erase (legacy_store fc) = legacy_erase fc" "bs_write (legacy_store fc) = legacy_write fc"
  "bs_lock (legacy_store fc) = legacy_lock fc" "bs_read (legacy_store fc) = legacy_read fc"
  by (simp_all add: legacy_store_def)

section \<open>The driver keeps the contract of a backing store\<close>

definition flash_size :: "'h flash_config \<Rightarrow> nat" where
  "flash_size fc = EMULATION_PAGE_COUNT fc * unat (EMULATION_PAGE_SIZE fc)"

text \<open>The pages of the emulation are even-sized pages of the flash, and the controller does what its manual says.\<close>

definition flash_ok :: "'h flash_config \<Rightarrow> bool" where
  "flash_ok fc \<longleftrightarrow> controller_ok fc \<and> 0 < unat (EMULATION_PAGE_SIZE fc) \<and> even (unat (EMULATION_PAGE_SIZE fc)) \<and>
     even (unat (EMULATION_BASE_PAGE_ADDRESS fc)) \<and> 0x08000000 \<le> unat (EMULATION_BASE_PAGE_ADDRESS fc) \<and>
     unat (EMULATION_BASE_PAGE_ADDRESS fc) + flash_size fc \<le> 0x08080000"

definition flash_word :: "'h flash_config \<Rightarrow> 'h \<Rightarrow> nat \<Rightarrow> u16" where
  "flash_word fc h a = NOT (half_word (memory fc h) (EMULATION_BASE_PAGE_ADDRESS fc + of_nat a))"

lemma NOT_eq_0_iff: "NOT x = 0 \<longleftrightarrow> x = - 1" for x :: "'a::len word"
  by (metis bit.compl_one bit.double_compl)

lemma half_word_erased: "m x = 0xFF \<Longrightarrow> m (x + 1) = 0xFF \<Longrightarrow> half_word m x = - 1"
  by (simp add: half_word_def le16_def)

lemma half_word_erasedD:
  assumes "half_word m x = - 1"
  shows "m x = 0xFF" "m (x + 1) = 0xFF"
proof -
  have "half_word m x = 0xFFFF"
    using assms by simp
  then have "lo8 (half_word m x) = 0xFF" "hi8 (half_word m x) = 0xFF"
    by (simp_all only: lo8_def hi8_def) simp_all
  then show "m x = 0xFF" "m (x + 1) = 0xFF"
    by (simp_all add: half_word_def)
qed

lemma half_word_update: "half_word (m(x := lo8 v, x + 1 := hi8 v)) x = v"
  by (simp add: half_word_def)

lemma emulation_address:
  assumes "flash_ok fc" "a < flash_size fc"
  shows "unat (EMULATION_BASE_PAGE_ADDRESS fc + of_nat a) = unat (EMULATION_BASE_PAGE_ADDRESS fc) + a" "a < 2 ^ 32"
proof -
  show "a < 2 ^ 32"
    using assms by (simp add: flash_ok_def)
  then have "unat (of_nat a :: u32) = a"
    by (simp add: unat_of_nat)
  then show "unat (EMULATION_BASE_PAGE_ADDRESS fc + of_nat a) = unat (EMULATION_BASE_PAGE_ADDRESS fc) + a"
    using assms by (simp add: flash_ok_def unat_word_ariths)
qed

lemma emulation_half_word:
  assumes "flash_ok fc" "a < flash_size fc" "even a"
  shows "IS_FLASH_ADDRESS (EMULATION_BASE_PAGE_ADDRESS fc + of_nat a)"
    "even (unat (EMULATION_BASE_PAGE_ADDRESS fc + of_nat a))"
proof -
  show ev: "even (unat (EMULATION_BASE_PAGE_ADDRESS fc + of_nat a))"
    using assms by (simp add: emulation_address flash_ok_def)
  have "unat (EMULATION_BASE_PAGE_ADDRESS fc + of_nat a) \<noteq> 0x0807FFFF"
    using ev by auto
  then show "IS_FLASH_ADDRESS (EMULATION_BASE_PAGE_ADDRESS fc + of_nat a)"
    using assms emulation_address [OF assms(1,2)]
    by (simp add: IS_FLASH_ADDRESS_def word_le_nat_alt word_less_nat_alt flash_ok_def)
qed

lemma in_page:
  assumes "flash_ok fc" "i * unat (EMULATION_PAGE_SIZE fc) \<le> y" "y < Suc i * unat (EMULATION_PAGE_SIZE fc)"
  shows "erased_page fc (emulation_page fc i) m (EMULATION_BASE_PAGE_ADDRESS fc + of_nat y) = 0xFF"
proof -
  define P where "P = unat (EMULATION_PAGE_SIZE fc)"
  have "EMULATION_BASE_PAGE_ADDRESS fc + of_nat y - emulation_page fc i = of_nat y - of_nat (i * P)"
    by (simp add: emulation_page_def P_def)
  also have "\<dots> = of_nat (y - i * P)"
    using assms(2) by (simp add: P_def)
  finally have diff: "EMULATION_BASE_PAGE_ADDRESS fc + of_nat y - emulation_page fc i = of_nat (y - i * P)" .
  have "unat (of_nat (y - i * P) :: u32) \<le> y - i * P"
    by (simp only: unat_of_nat mod_less_eq_dividend)
  also have "\<dots> < P"
    using assms(2,3) by (simp add: P_def)
  finally show ?thesis
    unfolding erased_page_def diff by (simp add: word_less_nat_alt P_def)
qed

lemma erase_one:
  assumes "flash_ok fc" "i < EMULATION_PAGE_COUNT fc" "flash_idle fc h" "\<not> flash_locked fc h"
  obtains h' where "erase_page fc i (ret, h) = (ret, h')" "flash_idle fc h'" "\<not> flash_locked fc h'"
    "memory fc h' = erased_page fc (emulation_page fc i) (memory fc h)"
proof -
  have "flash_ends fc (FLASH_CR_PER fc) EraseTimeout False (erased_page fc (emulation_page fc i) (memory fc h))
      (start_erase fc (emulation_page fc i) h)"
    using assms by (simp add: flash_ok_def controller_ok_def)
  then show ?thesis
    using that by (elim FLASH_ErasePage_ends [OF assms(3)]) (simp add: erase_page_def emulation_page_def)
qed

lemma erase_pages:
  assumes "flash_ok fc" "n \<le> EMULATION_PAGE_COUNT fc" "flash_idle fc h" "\<not> flash_locked fc h"
  shows "\<exists>h'. fold (erase_page fc) [0..<n] (True, h) = (True, h') \<and> flash_idle fc h' \<and> \<not> flash_locked fc h' \<and>
    (\<forall>y < n * unat (EMULATION_PAGE_SIZE fc). memory fc h' (EMULATION_BASE_PAGE_ADDRESS fc + of_nat y) = 0xFF)"
  using assms(2)
proof (induction n)
  case (Suc n)
  then obtain h1 where h1: "fold (erase_page fc) [0..<n] (True, h) = (True, h1)" "flash_idle fc h1" "\<not> flash_locked fc h1"
    "\<forall>y < n * unat (EMULATION_PAGE_SIZE fc). memory fc h1 (EMULATION_BASE_PAGE_ADDRESS fc + of_nat y) = 0xFF"
    by auto
  obtain h2 where h2: "erase_page fc n (True, h1) = (True, h2)" "flash_idle fc h2" "\<not> flash_locked fc h2"
    "memory fc h2 = erased_page fc (emulation_page fc n) (memory fc h1)"
    using erase_one [OF assms(1) _ h1(2,3), of n True] Suc.prems by auto
  have "memory fc h2 (EMULATION_BASE_PAGE_ADDRESS fc + of_nat y) = 0xFF" if "y < Suc n * unat (EMULATION_PAGE_SIZE fc)" for y
    using in_page [OF assms(1) _ that] h1(4) by (cases "n * unat (EMULATION_PAGE_SIZE fc) \<le> y") (simp_all add: h2(4) erased_page_def)
  then show ?case
    using h1(1) h2(1-3) by auto
qed (use assms(3,4) in simp)

lemma flash_word_write:
  assumes "flash_ok fc" "even a" "a < flash_size fc" "even x" "x < flash_size fc"
    and "memory fc h' = (memory fc h)(EMULATION_BASE_PAGE_ADDRESS fc + of_nat a := lo8 (NOT v),
      EMULATION_BASE_PAGE_ADDRESS fc + of_nat a + 1 := hi8 (NOT v))"
  shows "flash_word fc h' x = (if x = a then v else flash_word fc h x)"
proof (cases "x = a")
  case False
  have even_size: "even (flash_size fc)"
    using assms(1) by (simp add: flash_size_def flash_ok_def)
  then have lt: "Suc a < flash_size fc" "Suc x < flash_size fc"
    using assms(2-5) by presburger+
  have inj: "of_nat y \<noteq> (of_nat z :: u32)" if "y \<noteq> z" "y < flash_size fc" "z < flash_size fc" for y z
    using that emulation_address(2) [OF assms(1)] by (simp add: of_nat_inverse word_of_nat_eq_iff take_bit_nat_eq_self)
  have "x \<noteq> Suc a" "Suc x \<noteq> a"
    using assms(2,4) by auto
  then show ?thesis
    using False inj [of x a] inj [of x "Suc a"] inj [of "Suc x" a] inj [of "Suc x" "Suc a"] assms(3,5) lt
    by (simp add: flash_word_def half_word_def assms(6) add.assoc add.commute [of 1])
qed (simp add: flash_word_def half_word_update assms(6))

lemma legacy_log_store:
  assumes "flash_ok fc"
  shows "log_store (legacy_store fc) (flash_word fc) (flash_locked fc) (flash_idle fc) (flash_size fc)"
proof unfold_locales
  show "bs_read (legacy_store fc) a b = Some (flash_word fc b a)" for a b
    by (simp add: legacy_read_def flash_word_def)
next
  fix b and a
  assume "flash_idle fc b" "\<not> flash_locked fc b"
  then obtain h where h: "legacy_erase fc b = (True, h)" "flash_idle fc h" "\<not> flash_locked fc h"
    "\<forall>y < flash_size fc. memory fc h (EMULATION_BASE_PAGE_ADDRESS fc + of_nat y) = 0xFF"
    using erase_pages [OF assms order_refl] by (auto simp: legacy_erase_def flash_size_def)
  have "flash_word fc h a = 0" if "even a" "a < flash_size fc"
  proof -
    have "Suc a < flash_size fc"
      using that assms unfolding flash_size_def flash_ok_def by (metis even_Suc even_mult_iff Suc_lessI)
    then have "memory fc h (EMULATION_BASE_PAGE_ADDRESS fc + of_nat a) = 0xFF"
      "memory fc h (EMULATION_BASE_PAGE_ADDRESS fc + of_nat (Suc a)) = 0xFF"
      using h(4) that by blast+
    moreover have "EMULATION_BASE_PAGE_ADDRESS fc + of_nat (Suc a) = EMULATION_BASE_PAGE_ADDRESS fc + of_nat a + 1"
      by simp
    ultimately have "half_word (memory fc h) (EMULATION_BASE_PAGE_ADDRESS fc + of_nat a) = - 1"
      by (intro half_word_erased) (simp_all add: ac_simps)
    then show ?thesis
      by (simp add: flash_word_def)
  qed
  then show "fst (bs_erase (legacy_store fc) b) \<and> flash_idle fc (snd (bs_erase (legacy_store fc) b)) \<and>
      \<not> flash_locked fc (snd (bs_erase (legacy_store fc) b)) \<and>
      (even a \<and> a < flash_size fc \<longrightarrow> flash_word fc (snd (bs_erase (legacy_store fc) b)) a = 0)"
    using h(1-3) by simp
next
  fix b and a x and v :: u16
  assume pre: "flash_idle fc b" "\<not> flash_locked fc b" "even a" "a < flash_size fc" "flash_word fc b a = 0"
  define A where "A = EMULATION_BASE_PAGE_ADDRESS fc + of_nat a"
  have "half_word (memory fc b) A = - 1"
    using pre(5) by (simp only: flash_word_def A_def NOT_eq_0_iff)
  then have "flash_ends fc (FLASH_CR_PG fc) ProgramTimeout False ((memory fc b)(A := lo8 (NOT v), A + 1 := hi8 (NOT v)))
      (start_program fc A (NOT v) b)"
    using assms pre(1,2) half_word_erasedD [of "memory fc b" A] emulation_half_word [OF assms pre(4,3)]
    by (simp add: flash_ok_def controller_ok_def A_def)
  then obtain h where h: "FLASH_ProgramHalfWord fc A (NOT v) b = (FLASH_COMPLETE, h)" "flash_idle fc h" "\<not> flash_locked fc h"
    "memory fc h = (memory fc b)(A := lo8 (NOT v), A + 1 := hi8 (NOT v))"
    using emulation_half_word(1) [OF assms pre(4,3)] by (elim FLASH_ProgramHalfWord_ends [OF pre(1)]) (simp_all add: A_def)
  then show "fst (bs_write (legacy_store fc) a v b) \<and> flash_idle fc (snd (bs_write (legacy_store fc) a v b)) \<and>
      \<not> flash_locked fc (snd (bs_write (legacy_store fc) a v b)) \<and>
      (even x \<and> x < flash_size fc \<longrightarrow>
        flash_word fc (snd (bs_write (legacy_store fc) a v b)) x = (if x = a then v else flash_word fc b x))"
    using flash_word_write [OF assms pre(3,4), of x h b v] by (simp add: legacy_write_def A_def)
qed (use assms in \<open>simp_all add: legacy_init_def legacy_unlock_def legacy_lock_def FLASH_Unlock_ok FLASH_Lock_ok
    flash_word_def flash_ok_def\<close>)

lemma legacy_resettable:
  assumes "flash_ok fc" "sizes_ok cf" "WEAR_LEVELING_BACKING_SIZE cf \<le> flash_size fc"
  shows "resettable_log_store (legacy_store fc) (flash_word fc) (flash_locked fc) (flash_idle fc) (flash_size fc) cf
    (flash_reset fc)"
  using legacy_log_store [OF assms(1)] assms flash_reset_ok [of fc]
  by (intro resettable_log_store.intro sized_log_store.intro sized_log_store_axioms.intro
      resettable_log_store_axioms.intro) (simp_all add: flash_word_def flash_ok_def)

section \<open>An instance\<close>

text \<open>
  The STM32F072 of \<open>FlashOps\<close>: its page of 2048 bytes holds 1024 logical bytes.
\<close>

definition stm32f072_sizes :: wear_leveling_config where
  "stm32f072_sizes = \<lparr>WEAR_LEVELING_LOGICAL_SIZE = 1024, WEAR_LEVELING_BACKING_SIZE = 2048,
     unwritten_checksum = 0, behind_entry = []\<rparr>"

lemma stm32f072_flash_ok: "flash_ok stm32f072_flash" "flash_size stm32f072_flash = 2048"
  by (simp_all add: flash_ok_def flash_size_def stm32f072_controller)

lemma stm32f072_sizes_ok:
  "sizes_ok stm32f072_sizes" "WEAR_LEVELING_BACKING_SIZE stm32f072_sizes \<le> flash_size stm32f072_flash"
  by (simp_all add: sizes_ok_def stm32f072_sizes_def stm32f072_flash_ok)

interpretation legacy: log_store "legacy_store stm32f072_flash" "flash_word stm32f072_flash" "flash_locked stm32f072_flash"
  "flash_idle stm32f072_flash" "flash_size stm32f072_flash"
  by (rule legacy_log_store [OF stm32f072_flash_ok(1)])

interpretation stm32f072: resettable_log_store "legacy_store stm32f072_flash" "flash_word stm32f072_flash"
  "flash_locked stm32f072_flash" "flash_idle stm32f072_flash" "flash_size stm32f072_flash" stm32f072_sizes
  "flash_reset stm32f072_flash"
  by (rule legacy_resettable [OF stm32f072_flash_ok(1) stm32f072_sizes_ok])

section \<open>The EEPROM interface\<close>

text \<open>The buffer of a failed read keeps what was in it.\<close>

definition eeprom_read_block :: "wear_leveling_config \<Rightarrow> u8 list \<Rightarrow> u32 \<Rightarrow> 'b wear_leveling \<Rightarrow> u8 list" where
  "eeprom_read_block cf buf addr s =
    (let (status, bytes) = wear_leveling_read cf addr (of_nat (length buf)) s
     in if status = WEAR_LEVELING_FAILED then buf else bytes)"

definition eeprom_write_block ::
    "wear_leveling_config \<Rightarrow> 'b backing_store \<Rightarrow> u8 list \<Rightarrow> u32 \<Rightarrow> 'b wear_leveling \<Rightarrow> 'b wear_leveling" where
  "eeprom_write_block cf d buf addr s = snd (wear_leveling_write cf d addr buf s)"

definition eeprom_driver_init :: "wear_leveling_config \<Rightarrow> 'b backing_store \<Rightarrow> 'b wear_leveling \<Rightarrow> 'b wear_leveling" where
  "eeprom_driver_init cf d s = snd (wear_leveling_init cf d s)"

definition eeprom_driver_erase :: "wear_leveling_config \<Rightarrow> 'b backing_store \<Rightarrow> 'b wear_leveling \<Rightarrow> 'b wear_leveling" where
  "eeprom_driver_erase cf d s = snd (wear_leveling_erase cf d s)"

text \<open>The bytes of a word in memory, lowest first.\<close>

definition word_bytes :: "u16 \<Rightarrow> u8 list" where
  "word_bytes v = bytes_of_words [v]"

definition dword_bytes :: "u32 \<Rightarrow> u8 list" where
  "dword_bytes v = bytes_of_words [ucast v, ucast (drop_bit 16 v)]"

definition bytes_word :: "u8 list \<Rightarrow> u16" where
  "bytes_word bs = le16 (bs ! 0) (bs ! 1)"

definition bytes_dword :: "u8 list \<Rightarrow> u32" where
  "bytes_dword bs = ucast (le16 (bs ! 0) (bs ! 1)) OR push_bit 16 (ucast (le16 (bs ! 2) (bs ! 3)))"

definition eeprom_read_byte :: "wear_leveling_config \<Rightarrow> u32 \<Rightarrow> 'b wear_leveling \<Rightarrow> u8" where
  "eeprom_read_byte cf addr s = eeprom_read_block cf [0] addr s ! 0"

definition eeprom_read_word :: "wear_leveling_config \<Rightarrow> u32 \<Rightarrow> 'b wear_leveling \<Rightarrow> u16" where
  "eeprom_read_word cf addr s = bytes_word (eeprom_read_block cf (word_bytes 0) addr s)"

definition eeprom_read_dword :: "wear_leveling_config \<Rightarrow> u32 \<Rightarrow> 'b wear_leveling \<Rightarrow> u32" where
  "eeprom_read_dword cf addr s = bytes_dword (eeprom_read_block cf (dword_bytes 0) addr s)"

definition eeprom_write_byte ::
    "wear_leveling_config \<Rightarrow> 'b backing_store \<Rightarrow> u32 \<Rightarrow> u8 \<Rightarrow> 'b wear_leveling \<Rightarrow> 'b wear_leveling" where
  "eeprom_write_byte cf d addr v s = eeprom_write_block cf d [v] addr s"

definition eeprom_write_word ::
    "wear_leveling_config \<Rightarrow> 'b backing_store \<Rightarrow> u32 \<Rightarrow> u16 \<Rightarrow> 'b wear_leveling \<Rightarrow> 'b wear_leveling" where
  "eeprom_write_word cf d addr v s = eeprom_write_block cf d (word_bytes v) addr s"

definition eeprom_write_dword ::
    "wear_leveling_config \<Rightarrow> 'b backing_store \<Rightarrow> u32 \<Rightarrow> u32 \<Rightarrow> 'b wear_leveling \<Rightarrow> 'b wear_leveling" where
  "eeprom_write_dword cf d addr v s = eeprom_write_block cf d (dword_bytes v) addr s"

text \<open>\<open>read_buf\<close> is uninitialised: an argument.\<close>

definition eeprom_update_block ::
    "wear_leveling_config \<Rightarrow> 'b backing_store \<Rightarrow> u8 list \<Rightarrow> u8 list \<Rightarrow> u32 \<Rightarrow> 'b wear_leveling \<Rightarrow> 'b wear_leveling" where
  "eeprom_update_block cf d read_buf buf addr s =
    (if buf \<noteq> eeprom_read_block cf read_buf addr s then eeprom_write_block cf d buf addr s else s)"

definition eeprom_update_byte ::
    "wear_leveling_config \<Rightarrow> 'b backing_store \<Rightarrow> u32 \<Rightarrow> u8 \<Rightarrow> 'b wear_leveling \<Rightarrow> 'b wear_leveling" where
  "eeprom_update_byte cf d addr v s = (if eeprom_read_byte cf addr s \<noteq> v then eeprom_write_byte cf d addr v s else s)"

definition eeprom_update_word ::
    "wear_leveling_config \<Rightarrow> 'b backing_store \<Rightarrow> u32 \<Rightarrow> u16 \<Rightarrow> 'b wear_leveling \<Rightarrow> 'b wear_leveling" where
  "eeprom_update_word cf d addr v s = (if eeprom_read_word cf addr s \<noteq> v then eeprom_write_word cf d addr v s else s)"

definition eeprom_update_dword ::
    "wear_leveling_config \<Rightarrow> 'b backing_store \<Rightarrow> u32 \<Rightarrow> u32 \<Rightarrow> 'b wear_leveling \<Rightarrow> 'b wear_leveling" where
  "eeprom_update_dword cf d addr v s = (if eeprom_read_dword cf addr s \<noteq> v then eeprom_write_dword cf d addr v s else s)"

section \<open>The emulated EEPROM is an array\<close>

text \<open>An idle controller with erased pages.\<close>

definition blank_flash :: "'h flash_config \<Rightarrow> 'h \<Rightarrow> bool" where
  "blank_flash fc f \<longleftrightarrow> flash_idle fc f \<and>
     (\<forall>x < flash_size fc. memory fc f (EMULATION_BASE_PAGE_ADDRESS fc + of_nat x) = 0xFF)"

lemma blank_flash_idle: "blank_flash fc f \<Longrightarrow> flash_idle fc f"
  by (simp add: blank_flash_def)

lemma erased_flash_blank: "blank_flash stm32f072_flash erased_flash"
  by (simp add: blank_flash_def fpec_idle erased_flash_def)

lemma blank_flash_word:
  assumes "flash_ok fc" "blank_flash fc f" "even x" "x < flash_size fc"
  shows "flash_word fc f x = 0"
proof -
  have "Suc x < flash_size fc"
    using assms unfolding flash_size_def flash_ok_def by (metis even_Suc even_mult_iff Suc_lessI)
  then have "memory fc f (EMULATION_BASE_PAGE_ADDRESS fc + of_nat x) = 0xFF"
    "memory fc f (EMULATION_BASE_PAGE_ADDRESS fc + of_nat (Suc x)) = 0xFF"
    using assms(2,4) unfolding blank_flash_def by blast+
  then have "half_word (memory fc f) (EMULATION_BASE_PAGE_ADDRESS fc + of_nat x) = - 1"
    by (intro half_word_erased) (simp_all add: ac_simps)
  then show ?thesis
    by (simp add: flash_word_def)
qed

definition legacy_run ::
    "wear_leveling_config \<Rightarrow> 'h flash_config \<Rightarrow> eeprom_op list \<Rightarrow> 'h \<Rightarrow>
     wear_leveling_status_t list \<times> 'h wear_leveling" where
  "legacy_run cf fc ops f = eeprom_run cf (legacy_store fc) (flash_reset fc) (Power_cycle # ops) (power_on cf f)"

lemma read_in_range:
  assumes "sizes_ok cf" "length (cache s) = WEAR_LEVELING_LOGICAL_SIZE cf" "unat a + n \<le> WEAR_LEVELING_LOGICAL_SIZE cf"
  shows "wear_leveling_read cf a (of_nat n) s = (WEAR_LEVELING_SUCCESS, take n (drop (unat a) (cache s)))"
proof -
  have n: "unat (of_nat n :: u32) = n"
    using assms(1,3) by (simp add: sizes_ok_def unat_of_nat)
  have "unat (a + of_nat n :: u32) = unat a + n"
    using assms(1,3) n by (simp add: sizes_ok_def unat_word_ariths)
  then show ?thesis
    using assms(1,3) n by (simp add: wear_leveling_read_def out_of_range_def word_less_nat_alt unat_of_nat sizes_ok_def)
qed

lemma legacy_run_rests:
  assumes "flash_ok fc" "sizes_ok cf" "WEAR_LEVELING_BACKING_SIZE cf \<le> flash_size fc"
    and "blank_flash fc f" "list_all (in_array cf) ops" "legacy_run cf fc ops f = (statuses, s)"
  shows "WEAR_LEVELING_FAILED \<notin> set statuses"
    and "sized_log_store.resting (legacy_store fc) (flash_word fc) (flash_idle fc) cf s"
    and "cache s = fold (array_step cf) ops (replicate (WEAR_LEVELING_LOGICAL_SIZE cf) 0)"
    and "length (cache s) = WEAR_LEVELING_LOGICAL_SIZE cf"
proof -
  note rl = legacy_resettable [OF assms(1-3)]
  have sl: "sized_log_store (legacy_store fc) (flash_word fc) (flash_locked fc) (flash_idle fc) (flash_size fc) cf"
    by (rule resettable_log_store.axioms(1) [OF rl])
  note all = resettable_log_store.run_from_blank [OF rl blank_flash_idle [OF assms(4)] blank_flash_word [OF assms(1,4)] assms(5)
      assms(6) [unfolded legacy_run_def]]
  show "WEAR_LEVELING_FAILED \<notin> set statuses"
    and rest: "sized_log_store.resting (legacy_store fc) (flash_word fc) (flash_idle fc) cf s"
    and "cache s = fold (array_step cf) ops (replicate (WEAR_LEVELING_LOGICAL_SIZE cf) 0)"
    using all by blast+
  show "length (cache s) = WEAR_LEVELING_LOGICAL_SIZE cf"
    using rest by (simp add: sized_log_store.resting_def [OF sl] log_space_def)
qed

text \<open>
  (C5) The emulated EEPROM refines an array of bytes, whatever the flash controller does that its manual allows: from
  erased flash, after the first initialisation and any sequence of in-range writes, erasures and power cycles, no
  operation has failed, the cache is the array these operations give, and every in-range read returns its bytes.
\<close>

theorem eeprom_refines_array:
  assumes "flash_ok fc" "sizes_ok cf" "WEAR_LEVELING_BACKING_SIZE cf \<le> flash_size fc"
    and "blank_flash fc f" "list_all (in_array cf) ops"
  shows "let (statuses, s) = legacy_run cf fc ops f;
             array = fold (array_step cf) ops (replicate (WEAR_LEVELING_LOGICAL_SIZE cf) 0)
         in WEAR_LEVELING_FAILED \<notin> set statuses \<and> cache s = array \<and>
            (\<forall>a n. unat a + n \<le> WEAR_LEVELING_LOGICAL_SIZE cf \<longrightarrow>
               wear_leveling_read cf a (of_nat n) s = (WEAR_LEVELING_SUCCESS, take n (drop (unat a) array)))"
proof -
  obtain statuses s where run: "legacy_run cf fc ops f = (statuses, s)"
    by (metis surj_pair)
  note rests = legacy_run_rests [OF assms run]
  show ?thesis
    using rests(1,3) read_in_range [OF assms(2) rests(4)] by (simp add: run)
qed

theorem eeprom_refines_array_witness:
  "let (statuses, s) = legacy_run stm32f072_sizes stm32f072_flash
         [Write_block 100 [1, 2, 3], Power_cycle, Write_block 64 [7]] erased_flash
   in WEAR_LEVELING_FAILED \<notin> set statuses \<and>
      cache s = put_bytes 64 [7] (put_bytes 100 [1, 2, 3] (replicate 1024 0))"
  using eeprom_refines_array [OF stm32f072_flash_ok(1) stm32f072_sizes_ok, of "erased_flash"
      "[Write_block 100 [1, 2, 3], Power_cycle, Write_block 64 [7]]"]
  by (simp add: erased_flash_blank stm32f072_sizes_def split_beta Let_def)

lemma bytes_of_word_bytes [simp]: "bytes_word (word_bytes v) = v" "length (word_bytes v) = 2"
  by (simp_all add: bytes_word_def word_bytes_def bytes_of_words_def)

lemma bytes_of_dword_bytes [simp]:
  fixes v :: u32
  shows "bytes_dword (dword_bytes v) = v" "length (dword_bytes v) = 4"
proof -
  have parts: "ucast (ucast v :: u16) OR push_bit 16 (ucast (ucast (drop_bit 16 v) :: u16)) = v"
    by (rule bit_word_eqI) (auto simp: bit_simps)
  show "bytes_dword (dword_bytes v) = v"
    by (simp only: bytes_dword_def dword_bytes_def) (simp add: bytes_of_words_def parts)
qed (simp add: dword_bytes_def)

lemma eeprom_run_append:
  "snd (eeprom_run cf d rs (xs @ ys) s) = snd (eeprom_run cf d rs ys (snd (eeprom_run cf d rs xs s)))"
  by (induction xs arbitrary: s) (simp_all add: split_beta)

text \<open>A power cycle of the keyboard, as the EEPROM interface sees it.\<close>

definition eeprom_restart ::
    "wear_leveling_config \<Rightarrow> 'h flash_config \<Rightarrow> 'h wear_leveling \<Rightarrow> 'h wear_leveling" where
  "eeprom_restart cf fc s = eeprom_driver_init cf (legacy_store fc) (power_on cf (flash_reset fc (store s)))"

lemma legacy_run_snoc:
  "eeprom_write_block cf (legacy_store fc) v a (snd (legacy_run cf fc ops f)) =
     snd (legacy_run cf fc (ops @ [Write_block a v]) f)"
  "eeprom_restart cf fc (snd (legacy_run cf fc ops f)) = snd (legacy_run cf fc (ops @ [Power_cycle]) f)"
  unfolding legacy_run_def append_Cons [symmetric] eeprom_run_append
  by (simp_all add: eeprom_write_block_def eeprom_restart_def eeprom_driver_init_def split_beta)

lemma block_round_trip:
  fixes f :: 'h
  assumes "flash_ok fc" "sizes_ok cf" "WEAR_LEVELING_BACKING_SIZE cf \<le> flash_size fc"
    and "blank_flash fc f" "list_all (in_array cf) ops"
    and "unat a + length v \<le> WEAR_LEVELING_LOGICAL_SIZE cf" "length buf = length v"
  defines "s1 \<equiv> eeprom_write_block cf (legacy_store fc) v a (snd (legacy_run cf fc ops f))"
  shows "eeprom_read_block cf buf a s1 = v \<and> eeprom_read_block cf buf a (eeprom_restart cf fc s1) = v"
proof -
  define ops1 where "ops1 = ops @ [Write_block a v]"
  have in1: "list_all (in_array cf) ops1" "list_all (in_array cf) (ops1 @ [Power_cycle])"
    using assms(5,6) by (simp_all add: ops1_def)
  obtain l0 t0 where run0: "legacy_run cf fc ops f = (l0, t0)"
    by (metis surj_pair)
  obtain l1 t1 where run1: "legacy_run cf fc ops1 f = (l1, t1)"
    by (metis surj_pair)
  obtain l2 t2 where run2: "legacy_run cf fc (ops1 @ [Power_cycle]) f = (l2, t2)"
    by (metis surj_pair)
  note r0 = legacy_run_rests [OF assms(1-5) run0]
  note r1 = legacy_run_rests [OF assms(1-4) in1(1) run1]
  note r2 = legacy_run_rests [OF assms(1-4) in1(2) run2]
  have s1: "s1 = t1" "eeprom_restart cf fc s1 = t2"
    using run1 run2 legacy_run_snoc(1) [of cf fc v a ops f] legacy_run_snoc(2) [of cf fc ops1 f]
    by (simp_all add: s1_def ops1_def)
  have cache: "cache t1 = put_bytes (unat a) v (cache t0)" "cache t2 = cache t1"
    using r0(3) r1(3) r2(3) by (simp_all add: ops1_def)
  have "take (length v) (drop (unat a) (cache t1)) = v"
    using assms(6) r0(4) cache(1) by (simp add: put_bytes_def)
  then have "eeprom_read_block cf buf a t = v" if "cache t = cache t1" for t :: "'h wear_leveling"
    using read_in_range [OF assms(2) _ assms(6), of t] that r1(4) assms(7) by (simp add: eeprom_read_block_def)
  then show ?thesis
    using s1 cache(2) by simp
qed

text \<open>
  (C23) What a program writes with \<open>eeprom_write_byte\<close>, \<open>_word\<close> or \<open>_dword\<close> inside the EEPROM, it reads back, and
  reads back again after a power cycle.
\<close>

theorem eeprom_round_trip:
  assumes "flash_ok fc" "sizes_ok cf" "WEAR_LEVELING_BACKING_SIZE cf \<le> flash_size fc"
    and "blank_flash fc f" "list_all (in_array cf) ops"
  defines "s \<equiv> snd (legacy_run cf fc ops f)" and "d \<equiv> legacy_store fc"
  shows "(unat a + 1 \<le> WEAR_LEVELING_LOGICAL_SIZE cf \<longrightarrow>
      eeprom_read_byte cf a (eeprom_write_byte cf d a b s) = b \<and>
      eeprom_read_byte cf a (eeprom_restart cf fc (eeprom_write_byte cf d a b s)) = b) \<and>
    (unat a + 2 \<le> WEAR_LEVELING_LOGICAL_SIZE cf \<longrightarrow>
      eeprom_read_word cf a (eeprom_write_word cf d a w s) = w \<and>
      eeprom_read_word cf a (eeprom_restart cf fc (eeprom_write_word cf d a w s)) = w) \<and>
    (unat a + 4 \<le> WEAR_LEVELING_LOGICAL_SIZE cf \<longrightarrow>
      eeprom_read_dword cf a (eeprom_write_dword cf d a v s) = v \<and>
      eeprom_read_dword cf a (eeprom_restart cf fc (eeprom_write_dword cf d a v s)) = v)"
  using block_round_trip [OF assms(1-5), of a "[b]" "[0]"] block_round_trip [OF assms(1-5), of a "word_bytes w" "word_bytes 0"]
    block_round_trip [OF assms(1-5), of a "dword_bytes v" "dword_bytes 0"]
  by (simp add: s_def d_def eeprom_read_byte_def eeprom_write_byte_def eeprom_read_word_def eeprom_write_word_def
      eeprom_read_dword_def eeprom_write_dword_def)

theorem eeprom_round_trip_witness:
  "let s = snd (legacy_run stm32f072_sizes stm32f072_flash [Write_block 7 [1, 2]] erased_flash)
   in eeprom_read_dword stm32f072_sizes 1020
        (eeprom_restart stm32f072_sizes stm32f072_flash
          (eeprom_write_dword stm32f072_sizes (legacy_store stm32f072_flash) 1020 0xDEADBEEF s)) = 0xDEADBEEF"
  using eeprom_round_trip [OF stm32f072_flash_ok(1) stm32f072_sizes_ok, of "erased_flash"
      "[Write_block 7 [1, 2]]" 1020 0 0 "0xDEADBEEF"]
  by (simp add: erased_flash_blank stm32f072_sizes_def Let_def)

text \<open>The check of the range compares the 32-bit sum: a small length at the end of the address space passes.\<close>

lemma range_check_wraps: "out_of_range stm32f072_sizes 1023 2" "\<not> out_of_range stm32f072_sizes 0xFFFFFFFF 2"
  by (simp_all add: out_of_range_def stm32f072_sizes_def)

lemma write_same:
  "\<not> out_of_range cf a (of_nat (length v)) \<Longrightarrow> take (length v) (drop (unat a) (cache s)) = v \<Longrightarrow>
   eeprom_write_block cf d v a s = s"
  by (simp add: eeprom_write_block_def wear_leveling_write_def)

lemma update_block:
  assumes "length buf = length v" "length v < 2 ^ 32"
  shows "eeprom_read_block cf buf a s = v \<Longrightarrow> eeprom_write_block cf d v a s = s"
proof (cases "out_of_range cf a (of_nat (length v))")
  case False
  assume "eeprom_read_block cf buf a s = v"
  then have "take (length v) (drop (unat a) (cache s)) = v"
    using False assms by (simp add: eeprom_read_block_def wear_leveling_read_def unat_of_nat)
  then show ?thesis
    using False by (rule write_same [rotated])
qed (simp add: eeprom_write_block_def wear_leveling_write_def)

lemma read_block_length:
  assumes "sizes_ok cf" "length (cache s) = WEAR_LEVELING_LOGICAL_SIZE cf"
    and "unat a + length buf \<le> WEAR_LEVELING_LOGICAL_SIZE cf"
  shows "length (eeprom_read_block cf buf a s) = length buf"
  using read_in_range [OF assms] assms by (simp add: eeprom_read_block_def)

lemma word_bytes_of_word: "length bs = 2 \<Longrightarrow> word_bytes (bytes_word bs) = bs"
  by (cases bs; cases "tl bs") (auto simp: bytes_word_def word_bytes_def bytes_of_words_def)

lemma dword_bytes_of_dword:
  assumes "length bs = 4"
  shows "dword_bytes (bytes_dword bs) = bs"
proof -
  obtain b0 b1 b2 b3 where bs: "bs = [b0, b1, b2, b3]"
    using assms by (auto simp: length_Suc_conv numeral_eq_Suc)
  have lo: "ucast (ucast l OR push_bit 16 (ucast h) :: u32) = l" for l h :: u16
    by (rule bit_word_eqI) (auto simp: bit_simps)
  have hi: "ucast (drop_bit 16 (ucast l OR push_bit 16 (ucast h) :: u32)) = h" for l h :: u16
    by (rule bit_word_eqI) (auto simp: bit_simps dest: bit_imp_le_length)
  show ?thesis
    by (simp only: dword_bytes_def bytes_dword_def lo hi) (simp add: bs bytes_of_words_def)
qed

text \<open>
  \<open>eeprom_update_block\<close> has the effect of \<open>eeprom_write_block\<close>, whatever its uninitialised buffer
  holds, and inside the EEPROM the updates of bytes, words and double words that of the writes.
\<close>

theorem update_is_write:
  assumes "length buf = length v" "length v < 2 ^ 32" "sizes_ok cf" "length (cache s) = WEAR_LEVELING_LOGICAL_SIZE cf"
  shows "eeprom_update_block cf d buf v a s = eeprom_write_block cf d v a s \<and>
    (unat a + 1 \<le> WEAR_LEVELING_LOGICAL_SIZE cf \<longrightarrow> eeprom_update_byte cf d a x s = eeprom_write_byte cf d a x s) \<and>
    (unat a + 2 \<le> WEAR_LEVELING_LOGICAL_SIZE cf \<longrightarrow> eeprom_update_word cf d a y s = eeprom_write_word cf d a y s) \<and>
    (unat a + 4 \<le> WEAR_LEVELING_LOGICAL_SIZE cf \<longrightarrow> eeprom_update_dword cf d a z s = eeprom_write_dword cf d a z s)"
proof (intro conjI impI)
  show "eeprom_update_block cf d buf v a s = eeprom_write_block cf d v a s"
    using update_block [OF assms(1,2), of cf a s d]
    by (cases "eeprom_read_block cf buf a s = v") (simp_all add: eeprom_update_block_def)
next
  assume "unat a + 1 \<le> WEAR_LEVELING_LOGICAL_SIZE cf"
  then have "length (eeprom_read_block cf [0] a s) = 1"
    using read_block_length [OF assms(3,4), of a "[0]"] by simp
  then show "eeprom_update_byte cf d a x s = eeprom_write_byte cf d a x s"
    using update_block [of "[0]" "[x]" cf a s d]
    by (auto simp: eeprom_update_byte_def eeprom_read_byte_def eeprom_write_byte_def length_Suc_conv)
next
  assume "unat a + 2 \<le> WEAR_LEVELING_LOGICAL_SIZE cf"
  then have "length (eeprom_read_block cf (word_bytes 0) a s) = 2"
    using read_block_length [OF assms(3,4), of a "word_bytes 0"] by simp
  then show "eeprom_update_word cf d a y s = eeprom_write_word cf d a y s"
    using update_block [of "word_bytes 0" "word_bytes y" cf a s d] word_bytes_of_word
    by (auto simp: eeprom_update_word_def eeprom_read_word_def eeprom_write_word_def)
next
  assume "unat a + 4 \<le> WEAR_LEVELING_LOGICAL_SIZE cf"
  then have "length (eeprom_read_block cf (dword_bytes 0) a s) = 4"
    using read_block_length [OF assms(3,4), of a "dword_bytes 0"] by simp
  then show "eeprom_update_dword cf d a z s = eeprom_write_dword cf d a z s"
    using update_block [of "dword_bytes 0" "dword_bytes z" cf a s d] dword_bytes_of_dword
    by (auto simp: eeprom_update_dword_def eeprom_read_dword_def eeprom_write_dword_def)
qed

theorem update_is_write_witness:
  "let s = power_on stm32f072_sizes erased_flash
   in eeprom_update_block stm32f072_sizes (legacy_store stm32f072_flash) [9, 9] [1, 2] 30 s =
        eeprom_write_block stm32f072_sizes (legacy_store stm32f072_flash) [1, 2] 30 s"
  using update_is_write [of "[9, 9]" "[1, 2]" stm32f072_sizes
      "power_on stm32f072_sizes erased_flash" "legacy_store stm32f072_flash" 30 0 0 0]
    stm32f072_sizes_ok(1)
  by (simp add: power_on_def Let_def)

section \<open>The length of the log\<close>

lemma consolidate_status: "fst (wear_leveling_consolidate_force cf d s) \<noteq> WEAR_LEVELING_SUCCESS"
  by (simp add: wear_leveling_consolidate_force_def wear_leveling_write_consolidated_def split_beta Let_def)

lemma append_words_length:
  "append_words cf d ws s = (WEAR_LEVELING_SUCCESS, s') \<Longrightarrow> write_address s' = write_address s + 2 * length ws"
proof (induction ws arbitrary: s)
  case (Cons w ws)
  have "write_address t = write_address s + 2"
    if "wear_leveling_append_raw cf d w s = (WEAR_LEVELING_SUCCESS, t)" for t
    using that consolidate_status [of cf d] surj_pair
    by (auto simp: wear_leveling_append_raw_def wear_leveling_consolidate_if_needed_def split_beta Let_def
        split: if_splits) (metis fst_conv)
  moreover obtain status t where step: "wear_leveling_append_raw cf d w s = (status, t)"
    by (metis surj_pair)
  ultimately show ?case
    using Cons.IH [of t] Cons.prems by (cases "status = WEAR_LEVELING_SUCCESS") simp_all
qed simp

lemma next_write_words: "snd (next_write address p) = Some ws \<Longrightarrow> length ws \<le> 2 * fst (next_write address p)"
  by (auto simp: next_write_def split: if_splits)

text \<open>
  The log grows by at most four bytes for every byte written, until it is consolidated.
\<close>

theorem write_log_bound:
  "wear_leveling_write_raw cf d address p s = (WEAR_LEVELING_SUCCESS, s') \<Longrightarrow>
   write_address s' \<le> write_address s + 4 * length p"
proof (induction cf d address p s rule: wear_leveling_write_raw.induct)
  case (1 cf d address p s)
  show ?case
  proof (cases "p = []")
    case False
    obtain n words where nw: "next_write address p = (n, words)"
      by (metis surj_pair)
    have n: "0 < n" "n \<le> length p"
      using next_write_pos [OF False, of address] nw by simp_all
    define ws where "ws = (case words of Some ws \<Rightarrow> ws | None \<Rightarrow>
      [raw16 (multibyte_log address (take n p)) 0, raw16 (multibyte_log address (take n p)) 1] @
      (if 1 < n then [raw16 (multibyte_log address (take n p)) 2] else []) @
      (if 3 < n then [raw16 (multibyte_log address (take n p)) 3] else []))"
    have len: "length ws \<le> 2 * n"
      using next_write_words [of address p] nw n by (cases words) (simp_all add: ws_def)
    obtain status1 s1 where app: "append_words cf d ws s = (status1, s1)"
      by (metis surj_pair)
    have taken: "length (take n p) = n"
      using n by simp
    have step: "(case words of Some ws \<Rightarrow> append_words cf d ws s
        | None \<Rightarrow> wear_leveling_write_raw_multibyte cf d address (take n p) s) = (status1, s1)"
      using app by (cases words)
        (simp_all add: ws_def wear_leveling_write_raw_multibyte_def Let_def taken del: append_words.simps length_take)
    have rest: "status1 = WEAR_LEVELING_SUCCESS"
      "wear_leveling_write_raw cf d (address + n) (drop n p) s1 = (WEAR_LEVELING_SUCCESS, s')"
      using "1.prems" False nw step
      by (subst (asm) wear_leveling_write_raw.simps; auto simp: Let_def split: if_splits)+
    have "write_address s' \<le> write_address s1 + 4 * length (drop n p)"
      using "1.IH" [OF False nw [symmetric] refl step [symmetric]] rest by simp
    then show ?thesis
      using append_words_length [of cf d ws s s1] app rest(1) len n by simp
  qed (use "1.prems" in \<open>simp add: wear_leveling_write_raw.simps\<close>)
qed

theorem write_log_bound_witness:
  "let s = (power_on stm32f072_sizes (FLASH_Unlock stm32f072_flash erased_flash))\<lparr>unlocked := True, write_address := 1032\<rparr>
   in fst (wear_leveling_write_raw stm32f072_sizes (legacy_store stm32f072_flash) 10 [7] s) = WEAR_LEVELING_SUCCESS \<and>
      write_address (snd (wear_leveling_write_raw stm32f072_sizes (legacy_store stm32f072_flash) 10 [7] s)) \<le> 1036"
proof -
  define s where "s = (power_on stm32f072_sizes (FLASH_Unlock stm32f072_flash erased_flash))
    \<lparr>unlocked := True, write_address := 1032\<rparr>"
  note idle = erased_flash_blank [THEN blank_flash_idle]
  have "flash_word stm32f072_flash (store s) 1032 = 0"
    using blank_flash_word [OF stm32f072_flash_ok(1) erased_flash_blank, of 1032] FLASH_Unlock_ok(3) [OF stm32f072_controller idle]
    by (simp add: s_def power_on_def flash_word_def stm32f072_flash_ok)
  then have "fst (bs_write (legacy_store stm32f072_flash) 1032 v (store s))" for v
    using legacy.writes [of "store s" 1032 v] FLASH_Unlock_ok [OF stm32f072_controller idle]
    by (simp add: s_def power_on_def stm32f072_flash_ok)
  then obtain h where w: "legacy_write stm32f072_flash 1032 (raw16 (LOG_ENTRY_MAKE_OPTIMIZED_64 10 7) 0) (store s) = (True, h)"
    by (metis (full_types) legacy_store_sel(4) prod.collapse)
  have nw: "next_write 10 [7] = (1, Some [raw16 (LOG_ENTRY_MAKE_OPTIMIZED_64 10 7) 0])"
    by (simp add: next_write_def)
  have run: "fst (wear_leveling_write_raw stm32f072_sizes (legacy_store stm32f072_flash) 10 [7] s) = WEAR_LEVELING_SUCCESS"
    using w by (simp add: wear_leveling_write_raw.simps nw wear_leveling_append_raw_def
        s_def power_on_def Let_def wear_leveling_consolidate_if_needed_def stm32f072_sizes_def)
  have "write_address (snd (wear_leveling_write_raw stm32f072_sizes (legacy_store stm32f072_flash) 10 [7] s)) \<le>
      write_address s + 4 * length [7 :: u8]"
    using run by (intro write_log_bound [of stm32f072_sizes "legacy_store stm32f072_flash" 10 "[7]" s])
      (metis prod.collapse)
  then show ?thesis
    using run by (simp add: s_def Let_def)
qed

end
