(* ===== verification/Debounce.thy ===== *)
theory Debounce
  imports Prelude
begin

text \<open>
  quantum/debounce: the contract of a debounce algorithm, and the algorithms that work on the whole matrix or on
  its rows with a deferred report (none.c, sym_defer_g.c, sym_defer_pr.c).  A matrix is the list of its rows
  (\<open>matrix_row_t\<close> is a word of any width); \<open>num_rows\<close> is the length of that list.  The state of an algorithm
  goes with the cooked matrix that it updates.  The fast timer has 32 bits, as on ARM; \<open>timer_read\<close> is its
  lower half.
\<close>

type_synonym 'r matrix = "'r word list"

record debounce_config =
  DEBOUNCE :: nat
  MATRIX_COLS :: nat

text \<open>The clamp of the per-key and eager algorithms: \<open>#define DEBOUNCE UINT8_MAX\<close>.\<close>

definition DEBOUNCE_8 :: "debounce_config \<Rightarrow> u8" where
  "DEBOUNCE_8 cf = of_nat (if 255 < DEBOUNCE cf then 255 else DEBOUNCE cf)"

section \<open>The contract\<close>

text \<open>
  The matrix scan (matrix.c) calls the algorithm with the time, the raw matrix, and whether the raw matrix
  has changed since the last call.  A scan is the time since the last one and what it read.
\<close>

fun scan_loop ::
    "(u32 \<Rightarrow> 'r::len matrix \<Rightarrow> bool \<Rightarrow> 's \<Rightarrow> bool \<times> 's) \<Rightarrow> u32 \<Rightarrow> 'r matrix \<Rightarrow> (nat \<times> 'r matrix) list \<Rightarrow> 's \<Rightarrow> 's" where
  "scan_loop deb now raw0 [] s = s"
| "scan_loop deb now raw0 ((gap, raw) # scans) s =
    scan_loop deb (now + of_nat gap) raw scans (snd (deb (now + of_nat gap) raw (raw \<noteq> raw0) s))"

definition final_raw :: "'r::len matrix \<Rightarrow> (nat \<times> 'r matrix) list \<Rightarrow> 'r matrix" where
  "final_raw raw0 scans = (if scans = [] then raw0 else snd (last scans))"

definition valid_scans :: "('r::len matrix \<Rightarrow> bool) \<Rightarrow> nat \<Rightarrow> (nat \<times> 'r matrix) list \<Rightarrow> bool" where
  "valid_scans ok G scans \<longleftrightarrow> (\<forall>(gap, raw) \<in> set scans. gap \<le> G \<and> ok raw)"

text \<open>What the calls return, and a relation between the states before and after every call.\<close>

fun scan_reports ::
    "(u32 \<Rightarrow> 'r::len matrix \<Rightarrow> bool \<Rightarrow> 's \<Rightarrow> bool \<times> 's) \<Rightarrow> u32 \<Rightarrow> 'r matrix \<Rightarrow> (nat \<times> 'r matrix) list \<Rightarrow> 's \<Rightarrow> bool list" where
  "scan_reports deb now raw0 [] s = []"
| "scan_reports deb now raw0 ((gap, raw) # scans) s =
    (let (chg, s') = deb (now + of_nat gap) raw (raw \<noteq> raw0) s
     in chg # scan_reports deb (now + of_nat gap) raw scans s')"

fun scan_compare ::
    "('s \<Rightarrow> 's \<Rightarrow> bool) \<Rightarrow> (u32 \<Rightarrow> 'r::len matrix \<Rightarrow> bool \<Rightarrow> 's \<Rightarrow> bool \<times> 's) \<Rightarrow> u32 \<Rightarrow> 'r matrix \<Rightarrow> (nat \<times> 'r matrix) list \<Rightarrow> 's \<Rightarrow>
     bool list" where
  "scan_compare f deb now raw0 [] s = []"
| "scan_compare f deb now raw0 ((gap, raw) # scans) s =
    (let (chg, s') = deb (now + of_nat gap) raw (raw \<noteq> raw0) s
     in f s s' # scan_compare f deb (now + of_nat gap) raw scans s')"

abbreviation (input) scan_changes where
  "scan_changes cooked \<equiv> scan_compare (\<lambda>s s'. cooked s' \<noteq> cooked s)"

definition follows_reads ::
    "(u32 \<Rightarrow> 'r::len matrix \<Rightarrow> bool \<Rightarrow> 's \<Rightarrow> bool \<times> 's) \<Rightarrow> ('s \<Rightarrow> 'r matrix) \<Rightarrow> u32 \<Rightarrow> 'r matrix \<Rightarrow>
     (nat \<times> 'r matrix) list \<Rightarrow> (nat \<times> 'r matrix) list \<Rightarrow> 's \<Rightarrow> nat \<Rightarrow> nat \<Rightarrow> bool" where
  "follows_reads deb cooked now raw0 xs ys s r c \<longleftrightarrow>
     bit (cooked (scan_loop deb now raw0 (xs @ ys) s) ! r) c \<in>
       insert (bit (cooked (scan_loop deb now raw0 xs s) ! r) c) ((\<lambda>(gap, raw). bit (raw ! r) c) ` set ys)"

lemma scan_loop_append:
  "scan_loop deb now raw0 (xs @ ys) s =
    scan_loop deb (now + of_nat (sum_list (map fst xs))) (final_raw raw0 xs) ys (scan_loop deb now raw0 xs s)"
  by (induction deb now raw0 xs s rule: scan_loop.induct) (simp_all add: final_raw_def add.assoc)

text \<open>
  \<open>inv now raw s\<close>: the state after a call at that time with that raw matrix; \<open>settles_in now t raw s\<close>: all of the
  cooked matrix is the raw matrix when it has not changed for \<open>t\<close> more milliseconds.
\<close>

locale debouncer =
  fixes deb :: "u32 \<Rightarrow> 'r::len matrix \<Rightarrow> bool \<Rightarrow> 's \<Rightarrow> bool \<times> 's"
    and cooked :: "'s \<Rightarrow> 'r matrix"
    and ok :: "'r matrix \<Rightarrow> bool"
    and inv :: "u32 \<Rightarrow> 'r matrix \<Rightarrow> 's \<Rightarrow> bool"
    and settles_in :: "u32 \<Rightarrow> nat \<Rightarrow> 'r matrix \<Rightarrow> 's \<Rightarrow> bool"
    and G :: nat and D :: nat
  assumes keeps_inv: "inv now raw0 s \<Longrightarrow> ok raw \<Longrightarrow> gap \<le> G \<Longrightarrow>
      inv (now + of_nat gap) raw (snd (deb (now + of_nat gap) raw (raw \<noteq> raw0) s))"
    and no_phantom: "inv now raw0 s \<Longrightarrow> ok raw \<Longrightarrow> gap \<le> G \<Longrightarrow> r < length raw \<Longrightarrow>
      bit (cooked (snd (deb (now + of_nat gap) raw (raw \<noteq> raw0) s)) ! r) c \<in> {bit (cooked s ! r) c, bit (raw ! r) c}"
    and inv_length: "inv now raw s \<Longrightarrow> ok raw \<and> length (cooked s) = length raw"
    and ok_length: "ok raw \<Longrightarrow> ok raw' \<Longrightarrow> length raw = length raw'"
    and settles_start: "inv now raw s \<Longrightarrow> settles_in now D raw s"
    and settles_step: "inv now raw s \<Longrightarrow> gap \<le> G \<Longrightarrow> settles_in now t raw s \<Longrightarrow>
      settles_in (now + of_nat gap) (t - gap) raw (snd (deb (now + of_nat gap) raw False s))"
    and settles_done: "inv now raw s \<Longrightarrow> settles_in now 0 raw s \<Longrightarrow> cooked s = raw"
begin

lemma scan_inv:
  "inv now raw0 s \<Longrightarrow> valid_scans ok G scans \<Longrightarrow>
   inv (now + of_nat (sum_list (map fst scans))) (final_raw raw0 scans) (scan_loop deb now raw0 scans s)"
proof (induction scans arbitrary: now raw0 s)
  case (Cons scan scans)
  obtain gap raw where scan: "scan = (gap, raw)"
    by (cases scan)
  have "inv (now + of_nat gap) raw (snd (deb (now + of_nat gap) raw (raw \<noteq> raw0) s))"
    using Cons.prems by (intro keeps_inv) (auto simp: valid_scans_def scan)
  then have "inv (now + of_nat gap + of_nat (sum_list (map fst scans))) (final_raw raw scans)
      (scan_loop deb (now + of_nat gap) raw scans (snd (deb (now + of_nat gap) raw (raw \<noteq> raw0) s)))"
    using Cons.prems(2) by (intro Cons.IH) (simp_all add: valid_scans_def scan)
  then show ?case
    by (simp add: final_raw_def add.assoc scan split: if_splits)
qed (simp add: final_raw_def)

lemma settles:
  "inv now raw s \<Longrightarrow> settles_in now t raw s \<Longrightarrow> \<forall>gap \<in> set gaps. gap \<le> G \<Longrightarrow>
   settles_in (now + of_nat (sum_list gaps)) (t - sum_list gaps) raw (scan_loop deb now raw (map (\<lambda>gap. (gap, raw)) gaps) s)"
proof (induction gaps arbitrary: now s t)
  case (Cons gap gaps)
  define s1 where "s1 = snd (deb (now + of_nat gap) raw False s)"
  have "inv (now + of_nat gap) raw s1"
    using keeps_inv [OF Cons.prems(1), of raw gap] Cons.prems inv_length by (simp add: s1_def)
  moreover have "settles_in (now + of_nat gap) (t - gap) raw s1"
    using settles_step [OF Cons.prems(1) _ Cons.prems(2)] Cons.prems(3) by (simp add: s1_def)
  ultimately show ?case
    using Cons.IH [of "now + of_nat gap" s1 "t - gap"] Cons.prems(3) by (simp add: s1_def add.assoc)
qed simp

text \<open>Whatever came before: once the raw matrix stays the same for \<open>D\<close> milliseconds, it is the cooked matrix.\<close>

lemma settled:
  assumes "inv now raw0 s" "valid_scans ok G scans" "\<forall>gap \<in> set gaps. gap \<le> G" "D \<le> sum_list gaps"
  shows "cooked (scan_loop deb now raw0 (scans @ map (\<lambda>gap. (gap, final_raw raw0 scans)) gaps) s) = final_raw raw0 scans"
proof -
  define raw where "raw = final_raw raw0 scans"
  define now1 where "now1 = now + of_nat (sum_list (map fst scans))"
  define s1 where "s1 = scan_loop deb now raw0 scans s"
  define s2 where "s2 = scan_loop deb now1 raw (map (\<lambda>gap. (gap, raw)) gaps) s1"
  have i1: "inv now1 raw s1"
    using scan_inv [OF assms(1,2)] by (simp add: now1_def raw_def s1_def)
  have "valid_scans ok G (map (\<lambda>gap. (gap, raw)) gaps)"
    using assms(3) inv_length [OF i1] by (auto simp: valid_scans_def)
  then have i2: "inv (now1 + of_nat (sum_list (map fst (map (\<lambda>gap. (gap, raw)) gaps)))) raw s2"
    using scan_inv [OF i1, of "map (\<lambda>gap. (gap, raw)) gaps"] by (auto simp: s2_def final_raw_def last_map split: if_splits)
  have "settles_in (now1 + of_nat (sum_list gaps)) (D - sum_list gaps) raw s2"
    unfolding s2_def by (rule settles [OF i1 settles_start [OF i1] assms(3)])
  moreover have "sum_list (map fst (map (\<lambda>gap. (gap, raw)) gaps)) = sum_list gaps"
    by (simp add: comp_def)
  ultimately have "cooked s2 = raw"
    using settles_done [OF i2] assms(4) by (simp only: diff_is_0_eq')
  then show ?thesis
    by (simp add: scan_loop_append s2_def s1_def now1_def raw_def)
qed

text \<open>No key is reported in a state that it did not have at the start or in one of the scans.\<close>

lemma seen:
  "inv now raw0 s \<Longrightarrow> valid_scans ok G scans \<Longrightarrow> r < length raw0 \<Longrightarrow>
   bit (cooked (scan_loop deb now raw0 scans s) ! r) c \<in>
     insert (bit (cooked s ! r) c) ((\<lambda>(gap, raw). bit (raw ! r) c) ` set scans)"
proof (induction scans arbitrary: now raw0 s)
  case (Cons scan scans)
  obtain gap raw where scan: "scan = (gap, raw)"
    by (cases scan)
  have ok: "ok raw" "gap \<le> G"
    using Cons.prems(2) by (auto simp: valid_scans_def scan)
  have len: "length raw = length raw0"
    using ok_length [OF ok(1)] inv_length [OF Cons.prems(1)] by simp
  define s1 where "s1 = snd (deb (now + of_nat gap) raw (raw \<noteq> raw0) s)"
  have "inv (now + of_nat gap) raw s1"
    unfolding s1_def by (rule keeps_inv [OF Cons.prems(1) ok])
  then have "bit (cooked (scan_loop deb (now + of_nat gap) raw scans s1) ! r) c \<in>
      insert (bit (cooked s1 ! r) c) ((\<lambda>(gap, raw). bit (raw ! r) c) ` set scans)"
    using Cons.prems(2,3) len by (intro Cons.IH) (auto simp: valid_scans_def scan)
  moreover have "bit (cooked s1 ! r) c \<in> {bit (cooked s ! r) c, bit (raw ! r) c}"
    using no_phantom [OF Cons.prems(1) ok] Cons.prems(3) len by (simp add: s1_def)
  ultimately show ?case
    by (auto simp: s1_def scan)
qed simp

text \<open>The same from any point on: a reported state was there before or has been read since.\<close>

lemma seen_since:
  assumes "inv now raw0 s" "valid_scans ok G (xs @ ys)" "r < length raw0"
  shows "follows_reads deb cooked now raw0 xs ys s r c"
proof -
  have valid: "valid_scans ok G xs" "valid_scans ok G ys"
    using assms(2) by (auto simp: valid_scans_def)
  note inv = scan_inv [OF assms(1) valid(1)]
  have "r < length (final_raw raw0 xs)"
    using assms(3) inv_length [OF inv] inv_length [OF assms(1)] ok_length by metis
  then show ?thesis
    unfolding follows_reads_def scan_loop_append by (rule seen [OF inv valid(2)])
qed

lemma reports_are:
  assumes "\<And>now raw0 raw s gap chg s'. inv now raw0 s \<Longrightarrow> ok raw \<Longrightarrow> gap \<le> G \<Longrightarrow>
      deb (now + of_nat gap) raw (raw \<noteq> raw0) s = (chg, s') \<Longrightarrow> chg \<longleftrightarrow> f s s'"
  shows "inv now raw0 s \<Longrightarrow> valid_scans ok G scans \<Longrightarrow>
    scan_reports deb now raw0 scans s = scan_compare f deb now raw0 scans s"
proof (induction scans arbitrary: now raw0 s)
  case (Cons scan scans)
  obtain gap raw where scan: "scan = (gap, raw)"
    by (cases scan)
  have ok: "ok raw" "gap \<le> G" "valid_scans ok G scans"
    using Cons.prems(2) by (auto simp: valid_scans_def scan)
  obtain chg s1 where run: "deb (now + of_nat gap) raw (raw \<noteq> raw0) s = (chg, s1)"
    by (metis surj_pair)
  show ?case
    using Cons.IH [of "now + of_nat gap" raw s1] keeps_inv [OF Cons.prems(1) ok(1,2)] assms [OF Cons.prems(1) ok(1,2) run] ok(3)
    by (simp add: scan run)
qed simp

end

text \<open>The return value of most algorithms tells whether the cooked matrix has changed.\<close>

locale exact_debouncer = debouncer deb cooked ok inv settles_in G D
  for deb :: "u32 \<Rightarrow> 'r::len matrix \<Rightarrow> bool \<Rightarrow> 's \<Rightarrow> bool \<times> 's" and cooked ok inv settles_in G D +
  assumes exact: "inv now raw0 s \<Longrightarrow> ok raw \<Longrightarrow> gap \<le> G \<Longrightarrow>
      deb (now + of_nat gap) raw (raw \<noteq> raw0) s = (chg, s') \<Longrightarrow> chg \<longleftrightarrow> cooked s' \<noteq> cooked s"
begin

lemma reports_changes:
  "inv now raw0 s \<Longrightarrow> valid_scans ok G scans \<Longrightarrow>
   scan_reports deb now raw0 scans s = scan_changes cooked deb now raw0 scans s"
  by (rule reports_are) (rule exact)

end

section \<open>Loops over independent cells\<close>

text \<open>
  The loops of the algorithms visit every cell (a row, or a key of a row) once; a visit changes that cell and
  raises flags.  \<open>R k\<close> relates a cell before and after.
\<close>

lemma fold_pointwise:
  assumes "\<forall>k \<in> set ks. \<forall>st. P st \<and> view st k = v0 k \<longrightarrow>
      P (f k st) \<and> R k (view (f k st) k) \<and> (\<forall>j. j \<noteq> k \<longrightarrow> view (f k st) j = view st j) \<and>
      (\<forall>x. flag (f k st) x \<longleftrightarrow> flag st x \<or> H k x)"
    and "distinct ks" "P st" "\<forall>k \<in> set ks. view st k = v0 k"
  shows "P (fold f ks st)" "\<forall>k \<in> set ks. R k (view (fold f ks st) k)"
    "\<forall>k. k \<notin> set ks \<longrightarrow> view (fold f ks st) k = view st k"
    "\<forall>x. flag (fold f ks st) x \<longleftrightarrow> flag st x \<or> (\<exists>k \<in> set ks. H k x)"
proof -
  have "P (fold f ks st) \<and> (\<forall>k \<in> set ks. R k (view (fold f ks st) k)) \<and>
      (\<forall>k. k \<notin> set ks \<longrightarrow> view (fold f ks st) k = view st k) \<and>
      (\<forall>x. flag (fold f ks st) x \<longleftrightarrow> flag st x \<or> (\<exists>k \<in> set ks. H k x))"
    using assms
  proof (induction ks arbitrary: st)
    case (Cons k ks)
    have one: "P (f k st)" "R k (view (f k st) k)" "\<And>j. j \<noteq> k \<Longrightarrow> view (f k st) j = view st j"
      "\<And>x. flag (f k st) x \<longleftrightarrow> flag st x \<or> H k x"
      using Cons.prems(1,3,4) by simp_all
    have rest: "\<forall>j \<in> set ks. view (f k st) j = v0 j"
      using one(3) Cons.prems(2,4) by (metis distinct.simps(2) list.set_intros(2))
    have "P (fold f ks (f k st)) \<and> (\<forall>j \<in> set ks. R j (view (fold f ks (f k st)) j)) \<and>
        (\<forall>j. j \<notin> set ks \<longrightarrow> view (fold f ks (f k st)) j = view (f k st) j) \<and>
        (\<forall>x. flag (fold f ks (f k st)) x \<longleftrightarrow> flag (f k st) x \<or> (\<exists>j \<in> set ks. H j x))"
      using Cons.prems(1,2) one(1) rest by (intro Cons.IH) simp_all
    then show ?case
      using one Cons.prems(2) by auto
  qed simp
  then show "P (fold f ks st)" "\<forall>k \<in> set ks. R k (view (fold f ks st) k)"
    "\<forall>k. k \<notin> set ks \<longrightarrow> view (fold f ks st) k = view st k"
    "\<forall>x. flag (fold f ks st) x \<longleftrightarrow> flag st x \<or> (\<exists>k \<in> set ks. H k x)"
    by blast+
qed

section \<open>No debouncing\<close>

definition debounce_none :: "'r::len matrix \<Rightarrow> 'r matrix \<Rightarrow> bool \<times> 'r matrix" where
  "debounce_none raw cooked = (raw \<noteq> cooked, raw)"

section \<open>One timer for the whole matrix: \<open>sym_defer_g\<close>\<close>

record debounce_g =
  debouncing :: bool
  debouncing_time :: u32

definition debounce_sym_defer_g ::
    "debounce_config \<Rightarrow> u32 \<Rightarrow> 'r::len matrix \<Rightarrow> bool \<Rightarrow> debounce_g \<times> 'r matrix \<Rightarrow> bool \<times> debounce_g \<times> 'r matrix" where
  "debounce_sym_defer_g cf now raw changed st =
    (let (s, cooked) = st in
     if DEBOUNCE cf = 0 then (let (cooked_changed, cooked) = debounce_none raw cooked in (cooked_changed, s, cooked))
     else
       let s = (if changed then s\<lparr>debouncing := True, debouncing_time := now\<rparr> else s)
       in if debouncing s \<and> DEBOUNCE cf \<le> unat (TIMER_DIFF_32 now (debouncing_time s)) then
            (let (cooked_changed, cooked) = (if cooked \<noteq> raw then (True, raw) else (False, cooked))
             in (cooked_changed, s\<lparr>debouncing := False\<rparr>, cooked))
          else (False, s, cooked))"

definition rows_ok :: "nat \<Rightarrow> 'r::len matrix \<Rightarrow> bool" where
  "rows_ok n raw \<longleftrightarrow> length raw = n"

definition defer_g_inv ::
    "debounce_config \<Rightarrow> nat \<Rightarrow> u32 \<Rightarrow> 'r::len matrix \<Rightarrow> debounce_g \<times> 'r matrix \<Rightarrow> bool" where
  "defer_g_inv cf n now raw st \<longleftrightarrow> rows_ok n raw \<and> rows_ok n (snd st) \<and> DEBOUNCE cf \<le> 2 ^ 31 \<and>
     (snd st \<noteq> raw \<longrightarrow> debouncing (fst st) \<and> unat (now - debouncing_time (fst st)) < DEBOUNCE cf)"

definition defer_g_settles_in ::
    "debounce_config \<Rightarrow> u32 \<Rightarrow> nat \<Rightarrow> 'r::len matrix \<Rightarrow> debounce_g \<times> 'r matrix \<Rightarrow> bool" where
  "defer_g_settles_in cf now t raw st \<longleftrightarrow>
     (snd st \<noteq> raw \<longrightarrow> DEBOUNCE cf \<le> unat (now - debouncing_time (fst st)) + t)"

lemma elapsed_add:
  fixes now t :: u32
  assumes "unat (now - t) < 2 ^ 31" "gap < 2 ^ 31"
  shows "unat (now + of_nat gap - t) = unat (now - t) + gap"
proof -
  have "now + of_nat gap - t = of_nat (unat (now - t) + gap)"
    by simp
  then show ?thesis
    using assms by (simp only: unat_of_nat) simp
qed

lemma sym_defer_g_debouncer:
  "exact_debouncer (debounce_sym_defer_g cf) snd (rows_ok n) (defer_g_inv cf n) (defer_g_settles_in cf) (2 ^ 31 - 1)
     (DEBOUNCE cf)"
proof unfold_locales
  fix now and raw0 raw :: "'a::len matrix" and s :: "debounce_g \<times> 'a matrix" and gap r c t
  assume inv: "defer_g_inv cf n now raw0 s"
  then show "rows_ok n raw0 \<and> length (snd s) = length raw0" "defer_g_settles_in cf now (DEBOUNCE cf) raw0 s"
    by (simp_all add: defer_g_inv_def defer_g_settles_in_def rows_ok_def)
  show "defer_g_settles_in cf now 0 raw0 s \<Longrightarrow> snd s = raw0"
    using inv by (auto simp: defer_g_inv_def defer_g_settles_in_def)
  note defs = debounce_sym_defer_g_def debounce_none_def split_beta Let_def TIMER_DIFF_32_def
  show "defer_g_inv cf n (now + of_nat gap) raw (snd (debounce_sym_defer_g cf (now + of_nat gap) raw (raw \<noteq> raw0) s))"
    if "rows_ok n raw"
    using inv that by (auto simp: defs defer_g_inv_def)
  show "bit (snd (snd (debounce_sym_defer_g cf (now + of_nat gap) raw (raw \<noteq> raw0) s)) ! r) c
      \<in> {bit (snd s ! r) c, bit (raw ! r) c}"
    by (auto simp: defs)
  show "defer_g_settles_in cf (now + of_nat gap) (t - gap) raw0
      (snd (debounce_sym_defer_g cf (now + of_nat gap) raw0 False s))"
    if "gap \<le> 2 ^ 31 - 1" "defer_g_settles_in cf now t raw0 s"
    using inv that elapsed_add [of now "debouncing_time (fst s)" gap]
    by (auto simp: defs defer_g_inv_def defer_g_settles_in_def)
  show "chg \<longleftrightarrow> snd s' \<noteq> snd s" if "debounce_sym_defer_g cf (now + of_nat gap) raw (raw \<noteq> raw0) s = (chg, s')" for chg s'
    using that by (auto simp: defs split: if_splits)
qed (simp_all add: rows_ok_def)

section \<open>One timer for every row, deferred: \<open>sym_defer_pr\<close>\<close>

record 'row debounce_pr =
  countdowns :: "u8 list"
  last_raw :: "'row list"
  last_time_16 :: u16

definition debounce_init_pr :: "u32 \<Rightarrow> nat \<Rightarrow> 'r::len word debounce_pr" where
  "debounce_init_pr now num_rows =
    \<lparr>countdowns = replicate num_rows 0, last_raw = replicate num_rows 0, last_time_16 = ucast now\<rparr>"

definition debounce_pr_row ::
    "debounce_config \<Rightarrow> u8 \<Rightarrow> 'r::len matrix \<Rightarrow> nat \<Rightarrow> bool \<times> 'r word debounce_pr \<times> 'r matrix \<Rightarrow> bool \<times> 'r word debounce_pr \<times> 'r matrix" where
  "debounce_pr_row cf elapsed raw row st =
    (let (cooked_changed, s, cooked) = st; raw_row = raw ! row; countdown = countdowns s ! row
     in if raw_row \<noteq> last_raw s ! row then
          (cooked_changed, s\<lparr>countdowns := (countdowns s)[row := of_nat (DEBOUNCE cf)], last_raw := (last_raw s)[row := raw_row]\<rparr>,
           cooked)
        else if elapsed < countdown then
          (cooked_changed, s\<lparr>countdowns := (countdowns s)[row := countdown - elapsed]\<rparr>, cooked)
        else if countdown \<noteq> 0 then
          (cooked_changed \<or> cooked ! row XOR raw_row \<noteq> 0, s\<lparr>countdowns := (countdowns s)[row := 0]\<rparr>, cooked[row := raw_row])
        else (cooked_changed, s, cooked))"

definition debounce_sym_defer_pr ::
    "debounce_config \<Rightarrow> u32 \<Rightarrow> 'r::len matrix \<Rightarrow> bool \<Rightarrow> 'r word debounce_pr \<times> 'r matrix \<Rightarrow> bool \<times> 'r word debounce_pr \<times> 'r matrix" where
  "debounce_sym_defer_pr cf now raw changed st =
    (let (s, cooked) = st;
         elapsed16 = TIMER_DIFF_16 (ucast now) (last_time_16 s);
         s = s\<lparr>last_time_16 := ucast now\<rparr>;
         elapsed = (if 255 < elapsed16 then 255 else ucast elapsed16)
     in fold (debounce_pr_row cf elapsed raw) [0..<length cooked] (False, s, cooked))"

text \<open>A row of the state: its countdown, its last raw value and its cooked value.\<close>

definition pr_row :: "bool \<times> 'r::len word debounce_pr \<times> 'r matrix \<Rightarrow> nat \<Rightarrow> u8 \<times> 'r word \<times> 'r word" where
  "pr_row st row = (countdowns (fst (snd st)) ! row, last_raw (fst (snd st)) ! row, snd (snd st) ! row)"

definition pr_sized :: "nat \<Rightarrow> 'r::len word debounce_pr \<times> 'r matrix \<Rightarrow> bool" where
  "pr_sized n st \<longleftrightarrow> length (countdowns (fst st)) = n \<and> length (last_raw (fst st)) = n \<and> length (snd st) = n"

definition pr_step :: "debounce_config \<Rightarrow> u8 \<Rightarrow> 'r::len word \<Rightarrow> u8 \<times> 'r word \<times> 'r word \<Rightarrow> u8 \<times> 'r word \<times> 'r word" where
  "pr_step cf elapsed raw_row v =
    (let (countdown, prev, cooked) = v
     in if raw_row \<noteq> prev then (of_nat (DEBOUNCE cf), raw_row, cooked)
        else if elapsed < countdown then (countdown - elapsed, prev, cooked)
        else (0, prev, if countdown \<noteq> 0 then raw_row else cooked))"

definition elapsed_pr :: "u32 \<Rightarrow> u16 \<Rightarrow> u8" where
  "elapsed_pr now t =
    (let elapsed16 = TIMER_DIFF_16 (ucast now) t in if 255 < elapsed16 then 255 else ucast elapsed16)"

text \<open>Every call steps every row on its own; it returns whether a row of the cooked matrix has changed.\<close>

lemma sym_defer_pr_rows:
  assumes "pr_sized n (s, cooked)" "debounce_sym_defer_pr cf now raw changed (s, cooked) = (chg, s', cooked')"
  shows "pr_sized n (s', cooked')" "last_time_16 s' = ucast now"
    and "row < n \<Longrightarrow> pr_row (chg, s', cooked') row =
      pr_step cf (elapsed_pr now (last_time_16 s)) (raw ! row) (pr_row (chg, s, cooked) row)"
    and "chg \<longleftrightarrow> (\<exists>row < n. cooked' ! row \<noteq> cooked ! row)"
proof -
  define elapsed where "elapsed = elapsed_pr now (last_time_16 s)"
  define st0 where "st0 = (False, s\<lparr>last_time_16 := ucast now\<rparr>, cooked)"
  have len: "length cooked = n"
    using assms(1) by (simp add: pr_sized_def)
  define next_row where "next_row row = pr_step cf elapsed (raw ! row) (pr_row st0 row)" for row
  have run: "fold (debounce_pr_row cf elapsed raw) [0..<n] st0 = (chg, s', cooked')"
    using assms(2) len by (simp add: debounce_sym_defer_pr_def Let_def elapsed_def elapsed_pr_def st0_def)
  have xor: "x XOR y = 0 \<longleftrightarrow> x = y" for x y :: "'a word"
    by (auto simp: bit_eq_iff bit_simps)
  define H where "H row = (snd (snd (next_row row)) \<noteq> snd (snd (pr_row st0 row)))" for row
  define P where "P st = (pr_sized n (snd st) \<and> last_time_16 (fst (snd st)) = ucast now)" for st :: "bool \<times> 'a word debounce_pr \<times> 'a matrix"
  have step: "P (debounce_pr_row cf elapsed raw row st) \<and> pr_row (debounce_pr_row cf elapsed raw row st) row = next_row row \<and>
      (\<forall>j. j \<noteq> row \<longrightarrow> pr_row (debounce_pr_row cf elapsed raw row st) j = pr_row st j) \<and>
      (\<forall>x :: unit. fst (debounce_pr_row cf elapsed raw row st) \<longleftrightarrow> fst st \<or> H row)"
    if "row \<in> set [0..<n]" "P st" "pr_row st row = pr_row st0 row" for row st
  proof -
    obtain c t ck where st: "st = (c, t, ck)"
      by (metis prod_cases3)
    have row: "row < length (countdowns t)" "row < length (last_raw t)" "row < length ck"
      using that(1,2) by (simp_all add: P_def pr_sized_def st)
    have v: "pr_row st0 row = (countdowns t ! row, last_raw t ! row, ck ! row)"
      using that(3) by (simp add: pr_row_def st)
    have nr: "next_row row = pr_step cf elapsed (raw ! row) (countdowns t ! row, last_raw t ! row, ck ! row)"
      "H row \<longleftrightarrow> snd (snd (next_row row)) \<noteq> ck ! row"
      by (simp_all add: next_row_def H_def v)
    show ?thesis
      unfolding nr(2) nr(1) using that(2) row
      by (simp add: st debounce_pr_row_def P_def pr_step_def Let_def pr_row_def pr_sized_def xor) (auto simp: not_less)
  qed
  then have step: "\<forall>row \<in> set [0..<n]. \<forall>st. P st \<and> pr_row st row = pr_row st0 row \<longrightarrow>
      P (debounce_pr_row cf elapsed raw row st) \<and> pr_row (debounce_pr_row cf elapsed raw row st) row = next_row row \<and>
      (\<forall>j. j \<noteq> row \<longrightarrow> pr_row (debounce_pr_row cf elapsed raw row st) j = pr_row st j) \<and>
      (\<forall>x :: unit. fst (debounce_pr_row cf elapsed raw row st) \<longleftrightarrow> fst st \<or> H row)"
    by blast
  have start: "P st0" "\<forall>row \<in> set [0..<n]. pr_row st0 row = pr_row st0 row"
    using assms(1) by (simp_all add: P_def st0_def pr_sized_def)
  note all = fold_pointwise [OF step distinct_upt start, unfolded run]
  have all: "pr_sized n (s', cooked')" "last_time_16 s' = ucast now"
    "\<And>row. row < n \<Longrightarrow> pr_row (chg, s', cooked') row = next_row row" "chg \<longleftrightarrow> (\<exists>row < n. H row)"
    using all by (auto simp: P_def st0_def)
  then show "pr_sized n (s', cooked')" "last_time_16 s' = ucast now"
    by simp_all
  have st0: "pr_row st0 row = pr_row (chg, s, cooked) row" for row
    by (simp add: st0_def pr_row_def)
  show "pr_row (chg, s', cooked') row = pr_step cf (elapsed_pr now (last_time_16 s)) (raw ! row) (pr_row (chg, s, cooked) row)"
    if "row < n"
    using all(3) [OF that] by (simp add: next_row_def elapsed_def st0)
  have "H row \<longleftrightarrow> cooked' ! row \<noteq> cooked ! row" if "row < n" for row
    using all(3) [OF that] by (simp add: H_def st0_def pr_row_def) (metis snd_conv)
  then show "chg \<longleftrightarrow> (\<exists>row < n. cooked' ! row \<noteq> cooked ! row)"
    using all(4) by auto
qed

definition defer_pr_inv ::
    "debounce_config \<Rightarrow> nat \<Rightarrow> u32 \<Rightarrow> 'r::len matrix \<Rightarrow> 'r word debounce_pr \<times> 'r matrix \<Rightarrow> bool" where
  "defer_pr_inv cf n now raw st \<longleftrightarrow> rows_ok n raw \<and> pr_sized n st \<and> last_raw (fst st) = raw \<and>
     last_time_16 (fst st) = ucast now \<and> (of_nat (DEBOUNCE cf) :: u8) \<noteq> 0 \<and>
     (\<forall>row < n. countdowns (fst st) ! row \<le> of_nat (DEBOUNCE cf)) \<and>
     (\<forall>row < n. snd st ! row \<noteq> raw ! row \<longrightarrow> countdowns (fst st) ! row \<noteq> 0)"

definition defer_pr_settles_in ::
    "nat \<Rightarrow> u32 \<Rightarrow> nat \<Rightarrow> 'r::len matrix \<Rightarrow> 'r word debounce_pr \<times> 'r matrix \<Rightarrow> bool" where
  "defer_pr_settles_in n now t raw st \<longleftrightarrow>
     (\<forall>row < n. snd st ! row \<noteq> raw ! row \<longrightarrow> unat (countdowns (fst st) ! row) \<le> t)"

lemma elapsed_pr_gap:
  assumes "gap \<le> 65535"
  shows "unat (elapsed_pr (now + of_nat gap) (ucast now)) = (if 255 < gap then 255 else gap)"
proof -
  have "ucast (now + of_nat gap) = (ucast now + of_nat gap :: u16)"
    by (simp add: word_unat_eq_iff unsigned_ucast_eq unat_word_ariths unat_of_nat take_bit_eq_mod mod_mod_cancel mod_simps)
  then have "TIMER_DIFF_16 (ucast (now + of_nat gap)) (ucast now) = of_nat gap"
    by (simp add: TIMER_DIFF_16_def)
  moreover have "unat (of_nat gap :: u16) = gap"
    using assms by (simp add: unat_of_nat)
  ultimately show ?thesis
    by (simp add: elapsed_pr_def Let_def word_less_nat_alt unsigned_ucast_eq take_bit_eq_mod)
qed

lemma pr_step_cases:
  assumes "(cd', prev', ck') = pr_step cf e raw (cd, prev, ck)"
  obtains (new) "raw \<noteq> prev" "cd' = of_nat (DEBOUNCE cf)" "prev' = raw" "ck' = ck"
  | (wait) "raw = prev" "e < cd" "cd' = cd - e" "prev' = raw" "ck' = ck"
  | (expire) "raw = prev" "cd \<le> e" "cd' = 0" "prev' = raw" "ck' = (if cd \<noteq> 0 then raw else ck)"
  using assms by (auto simp: pr_step_def not_less split: if_splits)

lemma unat_minus: "e < cd \<Longrightarrow> unat (cd - e) = unat cd - unat e" for cd e :: "'a::len word"
  by (simp add: unat_sub word_less_nat_alt word_le_nat_alt)

lemma sym_defer_pr_debouncer:
  "exact_debouncer (debounce_sym_defer_pr cf) snd (rows_ok n) (defer_pr_inv cf n) (defer_pr_settles_in n) 65535
     (unat (of_nat (DEBOUNCE cf) :: u8))"
proof unfold_locales
  fix now and raw0 raw :: "'a::len matrix" and st :: "'a word debounce_pr \<times> 'a matrix" and gap t
  assume inv: "defer_pr_inv cf n now raw0 st"
  then show "rows_ok n raw0 \<and> length (snd st) = length raw0"
    "defer_pr_settles_in n now (unat (of_nat (DEBOUNCE cf) :: u8)) raw0 st"
    by (simp_all add: defer_pr_inv_def defer_pr_settles_in_def rows_ok_def pr_sized_def word_le_nat_alt)
  show "defer_pr_settles_in n now 0 raw0 st \<Longrightarrow> snd st = raw0"
    using inv by (intro nth_equalityI)
      (auto simp: defer_pr_inv_def defer_pr_settles_in_def rows_ok_def pr_sized_def unat_eq_0)
  obtain s c where st: "st = (s, c)"
    by (cases st)
  have call: "pr_sized n (s', c') \<and> last_time_16 s' = ucast (now + of_nat gap) \<and>
      (\<forall>row < n. (countdowns s' ! row, last_raw s' ! row, c' ! row) =
        pr_step cf (elapsed_pr (now + of_nat gap) (ucast now)) (r ! row) (countdowns s ! row, raw0 ! row, c ! row)) \<and>
      (chg \<longleftrightarrow> (\<exists>row < n. c' ! row \<noteq> c ! row))"
    if "debounce_sym_defer_pr cf (now + of_nat gap) r ch st = (chg, s', c')" for r ch chg s' c'
    using sym_defer_pr_rows [of n s c cf "now + of_nat gap" r ch chg s' c'] that inv
    by (simp add: defer_pr_inv_def st pr_row_def)
  show "defer_pr_inv cf n (now + of_nat gap) raw (snd (debounce_sym_defer_pr cf (now + of_nat gap) raw (raw \<noteq> raw0) st))"
    if "rows_ok n raw"
  proof -
    obtain chg s' c' where run: "debounce_sym_defer_pr cf (now + of_nat gap) raw (raw \<noteq> raw0) st = (chg, s', c')"
      by (metis prod_cases3)
    note rows = call [OF run]
    have step: "(countdowns s' ! row, last_raw s' ! row, c' ! row) =
        pr_step cf (elapsed_pr (now + of_nat gap) (ucast now)) (raw ! row) (countdowns s ! row, raw0 ! row, c ! row)"
      if "row < n" for row
      using rows that by blast
    have "last_raw s' ! row = raw ! row" if "row < n" for row
      using step [OF that] by (cases rule: pr_step_cases) simp_all
    then have "last_raw s' = raw"
      using rows that by (intro nth_equalityI) (simp_all add: pr_sized_def rows_ok_def)
    moreover have "countdowns s' ! row \<le> of_nat (DEBOUNCE cf) \<and> (c' ! row \<noteq> raw ! row \<longrightarrow> countdowns s' ! row \<noteq> 0)"
      if row: "row < n" for row
    proof -
      have old: "countdowns s ! row \<le> of_nat (DEBOUNCE cf)" "c ! row \<noteq> raw0 ! row \<Longrightarrow> countdowns s ! row \<noteq> 0"
        "(of_nat (DEBOUNCE cf) :: u8) \<noteq> 0"
        using inv row by (auto simp: defer_pr_inv_def st)
      show ?thesis
        using step [OF row]
      proof (cases rule: pr_step_cases)
        case wait
        then show ?thesis
          using old by (auto simp: word_le_nat_alt unat_minus)
      qed (use old in auto)
    qed
    ultimately show ?thesis
      using rows that inv by (simp add: run defer_pr_inv_def)
  qed
  show "bit (snd (snd (debounce_sym_defer_pr cf (now + of_nat gap) raw (raw \<noteq> raw0) st)) ! r) k
      \<in> {bit (snd st ! r) k, bit (raw ! r) k}" if "rows_ok n raw" "r < length raw" for r k
  proof -
    obtain chg s' c' where run: "debounce_sym_defer_pr cf (now + of_nat gap) raw (raw \<noteq> raw0) st = (chg, s', c')"
      by (metis prod_cases3)
    have "(countdowns s' ! r, last_raw s' ! r, c' ! r) =
        pr_step cf (elapsed_pr (now + of_nat gap) (ucast now)) (raw ! r) (countdowns s ! r, raw0 ! r, c ! r)"
      using call [OF run] that by (simp add: rows_ok_def)
    then show ?thesis
      unfolding run by (cases rule: pr_step_cases) (simp_all add: st)
  qed
  show "defer_pr_settles_in n (now + of_nat gap) (t - gap) raw0
      (snd (debounce_sym_defer_pr cf (now + of_nat gap) raw0 False st))"
    if gap: "gap \<le> 65535" and settles: "defer_pr_settles_in n now t raw0 st"
  proof -
    obtain chg s' c' where run: "debounce_sym_defer_pr cf (now + of_nat gap) raw0 False st = (chg, s', c')"
      by (metis prod_cases3)
    have "unat (countdowns s' ! row) \<le> t - gap" if row: "row < n" "c' ! row \<noteq> raw0 ! row" for row
    proof -
      have step: "(countdowns s' ! row, last_raw s' ! row, c' ! row) =
          pr_step cf (elapsed_pr (now + of_nat gap) (ucast now)) (raw0 ! row) (countdowns s ! row, raw0 ! row, c ! row)"
        using call [OF run] row by blast
      then show ?thesis
      proof (cases rule: pr_step_cases)
        case wait
        then have "unat (countdowns s ! row) \<le> t"
          using settles row wait by (simp add: defer_pr_settles_in_def st)
        then show ?thesis
          using wait elapsed_pr_gap [OF gap, of now] unat_less_numeral_8 [of "countdowns s ! row"]
          by (auto simp: word_less_nat_alt unat_minus split: if_splits)
      next
        case expire
        then have "countdowns s ! row \<noteq> 0"
          using row inv by (auto simp: defer_pr_inv_def st)
        then show ?thesis
          using expire row(2) by simp
      qed simp
    qed
    then show ?thesis
      by (simp add: run defer_pr_settles_in_def)
  qed
  show "chg \<longleftrightarrow> snd s' \<noteq> snd st"
    if "rows_ok n raw" "debounce_sym_defer_pr cf (now + of_nat gap) raw (raw \<noteq> raw0) st = (chg, s')" for chg s'
  proof -
    obtain s1 c1 where s': "s' = (s1, c1)"
      by (cases s')
    have "length c1 = n" "chg \<longleftrightarrow> (\<exists>row < n. c1 ! row \<noteq> c ! row)"
      using call [of raw "raw \<noteq> raw0" chg s1 c1] that(2) by (simp_all add: s' pr_sized_def)
    moreover have "length c = n"
      using inv by (simp add: defer_pr_inv_def pr_sized_def st)
    ultimately show ?thesis
      by (auto simp: s' st list_eq_iff_nth_eq)
  qed
qed (simp_all add: rows_ok_def)

end
