(* ===== verification/DebounceCells.thy ===== *)
theory DebounceCells
  imports Debounce
begin

text \<open>
  The algorithms that keep a counter for every cell of the matrix, a cell being a row (sym_eager_pr.c) or a key
  (the per-key algorithms).  An abstract machine describes what a call does to one cell; an algorithm that steps
  all of its cells by such a machine keeps the contract of a debounce algorithm.  The theory ends with
  sym_eager_pr.c.
\<close>

section \<open>Cell machines\<close>

text \<open>The elapsed time, clamped to \<open>UINT8_MAX\<close>.\<close>

definition clamp_gap :: "nat \<Rightarrow> u8" where
  "clamp_gap gap = (if 255 < gap then 255 else of_nat gap)"

lemma unat_clamp_gap: "unat (clamp_gap gap) = (if 255 < gap then 255 else gap)"
  by (simp add: clamp_gap_def unat_of_nat)

text \<open>\<open>wait\<close> is the time that a cell whose value is not the raw value needs at most.\<close>

locale cell_machine =
  fixes step :: "u8 \<Rightarrow> 'v \<Rightarrow> 'c \<Rightarrow> 'c" and val :: "'c \<Rightarrow> 'v" and cinv :: "'v \<Rightarrow> 'c \<Rightarrow> bool"
    and wait :: "'v \<Rightarrow> 'c \<Rightarrow> nat" and G :: nat and D :: nat
  assumes step_inv: "cinv raw0 c \<Longrightarrow> cinv raw (step e raw c)"
    and step_val: "cinv raw0 c \<Longrightarrow> val (step e raw c) \<in> {val c, raw}"
    and wait_bound: "cinv raw c \<Longrightarrow> val c \<noteq> raw \<Longrightarrow> 0 < wait raw c \<and> wait raw c \<le> D"
    and wait_step: "cinv raw c \<Longrightarrow> gap \<le> G \<Longrightarrow> val (step (clamp_gap gap) raw c) \<noteq> raw \<Longrightarrow>
      wait raw (step (clamp_gap gap) raw c) + gap \<le> wait raw c"

text \<open>
  A step has two halves, the update of the counter and the transfer.  Deferred: a counter runs while the cell
  differs; when it expires, the cell takes the raw value.
\<close>

definition defer_upd :: "u8 \<Rightarrow> 'v \<Rightarrow> u8 \<times> 'v \<Rightarrow> u8 \<times> 'v" where
  "defer_upd e raw cell =
    (if fst cell \<noteq> 0 then (if fst cell \<le> e then (0, raw) else (fst cell - e, snd cell)) else cell)"

definition defer_tr :: "u8 \<Rightarrow> 'v \<Rightarrow> u8 \<times> 'v \<Rightarrow> u8 \<times> 'v" where
  "defer_tr d raw cell = (if snd cell \<noteq> raw then (if fst cell = 0 then d else fst cell, snd cell) else (0, snd cell))"

definition defer_cell :: "u8 \<Rightarrow> u8 \<Rightarrow> 'v \<Rightarrow> u8 \<times> 'v \<Rightarrow> u8 \<times> 'v" where
  "defer_cell d e raw cell = defer_tr d raw (defer_upd e raw cell)"

definition defer_cell_inv :: "u8 \<Rightarrow> 'v \<Rightarrow> u8 \<times> 'v \<Rightarrow> bool" where
  "defer_cell_inv d raw cell \<longleftrightarrow> (snd cell \<noteq> raw \<longleftrightarrow> fst cell \<noteq> 0) \<and> fst cell \<le> d \<and> d \<noteq> 0"

text \<open>Eager: a cell takes the raw value at once, and then no other one while its counter runs.\<close>

definition eager_upd :: "u8 \<Rightarrow> 'v \<Rightarrow> u8 \<times> 'v \<Rightarrow> u8 \<times> 'v" where
  "eager_upd e raw cell = (if fst cell \<le> e then 0 else fst cell - e, snd cell)"

definition eager_tr :: "u8 \<Rightarrow> 'v \<Rightarrow> u8 \<times> 'v \<Rightarrow> u8 \<times> 'v" where
  "eager_tr d raw cell = (if snd cell \<noteq> raw \<and> fst cell = 0 then (d, raw) else cell)"

definition eager_cell :: "u8 \<Rightarrow> u8 \<Rightarrow> 'v \<Rightarrow> u8 \<times> 'v \<Rightarrow> u8 \<times> 'v" where
  "eager_cell d e raw cell = eager_tr d raw (eager_upd e raw cell)"

definition eager_cell_inv :: "u8 \<Rightarrow> 'v \<Rightarrow> u8 \<times> 'v \<Rightarrow> bool" where
  "eager_cell_inv d raw cell \<longleftrightarrow> (snd cell \<noteq> raw \<longrightarrow> fst cell \<noteq> 0) \<and> fst cell \<le> d \<and> d \<noteq> 0"

text \<open>Asymmetric: eager when pressed, deferred when released.  The counter has seven bits and the direction.\<close>

record debounce_counter_t =
  pressed :: bool
  time :: "7 word"

definition asym_upd :: "u8 \<Rightarrow> bool \<Rightarrow> debounce_counter_t \<times> bool \<Rightarrow> debounce_counter_t \<times> bool" where
  "asym_upd e raw cell =
    (let (ct, v) = cell
     in if time ct \<noteq> 0 then
          if unat (time ct) \<le> unat e then (ct\<lparr>time := 0\<rparr>, if pressed ct then v else raw)
          else (ct\<lparr>time := time ct - ucast e\<rparr>, v)
        else cell)"

definition asym_tr :: "7 word \<Rightarrow> bool \<Rightarrow> debounce_counter_t \<times> bool \<Rightarrow> debounce_counter_t \<times> bool" where
  "asym_tr d raw cell =
    (let (ct, v) = cell
     in if v \<noteq> raw then
          if time ct = 0 then (\<lparr>pressed = raw, time = d\<rparr>, if raw then raw else v) else cell
        else if time ct \<noteq> 0 \<and> \<not> pressed ct then (ct\<lparr>time := 0\<rparr>, v) else cell)"

definition asym_cell :: "7 word \<Rightarrow> u8 \<Rightarrow> bool \<Rightarrow> debounce_counter_t \<times> bool \<Rightarrow> debounce_counter_t \<times> bool" where
  "asym_cell d e raw cell = asym_tr d raw (asym_upd e raw cell)"

definition asym_cell_inv :: "7 word \<Rightarrow> bool \<Rightarrow> debounce_counter_t \<times> bool \<Rightarrow> bool" where
  "asym_cell_inv d raw cell \<longleftrightarrow>
     (let (ct, v) = cell
      in (v \<noteq> raw \<longrightarrow> time ct \<noteq> 0) \<and> (\<not> pressed ct \<and> time ct \<noteq> 0 \<longrightarrow> v \<noteq> raw) \<and> time ct \<le> d \<and> d \<noteq> 0)"

definition asym_cell_wait :: "7 word \<Rightarrow> nat \<Rightarrow> bool \<Rightarrow> debounce_counter_t \<times> bool \<Rightarrow> nat" where
  "asym_cell_wait d G raw cell =
    (let ct = fst cell in if pressed ct then unat (time ct) + unat d + G else unat (time ct))"

lemmas defer_defs = defer_cell_def defer_upd_def defer_tr_def
lemmas eager_defs = eager_cell_def eager_upd_def eager_tr_def
lemmas asym_defs = asym_cell_def asym_upd_def asym_tr_def

lemma minus_le: "e < ct \<Longrightarrow> ct \<le> d \<Longrightarrow> ct - e \<le> d" for e ct d :: "'a::len word"
  by (simp add: word_le_nat_alt unat_minus)

lemma minus_clamp:
  assumes "\<not> ct \<le> clamp_gap gap"
  shows "unat (ct - clamp_gap gap) + gap = unat ct" "gap < unat ct"
  using assms unat_less_numeral_8 [of ct]
  by (auto simp: not_le unat_minus word_less_nat_alt unat_clamp_gap split: if_splits)

lemma defer_cell_machine: "cell_machine (defer_cell d) snd (defer_cell_inv d) (\<lambda>raw. unat \<circ> fst) G (unat d)"
proof unfold_locales
  fix raw0 raw :: 'b and c :: "u8 \<times> 'b" and e
  assume "defer_cell_inv d raw0 c"
  then show "defer_cell_inv d raw (defer_cell d e raw c)" "snd (defer_cell d e raw c) \<in> {snd c, raw}"
    by (auto simp: defer_defs defer_cell_inv_def Let_def split_beta minus_le not_le)
next
  fix raw :: 'b and c :: "u8 \<times> 'b" and gap
  assume inv: "defer_cell_inv d raw c"
  then show "0 < (unat \<circ> fst) c \<and> (unat \<circ> fst) c \<le> unat d" if "snd c \<noteq> raw"
    using that by (simp add: defer_cell_inv_def word_le_nat_alt unat_gt_0)
  show "(unat \<circ> fst) (defer_cell d (clamp_gap gap) raw c) + gap \<le> (unat \<circ> fst) c"
    if "snd (defer_cell d (clamp_gap gap) raw c) \<noteq> raw"
    using that inv minus_clamp [of "fst c" gap]
    by (auto simp: defer_defs defer_cell_inv_def Let_def split_beta split: if_splits)
qed

lemma eager_cell_machine: "cell_machine (eager_cell d) snd (eager_cell_inv d) (\<lambda>raw. unat \<circ> fst) G (unat d)"
proof unfold_locales
  fix raw0 raw :: 'b and c :: "u8 \<times> 'b" and e
  assume "eager_cell_inv d raw0 c"
  then show "eager_cell_inv d raw (eager_cell d e raw c)" "snd (eager_cell d e raw c) \<in> {snd c, raw}"
    by (auto simp: eager_defs eager_cell_inv_def Let_def split_beta minus_le not_le)
next
  fix raw :: 'b and c :: "u8 \<times> 'b" and gap
  assume inv: "eager_cell_inv d raw c"
  then show "0 < (unat \<circ> fst) c \<and> (unat \<circ> fst) c \<le> unat d" if "snd c \<noteq> raw"
    using that by (simp add: eager_cell_inv_def word_le_nat_alt unat_gt_0)
  show "(unat \<circ> fst) (eager_cell d (clamp_gap gap) raw c) + gap \<le> (unat \<circ> fst) c"
    if "snd (eager_cell d (clamp_gap gap) raw c) \<noteq> raw"
    using that inv minus_clamp [of "fst c" gap]
    by (auto simp: eager_defs eager_cell_inv_def Let_def split_beta split: if_splits)
qed

lemma unat_7: "unat (ct :: 7 word) < 128"
  using unsigned_less [of ct] by simp

lemma minus_7:
  fixes ct :: "7 word" and e :: u8
  assumes "\<not> unat ct \<le> unat e"
  shows "unat (ct - ucast e) = unat ct - unat e"
proof -
  have "unat (ucast e :: 7 word) = unat e"
    using assms unat_7 [of ct] by (simp add: unsigned_ucast_eq take_bit_nat_eq_self)
  then show ?thesis
    using assms by (subst unat_minus) (simp_all add: word_less_nat_alt)
qed

lemma asym_cell_machine:
  "cell_machine (asym_cell d) snd (asym_cell_inv d) (asym_cell_wait d G) G (2 * unat d + G)"
proof unfold_locales
  fix raw0 raw and c :: "debounce_counter_t \<times> bool" and e :: u8
  assume inv: "asym_cell_inv d raw0 c"
  obtain p ct v where c: "c = (\<lparr>pressed = p, time = ct\<rparr>, v)"
    by (metis debounce_counter_t.cases surj_pair)
  have "unat ct \<le> unat d"
    using inv by (simp add: c asym_cell_inv_def word_le_nat_alt)
  then have "unat ct \<le> unat e \<or> ct - ucast e \<le> d"
    using minus_7 [of ct e] by (cases "unat ct \<le> unat e") (simp_all add: word_le_nat_alt)
  then show "asym_cell_inv d raw (asym_cell d e raw c)" "snd (asym_cell d e raw c) \<in> {snd c, raw}"
    using inv minus_7 [of ct e] by (auto simp: c asym_defs asym_cell_inv_def Let_def split: if_splits)
next
  fix raw and c :: "debounce_counter_t \<times> bool" and gap
  assume inv: "asym_cell_inv d raw c"
  obtain p ct v where c: "c = (\<lparr>pressed = p, time = ct\<rparr>, v)"
    by (metis debounce_counter_t.cases surj_pair)
  show "0 < asym_cell_wait d G raw c \<and> asym_cell_wait d G raw c \<le> 2 * unat d + G" if "snd c \<noteq> raw"
    using that inv by (auto simp: c asym_cell_inv_def asym_cell_wait_def Let_def word_le_nat_alt unat_gt_0)
  show "asym_cell_wait d G raw (asym_cell d (clamp_gap gap) raw c) + gap \<le> asym_cell_wait d G raw c"
    if "gap \<le> G" "snd (asym_cell d (clamp_gap gap) raw c) \<noteq> raw"
  proof (cases "unat ct \<le> unat (clamp_gap gap)")
    case False
    then have "unat (ct - ucast (clamp_gap gap)) + gap = unat ct"
      using minus_7 [OF False] unat_7 [of ct] by (auto simp: unat_clamp_gap split: if_splits)
    moreover have "ct \<noteq> ucast (clamp_gap gap)"
      using minus_7 [OF False] False by auto
    ultimately show ?thesis
      using that False inv by (auto simp: c asym_defs asym_cell_wait_def asym_cell_inv_def Let_def split: if_splits)
  qed (use that inv in \<open>auto simp: c asym_defs asym_cell_wait_def asym_cell_inv_def Let_def split: if_splits\<close>)
qed

section \<open>Algorithms that step their cells\<close>

text \<open>
  \<open>cell s k\<close> is the cell \<open>k\<close> of a state, \<open>rv raw k\<close> its raw value, and \<open>shape now s\<close> what else holds after every call: the
  sizes of the arrays, and the flags and times that say which loops the next call runs.
\<close>

locale cellwise = cell_machine step val cinv wait G D
  for step :: "u8 \<Rightarrow> 'v \<Rightarrow> 'c \<Rightarrow> 'c" and val cinv wait G D +
  fixes deb :: "u32 \<Rightarrow> 'r::len matrix \<Rightarrow> bool \<Rightarrow> 's \<Rightarrow> bool \<times> 's" and cooked :: "'s \<Rightarrow> 'r matrix"
    and ok :: "'r matrix \<Rightarrow> bool" and shape :: "u32 \<Rightarrow> 's \<Rightarrow> bool" and cells :: "'k set"
    and cell :: "'s \<Rightarrow> 'k \<Rightarrow> 'c" and rv :: "'r matrix \<Rightarrow> 'k \<Rightarrow> 'v"
  assumes call: "ok raw0 \<Longrightarrow> ok raw \<Longrightarrow> shape now s \<Longrightarrow> \<forall>k \<in> cells. cinv (rv raw0 k) (cell s k) \<Longrightarrow> gap \<le> G \<Longrightarrow>
      shape (now + of_nat gap) (snd (deb (now + of_nat gap) raw (raw \<noteq> raw0) s)) \<and>
      (\<forall>k \<in> cells. cell (snd (deb (now + of_nat gap) raw (raw \<noteq> raw0) s)) k = step (clamp_gap gap) (rv raw k) (cell s k))"
    and lengths: "ok raw \<Longrightarrow> ok raw' \<Longrightarrow> length raw = length raw'" "ok raw \<Longrightarrow> shape now s \<Longrightarrow> length (cooked s) = length raw"
    and settled_cells: "ok raw \<Longrightarrow> shape now s \<Longrightarrow> \<forall>k \<in> cells. val (cell s k) = rv raw k \<Longrightarrow> cooked s = raw"
    and seen_cells: "ok raw \<Longrightarrow> shape now s \<Longrightarrow> shape now' s' \<Longrightarrow>
      \<forall>k \<in> cells. val (cell s' k) \<in> {val (cell s k), rv raw k} \<Longrightarrow> r < length raw \<Longrightarrow>
      bit (cooked s' ! r) c \<in> {bit (cooked s ! r) c, bit (raw ! r) c}"
begin

definition cells_inv :: "u32 \<Rightarrow> 'r matrix \<Rightarrow> 's \<Rightarrow> bool" where
  "cells_inv now raw s \<longleftrightarrow> ok raw \<and> shape now s \<and> (\<forall>k \<in> cells. cinv (rv raw k) (cell s k))"

definition cells_settle_in :: "u32 \<Rightarrow> nat \<Rightarrow> 'r matrix \<Rightarrow> 's \<Rightarrow> bool" where
  "cells_settle_in now t raw s \<longleftrightarrow> (\<forall>k \<in> cells. val (cell s k) \<noteq> rv raw k \<longrightarrow> wait (rv raw k) (cell s k) \<le> t)"

lemma cells_debouncer: "debouncer deb cooked ok cells_inv cells_settle_in G D"
proof unfold_locales
  fix now raw0 raw s gap r c t
  assume inv: "cells_inv now raw0 s"
  then have parts: "ok raw0" "shape now s" "\<forall>k \<in> cells. cinv (rv raw0 k) (cell s k)"
    by (simp_all add: cells_inv_def)
  show "ok raw0 \<and> length (cooked s) = length raw0"
    using lengths(2) parts by simp
  show "cells_settle_in now D raw0 s"
    using parts(3) wait_bound by (simp add: cells_settle_in_def)
  show "cells_settle_in now 0 raw0 s \<Longrightarrow> cooked s = raw0"
    using settled_cells [OF parts(1,2)] parts(3) wait_bound by (fastforce simp: cells_settle_in_def)
  show "cells_inv (now + of_nat gap) raw (snd (deb (now + of_nat gap) raw (raw \<noteq> raw0) s))" if "ok raw" "gap \<le> G"
    using call [OF parts(1) that(1) parts(2,3) that(2)] parts(3) step_inv that by (auto simp: cells_inv_def)
  show "bit (cooked (snd (deb (now + of_nat gap) raw (raw \<noteq> raw0) s)) ! r) c \<in> {bit (cooked s ! r) c, bit (raw ! r) c}"
    if "ok raw" "gap \<le> G" "r < length raw"
  proof -
    note step = call [OF parts(1) that(1) parts(2,3) that(2)]
    have "\<forall>k \<in> cells. val (cell (snd (deb (now + of_nat gap) raw (raw \<noteq> raw0) s)) k) \<in> {val (cell s k), rv raw k}"
    proof
      fix k
      assume "k \<in> cells"
      then show "val (cell (snd (deb (now + of_nat gap) raw (raw \<noteq> raw0) s)) k) \<in> {val (cell s k), rv raw k}"
        using step step_val [OF bspec [OF parts(3)]] by simp
    qed
    then show ?thesis
      by (rule seen_cells [OF that(1) parts(2) conjunct1 [OF step] _ that(3)])
  qed
  show "cells_settle_in (now + of_nat gap) (t - gap) raw0 (snd (deb (now + of_nat gap) raw0 False s))"
    if "gap \<le> G" "cells_settle_in now t raw0 s"
    unfolding cells_settle_in_def
  proof (intro ballI impI)
    fix k
    define s1 where "s1 = snd (deb (now + of_nat gap) raw0 False s)"
    assume k: "k \<in> cells" "val (cell (snd (deb (now + of_nat gap) raw0 False s)) k) \<noteq> rv raw0 k"
    have "cell s1 k = step (clamp_gap gap) (rv raw0 k) (cell s k)"
      using call [OF parts(1,1,2,3) that(1)] k(1) by (simp add: s1_def)
    moreover have "cinv (rv raw0 k) (cell s k)"
      using parts(3) k(1) by simp
    moreover have "val (cell s k) \<noteq> rv raw0 k"
      using calculation k(2) step_val [of "rv raw0 k" "cell s k" "clamp_gap gap" "rv raw0 k"] by (auto simp: s1_def)
    ultimately show "wait (rv raw0 k) (cell (snd (deb (now + of_nat gap) raw0 False s)) k) \<le> t - gap"
      using wait_step [of "rv raw0 k" "cell s k" gap] that k by (fastforce simp: cells_settle_in_def s1_def)
  qed
qed (rule lengths(1))

end

sublocale cellwise \<subseteq> debouncer deb cooked ok cells_inv cells_settle_in G D
  by (rule cells_debouncer)

text \<open>The algorithms whose return value is exact.\<close>

locale exact_cellwise = cellwise step val cinv wait G D deb cooked ok shape cells cell rv
  for step :: "u8 \<Rightarrow> 'v \<Rightarrow> 'c \<Rightarrow> 'c" and val cinv wait G D and deb :: "u32 \<Rightarrow> 'r::len matrix \<Rightarrow> bool \<Rightarrow> 's \<Rightarrow> bool \<times> 's"
    and cooked ok shape and cells :: "'k set" and cell rv +
  assumes changes: "ok raw0 \<Longrightarrow> ok raw \<Longrightarrow> shape now s \<Longrightarrow> \<forall>k \<in> cells. cinv (rv raw0 k) (cell s k) \<Longrightarrow> gap \<le> G \<Longrightarrow>
      deb (now + of_nat gap) raw (raw \<noteq> raw0) s = (chg, s') \<Longrightarrow> chg \<longleftrightarrow> cooked s' \<noteq> cooked s"

context exact_cellwise
begin

lemma exact_machine: "exact_debouncer deb cooked ok cells_inv cells_settle_in G D"
proof unfold_locales
  show "chg \<longleftrightarrow> cooked s' \<noteq> cooked s"
    if "cells_inv now raw0 s" "ok raw" "gap \<le> G" "deb (now + of_nat gap) raw (raw \<noteq> raw0) s = (chg, s')"
    for now raw0 s raw gap chg s'
    using that changes [of raw0 raw now s gap chg s'] by (simp add: cells_inv_def)
qed

end

sublocale exact_cellwise \<subseteq> exact_debouncer deb cooked ok cells_inv cells_settle_in G D
  by (rule exact_machine)

section \<open>The body of the eager and per-key algorithms\<close>

record 'c debounce_state =
  debounce_counters :: "'c list"
  last_time :: u32
  counters_need_update :: bool
  matrix_need_update :: bool
  cooked_changed :: bool

text \<open>
  \<open>debounce\<close> of sym_eager_pk.c, sym_eager_pr.c, sym_defer_pk.c and asym_eager_defer_pk.c, over the two loops of the file
  and the condition of the second.
\<close>

definition debounce_call ::
    "(u8 \<Rightarrow> 'c debounce_state \<times> 'r::len matrix \<Rightarrow> 'c debounce_state \<times> 'r matrix) \<Rightarrow>
     ('c debounce_state \<times> 'r matrix \<Rightarrow> 'c debounce_state \<times> 'r matrix) \<Rightarrow> (bool \<Rightarrow> 'c debounce_state \<Rightarrow> bool) \<Rightarrow>
     u32 \<Rightarrow> bool \<Rightarrow> 'c debounce_state \<times> 'r matrix \<Rightarrow> bool \<times> 'c debounce_state \<times> 'r matrix" where
  "debounce_call update transfer due now changed st =
    (let (s, cooked) = st;
         s = s\<lparr>cooked_changed := False\<rparr>;
         (updated_last, s, cooked) =
           (if counters_need_update s then
              let elapsed_time = TIMER_DIFF_32 now (last_time s);
                  s = s\<lparr>last_time := now\<rparr>;
                  elapsed_time = (if 255 < elapsed_time then 255 else ucast elapsed_time)
              in (True, if 0 < elapsed_time then update elapsed_time (s, cooked) else (s, cooked))
            else (False, s, cooked));
         (s, cooked) =
           (if due changed s then transfer (if \<not> updated_last then s\<lparr>last_time := now\<rparr> else s, cooked)
            else (s, cooked))
     in (cooked_changed s, s, cooked))"

lemma elapsed_clamp:
  assumes "gap < 2 ^ 32"
  shows "(if 255 < TIMER_DIFF_32 (now + of_nat gap) now then 255 else ucast (TIMER_DIFF_32 (now + of_nat gap) now)) =
    clamp_gap gap"
proof -
  have "unat (TIMER_DIFF_32 (now + of_nat gap) now) = gap"
    using assms by (intro unat_TIMER_DIFF_32_ticks) simp
  moreover have "TIMER_DIFF_32 (now + of_nat gap) now = of_nat gap"
    by (simp add: TIMER_DIFF_32_def)
  ultimately show ?thesis
    by (simp add: clamp_gap_def word_less_nat_alt) (simp add: word_unat_eq_iff unsigned_ucast_eq unat_of_nat take_bit_eq_mod)
qed

text \<open>
  What a call does, when its loops step the cells by \<open>upd\<close> and \<open>tr\<close>: the loops that it leaves out would change
  nothing.  \<open>runs c\<close>: the counter of the cell runs; \<open>expires e c\<close>: it ends, and the transfer follows.
\<close>

definition loop_flags :: "('k \<Rightarrow> 'c1) \<Rightarrow> ('k \<Rightarrow> 'c1) \<Rightarrow> ('c1 \<Rightarrow> 'v) \<Rightarrow> ('c1 \<Rightarrow> bool) \<Rightarrow> 'k set \<Rightarrow>
    'c debounce_state \<Rightarrow> 'c debounce_state \<Rightarrow> bool" where
  "loop_flags old new val runs cells s s' \<longleftrightarrow>
     last_time s' = last_time s \<and>
     (cooked_changed s' \<longleftrightarrow> cooked_changed s \<or> (\<exists>k \<in> cells. val (new k) \<noteq> val (old k))) \<and>
     ((\<exists>k \<in> cells. runs (new k)) \<longrightarrow> counters_need_update s')"

lemma debounce_call_cells:
  fixes cell :: "'c debounce_state \<times> 'r::len matrix \<Rightarrow> 'k \<Rightarrow> 'c1"
  assumes update: "\<And>e s c. P (s, c) \<Longrightarrow> P (update e (s, c)) \<and>
      (\<forall>k \<in> cells. cell (update e (s, c)) k = upd e (rv k) (cell (s, c) k)) \<and>
      loop_flags (cell (s, c)) (cell (update e (s, c))) val runs cells s (fst (update e (s, c))) \<and>
      (matrix_need_update (fst (update e (s, c))) \<longleftrightarrow> (\<exists>k \<in> cells. expires e (cell (s, c) k)))"
    and transfer: "\<And>s c. P (s, c) \<Longrightarrow> (\<exists>k \<in> cells. runs (cell (s, c) k)) \<longrightarrow> counters_need_update s \<Longrightarrow>
      P (transfer (s, c)) \<and> (\<forall>k \<in> cells. cell (transfer (s, c)) k = tr (rv k) (cell (s, c) k)) \<and>
      loop_flags (cell (s, c)) (cell (transfer (s, c))) val runs cells s (fst (transfer (s, c))) \<and>
      \<not> matrix_need_update (fst (transfer (s, c)))"
    and frame: "\<And>s c t b. P (s\<lparr>last_time := t\<rparr>, c) = P (s, c)" "\<And>s c t b. P (s\<lparr>cooked_changed := b\<rparr>, c) = P (s, c)"
      "\<And>s c t. cell (s\<lparr>last_time := t\<rparr>, c) = cell (s, c)" "\<And>s c b. cell (s\<lparr>cooked_changed := b\<rparr>, c) = cell (s, c)"
    and due: "\<And>s c. P (s, c) \<Longrightarrow> due changed s \<longleftrightarrow> changed \<or> matrix_need_update s"
    and idle: "\<And>e raw c. \<not> runs c \<Longrightarrow> upd e raw c = c" "\<And>raw c. upd 0 raw c = c" "\<And>c. \<not> expires 0 c"
      "\<And>e c. \<not> runs c \<Longrightarrow> \<not> expires e c"
    and skip: "\<And>k e. \<not> changed \<Longrightarrow> k \<in> cells \<Longrightarrow> \<not> expires e (cell (s, c) k) \<Longrightarrow>
      tr (rv k) (upd e (rv k) (cell (s, c) k)) = upd e (rv k) (cell (s, c) k)"
    and once: "\<And>e raw c. val (upd e raw c) \<noteq> val c \<Longrightarrow> val (tr raw (upd e raw c)) = val (upd e raw c)"
    and state: "P (s, c)" "\<not> matrix_need_update s" "(\<exists>k \<in> cells. runs (cell (s, c) k)) \<longrightarrow> counters_need_update s"
      "counters_need_update s \<longrightarrow> last_time s = now" "gap < 2 ^ 32"
    and run: "debounce_call update transfer due (now + of_nat gap) changed (s, c) = (chg, s', c')"
  shows "P (s', c') \<and> \<not> matrix_need_update s' \<and> ((\<exists>k \<in> cells. runs (cell (s', c') k)) \<longrightarrow> counters_need_update s') \<and>
    (counters_need_update s' \<longrightarrow> last_time s' = now + of_nat gap) \<and>
    (\<forall>k \<in> cells. cell (s', c') k = tr (rv k) (upd (clamp_gap gap) (rv k) (cell (s, c) k))) \<and>
    (chg \<longleftrightarrow> (\<exists>k \<in> cells. val (cell (s', c') k) \<noteq> val (cell (s, c) k)))"
proof -
  define now' where "now' = now + of_nat gap"
  define e where "e = clamp_gap gap"
  define ul where "ul = counters_need_update s"
  define s0 where "s0 = s\<lparr>cooked_changed := False, last_time := (if ul then now' else last_time s)\<rparr>"
  define st1 where "st1 = (if ul \<and> 0 < e then update e (s0, c) else (s0, c))"
  obtain s1 c1 where st1': "st1 = (s1, c1)"
    by (cases st1)
  have P0: "P (s0, c)" "cell (s0, c) = cell (s, c)" "\<not> cooked_changed s0" "\<not> matrix_need_update s0"
    "counters_need_update s0 = ul"
    using state(1,2) by (simp_all add: s0_def frame ul_def)
  have one: "P (s1, c1) \<and> (\<forall>k \<in> cells. cell (s1, c1) k = upd e (rv k) (cell (s, c) k)) \<and>
      last_time s1 = last_time s0 \<and> (cooked_changed s1 \<longleftrightarrow> (\<exists>k \<in> cells. val (cell (s1, c1) k) \<noteq> val (cell (s, c) k))) \<and>
      ((\<exists>k \<in> cells. runs (cell (s1, c1) k)) \<longrightarrow> counters_need_update s1) \<and>
      (matrix_need_update s1 \<longleftrightarrow> (\<exists>k \<in> cells. expires e (cell (s, c) k)))"
  proof (cases "ul \<and> 0 < e")
    case True
    then have "update e (s0, c) = (s1, c1)"
      using st1' by (simp add: st1_def)
    then show ?thesis
      using update [OF P0(1), of e] P0 by (simp add: loop_flags_def)
  next
    case False
    then have "s1 = s0" "c1 = c"
      using st1' by (auto simp: st1_def)
    moreover have "upd e (rv k) (cell (s, c) k) = cell (s, c) k \<and> \<not> expires e (cell (s, c) k)" if "k \<in> cells" for k
    proof (cases "e = 0")
      case False
      then have "\<not> ul"
        using \<open>\<not> (ul \<and> 0 < e)\<close> word_gt_0 by blast
      then show ?thesis
        using state(3) that idle(1,4) by (auto simp: ul_def)
    qed (simp add: idle)
    ultimately show ?thesis
      using P0 state(3) by (auto simp: ul_def)
  qed
  have elapsed: "(if 255 < TIMER_DIFF_32 now' (last_time s) then 255 else ucast (TIMER_DIFF_32 now' (last_time s))) = e"
    if ul
  proof -
    have "last_time s = now"
      using that state(4) by (simp add: ul_def)
    then show ?thesis
      unfolding now'_def e_def using elapsed_clamp [OF state(5), of now] by (simp only:)
  qed
  define s2 where "s2 = (if \<not> ul then s1\<lparr>last_time := now'\<rparr> else s1)"
  have call: "(s', c') = (if due changed s1 then transfer (s2, c1) else (s1, c1))" "chg = cooked_changed s'"
  proof -
    have "debounce_call update transfer due now' changed (s, c) =
        (let (s, cooked) = (if due changed s1 then transfer (s2, c1) else (s1, c1)) in (cooked_changed s, s, cooked))"
    proof (cases ul)
      case True
      then have s0: "s\<lparr>cooked_changed := False, last_time := now'\<rparr> = s0" "counters_need_update s"
        by (simp_all add: s0_def ul_def)
      have "(if 0 < e then update e (s0, c) else (s0, c)) = (s1, c1)"
        using st1' True by (simp add: st1_def)
      then show ?thesis
        using elapsed [OF True] True s0 unfolding debounce_call_def by (simp add: Let_def s2_def cong: if_cong)
    next
      case False
      then show ?thesis
        using st1' by (auto simp: debounce_call_def Let_def s0_def s2_def st1_def ul_def)
    qed
    moreover obtain x y where "(if due changed s1 then transfer (s2, c1) else (s1, c1)) = (x, y)"
      by (metis surj_pair)
    ultimately show "(s', c') = (if due changed s1 then transfer (s2, c1) else (s1, c1))" "chg = cooked_changed s'"
      using run by (simp_all add: now'_def)
  qed
  have cell1: "cell (s1, c1) k = upd e (rv k) (cell (s, c) k)" if "k \<in> cells" for k
    using one that by blast
  have time1: "ul \<Longrightarrow> last_time s1 = now'" "\<not> ul \<Longrightarrow> \<not> counters_need_update s1"
    using one P0(5) st1' by (auto simp: s0_def st1_def)
  have due1: "due changed s1 \<longleftrightarrow> changed \<or> (\<exists>k \<in> cells. expires e (cell (s, c) k))"
    using one due by blast
  show ?thesis
  proof (cases "due changed s1")
    case True
    have s2: "P (s2, c1)" "cell (s2, c1) = cell (s1, c1)" "last_time s2 = now'"
      "counters_need_update s2 = counters_need_update s1" "cooked_changed s2 = cooked_changed s1"
      using one time1 by (simp_all add: s2_def frame)
    have eq: "transfer (s2, c1) = (s', c')"
      using call(1) True by simp
    note tr = transfer [OF s2(1), unfolded s2(2) eq fst_conv loop_flags_def s2(3-5)]
    have tr: "P (s', c')" "\<forall>k \<in> cells. cell (s', c') k = tr (rv k) (cell (s1, c1) k)" "last_time s' = now'"
      "cooked_changed s' \<longleftrightarrow> cooked_changed s1 \<or> (\<exists>k \<in> cells. val (cell (s', c') k) \<noteq> val (cell (s1, c1) k))"
      "(\<exists>k \<in> cells. runs (cell (s', c') k)) \<longrightarrow> counters_need_update s'" "\<not> matrix_need_update s'"
      using tr one by blast+
    have "cooked_changed s' \<longleftrightarrow> (\<exists>k \<in> cells. val (cell (s', c') k) \<noteq> val (cell (s, c) k))"
      unfolding tr(4) using one tr(2) cell1 once by (metis (no_types, lifting))
    then show ?thesis
      using tr cell1 call(2) by (simp add: now'_def e_def)
  next
    case False
    have eq: "s' = s1" "c' = c1"
      using call(1) False by simp_all
    have "tr (rv k) (upd e (rv k) (cell (s, c) k)) = upd e (rv k) (cell (s, c) k)" if "k \<in> cells" for k
      using False due1 that by (intro skip) auto
    then show ?thesis
      using one time1 due1 False cell1 call(2) unfolding eq by (simp add: now'_def e_def) blast
  qed
qed

definition cell_runs :: "u8 \<times> 'v \<Rightarrow> bool" where
  "cell_runs cell \<longleftrightarrow> fst cell \<noteq> 0"

definition cell_expires :: "u8 \<Rightarrow> u8 \<times> 'v \<Rightarrow> bool" where
  "cell_expires e cell \<longleftrightarrow> fst cell \<noteq> 0 \<and> fst cell \<le> e"

lemma eager_idle:
  "\<not> cell_runs c \<Longrightarrow> eager_upd e raw c = c" "eager_upd 0 raw c = c" "\<not> cell_expires 0 c"
  "\<not> cell_runs c \<Longrightarrow> \<not> cell_expires e c"
  "eager_cell_inv d raw c \<Longrightarrow> \<not> cell_expires e c \<Longrightarrow> eager_tr d raw (eager_upd e raw c) = eager_upd e raw c"
  "snd (eager_upd e raw c) \<noteq> snd c \<Longrightarrow> snd (eager_tr d raw (eager_upd e raw c)) = snd (eager_upd e raw c)"
  by (cases c; auto simp: cell_runs_def cell_expires_def eager_upd_def eager_tr_def eager_cell_inv_def not_le)+

section \<open>Eager rows: \<open>sym_eager_pr\<close>\<close>

definition update_row :: "u8 \<Rightarrow> nat \<Rightarrow> u8 debounce_state \<Rightarrow> u8 debounce_state" where
  "update_row elapsed_time row s =
    (let counter = debounce_counters s ! row
     in if counter \<noteq> 0 then
          if counter \<le> elapsed_time
          then s\<lparr>debounce_counters := (debounce_counters s)[row := 0], matrix_need_update := True\<rparr>
          else s\<lparr>debounce_counters := (debounce_counters s)[row := counter - elapsed_time], counters_need_update := True\<rparr>
        else s)"

definition update_counters_pr :: "nat \<Rightarrow> u8 \<Rightarrow> u8 debounce_state \<Rightarrow> u8 debounce_state" where
  "update_counters_pr num_rows elapsed_time s =
    fold (update_row elapsed_time) [0..<num_rows] (s\<lparr>counters_need_update := False, matrix_need_update := False\<rparr>)"

definition transfer_row ::
    "debounce_config \<Rightarrow> 'r::len matrix \<Rightarrow> nat \<Rightarrow> u8 debounce_state \<times> 'r matrix \<Rightarrow> u8 debounce_state \<times> 'r matrix" where
  "transfer_row cf raw row st =
    (let (s, cooked) = st; existing_row = cooked ! row; raw_row = raw ! row
     in if existing_row \<noteq> raw_row then
          if debounce_counters s ! row = 0 then
            let cooked = cooked[row := raw_row]
            in (s\<lparr>debounce_counters := (debounce_counters s)[row := DEBOUNCE_8 cf],
                  cooked_changed := cooked_changed s \<or> cooked ! row XOR raw ! row \<noteq> 0,
                  counters_need_update := True\<rparr>, cooked)
          else (s, cooked)
        else (s, cooked))"

definition transfer_values_pr ::
    "debounce_config \<Rightarrow> 'r::len matrix \<Rightarrow> u8 debounce_state \<times> 'r matrix \<Rightarrow> u8 debounce_state \<times> 'r matrix" where
  "transfer_values_pr cf raw st =
    (let (s, cooked) = st
     in fold (transfer_row cf raw) [0..<length cooked] (s\<lparr>matrix_need_update := False\<rparr>, cooked))"

definition debounce_sym_eager_pr ::
    "debounce_config \<Rightarrow> u32 \<Rightarrow> 'r::len matrix \<Rightarrow> bool \<Rightarrow> u8 debounce_state \<times> 'r matrix \<Rightarrow>
     bool \<times> u8 debounce_state \<times> 'r matrix" where
  "debounce_sym_eager_pr cf now raw changed st =
    (if DEBOUNCE cf = 0 then (let (chg, cooked) = debounce_none raw (snd st) in (chg, fst st, cooked))
     else debounce_call (\<lambda>elapsed_time (s, cooked). (update_counters_pr (length cooked) elapsed_time s, cooked))
       (transfer_values_pr cf raw) (\<lambda>changed s. changed \<or> matrix_need_update s) now changed st)"

definition debounce_init_pr_eager :: "nat \<Rightarrow> u8 debounce_state" where
  "debounce_init_pr_eager num_rows =
    \<lparr>debounce_counters = replicate num_rows 0, last_time = 0, counters_need_update = False, matrix_need_update = False,
     cooked_changed = False\<rparr>"

definition rows_sized :: "nat \<Rightarrow> u8 debounce_state \<times> 'r::len matrix \<Rightarrow> bool" where
  "rows_sized n st \<longleftrightarrow> length (debounce_counters (fst st)) = n \<and> length (snd st) = n"

definition row_cell :: "u8 debounce_state \<times> 'r::len matrix \<Rightarrow> nat \<Rightarrow> u8 \<times> 'r word" where
  "row_cell st row = (debounce_counters (fst st) ! row, snd st ! row)"

text \<open>The flags of a state, as one function.\<close>

definition state_flag :: "'c debounce_state \<Rightarrow> nat \<Rightarrow> bool" where
  "state_flag s i = (if i = 0 then cooked_changed s else if i = 1 then counters_need_update s else matrix_need_update s)"

lemma update_pr_cells:
  fixes c raw :: "'r::len matrix" and e :: u8
  assumes "rows_sized n (s, c)"
  defines "s' \<equiv> update_counters_pr (length c) e s"
  shows "rows_sized n (s', c) \<and> last_time s' = last_time s \<and>
    (\<forall>k \<in> {..<n}. row_cell (s', c) k = eager_upd e (raw ! k) (row_cell (s, c) k)) \<and>
    cooked_changed s' = cooked_changed s \<and>
    (counters_need_update s' \<longleftrightarrow> (\<exists>k \<in> {..<n}. cell_runs (row_cell (s', c) k))) \<and>
    (matrix_need_update s' \<longleftrightarrow> (\<exists>k \<in> {..<n}. cell_expires e (row_cell (s, c) k)))"
proof -
  define s0 where "s0 = s\<lparr>counters_need_update := False, matrix_need_update := False\<rparr>"
  define P where "P t = (rows_sized n (t, c) \<and> last_time t = last_time s)" for t :: "u8 debounce_state"
  define H where "H k i = (if i = 0 then False else if i = (1::nat) then cell_runs (eager_upd e (raw ! k) (row_cell (s, c) k))
    else cell_expires e (row_cell (s, c) k))" for k i
  have step: "P (update_row e k t) \<and> row_cell (update_row e k t, c) k = eager_upd e (raw ! k) (row_cell (s, c) k) \<and>
      (\<forall>j. j \<noteq> k \<longrightarrow> row_cell (update_row e k t, c) j = row_cell (t, c) j) \<and>
      (\<forall>i. state_flag (update_row e k t) i \<longleftrightarrow> state_flag t i \<or> H k i)"
    if "k \<in> set [0..<n]" "P t" "row_cell (t, c) k = row_cell (s, c) k" for k t
  proof -
    have v: "row_cell (s, c) k = (debounce_counters t ! k, c ! k)"
      using that(3) by (simp add: row_cell_def)
    show ?thesis
      using that(1,2) unfolding H_def v
      by (auto simp: update_row_def P_def eager_upd_def state_flag_def cell_runs_def cell_expires_def Let_def row_cell_def
          rows_sized_def)
  qed
  have run: "fold (update_row e) [0..<n] s0 = s'"
    using assms(1) by (simp add: s'_def update_counters_pr_def s0_def rows_sized_def)
  have start: "P s0" "\<forall>k \<in> set [0..<n]. row_cell (s0, c) k = row_cell (s, c) k"
    using assms(1) by (simp_all add: P_def s0_def rows_sized_def row_cell_def)
  have steps: "\<forall>k \<in> set [0..<n]. \<forall>t. P t \<and> row_cell (t, c) k = row_cell (s, c) k \<longrightarrow>
      P (update_row e k t) \<and> row_cell (update_row e k t, c) k = eager_upd e (raw ! k) (row_cell (s, c) k) \<and>
      (\<forall>j. j \<noteq> k \<longrightarrow> row_cell (update_row e k t, c) j = row_cell (t, c) j) \<and>
      (\<forall>i. state_flag (update_row e k t) i \<longleftrightarrow> state_flag t i \<or> H k i)"
    using step by blast
  note all = fold_pointwise [where view = "\<lambda>t. row_cell (t, c)", OF steps distinct_upt start, unfolded run]
  have flag: "state_flag s' i \<longleftrightarrow> state_flag s0 i \<or> (\<exists>k < n. H k i)" for i
    using all(4) by auto
  have flags: "cooked_changed s' = cooked_changed s" "counters_need_update s' \<longleftrightarrow> (\<exists>k < n. H k 1)"
    "matrix_need_update s' \<longleftrightarrow> (\<exists>k < n. H k 2)"
    using flag [of 0] flag [of 1] flag [of 2] by (simp_all add: state_flag_def s0_def H_def)
  have "P s'" "\<forall>k < n. row_cell (s', c) k = eager_upd e (raw ! k) (row_cell (s, c) k)"
    using all(1,2) by simp_all
  then show ?thesis
    using flags by (auto simp: P_def H_def)
qed

lemma transfer_pr_cells:
  fixes c raw :: "'r::len matrix" and cf :: debounce_config
  assumes "rows_sized n (s, c)" "(\<exists>k \<in> {..<n}. cell_runs (row_cell (s, c) k)) \<longrightarrow> counters_need_update s"
  defines "st \<equiv> transfer_values_pr cf raw (s, c)"
  shows "rows_sized n st \<and> last_time (fst st) = last_time s \<and>
    (\<forall>k \<in> {..<n}. row_cell st k = eager_tr (DEBOUNCE_8 cf) (raw ! k) (row_cell (s, c) k)) \<and>
    cooked_changed (fst st) = cooked_changed s \<and>
    ((\<exists>k \<in> {..<n}. cell_runs (row_cell st k)) \<longrightarrow> counters_need_update (fst st)) \<and> \<not> matrix_need_update (fst st)"
proof -
  define st0 where "st0 = (s\<lparr>matrix_need_update := False\<rparr>, c)"
  define new where "new k = eager_tr (DEBOUNCE_8 cf) (raw ! k) (row_cell (s, c) k)" for k
  define H where "H k i = (i = (1::nat) \<and> cell_runs (new k) \<and> \<not> cell_runs (row_cell (s, c) k) \<or>
      i = 1 \<and> c ! k \<noteq> raw ! k \<and> debounce_counters s ! k = 0)" for k i
  define P where "P t = (rows_sized n t \<and> last_time (fst t) = last_time s)" for t :: "u8 debounce_state \<times> 'r matrix"
  have xor: "x XOR x = 0" for x :: "'r word"
    by simp
  have step: "P (transfer_row cf raw k t) \<and> row_cell (transfer_row cf raw k t) k = new k \<and>
      (\<forall>j. j \<noteq> k \<longrightarrow> row_cell (transfer_row cf raw k t) j = row_cell t j) \<and>
      (\<forall>i. state_flag (fst (transfer_row cf raw k t)) i \<longleftrightarrow> state_flag (fst t) i \<or> H k i)"
    if "k \<in> set [0..<n]" "P t" "row_cell t k = row_cell (s, c) k" for k t
  proof -
    obtain t1 t2 where t: "t = (t1, t2)"
      by (cases t)
    have v: "debounce_counters s ! k = debounce_counters t1 ! k" "c ! k = t2 ! k"
      using that(3) by (simp_all add: row_cell_def t)
    show ?thesis
      using that(1,2) unfolding H_def new_def
      by (auto simp: transfer_row_def P_def eager_tr_def state_flag_def cell_runs_def Let_def row_cell_def rows_sized_def v t)
  qed
  then have steps: "\<forall>k \<in> set [0..<n]. \<forall>t. P t \<and> row_cell t k = row_cell (s, c) k \<longrightarrow>
      P (transfer_row cf raw k t) \<and> row_cell (transfer_row cf raw k t) k = new k \<and>
      (\<forall>j. j \<noteq> k \<longrightarrow> row_cell (transfer_row cf raw k t) j = row_cell t j) \<and>
      (\<forall>i. state_flag (fst (transfer_row cf raw k t)) i \<longleftrightarrow> state_flag (fst t) i \<or> H k i)"
    by blast
  have run: "fold (transfer_row cf raw) [0..<n] st0 = st"
    using assms(1) by (simp add: st_def transfer_values_pr_def st0_def rows_sized_def)
  have start: "P st0" "\<forall>k \<in> set [0..<n]. row_cell st0 k = row_cell (s, c) k"
    using assms(1) by (simp_all add: P_def st0_def rows_sized_def row_cell_def)
  note all = fold_pointwise [where flag = "\<lambda>t. state_flag (fst t)", OF steps distinct_upt start, unfolded run]
  have flag: "state_flag (fst st) i \<longleftrightarrow> state_flag (fst st0) i \<or> (\<exists>k < n. H k i)" for i
    using all(4) by auto
  have "cooked_changed (fst st) = cooked_changed s" "\<not> matrix_need_update (fst st)"
    "counters_need_update (fst st) \<longleftrightarrow> counters_need_update s \<or> (\<exists>k < n. H k 1)"
    using flag [of 0] flag [of 1] flag [of 2] by (auto simp: state_flag_def st0_def H_def)
  moreover have cells: "\<forall>k < n. row_cell st k = new k"
    using all(2) by simp
  moreover have "(\<exists>k \<in> {..<n}. cell_runs (row_cell st k)) \<longrightarrow> counters_need_update s \<or> (\<exists>k < n. H k 1)"
    using assms(2) cells by (auto simp: H_def)
  ultimately show ?thesis
    using all(1) by (auto simp: P_def new_def)
qed

definition eager_pr_shape :: "nat \<Rightarrow> u32 \<Rightarrow> u8 debounce_state \<times> 'r::len matrix \<Rightarrow> bool" where
  "eager_pr_shape n now st \<longleftrightarrow> rows_sized n st \<and> \<not> matrix_need_update (fst st) \<and>
     ((\<exists>k \<in> {..<n}. cell_runs (row_cell st k)) \<longrightarrow> counters_need_update (fst st)) \<and>
     (counters_need_update (fst st) \<longrightarrow> last_time (fst st) = now)"

lemma eager_pr_call:
  assumes "DEBOUNCE cf \<noteq> 0" "eager_pr_shape n now s" "\<forall>k \<in> {..<n}. eager_cell_inv (DEBOUNCE_8 cf) (raw0 ! k) (row_cell s k)"
    and "gap < 2 ^ 32" "debounce_sym_eager_pr cf (now + of_nat gap) raw (raw \<noteq> raw0) s = (chg, s')"
  shows "eager_pr_shape n (now + of_nat gap) s'"
    and "\<forall>k \<in> {..<n}. row_cell s' k = eager_cell (DEBOUNCE_8 cf) (clamp_gap gap) (raw ! k) (row_cell s k)"
    and "\<not> chg"
proof -
  obtain s1 c1 where s: "s = (s1, c1)"
    by (cases s)
  obtain s2 c2 where s': "s' = (s2, c2)"
    by (cases s')
  let ?update = "\<lambda>elapsed_time (s, cooked). (update_counters_pr (length cooked) elapsed_time s, cooked)"
  have run: "debounce_call ?update (transfer_values_pr cf raw) (\<lambda>changed s. changed \<or> matrix_need_update s)
      (now + of_nat gap) (raw \<noteq> raw0) (s1, c1) = (chg, s2, c2)"
    using assms(1,5) by (simp add: debounce_sym_eager_pr_def s s')
  have "rows_sized n (s2, c2) \<and> \<not> matrix_need_update s2 \<and>
      ((\<exists>k \<in> {..<n}. cell_runs (row_cell (s2, c2) k)) \<longrightarrow> counters_need_update s2) \<and>
      (counters_need_update s2 \<longrightarrow> last_time s2 = now + of_nat gap) \<and>
      (\<forall>k \<in> {..<n}. row_cell (s2, c2) k =
        eager_tr (DEBOUNCE_8 cf) (raw ! k) (eager_upd (clamp_gap gap) (raw ! k) (row_cell (s1, c1) k))) \<and>
      (chg \<longleftrightarrow> (\<exists>k \<in> {..<n}. () \<noteq> ()))"
  proof (rule debounce_call_cells [where P = "rows_sized n" and cell = row_cell and cells = "{..<n}" and
        upd = eager_upd and tr = "eager_tr (DEBOUNCE_8 cf)" and rv = "\<lambda>k. raw ! k" and val = "\<lambda>_. ()" and runs = cell_runs and
        expires = cell_expires, OF _ _ _ _ _ _ _ _ _ _ _ _ _ _ _ _ _ assms(4) run])
    fix s :: "u8 debounce_state" and c :: "'a matrix" and e
    assume sized: "rows_sized n (s, c)"
    show "rows_sized n (?update e (s, c)) \<and>
        (\<forall>k \<in> {..<n}. row_cell (?update e (s, c)) k = eager_upd e (raw ! k) (row_cell (s, c) k)) \<and>
        loop_flags (row_cell (s, c)) (row_cell (?update e (s, c))) (\<lambda>_. ()) cell_runs {..<n} s (fst (?update e (s, c))) \<and>
        (matrix_need_update (fst (?update e (s, c))) \<longleftrightarrow> (\<exists>k \<in> {..<n}. cell_expires e (row_cell (s, c) k)))"
      using update_pr_cells [OF sized, of e raw] by (simp add: loop_flags_def)
    show "rows_sized n (transfer_values_pr cf raw (s, c)) \<and>
        (\<forall>k \<in> {..<n}. row_cell (transfer_values_pr cf raw (s, c)) k = eager_tr (DEBOUNCE_8 cf) (raw ! k) (row_cell (s, c) k)) \<and>
        loop_flags (row_cell (s, c)) (row_cell (transfer_values_pr cf raw (s, c))) (\<lambda>_. ()) cell_runs {..<n} s
          (fst (transfer_values_pr cf raw (s, c))) \<and> \<not> matrix_need_update (fst (transfer_values_pr cf raw (s, c)))"
      if "(\<exists>k \<in> {..<n}. cell_runs (row_cell (s, c) k)) \<longrightarrow> counters_need_update s"
      using transfer_pr_cells [OF sized that, of cf raw] by (simp add: loop_flags_def)
  qed (use assms(2,3) in \<open>auto simp: rows_sized_def row_cell_def eager_idle eager_pr_shape_def s\<close>)
  then show "eager_pr_shape n (now + of_nat gap) s'"
    and "\<forall>k \<in> {..<n}. row_cell s' k = eager_cell (DEBOUNCE_8 cf) (clamp_gap gap) (raw ! k) (row_cell s k)"
    and "\<not> chg"
    by (simp_all add: s s' eager_pr_shape_def eager_cell_def)
qed

lemma sym_eager_pr_cellwise:
  assumes "DEBOUNCE cf \<noteq> 0"
  shows "cellwise (eager_cell (DEBOUNCE_8 cf)) snd (eager_cell_inv (DEBOUNCE_8 cf)) (\<lambda>raw. unat \<circ> fst) (2 ^ 32 - 1)
    (unat (DEBOUNCE_8 cf)) (debounce_sym_eager_pr cf :: u32 \<Rightarrow> 'r::len matrix \<Rightarrow> _) snd (rows_ok n) (eager_pr_shape n) {..<n}
    row_cell (\<lambda>raw k. raw ! k)"
proof (rule cellwise.intro [OF eager_cell_machine], unfold_locales)
  fix raw0 raw raw' :: "'r matrix" and now gap and s s' :: "u8 debounce_state \<times> 'r matrix" and now' r c
  show "eager_pr_shape n (now + of_nat gap) (snd (debounce_sym_eager_pr cf (now + of_nat gap) raw (raw \<noteq> raw0) s)) \<and>
      (\<forall>k \<in> {..<n}. row_cell (snd (debounce_sym_eager_pr cf (now + of_nat gap) raw (raw \<noteq> raw0) s)) k =
        eager_cell (DEBOUNCE_8 cf) (clamp_gap gap) (raw ! k) (row_cell s k))"
    if "eager_pr_shape n now s" "\<forall>k \<in> {..<n}. eager_cell_inv (DEBOUNCE_8 cf) (raw0 ! k) (row_cell s k)" "gap \<le> 2 ^ 32 - 1"
  proof -
    obtain chg s' where run: "debounce_sym_eager_pr cf (now + of_nat gap) raw (raw \<noteq> raw0) s = (chg, s')"
      by (metis surj_pair)
    then show ?thesis
      using eager_pr_call [OF assms that(1,2) _ run] that(3) by simp
  qed
  assume ok: "rows_ok n raw" "eager_pr_shape n now s"
  then show "length (snd s) = length raw"
    by (simp add: rows_ok_def eager_pr_shape_def rows_sized_def)
  show "snd s = raw" if "\<forall>k \<in> {..<n}. snd (row_cell s k) = raw ! k"
    using ok that by (intro nth_equalityI) (simp_all add: rows_ok_def eager_pr_shape_def rows_sized_def row_cell_def)
  show "bit (snd s' ! r) c \<in> {bit (snd s ! r) c, bit (raw ! r) c}"
    if "\<forall>k \<in> {..<n}. snd (row_cell s' k) \<in> {snd (row_cell s k), raw ! k}" "r < length raw"
    using bspec [OF that(1), of r] that(2) ok(1) by (auto simp: rows_ok_def row_cell_def)
qed (simp_all add: rows_ok_def)

text \<open>At the start, with all keys released.\<close>

lemma sym_eager_pr_start:
  assumes "DEBOUNCE cf \<noteq> 0"
  shows "cellwise.cells_inv (eager_cell_inv (DEBOUNCE_8 cf)) (rows_ok n) (eager_pr_shape n) {..<n} row_cell (\<lambda>raw k. raw ! k)
    now (replicate n 0 :: 'r::len matrix) (debounce_init_pr_eager n, replicate n 0 :: 'r matrix)"
proof -
  have "DEBOUNCE_8 cf \<noteq> 0"
    using assms by (simp add: DEBOUNCE_8_def word_unat_eq_iff unat_of_nat)
  then show ?thesis
    by (simp add: cellwise.cells_inv_def [OF sym_eager_pr_cellwise [OF assms]] eager_pr_shape_def rows_ok_def rows_sized_def
        debounce_init_pr_eager_def row_cell_def cell_runs_def eager_cell_inv_def)
qed

end
