(* ===== verification/DebounceKeys.thy ===== *)
theory DebounceKeys
  imports DebounceCells
begin

text \<open>
  The debounce algorithms with a counter for every key: sym_defer_pk.c, sym_eager_pk.c and asym_eager_defer_pk.c.
  The array of counters is a list with a list of counters for every row; the pointer that the loops
  advance is the pair of row and column.
\<close>

section \<open>Loops over the keys\<close>

definition key_cell :: "'c list debounce_state \<times> 'r::len matrix \<Rightarrow> nat \<times> nat \<Rightarrow> 'c \<times> bool" where
  "key_cell st k = (debounce_counters (fst st) ! fst k ! snd k, bit (snd st ! fst k) (snd k))"

definition keys_sized :: "nat \<Rightarrow> nat \<Rightarrow> 'c list debounce_state \<times> 'r::len matrix \<Rightarrow> bool" where
  "keys_sized n cols st \<longleftrightarrow> length (debounce_counters (fst st)) = n \<and> length (snd st) = n \<and>
     (\<forall>r < n. length (debounce_counters (fst st) ! r) = cols \<and> (\<forall>c \<ge> cols. \<not> bit (snd st ! r) c))"

text \<open>\<open>dl r st\<close> is what the loop computes at the start of a row.\<close>

lemma key_loop:
  fixes f :: "nat \<Rightarrow> 'd \<Rightarrow> nat \<Rightarrow> 'c list debounce_state \<times> 'r::len matrix \<Rightarrow> 'c list debounce_state \<times> 'r matrix"
  assumes step: "\<forall>r < n. \<forall>c < cols. \<forall>d st. P st \<and> key_cell st (r, c) = cell0 (r, c) \<and> Q r c d \<longrightarrow>
      P (f r d c st) \<and> key_cell (f r d c st) (r, c) = new (r, c) \<and>
      (\<forall>k. k \<noteq> (r, c) \<longrightarrow> key_cell (f r d c st) k = key_cell st k) \<and>
      (\<forall>i. state_flag (fst (f r d c st)) i \<longleftrightarrow> state_flag (fst st) i \<or> H (r, c) i)"
    and dl: "\<forall>r < n. \<forall>st. P st \<and> (\<forall>c < cols. key_cell st (r, c) = cell0 (r, c)) \<longrightarrow> (\<forall>c < cols. Q r c (dl r st))"
    and start: "P st0" "\<forall>r < n. \<forall>c < cols. key_cell st0 (r, c) = cell0 (r, c)"
    and run: "fold (\<lambda>r st. fold (f r (dl r st)) [0..<cols] st) [0..<n] st0 = st'"
  shows "P st'" "\<forall>r < n. \<forall>c < cols. key_cell st' (r, c) = new (r, c)"
    "\<And>i. state_flag (fst st') i \<longleftrightarrow> state_flag (fst st0) i \<or> (\<exists>k \<in> {..<n} \<times> {..<cols}. H k i)"
proof -
  define row where "row st r = map (\<lambda>c. key_cell st (r, c)) [0..<cols]" for st :: "'c list debounce_state \<times> 'r matrix" and r
  define row0 where "row0 r = map (\<lambda>c. cell0 (r, c)) [0..<cols]" for r
  have row_eq: "row st r = map (\<lambda>c. v (r, c)) [0..<cols] \<longleftrightarrow> (\<forall>c < cols. key_cell st (r, c) = v (r, c))" for st r v
    by (auto simp: row_def)
  have rows: "\<forall>r \<in> set [0..<n]. \<forall>st. P st \<and> row st r = row0 r \<longrightarrow>
      P (fold (f r (dl r st)) [0..<cols] st) \<and>
      row (fold (f r (dl r st)) [0..<cols] st) r = map (\<lambda>c. new (r, c)) [0..<cols] \<and>
      (\<forall>j. j \<noteq> r \<longrightarrow> row (fold (f r (dl r st)) [0..<cols] st) j = row st j) \<and>
      (\<forall>i. state_flag (fst (fold (f r (dl r st)) [0..<cols] st)) i \<longleftrightarrow> state_flag (fst st) i \<or> (\<exists>c < cols. H (r, c) i))"
  proof (intro ballI allI impI)
    fix r st
    assume "r \<in> set [0..<n]" and st: "P st \<and> row st r = row0 r"
    then have r: "r < n" "\<forall>c < cols. key_cell st (r, c) = cell0 (r, c)"
      by (simp_all add: row0_def row_eq)
    define d where "d = dl r st"
    have Q: "\<forall>c < cols. Q r c d"
      unfolding d_def using dl r st by blast
    define P' where "P' t = (P t \<and> (\<forall>j c. j \<noteq> r \<longrightarrow> key_cell t (j, c) = key_cell st (j, c)))" for t
    have steps: "\<forall>c \<in> set [0..<cols]. \<forall>t. P' t \<and> key_cell t (r, c) = cell0 (r, c) \<longrightarrow>
        P' (f r d c t) \<and> key_cell (f r d c t) (r, c) = new (r, c) \<and>
        (\<forall>j. j \<noteq> c \<longrightarrow> key_cell (f r d c t) (r, j) = key_cell t (r, j)) \<and>
        (\<forall>i. state_flag (fst (f r d c t)) i \<longleftrightarrow> state_flag (fst t) i \<or> H (r, c) i)"
      using step r(1) Q by (simp add: P'_def)
    have P': "P' st" "\<forall>c \<in> set [0..<cols]. key_cell st (r, c) = cell0 (r, c)"
      using st r by (simp_all add: P'_def)
    note all = fold_pointwise [where view = "\<lambda>t c. key_cell t (r, c)" and flag = "\<lambda>t. state_flag (fst t)",
        OF steps distinct_upt P']
    show "P (fold (f r (dl r st)) [0..<cols] st) \<and>
        row (fold (f r (dl r st)) [0..<cols] st) r = map (\<lambda>c. new (r, c)) [0..<cols] \<and>
        (\<forall>j. j \<noteq> r \<longrightarrow> row (fold (f r (dl r st)) [0..<cols] st) j = row st j) \<and>
        (\<forall>i. state_flag (fst (fold (f r (dl r st)) [0..<cols] st)) i \<longleftrightarrow> state_flag (fst st) i \<or> (\<exists>c < cols. H (r, c) i))"
      using all(1,2) spec [OF all(4)] unfolding row_eq d_def [symmetric] by (auto simp: P'_def row_def)
  qed
  have start': "P st0" "\<forall>r \<in> set [0..<n]. row st0 r = row0 r"
    using start by (simp_all add: row0_def row_eq)
  note all = fold_pointwise [where view = row and flag = "\<lambda>t. state_flag (fst t)" and H = "\<lambda>r i. \<exists>c < cols. H (r, c) i",
      OF rows distinct_upt start', unfolded run]
  show "P st'"
    by (rule all(1))
  show "\<forall>r < n. \<forall>c < cols. key_cell st' (r, c) = new (r, c)"
    using all(2) by (simp add: row_eq)
  show "state_flag (fst st') i \<longleftrightarrow> state_flag (fst st0) i \<or> (\<exists>k \<in> {..<n} \<times> {..<cols}. H k i)" for i
    using spec [OF all(4), of i] by auto
qed

section \<open>The loops\<close>

definition counter_at :: "'c list debounce_state \<Rightarrow> nat \<Rightarrow> nat \<Rightarrow> 'c" where
  "counter_at s row col = debounce_counters s ! row ! col"

definition set_counter :: "nat \<Rightarrow> nat \<Rightarrow> 'c \<Rightarrow> 'c list debounce_state \<Rightarrow> 'c list debounce_state" where
  "set_counter row col v s =
    s\<lparr>debounce_counters := (debounce_counters s)[row := (debounce_counters s ! row)[col := v]]\<rparr>"

text \<open>\<open>(cooked & ~col_mask) | (raw & col_mask)\<close>\<close>

definition cooked_next :: "nat \<Rightarrow> 'r::len word \<Rightarrow> 'r word \<Rightarrow> 'r word" where
  "cooked_next col raw_row cooked_row = cooked_row AND NOT (push_bit col 1) OR raw_row AND push_bit col 1"

subsection \<open>\<open>sym_defer_pk\<close>\<close>

definition expire_key ::
    "'r::len matrix \<Rightarrow> u8 \<Rightarrow> nat \<Rightarrow> nat \<Rightarrow> u8 list debounce_state \<times> 'r matrix \<Rightarrow> u8 list debounce_state \<times> 'r matrix" where
  "expire_key raw elapsed_time row col st =
    (let (s, cooked) = st; counter = counter_at s row col
     in if counter \<noteq> 0 then
          if counter \<le> elapsed_time then
            let s = set_counter row col 0 s; next = cooked_next col (raw ! row) (cooked ! row)
            in (s\<lparr>cooked_changed := cooked_changed s \<or> cooked ! row XOR next \<noteq> 0\<rparr>, cooked[row := next])
          else ((set_counter row col (counter - elapsed_time) s)\<lparr>counters_need_update := True\<rparr>, cooked)
        else (s, cooked))"

definition update_and_transfer ::
    "debounce_config \<Rightarrow> 'r::len matrix \<Rightarrow> u8 \<Rightarrow> u8 list debounce_state \<times> 'r matrix \<Rightarrow> u8 list debounce_state \<times> 'r matrix" where
  "update_and_transfer cf raw elapsed_time st =
    (let (s, cooked) = st
     in fold (\<lambda>row st. fold (expire_key raw elapsed_time row) [0..<MATRIX_COLS cf] st) [0..<length cooked]
       (s\<lparr>counters_need_update := False\<rparr>, cooked))"

definition start_key ::
    "debounce_config \<Rightarrow> nat \<Rightarrow> 'r::len word \<Rightarrow> nat \<Rightarrow> u8 list debounce_state \<times> 'r matrix \<Rightarrow>
     u8 list debounce_state \<times> 'r matrix" where
  "start_key cf row delta col st =
    (let (s, cooked) = st
     in if delta AND push_bit col 1 \<noteq> 0 then
          if counter_at s row col = 0
          then ((set_counter row col (DEBOUNCE_8 cf) s)\<lparr>counters_need_update := True\<rparr>, cooked) else (s, cooked)
        else (set_counter row col 0 s, cooked))"

definition start_debounce_counters ::
    "debounce_config \<Rightarrow> 'r::len matrix \<Rightarrow> u8 list debounce_state \<times> 'r matrix \<Rightarrow> u8 list debounce_state \<times> 'r matrix" where
  "start_debounce_counters cf raw st =
    fold (\<lambda>row st. fold (start_key cf row (raw ! row XOR snd st ! row)) [0..<MATRIX_COLS cf] st) [0..<length (snd st)] st"

definition debounce_sym_defer_pk ::
    "debounce_config \<Rightarrow> u32 \<Rightarrow> 'r::len matrix \<Rightarrow> bool \<Rightarrow> u8 list debounce_state \<times> 'r matrix \<Rightarrow>
     bool \<times> u8 list debounce_state \<times> 'r matrix" where
  "debounce_sym_defer_pk cf now raw changed st =
    (if DEBOUNCE cf = 0 then (let (chg, cooked) = debounce_none raw (snd st) in (chg, fst st, cooked))
     else debounce_call (update_and_transfer cf raw) (start_debounce_counters cf raw) (\<lambda>changed s. changed) now changed st)"

definition debounce_init_pk :: "debounce_config \<Rightarrow> nat \<Rightarrow> u8 list debounce_state" where
  "debounce_init_pk cf num_rows =
    \<lparr>debounce_counters = replicate num_rows (replicate (MATRIX_COLS cf) 0), last_time = 0, counters_need_update = False,
     matrix_need_update = False, cooked_changed = False\<rparr>"

subsection \<open>\<open>sym_eager_pk\<close>\<close>

definition update_key ::
    "u8 \<Rightarrow> nat \<Rightarrow> nat \<Rightarrow> u8 list debounce_state \<times> 'r::len matrix \<Rightarrow> u8 list debounce_state \<times> 'r matrix" where
  "update_key elapsed_time row col st =
    (let (s, cooked) = st; counter = counter_at s row col
     in if counter \<noteq> 0 then
          if counter \<le> elapsed_time then ((set_counter row col 0 s)\<lparr>matrix_need_update := True\<rparr>, cooked)
          else ((set_counter row col (counter - elapsed_time) s)\<lparr>counters_need_update := True\<rparr>, cooked)
        else (s, cooked))"

definition update_debounce_counters ::
    "debounce_config \<Rightarrow> u8 \<Rightarrow> u8 list debounce_state \<times> 'r::len matrix \<Rightarrow> u8 list debounce_state \<times> 'r matrix" where
  "update_debounce_counters cf elapsed_time st =
    (let (s, cooked) = st
     in fold (\<lambda>row st. fold (update_key elapsed_time row) [0..<MATRIX_COLS cf] st) [0..<length cooked]
       (s\<lparr>counters_need_update := False, matrix_need_update := False\<rparr>, cooked))"

text \<open>The loop over a row works on \<open>existing_row\<close>, which is stored after it.\<close>

definition transfer_key ::
    "debounce_config \<Rightarrow> nat \<Rightarrow> 'r::len word \<Rightarrow> nat \<Rightarrow> u8 list debounce_state \<times> 'r word \<Rightarrow>
     u8 list debounce_state \<times> 'r word" where
  "transfer_key cf row delta col st =
    (let (s, existing_row) = st; col_mask = push_bit col 1
     in if delta AND col_mask \<noteq> 0 then
          if counter_at s row col = 0 then
            ((set_counter row col (DEBOUNCE_8 cf) s)\<lparr>counters_need_update := True, cooked_changed := True\<rparr>,
             existing_row XOR col_mask)
          else (s, existing_row)
        else (s, existing_row))"

definition transfer_keys_of_row ::
    "debounce_config \<Rightarrow> 'r::len matrix \<Rightarrow> nat \<Rightarrow> u8 list debounce_state \<times> 'r matrix \<Rightarrow> u8 list debounce_state \<times> 'r matrix" where
  "transfer_keys_of_row cf raw row st =
    (let (s, cooked) = st; delta = raw ! row XOR cooked ! row;
         (s, existing_row) = fold (transfer_key cf row delta) [0..<MATRIX_COLS cf] (s, cooked ! row)
     in (s, cooked[row := existing_row]))"

definition transfer_matrix_values ::
    "debounce_config \<Rightarrow> 'r::len matrix \<Rightarrow> u8 list debounce_state \<times> 'r matrix \<Rightarrow> u8 list debounce_state \<times> 'r matrix" where
  "transfer_matrix_values cf raw st =
    (let (s, cooked) = st
     in fold (transfer_keys_of_row cf raw) [0..<length cooked] (s\<lparr>matrix_need_update := False\<rparr>, cooked))"

definition debounce_sym_eager_pk ::
    "debounce_config \<Rightarrow> u32 \<Rightarrow> 'r::len matrix \<Rightarrow> bool \<Rightarrow> u8 list debounce_state \<times> 'r matrix \<Rightarrow>
     bool \<times> u8 list debounce_state \<times> 'r matrix" where
  "debounce_sym_eager_pk cf now raw changed st =
    (if DEBOUNCE cf = 0 then (let (chg, cooked) = debounce_none raw (snd st) in (chg, fst st, cooked))
     else debounce_call (update_debounce_counters cf) (transfer_matrix_values cf raw)
       (\<lambda>changed s. changed \<or> matrix_need_update s) now changed st)"

subsection \<open>\<open>asym_eager_defer_pk\<close>\<close>

definition DEBOUNCE_7 :: "debounce_config \<Rightarrow> 7 word" where
  "DEBOUNCE_7 cf = of_nat (if 127 < DEBOUNCE cf then 127 else DEBOUNCE cf)"

definition expire_key_asym ::
    "'r::len matrix \<Rightarrow> u8 \<Rightarrow> nat \<Rightarrow> nat \<Rightarrow> debounce_counter_t list debounce_state \<times> 'r matrix \<Rightarrow>
     debounce_counter_t list debounce_state \<times> 'r matrix" where
  "expire_key_asym raw elapsed_time row col st =
    (let (s, cooked) = st; counter = counter_at s row col
     in if time counter \<noteq> 0 then
          if unat (time counter) \<le> unat elapsed_time then
            let s = set_counter row col (counter\<lparr>time := 0\<rparr>) s
            in if pressed counter then (s\<lparr>matrix_need_update := True\<rparr>, cooked)
               else let next = cooked_next col (raw ! row) (cooked ! row)
                 in (s\<lparr>cooked_changed := cooked_changed s \<or> next XOR cooked ! row \<noteq> 0\<rparr>, cooked[row := next])
          else ((set_counter row col (counter\<lparr>time := time counter - ucast elapsed_time\<rparr>) s)\<lparr>counters_need_update := True\<rparr>,
                cooked)
        else (s, cooked))"

definition update_and_transfer_asym ::
    "debounce_config \<Rightarrow> 'r::len matrix \<Rightarrow> u8 \<Rightarrow> debounce_counter_t list debounce_state \<times> 'r matrix \<Rightarrow>
     debounce_counter_t list debounce_state \<times> 'r matrix" where
  "update_and_transfer_asym cf raw elapsed_time st =
    (let (s, cooked) = st
     in fold (\<lambda>row st. fold (expire_key_asym raw elapsed_time row) [0..<MATRIX_COLS cf] st) [0..<length cooked]
       (s\<lparr>counters_need_update := False, matrix_need_update := False\<rparr>, cooked))"

definition transfer_key_asym ::
    "debounce_config \<Rightarrow> 'r::len matrix \<Rightarrow> nat \<Rightarrow> 'r word \<Rightarrow> nat \<Rightarrow> debounce_counter_t list debounce_state \<times> 'r matrix \<Rightarrow>
     debounce_counter_t list debounce_state \<times> 'r matrix" where
  "transfer_key_asym cf raw row delta col st =
    (let (s, cooked) = st; col_mask = push_bit col 1; counter = counter_at s row col
     in if delta AND col_mask \<noteq> 0 then
          if time counter = 0 then
            let p = raw ! row AND col_mask \<noteq> 0;
                s = (set_counter row col \<lparr>pressed = p, time = DEBOUNCE_7 cf\<rparr> s)\<lparr>counters_need_update := True\<rparr>
            in if p then (s\<lparr>cooked_changed := True\<rparr>, cooked[row := cooked ! row XOR col_mask]) else (s, cooked)
          else (s, cooked)
        else if time counter \<noteq> 0 then
          if \<not> pressed counter then (set_counter row col (counter\<lparr>time := 0\<rparr>) s, cooked) else (s, cooked)
        else (s, cooked))"

definition transfer_matrix_values_asym ::
    "debounce_config \<Rightarrow> 'r::len matrix \<Rightarrow> debounce_counter_t list debounce_state \<times> 'r matrix \<Rightarrow>
     debounce_counter_t list debounce_state \<times> 'r matrix" where
  "transfer_matrix_values_asym cf raw st =
    (let (s, cooked) = st
     in fold (\<lambda>row st. fold (transfer_key_asym cf raw row (raw ! row XOR snd st ! row)) [0..<MATRIX_COLS cf] st)
       [0..<length cooked] (s\<lparr>matrix_need_update := False\<rparr>, cooked))"

definition debounce_asym_eager_defer_pk ::
    "debounce_config \<Rightarrow> u32 \<Rightarrow> 'r::len matrix \<Rightarrow> bool \<Rightarrow> debounce_counter_t list debounce_state \<times> 'r matrix \<Rightarrow>
     bool \<times> debounce_counter_t list debounce_state \<times> 'r matrix" where
  "debounce_asym_eager_defer_pk cf now raw changed st =
    (if DEBOUNCE cf = 0 then (let (chg, cooked) = debounce_none raw (snd st) in (chg, fst st, cooked))
     else debounce_call (update_and_transfer_asym cf raw) (transfer_matrix_values_asym cf raw)
       (\<lambda>changed s. changed \<or> matrix_need_update s) now changed st)"

text \<open>The directions in the allocated counters are not initialised: an argument.\<close>

definition debounce_init_asym :: "debounce_config \<Rightarrow> bool \<Rightarrow> nat \<Rightarrow> debounce_counter_t list debounce_state" where
  "debounce_init_asym cf junk num_rows =
    \<lparr>debounce_counters = replicate num_rows (replicate (MATRIX_COLS cf) \<lparr>pressed = junk, time = 0\<rparr>), last_time = 0,
     counters_need_update = False, matrix_need_update = False, cooked_changed = False\<rparr>"

section \<open>What the loops do to the keys\<close>

lemma bit_cooked_next: "bit (cooked_next col x y) j \<longleftrightarrow> (if j = col then bit x col else bit y j)"
  by (auto simp: cooked_next_def bit_simps dest: bit_imp_le_length)

lemma xor_eq_0_iff: "x XOR y = 0 \<longleftrightarrow> x = y" for x y :: "'r::len word"
  by (auto simp: bit_eq_iff bit_simps)

lemma cooked_next_eq:
  "cooked_next col x y = y \<longleftrightarrow> (bit x col \<longleftrightarrow> bit y col)" "y = cooked_next col x y \<longleftrightarrow> (bit x col \<longleftrightarrow> bit y col)"
  by (auto simp: bit_word_eqI_iff bit_cooked_next dest: bit_imp_le_length)

lemma and_col_mask: "x AND 2 ^ col = 0 \<longleftrightarrow> \<not> bit x col" for x :: "'r::len word"
  by (rule word_and_mask_eq_0)

lemma bit_flip: "bit (x XOR 2 ^ col) j \<longleftrightarrow> (if j = col \<and> col < LENGTH('r) then \<not> bit x col else bit x j)"
  for x :: "'r::len word"
  by (auto simp: bit_simps bit_mask_1 dest: bit_imp_le_length)

lemma key_cell_simps [simp]:
  "key_cell (s\<lparr>cooked_changed := b\<rparr>, c) = key_cell (s, c)" "key_cell (s\<lparr>counters_need_update := b\<rparr>, c) = key_cell (s, c)"
  "key_cell (s\<lparr>matrix_need_update := b\<rparr>, c) = key_cell (s, c)" "key_cell (s\<lparr>last_time := t\<rparr>, c) = key_cell (s, c)"
  "fst (key_cell (s, c) (r, col)) = counter_at s r col" "snd (key_cell (s, c) (r, col)) = bit (c ! r) col"
  by (auto simp: key_cell_def counter_at_def)

lemma keys_sized_simps [simp]:
  "keys_sized n cols (s\<lparr>cooked_changed := b\<rparr>, c) = keys_sized n cols (s, c)"
  "keys_sized n cols (s\<lparr>counters_need_update := b\<rparr>, c) = keys_sized n cols (s, c)"
  "keys_sized n cols (s\<lparr>matrix_need_update := b\<rparr>, c) = keys_sized n cols (s, c)"
  "keys_sized n cols (s\<lparr>last_time := t\<rparr>, c) = keys_sized n cols (s, c)"
  by (simp_all add: keys_sized_def)

lemma set_counter_simps [simp]:
  "last_time (set_counter r col v s) = last_time s" "cooked_changed (set_counter r col v s) = cooked_changed s"
  "counters_need_update (set_counter r col v s) = counters_need_update s"
  "matrix_need_update (set_counter r col v s) = matrix_need_update s"
  by (simp_all add: set_counter_def)

lemma key_cell_set:
  assumes "keys_sized n cols (s, c)" "r < n" "col < cols"
  shows "key_cell (set_counter r col v s, c) k = (if k = (r, col) then (v, bit (c ! r) col) else key_cell (s, c) k)"
    and "keys_sized n cols (set_counter r col v s, c)"
  using assms by (cases k; auto simp: key_cell_def keys_sized_def set_counter_def nth_list_update)+

lemma key_cell_cooked:
  assumes "keys_sized n cols (s, c)" "r < n" "col < cols" "\<forall>j. j \<noteq> col \<longrightarrow> bit w j = bit (c ! r) j"
  shows "key_cell (s, c[r := w]) k = (if k = (r, col) then (counter_at s r col, bit w col) else key_cell (s, c) k)"
    and "keys_sized n cols (s, c[r := w])"
  using assms by (cases k; auto simp: key_cell_def keys_sized_def nth_list_update counter_at_def)+

text \<open>The flags that a loop raises: the cooked matrix changed, a counter runs on, a counter expired.\<close>

definition raises :: "bool \<Rightarrow> bool \<Rightarrow> bool \<Rightarrow> nat \<Rightarrow> bool" where
  "raises changed runs expired i \<longleftrightarrow> (if i = 0 then changed else if i = 1 then runs else expired)"

definition steps_key ::
    "nat \<Rightarrow> nat \<Rightarrow> nat \<times> nat \<Rightarrow> ('c \<times> bool \<Rightarrow> 'c \<times> bool) \<Rightarrow> ('c \<times> bool \<Rightarrow> bool) \<Rightarrow> ('c \<times> bool \<Rightarrow> bool) \<Rightarrow>
     'c list debounce_state \<times> 'r::len matrix \<Rightarrow> 'c list debounce_state \<times> 'r matrix \<Rightarrow> bool" where
  "steps_key n cols k g N M st st' \<longleftrightarrow>
     keys_sized n cols st' \<and> last_time (fst st') = last_time (fst st) \<and> key_cell st' k = g (key_cell st k) \<and>
     (\<forall>j. j \<noteq> k \<longrightarrow> key_cell st' j = key_cell st j) \<and>
     (\<forall>i. state_flag (fst st') i \<longleftrightarrow> state_flag (fst st) i \<or>
       raises (snd (g (key_cell st k)) \<noteq> snd (key_cell st k)) (N (key_cell st k)) (M (key_cell st k)) i)"

lemma counter_at_set:
  "keys_sized n cols (s, c) \<Longrightarrow> r < n \<Longrightarrow> col < cols \<Longrightarrow> counter_at (set_counter r col v s) r col = v"
  using key_cell_set(1) [of n cols s c r col v "(r, col)"] by (simp add: key_cell_def counter_at_def)

lemmas key_defs = steps_key_def state_flag_def raises_def Let_def counter_at_def [symmetric] bit_cooked_next
  xor_eq_0_iff cooked_next_eq and_col_mask bit_flip

lemma expire_key_steps:
  fixes c raw :: "'r::len matrix"
  assumes "keys_sized n cols (s, c)" "r < n" "col < cols"
  shows "steps_key n cols (r, col) (defer_upd e (bit (raw ! r) col)) (\<lambda>cell. cell_runs (defer_upd e (bit (raw ! r) col) cell))
    (\<lambda>_. False) (s, c) (expire_key raw e r col (s, c))"
proof -
  note set = key_cell_set [OF assms] and at = counter_at_set [OF assms]
  note cooked = key_cell_cooked [OF set(2) assms(2,3), of "cooked_next col (raw ! r) (c ! r)"]
  show ?thesis
    using assms(1) set at cooked by (auto simp: key_defs expire_key_def defer_upd_def cell_runs_def)
qed

lemma start_key_steps:
  fixes c :: "'r::len matrix" and delta :: "'r word"
  assumes "keys_sized n cols (s, c)" "r < n" "col < cols" "bit delta col \<longleftrightarrow> bit (c ! r) col \<noteq> v"
  shows "steps_key n cols (r, col) (defer_tr (DEBOUNCE_8 cf) v) (\<lambda>cell. snd cell \<noteq> v \<and> fst cell = 0) (\<lambda>_. False) (s, c)
    (start_key cf r delta col (s, c))"
proof -
  note set = key_cell_set [OF assms(1-3)] and at = counter_at_set [OF assms(1-3)]
  have pair: "key_cell (s, c) (r, col) = (counter_at s r col, bit (c ! r) col)"
    by (simp add: key_cell_def counter_at_def)
  show ?thesis
    using assms set at by (auto simp: key_defs start_key_def defer_tr_def pair)
qed

lemma update_key_steps:
  assumes "keys_sized n cols (s, c)" "r < n" "col < cols"
  shows "steps_key n cols (r, col) (eager_upd e v) (\<lambda>cell. cell_runs (eager_upd e v cell)) (cell_expires e) (s, c)
    (update_key e r col (s, c))"
proof -
  note set = key_cell_set [OF assms] and at = counter_at_set [OF assms]
  have pair: "key_cell (s, c) (r, col) = (counter_at s r col, bit (c ! r) col)"
    by (simp add: key_cell_def counter_at_def)
  show ?thesis
    using assms set at by (auto simp: key_defs update_key_def eager_upd_def cell_runs_def cell_expires_def pair)
qed

text \<open>The loop of \<open>sym_eager_pk\<close> over a row, as steps on the matrix.\<close>

definition transfer_key_in ::
    "debounce_config \<Rightarrow> nat \<Rightarrow> 'r::len word \<Rightarrow> nat \<Rightarrow> u8 list debounce_state \<times> 'r matrix \<Rightarrow> u8 list debounce_state \<times> 'r matrix" where
  "transfer_key_in cf row delta col st =
    (let (s, existing_row) = transfer_key cf row delta col (fst st, snd st ! row) in (s, (snd st)[row := existing_row]))"

lemma transfer_keys_in:
  assumes "row < length c"
  shows "fold (transfer_key_in cf row delta) cols (s, c) =
    (let (s', ex) = fold (transfer_key cf row delta) cols (s, c ! row) in (s', c[row := ex]))"
  using assms
proof (induction cols arbitrary: s c)
  case (Cons col cols)
  obtain s1 ex where "transfer_key cf row delta col (s, c ! row) = (s1, ex)"
    by (metis surj_pair)
  then show ?case
    using Cons by (simp add: transfer_key_in_def split_beta Let_def)
qed simp

lemma transfer_key_steps:
  fixes c :: "'r::len matrix" and delta :: "'r word"
  assumes "keys_sized n cols (s, c)" "r < n" "col < cols" "bit delta col \<longleftrightarrow> bit (c ! r) col \<noteq> v"
  shows "steps_key n cols (r, col) (eager_tr (DEBOUNCE_8 cf) v) (\<lambda>cell. snd cell \<noteq> v \<and> fst cell = 0) (\<lambda>_. False) (s, c)
    (transfer_key_in cf r delta col (s, c))"
proof -
  note set = key_cell_set [OF assms(1-3)] and at = counter_at_set [OF assms(1-3)]
  note cooked = key_cell_cooked [OF set(2) assms(2,3), of "c ! r XOR 2 ^ col"]
  have pair: "key_cell (s, c) (r, col) = (counter_at s r col, bit (c ! r) col)"
    by (simp add: key_cell_def counter_at_def)
  have col: "bit delta col \<Longrightarrow> col < LENGTH('r)"
    by (rule bit_imp_le_length)
  have same: "c[r := c ! r] = c"
    by simp
  show ?thesis
    using assms set at cooked col by (auto simp: key_defs transfer_key_in_def transfer_key_def eager_tr_def pair same)
qed

definition asym_runs :: "debounce_counter_t \<times> bool \<Rightarrow> bool" where
  "asym_runs cell \<longleftrightarrow> time (fst cell) \<noteq> 0"

definition asym_expires :: "u8 \<Rightarrow> debounce_counter_t \<times> bool \<Rightarrow> bool" where
  "asym_expires e cell \<longleftrightarrow> time (fst cell) \<noteq> 0 \<and> unat (time (fst cell)) \<le> unat e \<and> pressed (fst cell)"

lemma expire_key_asym_steps:
  fixes c raw :: "'r::len matrix"
  assumes "keys_sized n cols (s, c)" "r < n" "col < cols"
  shows "steps_key n cols (r, col) (asym_upd e (bit (raw ! r) col)) (\<lambda>cell. asym_runs (asym_upd e (bit (raw ! r) col) cell))
    (asym_expires e) (s, c) (expire_key_asym raw e r col (s, c))"
proof -
  note set = key_cell_set [OF assms] and at = counter_at_set [OF assms]
  note cooked = key_cell_cooked [OF set(2) assms(2,3), of "cooked_next col (raw ! r) (c ! r)"]
  have pair: "key_cell (s, c) (r, col) = (counter_at s r col, bit (c ! r) col)"
    by (simp add: key_cell_def counter_at_def)
  have nz: "\<not> unat (time ct) \<le> unat e \<Longrightarrow> time ct \<noteq> ucast e" for ct
    using minus_7 [of "time ct" e] by auto
  show ?thesis
    using assms(1) set at cooked nz [of "counter_at s r col"]
    by (auto simp: key_defs expire_key_asym_def asym_upd_def asym_runs_def asym_expires_def pair)
qed

lemma transfer_key_asym_steps:
  fixes c raw :: "'r::len matrix"
  assumes "keys_sized n cols (s, c)" "r < n" "col < cols" "bit delta col \<longleftrightarrow> bit (c ! r) col \<noteq> bit (raw ! r) col"
  shows "steps_key n cols (r, col) (asym_tr (DEBOUNCE_7 cf) (bit (raw ! r) col))
    (\<lambda>cell. snd cell \<noteq> bit (raw ! r) col \<and> time (fst cell) = 0) (\<lambda>_. False) (s, c)
    (transfer_key_asym cf raw r delta col (s, c))"
proof -
  note set = key_cell_set [OF assms(1-3)] and at = counter_at_set [OF assms(1-3)]
  note cooked = key_cell_cooked [OF set(2) assms(2,3), of "c ! r XOR 2 ^ col"]
  have pair: "key_cell (s, c) (r, col) = (counter_at s r col, bit (c ! r) col)"
    by (simp add: key_cell_def counter_at_def)
  have col: "bit delta col \<Longrightarrow> col < LENGTH('r)"
    by (rule bit_imp_le_length)
  show ?thesis
    using assms set at cooked col by (auto simp: key_defs transfer_key_asym_def asym_tr_def pair)
qed

text \<open>A loop over all keys steps every key.\<close>

definition raw_bit :: "'r::len matrix \<Rightarrow> nat \<times> nat \<Rightarrow> bool" where
  "raw_bit raw k = bit (raw ! fst k) (snd k)"

lemma keys_loop:
  fixes f :: "nat \<Rightarrow> 'd \<Rightarrow> nat \<Rightarrow> 'c list debounce_state \<times> 'r::len matrix \<Rightarrow> 'c list debounce_state \<times> 'r matrix"
  assumes step: "\<And>r c d s ck. r < n \<Longrightarrow> c < cols \<Longrightarrow> keys_sized n cols (s, ck) \<Longrightarrow> Q r c (bit (ck ! r) c) d \<Longrightarrow>
      steps_key n cols (r, c) (g (r, c)) (N (r, c)) (M (r, c)) (s, ck) (f r d c (s, ck))"
    and dl: "\<And>r c s ck. r < n \<Longrightarrow> c < cols \<Longrightarrow> keys_sized n cols (s, ck) \<Longrightarrow> Q r c (bit (ck ! r) c) (dl r (s, ck))"
    and start: "keys_sized n cols (s0, c0)"
    and run: "fold (\<lambda>r st. fold (f r (dl r st)) [0..<cols] st) [0..<n] (s0, c0) = (s', c')"
  shows "keys_sized n cols (s', c')" "last_time s' = last_time s0"
    "\<forall>k \<in> {..<n} \<times> {..<cols}. key_cell (s', c') k = g k (key_cell (s0, c0) k)"
    "state_flag s' i \<longleftrightarrow> state_flag s0 i \<or>
      (\<exists>k \<in> {..<n} \<times> {..<cols}. raises (snd (key_cell (s', c') k) \<noteq> snd (key_cell (s0, c0) k)) (N k (key_cell (s0, c0) k)) (M k (key_cell (s0, c0) k)) i)"
proof -
  define H where "H k i = raises (snd (g k (key_cell (s0, c0) k)) \<noteq> snd (key_cell (s0, c0) k)) (N k (key_cell (s0, c0) k))
    (M k (key_cell (s0, c0) k)) i" for k i
  define P where "P st = (keys_sized n cols st \<and> last_time (fst st) = last_time s0)"
    for st :: "'c list debounce_state \<times> 'r matrix"
  define Q' where "Q' r c d = Q r c (snd (key_cell (s0, c0) (r, c))) d" for r c d
  have st: "P (f r d c st) \<and> key_cell (f r d c st) (r, c) = g (r, c) (key_cell (s0, c0) (r, c)) \<and>
      (\<forall>k. k \<noteq> (r, c) \<longrightarrow> key_cell (f r d c st) k = key_cell st k) \<and>
      (\<forall>i. state_flag (fst (f r d c st)) i \<longleftrightarrow> state_flag (fst st) i \<or> H (r, c) i)"
    if "r < n" "c < cols" "P st" "key_cell st (r, c) = key_cell (s0, c0) (r, c)" "Q' r c d" for r c d st
  proof -
    obtain s ck where p: "st = (s, ck)"
      by (cases st)
    have "bit (ck ! r) c = snd (key_cell (s0, c0) (r, c))"
      using that(4) by (metis key_cell_simps(6) p)
    then have "steps_key n cols (r, c) (g (r, c)) (N (r, c)) (M (r, c)) (s, ck) (f r d c (s, ck))"
      using that by (intro step) (simp_all add: P_def Q'_def p)
    then show ?thesis
      using that(3,4) by (simp add: steps_key_def P_def H_def p del: key_cell_simps(6))
  qed
  have dl': "\<forall>c < cols. Q' r c (dl r st)"
    if "r < n" "P st" "\<forall>c < cols. key_cell st (r, c) = key_cell (s0, c0) (r, c)" for r st
  proof (intro allI impI)
    fix c
    assume c: "c < cols"
    obtain s ck where p: "st = (s, ck)"
      by (cases st)
    have "bit (ck ! r) c = snd (key_cell (s0, c0) (r, c))"
      using that(3) c by (metis key_cell_simps(6) p)
    then show "Q' r c (dl r st)"
      using dl [OF that(1) c, of s ck] that(2) by (simp add: Q'_def P_def p)
  qed
  have st: "\<forall>r < n. \<forall>c < cols. \<forall>d st. P st \<and> key_cell st (r, c) = key_cell (s0, c0) (r, c) \<and> Q' r c d \<longrightarrow>
      P (f r d c st) \<and> key_cell (f r d c st) (r, c) = g (r, c) (key_cell (s0, c0) (r, c)) \<and>
      (\<forall>k. k \<noteq> (r, c) \<longrightarrow> key_cell (f r d c st) k = key_cell st k) \<and>
      (\<forall>i. state_flag (fst (f r d c st)) i \<longleftrightarrow> state_flag (fst st) i \<or> H (r, c) i)"
    using st by blast
  have dl: "\<forall>r < n. \<forall>st. P st \<and> (\<forall>c < cols. key_cell st (r, c) = key_cell (s0, c0) (r, c)) \<longrightarrow>
      (\<forall>c < cols. Q' r c (dl r st))"
    using dl' by blast
  have start: "P (s0, c0)" "\<forall>r < n. \<forall>c < cols. key_cell (s0, c0) (r, c) = key_cell (s0, c0) (r, c)"
    using start by (simp_all add: P_def)
  note all = key_loop [where new = "\<lambda>k. g k (key_cell (s0, c0) k)", OF st dl start run]
  show "keys_sized n cols (s', c')" "last_time s' = last_time s0"
    using all(1) by (simp_all add: P_def)
  show cells: "\<forall>k \<in> {..<n} \<times> {..<cols}. key_cell (s', c') k = g k (key_cell (s0, c0) k)"
    using all(2) by auto
  show "state_flag s' i \<longleftrightarrow> state_flag s0 i \<or>
      (\<exists>k \<in> {..<n} \<times> {..<cols}. raises (snd (key_cell (s', c') k) \<noteq> snd (key_cell (s0, c0) k)) (N k (key_cell (s0, c0) k)) (M k (key_cell (s0, c0) k)) i)"
  proof -
    have "H k i \<longleftrightarrow> raises (snd (key_cell (s', c') k) \<noteq> snd (key_cell (s0, c0) k)) (N k (key_cell (s0, c0) k))
        (M k (key_cell (s0, c0) k)) i" if "k \<in> {..<n} \<times> {..<cols}" for k
      unfolding H_def bspec [OF cells that] ..
    then show ?thesis
      using all(3) [of i] by (simp only: fst_conv cong: bex_cong)
  qed
qed

text \<open>The results of the two loops of an algorithm, in the form that the lemma on \<open>debounce_call\<close> takes.\<close>

lemma keys_update:
  fixes f :: "nat \<Rightarrow> nat \<Rightarrow> 'c list debounce_state \<times> 'r::len matrix \<Rightarrow> 'c list debounce_state \<times> 'r matrix"
  assumes step: "\<And>r c s ck. r < n \<Longrightarrow> c < cols \<Longrightarrow> keys_sized n cols (s, ck) \<Longrightarrow>
      steps_key n cols (r, c) (g (r, c)) (\<lambda>cell. runs (g (r, c) cell)) (M (r, c)) (s, ck) (f r c (s, ck))"
    and start: "keys_sized n cols (s, c)" "keys_sized n cols (s0, c)" "key_cell (s0, c) = key_cell (s, c)"
      "cooked_changed s0 = cooked_changed s" "last_time s0 = last_time s" "\<not> matrix_need_update s0"
    and run: "fold (\<lambda>r st. fold (f r) [0..<cols] st) [0..<n] (s0, c) = st"
  shows "keys_sized n cols st \<and> (\<forall>k \<in> {..<n} \<times> {..<cols}. key_cell st k = g k (key_cell (s, c) k)) \<and>
    loop_flags (key_cell (s, c)) (key_cell st) snd runs ({..<n} \<times> {..<cols}) s (fst st) \<and>
    (matrix_need_update (fst st) \<longleftrightarrow> (\<exists>k \<in> {..<n} \<times> {..<cols}. M k (key_cell (s, c) k)))"
proof -
  obtain s' c' where st: "st = (s', c')"
    by (cases st)
  note loop = keys_loop [where f = "\<lambda>r (d :: unit) c. f r c" and dl = "\<lambda>r st. ()" and Q = "\<lambda>r c v d. True" and g = g and
      N = "\<lambda>k cell. runs (g k cell)" and M = M and n = n and cols = cols, OF step _ start(2) run [unfolded st]]
  have cells: "\<forall>k \<in> {..<n} \<times> {..<cols}. key_cell (s', c') k = g k (key_cell (s, c) k)"
    using loop(3) start(3) by simp
  have flags: "state_flag s' i \<longleftrightarrow> state_flag s0 i \<or>
      (\<exists>k \<in> {..<n} \<times> {..<cols}. raises (snd (key_cell (s', c') k) \<noteq> snd (key_cell (s, c) k))
        (runs (g k (key_cell (s, c) k))) (M k (key_cell (s, c) k)) i)" for i
    using loop(4) start(3) by simp
  have "\<exists>k \<in> {..<n} \<times> {..<cols}. runs (g k (key_cell (s, c) k))"
    if "k \<in> {..<n} \<times> {..<cols}" "runs (key_cell (s', c') k)" for k
    using bspec [OF cells that(1)] that by (intro bexI [of _ k]) simp_all
  then show ?thesis
    using loop(1,2) cells flags [of 0] flags [of 1] flags [of 2] start(4-6)
    unfolding loop_flags_def st fst_conv raises_def state_flag_def by auto
qed

lemma keys_transfer:
  fixes f :: "nat \<Rightarrow> 'r word \<Rightarrow> nat \<Rightarrow> 'c list debounce_state \<times> 'r::len matrix \<Rightarrow> 'c list debounce_state \<times> 'r matrix"
  assumes step: "\<And>r c d s ck. r < n \<Longrightarrow> c < cols \<Longrightarrow> keys_sized n cols (s, ck) \<Longrightarrow>
      bit d c \<longleftrightarrow> bit (ck ! r) c \<noteq> raw_bit raw (r, c) \<Longrightarrow>
      steps_key n cols (r, c) (g (r, c)) (N (r, c)) (\<lambda>_. False) (s, ck) (f r d c (s, ck))"
    and new: "\<And>k cell. runs (g k cell) \<Longrightarrow> runs cell \<or> N k cell"
    and start: "keys_sized n cols (s, c)" "keys_sized n cols (s0, c)" "key_cell (s0, c) = key_cell (s, c)"
      "cooked_changed s0 = cooked_changed s" "last_time s0 = last_time s" "\<not> matrix_need_update s0"
      "(\<exists>k \<in> {..<n} \<times> {..<cols}. runs (key_cell (s, c) k)) \<longrightarrow> counters_need_update s0"
    and run: "fold (\<lambda>r st. fold (f r (raw ! r XOR snd st ! r)) [0..<cols] st) [0..<n] (s0, c) = st"
  shows "keys_sized n cols st \<and> (\<forall>k \<in> {..<n} \<times> {..<cols}. key_cell st k = g k (key_cell (s, c) k)) \<and>
    loop_flags (key_cell (s, c)) (key_cell st) snd runs ({..<n} \<times> {..<cols}) s (fst st) \<and>
    \<not> matrix_need_update (fst st)"
proof -
  obtain s' c' where st: "st = (s', c')"
    by (cases st)
  note loop = keys_loop [where f = f and dl = "\<lambda>r st. raw ! r XOR snd st ! r" and
      Q = "\<lambda>r c v d. bit d c \<longleftrightarrow> v \<noteq> raw_bit raw (r, c)" and g = g and
      N = N and M = "\<lambda>_ _. False" and n = n and cols = cols, OF step _ start(2) run [unfolded st]]
  have dl: "bit (raw ! r XOR snd (s, ck) ! r) c \<longleftrightarrow> bit (ck ! r) c \<noteq> raw_bit raw (r, c)" for r s ck c
    by (auto simp: raw_bit_def bit_simps)
  have cells: "\<forall>k \<in> {..<n} \<times> {..<cols}. key_cell (s', c') k = g k (key_cell (s, c) k)"
    using loop(3) start(3) dl by simp
  have flags: "state_flag s' i \<longleftrightarrow> state_flag s0 i \<or>
      (\<exists>k \<in> {..<n} \<times> {..<cols}. raises (snd (key_cell (s', c') k) \<noteq> snd (key_cell (s, c) k))
        (N k (key_cell (s, c) k)) False i)" for i
    using loop(4) start(3) dl by simp
  have "(\<exists>k \<in> {..<n} \<times> {..<cols}. runs (key_cell (s, c) k)) \<or> (\<exists>k \<in> {..<n} \<times> {..<cols}. N k (key_cell (s, c) k))"
    if "k \<in> {..<n} \<times> {..<cols}" "runs (key_cell (s', c') k)" for k
    using bspec [OF cells that(1)] that new by metis
  then show ?thesis
    using loop(1,2) dl cells flags [of 0] flags [of 1] flags [of 2] start(4-7)
    unfolding loop_flags_def st fst_conv raises_def state_flag_def by auto
qed

section \<open>The per-key algorithms keep the contract\<close>

definition keys_ok :: "nat \<Rightarrow> nat \<Rightarrow> 'r::len matrix \<Rightarrow> bool" where
  "keys_ok n cols raw \<longleftrightarrow> length raw = n \<and> (\<forall>r < n. \<forall>c \<ge> cols. \<not> bit (raw ! r) c)"

definition keys_shape ::
    "nat \<Rightarrow> nat \<Rightarrow> ('c \<times> bool \<Rightarrow> bool) \<Rightarrow> u32 \<Rightarrow> 'c list debounce_state \<times> 'r::len matrix \<Rightarrow> bool" where
  "keys_shape n cols runs now st \<longleftrightarrow> keys_sized n cols st \<and> \<not> matrix_need_update (fst st) \<and>
     ((\<exists>k \<in> {..<n} \<times> {..<cols}. runs (key_cell st k)) \<longrightarrow> counters_need_update (fst st)) \<and>
     (counters_need_update (fst st) \<longrightarrow> last_time (fst st) = now)"

lemma keys_matrix_eqI:
  fixes raw raw' :: "'r::len matrix"
  assumes "keys_ok n cols raw" "keys_ok n cols raw'" "\<forall>k \<in> {..<n} \<times> {..<cols}. raw_bit raw k = raw_bit raw' k"
  shows "raw = raw'"
proof (rule nth_equalityI)
  show "length raw = length raw'"
    using assms by (simp add: keys_ok_def)
  fix r
  assume r: "r < length raw"
  show "raw ! r = raw' ! r"
  proof (rule bit_word_eqI)
    fix c
    show "bit (raw ! r) c = bit (raw' ! r) c"
      using assms r by (cases "c < cols") (auto simp: keys_ok_def raw_bit_def)
  qed
qed

lemma keys_sized_ok: "keys_sized n cols st \<Longrightarrow> keys_ok n cols (snd st)"
  by (simp add: keys_sized_def keys_ok_def)

lemma snd_key_cell: "snd (key_cell st k) = raw_bit (snd st) k"
  by (simp add: key_cell_def raw_bit_def)

lemma keys_cellwise:
  fixes deb :: "u32 \<Rightarrow> 'r::len matrix \<Rightarrow> bool \<Rightarrow> 'c list debounce_state \<times> 'r matrix \<Rightarrow> bool \<times> 'c list debounce_state \<times> 'r matrix"
  assumes machine: "cell_machine (\<lambda>e raw c. tr raw (upd e raw c)) snd cinv wait G D" and G: "G < 2 ^ 32"
    and update: "\<And>raw e s c. keys_sized n cols (s, c) \<Longrightarrow> E s \<Longrightarrow>
      (keys_sized n cols (update raw e (s, c)) \<and> E (fst (update raw e (s, c)))) \<and>
      (\<forall>k \<in> {..<n} \<times> {..<cols}. key_cell (update raw e (s, c)) k = upd e (raw_bit raw k) (key_cell (s, c) k)) \<and>
      loop_flags (key_cell (s, c)) (key_cell (update raw e (s, c))) snd runs ({..<n} \<times> {..<cols}) s (fst (update raw e (s, c))) \<and>
      (matrix_need_update (fst (update raw e (s, c))) \<longleftrightarrow> (\<exists>k \<in> {..<n} \<times> {..<cols}. expires e (key_cell (s, c) k)))"
    and transfer: "\<And>raw s c. keys_sized n cols (s, c) \<Longrightarrow> E s \<Longrightarrow>
      (\<exists>k \<in> {..<n} \<times> {..<cols}. runs (key_cell (s, c) k)) \<longrightarrow> counters_need_update s \<Longrightarrow>
      (keys_sized n cols (transfer raw (s, c)) \<and> E (fst (transfer raw (s, c)))) \<and>
      (\<forall>k \<in> {..<n} \<times> {..<cols}. key_cell (transfer raw (s, c)) k = tr (raw_bit raw k) (key_cell (s, c) k)) \<and>
      loop_flags (key_cell (s, c)) (key_cell (transfer raw (s, c))) snd runs ({..<n} \<times> {..<cols}) s (fst (transfer raw (s, c))) \<and>
      \<not> matrix_need_update (fst (transfer raw (s, c)))"
    and E: "\<And>s t. E (s\<lparr>last_time := t\<rparr>) = E s" "\<And>s b. E (s\<lparr>cooked_changed := b\<rparr>) = E s"
      "\<And>s. \<not> matrix_need_update s \<Longrightarrow> E s"
    and due: "\<And>changed s. E s \<Longrightarrow> due changed s \<longleftrightarrow> changed \<or> matrix_need_update s"
    and idle: "\<And>e raw c. \<not> runs c \<Longrightarrow> upd e raw c = c" "\<And>raw c. upd 0 raw c = c" "\<And>c. \<not> expires 0 c"
      "\<And>e c. \<not> runs c \<Longrightarrow> \<not> expires e c"
    and skip: "\<And>raw e c. cinv raw c \<Longrightarrow> \<not> expires e c \<Longrightarrow> tr raw (upd e raw c) = upd e raw c"
    and once: "\<And>e raw c. snd (upd e raw c) \<noteq> snd c \<Longrightarrow> snd (tr raw (upd e raw c)) = snd (upd e raw c)"
    and deb: "\<And>now raw changed st. deb now raw changed st = debounce_call (update raw) (transfer raw) due now changed st"
  shows "exact_cellwise (\<lambda>e raw c. tr raw (upd e raw c)) snd cinv wait G D deb snd (keys_ok n cols)
    (keys_shape n cols runs) ({..<n} \<times> {..<cols}) key_cell raw_bit"
proof -
  have call: "keys_shape n cols runs (now + of_nat gap) s' \<and>
      (\<forall>k \<in> {..<n} \<times> {..<cols}. key_cell s' k = tr (raw_bit raw k) (upd (clamp_gap gap) (raw_bit raw k) (key_cell s k))) \<and>
      (chg \<longleftrightarrow> (\<exists>k \<in> {..<n} \<times> {..<cols}. snd (key_cell s' k) \<noteq> snd (key_cell s k)))"
    if "keys_shape n cols runs now s" "\<forall>k \<in> {..<n} \<times> {..<cols}. cinv (raw_bit raw0 k) (key_cell s k)" "gap \<le> G"
      "deb (now + of_nat gap) raw (raw \<noteq> raw0) s = (chg, s')" for raw0 raw now s gap chg s'
  proof -
    obtain s1 c1 where s: "s = (s1, c1)"
      by (cases s)
    obtain s2 c2 where s': "s' = (s2, c2)"
      by (cases s')
    have gap: "gap < 2 ^ 32"
      using that(3) G by simp
    have run: "debounce_call (update raw) (transfer raw) due (now + of_nat gap) (raw \<noteq> raw0) (s1, c1) = (chg, s2, c2)"
      using that(4) by (simp add: deb s s')
    have skip': "tr (raw_bit raw k) (upd e (raw_bit raw k) (key_cell (s1, c1) k)) = upd e (raw_bit raw k) (key_cell (s1, c1) k)"
      if "\<not> raw \<noteq> raw0" "k \<in> {..<n} \<times> {..<cols}" "\<not> expires e (key_cell (s1, c1) k)" for k e
    proof (rule skip)
      show "cinv (raw_bit raw k) (key_cell (s1, c1) k)"
        using that(1,2) \<open>\<forall>k \<in> {..<n} \<times> {..<cols}. cinv (raw_bit raw0 k) (key_cell s k)\<close> s by blast
    qed (rule that(3))
    have "(keys_sized n cols (s2, c2) \<and> E (fst (s2, c2))) \<and> \<not> matrix_need_update s2 \<and>
        ((\<exists>k \<in> {..<n} \<times> {..<cols}. runs (key_cell (s2, c2) k)) \<longrightarrow> counters_need_update s2) \<and>
        (counters_need_update s2 \<longrightarrow> last_time s2 = now + of_nat gap) \<and>
        (\<forall>k \<in> {..<n} \<times> {..<cols}. key_cell (s2, c2) k =
          tr (raw_bit raw k) (upd (clamp_gap gap) (raw_bit raw k) (key_cell (s1, c1) k))) \<and>
        (chg \<longleftrightarrow> (\<exists>k \<in> {..<n} \<times> {..<cols}. snd (key_cell (s2, c2) k) \<noteq> snd (key_cell (s1, c1) k)))"
    proof (rule debounce_call_cells [where P = "\<lambda>st. keys_sized n cols st \<and> E (fst st)" and cell = key_cell and
          cells = "{..<n} \<times> {..<cols}" and upd = upd and tr = tr and rv = "raw_bit raw" and val = snd and runs = runs and
          expires = expires, OF _ _ _ _ _ _ _ _ _ _ _ skip' once _ _ _ _ gap run])
    qed (use update transfer E due idle that(1) in \<open>auto simp: keys_shape_def s\<close>)
    then show ?thesis
      unfolding s s' keys_shape_def fst_conv by blast
  qed
  show ?thesis
  proof (rule exact_cellwise.intro [OF cellwise.intro [OF machine]]; unfold_locales)
    fix raw0 raw raw' :: "'r matrix" and now now' gap and s s' :: "'c list debounce_state \<times> 'r matrix" and r c chg
    show "keys_shape n cols runs (now + of_nat gap) (snd (deb (now + of_nat gap) raw (raw \<noteq> raw0) s)) \<and>
        (\<forall>k \<in> {..<n} \<times> {..<cols}. key_cell (snd (deb (now + of_nat gap) raw (raw \<noteq> raw0) s)) k =
          tr (raw_bit raw k) (upd (clamp_gap gap) (raw_bit raw k) (key_cell s k)))"
      if "keys_shape n cols runs now s" "\<forall>k \<in> {..<n} \<times> {..<cols}. cinv (raw_bit raw0 k) (key_cell s k)" "gap \<le> G"
      using call [OF that] by (metis snd_conv surj_pair)
    show "chg \<longleftrightarrow> snd s' \<noteq> snd s"
      if "keys_shape n cols runs now s" "\<forall>k \<in> {..<n} \<times> {..<cols}. cinv (raw_bit raw0 k) (key_cell s k)" "gap \<le> G"
        "deb (now + of_nat gap) raw (raw \<noteq> raw0) s = (chg, s')"
    proof -
      have "keys_ok n cols (snd s')" "keys_ok n cols (snd s)"
        using call [OF that] that(1) by (simp_all add: keys_shape_def keys_sized_ok)
      then have "(\<exists>k \<in> {..<n} \<times> {..<cols}. snd (key_cell s' k) \<noteq> snd (key_cell s k)) \<longleftrightarrow> snd s' \<noteq> snd s"
        using keys_matrix_eqI unfolding snd_key_cell by metis
      then show ?thesis
        using call [OF that] by simp
    qed
    assume ok: "keys_ok n cols raw" "keys_shape n cols runs now s"
    then show "length (snd s) = length raw"
      by (simp add: keys_ok_def keys_shape_def keys_sized_def)
    show "snd s = raw" if "\<forall>k \<in> {..<n} \<times> {..<cols}. snd (key_cell s k) = raw_bit raw k"
      using ok that keys_matrix_eqI [of n cols "snd s" raw] keys_sized_ok [of n cols s]
      by (simp add: keys_shape_def snd_key_cell)
    show "bit (snd s' ! r) c \<in> {bit (snd s ! r) c, bit (raw ! r) c}"
      if "keys_shape n cols runs now' s'" "\<forall>k \<in> {..<n} \<times> {..<cols}. snd (key_cell s' k) \<in> {snd (key_cell s k), raw_bit raw k}"
        "r < length raw"
    proof (cases "c < cols")
      case True
      then show ?thesis
        using bspec [OF that(2), of "(r, c)"] that(3) ok(1) by (simp add: keys_ok_def snd_key_cell raw_bit_def)
    next
      case False
      then show ?thesis
        using that(1,3) ok by (simp add: keys_ok_def keys_shape_def keys_sized_def)
    qed
  qed (simp_all add: keys_ok_def)
qed

lemma defer_idle:
  "\<not> cell_runs c \<Longrightarrow> defer_upd e raw c = c" "defer_upd 0 raw c = c"
  "defer_cell_inv d raw c \<Longrightarrow> defer_tr d raw (defer_upd e raw c) = defer_upd e raw c"
  "snd (defer_upd e raw c) \<noteq> snd c \<Longrightarrow> snd (defer_tr d raw (defer_upd e raw c)) = snd (defer_upd e raw c)"
  by (cases c; auto simp: cell_runs_def defer_upd_def defer_tr_def defer_cell_inv_def not_le)+

lemma asym_idle:
  "\<not> asym_runs c \<Longrightarrow> asym_upd e raw c = c" "asym_upd 0 raw c = c" "\<not> asym_expires 0 c"
  "\<not> asym_runs c \<Longrightarrow> \<not> asym_expires e c"
  "asym_cell_inv d raw c \<Longrightarrow> \<not> asym_expires e c \<Longrightarrow> asym_tr d raw (asym_upd e raw c) = asym_upd e raw c"
  "snd (asym_upd e raw c) \<noteq> snd c \<Longrightarrow> snd (asym_tr d raw (asym_upd e raw c)) = snd (asym_upd e raw c)"
proof -
  obtain p t v where c: "c = (\<lparr>pressed = p, time = t\<rparr>, v)"
    by (metis debounce_counter_t.cases surj_pair)
  have nz: "\<not> unat t \<le> unat e \<Longrightarrow> t \<noteq> ucast e"
    using minus_7 [of t e] by auto
  show "\<not> asym_runs c \<Longrightarrow> asym_upd e raw c = c" "asym_upd 0 raw c = c" "\<not> asym_expires 0 c"
    "\<not> asym_runs c \<Longrightarrow> \<not> asym_expires e c"
    "asym_cell_inv d raw c \<Longrightarrow> \<not> asym_expires e c \<Longrightarrow> asym_tr d raw (asym_upd e raw c) = asym_upd e raw c"
    "snd (asym_upd e raw c) \<noteq> snd c \<Longrightarrow> snd (asym_tr d raw (asym_upd e raw c)) = snd (asym_upd e raw c)"
    using nz by (auto simp: c asym_runs_def asym_expires_def asym_upd_def asym_tr_def asym_cell_inv_def unat_eq_0
        split: if_splits)
qed

lemma defer_pk_update:
  fixes c raw :: "'r::len matrix" and e :: u8 and cf :: debounce_config
  assumes "keys_sized n (MATRIX_COLS cf) (s, c)" "\<not> matrix_need_update s"
  defines "st \<equiv> update_and_transfer cf raw e (s, c)"
  shows "(keys_sized n (MATRIX_COLS cf) st \<and> \<not> matrix_need_update (fst st)) \<and>
    (\<forall>k \<in> {..<n} \<times> {..<MATRIX_COLS cf}. key_cell st k = defer_upd e (raw_bit raw k) (key_cell (s, c) k)) \<and>
    loop_flags (key_cell (s, c)) (key_cell st) snd cell_runs ({..<n} \<times> {..<MATRIX_COLS cf}) s (fst st) \<and>
    (matrix_need_update (fst st) \<longleftrightarrow> (\<exists>k \<in> {..<n} \<times> {..<MATRIX_COLS cf}. False))"
proof -
  have "length c = n"
    using assms(1) by (simp add: keys_sized_def)
  then have run: "fold (\<lambda>r st. fold (expire_key raw e r) [0..<MATRIX_COLS cf] st) [0..<n] (s\<lparr>counters_need_update := False\<rparr>, c) = st"
    by (simp add: st_def update_and_transfer_def)
  have "keys_sized n (MATRIX_COLS cf) st \<and>
      (\<forall>k \<in> {..<n} \<times> {..<MATRIX_COLS cf}. key_cell st k = defer_upd e (raw_bit raw k) (key_cell (s, c) k)) \<and>
      loop_flags (key_cell (s, c)) (key_cell st) snd cell_runs ({..<n} \<times> {..<MATRIX_COLS cf}) s (fst st) \<and>
      (matrix_need_update (fst st) \<longleftrightarrow> (\<exists>k \<in> {..<n} \<times> {..<MATRIX_COLS cf}. False))"
    by (rule keys_update [where g = "\<lambda>k. defer_upd e (raw_bit raw k)" and M = "\<lambda>_ _. False", OF _ assms(1) _ _ _ _ _ run])
      (use assms(1,2) in \<open>simp_all add: raw_bit_def expire_key_steps\<close>)
  then show ?thesis
    by blast
qed

lemma defer_pk_transfer:
  fixes c raw :: "'r::len matrix" and cf :: debounce_config
  assumes "keys_sized n (MATRIX_COLS cf) (s, c)" "\<not> matrix_need_update s"
    and "(\<exists>k \<in> {..<n} \<times> {..<MATRIX_COLS cf}. cell_runs (key_cell (s, c) k)) \<longrightarrow> counters_need_update s"
  defines "st \<equiv> start_debounce_counters cf raw (s, c)"
  shows "(keys_sized n (MATRIX_COLS cf) st \<and> \<not> matrix_need_update (fst st)) \<and>
    (\<forall>k \<in> {..<n} \<times> {..<MATRIX_COLS cf}. key_cell st k = defer_tr (DEBOUNCE_8 cf) (raw_bit raw k) (key_cell (s, c) k)) \<and>
    loop_flags (key_cell (s, c)) (key_cell st) snd cell_runs ({..<n} \<times> {..<MATRIX_COLS cf}) s (fst st) \<and>
    \<not> matrix_need_update (fst st)"
proof -
  have "length c = n"
    using assms(1) by (simp add: keys_sized_def)
  then have run: "fold (\<lambda>r st. fold (start_key cf r (raw ! r XOR snd st ! r)) [0..<MATRIX_COLS cf] st) [0..<n] (s, c) = st"
    by (simp add: st_def start_debounce_counters_def)
  have new: "cell_runs (defer_tr (DEBOUNCE_8 cf) v cell) \<Longrightarrow> cell_runs cell \<or> snd cell \<noteq> v \<and> fst cell = 0" for v cell
    by (auto simp: cell_runs_def defer_tr_def split: if_splits)
  have "keys_sized n (MATRIX_COLS cf) st \<and>
      (\<forall>k \<in> {..<n} \<times> {..<MATRIX_COLS cf}. key_cell st k = defer_tr (DEBOUNCE_8 cf) (raw_bit raw k) (key_cell (s, c) k)) \<and>
      loop_flags (key_cell (s, c)) (key_cell st) snd cell_runs ({..<n} \<times> {..<MATRIX_COLS cf}) s (fst st) \<and>
      \<not> matrix_need_update (fst st)"
    by (rule keys_transfer [where g = "\<lambda>k. defer_tr (DEBOUNCE_8 cf) (raw_bit raw k)" and
          N = "\<lambda>k cell. snd cell \<noteq> raw_bit raw k \<and> fst cell = 0" and raw = raw,
          OF start_key_steps new assms(1) _ _ _ _ assms(2,3) run]) (use assms(1) in simp_all)
  then show ?thesis
    by blast
qed

lemma sym_defer_pk_cellwise:
  assumes "DEBOUNCE cf \<noteq> 0"
  shows "exact_cellwise (defer_cell (DEBOUNCE_8 cf)) snd (defer_cell_inv (DEBOUNCE_8 cf)) (\<lambda>raw. unat \<circ> fst) (2 ^ 32 - 1)
    (unat (DEBOUNCE_8 cf)) (debounce_sym_defer_pk cf :: u32 \<Rightarrow> 'r::len matrix \<Rightarrow> _) snd (keys_ok n (MATRIX_COLS cf))
    (keys_shape n (MATRIX_COLS cf) cell_runs) ({..<n} \<times> {..<MATRIX_COLS cf}) key_cell raw_bit"
proof -
  define d where "d = DEBOUNCE_8 cf"
  have eq: "defer_cell d = (\<lambda>e raw c. defer_tr d raw (defer_upd e raw c))"
    by (intro ext) (simp add: defer_cell_def)
  show ?thesis
    unfolding d_def [symmetric] eq
    by (rule keys_cellwise [where E = "\<lambda>s. \<not> matrix_need_update s" and expires = "\<lambda>_ _. False" and
          due = "\<lambda>changed s. changed" and upd = defer_upd and tr = "defer_tr d" and
          update = "update_and_transfer cf" and transfer = "start_debounce_counters cf",
          OF defer_cell_machine [of d, unfolded eq] _ defer_pk_update defer_pk_transfer [of n cf, folded d_def]])
      (use assms in \<open>simp_all add: defer_idle debounce_sym_defer_pk_def\<close>)
qed

lemma transfer_rows_in:
  assumes "length (snd st) = n" "\<forall>row \<in> set rows. row < n"
  shows "fold (transfer_keys_of_row cf raw) rows st =
    fold (\<lambda>r st. fold (transfer_key_in cf r (raw ! r XOR snd st ! r)) [0..<MATRIX_COLS cf] st) rows st"
  using assms
proof (induction rows arbitrary: st)
  case (Cons row rows)
  obtain s c where st: "st = (s, c)"
    by (cases st)
  have row: "transfer_keys_of_row cf raw row (s, c) =
      fold (transfer_key_in cf row (raw ! row XOR c ! row)) [0..<MATRIX_COLS cf] (s, c)"
    using Cons.prems transfer_keys_in [of row c] by (simp add: st transfer_keys_of_row_def Let_def)
  have "length (snd (transfer_keys_of_row cf raw row (s, c))) = n"
    using Cons.prems by (simp add: st transfer_keys_of_row_def Let_def split_beta)
  then show ?case
    using Cons by (simp add: st row)
qed simp

lemma eager_pk_update:
  fixes c raw :: "'r::len matrix" and e :: u8 and cf :: debounce_config
  assumes "keys_sized n (MATRIX_COLS cf) (s, c)" "True"
  defines "st \<equiv> update_debounce_counters cf e (s, c)"
  shows "(keys_sized n (MATRIX_COLS cf) st \<and> True) \<and>
    (\<forall>k \<in> {..<n} \<times> {..<MATRIX_COLS cf}. key_cell st k = eager_upd e (raw_bit raw k) (key_cell (s, c) k)) \<and>
    loop_flags (key_cell (s, c)) (key_cell st) snd cell_runs ({..<n} \<times> {..<MATRIX_COLS cf}) s (fst st) \<and>
    (matrix_need_update (fst st) \<longleftrightarrow> (\<exists>k \<in> {..<n} \<times> {..<MATRIX_COLS cf}. cell_expires e (key_cell (s, c) k)))"
proof -
  have "length c = n"
    using assms(1) by (simp add: keys_sized_def)
  then have run: "fold (\<lambda>r st. fold (update_key e r) [0..<MATRIX_COLS cf] st) [0..<n]
      (s\<lparr>counters_need_update := False, matrix_need_update := False\<rparr>, c) = st"
    by (simp add: st_def update_debounce_counters_def)
  show ?thesis
    unfolding simp_thms
    by (rule keys_update [where g = "\<lambda>k. eager_upd e (raw_bit raw k)" and M = "\<lambda>_. cell_expires e", OF _ assms(1) _ _ _ _ _ run])
      (use assms(1) in \<open>simp_all add: update_key_steps\<close>)
qed

lemma eager_pk_transfer:
  fixes c raw :: "'r::len matrix" and cf :: debounce_config
  assumes "keys_sized n (MATRIX_COLS cf) (s, c)" "True"
    and "(\<exists>k \<in> {..<n} \<times> {..<MATRIX_COLS cf}. cell_runs (key_cell (s, c) k)) \<longrightarrow> counters_need_update s"
  defines "st \<equiv> transfer_matrix_values cf raw (s, c)"
  shows "(keys_sized n (MATRIX_COLS cf) st \<and> True) \<and>
    (\<forall>k \<in> {..<n} \<times> {..<MATRIX_COLS cf}. key_cell st k = eager_tr (DEBOUNCE_8 cf) (raw_bit raw k) (key_cell (s, c) k)) \<and>
    loop_flags (key_cell (s, c)) (key_cell st) snd cell_runs ({..<n} \<times> {..<MATRIX_COLS cf}) s (fst st) \<and>
    \<not> matrix_need_update (fst st)"
proof -
  have "length c = n"
    using assms(1) by (simp add: keys_sized_def)
  then have run: "fold (\<lambda>r st. fold (transfer_key_in cf r (raw ! r XOR snd st ! r)) [0..<MATRIX_COLS cf] st) [0..<n]
      (s\<lparr>matrix_need_update := False\<rparr>, c) = st"
    using transfer_rows_in [of "(s\<lparr>matrix_need_update := False\<rparr>, c)" n "[0..<n]" cf raw]
    by (simp add: st_def transfer_matrix_values_def)
  have new: "cell_runs (eager_tr (DEBOUNCE_8 cf) v cell) \<Longrightarrow> cell_runs cell \<or> snd cell \<noteq> v \<and> fst cell = 0" for v cell
    by (auto simp: cell_runs_def eager_tr_def split: if_splits)
  show ?thesis
    unfolding simp_thms
    by (rule keys_transfer [where g = "\<lambda>k. eager_tr (DEBOUNCE_8 cf) (raw_bit raw k)" and
          N = "\<lambda>k cell. snd cell \<noteq> raw_bit raw k \<and> fst cell = 0" and raw = raw,
          OF transfer_key_steps new assms(1) _ _ _ _ _ _ run]) (use assms(1,3) in simp_all)
qed

lemma sym_eager_pk_cellwise:
  assumes "DEBOUNCE cf \<noteq> 0"
  shows "exact_cellwise (eager_cell (DEBOUNCE_8 cf)) snd (eager_cell_inv (DEBOUNCE_8 cf)) (\<lambda>raw. unat \<circ> fst) (2 ^ 32 - 1)
    (unat (DEBOUNCE_8 cf)) (debounce_sym_eager_pk cf :: u32 \<Rightarrow> 'r::len matrix \<Rightarrow> _) snd (keys_ok n (MATRIX_COLS cf))
    (keys_shape n (MATRIX_COLS cf) cell_runs) ({..<n} \<times> {..<MATRIX_COLS cf}) key_cell raw_bit"
proof -
  define d where "d = DEBOUNCE_8 cf"
  have eq: "eager_cell d = (\<lambda>e raw c. eager_tr d raw (eager_upd e raw c))"
    by (intro ext) (simp add: eager_cell_def)
  show ?thesis
    unfolding d_def [symmetric] eq
    by (rule keys_cellwise [where E = "\<lambda>_. True" and expires = cell_expires and
          due = "\<lambda>changed s. changed \<or> matrix_need_update s" and upd = eager_upd and tr = "eager_tr d" and
          update = "\<lambda>_. update_debounce_counters cf" and transfer = "transfer_matrix_values cf",
          OF eager_cell_machine [of d, unfolded eq] _ eager_pk_update eager_pk_transfer [of n cf, folded d_def]])
      (use assms in \<open>simp_all add: eager_idle debounce_sym_eager_pk_def\<close>)
qed

lemma asym_pk_update:
  fixes c raw :: "'r::len matrix" and e :: u8 and cf :: debounce_config
  assumes "keys_sized n (MATRIX_COLS cf) (s, c)" "True"
  defines "st \<equiv> update_and_transfer_asym cf raw e (s, c)"
  shows "(keys_sized n (MATRIX_COLS cf) st \<and> True) \<and>
    (\<forall>k \<in> {..<n} \<times> {..<MATRIX_COLS cf}. key_cell st k = asym_upd e (raw_bit raw k) (key_cell (s, c) k)) \<and>
    loop_flags (key_cell (s, c)) (key_cell st) snd asym_runs ({..<n} \<times> {..<MATRIX_COLS cf}) s (fst st) \<and>
    (matrix_need_update (fst st) \<longleftrightarrow> (\<exists>k \<in> {..<n} \<times> {..<MATRIX_COLS cf}. asym_expires e (key_cell (s, c) k)))"
proof -
  have "length c = n"
    using assms(1) by (simp add: keys_sized_def)
  then have run: "fold (\<lambda>r st. fold (expire_key_asym raw e r) [0..<MATRIX_COLS cf] st) [0..<n]
      (s\<lparr>counters_need_update := False, matrix_need_update := False\<rparr>, c) = st"
    by (simp add: st_def update_and_transfer_asym_def)
  show ?thesis
    unfolding simp_thms
    by (rule keys_update [where g = "\<lambda>k. asym_upd e (raw_bit raw k)" and M = "\<lambda>_. asym_expires e", OF _ assms(1) _ _ _ _ _ run])
      (use assms(1) in \<open>simp_all add: raw_bit_def expire_key_asym_steps\<close>)
qed

lemma asym_pk_transfer:
  fixes c raw :: "'r::len matrix" and cf :: debounce_config
  assumes "keys_sized n (MATRIX_COLS cf) (s, c)" "True"
    and "(\<exists>k \<in> {..<n} \<times> {..<MATRIX_COLS cf}. asym_runs (key_cell (s, c) k)) \<longrightarrow> counters_need_update s"
  defines "st \<equiv> transfer_matrix_values_asym cf raw (s, c)"
  shows "(keys_sized n (MATRIX_COLS cf) st \<and> True) \<and>
    (\<forall>k \<in> {..<n} \<times> {..<MATRIX_COLS cf}. key_cell st k = asym_tr (DEBOUNCE_7 cf) (raw_bit raw k) (key_cell (s, c) k)) \<and>
    loop_flags (key_cell (s, c)) (key_cell st) snd asym_runs ({..<n} \<times> {..<MATRIX_COLS cf}) s (fst st) \<and>
    \<not> matrix_need_update (fst st)"
proof -
  have "length c = n"
    using assms(1) by (simp add: keys_sized_def)
  then have run: "fold (\<lambda>r st. fold (transfer_key_asym cf raw r (raw ! r XOR snd st ! r)) [0..<MATRIX_COLS cf] st) [0..<n]
      (s\<lparr>matrix_need_update := False\<rparr>, c) = st"
    by (simp add: st_def transfer_matrix_values_asym_def)
  have step: "steps_key n (MATRIX_COLS cf) (r, col) (asym_tr (DEBOUNCE_7 cf) (raw_bit raw (r, col)))
      (\<lambda>cell. snd cell \<noteq> raw_bit raw (r, col) \<and> time (fst cell) = 0) (\<lambda>_. False) (s, ck)
      (transfer_key_asym cf raw r delta col (s, ck))"
    if "r < n" "col < MATRIX_COLS cf" "keys_sized n (MATRIX_COLS cf) (s, ck)" "bit delta col \<longleftrightarrow> bit (ck ! r) col \<noteq> raw_bit raw (r, col)"
    for r col delta s and ck :: "'r matrix"
    using transfer_key_asym_steps [OF that(3,1,2), of delta raw cf] that(4) by (simp add: raw_bit_def)
  have new: "asym_runs (asym_tr (DEBOUNCE_7 cf) v cell) \<Longrightarrow> asym_runs cell \<or> snd cell \<noteq> v \<and> time (fst cell) = 0" for v cell
    by (auto simp: asym_runs_def asym_tr_def split: if_splits prod.splits)
  show ?thesis
    unfolding simp_thms
    by (rule keys_transfer [where g = "\<lambda>k. asym_tr (DEBOUNCE_7 cf) (raw_bit raw k)" and
          N = "\<lambda>k cell. snd cell \<noteq> raw_bit raw k \<and> time (fst cell) = 0" and raw = raw,
          OF step new assms(1) _ _ _ _ _ _ run]) (use assms(1,3) in simp_all)
qed

lemma asym_eager_defer_pk_cellwise:
  assumes "DEBOUNCE cf \<noteq> 0" "G < 2 ^ 32"
  shows "exact_cellwise (asym_cell (DEBOUNCE_7 cf)) snd (asym_cell_inv (DEBOUNCE_7 cf))
    (asym_cell_wait (DEBOUNCE_7 cf) G) G (2 * unat (DEBOUNCE_7 cf) + G)
    (debounce_asym_eager_defer_pk cf :: u32 \<Rightarrow> 'r::len matrix \<Rightarrow> _) snd (keys_ok n (MATRIX_COLS cf))
    (keys_shape n (MATRIX_COLS cf) asym_runs) ({..<n} \<times> {..<MATRIX_COLS cf}) key_cell raw_bit"
proof -
  define d where "d = DEBOUNCE_7 cf"
  have eq: "asym_cell d = (\<lambda>e raw c. asym_tr d raw (asym_upd e raw c))"
    by (intro ext) (simp add: asym_cell_def)
  show ?thesis
    unfolding d_def [symmetric] eq
    by (rule keys_cellwise [where E = "\<lambda>_. True" and expires = asym_expires and
          due = "\<lambda>changed s. changed \<or> matrix_need_update s" and upd = asym_upd and tr = "asym_tr d" and
          update = "update_and_transfer_asym cf" and transfer = "transfer_matrix_values_asym cf",
          OF asym_cell_machine [of d, unfolded eq] _ asym_pk_update asym_pk_transfer [of n cf, folded d_def]])
      (use assms in \<open>simp_all add: asym_idle debounce_asym_eager_defer_pk_def\<close>)
qed

text \<open>At the start no counter runs and no key is pressed.\<close>

lemma keys_start:
  assumes "DEBOUNCE cf \<noteq> 0"
  shows "cellwise.cells_inv (defer_cell_inv (DEBOUNCE_8 cf)) (keys_ok n (MATRIX_COLS cf))
      (keys_shape n (MATRIX_COLS cf) cell_runs) ({..<n} \<times> {..<MATRIX_COLS cf}) key_cell raw_bit now
      (replicate n 0 :: 'r::len matrix) (debounce_init_pk cf n, replicate n 0 :: 'r matrix)"
    and "cellwise.cells_inv (eager_cell_inv (DEBOUNCE_8 cf)) (keys_ok n (MATRIX_COLS cf))
      (keys_shape n (MATRIX_COLS cf) cell_runs) ({..<n} \<times> {..<MATRIX_COLS cf}) key_cell raw_bit now
      (replicate n 0 :: 'r::len matrix) (debounce_init_pk cf n, replicate n 0 :: 'r matrix)"
    and "cellwise.cells_inv (asym_cell_inv (DEBOUNCE_7 cf)) (keys_ok n (MATRIX_COLS cf))
      (keys_shape n (MATRIX_COLS cf) asym_runs) ({..<n} \<times> {..<MATRIX_COLS cf}) key_cell raw_bit now
      (replicate n 0 :: 'r::len matrix) (debounce_init_asym cf junk n, replicate n 0 :: 'r matrix)"
proof -
  have nz: "DEBOUNCE_8 cf \<noteq> 0" "DEBOUNCE_7 cf \<noteq> 0"
    using assms by (simp_all add: DEBOUNCE_8_def DEBOUNCE_7_def word_unat_eq_iff unat_of_nat)
  note defs = keys_shape_def keys_ok_def keys_sized_def key_cell_def cell_runs_def asym_runs_def raw_bit_def
    debounce_init_pk_def debounce_init_asym_def
  note inv = cellwise.cells_inv_def [OF exact_cellwise.axioms(1)]
  show "cellwise.cells_inv (defer_cell_inv (DEBOUNCE_8 cf)) (keys_ok n (MATRIX_COLS cf))
      (keys_shape n (MATRIX_COLS cf) cell_runs) ({..<n} \<times> {..<MATRIX_COLS cf}) key_cell raw_bit now
      (replicate n 0 :: 'r matrix) (debounce_init_pk cf n, replicate n 0 :: 'r matrix)"
    using nz by (simp add: inv [OF sym_defer_pk_cellwise [OF assms]] defs defer_cell_inv_def)
  show "cellwise.cells_inv (eager_cell_inv (DEBOUNCE_8 cf)) (keys_ok n (MATRIX_COLS cf))
      (keys_shape n (MATRIX_COLS cf) cell_runs) ({..<n} \<times> {..<MATRIX_COLS cf}) key_cell raw_bit now
      (replicate n 0 :: 'r matrix) (debounce_init_pk cf n, replicate n 0 :: 'r matrix)"
    using nz by (simp add: inv [OF sym_eager_pk_cellwise [OF assms]] defs eager_cell_inv_def)
  show "cellwise.cells_inv (asym_cell_inv (DEBOUNCE_7 cf)) (keys_ok n (MATRIX_COLS cf))
      (keys_shape n (MATRIX_COLS cf) asym_runs) ({..<n} \<times> {..<MATRIX_COLS cf}) key_cell raw_bit now
      (replicate n 0 :: 'r matrix) (debounce_init_asym cf junk n, replicate n 0 :: 'r matrix)"
    using nz by (simp add: inv [OF asym_eager_defer_pk_cellwise [OF assms, of 0, simplified]] defs asym_cell_inv_def)
qed

end
