(* ===== verification/Debouncing.thy ===== *)
theory Debouncing
  imports DebounceKeys
begin

text \<open>
  The debounce algorithms keep their contract from power-up: the interpretations of the locales for a board, and the
  properties, for every board.  \<open>matrix_init\<close> (matrix.c) clears both matrices before \<open>debounce_init\<close>.
\<close>

section \<open>Power-up\<close>

definition debounce_init_g :: debounce_g where
  "debounce_init_g = \<lparr>debouncing = False, debouncing_time = 0\<rparr>"

definition matrix_start :: "nat \<Rightarrow> 'r::len matrix" where
  "matrix_start num_rows = replicate num_rows 0"

lemma defer_g_start:
  "DEBOUNCE cf \<le> 2 ^ 31 \<Longrightarrow> defer_g_inv cf n now (matrix_start n) (debounce_init_g, matrix_start n :: 'r::len matrix)"
  by (simp add: defer_g_inv_def rows_ok_def matrix_start_def)

lemma of_nat_8_eq_0: "(of_nat k :: u8) = 0 \<longleftrightarrow> k mod 256 = 0"
  by (simp add: word_unat_eq_iff unat_of_nat)

lemma defer_pr_start:
  "DEBOUNCE cf mod 256 \<noteq> 0 \<Longrightarrow> defer_pr_inv cf n now (matrix_start n) (debounce_init_pr now n, matrix_start n :: 'r::len matrix)"
  by (simp add: defer_pr_inv_def rows_ok_def matrix_start_def pr_sized_def debounce_init_pr_def of_nat_8_eq_0 mod_eq_0_iff_dvd)

interpretation defer_g: exact_debouncer "debounce_sym_defer_g cf" snd "rows_ok n" "defer_g_inv cf n" "defer_g_settles_in cf"
    "2 ^ 31 - 1" "DEBOUNCE cf" for cf n
  by (rule sym_defer_g_debouncer)

interpretation defer_pr: exact_debouncer "debounce_sym_defer_pr cf" snd "rows_ok n" "defer_pr_inv cf n"
    "defer_pr_settles_in n" 65535 "unat (of_nat (DEBOUNCE cf) :: u8)" for cf n
  by (rule sym_defer_pr_debouncer)

section \<open>A board of eight rows of six keys, with the default debounce time\<close>

definition board :: debounce_config where
  "board = \<lparr>DEBOUNCE = 5, MATRIX_COLS = 6\<rparr>"

lemma board_debounce: "DEBOUNCE board \<noteq> 0" "0 < DEBOUNCE board" "DEBOUNCE board \<le> 255"
  by (simp_all add: board_def)

interpretation eager_pr: cellwise "eager_cell (DEBOUNCE_8 board)" snd "eager_cell_inv (DEBOUNCE_8 board)" "\<lambda>raw. unat \<circ> fst"
    "2 ^ 32 - 1" "unat (DEBOUNCE_8 board)" "debounce_sym_eager_pr board :: u32 \<Rightarrow> 8 matrix \<Rightarrow> _" snd "rows_ok 8"
    "eager_pr_shape 8" "{..<8}" row_cell "\<lambda>raw k. raw ! k"
  by (rule sym_eager_pr_cellwise [OF board_debounce(1)])

interpretation defer_pk: exact_cellwise "defer_cell (DEBOUNCE_8 board)" snd "defer_cell_inv (DEBOUNCE_8 board)" "\<lambda>raw. unat \<circ> fst"
    "2 ^ 32 - 1" "unat (DEBOUNCE_8 board)" "debounce_sym_defer_pk board :: u32 \<Rightarrow> 8 matrix \<Rightarrow> _" snd
    "keys_ok 8 (MATRIX_COLS board)" "keys_shape 8 (MATRIX_COLS board) cell_runs" "{..<8} \<times> {..<MATRIX_COLS board}"
    key_cell raw_bit
  by (rule sym_defer_pk_cellwise [OF board_debounce(1)])

interpretation eager_pk: exact_cellwise "eager_cell (DEBOUNCE_8 board)" snd "eager_cell_inv (DEBOUNCE_8 board)" "\<lambda>raw. unat \<circ> fst"
    "2 ^ 32 - 1" "unat (DEBOUNCE_8 board)" "debounce_sym_eager_pk board :: u32 \<Rightarrow> 8 matrix \<Rightarrow> _" snd
    "keys_ok 8 (MATRIX_COLS board)" "keys_shape 8 (MATRIX_COLS board) cell_runs" "{..<8} \<times> {..<MATRIX_COLS board}"
    key_cell raw_bit
  by (rule sym_eager_pk_cellwise [OF board_debounce(1)])

interpretation asym: exact_cellwise "asym_cell (DEBOUNCE_7 board)" snd "asym_cell_inv (DEBOUNCE_7 board)"
    "asym_cell_wait (DEBOUNCE_7 board) 65535" 65535 "2 * unat (DEBOUNCE_7 board) + 65535"
    "debounce_asym_eager_defer_pk board :: u32 \<Rightarrow> 8 matrix \<Rightarrow> _" snd
    "keys_ok 8 (MATRIX_COLS board)" "keys_shape 8 (MATRIX_COLS board) asym_runs" "{..<8} \<times> {..<MATRIX_COLS board}"
    key_cell raw_bit
  by (rule asym_eager_defer_pk_cellwise [OF board_debounce(1)]) simp

section \<open>The contract of every algorithm\<close>

text \<open>From the locale predicates to the contract on power-up, with any board.\<close>

lemma keys_ok_rows: "keys_ok n cols raw \<Longrightarrow> rows_ok n raw"
  by (simp add: keys_ok_def rows_ok_def)

lemma keys_ok_eval: "keys_ok n cols raw \<longleftrightarrow> length raw = n \<and> (\<forall>w \<in> set raw. take_bit cols w = w)"
proof -
  have "take_bit cols w = w \<longleftrightarrow> (\<forall>c \<ge> cols. \<not> bit w c)" for w :: "'a word"
    by (simp add: bit_word_eqI_iff bit_take_bit_iff not_less) (meson bit_imp_le_length leD leI)
  then show ?thesis
    by (auto simp: keys_ok_def all_set_conv_all_nth)
qed

lemma valid_scans_mono:
  "valid_scans ok G scans \<Longrightarrow> (\<And>raw. ok raw \<Longrightarrow> ok' raw) \<Longrightarrow> G \<le> G' \<Longrightarrow> valid_scans ok' G' scans"
  by (force simp: valid_scans_def)

lemma unat_DEBOUNCE: "unat (DEBOUNCE_8 cf) \<le> DEBOUNCE cf" "unat (DEBOUNCE_7 cf) \<le> DEBOUNCE cf"
  "unat (of_nat (DEBOUNCE cf) :: u8) \<le> DEBOUNCE cf"
  by (simp_all add: DEBOUNCE_8_def DEBOUNCE_7_def unat_of_nat)

lemma start_inv:
  assumes "DEBOUNCE cf \<noteq> 0"
  shows "cellwise.cells_inv (eager_cell_inv (DEBOUNCE_8 cf)) (rows_ok n) (eager_pr_shape n) {..<n} row_cell (\<lambda>raw k. raw ! k)
      now (matrix_start n :: 'r::len matrix) (debounce_init_pr_eager n, matrix_start n :: 'r matrix)"
    and "cellwise.cells_inv (defer_cell_inv (DEBOUNCE_8 cf)) (keys_ok n (MATRIX_COLS cf))
      (keys_shape n (MATRIX_COLS cf) cell_runs) ({..<n} \<times> {..<MATRIX_COLS cf}) key_cell raw_bit now
      (matrix_start n :: 'r matrix) (debounce_init_pk cf n, matrix_start n :: 'r matrix)"
    and "cellwise.cells_inv (eager_cell_inv (DEBOUNCE_8 cf)) (keys_ok n (MATRIX_COLS cf))
      (keys_shape n (MATRIX_COLS cf) cell_runs) ({..<n} \<times> {..<MATRIX_COLS cf}) key_cell raw_bit now
      (matrix_start n :: 'r matrix) (debounce_init_pk cf n, matrix_start n :: 'r matrix)"
    and "cellwise.cells_inv (asym_cell_inv (DEBOUNCE_7 cf)) (keys_ok n (MATRIX_COLS cf))
      (keys_shape n (MATRIX_COLS cf) asym_runs) ({..<n} \<times> {..<MATRIX_COLS cf}) key_cell raw_bit now
      (matrix_start n :: 'r matrix) (debounce_init_asym cf junk n, matrix_start n :: 'r matrix)"
  unfolding matrix_start_def by (rule sym_eager_pr_start [OF assms] keys_start [OF assms])+

lemmas machines = cellwise.cells_debouncer [OF sym_eager_pr_cellwise]
  cellwise.cells_debouncer [OF exact_cellwise.axioms(1) [OF sym_defer_pk_cellwise]]
  cellwise.cells_debouncer [OF exact_cellwise.axioms(1) [OF sym_eager_pk_cellwise]]
  cellwise.cells_debouncer [OF exact_cellwise.axioms(1) [OF asym_eager_defer_pk_cellwise]]

lemma algorithms_settle:
  fixes scans :: "(nat \<times> 'r::len matrix) list"
  assumes cf: "0 < DEBOUNCE cf" "DEBOUNCE cf \<le> 255"
    and scans: "valid_scans (keys_ok n (MATRIX_COLS cf)) 65535 scans"
    and gaps: "\<forall>gap \<in> set gaps. gap \<le> 65535" "DEBOUNCE cf \<le> sum_list gaps"
  defines "raw \<equiv> final_raw (matrix_start n) scans"
  defines "rest \<equiv> map (\<lambda>gap. (gap, raw)) gaps"
  shows "snd (scan_loop (debounce_sym_defer_g cf) now (matrix_start n) (scans @ rest) (debounce_init_g, matrix_start n)) = raw \<and>
    snd (scan_loop (debounce_sym_defer_pr cf) now (matrix_start n) (scans @ rest) (debounce_init_pr now n, matrix_start n)) = raw \<and>
    snd (scan_loop (debounce_sym_eager_pr cf) now (matrix_start n) (scans @ rest) (debounce_init_pr_eager n, matrix_start n)) = raw \<and>
    snd (scan_loop (debounce_sym_defer_pk cf) now (matrix_start n) (scans @ rest) (debounce_init_pk cf n, matrix_start n)) = raw \<and>
    snd (scan_loop (debounce_sym_eager_pk cf) now (matrix_start n) (scans @ rest) (debounce_init_pk cf n, matrix_start n)) = raw \<and>
    (\<forall>G. (\<forall>(gap, _) \<in> set (scans @ rest). gap \<le> G) \<and> G \<le> 65535 \<and> 2 * DEBOUNCE cf + G \<le> sum_list gaps \<longrightarrow>
      snd (scan_loop (debounce_asym_eager_defer_pk cf) now (matrix_start n) (scans @ rest)
        (debounce_init_asym cf junk n, matrix_start n)) = raw)"
proof -
  have cf': "DEBOUNCE cf \<noteq> 0" "DEBOUNCE cf mod 256 \<noteq> 0" "DEBOUNCE cf \<le> 2 ^ 31"
    using cf by simp_all
  have valid: "valid_scans (rows_ok n) G scans" "valid_scans (keys_ok n (MATRIX_COLS cf)) G scans" "\<forall>gap \<in> set gaps. gap \<le> G"
    if "65535 \<le> G" for G
  proof -
    show "valid_scans (rows_ok n) G scans" "valid_scans (keys_ok n (MATRIX_COLS cf)) G scans"
      by (rule valid_scans_mono [OF scans _ that], simp add: keys_ok_rows)+
    show "\<forall>gap \<in> set gaps. gap \<le> G"
      using gaps(1) that by force
  qed
  have D: "unat (DEBOUNCE_8 cf) \<le> sum_list gaps" "unat (of_nat (DEBOUNCE cf) :: u8) \<le> sum_list gaps"
    using unat_DEBOUNCE [of cf] gaps(2) by linarith+
  have g: "snd (scan_loop (debounce_sym_defer_g cf) now (matrix_start n) (scans @ rest) (debounce_init_g, matrix_start n)) = raw"
    unfolding rest_def raw_def by (rule defer_g.settled [OF defer_g_start [OF cf'(3)] valid(1,3) gaps(2)]) simp_all
  have pr: "snd (scan_loop (debounce_sym_defer_pr cf) now (matrix_start n) (scans @ rest) (debounce_init_pr now n, matrix_start n)) = raw"
    unfolding rest_def raw_def by (rule defer_pr.settled [OF defer_pr_start [OF cf'(2)] valid(1,3) D(2)]) simp_all
  have epr: "snd (scan_loop (debounce_sym_eager_pr cf) now (matrix_start n) (scans @ rest) (debounce_init_pr_eager n, matrix_start n)) = raw"
    unfolding rest_def raw_def
    by (rule debouncer.settled [OF machines(1) [OF cf'(1)] start_inv(1) [OF cf'(1)] valid(1,3) D(1)]) simp_all
  have dpk: "snd (scan_loop (debounce_sym_defer_pk cf) now (matrix_start n) (scans @ rest) (debounce_init_pk cf n, matrix_start n)) = raw"
    unfolding rest_def raw_def
    by (rule debouncer.settled [OF machines(2) [OF cf'(1)] start_inv(2) [OF cf'(1)] valid(2,3) D(1)]) simp_all
  have epk: "snd (scan_loop (debounce_sym_eager_pk cf) now (matrix_start n) (scans @ rest) (debounce_init_pk cf n, matrix_start n)) = raw"
    unfolding rest_def raw_def
    by (rule debouncer.settled [OF machines(3) [OF cf'(1)] start_inv(3) [OF cf'(1)] valid(2,3) D(1)]) simp_all
  have asym: "snd (scan_loop (debounce_asym_eager_defer_pk cf) now (matrix_start n) (scans @ rest)
      (debounce_init_asym cf junk n, matrix_start n)) = raw"
    if "\<forall>(gap, _) \<in> set (scans @ rest). gap \<le> G" "G \<le> 65535" "2 * DEBOUNCE cf + G \<le> sum_list gaps" for G
  proof -
    have "valid_scans (keys_ok n (MATRIX_COLS cf)) G scans" "\<forall>gap \<in> set gaps. gap \<le> G" "G < 2 ^ 32"
      "2 * unat (DEBOUNCE_7 cf) + G \<le> sum_list gaps"
      using that scans unat_DEBOUNCE(2) [of cf] by (auto simp: valid_scans_def rest_def)
    then show ?thesis
      unfolding rest_def raw_def by (intro debouncer.settled [OF machines(4) [OF cf'(1)] start_inv(4) [OF cf'(1)]])
  qed
  show ?thesis
    using g pr epr dpk epk asym by blast
qed

text \<open>
  (C10)
  Every algorithm settles: from power-up, after any scans, once the raw matrix stays the same for the debounce time
  it is the cooked matrix, the matrix that the rest of the firmware sees.  The asymmetric algorithm may need twice the
  debounce time and one more scan, because a release within the debounce time of a press is noticed late.
\<close>

theorem debounce_settles:
  fixes scans :: "(nat \<times> 'r::len matrix) list"
  assumes cf: "0 < DEBOUNCE cf" "DEBOUNCE cf \<le> 255"
    and scans: "valid_scans (keys_ok n (MATRIX_COLS cf)) 65535 scans"
    and gaps: "\<forall>gap \<in> set gaps. gap \<le> 65535" "DEBOUNCE cf \<le> sum_list gaps"
  defines "raw \<equiv> final_raw (matrix_start n) scans"
  defines "rest \<equiv> map (\<lambda>gap. (gap, raw)) gaps"
  shows "snd (scan_loop (debounce_sym_defer_g cf) now (matrix_start n) (scans @ rest) (debounce_init_g, matrix_start n)) = raw \<and>
    snd (scan_loop (debounce_sym_defer_pr cf) now (matrix_start n) (scans @ rest) (debounce_init_pr now n, matrix_start n)) = raw \<and>
    snd (scan_loop (debounce_sym_eager_pr cf) now (matrix_start n) (scans @ rest) (debounce_init_pr_eager n, matrix_start n)) = raw \<and>
    snd (scan_loop (debounce_sym_defer_pk cf) now (matrix_start n) (scans @ rest) (debounce_init_pk cf n, matrix_start n)) = raw \<and>
    snd (scan_loop (debounce_sym_eager_pk cf) now (matrix_start n) (scans @ rest) (debounce_init_pk cf n, matrix_start n)) = raw \<and>
    (\<forall>G. (\<forall>(gap, _) \<in> set (scans @ rest). gap \<le> G) \<and> G \<le> 65535 \<and> 2 * DEBOUNCE cf + G \<le> sum_list gaps \<longrightarrow>
      snd (scan_loop (debounce_asym_eager_defer_pk cf) now (matrix_start n) (scans @ rest)
        (debounce_init_asym cf junk n, matrix_start n)) = raw)"
  using algorithms_settle [OF cf scans gaps] unfolding rest_def raw_def .

theorem debounce_settles_witness:
  "let scans = [(1, [1, 0]), (1, [3, 0])] @ map (\<lambda>gap. (gap, [3, 0])) [3, 3, 3, 3, 3] :: (nat \<times> 8 matrix) list
   in snd (scan_loop (debounce_sym_defer_g board) 0 (matrix_start 2) scans (debounce_init_g, matrix_start 2)) = [3, 0] \<and>
     snd (scan_loop (debounce_sym_defer_pr board) 0 (matrix_start 2) scans (debounce_init_pr 0 2, matrix_start 2)) = [3, 0] \<and>
     snd (scan_loop (debounce_asym_eager_defer_pk board) 0 (matrix_start 2) scans (debounce_init_asym board True 2, matrix_start 2)) =
       [3, 0]"
proof -
  have gaps: "\<forall>gap \<in> set [3, 3, 3, 3, 3]. gap \<le> (65535 :: nat)" "DEBOUNCE board \<le> sum_list [3, 3, 3, 3, 3]"
    by (simp_all add: board_def)
  have valid: "valid_scans (keys_ok 2 (MATRIX_COLS board)) 65535 [(1, [1, 0]), (1, [3, 0 :: 8 word])]"
    by (simp add: valid_scans_def keys_ok_eval board_def)
  have raw: "final_raw (matrix_start 2) [(1, [1, 0]), (1, [3, 0 :: 8 word])] = [3, 0]"
    by (simp add: final_raw_def)
  have "(\<forall>(gap, _) \<in> set ([(1, [1, 0]), (1, [3, 0])] @ map (\<lambda>gap. (gap, [3, 0 :: 8 word])) [3, 3, 3, 3, 3]). gap \<le> (3 :: nat)) \<and>
      3 \<le> (65535 :: nat) \<and> 2 * DEBOUNCE board + 3 \<le> sum_list [3, 3, 3, 3, 3]"
    by (simp add: board_def)
  then show ?thesis
    using debounce_settles [OF board_debounce(2,3) valid gaps, unfolded raw, of 0 True] unfolding Let_def by blast
qed


text \<open>
  No algorithm invents a key event: from any point on, a key is reported in the state in which it was reported at that
  point or in a state in which one of the scans since then has read it.
\<close>

theorem debounce_follows_reads:
  fixes xs ys :: "(nat \<times> 'r::len matrix) list"
  assumes cf: "0 < DEBOUNCE cf" "DEBOUNCE cf \<le> 255"
    and scans: "valid_scans (keys_ok n (MATRIX_COLS cf)) 65535 (xs @ ys)" and r: "r < n"
  shows "follows_reads (debounce_sym_defer_g cf) snd now (matrix_start n) xs ys (debounce_init_g, matrix_start n) r c \<and>
    follows_reads (debounce_sym_defer_pr cf) snd now (matrix_start n) xs ys (debounce_init_pr now n, matrix_start n) r c \<and>
    follows_reads (debounce_sym_eager_pr cf) snd now (matrix_start n) xs ys (debounce_init_pr_eager n, matrix_start n) r c \<and>
    follows_reads (debounce_sym_defer_pk cf) snd now (matrix_start n) xs ys (debounce_init_pk cf n, matrix_start n) r c \<and>
    follows_reads (debounce_sym_eager_pk cf) snd now (matrix_start n) xs ys (debounce_init_pk cf n, matrix_start n) r c \<and>
    follows_reads (debounce_asym_eager_defer_pk cf) snd now (matrix_start n) xs ys (debounce_init_asym cf junk n, matrix_start n) r c"
proof -
  have cf': "DEBOUNCE cf \<noteq> 0" "DEBOUNCE cf mod 256 \<noteq> 0" "DEBOUNCE cf \<le> 2 ^ 31"
    using cf by simp_all
  have r': "r < length (matrix_start n :: 'r matrix)"
    using r by (simp add: matrix_start_def)
  have valid: "valid_scans (rows_ok n) G (xs @ ys)" "valid_scans (keys_ok n (MATRIX_COLS cf)) G (xs @ ys)" if "65535 \<le> G" for G
    by (rule valid_scans_mono [OF scans _ that], simp add: keys_ok_rows)+
  have "(65535 :: nat) < 2 ^ 32"
    by simp
  note asym = machines(4) [OF cf'(1) this]
  show ?thesis
    by (intro conjI defer_g.seen_since [OF defer_g_start [OF cf'(3)] valid(1) r'] defer_pr.seen_since [OF defer_pr_start [OF cf'(2)] valid(1) r']
        debouncer.seen_since [OF machines(1) [OF cf'(1)] start_inv(1) [OF cf'(1)] valid(1) r']
        debouncer.seen_since [OF machines(2) [OF cf'(1)] start_inv(2) [OF cf'(1)] valid(2) r']
        debouncer.seen_since [OF machines(3) [OF cf'(1)] start_inv(3) [OF cf'(1)] valid(2) r']
        debouncer.seen_since [OF asym start_inv(4) [OF cf'(1)] valid(2) r']) simp_all
qed

theorem debounce_follows_reads_witness:
  "follows_reads (debounce_sym_eager_pk board) snd 0 (matrix_start 2) [(1, [1, 0])] [(1, [3, 0]), (4, [2, 0 :: 8 word])]
     (debounce_init_pk board 2, matrix_start 2) 0 1"
proof -
  have "valid_scans (keys_ok 2 (MATRIX_COLS board)) 65535 ([(1, [1, 0])] @ [(1, [3, 0]), (4, [2, 0 :: 8 word])])"
    by (simp add: valid_scans_def keys_ok_eval board_def)
  note follows = debounce_follows_reads [OF board_debounce(2,3) this, of 0 0 1 True]
  show ?thesis
    using follows by simp
qed


text \<open>The per-row eager algorithm returns false from every call.\<close>

lemma sym_eager_pr_silent:
  assumes "DEBOUNCE cf \<noteq> 0" "valid_scans (rows_ok n) (2 ^ 32 - 1) scans"
  shows "scan_reports (debounce_sym_eager_pr cf) now (matrix_start n) scans (debounce_init_pr_eager n, matrix_start n) =
    scan_compare (\<lambda>_ _. False) (debounce_sym_eager_pr cf) now (matrix_start n :: 'r::len matrix) scans
      (debounce_init_pr_eager n, matrix_start n)"
proof (rule debouncer.reports_are [OF machines(1) [OF assms(1)] _ start_inv(1) [OF assms(1)] assms(2)])
  fix now gap :: nat and raw0 raw :: "'r matrix" and s s' :: "u8 debounce_state \<times> 'r matrix" and chg t
  assume "cellwise.cells_inv (eager_cell_inv (DEBOUNCE_8 cf)) (rows_ok n) (eager_pr_shape n) {..<n} row_cell (\<lambda>raw k. raw ! k)
      t raw0 s" "gap \<le> 2 ^ 32 - 1" "debounce_sym_eager_pr cf (t + of_nat gap) raw (raw \<noteq> raw0) s = (chg, s')"
  then show "chg \<longleftrightarrow> False"
    using eager_pr_call(3) [OF assms(1), of n t s raw0 gap raw chg s']
    by (simp add: cellwise.cells_inv_def [OF sym_eager_pr_cellwise [OF assms(1)]])
qed

lemma scan_compare_False: "True \<notin> set (scan_compare (\<lambda>_ _. False) deb now raw0 scans s)"
  by (induction deb now raw0 scans s rule: scan_loop.induct) (simp_all add: split_beta)

text \<open>
  (C26)
  The return value of debounce: five algorithms return true exactly when they have changed the cooked matrix; the per-row
  eager algorithm never returns true, whatever it changes.
\<close>

theorem debounce_reports:
  fixes scans :: "(nat \<times> 'r::len matrix) list"
  assumes cf: "0 < DEBOUNCE cf" "DEBOUNCE cf \<le> 255"
    and scans: "valid_scans (keys_ok n (MATRIX_COLS cf)) 65535 scans"
  shows "scan_reports (debounce_sym_defer_g cf) now (matrix_start n) scans (debounce_init_g, matrix_start n) =
      scan_changes snd (debounce_sym_defer_g cf) now (matrix_start n) scans (debounce_init_g, matrix_start n) \<and>
    scan_reports (debounce_sym_defer_pr cf) now (matrix_start n) scans (debounce_init_pr now n, matrix_start n) =
      scan_changes snd (debounce_sym_defer_pr cf) now (matrix_start n) scans (debounce_init_pr now n, matrix_start n) \<and>
    scan_reports (debounce_sym_defer_pk cf) now (matrix_start n) scans (debounce_init_pk cf n, matrix_start n) =
      scan_changes snd (debounce_sym_defer_pk cf) now (matrix_start n) scans (debounce_init_pk cf n, matrix_start n) \<and>
    scan_reports (debounce_sym_eager_pk cf) now (matrix_start n) scans (debounce_init_pk cf n, matrix_start n) =
      scan_changes snd (debounce_sym_eager_pk cf) now (matrix_start n) scans (debounce_init_pk cf n, matrix_start n) \<and>
    scan_reports (debounce_asym_eager_defer_pk cf) now (matrix_start n) scans (debounce_init_asym cf junk n, matrix_start n) =
      scan_changes snd (debounce_asym_eager_defer_pk cf) now (matrix_start n) scans (debounce_init_asym cf junk n, matrix_start n) \<and>
    True \<notin> set (scan_reports (debounce_sym_eager_pr cf) now (matrix_start n) scans (debounce_init_pr_eager n, matrix_start n))"
proof -
  have cf': "DEBOUNCE cf \<noteq> 0" "DEBOUNCE cf mod 256 \<noteq> 0" "DEBOUNCE cf \<le> 2 ^ 31"
    using cf by simp_all
  have valid: "valid_scans (rows_ok n) G scans" "valid_scans (keys_ok n (MATRIX_COLS cf)) G scans" if "65535 \<le> G" for G
    by (rule valid_scans_mono [OF scans _ that], simp add: keys_ok_rows)+
  have "(65535 :: nat) < 2 ^ 32"
    by simp
  note asym = asym_eager_defer_pk_cellwise [OF cf'(1) this]
  have "True \<notin> set (scan_reports (debounce_sym_eager_pr cf) now (matrix_start n) scans (debounce_init_pr_eager n, matrix_start n))"
    using scan_compare_False by (subst sym_eager_pr_silent [OF cf'(1) valid(1)]) simp_all
  then show ?thesis
    by (intro conjI
        defer_g.reports_changes [OF defer_g_start [OF cf'(3)] valid(1)] defer_pr.reports_changes [OF defer_pr_start [OF cf'(2)] valid(1)]
        exact_debouncer.reports_changes [OF exact_cellwise.exact_machine [OF sym_defer_pk_cellwise [OF cf'(1)]] start_inv(2) [OF cf'(1)] valid(2)]
        exact_debouncer.reports_changes [OF exact_cellwise.exact_machine [OF sym_eager_pk_cellwise [OF cf'(1)]] start_inv(3) [OF cf'(1)] valid(2)]
        exact_debouncer.reports_changes [OF exact_cellwise.exact_machine [OF asym] start_inv(4) [OF cf'(1)] valid(2)]) simp_all
qed

theorem debounce_reports_witness:
  "scan_reports (debounce_sym_defer_pk board) 0 (matrix_start 2) [(1, [1, 0]), (6, [1, 0 :: 8 word])]
     (debounce_init_pk board 2, matrix_start 2) =
   scan_changes snd (debounce_sym_defer_pk board) 0 (matrix_start 2) [(1, [1, 0]), (6, [1, 0 :: 8 word])]
     (debounce_init_pk board 2, matrix_start 2) \<and>
   True \<notin> set (scan_reports (debounce_sym_eager_pr board) 0 (matrix_start 2) [(1, [1, 0]), (6, [1, 0 :: 8 word])]
     (debounce_init_pr_eager 2, matrix_start 2))"
proof -
  have "valid_scans (keys_ok 2 (MATRIX_COLS board)) 65535 [(1, [1, 0]), (6, [1, 0 :: 8 word])]"
    by (simp add: valid_scans_def keys_ok_eval board_def)
  note reports = debounce_reports [OF board_debounce(2,3) this, of 0 True]
  show ?thesis
    using reports by blast
qed


text \<open>With no debounce time, or in the per-row deferred algorithm a multiple of 256.\<close>

lemma scan_loop_none:
  assumes "\<And>now raw chg s. snd (snd (deb now raw chg s)) = raw"
  shows "snd (scan_loop deb now raw0 scans s) = (if scans = [] then snd s else final_raw raw0 scans)"
  using assms by (induction deb now raw0 scans s rule: scan_loop.induct) (simp_all add: final_raw_def)

lemma scan_loop_stuck:
  assumes "DEBOUNCE cf mod 256 = 0" "pr_sized n s" "\<forall>row < n. countdowns (fst s) ! row = 0"
  shows "snd (scan_loop (debounce_sym_defer_pr cf) now raw0 scans s) = snd s"
  using assms(2,3)
proof (induction scans arbitrary: now raw0 s)
  case (Cons scan scans)
  obtain gap raw t c where scan: "scan = (gap, raw)" and s: "s = (t, c)"
    by (metis surj_pair)
  obtain chg t' c' where run: "debounce_sym_defer_pr cf (now + of_nat gap) raw (raw \<noteq> raw0) (t, c) = (chg, t', c')"
    by (metis prod_cases3)
  note rows = sym_defer_pr_rows [OF Cons.prems(1) [unfolded s] run]
  have row: "countdowns t' ! row = 0 \<and> c' ! row = c ! row" if "row < n" for row
    using rows(3) [OF that] Cons.prems(2) that assms(1) by (auto simp: pr_row_def pr_step_def s of_nat_8_eq_0 split: if_splits)
  have "c' = c"
    using row rows(1) Cons.prems(1) by (auto simp: list_eq_iff_nth_eq pr_sized_def s)
  then show ?case
    using Cons.IH [OF rows(1)] row by (simp add: scan s run)
qed simp

text \<open>
  A debounce time of zero: the cooked matrix is the raw matrix after every scan, but with the per-row deferred algorithm,
  which has no case for it, no key is ever reported.  The same holds there for every multiple of 256, because the counter
  has eight bits and is not clamped.
\<close>

theorem debounce_zero:
  fixes scans :: "(nat \<times> 'r::len matrix) list"
  shows "(DEBOUNCE cf = 0 \<and> scans \<noteq> [] \<longrightarrow>
      snd (scan_loop (debounce_sym_defer_g cf) now raw0 scans sg) = final_raw raw0 scans \<and>
      snd (scan_loop (debounce_sym_eager_pr cf) now raw0 scans se) = final_raw raw0 scans \<and>
      snd (scan_loop (debounce_sym_defer_pk cf) now raw0 scans se') = final_raw raw0 scans \<and>
      snd (scan_loop (debounce_sym_eager_pk cf) now raw0 scans se') = final_raw raw0 scans \<and>
      snd (scan_loop (debounce_asym_eager_defer_pk cf) now raw0 scans sa) = final_raw raw0 scans) \<and>
    (DEBOUNCE cf mod 256 = 0 \<longrightarrow>
      snd (scan_loop (debounce_sym_defer_pr cf) now (matrix_start n) scans (debounce_init_pr now n, matrix_start n)) = matrix_start n)"
proof (intro conjI impI)
  assume cf: "DEBOUNCE cf = 0 \<and> scans \<noteq> []"
  note none = scan_loop_none [of _ now raw0 scans]
  show "snd (scan_loop (debounce_sym_defer_g cf) now raw0 scans sg) = final_raw raw0 scans"
    "snd (scan_loop (debounce_sym_eager_pr cf) now raw0 scans se) = final_raw raw0 scans"
    "snd (scan_loop (debounce_sym_defer_pk cf) now raw0 scans se') = final_raw raw0 scans"
    "snd (scan_loop (debounce_sym_eager_pk cf) now raw0 scans se') = final_raw raw0 scans"
    "snd (scan_loop (debounce_asym_eager_defer_pk cf) now raw0 scans sa) = final_raw raw0 scans"
    using cf by (subst none; simp add: debounce_sym_defer_g_def debounce_sym_eager_pr_def debounce_sym_defer_pk_def
        debounce_sym_eager_pk_def debounce_asym_eager_defer_pk_def debounce_none_def split_beta Let_def)+
next
  assume "DEBOUNCE cf mod 256 = 0"
  then show "snd (scan_loop (debounce_sym_defer_pr cf) now (matrix_start n) scans (debounce_init_pr now n, matrix_start n)) =
      (matrix_start n :: 'r matrix)"
    by (subst scan_loop_stuck) (auto simp: pr_sized_def debounce_init_pr_def matrix_start_def)
qed

theorem debounce_zero_witness:
  "snd (scan_loop (debounce_sym_defer_g \<lparr>DEBOUNCE = 0, MATRIX_COLS = 6\<rparr>) 0 (matrix_start 2) [(1, [1, 0 :: 8 word]), (300, [1, 0])]
     (debounce_init_g, matrix_start 2)) = [1, 0] \<and>
   snd (scan_loop (debounce_sym_defer_pr \<lparr>DEBOUNCE = 0, MATRIX_COLS = 6\<rparr>) 0 (matrix_start 2) [(1, [1, 0 :: 8 word]), (300, [1, 0])]
     (debounce_init_pr 0 2, matrix_start 2)) = matrix_start 2"
proof -
  have "DEBOUNCE \<lparr>DEBOUNCE = 0, MATRIX_COLS = 6\<rparr> = 0 \<and> [(1, [1, 0 :: 8 word]), (300, [1, 0])] \<noteq> []"
    "DEBOUNCE \<lparr>DEBOUNCE = 0, MATRIX_COLS = 6\<rparr> mod 256 = 0"
    "final_raw (matrix_start 2) [(1, [1, 0 :: 8 word]), (300, [1, 0])] = [1, 0]"
    by (simp_all add: final_raw_def)
  then show ?thesis
    using debounce_zero [of "\<lparr>DEBOUNCE = 0, MATRIX_COLS = 6\<rparr>" "[(1, [1, 0 :: 8 word]), (300, [1, 0])]" 0 "matrix_start 2"
        "(debounce_init_g, matrix_start 2)" _ _ _ 2] by metis
qed


end
