(* ===== verification/DeferredExec.thy ===== *)
theory DeferredExec
  imports Prelude
begin

text \<open>
  quantum/deferred_exec.c: callbacks that the main loop runs after a delay.  A table is the list of its entries; the
  counter of tokens is shared by all tables.  A callback is called with the whole state, because it may queue, extend
  and cancel executors itself: \<open>run cb trigger_time arg st\<close> is its result and the state after it.
\<close>

section \<open>State\<close>

type_synonym deferred_token = u8

abbreviation INVALID_DEFERRED_TOKEN :: deferred_token where "INVALID_DEFERRED_TOKEN \<equiv> 0"

text \<open>\<open>NULL\<close> is \<open>None\<close>.\<close>

record ('cb, 'a) deferred_executor_t =
  token :: deferred_token
  trigger_time :: u32
  callback :: "'cb option"
  cb_arg :: "'a option"

record ('cb, 'a, 'w) deferred_vars =
  current_token :: deferred_token
  executors :: "('cb, 'a) deferred_executor_t list"
  last_execution_time :: u32
  world :: 'w

definition empty_executor :: "('cb, 'a) deferred_executor_t" where
  "empty_executor = \<lparr>token = INVALID_DEFERRED_TOKEN, trigger_time = 0, callback = None, cb_arg = None\<rparr>"

definition deferred_start :: "nat \<Rightarrow> 'w \<Rightarrow> ('cb, 'a, 'w) deferred_vars" where
  "deferred_start MAX_DEFERRED_EXECUTORS w =
    \<lparr>current_token = 0, executors = replicate MAX_DEFERRED_EXECUTORS empty_executor, last_execution_time = 0, world = w\<rparr>"

section \<open>Tokens\<close>

definition token_can_be_used :: "('cb, 'a) deferred_executor_t list \<Rightarrow> deferred_token \<Rightarrow> bool" where
  "token_can_be_used table t \<longleftrightarrow> t \<noteq> INVALID_DEFERRED_TOKEN \<and> list_all (\<lambda>entry. token entry \<noteq> t) table"

lemma token_distance:
  fixes first current :: u8
  assumes "current + 1 \<noteq> first"
  shows "unat (first - 1 - current) = Suc (unat (first - 1 - (current + 1)))"
proof -
  have "first - 1 - current \<noteq> 0"
    using assms by (metis diff_add_cancel eq_iff_diff_eq_0)
  then have "unat (first - 1 - current - 1) = unat (first - 1 - current) - 1"
    by (rule unat_minus_one)
  moreover have "0 < unat (first - 1 - current)"
    using \<open>first - 1 - current \<noteq> 0\<close> by (simp add: unat_gt_0)
  ultimately show ?thesis
    by (simp add: algebra_simps)
qed

text \<open>The loop over the tokens; it returns the token and the counter.\<close>

function allocate_loop ::
    "('cb, 'a) deferred_executor_t list \<Rightarrow> deferred_token \<Rightarrow> deferred_token \<Rightarrow> deferred_token \<times> deferred_token" where
  "allocate_loop table first current =
    (if token_can_be_used table current then (current, current)
     else if current + 1 = first then (INVALID_DEFERRED_TOKEN, current + 1)
     else allocate_loop table first (current + 1))"
  by pat_completeness auto

termination
  by (relation "measure (\<lambda>(_, first, current). unat (first - 1 - current))") (simp_all add: token_distance)

declare allocate_loop.simps [simp del]

definition allocate_token :: "('cb, 'a, 'w) deferred_vars \<Rightarrow> deferred_token \<times> ('cb, 'a, 'w) deferred_vars" where
  "allocate_token s =
    (let first = current_token s + 1; (t, current) = allocate_loop (executors s) first first
     in (t, s\<lparr>current_token := current\<rparr>))"

section \<open>Queueing, extending and cancelling\<close>

text \<open>The index of the first entry with a token, as the loops over the table find it.\<close>

fun find_entry :: "deferred_token \<Rightarrow> ('cb, 'a) deferred_executor_t list \<Rightarrow> nat option" where
  "find_entry t [] = None"
| "find_entry t (entry # entries) = (if token entry = t then Some 0 else map_option Suc (find_entry t entries))"

definition defer_exec_advanced ::
    "u32 \<Rightarrow> u32 \<Rightarrow> 'cb option \<Rightarrow> 'a option \<Rightarrow> ('cb, 'a, 'w) deferred_vars \<Rightarrow> deferred_token \<times> ('cb, 'a, 'w) deferred_vars" where
  "defer_exec_advanced now delay_ms cb arg s =
    (if executors s = [] \<or> delay_ms = 0 \<or> cb = None then (INVALID_DEFERRED_TOKEN, s)
     else case find_entry INVALID_DEFERRED_TOKEN (executors s) of
       None \<Rightarrow> (INVALID_DEFERRED_TOKEN, s)
     | Some i \<Rightarrow>
        (let (t, s) = allocate_token s
         in if t = INVALID_DEFERRED_TOKEN then (INVALID_DEFERRED_TOKEN, s)
            else (current_token s, s\<lparr>executors := (executors s)[i :=
              \<lparr>token = current_token s, trigger_time = now + delay_ms, callback = cb, cb_arg = arg\<rparr>]\<rparr>)))"

definition extend_deferred_exec_advanced ::
    "u32 \<Rightarrow> deferred_token \<Rightarrow> u32 \<Rightarrow> ('cb, 'a, 'w) deferred_vars \<Rightarrow> bool \<times> ('cb, 'a, 'w) deferred_vars" where
  "extend_deferred_exec_advanced now t delay_ms s =
    (if executors s = [] \<or> delay_ms = 0 \<or> t = INVALID_DEFERRED_TOKEN then (False, s)
     else case find_entry t (executors s) of
       None \<Rightarrow> (False, s)
     | Some i \<Rightarrow> (True, s\<lparr>executors := (executors s)[i := (executors s ! i)\<lparr>trigger_time := now + delay_ms\<rparr>]\<rparr>))"

definition cancel_deferred_exec_advanced ::
    "deferred_token \<Rightarrow> ('cb, 'a, 'w) deferred_vars \<Rightarrow> bool \<times> ('cb, 'a, 'w) deferred_vars" where
  "cancel_deferred_exec_advanced t s =
    (if executors s = [] \<or> t = INVALID_DEFERRED_TOKEN then (False, s)
     else case find_entry t (executors s) of
       None \<Rightarrow> (False, s)
     | Some i \<Rightarrow> (True, s\<lparr>executors := (executors s)[i := empty_executor]\<rparr>))"

section \<open>The task\<close>

type_synonym ('cb, 'a, 'w) run_callback =
  "'cb \<Rightarrow> u32 \<Rightarrow> 'a option \<Rightarrow> ('cb, 'a, 'w) deferred_vars \<Rightarrow> u32 \<times> ('cb, 'a, 'w) deferred_vars"

definition is_due :: "u32 \<Rightarrow> ('cb, 'a) deferred_executor_t \<Rightarrow> bool" where
  "is_due now entry \<longleftrightarrow> token entry \<noteq> INVALID_DEFERRED_TOKEN \<and> sint (TIMER_DIFF_32 (trigger_time entry) now) \<le> 0"

text \<open>
  One step of the loop.  The entry is read again after the callback has returned.  An entry with a token and without a
  callback does not exist (\<open>executors_ok\<close> below); the code would call \<open>NULL\<close>.
\<close>

definition task_step ::
    "('cb, 'a, 'w) run_callback \<Rightarrow> u32 \<Rightarrow> nat \<Rightarrow> ('cb, 'a, 'w) deferred_vars \<Rightarrow> ('cb, 'a, 'w) deferred_vars" where
  "task_step run now i s =
    (let entry = executors s ! i
     in if is_due now entry then
          (case callback entry of
             None \<Rightarrow> s
           | Some cb \<Rightarrow>
              (let (delay_ms, s) = run cb (trigger_time entry) (cb_arg entry) s; entry = executors s ! i
               in s\<lparr>executors := (executors s)[i :=
                    if 0 < delay_ms then entry\<lparr>trigger_time := trigger_time entry + delay_ms\<rparr> else empty_executor]\<rparr>))
        else s)"

definition deferred_exec_advanced_task ::
    "('cb, 'a, 'w) run_callback \<Rightarrow> u32 \<Rightarrow> ('cb, 'a, 'w) deferred_vars \<Rightarrow> ('cb, 'a, 'w) deferred_vars" where
  "deferred_exec_advanced_task run now s =
    (if 0 < sint (TIMER_DIFF_32 now (last_execution_time s)) then
       fold (task_step run now) [0..<length (executors s)] (s\<lparr>last_execution_time := now\<rparr>)
     else s)"

subsection \<open>The basic interface\<close>

text \<open>The functions for the keymaps work on a table of their own, the state of this model.\<close>

definition defer_exec :: "u32 \<Rightarrow> u32 \<Rightarrow> 'cb option \<Rightarrow> 'a option \<Rightarrow> ('cb, 'a, 'w) deferred_vars \<Rightarrow> deferred_token \<times> ('cb, 'a, 'w) deferred_vars" where
  "defer_exec now delay_ms cb arg s = defer_exec_advanced now delay_ms cb arg s"

definition extend_deferred_exec :: "u32 \<Rightarrow> deferred_token \<Rightarrow> u32 \<Rightarrow> ('cb, 'a, 'w) deferred_vars \<Rightarrow> bool \<times> ('cb, 'a, 'w) deferred_vars" where
  "extend_deferred_exec now t delay_ms s = extend_deferred_exec_advanced now t delay_ms s"

definition cancel_deferred_exec :: "deferred_token \<Rightarrow> ('cb, 'a, 'w) deferred_vars \<Rightarrow> bool \<times> ('cb, 'a, 'w) deferred_vars" where
  "cancel_deferred_exec t s = cancel_deferred_exec_advanced t s"

definition deferred_exec_task :: "('cb, 'a, 'w) run_callback \<Rightarrow> u32 \<Rightarrow> ('cb, 'a, 'w) deferred_vars \<Rightarrow> ('cb, 'a, 'w) deferred_vars" where
  "deferred_exec_task run now s = deferred_exec_advanced_task run now s"

section \<open>Allocation finds a free token\<close>

text \<open>The tokens that the loop tries, from \<open>current\<close> up to the one before \<open>first\<close>.\<close>

lemma allocate_loop_result:
  "(case allocate_loop table first current of (t, c) \<Rightarrow>
     if \<exists>k \<le> unat (first - 1 - current). token_can_be_used table (current + of_nat k)
     then token_can_be_used table t \<and> c = t else t = INVALID_DEFERRED_TOKEN \<and> c = first)"
proof (induction table first current rule: allocate_loop.induct)
  case (1 table first current)
  define d where "d = unat (first - 1 - current)"
  show ?case
  proof (cases "token_can_be_used table current")
    case True
    then have "\<exists>k \<le> unat (first - 1 - current). token_can_be_used table (current + of_nat k)"
      by (intro exI [of _ 0]) simp
    with True show ?thesis
      by (subst allocate_loop.simps) simp
  next
    case not_usable: False
    show ?thesis
    proof (cases "current + 1 = first")
      case True
      then have "first - 1 - current = 0"
        by auto
      with True not_usable show ?thesis
        by (subst allocate_loop.simps) auto
    next
      case False
      have d: "d = Suc (unat (first - 1 - (current + 1)))"
        unfolding d_def by (rule token_distance [OF False])
      have "(\<exists>k \<le> d. token_can_be_used table (current + of_nat k)) \<longleftrightarrow>
          (\<exists>k \<le> unat (first - 1 - (current + 1)). token_can_be_used table (current + 1 + of_nat k))"
      proof
        assume "\<exists>k \<le> d. token_can_be_used table (current + of_nat k)"
        then obtain k where "k \<le> d" "token_can_be_used table (current + of_nat k)"
          by blast
        with not_usable d show "\<exists>k \<le> unat (first - 1 - (current + 1)). token_can_be_used table (current + 1 + of_nat k)"
          by (cases k) (auto simp: add.assoc)
      next
        assume "\<exists>k \<le> unat (first - 1 - (current + 1)). token_can_be_used table (current + 1 + of_nat k)"
        then obtain k where "k \<le> unat (first - 1 - (current + 1))" "token_can_be_used table (current + 1 + of_nat k)"
          by blast
        then show "\<exists>k \<le> d. token_can_be_used table (current + of_nat k)"
          by (intro exI [of _ "Suc k"]) (simp add: d add.assoc)
      qed
      then show ?thesis
        using 1 [OF not_usable False] by (subst allocate_loop.simps) (simp add: not_usable False d_def)
    qed
  qed
qed

lemma all_tokens: "\<exists>k \<le> unat (first - 1 - first). t = first + of_nat k" for t first :: u8
proof (intro exI conjI)
  show "t = first + of_nat (unat (t - first))"
    by simp
  have "unat (first - 1 - first) = 255"
    by (simp add: unsigned_minus_1_eq_mask mask_eq_exp_minus_1)
  then show "unat (t - first) \<le> unat (first - 1 - first)"
    using unat_less_numeral_8 [of "t - first"] by simp
qed

lemma allocate_token_result:
  assumes "allocate_token s = (t, s')"
  shows "s' = s\<lparr>current_token := current_token s'\<rparr>"
    and "(\<exists>k. token_can_be_used (executors s) k) \<Longrightarrow> token_can_be_used (executors s) t \<and> current_token s' = t"
    and "\<not> (\<exists>k. token_can_be_used (executors s) k) \<Longrightarrow> t = INVALID_DEFERRED_TOKEN"
proof -
  define first where "first = current_token s + 1"
  obtain u c where loop: "allocate_loop (executors s) first first = (u, c)"
    by (metis surj_pair)
  then have s': "t = u" "s' = s\<lparr>current_token := c\<rparr>"
    using assms by (simp_all add: allocate_token_def first_def Let_def)
  then show "s' = s\<lparr>current_token := current_token s'\<rparr>"
    by simp
  have "(\<exists>k \<le> unat (first - 1 - first). token_can_be_used (executors s) (first + of_nat k)) \<longleftrightarrow>
      (\<exists>k. token_can_be_used (executors s) k)"
    using all_tokens [where first = first] by metis
  then show "(\<exists>k. token_can_be_used (executors s) k) \<Longrightarrow> token_can_be_used (executors s) t \<and> current_token s' = t"
    "\<not> (\<exists>k. token_can_be_used (executors s) k) \<Longrightarrow> t = INVALID_DEFERRED_TOKEN"
    using allocate_loop_result [where table = "executors s" and first = first and current = first] s' by (simp_all add: loop)
qed

section \<open>The table stays well-formed\<close>

text \<open>
  Every token in use has a callback, no token is used twice, and a free entry holds neither a callback nor an argument.  (Its
  trigger time may be left over: a callback that cancels itself and asks for a repetition moves the time of the free entry.)
\<close>

definition executors_ok :: "('cb, 'a) deferred_executor_t list \<Rightarrow> bool" where
  "executors_ok table \<longleftrightarrow>
     (\<forall>i < length table. if token (table ! i) = INVALID_DEFERRED_TOKEN then callback (table ! i) = None \<and> cb_arg (table ! i) = None
        else callback (table ! i) \<noteq> None \<and> (\<forall>j < length table. j \<noteq> i \<longrightarrow> token (table ! j) \<noteq> token (table ! i)))"

lemma executors_ok_keep:
  "executors_ok table \<Longrightarrow> token entry = token (table ! i) \<Longrightarrow> callback entry = callback (table ! i) \<Longrightarrow>
   cb_arg entry = cb_arg (table ! i) \<Longrightarrow> executors_ok (table[i := entry])"
  by (cases "i < length table") (auto simp: executors_ok_def nth_list_update list_update_beyond)

lemma executors_ok_free: "executors_ok table \<Longrightarrow> executors_ok (table[i := empty_executor])"
  by (cases "i < length table") (auto simp: executors_ok_def nth_list_update list_update_beyond empty_executor_def)

lemma executors_ok_claim:
  "executors_ok table \<Longrightarrow> token_can_be_used table (token entry) \<Longrightarrow> callback entry \<noteq> None \<Longrightarrow> executors_ok (table[i := entry])"
  by (cases "i < length table") (auto simp: executors_ok_def nth_list_update list_update_beyond token_can_be_used_def list_all_length)

lemma executors_ok_inj:
  "executors_ok table \<Longrightarrow> i < length table \<Longrightarrow> j < length table \<Longrightarrow> token (table ! i) = token (table ! j) \<Longrightarrow>
   token (table ! j) \<noteq> INVALID_DEFERRED_TOKEN \<Longrightarrow> i = j"
  unfolding executors_ok_def by metis

lemma find_entry_Some:
  "find_entry t table = Some i \<Longrightarrow> i < length table \<and> token (table ! i) = t"
  by (induction table arbitrary: i) (auto split: if_splits)

lemma find_entry_None: "find_entry t table = None \<longleftrightarrow> (\<forall>entry \<in> set table. token entry \<noteq> t)"
  by (induction table) auto

text \<open>The token of an entry finds it.\<close>

lemma find_entry_of_token:
  assumes "executors_ok table" "i < length table" "token (table ! i) \<noteq> INVALID_DEFERRED_TOKEN"
  shows "find_entry (token (table ! i)) table = Some i"
proof (cases "find_entry (token (table ! i)) table")
  case None
  then show ?thesis
    using assms(2) by (auto simp: find_entry_None)
next
  case (Some j)
  note found = find_entry_Some [OF Some]
  have "i = j"
    using executors_ok_inj [OF assms(1), of i j] found assms(2,3) by metis
  with Some show ?thesis
    by simp
qed

lemma usable_token_exists:
  assumes "length table \<le> 255" "find_entry INVALID_DEFERRED_TOKEN table = Some i"
  shows "\<exists>t. token_can_be_used table t"
proof -
  have "INVALID_DEFERRED_TOKEN \<in> set (map token table)"
    using find_entry_Some [OF assms(2)] by (metis in_set_conv_nth length_map nth_map)
  moreover have "card (set (map token table)) \<le> 255"
    using card_length [of "map token table"] assms(1) by simp
  moreover have "card (UNIV :: u8 set) = 256"
    by (simp add: card_word)
  ultimately have "set (map token table) \<noteq> UNIV"
    by auto
  then obtain t where t: "t \<notin> set (map token table)"
    by blast
  then have "t \<noteq> INVALID_DEFERRED_TOKEN"
    using \<open>INVALID_DEFERRED_TOKEN \<in> set (map token table)\<close> by metis
  then show ?thesis
    using t by (auto simp: token_can_be_used_def list_all_iff)
qed

lemma defer_exec_cases:
  assumes "defer_exec_advanced now delay_ms cb arg s = (t, s')"
  obtains (refused) "t = INVALID_DEFERRED_TOKEN" "s' = s\<lparr>current_token := current_token s'\<rparr>"
  | (queued) i where "delay_ms \<noteq> 0" "cb \<noteq> None" "find_entry INVALID_DEFERRED_TOKEN (executors s) = Some i"
      "token_can_be_used (executors s) t"
      "s' = s\<lparr>current_token := t, executors := (executors s)[i :=
         \<lparr>token = t, trigger_time = now + delay_ms, callback = cb, cb_arg = arg\<rparr>]\<rparr>"
proof -
  obtain u s1 where alloc: "allocate_token s = (u, s1)"
    by (metis surj_pair)
  note alloc' = allocate_token_result [OF alloc]
  show ?thesis
  proof (cases "executors s = [] \<or> delay_ms = 0 \<or> cb = None \<or> find_entry INVALID_DEFERRED_TOKEN (executors s) = None \<or>
      u = INVALID_DEFERRED_TOKEN")
    case True
    then show ?thesis
      using assms alloc'(1) refused by (auto simp: defer_exec_advanced_def alloc split: if_splits option.splits)
  next
    case False
    then obtain i where "find_entry INVALID_DEFERRED_TOKEN (executors s) = Some i"
      by auto
    moreover have "token_can_be_used (executors s) u \<and> current_token s1 = u"
      using alloc'(2,3) False by blast
    moreover have "s1 = s\<lparr>current_token := current_token s1\<rparr>"
      by (rule alloc'(1))
    then have "executors s1 = executors s" "s1\<lparr>executors := x\<rparr> = s\<lparr>current_token := current_token s1, executors := x\<rparr>" for x
      by (cases s; cases s1; simp)+
    ultimately show ?thesis
      using assms False by (intro queued [of i]) (auto simp: defer_exec_advanced_def alloc)
  qed
qed

text \<open>
  (C32)
  The search for a token always ends, after at most one turn of the eight-bit counter, and it fails only when every token
  is in use.
\<close>

theorem allocate_token_finds:
  "if \<exists>t. token_can_be_used (executors s) t
   then token_can_be_used (executors s) (fst (allocate_token s)) \<and> current_token (snd (allocate_token s)) = fst (allocate_token s)
   else fst (allocate_token s) = INVALID_DEFERRED_TOKEN"
  using allocate_token_result(2,3) [of s "fst (allocate_token s)" "snd (allocate_token s)"] by simp

text \<open>
  Queueing succeeds exactly when the delay and the callback are valid and an entry is free (the table having fewer entries
  than there are tokens); it then returns a token that was not in use and claims one free entry.  Otherwise it returns the
  invalid token and leaves the table alone.
\<close>

theorem defer_exec_claims:
  assumes "length (executors s) \<le> 255"
  shows "case defer_exec_advanced now delay_ms cb arg s of (t, s') \<Rightarrow>
    if delay_ms \<noteq> 0 \<and> cb \<noteq> None \<and> INVALID_DEFERRED_TOKEN \<in> token ` set (executors s)
    then t \<noteq> INVALID_DEFERRED_TOKEN \<and> t \<notin> token ` set (executors s) \<and>
      (\<exists>i < length (executors s). token (executors s ! i) = INVALID_DEFERRED_TOKEN \<and>
        executors s' = (executors s)[i := \<lparr>token = t, trigger_time = now + delay_ms, callback = cb, cb_arg = arg\<rparr>])
    else t = INVALID_DEFERRED_TOKEN \<and> executors s' = executors s"
proof -
  obtain t s' where run: "defer_exec_advanced now delay_ms cb arg s = (t, s')"
    by (metis surj_pair)
  have free: "INVALID_DEFERRED_TOKEN \<in> token ` set (executors s) \<longleftrightarrow> find_entry INVALID_DEFERRED_TOKEN (executors s) \<noteq> None"
    by (force simp: find_entry_None)
  from run show ?thesis
  proof (cases rule: defer_exec_cases)
    case refused
    have same: "executors s' = executors s"
      by (subst refused(2)) simp
    have "delay_ms = 0 \<or> cb = None \<or> find_entry INVALID_DEFERRED_TOKEN (executors s) = None"
    proof (rule ccontr)
      assume "\<not> ?thesis"
      then obtain i where i: "delay_ms \<noteq> 0" "cb \<noteq> None" "find_entry INVALID_DEFERRED_TOKEN (executors s) = Some i"
        by auto
      obtain u s1 where alloc: "allocate_token s = (u, s1)"
        by (metis surj_pair)
      have "u \<noteq> INVALID_DEFERRED_TOKEN" "current_token s1 = u"
        using allocate_token_result(2) [OF alloc usable_token_exists [OF assms i(3)]] by (auto simp: token_can_be_used_def)
      moreover have "executors s \<noteq> []"
        using i(3) by auto
      ultimately show False
        using run refused(1) i by (auto simp: defer_exec_advanced_def alloc)
    qed
    then show ?thesis
      using refused(1) same free by (auto simp: run)
  next
    case (queued i)
    then show ?thesis
      using find_entry_Some [OF queued(3)] free by (auto simp: run token_can_be_used_def list_all_iff)
  qed
qed

section \<open>Sequences of operations\<close>

datatype ('cb, 'a) deferred_op =
    Defer u32 u32 "'cb option" "'a option"
  | Extend u32 deferred_token u32
  | Cancel deferred_token
  | Task u32

fun apply_deferred_op :: "('cb, 'a, 'w) run_callback \<Rightarrow> ('cb, 'a) deferred_op \<Rightarrow> ('cb, 'a, 'w) deferred_vars \<Rightarrow> ('cb, 'a, 'w) deferred_vars" where
  "apply_deferred_op run (Defer now delay_ms cb arg) s = snd (defer_exec_advanced now delay_ms cb arg s)"
| "apply_deferred_op run (Extend now t delay_ms) s = snd (extend_deferred_exec_advanced now t delay_ms s)"
| "apply_deferred_op run (Cancel t) s = snd (cancel_deferred_exec_advanced t s)"
| "apply_deferred_op run (Task now) s = deferred_exec_advanced_task run now s"

text \<open>A callback may do anything that keeps the table as it should be.\<close>

definition table_ok :: "nat \<Rightarrow> ('cb, 'a, 'w) deferred_vars \<Rightarrow> bool" where
  "table_ok n s \<longleftrightarrow> executors_ok (executors s) \<and> length (executors s) = n"

lemma defer_exec_ok: "table_ok n s \<Longrightarrow> table_ok n (snd (defer_exec_advanced now delay_ms cb arg s))"
proof -
  assume ok: "table_ok n s"
  obtain t s' where run: "defer_exec_advanced now delay_ms cb arg s = (t, s')"
    by (metis surj_pair)
  then show ?thesis
  proof (cases rule: defer_exec_cases)
    case refused
    then have "executors s' = executors s"
      by (metis deferred_vars.select_convs(2) deferred_vars.surjective deferred_vars.update_convs(1))
    then show ?thesis
      using ok by (simp add: run table_ok_def)
  next
    case (queued i)
    then show ?thesis
      using ok by (simp add: run table_ok_def executors_ok_claim)
  qed
qed

lemma extend_deferred_exec_ok: "table_ok n s \<Longrightarrow> table_ok n (snd (extend_deferred_exec_advanced now t delay_ms s))"
  by (auto simp: extend_deferred_exec_advanced_def table_ok_def executors_ok_keep split: option.split)

lemma cancel_deferred_exec_ok: "table_ok n s \<Longrightarrow> table_ok n (snd (cancel_deferred_exec_advanced t s))"
  by (auto simp: cancel_deferred_exec_advanced_def table_ok_def executors_ok_free split: option.split)

lemma task_step_ok:
  assumes "\<forall>cb t a s. table_ok n s \<longrightarrow> table_ok n (snd (run cb t a s))" "table_ok n s"
  shows "table_ok n (task_step run now i s)"
proof (cases "is_due now (executors s ! i) \<and> callback (executors s ! i) \<noteq> None")
  case True
  then obtain cb where cb: "callback (executors s ! i) = Some cb"
    by auto
  obtain d s1 where run: "run cb (trigger_time (executors s ! i)) (cb_arg (executors s ! i)) s = (d, s1)"
    by (metis surj_pair)
  have "table_ok n s1"
    using assms run by (metis snd_conv)
  then show ?thesis
    using True by (simp add: task_step_def cb run table_ok_def executors_ok_keep executors_ok_free Let_def)
qed (use assms(2) in \<open>auto simp: task_step_def Let_def split: option.split\<close>)

lemma task_ok:
  assumes "\<forall>cb t a s. table_ok n s \<longrightarrow> table_ok n (snd (run cb t a s))" "table_ok n s"
  shows "table_ok n (deferred_exec_advanced_task run now s)"
proof -
  have "table_ok n (fold (task_step run now) is s)" if "table_ok n s" for "is" s
    using that by (induction "is" arbitrary: s) (simp_all add: task_step_ok [OF assms(1)])
  then show ?thesis
    using assms(2) by (simp add: deferred_exec_advanced_task_def table_ok_def)
qed

text \<open>
  (C22)
  Whatever is queued, extended, cancelled and run, by the callbacks too, in any order: every token in use has a callback
  and belongs to one entry only, and a free entry holds neither a callback nor an argument.  So the token of an entry
  extends this entry and no other, and cancelling it clears the whole entry and no other.
\<close>

theorem executors_valid:
  fixes ops :: "('cb, 'a) deferred_op list" and w :: 'w
  assumes "\<forall>cb t a s. table_ok n s \<longrightarrow> table_ok n (snd (run cb t a s))"
  defines "s \<equiv> fold (apply_deferred_op run) ops (deferred_start n w)"
  shows "table_ok n s \<and> (\<forall>i < n. let entry = executors s ! i in token entry \<noteq> INVALID_DEFERRED_TOKEN \<longrightarrow>
    cancel_deferred_exec_advanced (token entry) s =
      (True, s\<lparr>executors := (executors s)[i := \<lparr>token = 0, trigger_time = 0, callback = None, cb_arg = None\<rparr>]\<rparr>) \<and>
    (delay_ms \<noteq> 0 \<longrightarrow> extend_deferred_exec_advanced now (token entry) delay_ms s =
      (True, s\<lparr>executors := (executors s)[i := entry\<lparr>trigger_time := now + delay_ms\<rparr>]\<rparr>)))"
proof -
  have "table_ok n (apply_deferred_op run op s)" if "table_ok n s" for op s
    using that by (cases op)
      (simp_all add: defer_exec_ok extend_deferred_exec_ok cancel_deferred_exec_ok task_ok [OF assms(1)])
  then have "table_ok n (fold (apply_deferred_op run) ops s)" if "table_ok n s" for s
    using that by (induction ops arbitrary: s) simp_all
  moreover have "table_ok n (deferred_start n w)"
    by (simp add: table_ok_def deferred_start_def executors_ok_def empty_executor_def)
  ultimately have ok: "table_ok n s"
    unfolding s_def by blast
  have "find_entry (token (executors s ! i)) (executors s) = Some i" "executors s \<noteq> []"
    if "i < n" "token (executors s ! i) \<noteq> INVALID_DEFERRED_TOKEN" for i
    using find_entry_of_token [of "executors s" i] ok that by (auto simp: table_ok_def)
  then show ?thesis
    using ok by (simp add: Let_def cancel_deferred_exec_advanced_def extend_deferred_exec_advanced_def empty_executor_def)
qed

text \<open>A callback that queues itself again for twice the delay and repeats the old one while its argument is set.\<close>

definition requeue :: "(bool, bool, u32) run_callback" where
  "requeue cb t a s =
    (let (_, s) = defer_exec_advanced (world s) 20 (Some cb) None s in (if a = Some True then 10 else 0, s))"

theorem executors_valid_witness:
  "let s = fold (apply_deferred_op requeue)
     [Defer 0 5 (Some True) (Some True), Defer 1 5 (Some False) None, Task 7, Cancel 1] (deferred_start 2 7)
   in table_ok 2 s"
proof -
  have "\<forall>cb t a s. table_ok 2 s \<longrightarrow> table_ok 2 (snd (requeue cb t a s))"
    unfolding requeue_def split_beta Let_def snd_conv using defer_exec_ok by blast
  then show ?thesis
    unfolding Let_def by (rule executors_valid [THEN conjunct1])
qed

theorem defer_exec_claims_witness:
  "case defer_exec_advanced 100 5 (Some (7 :: nat)) (None :: nat option) (deferred_start 2 ()) of
     (t, s') \<Rightarrow> t \<noteq> INVALID_DEFERRED_TOKEN"
proof -
  have "length (executors (deferred_start 2 () :: (nat, nat, unit) deferred_vars)) \<le> 255"
    and "INVALID_DEFERRED_TOKEN \<in> token ` set (executors (deferred_start 2 () :: (nat, nat, unit) deferred_vars))"
    by (simp_all add: deferred_start_def empty_executor_def)
  then show ?thesis
    using defer_exec_claims [where s = "deferred_start 2 () :: (nat, nat, unit) deferred_vars" and now = 100 and
        delay_ms = 5 and cb = "Some 7" and arg = None]
    by (auto split: prod.splits)
qed

section \<open>When the callbacks run\<close>

text \<open>Callbacks that log their calls, return what they like and leave the table alone.\<close>

definition logging ::
    "('cb \<Rightarrow> u32 \<Rightarrow> 'a option \<Rightarrow> u32) \<Rightarrow> ('cb, 'a, ('cb \<times> u32 \<times> 'a option) list) run_callback" where
  "logging ret cb t a s = (ret cb t a, s\<lparr>world := world s @ [(cb, t, a)]\<rparr>)"

definition after_task ::
    "('cb \<Rightarrow> u32 \<Rightarrow> 'a option \<Rightarrow> u32) \<Rightarrow> u32 \<Rightarrow> ('cb, 'a) deferred_executor_t \<Rightarrow> ('cb, 'a) deferred_executor_t" where
  "after_task ret now entry =
    (if is_due now entry then
       (let delay_ms = ret (the (callback entry)) (trigger_time entry) (cb_arg entry)
        in if 0 < delay_ms then entry\<lparr>trigger_time := trigger_time entry + delay_ms\<rparr> else empty_executor)
     else entry)"

definition log_of :: "('cb, 'a) deferred_executor_t \<Rightarrow> 'cb \<times> u32 \<times> 'a option" where
  "log_of entry = (the (callback entry), trigger_time entry, cb_arg entry)"

lemma task_step_logging:
  assumes "executors s = xs @ entry # ys" "is_due now entry \<longrightarrow> callback entry \<noteq> None"
  shows "task_step (logging ret) now (length xs) s =
    s\<lparr>executors := xs @ after_task ret now entry # ys,
      world := world s @ (if is_due now entry then [log_of entry] else [])\<rparr>"
proof (cases "is_due now entry")
  case True
  then obtain cb where "callback entry = Some cb"
    using assms(2) by auto
  then show ?thesis
    using True by (simp add: task_step_def assms(1) logging_def after_task_def log_of_def Let_def)
next
  case False
  then show ?thesis
    using assms(1) by (cases s) (simp add: task_step_def after_task_def Let_def)
qed

lemma task_logging:
  assumes "executors_ok (executors s)"
  shows "fold (task_step (logging ret) now) [0..<length (executors s)] s =
    s\<lparr>executors := map (after_task ret now) (executors s),
      world := world s @ map log_of (filter (is_due now) (executors s))\<rparr>"
proof -
  define xs where "xs = executors s"
  have "fold (task_step (logging ret) now) [0..<n] s =
      s\<lparr>executors := map (after_task ret now) (take n xs) @ drop n xs,
        world := world s @ map log_of (filter (is_due now) (take n xs))\<rparr>" if "n \<le> length xs" for n
    using that
  proof (induction n)
    case (Suc n)
    define s1 where "s1 = s\<lparr>executors := map (after_task ret now) (take n xs) @ drop n xs,
        world := world s @ map log_of (filter (is_due now) (take n xs))\<rparr>"
    have n: "n < length xs"
      using Suc.prems by simp
    have "is_due now (xs ! n) \<longrightarrow> callback (xs ! n) \<noteq> None"
      using assms n by (auto simp: executors_ok_def is_due_def xs_def)
    moreover have "executors s1 = map (after_task ret now) (take n xs) @ xs ! n # drop (Suc n) xs"
      using n by (simp add: s1_def Cons_nth_drop_Suc)
    ultimately have "task_step (logging ret) now n s1 =
        s1\<lparr>executors := map (after_task ret now) (take n xs) @ after_task ret now (xs ! n) # drop (Suc n) xs,
          world := world s1 @ (if is_due now (xs ! n) then [log_of (xs ! n)] else [])\<rparr>"
      using task_step_logging [of s1 "map (after_task ret now) (take n xs)" "xs ! n" "drop (Suc n) xs" now ret] n by simp
    then show ?case
      using Suc.IH n by (simp add: take_Suc_conv_app_nth s1_def)
  qed (simp add: xs_def)
  from this [of "length xs"] show ?thesis
    by (simp add: xs_def)
qed

fun ticks ::
    "('cb, 'a, 'w) run_callback \<Rightarrow> u32 \<Rightarrow> nat list \<Rightarrow> ('cb, 'a, 'w) deferred_vars \<Rightarrow> ('cb, 'a, 'w) deferred_vars" where
  "ticks run now [] s = s"
| "ticks run now (gap # gaps) s = ticks run (now + of_nat gap) gaps (deferred_exec_advanced_task run (now + of_nat gap) s)"

lemma sint_small:
  assumes "- (2 ^ 31) \<le> i" "i < 2 ^ 31"
  shows "sint (of_int i :: u32) = i"
  using assms by (simp add: signed_of_int signed_take_bit_int_eq_self)

lemma sint_diff: "x < 2 ^ 31 \<Longrightarrow> y < 2 ^ 31 \<Longrightarrow> sint (t + of_nat x - (t + of_nat y) :: u32) = int x - int y"
  using sint_small [of "int x - int y"] by simp

lemma is_due_after:
  assumes "token entry \<noteq> INVALID_DEFERRED_TOKEN" "trigger_time entry = now + of_nat d" "d < 2 ^ 31" "gap < 2 ^ 31"
  shows "is_due (now + of_nat gap) entry \<longleftrightarrow> d \<le> gap"
  using assms sint_diff [of d gap now] by (simp add: is_due_def TIMER_DIFF_32_def)

lemma task_when_open:
  assumes "executors_ok (executors s)" "0 < gap" "unat (now - last_execution_time s) + gap < 2 ^ 31"
  shows "deferred_exec_advanced_task (logging ret) (now + of_nat gap) s =
    s\<lparr>last_execution_time := now + of_nat gap, executors := map (after_task ret (now + of_nat gap)) (executors s),
      world := world s @ map log_of (filter (is_due (now + of_nat gap)) (executors s))\<rparr>"
proof -
  define e where "e = unat (now - last_execution_time s)"
  have "now = last_execution_time s + of_nat e"
    by (simp add: e_def)
  then have "now + of_nat gap = last_execution_time s + of_nat (e + gap)"
    by simp
  moreover have "sint (last_execution_time s + of_nat (e + gap) - (last_execution_time s + of_nat 0)) = int (e + gap)"
    using sint_diff [of "e + gap" 0 "last_execution_time s"] assms(3) by (simp add: e_def)
  ultimately have "0 < sint (TIMER_DIFF_32 (now + of_nat gap) (last_execution_time s))"
    using assms(2) by (simp add: TIMER_DIFF_32_def)
  then show ?thesis
    using task_logging [of "s\<lparr>last_execution_time := now + of_nat gap\<rparr>" ret "now + of_nat gap"] assms(1)
    by (simp add: deferred_exec_advanced_task_def)
qed

lemma executors_ok_after_task:
  assumes "executors_ok table"
  shows "executors_ok (map (after_task ret now) table)"
  using assms by (auto simp: executors_ok_def after_task_def Let_def empty_executor_def)

lemma ticks_append: "ticks run now (xs @ ys) s = ticks run (now + of_nat (sum_list xs)) ys (ticks run now xs s)"
  by (induction xs arbitrary: now s) (simp_all add: add.assoc)

text \<open>The state with an executor in an entry that is free.\<close>

definition with_entry ::
    "nat \<Rightarrow> ('cb, 'a) deferred_executor_t \<Rightarrow> ('cb, 'a, 'w) deferred_vars \<Rightarrow> ('cb, 'a, 'w) deferred_vars" where
  "with_entry i entry s = s\<lparr>current_token := token entry, executors := (executors s)[i := entry]\<rparr>"

definition free_entry :: "nat \<Rightarrow> ('cb, 'a, 'w) deferred_vars \<Rightarrow> bool" where
  "free_entry i s \<longleftrightarrow> i < length (executors s) \<and> token (executors s ! i) = INVALID_DEFERRED_TOKEN"

lemma not_due_free: "free_entry i s \<Longrightarrow> \<not> is_due now (executors s ! i)"
  by (simp add: free_entry_def is_due_def)

lemma filter_update_not_due:
  assumes "\<not> P x" "i < length xs" "\<not> P (xs ! i)"
  shows "filter P (xs[i := x]) = filter P xs"
  using assms by (simp add: upd_conv_take_nth_drop) (subst (3) id_take_nth_drop [OF assms(2)], simp)

text \<open>Until the trigger time the tasks do with the executor what they do without it.\<close>

lemma ticks_without:
  fixes ret :: "'cb \<Rightarrow> u32 \<Rightarrow> 'a option \<Rightarrow> u32"
  assumes "executors_ok (executors s)" "executors_ok ((executors s)[i := entry])" "free_entry i s" "token entry \<noteq> INVALID_DEFERRED_TOKEN"
    and "trigger_time entry = now + of_nat d" "d < 2 ^ 31" "\<forall>gap \<in> set gaps. 0 < gap" "sum_list gaps < d"
    and "unat (now - last_execution_time s) + sum_list gaps < 2 ^ 31"
  defines "u \<equiv> ticks (logging ret) now gaps s"
  shows "ticks (logging ret) now gaps (with_entry i entry s) = with_entry i entry u \<and> free_entry i u \<and>
    executors_ok (executors u) \<and> executors_ok ((executors u)[i := entry]) \<and>
    unat (now + of_nat (sum_list gaps) - last_execution_time u) \<le> (if gaps = [] then unat (now - last_execution_time s) else 0)"
  using assms(1-9) unfolding u_def
proof (induction gaps arbitrary: now s d)
  case (Cons gap gaps)
  define now' where "now' = now + of_nat gap"
  define s1 where "s1 = s\<lparr>last_execution_time := now', executors := map (after_task ret now') (executors s),
      world := world s @ map log_of (filter (is_due now') (executors s))\<rparr>"
  have "gap < 2 ^ 31"
    using Cons.prems by simp
  then have not_due: "\<not> is_due now' entry"
    using is_due_after [OF Cons.prems(4,5,6)] Cons.prems(8) by (simp add: now'_def)
  note free = not_due_free [OF Cons.prems(3), of now']
  have i: "i < length (executors s)"
    using Cons.prems(3) by (simp add: free_entry_def)
  have gap: "0 < gap" "unat (now - last_execution_time s) + gap < 2 ^ 31"
    using Cons.prems(7,9) by simp_all
  have task: "deferred_exec_advanced_task (logging ret) now' s = s1"
    unfolding s1_def now'_def using Cons.prems(1) gap by (rule task_when_open)
  have "deferred_exec_advanced_task (logging ret) now' (with_entry i entry s) = with_entry i entry s1"
    using task_when_open [of "with_entry i entry s" gap now ret] Cons.prems(2) gap not_due free i
    by (simp add: with_entry_def s1_def now'_def [symmetric] map_update filter_update_not_due after_task_def)
  moreover have "executors_ok (executors s1)"
    using executors_ok_after_task [OF Cons.prems(1)] by (simp add: s1_def)
  moreover have "executors_ok ((executors s1)[i := entry])"
    using executors_ok_after_task [OF Cons.prems(2), of ret now'] not_due by (simp add: s1_def map_update after_task_def)
  moreover have "free_entry i s1"
    using Cons.prems(3) free i by (simp add: free_entry_def s1_def after_task_def)
  moreover have "trigger_time entry = now' + of_nat (d - gap)"
    using Cons.prems(5,8) by (simp add: of_nat_diff now'_def)
  moreover have "last_execution_time s1 = now'"
    by (simp add: s1_def)
  moreover have "d - gap < 2 ^ 31" "sum_list gaps < d - gap"
    using Cons.prems(6,8) by simp_all
  moreover have sum: "now + of_nat (sum_list (gap # gaps)) = now' + of_nat (sum_list gaps)"
    by (simp add: now'_def add.assoc)
  ultimately show ?case
    unfolding sum using Cons.IH [of s1 now' "d - gap"] Cons.prems(4,6-9)
    by (auto simp: now'_def [symmetric] task split: if_splits)
qed simp

text \<open>
  (C21)
  A queued callback runs once, on time and not before: however often the task has run while less than the delay has
  passed, the calls made are those that would have been made without the executor, and its entry is unchanged; the first task at
  or after the trigger time makes the same calls as without it and one more, of the callback with the trigger time and its
  argument.  Then the token is free when the callback returns zero, and otherwise the executor waits for the next time.
  This needs delays below \<open>2 ^ 31\<close> milliseconds, since the times are compared as signed numbers, and a task at least every
  \<open>2 ^ 31\<close> milliseconds.
\<close>

theorem defer_exec_runs_on_time:
  fixes s :: "('cb, 'a, ('cb \<times> u32 \<times> 'a option) list) deferred_vars" and ret :: "'cb \<Rightarrow> u32 \<Rightarrow> 'a option \<Rightarrow> u32"
  assumes ok: "executors_ok (executors s)"
    and queued: "defer_exec_advanced now delay_ms (Some cb) arg s = (t, s1)" "t \<noteq> INVALID_DEFERRED_TOKEN"
    and gaps: "\<forall>gap \<in> set gaps. 0 < gap" "sum_list gaps < unat delay_ms"
    and gap: "0 < gap" "unat delay_ms \<le> sum_list gaps + gap"
    and bound: "unat delay_ms < 2 ^ 31" "unat (now - last_execution_time s) + sum_list gaps + gap < 2 ^ 31"
  defines "s2 \<equiv> ticks (logging ret) now gaps s1" and "s3 \<equiv> ticks (logging ret) now (gaps @ [gap]) s1"
    and "entry \<equiv> \<lparr>token = t, trigger_time = now + delay_ms, callback = Some cb, cb_arg = arg\<rparr>"
    and "again \<equiv> ret cb (now + delay_ms) arg"
  shows "entry \<in> set (executors s2) \<and> world s2 = world (ticks (logging ret) now gaps s) \<and>
    (\<exists>xs ys. world (ticks (logging ret) now (gaps @ [gap]) s) = world s2 @ xs @ ys \<and>
       world s3 = world s2 @ xs @ (cb, now + delay_ms, arg) # ys) \<and>
    (if again = 0 then t \<notin> token ` set (executors s3)
     else entry\<lparr>trigger_time := now + delay_ms + again\<rparr> \<in> set (executors s3))"
proof -
  obtain i where i: "find_entry INVALID_DEFERRED_TOKEN (executors s) = Some i" "token_can_be_used (executors s) t"
      "s1 = with_entry i entry s"
    using queued by (cases rule: defer_exec_cases [OF queued(1)]) (simp_all add: entry_def with_entry_def)
  have free: "free_entry i s" and ok1: "executors_ok ((executors s)[i := entry])"
    using executors_ok_claim [OF ok, of entry i] i(2) find_entry_Some [OF i(1)] by (simp_all add: free_entry_def entry_def)
  have e: "token entry \<noteq> INVALID_DEFERRED_TOKEN" "trigger_time entry = now + of_nat (unat delay_ms)" "callback entry = Some cb"
    using queued(2) by (simp_all add: entry_def)
  define u where "u = ticks (logging ret) now gaps s"
  define now3 where "now3 = now + of_nat (sum_list gaps) + of_nat gap"
  have last: "unat (now - last_execution_time s) + sum_list gaps < 2 ^ 31"
    using bound(2) by simp
  note waits = ticks_without [OF ok ok1 free e(1,2) bound(1) gaps last, of ret, folded u_def i(3), folded s2_def]
  have s2: "s2 = with_entry i entry u" "executors s2 = (executors u)[i := entry]" "i < length (executors u)"
    using waits by (simp_all add: with_entry_def free_entry_def)
  have lately: "unat (now + of_nat (sum_list gaps) - last_execution_time u) + gap < 2 ^ 31"
    using waits bound(2) by (auto split: if_splits)
  have s3: "s3 = s2\<lparr>last_execution_time := now3, executors := map (after_task ret now3) (executors s2),
      world := world s2 @ map log_of (filter (is_due now3) (executors s2))\<rparr>"
    using task_when_open [of s2 gap "now + of_nat (sum_list gaps)" ret] waits gap(1) lately
    by (simp add: s3_def s2_def [symmetric] ticks_append now3_def) (simp add: s2(1) with_entry_def)
  have without: "world (ticks (logging ret) now (gaps @ [gap]) s) = world u @ map log_of (filter (is_due now3) (executors u))"
    using task_when_open [of u gap "now + of_nat (sum_list gaps)" ret] waits gap(1) lately
    by (simp add: u_def [symmetric] ticks_append now3_def)
  have due: "is_due now3 entry"
    using is_due_after [OF e(1,2) bound(1), of "sum_list gaps + gap"] bound(2) gap(2) by (simp add: now3_def add.assoc)
  define xs where "xs = map log_of (filter (is_due now3) (take i (executors u)))"
  define ys where "ys = map log_of (filter (is_due now3) (drop (Suc i) (executors u)))"
  have "world (ticks (logging ret) now (gaps @ [gap]) s) = world u @ xs @ ys"
    unfolding without using not_due_free [of i u now3] waits
    by (subst id_take_nth_drop [OF s2(3)]) (simp add: xs_def ys_def)
  moreover have "world s3 = world u @ xs @ (cb, now + delay_ms, arg) # ys"
    using s2 due by (simp add: s3 upd_conv_take_nth_drop xs_def ys_def with_entry_def) (simp add: log_of_def entry_def)
  moreover have "world s2 = world u"
    by (simp add: s2(1) with_entry_def)
  moreover have mem: "entry \<in> set (executors s2)"
    using s2 by (simp add: set_update_memI)
  moreover have "entry\<lparr>trigger_time := now + delay_ms + again\<rparr> \<in> set (executors s3)" if "again \<noteq> 0"
  proof -
    have "after_task ret now3 entry = entry\<lparr>trigger_time := now + delay_ms + again\<rparr>"
      using due that by (simp add: after_task_def Let_def word_gt_0) (simp add: entry_def again_def)
    then show ?thesis
      using mem by (force simp: s3)
  qed
  moreover have "t \<notin> token ` set (executors s3)" if "again = 0"
  proof
    assume "t \<in> token ` set (executors s3)"
    then obtain j where j: "j < length (executors s2)" "token (after_task ret now3 (executors s2 ! j)) = t"
      by (auto simp: s3 in_set_conv_nth)
    have "token (executors s2 ! j) = t"
      using j queued(2) by (auto simp: after_task_def Let_def empty_executor_def split: if_splits)
    moreover have "executors_ok (executors s2)" "executors s2 ! i = entry" "i < length (executors s2)"
      using waits s2 by simp_all
    ultimately have "j = i"
      using j(1) queued(2) by (intro executors_ok_inj [of "executors s2"]) (simp_all add: entry_def)
    then show False
      using j s2 due that queued(2) by (auto simp: after_task_def Let_def empty_executor_def entry_def again_def)
  qed
  ultimately show ?thesis
    unfolding u_def by auto
qed

theorem defer_exec_runs_on_time_witness:
  "let s = deferred_start 2 [] :: (nat, nat, (nat \<times> u32 \<times> nat option) list) deferred_vars;
       s1 = snd (defer_exec_advanced 100 5 (Some 7) (Some 3) s)
   in world (ticks (logging (\<lambda>_ _ _. 0)) 100 [2, 1] s1) = [] \<and>
      world (ticks (logging (\<lambda>_ _ _. 0)) 100 ([2, 1] @ [4]) s1) = [(7, 105, Some 3)]"
proof -
  define s where "s = (deferred_start 2 [] :: (nat, nat, (nat \<times> u32 \<times> nat option) list) deferred_vars)"
  have ok: "executors_ok (executors s)"
    by (simp add: s_def deferred_start_def executors_ok_def empty_executor_def)
  obtain t s1 where queued: "defer_exec_advanced 100 5 (Some 7) (Some 3) s = (t, s1)"
    by (metis surj_pair)
  have "fst (defer_exec_advanced 100 5 (Some 7) (Some 3) s) = 1"
    unfolding s_def by code_simp
  then have "t \<noteq> INVALID_DEFERRED_TOKEN"
    by (simp add: queued)
  moreover have "world (ticks (logging (\<lambda>_ _ _. 0)) 100 [2, 1] s) = []" "world (ticks (logging (\<lambda>_ _ _. 0)) 100 ([2, 1] @ [4]) s) = []"
    unfolding s_def by code_simp+
  ultimately show ?thesis
    using defer_exec_runs_on_time [OF ok queued, of "[2, 1]" 4 "\<lambda>_ _ _. 0"] queued
    by (auto simp: s_def [symmetric] Let_def) (simp_all add: s_def deferred_start_def)
qed

text \<open>
  A callback that cancels itself and queues a new executor, which takes the entry that has become free, and returns zero:
  the task then clears the new executor.
\<close>

definition restart :: "(nat, nat, deferred_token) run_callback" where
  "restart cb t a s =
    (let (_, s) = cancel_deferred_exec_advanced (world s) s; (_, s) = defer_exec_advanced t 50 (Some cb) a s in (0, s))"

theorem restarted_executor_lost:
  "let (t, s) = defer_exec_advanced 100 5 (Some 7) None (deferred_start 2 0); s = s\<lparr>world := t\<rparr>
   in current_token (deferred_exec_advanced_task restart 105 s) = 2 \<and>
      executors (deferred_exec_advanced_task restart 105 s) = [empty_executor, empty_executor]"
  by code_simp

end
