(* ===== verification/Crc.thy ===== *)
theory Crc
  imports Prelude
begin

text \<open>
  quantum/crc.c: the checksum of the messages between the halves of a split keyboard, in its two implementations, one
  bit at a time and with a table.  \<open>crc_t\<close> is a type of at least eight bits (\<open>uint_least8_t\<close> or \<open>uint_fast8_t\<close>, which has
  32 bits on ARM), here a word of any such width.
\<close>

section \<open>One bit at a time\<close>

definition crc_bit :: "'w::len word \<Rightarrow> 'w word" where
  "crc_bit crc = (if crc AND 0x80 \<noteq> 0 then push_bit 1 crc XOR 0x31 else push_bit 1 crc)"

definition crc_byte :: "'w::len word \<Rightarrow> u8 \<Rightarrow> 'w word" where
  "crc_byte crc d = (crc_bit ^^ 8) (crc XOR ucast d)"

definition crc8_wide :: "'w::len itself \<Rightarrow> u8 list \<Rightarrow> u8" where
  "crc8_wide _ data = ucast (foldl crc_byte (0xff :: 'w word) data)"

definition crc8 :: "u8 list \<Rightarrow> u8" where
  "crc8 data = crc8_wide TYPE(8) data"

section \<open>With the table\<close>

definition crc_table :: "u8 list" where
  "crc_table =
    [0x00, 0x07, 0x0e, 0x09, 0x1c, 0x1b, 0x12, 0x15, 0x38, 0x3f, 0x36, 0x31, 0x24, 0x23, 0x2a, 0x2d,
     0x70, 0x77, 0x7e, 0x79, 0x6c, 0x6b, 0x62, 0x65, 0x48, 0x4f, 0x46, 0x41, 0x54, 0x53, 0x5a, 0x5d,
     0xe0, 0xe7, 0xee, 0xe9, 0xfc, 0xfb, 0xf2, 0xf5, 0xd8, 0xdf, 0xd6, 0xd1, 0xc4, 0xc3, 0xca, 0xcd,
     0x90, 0x97, 0x9e, 0x99, 0x8c, 0x8b, 0x82, 0x85, 0xa8, 0xaf, 0xa6, 0xa1, 0xb4, 0xb3, 0xba, 0xbd,
     0xc7, 0xc0, 0xc9, 0xce, 0xdb, 0xdc, 0xd5, 0xd2, 0xff, 0xf8, 0xf1, 0xf6, 0xe3, 0xe4, 0xed, 0xea,
     0xb7, 0xb0, 0xb9, 0xbe, 0xab, 0xac, 0xa5, 0xa2, 0x8f, 0x88, 0x81, 0x86, 0x93, 0x94, 0x9d, 0x9a,
     0x27, 0x20, 0x29, 0x2e, 0x3b, 0x3c, 0x35, 0x32, 0x1f, 0x18, 0x11, 0x16, 0x03, 0x04, 0x0d, 0x0a,
     0x57, 0x50, 0x59, 0x5e, 0x4b, 0x4c, 0x45, 0x42, 0x6f, 0x68, 0x61, 0x66, 0x73, 0x74, 0x7d, 0x7a,
     0x89, 0x8e, 0x87, 0x80, 0x95, 0x92, 0x9b, 0x9c, 0xb1, 0xb6, 0xbf, 0xb8, 0xad, 0xaa, 0xa3, 0xa4,
     0xf9, 0xfe, 0xf7, 0xf0, 0xe5, 0xe2, 0xeb, 0xec, 0xc1, 0xc6, 0xcf, 0xc8, 0xdd, 0xda, 0xd3, 0xd4,
     0x69, 0x6e, 0x67, 0x60, 0x75, 0x72, 0x7b, 0x7c, 0x51, 0x56, 0x5f, 0x58, 0x4d, 0x4a, 0x43, 0x44,
     0x19, 0x1e, 0x17, 0x10, 0x05, 0x02, 0x0b, 0x0c, 0x21, 0x26, 0x2f, 0x28, 0x3d, 0x3a, 0x33, 0x34,
     0x4e, 0x49, 0x40, 0x47, 0x52, 0x55, 0x5c, 0x5b, 0x76, 0x71, 0x78, 0x7f, 0x6a, 0x6d, 0x64, 0x63,
     0x3e, 0x39, 0x30, 0x37, 0x22, 0x25, 0x2c, 0x2b, 0x06, 0x01, 0x08, 0x0f, 0x1a, 0x1d, 0x14, 0x13,
     0xae, 0xa9, 0xa0, 0xa7, 0xb2, 0xb5, 0xbc, 0xbb, 0x96, 0x91, 0x98, 0x9f, 0x8a, 0x8d, 0x84, 0x83,
     0xde, 0xd9, 0xd0, 0xd7, 0xc2, 0xc5, 0xcc, 0xcb, 0xe6, 0xe1, 0xe8, 0xef, 0xfa, 0xfd, 0xf4, 0xf3]"

definition crc8_table :: "u8 list \<Rightarrow> u8" where
  "crc8_table data = foldl (\<lambda>crc d. crc_table ! unat (crc XOR d)) 0xff data"

section \<open>The division by a polynomial\<close>

text \<open>Both implementations divide by a polynomial of degree eight, \<open>p\<close> being its lower coefficients.\<close>

definition poly_bit :: "u8 \<Rightarrow> u8 \<Rightarrow> u8" where
  "poly_bit p crc = (if bit crc 7 then push_bit 1 crc XOR p else push_bit 1 crc)"

definition poly_byte :: "u8 \<Rightarrow> u8 \<Rightarrow> u8 \<Rightarrow> u8" where
  "poly_byte p crc d = (poly_bit p ^^ 8) (crc XOR d)"

lemma bit_double: "bit (x * 2) i \<longleftrightarrow> 0 < i \<and> i < LENGTH('w) \<and> bit x (i - 1)" for x :: "'w::len word"
  using bit_double_iff [of x i] by (auto simp: mult.commute)

lemma bit_poly_bit:
  "bit (poly_bit p crc) i \<longleftrightarrow> i < 8 \<and> ((0 < i \<and> bit crc (i - 1)) \<noteq> (bit crc 7 \<and> bit p i))"
  by (auto simp: poly_bit_def bit_double bit_simps dest: bit_imp_le_length)

text \<open>The lowest coefficient of the polynomial is one, so a step loses nothing.\<close>

lemma poly_bit_inj:
  assumes "bit p 0" "poly_bit p x = poly_bit p y"
  shows "x = y"
proof (rule bit_word_eqI)
  have eq: "bit (poly_bit p x) i \<longleftrightarrow> bit (poly_bit p y) i" for i
    by (simp add: assms(2))
  have top: "bit x 7 \<longleftrightarrow> bit y 7"
    using eq [of 0] assms(1) by (simp add: bit_poly_bit)
  fix i
  assume "i < LENGTH(8)"
  then show "bit x i \<longleftrightarrow> bit y i"
    using eq [of "Suc i"] top by (cases "i = 7") (auto simp: bit_poly_bit)
qed

lemma poly_byte_inj:
  assumes "bit p 0" "poly_byte p x d = poly_byte p y e"
  shows "x XOR d = y XOR e"
proof -
  have "inj (poly_bit p)"
    using poly_bit_inj [OF assms(1)] by (simp add: inj_def)
  then have "inj (poly_bit p ^^ 8)"
    by (rule inj_fn)
  then show ?thesis
    using assms(2) by (simp add: poly_byte_def inj_eq)
qed

lemma xor_cancel: "x XOR d = y XOR d \<longleftrightarrow> x = y" for x y d :: u8
  by (auto simp: bit_word_eqI_iff bit_xor_iff)

lemma foldl_poly_byte_inj:
  "bit p 0 \<Longrightarrow> foldl (poly_byte p) x data = foldl (poly_byte p) y data \<longleftrightarrow> x = y"
proof (induction data arbitrary: x y)
  case (Cons d data)
  have "poly_byte p x d = poly_byte p y d \<longleftrightarrow> x = y"
    using poly_byte_inj [OF Cons.prems, of x d y d] by (auto simp: xor_cancel)
  then show ?case
    by (simp only: foldl_Cons Cons.IH [OF Cons.prems])
qed simp

lemma crc_bit_poly: "crc_bit crc = poly_bit 0x31 crc"
proof -
  have "crc AND 0x80 \<noteq> 0 \<longleftrightarrow> bit crc 7"
    using word_and_mask_eq_0 [of crc 7] by simp
  then show ?thesis
    by (simp only: crc_bit_def poly_bit_def)
qed

lemma crc8_poly: "crc8 data = foldl (poly_byte 0x31) 0xff data"
proof -
  have "crc_byte crc d = poly_byte 0x31 crc d" for crc d
    by (simp add: crc_byte_def poly_byte_def crc_bit_poly [abs_def])
  then have "foldl crc_byte x data = foldl (poly_byte 0x31) x data" for x :: u8
    by (induction data arbitrary: x) simp_all
  then show ?thesis
    by (simp add: crc8_def crc8_wide_def)
qed

text \<open>The remainder is linear, so that the table for \<open>k + 1\<close> bits is the table for \<open>k\<close> bits twice, once with the remainder of \<open>2 ^ k\<close> added.\<close>

lemma poly_bits_xor: "(poly_bit p ^^ n) (x XOR y) = (poly_bit p ^^ n) x XOR (poly_bit p ^^ n) y"
proof (induction n)
  case (Suc n)
  have "poly_bit p (x XOR y) = poly_bit p x XOR poly_bit p y" for x y
    by (rule bit_word_eqI) (auto simp: bit_poly_bit bit_simps)
  then show ?case
    by (simp add: Suc)
qed simp

lemma power_plus_xor:
  assumes "j < 2 ^ k"
  shows "(of_nat (2 ^ k + j) :: u8) = 2 ^ k XOR of_nat j"
proof -
  have "\<not> bit j i" if "bit (2 ^ k :: nat) i" for i
  proof -
    have "i = k"
      using that by (simp add: bit_exp_iff)
    then show ?thesis
      using assms by (simp add: bit_iff_odd)
  qed
  then have "(2 ^ k :: nat) AND j = 0"
    by (intro bit_eqI) (auto simp: bit_and_iff)
  then have "2 ^ k + j = 2 ^ k XOR j"
    by (rule disjunctive_add_eq_xor)
  then show ?thesis
    by (simp add: of_nat_xor_eq)
qed

lemma remainders_double:
  "map (\<lambda>i. (poly_bit p ^^ 8) (of_nat i)) [0..<2 ^ Suc k] =
    (let table = map (\<lambda>i. (poly_bit p ^^ 8) (of_nat i)) [0..<2 ^ k] in table @ map (\<lambda>x. (poly_bit p ^^ 8) (2 ^ k) XOR x) table)"
proof -
  have "[0..<2 ^ Suc k] = [0..<2 ^ k] @ map (\<lambda>j. 2 ^ k + j) [0..<2 ^ k]"
    using map_add_upt [of "2 ^ k" "2 ^ k"] upt_add_eq_append [of 0 "2 ^ k" "2 ^ k"] by (simp add: mult_2 add.commute)
  then show ?thesis
    by (simp add: power_plus_xor poly_bits_xor Let_def del: funpow.simps upt_Suc of_nat_add)
qed

lemma funpow_8: "(f ^^ 8) x = f (f (f (f (f (f (f (f x)))))))"
  by (simp add: eval_nat_numeral)

lemma poly_basis:
  "(poly_bit 7 ^^ 8) 1 = 0x07" "(poly_bit 7 ^^ 8) 2 = 0x0e" "(poly_bit 7 ^^ 8) 4 = 0x1c" "(poly_bit 7 ^^ 8) 8 = 0x38"
  "(poly_bit 7 ^^ 8) 16 = 0x70" "(poly_bit 7 ^^ 8) 32 = 0xe0" "(poly_bit 7 ^^ 8) 64 = 0xc7" "(poly_bit 7 ^^ 8) 128 = 0x89"
  by (simp_all add: funpow_8 poly_bit_def)

lemma crc_table_poly: "crc_table = map (\<lambda>i. (poly_bit 7 ^^ 8) (of_nat i)) [0..<256]"
proof -
  define table where "table k = map (\<lambda>i. (poly_bit 7 ^^ 8) (of_nat i)) [0..<2 ^ k]" for k
  have zero: "table 0 = [0]"
    by (simp add: table_def poly_bit_def eval_nat_numeral)
  have Suc: "table (Suc k) = table k @ map (\<lambda>x. (poly_bit 7 ^^ 8) (2 ^ k) XOR x) (table k)" for k
    using remainders_double [of 7 k] by (simp only: table_def Let_def)
  have "table (Suc (Suc (Suc (Suc (Suc (Suc (Suc (Suc 0)))))))) = crc_table"
    by (simp add: Suc zero poly_basis crc_table_def del: funpow.simps)
  then have "table 8 = crc_table"
    by (simp add: eval_nat_numeral)
  then show ?thesis
    by (simp add: table_def)
qed

lemma crc8_table_poly: "crc8_table data = foldl (poly_byte 7) 0xff data"
proof -
  have "crc_table ! unat (crc XOR d) = poly_byte 7 crc d" for crc d :: u8
    using unat_less_numeral_8 [of "crc XOR d"] by (simp add: crc_table_poly poly_byte_def del: upt_Suc)
  then show ?thesis
    by (simp add: crc8_table_def)
qed

text \<open>
  The two implementations divide by different polynomials, \<open>x^8 + x^5 + x^4 + 1\<close> bit by bit and \<open>x^8 + x^2 + x + 1\<close> with the table,
  so a firmware built with the table and one without disagree on the checksum of a message.
\<close>

theorem crc8_polynomials:
  "crc8 data = foldl (poly_byte 0x31) 0xff data \<and> crc8_table data = foldl (poly_byte 0x07) 0xff data \<and>
   crc8 [0] = 0xac \<and> crc8_table [0] = 0xf3"
proof -
  have "poly_byte 0x31 0xff 0 = 0xac" "poly_byte 0x07 0xff 0 = 0xf3"
    by (simp_all add: funpow_8 poly_byte_def poly_bit_def)
  then show ?thesis
    by (simp add: crc8_poly crc8_table_poly)
qed

text \<open>
  Either checksum notices any damage within one byte of a message, at any place.
\<close>

theorem crc8_detects:
  "(crc8 (xs @ a # ys) = crc8 (xs @ b # ys) \<longleftrightarrow> a = b) \<and> (crc8_table (xs @ a # ys) = crc8_table (xs @ b # ys) \<longleftrightarrow> a = b)"
proof -
  have "foldl (poly_byte p) 0xff (xs @ a # ys) = foldl (poly_byte p) 0xff (xs @ b # ys) \<longleftrightarrow> a = b" if "bit p 0" for p
  proof -
    have "poly_byte p x a = poly_byte p x b \<longleftrightarrow> a = b" for x
      using poly_byte_inj [OF that, of x a x b] by (auto simp: xor_cancel xor.commute [of x])
    then show ?thesis
      by (simp add: foldl_poly_byte_inj [OF that])
  qed
  then show ?thesis
    by (simp add: crc8_poly crc8_table_poly)
qed

section \<open>The width of the type does not matter\<close>

lemma bit_crc_bit:
  fixes crc :: "'w::len word"
  assumes "i < 8" "8 \<le> LENGTH('w)"
  shows "bit (crc_bit crc) i \<longleftrightarrow> (0 < i \<and> bit crc (i - 1)) \<noteq> (bit crc 7 \<and> bit (0x31 :: int) i)"
  using assms word_and_mask_eq_0 [of crc 7]
  by (auto simp: crc_bit_def bit_double bit_simps bit_numeral_word_iff dest: bit_imp_le_length)

lemma ucast_crc_bit:
  fixes crc :: "'w::len word"
  assumes "8 \<le> LENGTH('w)"
  shows "ucast (crc_bit crc) = (crc_bit (ucast crc) :: u8)"
proof (rule bit_word_eqI)
  fix i
  assume "i < LENGTH(8)"
  then show "bit (ucast (crc_bit crc) :: u8) i \<longleftrightarrow> bit (crc_bit (ucast crc :: u8)) i"
    using assms by (auto simp: bit_crc_bit bit_simps)
qed

lemma crc8_width: "8 \<le> LENGTH('w::len) \<Longrightarrow> crc8_wide TYPE('w) data = crc8 data"
proof -
  assume w: "8 \<le> LENGTH('w)"
  have bits: "ucast ((crc_bit ^^ n) crc) = (crc_bit ^^ n) (ucast crc :: u8)" for crc :: "'w word" and n
    by (induction n) (simp_all add: ucast_crc_bit [OF w])
  have "ucast (foldl crc_byte crc data) = foldl crc_byte (ucast crc :: u8) data" for crc :: "'w word"
  proof (induction data arbitrary: crc)
    case (Cons d data)
    have "ucast (crc XOR ucast d) = (ucast crc XOR d :: u8)"
      using w by (intro bit_word_eqI) (auto simp: bit_simps)
    then have "ucast (crc_byte crc d) = (crc_byte (ucast crc) d :: u8)"
      by (simp add: crc_byte_def bits del: funpow.simps)
    then show ?case
      by (simp add: Cons)
  qed simp
  moreover have "ucast (0xff :: 'w word) = (0xff :: u8)"
    using w by (intro bit_word_eqI) (auto simp: bit_simps bit_numeral_word_iff)
  ultimately show ?thesis
    by (simp add: crc8_def crc8_wide_def)
qed

end
