(* ===== verification/DynamicMacro.thy ===== *)
theory DynamicMacro
  imports Events
begin

text \<open>
  quantum/process_keycode/process_dynamic_macro.c: two macros, recorded from key events into the two ends of one buffer.
  A pointer into the buffer is the index of its element; \<open>r_macro_end\<close> may be one below the first.  A direction is \<open>1\<close>
  (macro 1) or \<open>- 1\<close> (macro 2).

  Playing a macro processes its records as if they were typed, and so may play a macro in turn.  The rest of the
  firmware is an environment over a state \<open>'w\<close>: the keycode of a record, what is done with a record that the dynamic
  macros pass on (which may change the record in the buffer, as the tapping code does), clearing keys and layers, what a
  press that the dynamic macros swallow does to an active one-shot layer, and the hooks of the keymap.
\<close>

section \<open>State and environment\<close>

abbreviation QK_DYNAMIC_MACRO_RECORD_START_1 :: u16 where "QK_DYNAMIC_MACRO_RECORD_START_1 \<equiv> 0x7C53"
abbreviation QK_DYNAMIC_MACRO_RECORD_START_2 :: u16 where "QK_DYNAMIC_MACRO_RECORD_START_2 \<equiv> 0x7C54"
abbreviation QK_DYNAMIC_MACRO_RECORD_STOP :: u16 where "QK_DYNAMIC_MACRO_RECORD_STOP \<equiv> 0x7C55"
abbreviation QK_DYNAMIC_MACRO_PLAY_1 :: u16 where "QK_DYNAMIC_MACRO_PLAY_1 \<equiv> 0x7C56"
abbreviation QK_DYNAMIC_MACRO_PLAY_2 :: u16 where "QK_DYNAMIC_MACRO_PLAY_2 \<equiv> 0x7C57"

record 'w dynamic_macro =
  macro_buffer :: "keyrecord_t list"
  macro_end :: int
  r_macro_end :: int
  macro_pointer :: int
  macro_id :: nat
  world :: 'w

record 'w macro_env =
  DYNAMIC_MACRO_NO_NESTING :: bool
  me_keycode :: "keyrecord_t \<Rightarrow> 'w \<Rightarrow> u16 \<times> 'w"
  me_process :: "u16 \<Rightarrow> keyrecord_t \<Rightarrow> 'w \<Rightarrow> keyrecord_t \<times> 'w"
  me_clear_keyboard :: "'w \<Rightarrow> 'w"
  me_layer_state :: "'w \<Rightarrow> u32"
  me_layer_state_set :: "u32 \<Rightarrow> 'w \<Rightarrow> 'w"
  me_valid_key :: "u16 \<Rightarrow> keyrecord_t \<Rightarrow> 'w \<Rightarrow> bool \<times> 'w"
  me_record_start :: "int \<Rightarrow> 'w \<Rightarrow> 'w"
  me_play :: "int \<Rightarrow> 'w \<Rightarrow> 'w"
  me_record_key :: "int \<Rightarrow> keyrecord_t \<Rightarrow> 'w \<Rightarrow> 'w"
  me_record_end :: "int \<Rightarrow> 'w \<Rightarrow> 'w"
  me_other_key_pressed :: "'w \<Rightarrow> 'w"

text \<open>\<open>macro_pointer\<close> is \<open>NULL\<close> at first, and not used before a recording sets it.\<close>

definition dynamic_macro_start :: "nat \<Rightarrow> 'w \<Rightarrow> 'w dynamic_macro" where
  "dynamic_macro_start DYNAMIC_MACRO_SIZE w =
    \<lparr>macro_buffer = replicate DYNAMIC_MACRO_SIZE empty_record, macro_end = 0, r_macro_end = int DYNAMIC_MACRO_SIZE - 1,
     macro_pointer = 0, macro_id = 0, world = w\<rparr>"

definition r_macro_buffer :: "'w dynamic_macro \<Rightarrow> int" where
  "r_macro_buffer s = int (length (macro_buffer s)) - 1"

definition on_world :: "('w \<Rightarrow> 'w) \<Rightarrow> 'w dynamic_macro \<Rightarrow> 'w dynamic_macro" where
  "on_world f s = s\<lparr>world := f (world s)\<rparr>"

section \<open>Recording\<close>

definition dynamic_macro_record_start :: "'w macro_env \<Rightarrow> int \<Rightarrow> int \<Rightarrow> 'w dynamic_macro \<Rightarrow> 'w dynamic_macro" where
  "dynamic_macro_record_start e begin_pos direction s =
    (let s = on_world (me_record_start e direction) s;
         s = on_world (me_layer_state_set e 0) (on_world (me_clear_keyboard e) s)
     in s\<lparr>macro_pointer := begin_pos\<rparr>)"

definition dynamic_macro_record_key ::
    "'w macro_env \<Rightarrow> int \<Rightarrow> int \<Rightarrow> int \<Rightarrow> keyrecord_t \<Rightarrow> 'w dynamic_macro \<Rightarrow> 'w dynamic_macro" where
  "dynamic_macro_record_key e begin_pos macro2_end direction record s =
    (if \<not> ev_pressed (event record) \<and> macro_pointer s = begin_pos then s
     else if macro_pointer s - direction \<noteq> macro2_end then
       s\<lparr>macro_buffer := (macro_buffer s)[nat (macro_pointer s) := record], macro_pointer := macro_pointer s + direction\<rparr>
     else on_world (me_record_key e direction record) s)"

text \<open>The loop of \<open>dynamic_macro_record_end\<close>, by the distance of the pointer from the start of the macro.\<close>

primrec trim_trailing :: "keyrecord_t list \<Rightarrow> int \<Rightarrow> nat \<Rightarrow> int \<Rightarrow> int" where
  "trim_trailing buffer direction 0 p = p"
| "trim_trailing buffer direction (Suc k) p =
    (if ev_pressed (event (buffer ! nat (p - direction))) then trim_trailing buffer direction k (p - direction) else p)"

definition dynamic_macro_record_end :: "'w macro_env \<Rightarrow> int \<Rightarrow> int \<Rightarrow> 'w dynamic_macro \<Rightarrow> int \<times> 'w dynamic_macro" where
  "dynamic_macro_record_end e begin_pos direction s =
    (let s = on_world (me_record_end e direction) s
     in (trim_trailing (macro_buffer s) direction (nat (direction * (macro_pointer s - begin_pos))) (macro_pointer s), s))"

definition dynamic_macro_stop_recording :: "'w macro_env \<Rightarrow> 'w dynamic_macro \<Rightarrow> 'w dynamic_macro" where
  "dynamic_macro_stop_recording e s =
    (let s = (if macro_id s = 1 then (let (p, s) = dynamic_macro_record_end e 0 1 s in s\<lparr>macro_end := p\<rparr>)
              else if macro_id s = 2 then
                (let (p, s) = dynamic_macro_record_end e (r_macro_buffer s) (- 1) s in s\<lparr>r_macro_end := p\<rparr>)
              else s)
     in s\<lparr>macro_id := 0\<rparr>)"

section \<open>Playing\<close>

text \<open>
  \<open>process\<close> is \<open>process_record\<close>: whether the record has been passed on, the record afterwards, and the state.  It may
  not return, and then is \<open>None\<close>.
\<close>

partial_function (option) play_loop ::
    "(keyrecord_t \<Rightarrow> 'w dynamic_macro \<Rightarrow> (bool \<times> keyrecord_t \<times> 'w dynamic_macro) option) \<Rightarrow> int \<Rightarrow> int \<Rightarrow> int \<Rightarrow>
     'w dynamic_macro \<Rightarrow> 'w dynamic_macro option" where
  "play_loop process p end_pos direction s =
    (if p = end_pos then Some s
     else (case process (macro_buffer s ! nat p) s of
         None \<Rightarrow> None
       | Some (passed, r, s) \<Rightarrow>
           play_loop process (p + direction) end_pos direction
             (if passed then s\<lparr>macro_buffer := (macro_buffer s)[nat p := r]\<rparr> else s)))"

definition dynamic_macro_play ::
    "'w macro_env \<Rightarrow> (keyrecord_t \<Rightarrow> 'w dynamic_macro \<Rightarrow> (bool \<times> keyrecord_t \<times> 'w dynamic_macro) option) \<Rightarrow>
     int \<Rightarrow> int \<Rightarrow> int \<Rightarrow> 'w dynamic_macro \<Rightarrow> 'w dynamic_macro option" where
  "dynamic_macro_play e process begin_pos end_pos direction s =
    (let saved_layer_state = me_layer_state e (world s);
         s = on_world (me_layer_state_set e 0) (on_world (me_clear_keyboard e) s)
     in case play_loop process begin_pos end_pos direction s of
          None \<Rightarrow> None
        | Some s \<Rightarrow>
            (let s = on_world (me_clear_keyboard e) s; s = on_world (me_layer_state_set e saved_layer_state) s
             in Some (on_world (me_play e direction) s)))"

section \<open>The keys\<close>

definition process_dynamic_macro ::
    "'w macro_env \<Rightarrow> (keyrecord_t \<Rightarrow> 'w dynamic_macro \<Rightarrow> (bool \<times> keyrecord_t \<times> 'w dynamic_macro) option) \<Rightarrow>
     u16 \<Rightarrow> keyrecord_t \<Rightarrow> 'w dynamic_macro \<Rightarrow> (bool \<times> 'w dynamic_macro) option" where
  "process_dynamic_macro e process keycode record s =
    (if macro_id s = 0 then
       (if \<not> ev_pressed (event record) then
          (if keycode = QK_DYNAMIC_MACRO_RECORD_START_1 then
             Some (False, (dynamic_macro_record_start e 0 1 s)\<lparr>macro_id := 1\<rparr>)
           else if keycode = QK_DYNAMIC_MACRO_RECORD_START_2 then
             Some (False, (dynamic_macro_record_start e (r_macro_buffer s) (- 1) s)\<lparr>macro_id := 2\<rparr>)
           else if keycode = QK_DYNAMIC_MACRO_PLAY_1 then
             map_option (Pair False) (dynamic_macro_play e process 0 (macro_end s) 1 s)
           else if keycode = QK_DYNAMIC_MACRO_PLAY_2 then
             map_option (Pair False) (dynamic_macro_play e process (r_macro_buffer s) (r_macro_end s) (- 1) s)
           else Some (True, s))
        else Some (True, s))
     else if keycode = QK_DYNAMIC_MACRO_RECORD_START_1 \<or> keycode = QK_DYNAMIC_MACRO_RECORD_START_2 \<or>
         keycode = QK_DYNAMIC_MACRO_RECORD_STOP then
       Some (False, if ev_pressed (event record) \<noteq> (keycode \<noteq> QK_DYNAMIC_MACRO_RECORD_STOP)
         then dynamic_macro_stop_recording e s else s)
     else if DYNAMIC_MACRO_NO_NESTING e \<and> (keycode = QK_DYNAMIC_MACRO_PLAY_1 \<or> keycode = QK_DYNAMIC_MACRO_PLAY_2) then
       Some (False, s)
     else
       (let (valid, w) = me_valid_key e keycode record (world s); s = s\<lparr>world := w\<rparr>
        in Some (True,
             if valid then
               (if macro_id s = 1 then dynamic_macro_record_key e 0 (r_macro_end s) 1 record s
                else if macro_id s = 2 then dynamic_macro_record_key e (r_macro_buffer s) (macro_end s) (- 1) record s
                else s)
             else s)))"

text \<open>
  \<open>process_record\<close> of the record of a key, with a bound on the depth of the nesting.  A press that is swallowed ends
  an active one-shot layer.
\<close>

primrec process_record_nested ::
    "'w macro_env \<Rightarrow> nat \<Rightarrow> keyrecord_t \<Rightarrow> 'w dynamic_macro \<Rightarrow> (bool \<times> keyrecord_t \<times> 'w dynamic_macro) option" where
  "process_record_nested e 0 record s = None"
| "process_record_nested e (Suc depth) record s =
    (let (keycode, w) = me_keycode e record (world s); s = s\<lparr>world := w\<rparr>
     in case process_dynamic_macro e (process_record_nested e depth) keycode record s of
          None \<Rightarrow> None
        | Some (False, s) \<Rightarrow> Some (False, record, if ev_pressed (event record) then on_world (me_other_key_pressed e) s else s)
        | Some (True, s) \<Rightarrow> (let (r, w) = me_process e keycode record (world s) in Some (True, r, s\<lparr>world := w\<rparr>)))"

section \<open>The regions of the buffer\<close>

definition macros_ok :: "nat \<Rightarrow> 'w dynamic_macro \<Rightarrow> bool" where
  "macros_ok n s \<longleftrightarrow>
     length (macro_buffer s) = n \<and> 0 \<le> macro_end s \<and> macro_end s \<le> r_macro_end s + 1 \<and> r_macro_end s < int n \<and>
     macro_id s \<le> 2 \<and> (macro_id s = 1 \<longrightarrow> 0 \<le> macro_pointer s \<and> macro_pointer s \<le> r_macro_end s + 1) \<and>
     (macro_id s = 2 \<longrightarrow> macro_end s - 1 \<le> macro_pointer s \<and> macro_pointer s < int n)"

lemma on_world_simps [simp]:
  "macro_buffer (on_world f s) = macro_buffer s" "macro_end (on_world f s) = macro_end s"
  "r_macro_end (on_world f s) = r_macro_end s" "macro_pointer (on_world f s) = macro_pointer s"
  "macro_id (on_world f s) = macro_id s" "world (on_world f s) = f (world s)"
  "r_macro_buffer (on_world f s) = r_macro_buffer s"
  by (simp_all add: on_world_def r_macro_buffer_def)

lemma macros_ok_world [simp]: "macros_ok n (on_world f s) = macros_ok n s" "macros_ok n (s\<lparr>world := w\<rparr>) = macros_ok n s"
  by (simp_all add: macros_ok_def)

lemma trim_trailing_bounds:
  "p - int k \<le> trim_trailing buffer 1 k p \<and> trim_trailing buffer 1 k p \<le> p"
  "p \<le> trim_trailing buffer (- 1) k p \<and> trim_trailing buffer (- 1) k p \<le> p + int k"
proof (induction k arbitrary: p)
  case (Suc k)
  case 1
  show ?case
    using Suc(1) [of "p - 1"] by auto
  case 2
  show ?case
    using Suc(2) [of "p + 1"] by auto
qed simp_all

lemma record_start_ok:
  "macros_ok n s \<Longrightarrow> macros_ok n ((dynamic_macro_record_start e 0 1 s)\<lparr>macro_id := 1\<rparr>)"
  "macros_ok n s \<Longrightarrow> macros_ok n ((dynamic_macro_record_start e (r_macro_buffer s) (- 1) s)\<lparr>macro_id := 2\<rparr>)"
  by (auto simp: macros_ok_def dynamic_macro_record_start_def r_macro_buffer_def Let_def)

lemma record_key_ok:
  "macros_ok n s \<Longrightarrow> macro_id s = 1 \<Longrightarrow> macros_ok n (dynamic_macro_record_key e 0 (r_macro_end s) 1 r s)"
  "macros_ok n s \<Longrightarrow> macro_id s = 2 \<Longrightarrow> macros_ok n (dynamic_macro_record_key e (r_macro_buffer s) (macro_end s) (- 1) r s)"
  by (auto simp: macros_ok_def dynamic_macro_record_key_def)

lemma stop_recording_ok: "macros_ok n s \<Longrightarrow> macros_ok n (dynamic_macro_stop_recording e s)"
  using trim_trailing_bounds(1) [of "macro_pointer s" "nat (macro_pointer s)" "macro_buffer s"]
    trim_trailing_bounds(2) [of "macro_pointer s" "macro_buffer s" "nat (r_macro_buffer s - macro_pointer s)"]
  by (auto simp: macros_ok_def dynamic_macro_stop_recording_def dynamic_macro_record_end_def Let_def r_macro_buffer_def)

lemma macros_ok_write [simp]: "macros_ok n (s\<lparr>macro_buffer := (macro_buffer s)[i := r]\<rparr>) = macros_ok n s"
  by (simp add: macros_ok_def)

definition keeps_ok :: "nat \<Rightarrow> (keyrecord_t \<Rightarrow> 'w dynamic_macro \<Rightarrow> (bool \<times> keyrecord_t \<times> 'w dynamic_macro) option) \<Rightarrow> bool" where
  "keeps_ok n process \<longleftrightarrow> (\<forall>r s t q s'. macros_ok n s \<and> process r s = Some (t, q, s') \<longrightarrow> macros_ok n s')"

lemma play_loop_ok:
  assumes "play_loop process p end_pos direction s = Some s'" "keeps_ok n process" "macros_ok n s"
  shows "macros_ok n s'"
proof -
  have "keeps_ok n process \<longrightarrow> macros_ok n s \<longrightarrow> macros_ok n s'"
  proof (rule play_loop.raw_induct [OF _ assms(1)], intro impI)
    fix loop and process :: "keyrecord_t \<Rightarrow> 'a dynamic_macro \<Rightarrow> (bool \<times> keyrecord_t \<times> 'a dynamic_macro) option"
      and p end_pos direction s s'
    assume ih: "\<And>process p end_pos direction s s'. loop process p end_pos direction s = Some s' \<Longrightarrow>
        keeps_ok n process \<longrightarrow> macros_ok n s \<longrightarrow> macros_ok n s'"
      and body: "(if p = end_pos then Some s
        else case process (macro_buffer s ! nat p) s of None \<Rightarrow> None
          | Some (passed, r, s) \<Rightarrow> loop process (p + direction) end_pos direction
              (if passed then s\<lparr>macro_buffer := (macro_buffer s)[nat p := r]\<rparr> else s)) = Some s'"
      and keeps: "keeps_ok n process" and ok: "macros_ok n s"
    show "macros_ok n s'"
    proof (cases "p = end_pos")
      case False
      then obtain t q s1 where run: "process (macro_buffer s ! nat p) s = Some (t, q, s1)"
        and rest: "loop process (p + direction) end_pos direction
          (if t then s1\<lparr>macro_buffer := (macro_buffer s1)[nat p := q]\<rparr> else s1) = Some s'"
        using body by (auto split: option.splits)
      then have "macros_ok n s1"
        using keeps ok unfolding keeps_ok_def by blast
      then show ?thesis
        using ih [OF rest] keeps by simp
    qed (use body ok in \<open>simp\<close>)
  qed
  then show ?thesis
    using assms(2,3) by simp
qed

lemma play_ok:
  assumes "keeps_ok n process" "dynamic_macro_play e process b end_pos direction s = Some s'" "macros_ok n s"
  shows "macros_ok n s'"
proof -
  obtain s1 where loop: "play_loop process b end_pos direction (on_world (me_layer_state_set e 0) (on_world (me_clear_keyboard e) s)) = Some s1"
    and s': "s' = on_world (me_play e direction) (on_world (me_layer_state_set e (me_layer_state e (world s))) (on_world (me_clear_keyboard e) s1))"
    using assms(2) by (auto simp: dynamic_macro_play_def Let_def split: option.splits)
  have "macros_ok n s1"
    by (rule play_loop_ok [OF loop assms(1)]) (simp add: assms(3))
  then show ?thesis
    by (simp add: s')
qed

lemma process_dynamic_macro_ok:
  assumes keeps: "keeps_ok n process"
    and run: "process_dynamic_macro e process keycode r s = Some (t, s')" and ok: "macros_ok n s"
  shows "macros_ok n s'"
proof (cases "macro_id s = 0")
  case True
  note play = play_ok [OF keeps _ ok]
  show ?thesis
    using True run ok record_start_ok [OF ok] play
    by (simp add: process_dynamic_macro_def split: if_splits) (metis map_option_eq_Some old.prod.inject)+
next
  case False
  obtain v w where valid: "me_valid_key e keycode r (world s) = (v, w)"
    by (metis surj_pair)
  have "macros_ok n (s\<lparr>world := w\<rparr>)"
    using ok by simp
  note key = record_key_ok [OF this, simplified]
  show ?thesis
    using False run ok stop_recording_ok [OF ok, of e] key
    by (simp add: process_dynamic_macro_def valid Let_def r_macro_buffer_def split: if_splits) auto
qed

lemma process_record_nested_ok:
  "process_record_nested e depth q s = Some (t, r, s') \<Longrightarrow> macros_ok n s \<Longrightarrow> macros_ok n s'"
proof (induction depth arbitrary: q s t r s')
  case (Suc depth)
  obtain keycode w where kc: "me_keycode e q (world s) = (keycode, w)"
    by (metis surj_pair)
  obtain passed s1 where run: "process_dynamic_macro e (process_record_nested e depth) keycode q (s\<lparr>world := w\<rparr>) = Some (passed, s1)"
    using Suc.prems by (auto simp: kc split: option.splits)
  have "macros_ok n s1"
    by (rule process_dynamic_macro_ok [OF _ run]) (use Suc in \<open>auto simp: keeps_ok_def\<close>)
  then show ?case
    using Suc.prems by (auto simp: kc run split: bool.splits prod.splits)
qed simp

section \<open>Sequences of key events\<close>

fun process_records :: "'w macro_env \<Rightarrow> nat \<Rightarrow> keyrecord_t list \<Rightarrow> 'w dynamic_macro \<Rightarrow> 'w dynamic_macro option" where
  "process_records e depth [] s = Some s"
| "process_records e depth (r # rs) s =
    (case process_record_nested e depth r s of None \<Rightarrow> None | Some (_, _, s) \<Rightarrow> process_records e depth rs s)"

lemma process_records_append:
  "process_records e depth (xs @ ys) s =
    (case process_records e depth xs s of None \<Rightarrow> None | Some s \<Rightarrow> process_records e depth ys s)"
  by (induction e depth xs s rule: process_records.induct) (auto split: option.splits)

lemma process_records_ok: "process_records e depth rs s = Some s' \<Longrightarrow> macros_ok n s \<Longrightarrow> macros_ok n s'"
  by (induction e depth rs s rule: process_records.induct) (auto split: option.splits dest: process_record_nested_ok)

lemma dynamic_macro_start_ok: "macros_ok n (dynamic_macro_start n w)"
  by (simp add: macros_ok_def dynamic_macro_start_def)

text \<open>
  Whatever is typed, recorded and played: the two macros keep to disjoint ends of the buffer, and the position at which
  a recording continues stays within the buffer and off the other macro.
\<close>

theorem macro_regions:
  assumes "process_records e depth rs (dynamic_macro_start n w) = Some s"
  shows "macros_ok n s"
  by (rule process_records_ok [OF assms dynamic_macro_start_ok])

text \<open>An environment to try: the time of an event is its keycode, and what is passed on is logged.\<close>

definition example_env :: "bool \<Rightarrow> (u16 \<times> bool) list macro_env" where
  "example_env no_nesting =
    \<lparr>DYNAMIC_MACRO_NO_NESTING = no_nesting, me_keycode = (\<lambda>r w. (ev_time (event r), w)),
     me_process = (\<lambda>k r w. (r, w @ [(k, ev_pressed (event r))])), me_clear_keyboard = (\<lambda>w. w), me_layer_state = (\<lambda>w. 0),
     me_layer_state_set = (\<lambda>l w. w), me_valid_key = (\<lambda>k r w. (True, w)), me_record_start = (\<lambda>d w. w), me_play = (\<lambda>d w. w),
     me_record_key = (\<lambda>d r w. w), me_record_end = (\<lambda>d w. w),
     me_other_key_pressed = (\<lambda>w. w)\<rparr>"

definition example_key :: "u16 \<Rightarrow> bool \<Rightarrow> keyrecord_t" where
  "example_key k pressed = record_of_event (MAKE_EVENT 0 0 pressed KEY_EVENT k)"

lemmas example_defs = example_env_def example_key_def record_of_event_def MAKE_EVENT_def

theorem macro_regions_witness:
  "\<exists>s. process_records (example_env False) 2 [example_key 0x7C54 False, example_key 4 True] (dynamic_macro_start 3 []) = Some s \<and>
    macros_ok 3 s \<and> macro_pointer s = 1 \<and> world s = [(4, True)]"
proof -
  have "map_option (\<lambda>s. (macro_pointer s, world s))
      (process_records (example_env False) 2 [example_key 0x7C54 False, example_key 4 True] (dynamic_macro_start 3 [])) =
    Some (1, [(4, True)])"
    by code_simp
  then show ?thesis
    by (auto intro: macro_regions simp del: process_records.simps)
qed

section \<open>What a recording holds\<close>

text \<open>
  The buffer as a macro sees it, from its own end: the position of a pointer is its distance from the start of the macro.
\<close>

definition view :: "int \<Rightarrow> 'w dynamic_macro \<Rightarrow> keyrecord_t list" where
  "view d s = (if d = 1 then macro_buffer s else rev (macro_buffer s))"

definition begin_of :: "int \<Rightarrow> 'w dynamic_macro \<Rightarrow> int" where
  "begin_of d s = (if d = 1 then 0 else r_macro_buffer s)"

definition end_of :: "int \<Rightarrow> 'w dynamic_macro \<Rightarrow> int" where
  "end_of d s = (if d = 1 then macro_end s else r_macro_end s)"

definition distance :: "int \<Rightarrow> 'w dynamic_macro \<Rightarrow> int \<Rightarrow> nat" where
  "distance d s p = nat (d * (p - begin_of d s))"

definition contents :: "int \<Rightarrow> 'w dynamic_macro \<Rightarrow> keyrecord_t list" where
  "contents d s = take (distance d s (end_of d s)) (view d s)"

definition recording :: "int \<Rightarrow> 'w dynamic_macro \<Rightarrow> keyrecord_t list" where
  "recording d s = take (distance d s (macro_pointer s)) (view d s)"

text \<open>The elements that a macro may use: up to the last one that is not of the other macro.\<close>

definition capacity :: "int \<Rightarrow> 'w dynamic_macro \<Rightarrow> nat" where
  "capacity d s = length (macro_buffer s) - length (contents (- d) s)"

text \<open>Recording as it is meant: no leading releases, no more than the capacity, no trailing presses.\<close>

definition record_list :: "nat \<Rightarrow> keyrecord_t \<Rightarrow> keyrecord_t list \<Rightarrow> keyrecord_t list" where
  "record_list cap r xs =
    (if \<not> ev_pressed (event r) \<and> xs = [] then xs else if length xs < cap then xs @ [r] else xs)"

definition drop_releases :: "keyrecord_t list \<Rightarrow> keyrecord_t list" where
  "drop_releases rs = dropWhile (\<lambda>r. \<not> ev_pressed (event r)) rs"

definition trim_presses :: "keyrecord_t list \<Rightarrow> keyrecord_t list" where
  "trim_presses rs = rev (dropWhile (\<lambda>r. ev_pressed (event r)) (rev rs))"

lemma fold_record_list_nonempty:
  "xs \<noteq> [] \<Longrightarrow> length xs \<le> cap \<Longrightarrow> fold (record_list cap) rs xs = take cap (xs @ rs)"
proof (induction rs arbitrary: xs)
  case (Cons r rs)
  show ?case
  proof (cases "length xs < cap")
    case True
    then show ?thesis
      using Cons.IH [of "xs @ [r]"] Cons.prems by (simp add: record_list_def)
  next
    case False
    then show ?thesis
      using Cons.IH [of xs] Cons.prems by (simp add: record_list_def)
  qed
qed simp

lemma fold_record_list: "fold (record_list cap) rs [] = take cap (drop_releases rs)"
proof (induction rs)
  case (Cons r rs)
  show ?case
  proof (cases "ev_pressed (event r) \<and> 0 < cap")
    case True
    then have "record_list cap r [] = [r]"
      by (simp add: record_list_def)
    then show ?thesis
      using True fold_record_list_nonempty [of "[r]" cap rs] by (simp add: drop_releases_def)
  next
    case False
    then have "record_list cap r [] = []" "cap = 0 \<or> drop_releases (r # rs) = drop_releases rs"
      by (auto simp: record_list_def drop_releases_def)
    then show ?thesis
      using Cons by auto
  qed
qed (simp add: drop_releases_def)

text \<open>While a macro is recorded, the pointer is at most at the end of its capacity.\<close>

definition recording_ok :: "int \<Rightarrow> 'w dynamic_macro \<Rightarrow> bool" where
  "recording_ok d s \<longleftrightarrow> (d = 1 \<or> d = - 1) \<and> macros_ok (length (macro_buffer s)) s \<and> macro_id s = (if d = 1 then 1 else 2)"

lemma length_view [simp]: "length (view d s) = length (macro_buffer s)"
  by (simp add: view_def)

lemma capacity_distance:
  assumes "recording_ok d s"
  shows "distance d s (macro_pointer s) \<le> capacity d s" "capacity d s \<le> length (macro_buffer s)"
    and "macro_pointer s - d = end_of (- d) s \<longleftrightarrow> distance d s (macro_pointer s) = capacity d s"
    and "macro_pointer s = begin_of d s \<longleftrightarrow> distance d s (macro_pointer s) = 0"
  using assms by (auto simp: recording_ok_def capacity_def contents_def distance_def begin_of_def end_of_def r_macro_buffer_def
      macros_ok_def)

lemma length_recording: "recording_ok d s \<Longrightarrow> length (recording d s) = distance d s (macro_pointer s)"
  using capacity_distance(1,2) [of d s] by (simp add: recording_def)

lemma macros_ok_record_key:
  assumes "recording_ok d s"
  shows "recording_ok d (dynamic_macro_record_key e (begin_of d s) (end_of (- d) s) d r s)"
proof -
  have "macro_id (dynamic_macro_record_key e b o' d r s) = macro_id s" "length (macro_buffer (dynamic_macro_record_key e b o' d r s)) = length (macro_buffer s)" for b o'
    by (simp_all add: dynamic_macro_record_key_def)
  then show ?thesis
    using assms record_key_ok [of "length (macro_buffer s)" s e r] by (auto simp: recording_ok_def begin_of_def end_of_def)
qed

lemma view_write:
  fixes r
  assumes "recording_ok d s" "distance d s (macro_pointer s) < capacity d s"
  defines "k \<equiv> distance d s (macro_pointer s)"
  defines "s' \<equiv> s\<lparr>macro_buffer := (macro_buffer s)[nat (macro_pointer s) := r], macro_pointer := macro_pointer s + d\<rparr>"
  shows "view d s' = (view d s)[k := r]" "distance d s' (macro_pointer s') = Suc k"
    "view (- d) s' = (view (- d) s)[length (macro_buffer s) - Suc k := r]"
proof -
  have p: "0 \<le> macro_pointer s" "nat (macro_pointer s) < length (macro_buffer s)"
    and k: "d = 1 \<Longrightarrow> nat (macro_pointer s) = k" "d = - 1 \<Longrightarrow> nat (macro_pointer s) = length (macro_buffer s) - Suc k" "k < length (macro_buffer s)"
    using assms(1,2) capacity_distance(2) [OF assms(1)]
    by (auto simp: recording_ok_def macros_ok_def k_def distance_def begin_of_def r_macro_buffer_def)
  have d: "d = 1 \<or> d = - 1"
    using assms(1) by (simp add: recording_ok_def)
  show "view d s' = (view d s)[k := r]" "view (- d) s' = (view (- d) s)[length (macro_buffer s) - Suc k := r]"
    using d p k by (auto simp: view_def s'_def rev_update)
  show "distance d s' (macro_pointer s') = Suc k"
    using d p k by (auto simp: s'_def distance_def begin_of_def k_def r_macro_buffer_def)
qed

lemma recording_record_key:
  fixes s :: "'w dynamic_macro" and e r
  assumes "recording_ok d s"
  defines "s' \<equiv> dynamic_macro_record_key e (begin_of d s) (end_of (- d) s) d r s"
  shows "recording d s' = record_list (capacity d s) r (recording d s)" "contents (- d) s' = contents (- d) s"
    "end_of (- d) s' = end_of (- d) s" "begin_of d s' = begin_of d s" "length (macro_buffer s') = length (macro_buffer s)"
proof -
  note cap = capacity_distance [OF assms(1)]
  define k where "k = distance d s (macro_pointer s)"
  have rec: "recording d s = [] \<longleftrightarrow> k = 0" "length (recording d s) = k"
    using length_recording [OF assms(1)] by (auto simp: k_def)
  have "recording d s' = record_list (capacity d s) r (recording d s) \<and> contents (- d) s' = contents (- d) s"
  proof (cases "\<not> ev_pressed (event r) \<and> k = 0")
    case True
    then have "s' = s"
      using cap(4) by (simp add: s'_def dynamic_macro_record_key_def k_def)
    then show ?thesis
      using True rec by (simp add: record_list_def)
  next
    case keep: False
    show ?thesis
    proof (cases "k < capacity d s")
      case True
      then have s': "s' = s\<lparr>macro_buffer := (macro_buffer s)[nat (macro_pointer s) := r], macro_pointer := macro_pointer s + d\<rparr>"
        using keep cap(3,4) by (auto simp: s'_def dynamic_macro_record_key_def k_def)
      note view = view_write [OF assms(1), folded k_def, OF True, of r, folded s']
      have "length (contents (- d) s) = length (macro_buffer s) - capacity d s"
        by (simp add: capacity_def contents_def)
      then have "length (contents (- d) s) \<le> length (macro_buffer s) - Suc k"
        using True by simp
      moreover have "distance (- d) s' (end_of (- d) s') = distance (- d) s (end_of (- d) s)"
        by (simp add: s' distance_def end_of_def begin_of_def r_macro_buffer_def)
      moreover have "k < length (view d s)"
        using True cap(2) by simp
      ultimately show ?thesis
        using view keep rec True by (simp add: recording_def contents_def record_list_def k_def take_Suc_conv_app_nth)
    next
      case False
      then have "k = capacity d s"
        using cap(1) by (simp add: k_def)
      then have s': "s' = on_world (me_record_key e d r) s"
        using keep cap(3,4) by (auto simp: s'_def dynamic_macro_record_key_def k_def)
      have "recording d s' = recording d s" "contents (- d) s' = contents (- d) s"
        by (simp_all add: s' recording_def contents_def view_def distance_def begin_of_def end_of_def)
      then show ?thesis
        using keep rec False by (auto simp: record_list_def)
    qed
  qed
  then show "recording d s' = record_list (capacity d s) r (recording d s)" "contents (- d) s' = contents (- d) s"
    by simp_all
  show "end_of (- d) s' = end_of (- d) s" "begin_of d s' = begin_of d s" "length (macro_buffer s') = length (macro_buffer s)"
    by (simp_all add: s'_def dynamic_macro_record_key_def end_of_def begin_of_def r_macro_buffer_def)
qed

section \<open>From the keys to the macro and back\<close>

definition start_key :: "int \<Rightarrow> u16" where
  "start_key d = (if d = 1 then QK_DYNAMIC_MACRO_RECORD_START_1 else QK_DYNAMIC_MACRO_RECORD_START_2)"

definition play_key :: "int \<Rightarrow> u16" where
  "play_key d = (if d = 1 then QK_DYNAMIC_MACRO_PLAY_1 else QK_DYNAMIC_MACRO_PLAY_2)"

definition macro_keys :: "u16 list" where
  "macro_keys = [QK_DYNAMIC_MACRO_RECORD_START_1, QK_DYNAMIC_MACRO_RECORD_START_2, QK_DYNAMIC_MACRO_RECORD_STOP,
     QK_DYNAMIC_MACRO_PLAY_1, QK_DYNAMIC_MACRO_PLAY_2]"

text \<open>Environments in which a record has one keycode and every key may be recorded.\<close>

definition plain_env :: "'w macro_env \<Rightarrow> (keyrecord_t \<Rightarrow> u16) \<Rightarrow> bool" where
  "plain_env e kc \<longleftrightarrow> (\<forall>r w. me_keycode e r w = (kc r, w)) \<and> (\<forall>k r w. me_valid_key e k r w = (True, w))"

lemma start_recording:
  assumes "plain_env e kc" "macros_ok n s" "macro_id s = 0" "d = 1 \<or> d = - 1" "kc r = start_key d" "\<not> ev_pressed (event r)"
  shows "\<exists>s'. process_record_nested e (Suc m) r s = Some (False, r, s') \<and> recording_ok d s' \<and> recording d s' = [] \<and>
    contents (- d) s' = contents (- d) s \<and> capacity d s' = capacity d s"
proof -
  define s' where "s' = (dynamic_macro_record_start e (begin_of d s) d s)\<lparr>macro_id := if d = 1 then 1 else 2\<rparr>"
  have run: "process_record_nested e (Suc m) r s = Some (False, r, s')"
    using assms by (auto simp: plain_env_def process_dynamic_macro_def s'_def start_key_def begin_of_def)
  have buf: "macro_buffer s' = macro_buffer s" "macro_end s' = macro_end s" "r_macro_end s' = r_macro_end s"
    "macro_pointer s' = begin_of d s'"
    by (simp_all add: s'_def dynamic_macro_record_start_def Let_def begin_of_def r_macro_buffer_def)
  have same: "contents (- d) s' = contents (- d) s"
    by (simp add: contents_def distance_def begin_of_def end_of_def view_def r_macro_buffer_def buf)
  have "macros_ok (length (macro_buffer s')) s'"
    using record_start_ok [OF assms(2), of e] assms(2,4) by (auto simp: s'_def begin_of_def buf macros_ok_def)
  then have "recording_ok d s'"
    using assms(4) by (simp add: recording_ok_def s'_def)
  then show ?thesis
    using run same buf by (simp add: recording_def distance_def capacity_def)
qed

definition recordable :: "'w macro_env \<Rightarrow> u16 \<Rightarrow> bool" where
  "recordable e k \<longleftrightarrow> k \<notin> set (if DYNAMIC_MACRO_NO_NESTING e then macro_keys else take 3 macro_keys)"

lemma record_event:
  assumes "plain_env e kc" "recording_ok d s" "recordable e (kc r)"
  shows "\<exists>r' s'. process_record_nested e (Suc m) r s = Some (True, r', s') \<and> recording_ok d s' \<and>
    recording d s' = record_list (capacity d s) r (recording d s) \<and> contents (- d) s' = contents (- d) s \<and>
    capacity d s' = capacity d s"
proof -
  define s1 where "s1 = dynamic_macro_record_key e (begin_of d s) (end_of (- d) s) d r s"
  obtain r' w where proc: "me_process e (kc r) r (world s1) = (r', w)"
    by (metis surj_pair)
  have d: "d = 1 \<and> macro_id s = 1 \<or> d = - 1 \<and> macro_id s = 2"
    using assms(2) by (auto simp: recording_ok_def split: if_splits)
  have run: "process_record_nested e (Suc m) r s = Some (True, r', s1\<lparr>world := w\<rparr>)"
    using assms(1,3) d proc
    by (auto simp: plain_env_def process_dynamic_macro_def macro_keys_def recordable_def s1_def begin_of_def end_of_def
        split: if_splits)
  note key = recording_record_key [OF assms(2), where e = e and r = r, folded s1_def]
  have "recording_ok d s1"
    unfolding s1_def by (rule macros_ok_record_key [OF assms(2)])
  then have "recording_ok d (s1\<lparr>world := w\<rparr>)"
    by (simp add: recording_ok_def)
  moreover have "recording d (s1\<lparr>world := w\<rparr>) = recording d s1" "contents (- d) (s1\<lparr>world := w\<rparr>) = contents (- d) s1"
    by (simp_all add: recording_def contents_def view_def distance_def begin_of_def end_of_def r_macro_buffer_def)
  ultimately show ?thesis
    using run key by (simp add: capacity_def)
qed

lemma record_events:
  assumes "plain_env e kc" "recording_ok d s" "\<forall>r \<in> set rs. recordable e (kc r)"
  shows "\<exists>s'. process_records e (Suc m) rs s = Some s' \<and> recording_ok d s' \<and>
    recording d s' = fold (record_list (capacity d s)) rs (recording d s) \<and> contents (- d) s' = contents (- d) s \<and>
    capacity d s' = capacity d s"
  using assms(2,3)
proof (induction rs arbitrary: s)
  case (Cons r rs)
  obtain r' s1 where step: "process_record_nested e (Suc m) r s = Some (True, r', s1)" "recording_ok d s1"
      "recording d s1 = record_list (capacity d s) r (recording d s)" "contents (- d) s1 = contents (- d) s"
      "capacity d s1 = capacity d s"
    using record_event [OF assms(1) Cons.prems(1), of r m] Cons.prems(2) by auto
  show ?case
    using Cons.IH [OF step(2)] Cons.prems(2) step by (simp del: process_record_nested.simps)
qed simp

lemma trim_trailing_view:
  assumes "d = 1 \<or> d = - 1" "k \<le> length (macro_buffer s)"
  shows "trim_trailing (macro_buffer s) d k (begin_of d s + d * int k) =
    begin_of d s + d * int (length (trim_presses (take k (view d s))))"
  using assms(2)
proof (induction k)
  case (Suc k)
  define p where "p = begin_of d s + d * int (Suc k)"
  have p: "p - d = begin_of d s + d * int k"
    by (simp add: p_def algebra_simps)
  then have "macro_buffer s ! nat (p - d) = view d s ! k"
    using assms(1) Suc.prems by (auto simp: begin_of_def view_def r_macro_buffer_def rev_nth nat_diff_distrib algebra_simps
        intro!: arg_cong [where f = "nth (macro_buffer s)"])
  moreover have "take (Suc k) (view d s) = take k (view d s) @ [view d s ! k]"
    using Suc.prems by (simp add: take_Suc_conv_app_nth)
  ultimately have "trim_trailing (macro_buffer s) d (Suc k) p =
      begin_of d s + d * int (length (trim_presses (take (Suc k) (view d s))))"
    using Suc p by (simp add: trim_presses_def) (simp add: p_def)
  then show ?case
    by (simp add: p_def)
qed (simp add: trim_presses_def)

lemma trim_presses_take: "trim_presses xs = take (length (trim_presses xs)) xs"
proof -
  have "xs = trim_presses xs @ rev (takeWhile (\<lambda>r. ev_pressed (event r)) (rev xs))"
    unfolding trim_presses_def by (metis rev_append rev_rev_ident takeWhile_dropWhile_id)
  then show ?thesis
    by (metis append_eq_conv_conj)
qed

lemma stop_recording:
  assumes "plain_env e kc" "recording_ok d s" "kc r = QK_DYNAMIC_MACRO_RECORD_STOP" "ev_pressed (event r)"
  shows "\<exists>s'. process_record_nested e (Suc m) r s = Some (False, r, s') \<and> macros_ok (length (macro_buffer s)) s' \<and>
    length (macro_buffer s') = length (macro_buffer s) \<and> macro_id s' = 0 \<and>
    contents d s' = trim_presses (recording d s) \<and> contents (- d) s' = contents (- d) s"
proof -
  define s' where "s' = on_world (me_other_key_pressed e) (dynamic_macro_stop_recording e s)"
  have d: "d = 1 \<and> macro_id s = 1 \<or> d = - 1 \<and> macro_id s = 2" and ok: "macros_ok (length (macro_buffer s)) s"
    using assms(2) by (auto simp: recording_ok_def split: if_splits)
  have run: "process_record_nested e (Suc m) r s = Some (False, r, s')"
    using assms(1,3,4) d by (auto simp: plain_env_def process_dynamic_macro_def s'_def)
  define k where "k = distance d s (macro_pointer s)"
  have k: "k \<le> length (macro_buffer s)" "macro_pointer s = begin_of d s + d * int k"
    using capacity_distance(1,2) [OF assms(2)] d ok
    by (auto simp: k_def distance_def begin_of_def macros_ok_def r_macro_buffer_def)
  have ends: "end_of d s' = trim_trailing (macro_buffer s) d k (macro_pointer s)" "end_of (- d) s' = end_of (- d) s"
    "macro_buffer s' = macro_buffer s" "macro_id s' = 0"
    using d by (auto simp: s'_def dynamic_macro_stop_recording_def dynamic_macro_record_end_def Let_def end_of_def k_def
        distance_def begin_of_def)
  then have "end_of d s' = begin_of d s + d * int (length (trim_presses (take k (view d s))))"
    using trim_trailing_view [of d k s] d k by auto
  then have "distance d s' (end_of d s') = length (trim_presses (take k (view d s)))"
    using d ends(3) by (auto simp: distance_def begin_of_def r_macro_buffer_def)
  moreover have "view d s' = view d s" "view (- d) s' = view (- d) s" for d
    using ends(3) by (simp_all add: view_def)
  moreover have "length (trim_presses (take k (view d s))) \<le> k"
    using length_dropWhile_le [of _ "rev (take k (view d s))"] k(1) by (simp add: trim_presses_def)
  moreover have "recording d s = take k (view d s)"
    by (simp add: recording_def k_def)
  ultimately have "contents d s' = trim_presses (recording d s)" "contents (- d) s' = contents (- d) s"
    using trim_presses_take [of "take k (view d s)"] ends(2,3)
    by (simp_all add: contents_def distance_def begin_of_def r_macro_buffer_def min_absorb1)
  then show ?thesis
    using run ends stop_recording_ok [OF ok, of e] by (simp add: s'_def)
qed

lemma play_loop_plain:
  assumes "d = 1 \<or> d = - 1"
    and "\<forall>r \<in> set xs. \<forall>s. macro_id s = 0 \<longrightarrow> process r s = Some (True, fst (f r (world s)), s\<lparr>world := snd (f r (world s))\<rparr>)"
    and "macro_id s = 0" "\<forall>i < length xs. 0 \<le> p + d * int i \<and> macro_buffer s ! nat (p + d * int i) = xs ! i"
  shows "\<exists>s'. play_loop process p (p + d * int (length xs)) d s = Some s' \<and>
    world s' = fold (\<lambda>r w. snd (f r w)) xs (world s)"
  using assms(2-4)
proof (induction xs arbitrary: p s)
  case Nil
  then show ?case
    by (subst play_loop.simps) simp
next
  case (Cons x xs)
  have x: "macro_buffer s ! nat p = x" "0 \<le> p"
    using Cons.prems(3) by force+
  define s1 where "s1 = s\<lparr>world := snd (f x (world s)), macro_buffer := (macro_buffer s)[nat p := fst (f x (world s))]\<rparr>"
  have "\<forall>i < length xs. 0 \<le> p + d + d * int i \<and> macro_buffer s1 ! nat (p + d + d * int i) = xs ! i"
  proof (intro allI impI)
    fix i
    assume "i < length xs"
    then have "0 \<le> p + d * int (Suc i)" "macro_buffer s ! nat (p + d * int (Suc i)) = xs ! i"
      using Cons.prems(3) by (metis Suc_less_eq length_Cons) (metis Cons.prems(3) Suc_less_eq length_Cons nth_Cons_Suc \<open>i < length xs\<close>)
    moreover have "p + d * int (Suc i) = p + d + d * int i" "p + d + d * int i \<noteq> p"
      using assms(1) by (auto simp: algebra_simps)
    ultimately show "0 \<le> p + d + d * int i \<and> macro_buffer s1 ! nat (p + d + d * int i) = xs ! i"
      using x(2) by (simp add: s1_def eq_nat_nat_iff add.assoc)
  qed
  then obtain s' where "play_loop process (p + d) (p + d + d * int (length xs)) d s1 = Some s'"
      "world s' = fold (\<lambda>r w. snd (f r w)) xs (world s1)"
    using Cons.IH [of s1 "p + d"] Cons.prems(1,2) by (auto simp: s1_def)
  moreover have "p + d * int (length (x # xs)) = p + d + d * int (length xs)" "p \<noteq> p + d + d * int (length xs)"
    using assms(1) by (auto simp: algebra_simps)
  moreover have "process x s = Some (True, fst (f x (world s)), s\<lparr>world := snd (f x (world s))\<rparr>)"
    using Cons.prems(1,2) by simp
  ultimately show ?case
    by (subst play_loop.simps) (simp add: x(1) s1_def add.assoc)
qed

lemma nth_contents:
  assumes "d = 1 \<or> d = - 1" "macros_ok (length (macro_buffer s)) s"
  shows "end_of d s = begin_of d s + d * int (length (contents d s))"
    and "\<forall>i < length (contents d s). 0 \<le> begin_of d s + d * int i \<and> macro_buffer s ! nat (begin_of d s + d * int i) = contents d s ! i"
proof -
  have "distance d s (end_of d s) \<le> length (macro_buffer s)" "end_of d s = begin_of d s + d * int (distance d s (end_of d s))"
    using assms by (auto simp: distance_def begin_of_def end_of_def macros_ok_def r_macro_buffer_def)
  then show "end_of d s = begin_of d s + d * int (length (contents d s))"
    by (simp add: contents_def)
  show "\<forall>i < length (contents d s). 0 \<le> begin_of d s + d * int i \<and> macro_buffer s ! nat (begin_of d s + d * int i) = contents d s ! i"
    using assms(1) by (auto simp: contents_def view_def begin_of_def r_macro_buffer_def rev_nth nat_diff_distrib algebra_simps
        intro!: arg_cong [where f = "nth (macro_buffer s)"])
qed

lemma play_contents:
  assumes "plain_env e kc" "macros_ok (length (macro_buffer s)) s" "macro_id s = 0" "d = 1 \<or> d = - 1"
    and "kc r = play_key d" "\<not> ev_pressed (event r)" "\<forall>r \<in> set (contents d s). kc r \<notin> set macro_keys"
  shows "\<exists>s'. process_record_nested e (Suc (Suc m)) r s = Some (False, r, s') \<and>
    world s' = me_play e d (me_layer_state_set e (me_layer_state e (world s)) (me_clear_keyboard e
      (fold (\<lambda>r w. snd (me_process e (kc r) r w)) (contents d s) (me_layer_state_set e 0 (me_clear_keyboard e (world s))))))"
proof -
  define s1 where "s1 = on_world (me_layer_state_set e 0) (on_world (me_clear_keyboard e) s)"
  have same: "contents d s1 = contents d s" "begin_of d s1 = begin_of d s" "end_of d s1 = end_of d s" "macro_id s1 = 0"
    using assms(3) by (simp_all add: s1_def contents_def distance_def begin_of_def end_of_def view_def)
  have ok: "macros_ok (length (macro_buffer s1)) s1"
    using assms(2) by (simp add: s1_def)
  have "\<forall>r \<in> set (contents d s). \<forall>s. macro_id s = 0 \<longrightarrow> process_record_nested e (Suc m) r s =
      Some (True, fst (me_process e (kc r) r (world s)), s\<lparr>world := snd (me_process e (kc r) r (world s))\<rparr>)"
    using assms(1,7) by (simp add: plain_env_def process_dynamic_macro_def macro_keys_def split_beta)
  then obtain s2 where loop: "play_loop (process_record_nested e (Suc m)) (begin_of d s) (end_of d s) d s1 = Some s2"
      "world s2 = fold (\<lambda>r w. snd (me_process e (kc r) r w)) (contents d s) (world s1)"
    using play_loop_plain [OF assms(4), of "contents d s" "process_record_nested e (Suc m)"
        "\<lambda>r. me_process e (kc r) r" s1 "begin_of d s"] nth_contents [OF assms(4) ok] same by auto
  have play: "dynamic_macro_play e (process_record_nested e (Suc m)) (begin_of d s) (end_of d s) d s =
      Some (on_world (me_play e d) (on_world (me_layer_state_set e (me_layer_state e (world s))) (on_world (me_clear_keyboard e) s2)))"
    by (simp add: dynamic_macro_play_def loop flip: s1_def)
  have "process_record_nested e (Suc (Suc m)) r s = Some (False, r,
      on_world (me_play e d) (on_world (me_layer_state_set e (me_layer_state e (world s))) (on_world (me_clear_keyboard e) s2)))"
    using assms(1,3-6) play
    by (auto simp: plain_env_def process_dynamic_macro_def play_key_def begin_of_def end_of_def simp del: process_record_nested.simps(2)
        intro: process_record_nested.simps(2) [THEN trans])
  then show ?thesis
    by (simp add: loop(2) s1_def del: process_record_nested.simps)
qed

text \<open>
  (C20)
  What is typed between the start key and the stop key is what the macro plays: without the releases at the beginning,
  as much of it as the other macro leaves room for, and without the presses at the end.  Recording one macro leaves the
  other one alone; playing restores the layers and clears the keyboard before and after.
\<close>

theorem macro_round_trip:
  assumes env: "plain_env e kc" and ok: "macros_ok n s" "macro_id s = 0" and d: "d = 1 \<or> d = - 1"
    and start: "kc start = start_key d" "\<not> ev_pressed (event start)"
    and keys: "\<forall>r \<in> set rs. kc r \<notin> set macro_keys"
    and stop: "kc stop = QK_DYNAMIC_MACRO_RECORD_STOP" "ev_pressed (event stop)"
    and play: "kc play = play_key d" "\<not> ev_pressed (event play)"
  shows "\<exists>s1 s2. process_records e (Suc m) (start # rs @ [stop]) s = Some s1 \<and>
    contents d s1 = trim_presses (take (capacity d s) (drop_releases rs)) \<and> contents (- d) s1 = contents (- d) s \<and>
    process_records e (Suc (Suc m)) [play] s1 = Some s2 \<and>
    world s2 = me_play e d (me_layer_state_set e (me_layer_state e (world s1)) (me_clear_keyboard e
      (fold (\<lambda>r w. snd (me_process e (kc r) r w)) (contents d s1) (me_layer_state_set e 0 (me_clear_keyboard e (world s1))))))"
proof -
  obtain sa where a: "process_record_nested e (Suc m) start s = Some (False, start, sa)" "recording_ok d sa" "recording d sa = []"
      "contents (- d) sa = contents (- d) s" "capacity d sa = capacity d s"
    using start_recording [OF env ok d start] by blast
  have recordable: "\<forall>r \<in> set rs. recordable e (kc r)"
    using keys by (auto simp: recordable_def dest: in_set_takeD)
  obtain sb where b: "process_records e (Suc m) rs sa = Some sb" "recording_ok d sb"
      "recording d sb = fold (record_list (capacity d sa)) rs (recording d sa)" "contents (- d) sb = contents (- d) sa"
    using record_events [OF env a(2), of rs m] recordable by auto
  obtain sc where c: "process_record_nested e (Suc m) stop sb = Some (False, stop, sc)" "macros_ok (length (macro_buffer sb)) sc"
      "length (macro_buffer sc) = length (macro_buffer sb)" "macro_id sc = 0"
      "contents d sc = trim_presses (recording d sb)" "contents (- d) sc = contents (- d) sb"
    using stop_recording [OF env b(2) stop] by blast
  have run: "process_records e (Suc m) (start # rs @ [stop]) s = Some sc"
    using a(1) b(1) c(1) by (simp add: process_records_append del: process_record_nested.simps)
  have kept: "contents d sc = trim_presses (take (capacity d s) (drop_releases rs))"
    using a(3,5) b(3) c(5) by (simp add: fold_record_list)
  then have "set (contents d sc) \<subseteq> set rs"
    unfolding trim_presses_def drop_releases_def
    by (auto dest!: set_dropWhileD in_set_takeD)
  then have "\<forall>r \<in> set (contents d sc). kc r \<notin> set macro_keys"
    using keys by blast
  moreover have ok_sc: "macros_ok (length (macro_buffer sc)) sc"
    using c(2,3) by simp
  ultimately obtain sd where "process_record_nested e (Suc (Suc m)) play sc = Some (False, play, sd)"
      "world sd = me_play e d (me_layer_state_set e (me_layer_state e (world sc)) (me_clear_keyboard e
      (fold (\<lambda>r w. snd (me_process e (kc r) r w)) (contents d sc) (me_layer_state_set e 0 (me_clear_keyboard e (world sc))))))"
    using play_contents [OF env ok_sc c(4) d play] by blast
  then show ?thesis
    using run kept a(4) b(4) c(6) by (intro exI [of _ sc] exI [of _ sd]) (simp del: process_record_nested.simps)
qed

theorem macro_round_trip_witness:
  "\<exists>s1 s2. process_records (example_env False) 1
      [example_key 0x7C53 False, example_key 5 False, example_key 4 True, example_key 4 False, example_key 6 True, example_key 0x7C55 True]
      (dynamic_macro_start 9 []) = Some s1 \<and>
    contents 1 s1 = [example_key 4 True, example_key 4 False] \<and>
    process_records (example_env False) 2 [example_key 0x7C56 False] s1 = Some s2 \<and>
    world s2 = world s1 @ [(4, True), (4, False)]"
proof -
  have plain: "plain_env (example_env False) (\<lambda>r. ev_time (event r))"
    by (simp add: plain_env_def example_defs)
  have "capacity 1 (dynamic_macro_start 9 w) = 9" for w :: "(u16 \<times> bool) list"
    by (simp add: capacity_def contents_def distance_def begin_of_def end_of_def r_macro_buffer_def dynamic_macro_start_def)
  then show ?thesis
    using macro_round_trip [OF plain dynamic_macro_start_ok, of 9 "[]" 1 "example_key 0x7C53 False"
        "[example_key 5 False, example_key 4 True, example_key 4 False, example_key 6 True]"
        "example_key 0x7C55 True" "example_key 0x7C56 False" 0]
    by (auto simp: example_defs macro_keys_def start_key_def play_key_def dynamic_macro_start_def drop_releases_def trim_presses_def
        simp del: process_records.simps simp flip: numeral_2_eq_2)
qed

text \<open>A macro that holds its own play key plays it without end.\<close>

definition keeps_keys :: "'w macro_env \<Rightarrow> (keyrecord_t \<Rightarrow> u16) \<Rightarrow> bool" where
  "keeps_keys e kc \<longleftrightarrow> (\<forall>k r w. kc (fst (me_process e k r w)) = kc r \<and> event (fst (me_process e k r w)) = event r)"

lemma own_play_key_hangs:
  assumes env: "plain_env e kc" "keeps_keys e kc"
  shows "macro_id s = 0 \<Longrightarrow> macro_end s = 2 \<Longrightarrow> 2 \<le> length (macro_buffer s) \<Longrightarrow>
    kc (macro_buffer s ! 0) = QK_DYNAMIC_MACRO_PLAY_1 \<and> ev_pressed (event (macro_buffer s ! 0)) \<Longrightarrow>
    kc (macro_buffer s ! 1) = QK_DYNAMIC_MACRO_PLAY_1 \<and> \<not> ev_pressed (event (macro_buffer s ! 1)) \<Longrightarrow>
    kc r = QK_DYNAMIC_MACRO_PLAY_1 \<Longrightarrow> \<not> ev_pressed (event r) \<Longrightarrow> process_record_nested e depth r s = None"
proof (induction depth arbitrary: s r)
  case (Suc depth)
  define s1 where "s1 = on_world (me_layer_state_set e 0) (on_world (me_clear_keyboard e) s)"
  have "play_loop (process_record_nested e depth) 0 2 1 s1 = None"
  proof (cases depth)
    case 0
    then show ?thesis
      by (subst play_loop.simps) simp
  next
    case depth: (Suc k)
    define r' where "r' = fst (me_process e QK_DYNAMIC_MACRO_PLAY_1 (macro_buffer s1 ! 0) (world s1))"
    obtain w where first: "process_record_nested e depth (macro_buffer s1 ! 0) s1 = Some (True, r', s1\<lparr>world := w\<rparr>)"
      using Suc.prems(1,4) env(1) by (simp add: depth plain_env_def process_dynamic_macro_def s1_def r'_def split_beta)
    define s2 where "s2 = s1\<lparr>world := w, macro_buffer := (macro_buffer s1)[0 := r']\<rparr>"
    have first_slot: "macro_buffer s \<noteq> []"
      using Suc.prems(3) by auto
    have buf: "macro_buffer s2 ! 0 = r'" "macro_buffer s2 ! 1 = macro_buffer s ! 1" "length (macro_buffer s2) = length (macro_buffer s)"
      "macro_id s2 = 0" "macro_end s2 = 2"
      using Suc.prems(1,2) first_slot by (simp_all add: s2_def s1_def)
    have r': "kc r' = QK_DYNAMIC_MACRO_PLAY_1 \<and> ev_pressed (event r')"
      using env(2) Suc.prems(4) by (simp add: r'_def keeps_keys_def s1_def)
    have "process_record_nested e depth (macro_buffer s2 ! 1) s2 = None"
      by (rule Suc.IH) (use buf r' Suc.prems(3,5) in \<open>simp_all only: simp_thms\<close>)
    then have "play_loop (process_record_nested e depth) 1 2 1 s2 = None"
      by (subst play_loop.simps) (simp del: process_record_nested.simps)
    then show ?thesis
      using first by (subst play_loop.simps) (simp del: process_record_nested.simps add: s2_def)
  qed
  then show ?case
    using Suc.prems env(1) by (simp add: plain_env_def process_dynamic_macro_def dynamic_macro_play_def Let_def flip: s1_def)
qed simp

text \<open>
  (C13)
  A macro that holds its own play key never returns: tap the start key and its own play key, stop, and play; no depth of
  nesting is enough.  \<open>DYNAMIC_MACRO_NO_NESTING\<close> keeps the play keys out of the recording, and the same keys leave an
  empty macro, which ends at once.
\<close>

theorem macro_recursion:
  assumes env: "plain_env e kc" "keeps_keys e kc" and size: "2 \<le> n"
    and start: "kc start = QK_DYNAMIC_MACRO_RECORD_START_1" "\<not> ev_pressed (event start)"
    and down: "kc down = QK_DYNAMIC_MACRO_PLAY_1" "ev_pressed (event down)"
    and up: "kc up = QK_DYNAMIC_MACRO_PLAY_1" "\<not> ev_pressed (event up)"
    and stop: "kc stop = QK_DYNAMIC_MACRO_RECORD_STOP" "ev_pressed (event stop)"
  shows "\<exists>s. process_records e 1 [start, down, up, stop] (dynamic_macro_start n w) = Some s \<and>
    (if DYNAMIC_MACRO_NO_NESTING e then contents 1 s = [] \<and> process_records e 1 [up] s \<noteq> None
     else contents 1 s = [down, up] \<and> (\<forall>depth. process_records e depth [up] s = None))"
proof -
  define s0 where "s0 = dynamic_macro_start n w"
  have ok: "macros_ok n s0" "macro_id s0 = 0" "length (macro_buffer s0) = n" and empty: "contents (- 1) s0 = []"
    using dynamic_macro_start_ok by (auto simp: s0_def dynamic_macro_start_def contents_def distance_def end_of_def begin_of_def
        r_macro_buffer_def)
  obtain sa where a: "process_record_nested e 1 start s0 = Some (False, start, sa)" "recording_ok 1 sa" "recording 1 sa = []"
      "capacity 1 sa = n"
    using start_recording [OF env(1) ok(1,2), of 1 start 0] start ok(3) empty by (auto simp: start_key_def capacity_def)
  obtain sb where b: "process_records e 1 [down, up] sa = Some sb" "recording_ok 1 sb"
      "recording 1 sb = (if DYNAMIC_MACRO_NO_NESTING e then [] else [down, up])"
  proof (cases "DYNAMIC_MACRO_NO_NESTING e")
    case True
    have "macro_id sa = 1"
      using a(2) by (simp add: recording_ok_def)
    then have "process_records e 1 [down, up] sa = Some (on_world (me_other_key_pressed e) sa)"
      using True env(1) down up by (simp add: plain_env_def process_dynamic_macro_def on_world_def)
    moreover have "recording_ok 1 (on_world f sa) = recording_ok 1 sa" "recording 1 (on_world f sa) = recording 1 sa" for f
      by (simp_all add: recording_ok_def recording_def view_def distance_def begin_of_def)
    ultimately show ?thesis
      using that a(2,3) True by simp
  next
    case False
    then have "\<forall>r \<in> set [down, up]. recordable e (kc r)"
      using down up by (simp add: recordable_def macro_keys_def numeral_3_eq_3)
    then obtain sb where "process_records e 1 [down, up] sa = Some sb" "recording_ok 1 sb"
        "recording 1 sb = fold (record_list n) [down, up] []"
      using record_events [OF env(1) a(2), of "[down, up]" 0] a(3,4) by auto
    then show ?thesis
      using that False size down(2) by (simp add: record_list_def)
  qed
  obtain sc where c: "process_record_nested e 1 stop sb = Some (False, stop, sc)" "macros_ok (length (macro_buffer sb)) sc"
      "length (macro_buffer sc) = length (macro_buffer sb)" "macro_id sc = 0" "contents 1 sc = trim_presses (recording 1 sb)"
    using stop_recording [OF env(1) b(2) stop, of 0] by auto
  have run: "process_records e 1 ([start] @ [down, up] @ [stop]) s0 = Some sc"
  proof -
    have "process_records e 1 [start] s0 = Some sa" "process_records e 1 [stop] sb = Some sc"
      using a(1) c(1) by (simp_all del: process_record_nested.simps)
    then show ?thesis
      using b(1) by (simp only: process_records_append option.case)
  qed
  have ok_sc: "macros_ok (length (macro_buffer sc)) sc"
    using c(2,3) by simp
  note at = nth_contents [OF _ ok_sc, of 1, simplified]
  show ?thesis
  proof (cases "DYNAMIC_MACRO_NO_NESTING e")
    case True
    then have none: "contents 1 sc = []"
      using b(3) c(5) by (simp add: trim_presses_def)
    then have "macro_end sc = 0"
      using at(1) by (simp add: end_of_def begin_of_def)
    then have "process_records e 1 [up] sc \<noteq> None"
      using env(1) up c(4) by (simp add: plain_env_def process_dynamic_macro_def dynamic_macro_play_def Let_def play_loop.simps)
    then show ?thesis
      using run True none by (simp add: s0_def)
  next
    case False
    then have both: "contents 1 sc = [down, up]"
      using b(3) c(5) up(2) by (simp add: trim_presses_def)
    then have "macro_end sc = 2" "macro_buffer sc ! 0 = down" "macro_buffer sc ! 1 = up" "2 \<le> length (macro_buffer sc)"
      using at(1) at(2) [rule_format, of 0] at(2) [rule_format, of 1] ok_sc
      by (simp_all add: end_of_def begin_of_def macros_ok_def)
    then have "process_record_nested e depth up sc = None" for depth
      using own_play_key_hangs [OF env c(4)] down up by simp
    then show ?thesis
      using run False both by (auto simp: s0_def simp del: process_record_nested.simps)
  qed
qed

theorem macro_recursion_witness:
  "\<exists>s. process_records (example_env False) 1
      [example_key 0x7C53 False, example_key 0x7C56 True, example_key 0x7C56 False, example_key 0x7C55 True]
      (dynamic_macro_start 4 []) = Some s \<and>
    (\<forall>depth. process_records (example_env False) depth [example_key 0x7C56 False] s = None)"
proof -
  have plain: "plain_env (example_env False) (\<lambda>r. ev_time (event r))" "keeps_keys (example_env False) (\<lambda>r. ev_time (event r))"
    by (simp_all add: plain_env_def keeps_keys_def example_defs)
  have nest: "\<not> DYNAMIC_MACRO_NO_NESTING (example_env False)"
    by (simp add: example_env_def)
  show ?thesis
    using macro_recursion [OF plain, of 4 "example_key 0x7C53 False" "example_key 0x7C56 True" "example_key 0x7C56 False"
        "example_key 0x7C55 True" "[]"] nest
    by (auto simp: example_key_def record_of_event_def MAKE_EVENT_def simp del: process_records.simps)
qed

end
