(* ===== verification/SendString.thy ===== *)
theory SendString
  imports ActionFacts
begin

text \<open>
  quantum/send_string/send_string.c: strings of characters and of the escapes for keys and delays, typed by taps of keys.

  A string is the list of the bytes from its pointer on, its terminator included.  Reading behind the end of the list
  and reading behind a table are \<open>None\<close>, and so is a delay above \<open>INT_MAX\<close>.  The bell (\<open>SENDSTRING_BELL\<close>) is off.  The
  tables are the weak ones of the file, for the layout of a US keyboard.
\<close>

section \<open>The tables\<close>

abbreviation SS_QMK_PREFIX :: u8 where "SS_QMK_PREFIX \<equiv> 1"
abbreviation SS_TAP_CODE :: u8 where "SS_TAP_CODE \<equiv> 1"
abbreviation SS_DOWN_CODE :: u8 where "SS_DOWN_CODE \<equiv> 2"
abbreviation SS_UP_CODE :: u8 where "SS_UP_CODE \<equiv> 3"
abbreviation SS_DELAY_CODE :: u8 where "SS_DELAY_CODE \<equiv> 4"
abbreviation KC_SPACE :: u8 where "KC_SPACE \<equiv> 0x2C"

definition KCLUT_ENTRY :: "bool list \<Rightarrow> u8" where
  "KCLUT_ENTRY bs = horner_sum of_bool 2 bs"

definition ascii_to_shift_lut :: "u8 list" where
  "ascii_to_shift_lut = map KCLUT_ENTRY
    [replicate 8 False, replicate 8 False, replicate 8 False, replicate 8 False,
     [False, True, True, True, True, True, True, False],
     [True, True, True, True, False, False, False, False],
     [False, False, False, False, False, False, False, False],
     [False, False, True, False, True, False, True, True],
     [True, True, True, True, True, True, True, True],
     [True, True, True, True, True, True, True, True],
     [True, True, True, True, True, True, True, True],
     [True, True, True, False, False, False, True, True],
     [False, False, False, False, False, False, False, False],
     [False, False, False, False, False, False, False, False],
     [False, False, False, False, False, False, False, False],
     [False, False, False, True, True, True, True, False]]"

definition ascii_to_altgr_lut :: "u8 list" where
  "ascii_to_altgr_lut = map KCLUT_ENTRY (replicate 16 (replicate 8 False))"

definition ascii_to_dead_lut :: "u8 list" where
  "ascii_to_dead_lut = map KCLUT_ENTRY (replicate 16 (replicate 8 False))"

definition ascii_to_keycode_lut :: "u8 list" where
  "ascii_to_keycode_lut =
    [0, 0, 0, 0, 0, 0, 0, 0, 0x2A, 0x2B, 0x28, 0, 0, 0, 0, 0,
     0, 0, 0, 0, 0, 0, 0, 0, 0, 0, 0, 0x29, 0, 0, 0, 0,
     0x2C, 0x1E, 0x34, 0x20, 0x21, 0x22, 0x24, 0x34,
     0x26, 0x27, 0x25, 0x2E, 0x36, 0x2D, 0x37, 0x38,
     0x27, 0x1E, 0x1F, 0x20, 0x21, 0x22, 0x23, 0x24,
     0x25, 0x26, 0x33, 0x33, 0x36, 0x2E, 0x37, 0x38,
     0x1F, 0x04, 0x05, 0x06, 0x07, 0x08, 0x09, 0x0A,
     0x0B, 0x0C, 0x0D, 0x0E, 0x0F, 0x10, 0x11, 0x12,
     0x13, 0x14, 0x15, 0x16, 0x17, 0x18, 0x19, 0x1A,
     0x1B, 0x1C, 0x1D, 0x2F, 0x31, 0x30, 0x23, 0x2D,
     0x35, 0x04, 0x05, 0x06, 0x07, 0x08, 0x09, 0x0A,
     0x0B, 0x0C, 0x0D, 0x0E, 0x0F, 0x10, 0x11, 0x12,
     0x13, 0x14, 0x15, 0x16, 0x17, 0x18, 0x19, 0x1A,
     0x1B, 0x1C, 0x1D, 0x2F, 0x31, 0x30, 0x35, 0x4C]"

definition PGM_LOADBIT :: "u8 list \<Rightarrow> nat \<Rightarrow> bool" where
  "PGM_LOADBIT mem pos \<longleftrightarrow> drop_bit (pos mod 8) (mem ! (pos div 8)) AND 1 \<noteq> 0"

section \<open>Sending\<close>

definition wait_times :: "nat \<Rightarrow> ('s) mods_vars_scheme \<Rightarrow> ('s) mods_vars_scheme" where
  "wait_times n s = fold (\<lambda>_ s. emit (WaitMs 1) s) [0..<n] s"

definition send_char ::
    "('h, 'c) actions_config_scheme \<Rightarrow> u8 \<Rightarrow> ('s) mods_vars_scheme \<Rightarrow> ('s) mods_vars_scheme option" where
  "send_char cf ascii_code s =
    (if 128 \<le> ascii_code then None
     else
       let keycode = ascii_to_keycode_lut ! unat ascii_code;
           is_shifted = PGM_LOADBIT ascii_to_shift_lut (unat ascii_code);
           is_altgred = PGM_LOADBIT ascii_to_altgr_lut (unat ascii_code);
           is_dead = PGM_LOADBIT ascii_to_dead_lut (unat ascii_code);
           s = (if is_shifted then register_code cf KC_LEFT_SHIFT s else s);
           s = (if is_altgred then register_code cf KC_RIGHT_ALT s else s);
           s = tap_code cf keycode s;
           s = (if is_altgred then unregister_code cf KC_RIGHT_ALT s else s);
           s = (if is_shifted then unregister_code cf KC_LEFT_SHIFT s else s)
       in Some (if is_dead then tap_code cf KC_SPACE s else s))"

definition is_digit :: "u8 \<Rightarrow> bool" where
  "is_digit c \<longleftrightarrow> 48 \<le> c \<and> c \<le> 57"

text \<open>The digits of a delay, up to and with the first byte that is none.\<close>

fun delay_digits :: "nat \<Rightarrow> u8 list \<Rightarrow> nat \<Rightarrow> (nat \<times> u8 list) option" where
  "delay_digits INT_MAX [] ms = None"
| "delay_digits INT_MAX (c # string) ms =
    (if is_digit c then
       (if INT_MAX < ms * 10 + (unat c - 48) then None else delay_digits INT_MAX string (ms * 10 + (unat c - 48)))
     else Some (ms, string))"

lemma delay_digits_shorter: "delay_digits m string ms = Some (n, rest) \<Longrightarrow> length rest < length string"
  by (induction m string ms rule: delay_digits.induct) (auto split: if_splits)

text \<open>One turn of the loop: the rest of the string and the state, before the interval.\<close>

definition send_item ::
    "('h, 'c) actions_config_scheme \<Rightarrow> nat \<Rightarrow> u8 \<Rightarrow> u8 list \<Rightarrow> ('s) mods_vars_scheme \<Rightarrow>
     (u8 list \<times> ('s) mods_vars_scheme) option" where
  "send_item cf INT_MAX ascii_code string s =
    (if ascii_code = SS_QMK_PREFIX then
       (case string of
          [] \<Rightarrow> None
        | code # string \<Rightarrow>
            if code = SS_TAP_CODE then
              (case string of [] \<Rightarrow> None | keycode # string \<Rightarrow> Some (string, tap_code cf keycode s))
            else if code = SS_DOWN_CODE then
              (case string of [] \<Rightarrow> None | keycode # string \<Rightarrow> Some (string, register_code cf keycode s))
            else if code = SS_UP_CODE then
              (case string of [] \<Rightarrow> None | keycode # string \<Rightarrow> Some (string, unregister_code cf keycode s))
            else if code = SS_DELAY_CODE then
              (case delay_digits INT_MAX string 0 of
                 None \<Rightarrow> None
               | Some (ms, string) \<Rightarrow> Some (string, wait_times ms s))
            else Some (string, s))
     else map_option (Pair string) (send_char cf ascii_code s))"

lemma send_item_shorter: "send_item cf m c string s = Some (rest, s') \<Longrightarrow> length rest < Suc (length string)"
  by (auto simp: send_item_def dest: delay_digits_shorter split: if_splits list.splits option.splits)

function send_string_with_delay ::
    "('h, 'c) actions_config_scheme \<Rightarrow> nat \<Rightarrow> u8 list \<Rightarrow> u8 \<Rightarrow> ('s) mods_vars_scheme \<Rightarrow> ('s) mods_vars_scheme option" where
  "send_string_with_delay cf INT_MAX string interval s =
    (case string of
       [] \<Rightarrow> None
     | ascii_code # string \<Rightarrow>
         if ascii_code = 0 then Some s
         else (case send_item cf INT_MAX ascii_code string s of
             None \<Rightarrow> None
           | Some (rest, s) \<Rightarrow> send_string_with_delay cf INT_MAX rest interval (wait_times (unat interval) s)))"
  by pat_completeness auto
termination
  by (relation "measure (\<lambda>(_, _, string, _, _). length string)") (auto dest: send_item_shorter)

declare send_string_with_delay.simps [simp del]

definition send_string ::
    "('h, 'c) actions_config_scheme \<Rightarrow> nat \<Rightarrow> u8 list \<Rightarrow> ('s) mods_vars_scheme \<Rightarrow> ('s) mods_vars_scheme option" where
  "send_string cf INT_MAX string s = send_string_with_delay cf INT_MAX string 0 s"

definition send_nibble ::
    "('h, 'c) actions_config_scheme \<Rightarrow> u8 \<Rightarrow> ('s) mods_vars_scheme \<Rightarrow> ('s) mods_vars_scheme option" where
  "send_nibble cf number s =
    (if number AND 0xF \<le> 9 then send_char cf (number + 48) s else send_char cf (number - 10 + 97) s)"

definition send_byte ::
    "('h, 'c) actions_config_scheme \<Rightarrow> u8 \<Rightarrow> ('s) mods_vars_scheme \<Rightarrow> ('s) mods_vars_scheme option" where
  "send_byte cf number s = Option.bind (send_nibble cf (drop_bit 4 number) s) (send_nibble cf (number AND 0xF))"

definition send_word ::
    "('h, 'c) actions_config_scheme \<Rightarrow> u16 \<Rightarrow> ('s) mods_vars_scheme \<Rightarrow> ('s) mods_vars_scheme option" where
  "send_word cf number s =
    Option.bind (send_byte cf (ucast (drop_bit 8 number)) s) (send_byte cf (ucast (number AND 0xFF)))"

definition send_dword ::
    "('h, 'c) actions_config_scheme \<Rightarrow> u32 \<Rightarrow> ('s) mods_vars_scheme \<Rightarrow> ('s) mods_vars_scheme option" where
  "send_dword cf number s =
    Option.bind (send_word cf (ucast (drop_bit 16 number)) s) (send_word cf (ucast (number AND 0xFFFF)))"

text \<open>The random number is an argument.\<close>

definition tap_random_base64 ::
    "('h, 'c) actions_config_scheme \<Rightarrow> nat \<Rightarrow> ('s) mods_vars_scheme \<Rightarrow> ('s) mods_vars_scheme option" where
  "tap_random_base64 cf random s =
    (let key = of_nat (random mod 64) :: u8
     in if key \<le> 25 then send_char cf (key + 65) s
        else if key \<le> 51 then send_char cf (key - 26 + 97) s
        else if key = 52 then send_char cf 48 s
        else if key \<le> 61 then send_char cf (key - 53 + 49) s
        else if key = 62 then send_char cf 43 s
        else send_char cf 47 s)"


section \<open>What is typed\<close>

text \<open>The host types a key, with the modifiers of the report, when a report holds it and the one before did not.\<close>

definition new_keys :: "bool \<Rightarrow> u8 list \<Rightarrow> u8 list \<Rightarrow> u8 list" where
  "new_keys n old new =
    filter (\<lambda>k. is_key_pressed n (empty_report\<lparr>rk_payload := new\<rparr>) k \<and> \<not> is_key_pressed n (empty_report\<lparr>rk_payload := old\<rparr>) k)
      (map of_nat [1..<256])"

definition read_event ::
    "host_event \<Rightarrow> (u8 \<times> u8 list) \<times> (u8 \<times> u8) list \<Rightarrow> (u8 \<times> u8 list) \<times> (u8 \<times> u8) list" where
  "read_event e v =
    (case e of
       SendKeyboard n r \<Rightarrow>
         let mods = (if n then rk_reserved r else rk_mods r)
         in ((mods, rk_payload r), snd v @ map (Pair mods) (new_keys n (snd (fst v)) (rk_payload r)))
     | _ \<Rightarrow> v)"

definition host_typed :: "host_event list \<Rightarrow> (u8 \<times> u8) list" where
  "host_typed es = snd (fold read_event es ((0, replicate KEYBOARD_REPORT_BITS 0), []))"

text \<open>The characters of a US keyboard, by the usage of the key: plain and with shift.\<close>

definition us_keys :: "(u8 \<times> u8 \<times> u8) list" where
  "us_keys =
    [(4, 97, 65), (5, 98, 66), (6, 99, 67), (7, 100, 68), (8, 101, 69), (9, 102, 70), (10, 103, 71), (11, 104,
     72), (12, 105, 73), (13, 106, 74), (14, 107, 75), (15, 108, 76), (16, 109, 77), (17, 110, 78), (18, 111,
     79), (19, 112, 80), (20, 113, 81), (21, 114, 82), (22, 115, 83), (23, 116, 84), (24, 117, 85), (25, 118,
     86), (26, 119, 87), (27, 120, 88), (28, 121, 89), (29, 122, 90),
     (0x1E, 49, 33), (0x1F, 50, 64), (0x20, 51, 35), (0x21, 52, 36), (0x22, 53, 37), (0x23, 54, 94), (0x24, 55, 38),
     (0x25, 56, 42), (0x26, 57, 40), (0x27, 48, 41), (0x28, 10, 10), (0x29, 27, 27), (0x2A, 8, 8), (0x2B, 9, 9),
     (0x2C, 32, 32), (0x2D, 45, 95), (0x2E, 61, 43), (0x2F, 91, 123), (0x30, 93, 125), (0x31, 92, 124), (0x33, 59, 58),
     (0x34, 39, 34), (0x35, 96, 126), (0x36, 44, 60), (0x37, 46, 62), (0x38, 47, 63), (0x4C, 127, 127)]"

definition us_char :: "u8 \<times> u8 \<Rightarrow> u8 option" where
  "us_char p = (case p of (mods, k) \<Rightarrow>
     if mods AND NOT 0x22 \<noteq> 0 then None
     else map_option (if mods = 0 then fst else snd) (map_of us_keys k))"

definition typeable :: "u8 list" where
  "typeable =
    [8, 9, 10, 27, 32, 33, 34, 35, 36, 37, 38, 39, 40, 41, 42, 43, 44, 45, 46, 47, 48, 49, 50, 51, 52, 53, 54,
     55, 56, 57, 58, 59, 60, 61, 62, 63, 64, 65, 66, 67, 68, 69, 70, 71, 72, 73, 74, 75, 76, 77, 78, 79, 80,
     81, 82, 83, 84, 85, 86, 87, 88, 89, 90, 91, 92, 93, 94, 95, 96, 97, 98, 99, 100, 101, 102, 103, 104, 105,
     106, 107, 108, 109, 110, 111, 112, 113, 114, 115, 116, 117, 118, 119, 120, 121, 122, 123, 124, 125, 126,
     127]"

text \<open>The tables, evaluated once.\<close>

lemma shift_lut [code]: "ascii_to_shift_lut = [0, 0, 0, 0, 126, 15, 0, 212, 255, 255, 255, 199, 0, 0, 0, 120]"
  by (simp add: ascii_to_shift_lut_def KCLUT_ENTRY_def numeral_eq_Suc)

lemma other_luts [code]: "ascii_to_altgr_lut = replicate 16 0" "ascii_to_dead_lut = replicate 16 0"
  by (simp_all add: ascii_to_altgr_lut_def ascii_to_dead_lut_def KCLUT_ENTRY_def numeral_eq_Suc)

lemma lut_types:
  "c \<in> set typeable \<Longrightarrow> us_char (if PGM_LOADBIT ascii_to_shift_lut (unat c) then 2 else 0, ascii_to_keycode_lut ! unat c) = Some c \<and>
    IS_BASIC_KEYCODE (ascii_to_keycode_lut ! unat c) \<and> \<not> PGM_LOADBIT ascii_to_altgr_lut (unat c) \<and>
    \<not> PGM_LOADBIT ascii_to_dead_lut (unat c) \<and> c < 128"
proof -
  have "list_all (\<lambda>c. us_char (if PGM_LOADBIT ascii_to_shift_lut (unat c) then 2 else 0, ascii_to_keycode_lut ! unat c) = Some c \<and>
    IS_BASIC_KEYCODE (ascii_to_keycode_lut ! unat c) \<and> \<not> PGM_LOADBIT ascii_to_altgr_lut (unat c) \<and>
    \<not> PGM_LOADBIT ascii_to_dead_lut (unat c) \<and> c < 128) typeable"
    by code_simp
  then show "c \<in> set typeable \<Longrightarrow> ?thesis"
    by (simp add: list_all_iff)
qed

lemma read_view: "fst (fold read_event es v) = fold (\<lambda>e v. case e of
      SendKeyboard n r \<Rightarrow> (if n then rk_reserved r else rk_mods r, rk_payload r) | _ \<Rightarrow> v) es (fst v)"
  by (induction es arbitrary: v) (auto simp: read_event_def Let_def split: host_event.splits)

lemma host_typed_snoc:
  "host_typed (es @ [e]) = (case e of
     SendKeyboard n r \<Rightarrow>
       host_typed es @ map (Pair (if n then rk_reserved r else rk_mods r)) (new_keys n (snd (host_view es)) (rk_payload r))
   | _ \<Rightarrow> host_typed es)"
proof -
  have "snd (fst (fold read_event es ((0, replicate KEYBOARD_REPORT_BITS 0), []))) = snd (host_view es)"
    by (simp only: read_view host_view_def fst_conv)
  then show ?thesis
    by (auto simp: host_typed_def read_event_def Let_def split: host_event.splits)
qed

lemma host_typed_emit [simp]: "\<not> is_keyboard_send e \<Longrightarrow> host_typed (out (emit e s)) = host_typed (out s)"
  by (cases e) (simp_all add: emit_def host_typed_snoc is_keyboard_send_def)

lemma typed_update_report_mods: "host_typed (out (update_report_mods cf s)) = host_typed (out s)"
  by (simp add: update_report_mods_def clear_oneshot_mods_def Let_def host_typed_snoc emit_def)

lemma use_nkro_frame [simp]:
  "use_nkro (s\<lparr>last_report := r\<rparr>) = use_nkro s" "use_nkro (s\<lparr>out := es\<rparr>) = use_nkro s"
  "use_nkro (s\<lparr>real_mods := m\<rparr>) = use_nkro s" "use_nkro (emit e s) = use_nkro s"
  by (simp_all add: use_nkro_def emit_def)

lemma typed_send:
  assumes "host_driver cf" "host_synced s"
  shows "host_typed (out (send_keyboard_report cf s)) =
    host_typed (out s) @ map (Pair (wanted_mods cf s)) (new_keys (use_nkro s) (snd (host_view (out s))) (rk_payload (keyboard_report s)))"
proof (cases "keyboard_report (update_report_mods cf s) = last_report (update_report_mods cf s)")
  case True
  then have "rk_payload (keyboard_report s) = snd (host_view (out s))"
    using assms(2) by (auto simp: update_report_mods_report host_synced_def dest: arg_cong [of _ _ rk_payload])
  then have "new_keys (use_nkro s) (snd (host_view (out s))) (rk_payload (keyboard_report s)) = []"
    by (simp add: new_keys_def)
  then show ?thesis
    using True by (simp add: send_keyboard_report_def Let_def typed_update_report_mods)
next
  case False
  then show ?thesis
    using assms(1)
    by (simp add: send_keyboard_report_def Let_def host_keyboard_send_def emit_def host_typed_snoc host_view_snoc_other
        is_keyboard_send_def update_report_mods_report update_report_mods_out typed_update_report_mods)
qed

text \<open>
  Nothing is pressed but modifiers, and nothing else will change the modifiers; in a calm state they are \<open>m\<close>, and none is
  weak.
\<close>

definition quiet :: "('c) mods_config_scheme \<Rightarrow> ('s) mods_vars_scheme \<Rightarrow> bool" where
  "quiet cf s \<longleftrightarrow>
     host_driver cf \<and> host_synced s \<and> report_inv (use_nkro s) (keyboard_report s) \<and>
     (\<forall>k. \<not> is_key_pressed (use_nkro s) (keyboard_report s) k) \<and> (\<forall>k. \<not> host_pressed s (out s) k) \<and>
     oneshot_mods s = 0 \<and> suppressed_mods s = 0 \<and> weak_override_mods s = 0"

definition calm :: "('c) mods_config_scheme \<Rightarrow> u8 \<Rightarrow> ('s) mods_vars_scheme \<Rightarrow> bool" where
  "calm cf m s \<longleftrightarrow> quiet cf s \<and> real_mods s = m \<and> weak_mods s = 0"

lemma calm_iff:
  "calm cf m s \<longleftrightarrow>
     host_driver cf \<and> host_synced s \<and> report_inv (use_nkro s) (keyboard_report s) \<and>
     (\<forall>k. \<not> is_key_pressed (use_nkro s) (keyboard_report s) k) \<and> (\<forall>k. \<not> host_pressed s (out s) k) \<and>
     real_mods s = m \<and> weak_mods s = 0 \<and> oneshot_mods s = 0 \<and> suppressed_mods s = 0 \<and> weak_override_mods s = 0"
  by (auto simp: calm_def quiet_def)

lemma quiet_wanted: "quiet cf s \<Longrightarrow> wanted_mods cf s = real_mods s OR weak_mods s"
  by (simp add: quiet_def wanted_mods_def live_oneshot_mods_def)

lemma calm_wanted: "calm cf m s \<Longrightarrow> wanted_mods cf s = m"
  by (simp add: calm_iff wanted_mods_def live_oneshot_mods_def)

lemma send_use_nkro: "use_nkro (send_keyboard_report cf s) = use_nkro s"
  by simp

lemma host_pressed_cong: "use_nkro s' = use_nkro s \<Longrightarrow> host_pressed s' es k = host_pressed s es k"
  by (simp add: host_pressed_def)

text \<open>Other modifiers are sent.\<close>

lemma quiet_mods:
  assumes "quiet cf s" "s' = s\<lparr>real_mods := m, weak_mods := w\<rparr>"
  defines "t \<equiv> send_keyboard_report cf s'"
  shows "quiet cf t" "host_typed (out t) = host_typed (out s)" "use_nkro t = use_nkro s" "real_mods t = m" "weak_mods t = w"
proof -
  have s': "host_synced s'" "use_nkro s' = use_nkro s" "out s' = out s" "keyboard_report s' = keyboard_report s"
    using assms(1,2) by (simp_all add: quiet_def host_synced_def use_nkro_def)
  have h: "host_driver cf"
    using assms(1) by (simp add: quiet_def)
  note send = send_host_pressed [OF h s'(1)]
  show u: "use_nkro t = use_nkro s"
    using s'(2) by (simp add: t_def)
  have "host_pressed t (out t) k = is_key_pressed (use_nkro t) (keyboard_report s') k" for k
    unfolding t_def by (rule send(2))
  then show "quiet cf t"
    using assms(1,2) s' u send h by (simp add: quiet_def t_def send_oneshot live_oneshot_mods_def)
  show "real_mods t = m" "weak_mods t = w"
    using assms(2) by (simp_all add: t_def)
  have "\<not> is_key_pressed (use_nkro s') (empty_report\<lparr>rk_payload := rk_payload (keyboard_report s')\<rparr>) k" for k
    using assms(1) s' by (simp add: is_key_pressed_payload quiet_def)
  then have "new_keys (use_nkro s') (snd (host_view (out s'))) (rk_payload (keyboard_report s')) = []"
    by (simp add: new_keys_def)
  then show "host_typed (out t) = host_typed (out s)"
    using typed_send [OF h s'(1)] s'(3) by (simp add: t_def)
qed

lemma calm_mods:
  assumes "calm cf m s" "s' = s\<lparr>real_mods := m'\<rparr>"
  defines "t \<equiv> send_keyboard_report cf s'"
  shows "calm cf m' t" "host_typed (out t) = host_typed (out s)" "use_nkro t = use_nkro s"
proof -
  have "s' = s\<lparr>real_mods := m', weak_mods := 0\<rparr>"
    using assms(1) unfolding assms(2) calm_def by simp
  note quiet = quiet_mods [OF _ this, of cf]
  have "quiet cf s"
    using assms(1) by (simp add: calm_def)
  then show "calm cf m' t" "host_typed (out t) = host_typed (out s)" "use_nkro t = use_nkro s"
    using quiet by (simp_all add: calm_def t_def)
qed

lemma filter_eq_single: "distinct xs \<Longrightarrow> x \<in> set xs \<Longrightarrow> filter (\<lambda>y. y = x) xs = [x]"
  by (induction xs) (auto simp: filter_empty_conv)

lemma new_keys_single:
  assumes "k \<noteq> 0" "\<And>j. is_key_pressed n (empty_report\<lparr>rk_payload := new\<rparr>) j \<longleftrightarrow> j = k"
    "\<And>j. \<not> is_key_pressed n (empty_report\<lparr>rk_payload := old\<rparr>) j"
  shows "new_keys n old new = [k]"
proof -
  have d: "distinct (map of_nat [1..<256] :: u8 list)"
    by (auto simp: distinct_map inj_on_def word_of_nat_eq_iff take_bit_nat_def)
  have "of_nat (unat k) \<in> set (map of_nat [1..<256] :: u8 list)"
    using assms(1) unsigned_less [of k] unfolding set_map by (intro imageI) (auto simp: unat_gt_0 Suc_le_eq)
  then have "k \<in> set (map of_nat [1..<256] :: u8 list)"
    by simp
  then show ?thesis
    using filter_eq_single [OF d] assms(2,3) by (simp add: new_keys_def)
qed

lemma wait_times_Suc: "wait_times (Suc n) s = emit (WaitMs 1) (wait_times n s)"
  by (simp add: wait_times_def)

lemma wait_times_out: "wait_times n s = s\<lparr>out := out s @ replicate n (WaitMs 1)\<rparr>"
  by (induction n) (simp_all add: wait_times_Suc emit_def replicate_append_same del: One_nat_def, simp add: wait_times_def)

lemma wait_times_seen:
  "host_view (out (wait_times n s)) = host_view (out s) \<and> host_typed (out (wait_times n s)) = host_typed (out s)"
  by (induction n) (simp_all add: wait_times_Suc is_keyboard_send_def emit_def host_view_snoc_other host_typed_snoc,
      simp add: wait_times_def)

lemma wait_times_frame [simp]:
  "host_synced (wait_times n s) = host_synced s" "keyboard_report (wait_times n s) = keyboard_report s"
  "use_nkro (wait_times n s) = use_nkro s" "real_mods (wait_times n s) = real_mods s" "weak_mods (wait_times n s) = weak_mods s"
  "oneshot_mods (wait_times n s) = oneshot_mods s" "suppressed_mods (wait_times n s) = suppressed_mods s"
  "weak_override_mods (wait_times n s) = weak_override_mods s" "host_typed (out (wait_times n s)) = host_typed (out s)"
  "host_pressed s' (out (wait_times n s)) k = host_pressed s' (out s) k" "calm cf m (wait_times n s) = calm cf m s"
  using wait_times_seen [of n s]
  by (simp_all add: host_synced_def host_pressed_def calm_iff) (simp_all add: wait_times_out)

lemma report_fits_when_empty:
  assumes "report_inv n r" "\<And>k. \<not> is_key_pressed n r k" "IS_BASIC_KEYCODE code"
  shows "report_fits n r code"
proof (cases n)
  case True
  then show ?thesis
    using assms(3) by (simp add: report_fits_def nkro_fits_def IS_BASIC_KEYCODE_def word_le_nat_alt KEYBOARD_REPORT_BITS_def)
next
  case False
  then have "rk_keys r \<noteq> []"
    using assms(1) length_rk_keys [of r] by (auto simp: report_inv_def kro6_inv_def)
  then have "hd (rk_keys r) \<in> set (rk_keys r)"
    by simp
  then have "hd (rk_keys r) = 0"
    using assms(2) [of "hd (rk_keys r)"] False by (auto simp: is_key_pressed_def split: if_splits)
  then show ?thesis
    using False \<open>hd (rk_keys r) \<in> set (rk_keys r)\<close> by (simp add: report_fits_def kro6_fits_def)
qed

lemma key_ops_mods [simp]:
  "real_mods (add_key k s) = real_mods s" "weak_mods (add_key k s) = weak_mods s" "oneshot_mods (add_key k s) = oneshot_mods s"
  "suppressed_mods (add_key k s) = suppressed_mods s" "weak_override_mods (add_key k s) = weak_override_mods s"
  "real_mods (del_key k s) = real_mods s" "weak_mods (del_key k s) = weak_mods s" "oneshot_mods (del_key k s) = oneshot_mods s"
  "suppressed_mods (del_key k s) = suppressed_mods s" "weak_override_mods (del_key k s) = weak_override_mods s"
  by (simp_all add: add_key_def del_key_def)

text \<open>A tap is typed with the modifiers.\<close>

lemma quiet_tap:
  assumes "quiet cf s" "IS_BASIC_KEYCODE k"
  defines "t \<equiv> tap_code cf k s"
  shows "quiet cf t" "host_typed (out t) = host_typed (out s) @ [(real_mods s OR weak_mods s, k)]" "use_nkro t = use_nkro s"
    "real_mods t = real_mods s" "weak_mods t = weak_mods s"
proof -
  define n where "n = use_nkro s"
  define m where "m = real_mods s OR weak_mods s"
  define a where "a = send_keyboard_report cf (add_key k s)"
  define w where "w = wait_times (unat (of_nat (if k = KC_CAPS_LOCK then TAP_HOLD_CAPS_DELAY cf else TAP_CODE_DELAY cf) :: u16)) a"
  have c: "host_driver cf" "host_synced s" "report_inv n (keyboard_report s)" "\<And>k. \<not> is_key_pressed n (keyboard_report s) k"
    "\<And>j. \<not> host_pressed s (out s) j" "oneshot_mods s = 0" "suppressed_mods s = 0"
    "weak_override_mods s = 0"
    using assms(1) by (auto simp: quiet_def n_def)
  have k: "k \<noteq> 0"
    using assms(2) by (rule basic_keycode_nonzero)
  have fits: "report_fits n (keyboard_report s) k"
    using c(3,4) assms(2) by (rule report_fits_when_empty)
  have keys: "is_key_pressed n (keyboard_report (add_key k s)) j \<longleftrightarrow> j = k" for j
    using c(3,4) fits k by (simp add: n_def [symmetric] report.pressed_add)
  have inv: "report_inv n (keyboard_report (add_key k s))"
    using c(3) k by (simp add: n_def [symmetric] report.inv_add)
  have synced: "host_synced (add_key k s)"
    using c(2) by simp
  note send = send_host_pressed [OF c(1) synced]
  have t: "t = send_keyboard_report cf (del_key k w)"
    using c(4) assms(2) k
    by (simp add: t_def tap_code_def tap_code_delay_def register_code_def unregister_code_def a_def w_def n_def wait_times_def Let_def)
  have wanted: "wanted_mods cf (add_key k s) = m"
    using c(6-8) by (simp add: m_def wanted_mods_def live_oneshot_mods_def)
  have new: "new_keys n (snd (host_view (out s))) (rk_payload (keyboard_report (add_key k s))) = [k]"
    using c(5) keys by (intro new_keys_single [OF k]) (simp_all add: host_pressed_def n_def is_key_pressed_payload)
  have typed_a: "host_typed (out a) = host_typed (out s) @ [(m, k)]"
    using typed_send [OF c(1) synced] new wanted by (simp add: a_def n_def)
  have "host_pressed s (out a) j \<longleftrightarrow> j = k" for j
    using keys send(2) [of s] by (simp add: a_def n_def)
  then have w: "use_nkro w = n" "host_synced w" "report_inv n (keyboard_report w)" "\<And>j. is_key_pressed n (keyboard_report w) j \<longleftrightarrow> j = k"
    "host_typed (out w) = host_typed (out a)" "real_mods w = real_mods s" "weak_mods w = weak_mods s" "oneshot_mods w = 0" "suppressed_mods w = 0"
    "weak_override_mods w = 0" "\<And>j. host_pressed s (out w) j \<longleftrightarrow> j = k"
    using send(1,3-5) keys inv c(6-8)
    by (simp_all add: w_def) (simp_all add: a_def n_def send_oneshot live_oneshot_mods_def)
  have released: "\<not> is_key_pressed n (keyboard_report (del_key k w)) j" for j
    using w k by (simp add: report.pressed_del)
  have synced_w: "host_synced (del_key k w)"
    using w(2) by simp
  note send_w = send_host_pressed [OF c(1) synced_w]
  show "use_nkro t = use_nkro s"
    using w(1) by (simp add: t n_def)
  have "host_pressed t (out t) j = is_key_pressed (use_nkro t) (keyboard_report (del_key k w)) j" for j
    unfolding t by (rule send_w(2))
  then show "quiet cf t"
    using c(1) w k released send_w \<open>use_nkro t = use_nkro s\<close>
    by (simp add: quiet_def t send_oneshot live_oneshot_mods_def report.inv_del n_def)
  have "new_keys n (snd (host_view (out w))) (rk_payload (keyboard_report (del_key k w))) = []"
    using released by (simp add: new_keys_def is_key_pressed_payload)
  then show "host_typed (out t) = host_typed (out s) @ [(real_mods s OR weak_mods s, k)]"
    using typed_send [OF c(1) synced_w] w(1,5) typed_a by (simp add: t m_def)
  show "real_mods t = real_mods s" "weak_mods t = weak_mods s"
    using w by (simp_all add: t)
qed

lemma calm_tap:
  assumes "calm cf m s" "IS_BASIC_KEYCODE k"
  defines "t \<equiv> tap_code cf k s"
  shows "calm cf m t" "host_typed (out t) = host_typed (out s) @ [(m, k)]" "use_nkro t = use_nkro s"
  using quiet_tap [of cf s k] assms(1,2) by (simp_all add: calm_def t_def)

lemma calm_shift:
  "calm cf 0 s \<Longrightarrow> calm cf 2 (register_code cf KC_LEFT_SHIFT s) \<and>
    host_typed (out (register_code cf KC_LEFT_SHIFT s)) = host_typed (out s)"
  "calm cf 2 s \<Longrightarrow> calm cf 0 (unregister_code cf KC_LEFT_SHIFT s) \<and>
    host_typed (out (unregister_code cf KC_LEFT_SHIFT s)) = host_typed (out s)"
proof -
  have code: "\<not> IS_BASIC_KEYCODE (KC_LEFT_SHIFT :: u8)" "IS_MODIFIER_KEYCODE (KC_LEFT_SHIFT :: u8)" "MOD_BIT KC_LEFT_SHIFT = 2"
    by (simp_all add: IS_BASIC_KEYCODE_def IS_MODIFIER_KEYCODE_def MOD_BIT_def)
  show "calm cf 2 (register_code cf KC_LEFT_SHIFT s) \<and> host_typed (out (register_code cf KC_LEFT_SHIFT s)) = host_typed (out s)"
    if "calm cf 0 s"
    using calm_mods [OF that, of "add_mods 2 s" 2] that code by (simp add: register_code_def add_mods_def calm_def)
  show "calm cf 0 (unregister_code cf KC_LEFT_SHIFT s) \<and> host_typed (out (unregister_code cf KC_LEFT_SHIFT s)) = host_typed (out s)"
    if "calm cf 2 s"
    using calm_mods [OF that, of "del_mods 2 s" 0] that code by (simp add: unregister_code_def del_mods_def calm_def)
qed

lemma calm_send_char:
  assumes "calm cf 0 s" "c \<in> set typeable"
  shows "\<exists>t. send_char cf c s = Some t \<and> calm cf 0 t \<and>
    map us_char (host_typed (out t)) = map us_char (host_typed (out s)) @ [Some c]"
proof -
  note lut = lut_types [OF assms(2)]
  define k where "k = ascii_to_keycode_lut ! unat c"
  show ?thesis
  proof (cases "PGM_LOADBIT ascii_to_shift_lut (unat c)")
    case True
    define s1 where "s1 = register_code cf KC_LEFT_SHIFT s"
    define s2 where "s2 = tap_code cf k s1"
    have "calm cf 2 s1" "host_typed (out s1) = host_typed (out s)"
      using calm_shift(1) [OF assms(1)] by (simp_all add: s1_def)
    then have "calm cf 2 s2" "host_typed (out s2) = host_typed (out s) @ [(2, k)]"
      using calm_tap [of cf 2 s1 k] lut by (simp_all add: s2_def k_def)
    moreover have "send_char cf c s = Some (unregister_code cf KC_LEFT_SHIFT s2)"
      using lut True by (simp add: send_char_def s2_def s1_def k_def linorder_not_le [symmetric])
    ultimately show ?thesis
      using calm_shift(2) [of cf s2] lut True by (simp add: k_def)
  next
    case False
    then have "send_char cf c s = Some (tap_code cf k s)"
      using lut by (simp add: send_char_def k_def linorder_not_le [symmetric])
    then show ?thesis
      using calm_tap [OF assms(1), of k] lut False by (simp add: k_def)
  qed
qed

text \<open>
  (C27)
  A string of printable characters is typed as it is: from a state in which no key is pressed and no modifier is active
  or about to be, whatever the interval, a host with a US layout reads its characters, in their order and each once, and
  nothing is pressed afterwards.
\<close>

theorem send_string_types:
  assumes "calm cf 0 s" "set cs \<subseteq> set typeable"
  shows "\<exists>t. send_string_with_delay cf INT_MAX (cs @ [0]) interval s = Some t \<and> calm cf 0 t \<and>
    map us_char (host_typed (out t)) = map us_char (host_typed (out s)) @ map Some cs"
  using assms
proof (induction cs arbitrary: s)
  case Nil
  then show ?case
    by (simp add: send_string_with_delay.simps [where string = "[0]"])
next
  case (Cons c cs)
  obtain t where t: "send_char cf c s = Some t" "calm cf 0 t"
      "map us_char (host_typed (out t)) = map us_char (host_typed (out s)) @ [Some c]"
    using calm_send_char [OF Cons.prems(1), of c] Cons.prems(2) by auto
  have "c \<noteq> 0" "c \<noteq> 1"
    using Cons.prems(2) by (auto simp: typeable_def)
  then have "send_string_with_delay cf INT_MAX ((c # cs) @ [0]) interval s =
      send_string_with_delay cf INT_MAX (cs @ [0]) interval (wait_times (unat interval) t)"
    using t(1) by (simp add: send_string_with_delay.simps [where string = "c # cs @ [0]"] send_item_def)
  then show ?case
    using Cons.IH [of "wait_times (unat interval) t"] Cons.prems(2) t(2,3) by auto
qed

theorem send_string_types_witness:
  "\<exists>t. send_string_with_delay example_actions_config 32767 [81, 77, 75, 33, 0] 0 example_mods_vars = Some t \<and>
    map us_char (host_typed (out t)) = map Some [81, 77, 75, 33]"
proof -
  have "calm example_actions_config 0 example_mods_vars"
    using report_inv_empty [of False]
    by (simp add: calm_iff actions_example host_pressed_def host_synced_def host_view_def use_nkro_def)
      (simp add: mods_example empty_report_def is_key_pressed_def rk_keys_def)
  moreover have "host_typed (out example_mods_vars) = []"
    by (simp add: mods_example host_typed_def)
  ultimately show ?thesis
    using send_string_types [of example_actions_config example_mods_vars "[81, 77, 75, 33]" 32767 0]
    by (auto simp: typeable_def)
qed

section \<open>Numbers\<close>

definition hex_digit :: "u8 \<Rightarrow> u8" where
  "hex_digit d = (if d \<le> 9 then d + 48 else d - 10 + 97)"

lemma calm_send_nibble:
  assumes "calm cf 0 s" "d < 16"
  shows "\<exists>t. send_nibble cf d s = Some t \<and> calm cf 0 t \<and>
    map us_char (host_typed (out t)) = map us_char (host_typed (out s)) @ [Some (hex_digit d)]"
proof -
  have "unat d < 16"
    using assms(2) by (simp add: word_less_nat_alt)
  then have "d \<in> of_nat ` {..<16}"
    by (intro image_eqI [of _ _ "unat d"]) simp_all
  then have d: "d \<in> {0, 1, 2, 3, 4, 5, 6, 7, 8, 9, 10, 11, 12, 13, 14, 15}"
    by (auto simp: lessThan_nat_numeral lessThan_Suc)
  then have "hex_digit d \<in> set typeable"
    by (auto simp: hex_digit_def typeable_def)
  moreover have "d AND 0xF = d"
    using d by auto
  then have "send_nibble cf d s = send_char cf (hex_digit d) s"
    by (simp add: send_nibble_def hex_digit_def)
  ultimately show ?thesis
    using calm_send_char [OF assms(1)] by metis
qed

definition hex_byte :: "u8 \<Rightarrow> u8 list" where
  "hex_byte n = [hex_digit (drop_bit 4 n), hex_digit (n AND 0xF)]"

lemma calm_send_byte:
  assumes "calm cf 0 s"
  shows "\<exists>t. send_byte cf n s = Some t \<and> calm cf 0 t \<and>
    map us_char (host_typed (out t)) = map us_char (host_typed (out s)) @ map Some (hex_byte n)"
proof -
  have "drop_bit 4 n < 16"
  proof -
    have "unat (drop_bit 4 n) = unat n div 16"
      by (simp only: unat_drop_bit_eq) (simp add: drop_bit_eq_div)
    then show ?thesis
      using unsigned_less [of n, where ?'a = nat] by (simp only: word_less_nat_alt) simp
  qed
  then obtain s1 where 1: "send_nibble cf (drop_bit 4 n) s = Some s1" "calm cf 0 s1"
      "map us_char (host_typed (out s1)) = map us_char (host_typed (out s)) @ [Some (hex_digit (drop_bit 4 n))]"
    using calm_send_nibble [OF assms] by blast
  have "n AND 0xF = take_bit 4 n"
    by (simp add: take_bit_eq_mask mask_numeral)
  then have "n AND 0xF < 16"
    by (simp add: word_less_nat_alt unsigned_take_bit_eq take_bit_nat_less_exp [of 4, simplified])
  then show ?thesis
    using calm_send_nibble [OF 1(2)] 1 by (fastforce simp: send_byte_def hex_byte_def)
qed

text \<open>A number is typed as its eight lower-case hexadecimal digits.\<close>

lemma send_dword_types:
  fixes s :: "('s) mods_vars_scheme"
  assumes "calm cf 0 s"
  shows "\<exists>t. send_dword cf n s = Some t \<and> calm cf 0 t \<and>
    map us_char (host_typed (out t)) = map us_char (host_typed (out s)) @
      map Some (concat (map (\<lambda>i. hex_byte (ucast (drop_bit i n))) [24, 16, 8, 0]))"
proof -
  have word: "\<exists>t. send_word cf w s = Some t \<and> calm cf 0 t \<and>
      map us_char (host_typed (out t)) = map us_char (host_typed (out s)) @
        map Some (hex_byte (ucast (drop_bit 8 w)) @ hex_byte (ucast w))"
    if calm: "calm cf 0 s" for w and s :: "('s) mods_vars_scheme"
  proof -
    have low: "ucast (w AND 0xFF) = (ucast w :: u8)"
      by (rule bit_word_eqI) (auto simp: bit_simps and_255 dest: bit_imp_le_length)
    obtain s1 where 1: "send_byte cf (ucast (drop_bit 8 w)) s = Some s1" "calm cf 0 s1"
        "map us_char (host_typed (out s1)) = map us_char (host_typed (out s)) @ map Some (hex_byte (ucast (drop_bit 8 w)))"
      using calm_send_byte [OF calm] by blast
    show ?thesis
      using calm_send_byte [OF 1(2), of "ucast w"] 1 by (auto simp: send_word_def low)
  qed
  have low: "ucast (n AND 0xFFFF) = (ucast n :: u16)" and parts: "ucast (drop_bit 8 (ucast (drop_bit 16 n) :: u16)) = (ucast (drop_bit 24 n) :: u8)"
    "ucast (ucast (drop_bit 16 n) :: u16) = (ucast (drop_bit 16 n) :: u8)" "ucast (drop_bit 8 (ucast n :: u16)) = (ucast (drop_bit 8 n) :: u8)"
    "ucast (ucast n :: u16) = (ucast n :: u8)"
    by (rule bit_word_eqI, auto simp: bit_simps and_255 dest: bit_imp_le_length)+
  obtain s1 where 1: "send_word cf (ucast (drop_bit 16 n)) s = Some s1" "calm cf 0 s1"
      "map us_char (host_typed (out s1)) = map us_char (host_typed (out s)) @
        map Some (hex_byte (ucast (drop_bit 24 n)) @ hex_byte (ucast (drop_bit 16 n)))"
    using word [OF assms, of "ucast (drop_bit 16 n)"] by (auto simp: parts)
  then show ?thesis
    using word [OF 1(2), of "ucast n"] by (auto simp: send_dword_def low parts)
qed

section \<open>Escapes\<close>

text \<open>What a string is made of (\<open>SS_TAP\<close>, \<open>SS_DOWN\<close>, \<open>SS_UP\<close> and \<open>SS_DELAY\<close> of send_string_keycodes.h, and characters).\<close>

datatype ss_item = SS_TAP u8 | SS_DOWN u8 | SS_UP u8 | SS_DELAY nat | SS_CHAR u8

fun decimal :: "nat \<Rightarrow> u8 list" where
  "decimal n = (if n < 10 then [of_nat (48 + n)] else decimal (n div 10) @ [of_nat (48 + n mod 10)])"

declare decimal.simps [simp del]

fun ss_bytes :: "ss_item \<Rightarrow> u8 list" where
  "ss_bytes (SS_TAP k) = [SS_QMK_PREFIX, SS_TAP_CODE, k]"
| "ss_bytes (SS_DOWN k) = [SS_QMK_PREFIX, SS_DOWN_CODE, k]"
| "ss_bytes (SS_UP k) = [SS_QMK_PREFIX, SS_UP_CODE, k]"
| "ss_bytes (SS_DELAY n) = [SS_QMK_PREFIX, SS_DELAY_CODE] @ decimal n @ [124]"
| "ss_bytes (SS_CHAR c) = [c]"

fun run_item :: "('h, 'c) actions_config_scheme \<Rightarrow> ss_item \<Rightarrow> ('s) mods_vars_scheme \<Rightarrow> ('s) mods_vars_scheme option" where
  "run_item cf (SS_TAP k) s = Some (tap_code cf k s)"
| "run_item cf (SS_DOWN k) s = Some (register_code cf k s)"
| "run_item cf (SS_UP k) s = Some (unregister_code cf k s)"
| "run_item cf (SS_DELAY n) s = Some (wait_times n s)"
| "run_item cf (SS_CHAR c) s = send_char cf c s"

fun run_items ::
    "('h, 'c) actions_config_scheme \<Rightarrow> u8 \<Rightarrow> ss_item list \<Rightarrow> ('s) mods_vars_scheme \<Rightarrow> ('s) mods_vars_scheme option" where
  "run_items cf interval [] s = Some s"
| "run_items cf interval (i # is) s =
    (case run_item cf i s of None \<Rightarrow> None | Some s \<Rightarrow> run_items cf interval is (wait_times (unat interval) s))"

fun item_ok :: "nat \<Rightarrow> ss_item \<Rightarrow> bool" where
  "item_ok INT_MAX (SS_DELAY n) \<longleftrightarrow> n \<le> INT_MAX"
| "item_ok INT_MAX (SS_CHAR c) \<longleftrightarrow> c \<noteq> 0 \<and> c \<noteq> SS_QMK_PREFIX"
| "item_ok INT_MAX i \<longleftrightarrow> True"

definition value_of :: "nat \<Rightarrow> u8 list \<Rightarrow> nat" where
  "value_of ms ds = foldl (\<lambda>n d. n * 10 + (unat d - 48)) ms ds"

lemma value_of_ge: "ms \<le> value_of ms ds"
proof (induction ds arbitrary: ms)
  case (Cons d ds)
  have "ms \<le> ms * 10 + (unat d - 48)"
    by simp
  also have "\<dots> \<le> value_of (ms * 10 + (unat d - 48)) ds"
    by (rule Cons.IH)
  finally show ?case
    by (simp add: value_of_def)
qed (simp add: value_of_def)

lemma delay_digits_of_digits:
  assumes "list_all is_digit ds" "value_of ms ds \<le> m"
  shows "delay_digits m (ds @ rest) ms = delay_digits m rest (value_of ms ds)"
  using assms
proof (induction ds arbitrary: ms)
  case (Cons d ds)
  have next_ms: "value_of (ms * 10 + (unat d - 48)) ds \<le> m"
    using Cons.prems(2) by (simp add: value_of_def)
  then have "\<not> m < ms * 10 + (unat d - 48)"
    using value_of_ge [of "ms * 10 + (unat d - 48)" ds] by simp
  then show ?case
    using Cons.IH [OF _ next_ms] Cons.prems(1) by (simp add: value_of_def)
qed (simp add: value_of_def)

lemma digit_of_nat:
  assumes "n < 10"
  shows "is_digit (of_nat (48 + n))" "unat (of_nat (48 + n) :: u8) - 48 = n"
  using assms by (simp_all add: is_digit_def word_le_nat_alt unat_of_nat unat_word_ariths)

lemma decimal_digits: "list_all is_digit (decimal n) \<and> value_of 0 (decimal n) = n"
proof (induction n rule: decimal.induct)
  case (1 n)
  show ?case
  proof (cases "n < 10")
    case True
    then show ?thesis
      using digit_of_nat [of n] by (simp add: decimal.simps [of n] value_of_def)
  next
    case False
    have "n mod 10 < 10"
      by simp
    then show ?thesis
      using False 1 digit_of_nat [of "n mod 10"] by (simp add: decimal.simps [of n] value_of_def)
  qed
qed

lemma send_item_of_bytes:
  assumes "item_ok m i"
  shows "\<exists>c string. ss_bytes i @ rest = c # string \<and> c \<noteq> 0 \<and>
    send_item cf m c string s = map_option (Pair rest) (run_item cf i s)"
proof (cases i)
  case (SS_DELAY n)
  have "delay_digits m (decimal n @ 124 # rest) 0 = Some (n, rest)"
    using delay_digits_of_digits [of "decimal n" 0 m "124 # rest"] decimal_digits [of n] assms
    by (simp add: SS_DELAY is_digit_def)
  then show ?thesis
    by (simp add: SS_DELAY send_item_def)
qed (use assms in \<open>simp_all add: send_item_def\<close>)

lemma send_items:
  "list_all (item_ok m) is \<Longrightarrow>
    send_string_with_delay cf m (concat (map ss_bytes is) @ rest) interval s =
      (case run_items cf interval is s of None \<Rightarrow> None | Some s \<Rightarrow> send_string_with_delay cf m rest interval s)"
proof (induction "is" arbitrary: s)
  case (Cons i items)
  obtain c string where c: "ss_bytes i @ concat (map ss_bytes items) @ rest = c # string" "c \<noteq> 0"
      "send_item cf m c string s = map_option (Pair (concat (map ss_bytes items) @ rest)) (run_item cf i s)"
    using send_item_of_bytes [of m i] Cons.prems by fastforce
  show ?case
    using Cons.IH Cons.prems c
    by (cases "run_item cf i s") (simp_all add: send_string_with_delay.simps [where string = "c # string"])
qed simp

text \<open>
  (C28)
  Sending the bytes of a sequence of taps, presses, releases, delays and characters runs that sequence, each followed by
  the interval, and nothing behind the terminator.
\<close>

theorem send_string_round_trip:
  assumes "list_all (item_ok INT_MAX) items"
  shows "send_string_with_delay cf INT_MAX (concat (map ss_bytes items) @ 0 # rest) interval s = run_items cf interval items s"
  by (subst send_items [OF assms], cases "run_items cf interval items s")
    (simp_all add: send_string_with_delay.simps [where string = "0 # rest"])

theorem send_string_round_trip_witness:
  "send_string_with_delay example_actions_config 32767 [1, 2, 0xE1, 97, 1, 4, 50, 53, 124, 1, 3, 0xE1, 0] 0 example_mods_vars =
   run_items example_actions_config 0 [SS_DOWN 0xE1, SS_CHAR 97, SS_DELAY 25, SS_UP 0xE1] example_mods_vars"
  using send_string_round_trip [of 32767 "[SS_DOWN 0xE1, SS_CHAR 97, SS_DELAY 25, SS_UP 0xE1]" example_actions_config "[]" 0
      example_mods_vars]
  by (simp add: decimal.simps)

text \<open>
  A string that ends within an escape is not ended by its terminator, which the escape takes for its keycode or for the
  end of its delay: the bytes behind the string are sent too.
\<close>

definition incomplete :: "nat \<Rightarrow> u8 list \<Rightarrow> bool" where
  "incomplete INT_MAX e \<longleftrightarrow>
     e \<in> {[SS_QMK_PREFIX], [SS_QMK_PREFIX, SS_TAP_CODE], [SS_QMK_PREFIX, SS_DOWN_CODE], [SS_QMK_PREFIX, SS_UP_CODE]} \<or>
     (\<exists>n \<le> INT_MAX. e = [SS_QMK_PREFIX, SS_DELAY_CODE] @ decimal n)"

theorem incomplete_escape_overruns:
  assumes "list_all (item_ok INT_MAX) items" "incomplete INT_MAX e" "run_items cf interval items s = Some s1"
  shows "\<exists>s2. send_string_with_delay cf INT_MAX (concat (map ss_bytes items) @ e @ 0 # rest) interval s =
    send_string_with_delay cf INT_MAX rest interval s2"
proof -
  have "\<exists>t. send_item cf INT_MAX (hd e) (tl e @ 0 # rest) s1 = Some (rest, t) \<and> e \<noteq> [] \<and> hd e \<noteq> 0"
    using assms(2)
  proof (elim incomplete_def [THEN iffD1, elim_format] disjE exE conjE)
    fix n
    assume n: "n \<le> INT_MAX" "e = [SS_QMK_PREFIX, SS_DELAY_CODE] @ decimal n"
    then have "delay_digits INT_MAX (decimal n @ 0 # rest) 0 = Some (n, rest)"
      using delay_digits_of_digits [of "decimal n" 0 INT_MAX "0 # rest"] decimal_digits [of n] by (simp add: is_digit_def)
    then show ?thesis
      using n(2) by (simp add: send_item_def)
  qed (auto simp: send_item_def)
  then obtain t where t: "send_item cf INT_MAX (hd e) (tl e @ 0 # rest) s1 = Some (rest, t)" "e \<noteq> []" "hd e \<noteq> 0"
    by blast
  then have "send_string_with_delay cf INT_MAX (e @ 0 # rest) interval s1 =
      send_string_with_delay cf INT_MAX rest interval (wait_times (unat interval) t)"
    by (cases e) (simp_all, subst send_string_with_delay.simps, simp)
  then show ?thesis
    using send_items [OF assms(1), of cf "e @ 0 # rest" interval s] assms(3) by auto
qed

end
