(* ===== verification/DynamicKeymap.thy ===== *)
theory DynamicKeymap
  imports SendString FlashStore
begin

text \<open>
  quantum/dynamic_keymap.c: a keymap, the keys of encoders and macros in the EEPROM, which a host can change.

  A pointer into the EEPROM is its address.  The EEPROM is a driver, of which the code uses reading and updating a byte;
  what it relies on is the locale \<open>byte_store\<close>, which the wear-leveling EEPROM satisfies.  \<open>KEYMAP_ROWS\<close> and
  \<open>KEYMAP_COLS\<close> are \<open>MATRIX_ROWS\<close> and \<open>MATRIX_COLS\<close>.
\<close>

section \<open>The EEPROM\<close>

record 'e eeprom_driver =
  read_byte :: "u32 \<Rightarrow> 'e \<Rightarrow> u8"
  update_byte :: "u32 \<Rightarrow> u8 \<Rightarrow> 'e \<Rightarrow> 'e"

definition wear_driver :: "wear_leveling_config \<Rightarrow> 'b backing_store \<Rightarrow> 'b wear_leveling eeprom_driver" where
  "wear_driver cf d = \<lparr>read_byte = eeprom_read_byte cf, update_byte = eeprom_update_byte cf d\<rparr>"

locale byte_store =
  fixes drv :: "'e eeprom_driver" and cells :: "'e \<Rightarrow> u8 list" and ready :: "'e \<Rightarrow> bool" and bytes :: nat
  assumes cells_length: "ready e \<Longrightarrow> length (cells e) = bytes"
    and reads: "ready e \<Longrightarrow> unat a < bytes \<Longrightarrow> read_byte drv a e = cells e ! unat a"
    and updates: "ready e \<Longrightarrow> unat a < bytes \<Longrightarrow>
      ready (update_byte drv a v e) \<and> cells (update_byte drv a v e) = (cells e)[unat a := v]"

locale restartable_byte_store = byte_store drv cells ready bytes
  for drv :: "'e eeprom_driver" and cells ready bytes +
  fixes restart :: "'e \<Rightarrow> 'e"
  assumes restarts: "ready e \<Longrightarrow> ready (restart e) \<and> cells (restart e) = cells e"

section \<open>Layout\<close>

record dynamic_keymap_config =
  DYNAMIC_KEYMAP_LAYER_COUNT :: nat
  KEYMAP_ROWS :: nat
  KEYMAP_COLS :: nat
  NUM_ENCODERS :: nat
  ENCODER_MAP_ENABLE :: bool
  DYNAMIC_KEYMAP_MACRO_COUNT :: nat
  DYNAMIC_KEYMAP_EEPROM_ADDR :: nat
  DYNAMIC_KEYMAP_EEPROM_MAX_ADDR :: nat
  DYNAMIC_KEYMAP_MACRO_DELAY :: u8

definition DYNAMIC_KEYMAP_ENCODER_EEPROM_ADDR :: "dynamic_keymap_config \<Rightarrow> nat" where
  "DYNAMIC_KEYMAP_ENCODER_EEPROM_ADDR c =
     DYNAMIC_KEYMAP_EEPROM_ADDR c + DYNAMIC_KEYMAP_LAYER_COUNT c * KEYMAP_ROWS c * KEYMAP_COLS c * 2"

definition DYNAMIC_KEYMAP_MACRO_EEPROM_ADDR :: "dynamic_keymap_config \<Rightarrow> nat" where
  "DYNAMIC_KEYMAP_MACRO_EEPROM_ADDR c =
    (if ENCODER_MAP_ENABLE c then
       DYNAMIC_KEYMAP_ENCODER_EEPROM_ADDR c + DYNAMIC_KEYMAP_LAYER_COUNT c * NUM_ENCODERS c * 2 * 2
     else DYNAMIC_KEYMAP_ENCODER_EEPROM_ADDR c)"

definition DYNAMIC_KEYMAP_MACRO_EEPROM_SIZE :: "dynamic_keymap_config \<Rightarrow> nat" where
  "DYNAMIC_KEYMAP_MACRO_EEPROM_SIZE c = DYNAMIC_KEYMAP_EEPROM_MAX_ADDR c + 1 - DYNAMIC_KEYMAP_MACRO_EEPROM_ADDR c"

text \<open>The checks at compile time, for an EEPROM of \<open>bytes\<close> bytes.\<close>

definition keymap_fits :: "dynamic_keymap_config \<Rightarrow> nat \<Rightarrow> bool" where
  "keymap_fits c bytes \<longleftrightarrow>
     DYNAMIC_KEYMAP_EEPROM_MAX_ADDR c < bytes \<and> DYNAMIC_KEYMAP_EEPROM_MAX_ADDR c \<le> 65535 \<and>
     DYNAMIC_KEYMAP_MACRO_EEPROM_ADDR c + 100 \<le> DYNAMIC_KEYMAP_EEPROM_MAX_ADDR c"

section \<open>Keys\<close>

definition dynamic_keymap_key_to_eeprom_address :: "dynamic_keymap_config \<Rightarrow> u8 \<Rightarrow> u8 \<Rightarrow> u8 \<Rightarrow> nat" where
  "dynamic_keymap_key_to_eeprom_address c layer row column =
     DYNAMIC_KEYMAP_EEPROM_ADDR c + unat layer * KEYMAP_ROWS c * KEYMAP_COLS c * 2 + unat row * KEYMAP_COLS c * 2 +
     unat column * 2"

definition key_in_range :: "dynamic_keymap_config \<Rightarrow> u8 \<Rightarrow> u8 \<Rightarrow> u8 \<Rightarrow> bool" where
  "key_in_range c layer row column \<longleftrightarrow>
     unat layer < DYNAMIC_KEYMAP_LAYER_COUNT c \<and> unat row < KEYMAP_ROWS c \<and> unat column < KEYMAP_COLS c"

text \<open>A keycode in the EEPROM, the high byte first.\<close>

definition read_keycode :: "'e eeprom_driver \<Rightarrow> nat \<Rightarrow> 'e \<Rightarrow> u16" where
  "read_keycode drv address e =
     push_bit 8 (ucast (read_byte drv (of_nat address) e)) OR ucast (read_byte drv (of_nat (address + 1)) e)"

definition update_keycode :: "'e eeprom_driver \<Rightarrow> nat \<Rightarrow> u16 \<Rightarrow> 'e \<Rightarrow> 'e" where
  "update_keycode drv address keycode e =
     update_byte drv (of_nat (address + 1)) (ucast (keycode AND 0xFF))
       (update_byte drv (of_nat address) (ucast (drop_bit 8 keycode)) e)"

definition dynamic_keymap_get_keycode ::
    "dynamic_keymap_config \<Rightarrow> 'e eeprom_driver \<Rightarrow> u8 \<Rightarrow> u8 \<Rightarrow> u8 \<Rightarrow> 'e \<Rightarrow> u16" where
  "dynamic_keymap_get_keycode c drv layer row column e =
    (if \<not> key_in_range c layer row column then KC_NO
     else read_keycode drv (dynamic_keymap_key_to_eeprom_address c layer row column) e)"

definition dynamic_keymap_set_keycode ::
    "dynamic_keymap_config \<Rightarrow> 'e eeprom_driver \<Rightarrow> u8 \<Rightarrow> u8 \<Rightarrow> u8 \<Rightarrow> u16 \<Rightarrow> 'e \<Rightarrow> 'e" where
  "dynamic_keymap_set_keycode c drv layer row column keycode e =
    (if \<not> key_in_range c layer row column then e
     else update_keycode drv (dynamic_keymap_key_to_eeprom_address c layer row column) keycode e)"

definition keycode_at_keymap_location ::
    "dynamic_keymap_config \<Rightarrow> 'e eeprom_driver \<Rightarrow> u8 \<Rightarrow> u8 \<Rightarrow> u8 \<Rightarrow> 'e \<Rightarrow> u16" where
  "keycode_at_keymap_location c drv layer_num row column e =
    (if key_in_range c layer_num row column then dynamic_keymap_get_keycode c drv layer_num row column e else KC_NO)"

section \<open>Encoders\<close>

definition dynamic_keymap_encoder_to_eeprom_address :: "dynamic_keymap_config \<Rightarrow> u8 \<Rightarrow> u8 \<Rightarrow> nat" where
  "dynamic_keymap_encoder_to_eeprom_address c layer encoder_id =
     DYNAMIC_KEYMAP_ENCODER_EEPROM_ADDR c + unat layer * NUM_ENCODERS c * 2 * 2 + unat encoder_id * 2 * 2"

definition encoder_in_range :: "dynamic_keymap_config \<Rightarrow> u8 \<Rightarrow> u8 \<Rightarrow> bool" where
  "encoder_in_range c layer encoder_id \<longleftrightarrow> unat layer < DYNAMIC_KEYMAP_LAYER_COUNT c \<and> unat encoder_id < NUM_ENCODERS c"

definition dynamic_keymap_get_encoder ::
    "dynamic_keymap_config \<Rightarrow> 'e eeprom_driver \<Rightarrow> u8 \<Rightarrow> u8 \<Rightarrow> bool \<Rightarrow> 'e \<Rightarrow> u16" where
  "dynamic_keymap_get_encoder c drv layer encoder_id clockwise e =
    (if \<not> encoder_in_range c layer encoder_id then KC_NO
     else read_keycode drv (dynamic_keymap_encoder_to_eeprom_address c layer encoder_id + (if clockwise then 0 else 2)) e)"

definition dynamic_keymap_set_encoder ::
    "dynamic_keymap_config \<Rightarrow> 'e eeprom_driver \<Rightarrow> u8 \<Rightarrow> u8 \<Rightarrow> bool \<Rightarrow> u16 \<Rightarrow> 'e \<Rightarrow> 'e" where
  "dynamic_keymap_set_encoder c drv layer encoder_id clockwise keycode e =
    (if \<not> encoder_in_range c layer encoder_id then e
     else update_keycode drv
       (dynamic_keymap_encoder_to_eeprom_address c layer encoder_id + (if clockwise then 0 else 2)) keycode e)"

definition keycode_at_encodermap_location ::
    "dynamic_keymap_config \<Rightarrow> 'e eeprom_driver \<Rightarrow> u8 \<Rightarrow> u8 \<Rightarrow> bool \<Rightarrow> 'e \<Rightarrow> u16" where
  "keycode_at_encodermap_location c drv layer_num encoder_idx clockwise e =
    (if encoder_in_range c layer_num encoder_idx
     then dynamic_keymap_get_encoder c drv layer_num encoder_idx clockwise e else KC_NO)"

text \<open>The values of a loop counter, passed as bytes.\<close>

definition bytes_upto :: "nat \<Rightarrow> u8 list" where
  "bytes_upto n = map of_nat [0..<n]"

text \<open>The keymaps in flash are the functions \<open>keycode_at_keymap_location_raw\<close> and \<open>keycode_at_encodermap_location_raw\<close>.\<close>

definition dynamic_keymap_reset ::
    "dynamic_keymap_config \<Rightarrow> 'e eeprom_driver \<Rightarrow> (u8 \<Rightarrow> u8 \<Rightarrow> u8 \<Rightarrow> u16) \<Rightarrow> (u8 \<Rightarrow> u8 \<Rightarrow> bool \<Rightarrow> u16) \<Rightarrow> 'e \<Rightarrow> 'e" where
  "dynamic_keymap_reset c drv keymap_raw encodermap_raw e =
    fold (\<lambda>layer e.
      let e = fold (\<lambda>row e.
              fold (\<lambda>column e.
                dynamic_keymap_set_keycode c drv layer row column (keymap_raw layer row column) e)
              (bytes_upto (KEYMAP_COLS c)) e)
            (bytes_upto (KEYMAP_ROWS c)) e
      in if ENCODER_MAP_ENABLE c then
           fold (\<lambda>encoder e.
             dynamic_keymap_set_encoder c drv layer encoder False (encodermap_raw layer encoder False)
               (dynamic_keymap_set_encoder c drv layer encoder True (encodermap_raw layer encoder True) e))
           (bytes_upto (NUM_ENCODERS c)) e
         else e)
    (bytes_upto (DYNAMIC_KEYMAP_LAYER_COUNT c)) e"

section \<open>Buffers\<close>

text \<open>The buffer has as many bytes as are asked for or passed; an index is compared with the sixteen-bit size of the keymap.\<close>

definition dynamic_keymap_eeprom_size :: "dynamic_keymap_config \<Rightarrow> u16" where
  "dynamic_keymap_eeprom_size c = of_nat (DYNAMIC_KEYMAP_LAYER_COUNT c * KEYMAP_ROWS c * KEYMAP_COLS c * 2)"

definition get_bytes :: "'e eeprom_driver \<Rightarrow> nat \<Rightarrow> nat \<Rightarrow> u16 \<Rightarrow> u16 \<Rightarrow> 'e \<Rightarrow> u8 list" where
  "get_bytes drv start limit offset bytes e =
     map (\<lambda>i. if unat offset + i < limit then read_byte drv (of_nat (start + unat offset + i)) e else 0) [0..<unat bytes]"

definition set_bytes :: "'e eeprom_driver \<Rightarrow> nat \<Rightarrow> nat \<Rightarrow> u16 \<Rightarrow> u8 list \<Rightarrow> 'e \<Rightarrow> 'e" where
  "set_bytes drv start limit offset data e =
     fold (\<lambda>i e. if unat offset + i < limit then update_byte drv (of_nat (start + unat offset + i)) (data ! i) e else e)
       [0..<length data] e"

definition dynamic_keymap_get_buffer :: "dynamic_keymap_config \<Rightarrow> 'e eeprom_driver \<Rightarrow> u16 \<Rightarrow> u16 \<Rightarrow> 'e \<Rightarrow> u8 list" where
  "dynamic_keymap_get_buffer c drv offset bytes e =
     get_bytes drv (DYNAMIC_KEYMAP_EEPROM_ADDR c) (unat (dynamic_keymap_eeprom_size c)) offset bytes e"

definition dynamic_keymap_set_buffer :: "dynamic_keymap_config \<Rightarrow> 'e eeprom_driver \<Rightarrow> u16 \<Rightarrow> u8 list \<Rightarrow> 'e \<Rightarrow> 'e" where
  "dynamic_keymap_set_buffer c drv offset data e =
     set_bytes drv (DYNAMIC_KEYMAP_EEPROM_ADDR c) (unat (dynamic_keymap_eeprom_size c)) offset data e"

definition dynamic_keymap_macro_get_buffer ::
    "dynamic_keymap_config \<Rightarrow> 'e eeprom_driver \<Rightarrow> u16 \<Rightarrow> u16 \<Rightarrow> 'e \<Rightarrow> u8 list" where
  "dynamic_keymap_macro_get_buffer c drv offset bytes e =
     get_bytes drv (DYNAMIC_KEYMAP_MACRO_EEPROM_ADDR c) (DYNAMIC_KEYMAP_MACRO_EEPROM_SIZE c) offset bytes e"

definition dynamic_keymap_macro_set_buffer ::
    "dynamic_keymap_config \<Rightarrow> 'e eeprom_driver \<Rightarrow> u16 \<Rightarrow> u8 list \<Rightarrow> 'e \<Rightarrow> 'e" where
  "dynamic_keymap_macro_set_buffer c drv offset data e =
     set_bytes drv (DYNAMIC_KEYMAP_MACRO_EEPROM_ADDR c) (DYNAMIC_KEYMAP_MACRO_EEPROM_SIZE c) offset data e"

definition dynamic_keymap_macro_reset :: "dynamic_keymap_config \<Rightarrow> 'e eeprom_driver \<Rightarrow> 'e \<Rightarrow> 'e" where
  "dynamic_keymap_macro_reset c drv e =
     fold (\<lambda>p e. update_byte drv (of_nat p) 0 e)
       [DYNAMIC_KEYMAP_MACRO_EEPROM_ADDR c..<DYNAMIC_KEYMAP_MACRO_EEPROM_ADDR c + DYNAMIC_KEYMAP_MACRO_EEPROM_SIZE c] e"

section \<open>Macros\<close>

text \<open>
  The search for macro \<open>index\<close>, with the number of bytes that are left before the end.  It may end at the end itself, whose
  byte is not checked.
\<close>

primrec skip_macros :: "'e eeprom_driver \<Rightarrow> 'e \<Rightarrow> nat \<Rightarrow> nat \<Rightarrow> nat \<Rightarrow> nat option" where
  "skip_macros drv e 0 index p = (if 0 < index then None else Some p)"
| "skip_macros drv e (Suc left) index p =
    (if 0 < index then skip_macros drv e left (if read_byte drv (of_nat p) e = 0 then index - 1 else index) (p + 1) else Some p)"

text \<open>The digits of a delay, with the number of places left in \<open>data\<close>; \<open>None\<close> aborts the macro.\<close>

primrec macro_delay :: "'e eeprom_driver \<Rightarrow> 'e \<Rightarrow> nat \<Rightarrow> u8 list \<Rightarrow> nat \<Rightarrow> nat \<Rightarrow> (u8 list \<times> nat) option" where
  "macro_delay drv e 0 data i p =
    (let b = read_byte drv (of_nat p) e; data = data[i := b]
     in if b = 0 then None else if b = 124 then Some (data[i + 1 := 0], p + 1) else None)"
| "macro_delay drv e (Suc left) data i p =
    (let b = read_byte drv (of_nat p) e; data = data[i := b]
     in if b = 0 then None
        else if b = 124 then Some (data[i + 1 := 0], p + 1)
        else macro_delay drv e left data (i + 1) (p + 1))"

text \<open>One turn of the loop: \<open>data\<close> keeps what earlier turns left in it.  \<open>None\<close> ends the macro.\<close>

definition macro_item :: "'e eeprom_driver \<Rightarrow> 'e \<Rightarrow> u8 list \<Rightarrow> nat \<Rightarrow> (u8 list \<times> nat) option" where
  "macro_item drv e data p =
    (let b = read_byte drv (of_nat p) e; data = data[0 := b, 1 := 0]
     in if b = 0 then None
        else if b = SS_QMK_PREFIX then
          (let code = read_byte drv (of_nat (p + 1)) e; data = data[1 := code]
           in if code = 0 then None
              else if code = SS_TAP_CODE \<or> code = SS_DOWN_CODE \<or> code = SS_UP_CODE then
                (let k = read_byte drv (of_nat (p + 2)) e; data = data[2 := k]
                 in if k = 0 then None else Some (data[3 := 0], p + 3))
              else if code = SS_DELAY_CODE then macro_delay drv e 4 data 2 (p + 2)
              else Some (data, p + 2))
        else Some (data, p + 1))"

partial_function (option) macro_send_loop ::
    "'e eeprom_driver \<Rightarrow> ('h, 'c) actions_config_scheme \<Rightarrow> nat \<Rightarrow> u8 \<Rightarrow> 'e \<Rightarrow> u8 list \<Rightarrow> nat \<Rightarrow> ('s) mods_vars_scheme \<Rightarrow>
     ('s) mods_vars_scheme option" where
  "macro_send_loop drv cf INT_MAX interval e data p s =
    (case macro_item drv e data p of
       None \<Rightarrow> Some s
     | Some (data, p) \<Rightarrow>
         (case send_string_with_delay cf INT_MAX data interval s of
            None \<Rightarrow> None
          | Some s \<Rightarrow> macro_send_loop drv cf INT_MAX interval e data p s))"

definition dynamic_keymap_macro_send ::
    "dynamic_keymap_config \<Rightarrow> 'e eeprom_driver \<Rightarrow> ('h, 'c) actions_config_scheme \<Rightarrow> nat \<Rightarrow> u8 \<Rightarrow> 'e \<Rightarrow> ('s) mods_vars_scheme \<Rightarrow>
     ('s) mods_vars_scheme option" where
  "dynamic_keymap_macro_send c drv cf INT_MAX index e s =
    (let start = DYNAMIC_KEYMAP_MACRO_EEPROM_ADDR c; n = DYNAMIC_KEYMAP_MACRO_EEPROM_SIZE c
     in if DYNAMIC_KEYMAP_MACRO_COUNT c \<le> unat index then Some s
        else if read_byte drv (of_nat (start + n - 1)) e \<noteq> 0 then Some s
        else (case skip_macros drv e n (unat index) start of
            None \<Rightarrow> Some s
          | Some p \<Rightarrow> macro_send_loop drv cf INT_MAX (DYNAMIC_KEYMAP_MACRO_DELAY c) e (replicate 8 0) p s))"

section \<open>Positions\<close>

datatype keymap_position = Key_at u8 u8 u8 | Encoder_at u8 u8 bool

fun position_ok :: "dynamic_keymap_config \<Rightarrow> keymap_position \<Rightarrow> bool" where
  "position_ok c (Key_at layer row column) \<longleftrightarrow> key_in_range c layer row column"
| "position_ok c (Encoder_at layer encoder_id clockwise) \<longleftrightarrow> ENCODER_MAP_ENABLE c \<and> encoder_in_range c layer encoder_id"

fun get_position :: "dynamic_keymap_config \<Rightarrow> 'e eeprom_driver \<Rightarrow> keymap_position \<Rightarrow> 'e \<Rightarrow> u16" where
  "get_position c drv (Key_at layer row column) e = keycode_at_keymap_location c drv layer row column e"
| "get_position c drv (Encoder_at layer encoder_id clockwise) e = keycode_at_encodermap_location c drv layer encoder_id clockwise e"

fun set_position :: "dynamic_keymap_config \<Rightarrow> 'e eeprom_driver \<Rightarrow> keymap_position \<Rightarrow> u16 \<Rightarrow> 'e \<Rightarrow> 'e" where
  "set_position c drv (Key_at layer row column) keycode e = dynamic_keymap_set_keycode c drv layer row column keycode e"
| "set_position c drv (Encoder_at layer encoder_id clockwise) keycode e =
     dynamic_keymap_set_encoder c drv layer encoder_id clockwise keycode e"

fun position_address :: "dynamic_keymap_config \<Rightarrow> keymap_position \<Rightarrow> nat" where
  "position_address c (Key_at layer row column) = dynamic_keymap_key_to_eeprom_address c layer row column"
| "position_address c (Encoder_at layer encoder_id clockwise) =
     dynamic_keymap_encoder_to_eeprom_address c layer encoder_id + (if clockwise then 0 else 2)"

fun position_index :: "dynamic_keymap_config \<Rightarrow> keymap_position \<Rightarrow> nat" where
  "position_index c (Key_at layer row column) = (unat layer * KEYMAP_ROWS c + unat row) * KEYMAP_COLS c + unat column"
| "position_index c (Encoder_at layer encoder_id clockwise) =
     DYNAMIC_KEYMAP_LAYER_COUNT c * KEYMAP_ROWS c * KEYMAP_COLS c +
     (unat layer * NUM_ENCODERS c + unat encoder_id) * 2 + (if clockwise then 0 else 1)"

lemma position_address_index: "position_address c p = DYNAMIC_KEYMAP_EEPROM_ADDR c + 2 * position_index c p"
  by (cases p) (simp_all add: dynamic_keymap_key_to_eeprom_address_def dynamic_keymap_encoder_to_eeprom_address_def
      DYNAMIC_KEYMAP_ENCODER_EEPROM_ADDR_def algebra_simps)

lemma digits_unique:
  fixes a b n :: nat
  assumes "a * n + b = a' * n + b'" "b < n" "b' < n"
  shows "a = a' \<and> b = b'"
proof -
  have "(a * n + b) div n = a" "(a' * n + b') div n = a'"
    using assms(2,3) by simp_all
  then show ?thesis
    using assms(1) by simp
qed

lemma digits_bound:
  fixes a b n m :: nat
  assumes "a < m" "b < n"
  shows "a * n + b < m * n"
proof -
  have "a * n + b < Suc a * n"
    using assms(2) by simp
  also have "\<dots> \<le> m * n"
    using assms(1) by (intro mult_right_mono) simp_all
  finally show ?thesis .
qed

lemma key_index_bound:
  assumes "key_in_range c layer row column"
  shows "(unat layer * KEYMAP_ROWS c + unat row) * KEYMAP_COLS c + unat column <
    DYNAMIC_KEYMAP_LAYER_COUNT c * KEYMAP_ROWS c * KEYMAP_COLS c"
  using assms by (auto simp: key_in_range_def intro!: digits_bound)

lemma position_index_inj:
  assumes "position_ok c p" "position_ok c q" "position_index c p = position_index c q"
  shows "p = q"
proof (cases p; cases q)
  fix l r k l' r' k'
  assume "p = Key_at l r k" "q = Key_at l' r' k'"
  then show ?thesis
    using assms
    by (auto simp: key_in_range_def word_unat_eq_iff dest!: digits_unique)
next
  fix l i b l' i' b'
  assume pq: "p = Encoder_at l i b" "q = Encoder_at l' i' b'"
  then have "(unat l * NUM_ENCODERS c + unat i) * 2 + (if b then 0 else 1) = (unat l' * NUM_ENCODERS c + unat i') * 2 + (if b' then 0 else 1)"
    using assms(3) by simp
  then have "unat l * NUM_ENCODERS c + unat i = unat l' * NUM_ENCODERS c + unat i' \<and> (if b then 0 else 1 :: nat) = (if b' then 0 else 1)"
    by (intro digits_unique [of _ 2]) simp_all
  then show ?thesis
    using assms(1,2) pq by (auto simp: encoder_in_range_def word_unat_eq_iff dest!: digits_unique split: if_splits)
next
  fix l r k l' i b
  assume "p = Key_at l r k" "q = Encoder_at l' i b"
  then show ?thesis
    using assms key_index_bound [of c l r k] by simp
next
  fix l r k l' i b
  assume "q = Key_at l r k" "p = Encoder_at l' i b"
  then show ?thesis
    using assms key_index_bound [of c l r k] by simp
qed

lemma position_below_macros:
  assumes "position_ok c p"
  shows "position_address c p + 1 < DYNAMIC_KEYMAP_MACRO_EEPROM_ADDR c"
proof (cases p)
  case (Key_at l r k)
  then show ?thesis
    using key_index_bound [of c l r k] assms
    unfolding position_address_index
    by (simp add: DYNAMIC_KEYMAP_MACRO_EEPROM_ADDR_def DYNAMIC_KEYMAP_ENCODER_EEPROM_ADDR_def)
next
  case (Encoder_at l i b)
  then have "unat l * NUM_ENCODERS c + unat i < DYNAMIC_KEYMAP_LAYER_COUNT c * NUM_ENCODERS c"
    using assms by (auto simp: encoder_in_range_def intro: digits_bound)
  then show ?thesis
    using assms Encoder_at
    unfolding position_address_index
    by (simp add: DYNAMIC_KEYMAP_MACRO_EEPROM_ADDR_def DYNAMIC_KEYMAP_ENCODER_EEPROM_ADDR_def)
qed

lemma positions_apart:
  assumes "position_ok c p" "position_ok c q" "p \<noteq> q"
  shows "position_address c p + 1 < position_address c q \<or> position_address c q + 1 < position_address c p"
proof -
  have "position_index c p \<noteq> position_index c q"
    using position_index_inj [OF assms(1,2)] assms(3) by blast
  then show ?thesis
    unfolding position_address_index by linarith
qed

section \<open>Reading back\<close>

definition keycode_in :: "u8 list \<Rightarrow> nat \<Rightarrow> u16" where
  "keycode_in cs a = push_bit 8 (ucast (cs ! a)) OR ucast (cs ! (a + 1))"

definition put_keycode :: "nat \<Rightarrow> u16 \<Rightarrow> u8 list \<Rightarrow> u8 list" where
  "put_keycode a k cs = cs[a := ucast (drop_bit 8 k), a + 1 := ucast (k AND 0xFF)]"

lemma keycode_in_put:
  "a + 1 < length cs \<Longrightarrow> keycode_in (put_keycode a k cs) a = k"
  "b + 1 < a \<or> a + 1 < b \<Longrightarrow> keycode_in (put_keycode a k cs) b = keycode_in cs b"
  "j \<noteq> a \<Longrightarrow> j \<noteq> a + 1 \<Longrightarrow> put_keycode a k cs ! j = cs ! j" "length (put_keycode a k cs) = length cs"
proof -
  have "push_bit 8 (ucast (ucast (drop_bit 8 k) :: u8)) OR ucast (ucast (k AND 0xFF) :: u8) = k"
    by (rule bit_word_eqI) (auto simp: bit_simps and_255 dest: bit_imp_le_length)
  then show "a + 1 < length cs \<Longrightarrow> keycode_in (put_keycode a k cs) a = k"
    by (simp add: keycode_in_def put_keycode_def)
qed (auto simp: keycode_in_def put_keycode_def)

context byte_store
begin

lemma read_at: "ready e \<Longrightarrow> a < bytes \<Longrightarrow> a \<le> 65535 \<Longrightarrow> read_byte drv (of_nat a) e = cells e ! a"
  using reads [of e "of_nat a"] by (simp add: unat_of_nat)

lemma update_at:
  "ready e \<Longrightarrow> a < bytes \<Longrightarrow> a \<le> 65535 \<Longrightarrow>
    ready (update_byte drv (of_nat a) v e) \<and> cells (update_byte drv (of_nat a) v e) = (cells e)[a := v]"
  using updates [of e "of_nat a" v] by (simp add: unat_of_nat)

lemma read_keycode_at: "ready e \<Longrightarrow> a + 1 < bytes \<Longrightarrow> a + 1 \<le> 65535 \<Longrightarrow> read_keycode drv a e = keycode_in (cells e) a"
  by (simp add: read_keycode_def keycode_in_def read_at read_at [of e "a + 1", simplified])

lemma update_keycode_at:
  "ready e \<Longrightarrow> a + 1 < bytes \<Longrightarrow> a + 1 \<le> 65535 \<Longrightarrow>
    ready (update_keycode drv a k e) \<and> cells (update_keycode drv a k e) = put_keycode a k (cells e)"
  using update_at [of e a "ucast (drop_bit 8 k)"]
    update_at [of "update_byte drv (of_nat a) (ucast (drop_bit 8 k)) e" "a + 1" "ucast (k AND 0xFF)"]
  by (simp add: update_keycode_def put_keycode_def)

lemma position_address_ok:
  assumes "keymap_fits c bytes" "position_ok c p"
  shows "position_address c p + 1 < bytes" "position_address c p + 1 \<le> 65535"
  using position_below_macros [OF assms(2)] assms(1) by (auto simp: keymap_fits_def)

lemma get_position_at:
  assumes "keymap_fits c bytes" "ready e"
  shows "get_position c drv p e =
    (if position_ok c p then keycode_in (cells e) (position_address c p) else get_position c drv p e)"
  using position_address_ok [OF assms(1), of p] assms(2)
  by (cases p) (auto simp: keycode_at_keymap_location_def dynamic_keymap_get_keycode_def keycode_at_encodermap_location_def
      dynamic_keymap_get_encoder_def read_keycode_at)

lemma set_position_at:
  assumes "keymap_fits c bytes" "ready e" "position_ok c p"
  shows "ready (set_position c drv p k e) \<and> cells (set_position c drv p k e) = put_keycode (position_address c p) k (cells e)"
  using position_address_ok [OF assms(1,3)] assms(2,3)
  by (cases p) (auto simp: dynamic_keymap_set_keycode_def dynamic_keymap_set_encoder_def update_keycode_at)

lemma get_set_position:
  assumes "keymap_fits c bytes" "ready e" "position_ok c p" "position_ok c q"
  shows "get_position c drv q (set_position c drv p k e) = (if q = p then k else get_position c drv q e)"
proof -
  note set_e = set_position_at [OF assms(1-3), of k]
  have "get_position c drv q (set_position c drv p k e) =
      keycode_in (put_keycode (position_address c p) k (cells e)) (position_address c q)"
    using get_position_at [OF assms(1), of "set_position c drv p k e" q] set_e assms(4) by simp
  also have "\<dots> = (if q = p then k else keycode_in (cells e) (position_address c q))"
    using keycode_in_put(1) [of "position_address c p" "cells e" k] keycode_in_put(2) [of "position_address c q" "position_address c p" k]
      position_address_ok [OF assms(1,3)] cells_length [OF assms(2)] positions_apart [OF assms(4,3)] by auto
  finally show ?thesis
    using get_position_at [OF assms(1,2), of q] assms(4) by simp
qed

end

section \<open>Reset\<close>

fun raw_keycode :: "(u8 \<Rightarrow> u8 \<Rightarrow> u8 \<Rightarrow> u16) \<Rightarrow> (u8 \<Rightarrow> u8 \<Rightarrow> bool \<Rightarrow> u16) \<Rightarrow> keymap_position \<Rightarrow> u16" where
  "raw_keycode keymap_raw encodermap_raw (Key_at layer row column) = keymap_raw layer row column"
| "raw_keycode keymap_raw encodermap_raw (Encoder_at layer encoder_id clockwise) = encodermap_raw layer encoder_id clockwise"

definition layer_positions :: "dynamic_keymap_config \<Rightarrow> u8 \<Rightarrow> keymap_position list" where
  "layer_positions c layer =
     concat (map (\<lambda>row. map (Key_at layer row) (bytes_upto (KEYMAP_COLS c))) (bytes_upto (KEYMAP_ROWS c))) @
     (if ENCODER_MAP_ENABLE c then
        concat (map (\<lambda>i. [Encoder_at layer i True, Encoder_at layer i False]) (bytes_upto (NUM_ENCODERS c)))
      else [])"

definition reset_positions :: "dynamic_keymap_config \<Rightarrow> keymap_position list" where
  "reset_positions c = concat (map (layer_positions c) (bytes_upto (DYNAMIC_KEYMAP_LAYER_COUNT c)))"

lemma fold_concat_map: "fold f (concat (map g xs)) = fold (\<lambda>x. fold f (g x)) xs"
  by (induction xs) (simp_all add: fun_eq_iff)

lemma fold_map_id: "fold f (map g xs) = fold (\<lambda>x. f (g x)) xs"
  by (simp add: fold_map comp_def)

lemma set_position_fun:
  "set_position c drv (Key_at layer row column) keycode = dynamic_keymap_set_keycode c drv layer row column keycode"
  "set_position c drv (Encoder_at layer encoder_id clockwise) keycode =
    dynamic_keymap_set_encoder c drv layer encoder_id clockwise keycode"
  by (simp_all add: fun_eq_iff)

lemma reset_eq:
  "dynamic_keymap_reset c drv km em = fold (\<lambda>p. set_position c drv p (raw_keycode km em p)) (reset_positions c)"
proof -
  have "fold (\<lambda>p. set_position c drv p (raw_keycode km em p)) (layer_positions c l) = (\<lambda>e.
      let e = fold (\<lambda>row e.
              fold (\<lambda>column e.
                dynamic_keymap_set_keycode c drv l row column (km l row column) e)
              (bytes_upto (KEYMAP_COLS c)) e)
            (bytes_upto (KEYMAP_ROWS c)) e
      in if ENCODER_MAP_ENABLE c then
           fold (\<lambda>encoder e.
             dynamic_keymap_set_encoder c drv l encoder False (em l encoder False)
               (dynamic_keymap_set_encoder c drv l encoder True (em l encoder True) e))
           (bytes_upto (NUM_ENCODERS c)) e
         else e)" for l
    by (simp add: layer_positions_def fun_eq_iff fold_concat_map fold_map_id comp_def set_position_fun)
  note layer = this
  show ?thesis
    unfolding reset_positions_def fold_concat_map layer by (rule ext) (simp only: dynamic_keymap_reset_def)
qed

lemma set_bytes_upto: "set (bytes_upto n) = {x. unat x < n}"
proof -
  have "unat (of_nat i :: u8) < n" if "i < n" for i
    using that mod_less_eq_dividend [of i 256] by (simp only: unat_of_nat) simp
  then have "set (bytes_upto n) \<subseteq> {x. unat x < n}"
    by (auto simp: bytes_upto_def)
  moreover have "x \<in> set (bytes_upto n)" if "unat x < n" for x
    using that imageI [of "unat x" "{0..<n}" "of_nat :: nat \<Rightarrow> u8"] by (simp add: bytes_upto_def)
  ultimately show ?thesis
    by blast
qed

lemma reset_positions_ok: "p \<in> set (reset_positions c) \<longleftrightarrow> position_ok c p"
proof -
  show ?thesis
    by (cases p) (auto simp: reset_positions_def layer_positions_def set_bytes_upto key_in_range_def encoder_in_range_def split: if_splits)
qed

context byte_store
begin

lemma fold_set_positions:
  fixes k :: "keymap_position \<Rightarrow> u16"
  assumes "keymap_fits c bytes" "list_all (position_ok c) ps" "ready e"
  defines "e' \<equiv> fold (\<lambda>p. set_position c drv p (k p)) ps e"
  shows "ready e' \<and> (\<forall>q. position_ok c q \<longrightarrow> get_position c drv q e' = (if q \<in> set ps then k q else get_position c drv q e)) \<and>
    (\<forall>j. DYNAMIC_KEYMAP_MACRO_EEPROM_ADDR c \<le> j \<longrightarrow> cells e' ! j = cells e ! j)"
  using assms(2,3) unfolding e'_def
proof (induction ps arbitrary: e)
  case (Cons p ps)
  have p: "position_ok c p" "list_all (position_ok c) ps"
    using Cons.prems(1) by simp_all
  note set_e = set_position_at [OF assms(1) Cons.prems(2) p(1), of "k p"]
  have macros: "cells (set_position c drv p (k p) e) ! j = cells e ! j" if "DYNAMIC_KEYMAP_MACRO_EEPROM_ADDR c \<le> j" for j
    using set_e that position_below_macros [OF p(1)] by (auto intro!: keycode_in_put(3))
  show ?case
    using Cons.IH [OF p(2) set_e [THEN conjunct1]] get_set_position [OF assms(1) Cons.prems(2) p(1)] macros by auto
qed simp

lemma reset_at:
  assumes "keymap_fits c bytes" "ready e"
  shows "ready (dynamic_keymap_reset c drv km em e)"
    and "position_ok c q \<Longrightarrow> get_position c drv q (dynamic_keymap_reset c drv km em e) = raw_keycode km em q"
    and "DYNAMIC_KEYMAP_MACRO_EEPROM_ADDR c \<le> j \<Longrightarrow> cells (dynamic_keymap_reset c drv km em e) ! j = cells e ! j"
  using fold_set_positions [OF assms(1) _ assms(2), of "reset_positions c" "raw_keycode km em"]
  by (auto simp: reset_eq list_all_iff reset_positions_ok)

end

section \<open>Buffers\<close>

context byte_store
begin

lemma get_bytes_at:
  assumes "ready e" "start + limit \<le> bytes" "start + limit \<le> 65536"
  shows "get_bytes drv start limit offset n e =
    map (\<lambda>i. if unat offset + i < limit then cells e ! (start + unat offset + i) else 0) [0..<unat n]"
  unfolding get_bytes_def
proof (intro map_cong refl)
  fix i
  show "(if unat offset + i < limit then read_byte drv (of_nat (start + unat offset + i)) e else 0) =
      (if unat offset + i < limit then cells e ! (start + unat offset + i) else 0)"
    using read_at [OF assms(1), of "start + unat offset + i"] assms(2,3) by (auto simp del: of_nat_add)
qed

lemma set_bytes_at:
  assumes "ready e" "start + limit \<le> bytes" "start + limit \<le> 65536"
  shows "ready (set_bytes drv start limit offset data e) \<and>
    (\<forall>j < bytes. cells (set_bytes drv start limit offset data e) ! j =
      (if start + unat offset \<le> j \<and> j < start + unat offset + length data \<and> j < start + limit
       then data ! (j - start - unat offset) else cells e ! j))"
proof -
  define w where "w i e = (if unat offset + i < limit then update_byte drv (of_nat (start + unat offset + i)) (data ! i) e else e)" for i e
  have "ready (fold w [0..<n] e) \<and>
    (\<forall>j < bytes. cells (fold w [0..<n] e) ! j =
      (if start + unat offset \<le> j \<and> j < start + unat offset + n \<and> j < start + limit
       then data ! (j - start - unat offset) else cells e ! j))" for n
  proof (induction n)
    case (Suc n)
    define a where "a = start + unat offset + n"
    show ?case
    proof (cases "unat offset + n < limit")
      case True
      then have a: "a < bytes" "a \<le> 65535"
        using assms(2,3) by (auto simp: a_def)
      have w: "w n (fold w [0..<n] e) = update_byte drv (of_nat a) (data ! n) (fold w [0..<n] e)"
        using True by (simp add: w_def a_def)
      have len: "length (cells (fold w [0..<n] e)) = bytes"
        using Suc.IH by (simp add: cells_length)
      show ?thesis
        using Suc.IH update_at [OF _ a, of "fold w [0..<n] e" "data ! n"] len a True
        by (auto simp: w nth_list_update a_def)
    next
      case False
      then show ?thesis
        using Suc.IH by (auto simp: w_def)
    qed
  qed (use assms(1) in auto)
  then show ?thesis
    by (simp add: set_bytes_def w_def [symmetric])
qed

end

section \<open>Sending a macro\<close>

text \<open>The items a macro may have: no keycode is zero, and a delay has at most four digits.\<close>

fun macro_item_ok :: "nat \<Rightarrow> ss_item \<Rightarrow> bool" where
  "macro_item_ok INT_MAX (SS_DELAY n) \<longleftrightarrow> n < 10000 \<and> n \<le> INT_MAX"
| "macro_item_ok INT_MAX (SS_CHAR c) \<longleftrightarrow> c \<noteq> 0 \<and> c \<noteq> SS_QMK_PREFIX"
| "macro_item_ok INT_MAX (SS_TAP k) \<longleftrightarrow> k \<noteq> 0"
| "macro_item_ok INT_MAX (SS_DOWN k) \<longleftrightarrow> k \<noteq> 0"
| "macro_item_ok INT_MAX (SS_UP k) \<longleftrightarrow> k \<noteq> 0"

definition macro_bytes :: "ss_item list \<Rightarrow> u8 list" where
  "macro_bytes items = concat (map ss_bytes items)"

lemma macro_item_ok_item: "macro_item_ok m i \<Longrightarrow> item_ok m i"
  by (cases i) simp_all

lemma decimal_length: "n < 10 ^ Suc k \<Longrightarrow> length (decimal n) \<le> Suc k"
proof (induction k arbitrary: n)
  case (Suc k)
  then have "n div 10 < 10 ^ Suc k"
    by (simp add: less_mult_imp_div_less)
  then show ?case
    using Suc.IH by (simp add: decimal.simps [of n])
qed (simp add: decimal.simps)

lemma decimal_no_zero: "list_all is_digit ds \<Longrightarrow> b \<in> set ds \<Longrightarrow> b \<noteq> 0 \<and> b \<noteq> 124"
  by (auto simp: list_all_iff is_digit_def)

lemma ss_bytes_no_zero: "macro_item_ok m i \<Longrightarrow> 0 \<notin> set (ss_bytes i)"
  using decimal_digits decimal_no_zero by (cases i) auto

text \<open>The EEPROM holds some bytes at an address.\<close>

definition holds :: "'e eeprom_driver \<Rightarrow> 'e \<Rightarrow> nat \<Rightarrow> u8 list \<Rightarrow> bool" where
  "holds drv e p bs \<longleftrightarrow> (\<forall>i < length bs. read_byte drv (of_nat (p + i)) e = bs ! i)"

lemma holds_Nil [simp]: "holds drv e p []"
  by (simp add: holds_def)

lemma holds_Cons [simp]: "holds drv e p (b # bs) \<longleftrightarrow> read_byte drv (of_nat p) e = b \<and> holds drv e (p + 1) bs"
  by (auto simp: holds_def All_less_Suc2 simp del: of_nat_add)

lemma holds_append [simp]: "holds drv e p (bs @ cs) \<longleftrightarrow> holds drv e p bs \<and> holds drv e (p + length bs) cs"
  by (induction bs arbitrary: p) auto

lemma macro_delay_digits:
  assumes "list_all is_digit ds" "length ds \<le> left" "holds drv e p (ds @ [124])" "length data = 8" "i + length ds \<le> 6"
  shows "\<exists>rest. macro_delay drv e left data i p = Some (take i data @ ds @ [124, 0] @ rest, p + length ds + 1) \<and>
    i + length ds + 2 + length rest = 8"
  using assms
proof (induction ds arbitrary: left data i p)
  case Nil
  have "data[i := 124, i + 1 := 0] = take i data @ [124, 0] @ drop (i + 2) data"
    using Nil.prems(4,5) by (intro nth_equalityI) (auto simp: nth_append nth_list_update nth_Cons' min_def intro!: arg_cong [where f = "nth data"])
  then show ?case
    using Nil.prems by (cases left) (auto simp: Let_def intro!: exI [of _ "drop (i + 2) data"])
next
  case (Cons d ds)
  obtain k where k: "left = Suc k" "length ds \<le> k"
    using Cons.prems(2) by (cases left) auto
  have d: "d \<noteq> 0" "d \<noteq> 124"
    using Cons.prems(1) by (auto simp: is_digit_def)
  obtain rest where rest: "macro_delay drv e k (data[i := d]) (i + 1) (p + 1) =
      Some (take (i + 1) (data[i := d]) @ ds @ [124, 0] @ rest, p + 1 + length ds + 1)" "i + 1 + length ds + 2 + length rest = 8"
    using Cons.IH [of k "p + 1" "data[i := d]" "i + 1"] Cons.prems k(2) by auto
  have "take (i + 1) (data[i := d]) = take i data @ [d]"
    using Cons.prems(4,5) by (simp add: take_Suc_conv_app_nth)
  then show ?case
    using rest Cons.prems(3) d k(1) by (auto simp: Let_def)
qed

lemma list8: "length xs = 8 \<Longrightarrow> \<exists>a b c d e f g h. xs = [a, b, c, d, e, f, g, h]"
  by (auto simp: length_Suc_conv numeral_eq_Suc)

lemma macro_item_bytes:
  assumes "macro_item_ok m i" "holds drv e p (ss_bytes i)" "length data = 8"
  shows "\<exists>rest. macro_item drv e data p = Some (ss_bytes i @ 0 # rest, p + length (ss_bytes i)) \<and>
    length (ss_bytes i @ 0 # rest) = 8"
proof (cases i)
  case (SS_DELAY n)
  have len: "length (decimal n) \<le> 4"
    using decimal_length [of n 3] assms(1) SS_DELAY by simp
  have "list_all is_digit (decimal n)"
    using decimal_digits by blast
  moreover have "holds drv e (p + 2) (decimal n @ [124])" "read_byte drv (of_nat p) e = 1" "read_byte drv (of_nat (p + 1)) e = 4"
    using assms(2) SS_DELAY by (simp_all add: add.commute)
  moreover have "take 2 (data[0 := 1, 1 := 0, 1 := 4]) = [1, 4]"
    using assms(3) by (cases data; cases "tl data") auto
  ultimately obtain rest where "macro_delay drv e 4 (data[0 := 1, 1 := 0, 1 := 4]) 2 (p + 2) =
      Some ([1, 4] @ decimal n @ [124, 0] @ rest, p + 2 + length (decimal n) + 1)" "2 + length (decimal n) + 2 + length rest = 8"
    using macro_delay_digits [of "decimal n" 4 drv e "p + 2" "data[0 := 1, 1 := 0, 1 := 4]" 2] len assms(3) by auto
  then show ?thesis
    using SS_DELAY \<open>read_byte drv (of_nat p) e = 1\<close> \<open>read_byte drv (of_nat (p + 1)) e = 4\<close>
    by (auto simp: macro_item_def Let_def)
next
  case (SS_UP k)
  have "(3 :: u8) \<noteq> 0" "(3 :: u8) \<noteq> 1" "(3 :: u8) \<noteq> 2"
    by simp_all
  then show ?thesis
    using SS_UP assms list8 [OF assms(3)] by (auto simp: macro_item_def Let_def add.commute)
qed (use assms list8 [OF assms(3)] in \<open>auto simp: macro_item_def Let_def add.commute\<close>)

lemma macro_send_items:
  fixes s :: "('b) mods_vars_scheme"
  assumes "list_all (macro_item_ok m) items" "holds drv e p (macro_bytes items @ [0])" "length data = 8"
  shows "macro_send_loop drv cf m interval e data p s = run_items cf interval items s"
  using assms
proof (induction items arbitrary: p data s)
  case Nil
  then show ?case
    by (simp add: macro_send_loop.simps [of _ _ _ _ _ data] macro_item_def macro_bytes_def)
next
  case (Cons i items)
  obtain rest where rest: "macro_item drv e data p = Some (ss_bytes i @ 0 # rest, p + length (ss_bytes i))"
      "length (ss_bytes i @ 0 # rest) = 8"
    using macro_item_bytes [of m i drv e p data] Cons.prems by (auto simp: macro_bytes_def)
  have "send_string_with_delay cf m (ss_bytes i @ 0 # rest) interval s = run_items cf interval [i] s"
    using send_string_round_trip [of m "[i]" cf rest interval s] macro_item_ok_item [of m i] Cons.prems(1) by simp
  moreover have "macro_send_loop drv cf m interval e (ss_bytes i @ 0 # rest) (p + length (ss_bytes i)) t =
      run_items cf interval items t" for t :: "('b) mods_vars_scheme"
    using Cons.IH [of "p + length (ss_bytes i)" "ss_bytes i @ 0 # rest" t] Cons.prems rest(2)
    by (simp add: macro_bytes_def add.assoc)
  ultimately show ?case
    by (subst macro_send_loop.simps) (simp add: rest(1) split: option.splits)
qed

lemma skip_bytes:
  "holds drv e p bs \<Longrightarrow> 0 \<notin> set bs \<Longrightarrow> 0 < index \<Longrightarrow>
    skip_macros drv e (length bs + left) index p = skip_macros drv e left index (p + length bs)"
  by (induction bs arbitrary: p) auto

lemma macro_bytes_no_zero: "list_all (macro_item_ok m) items \<Longrightarrow> 0 \<notin> set (macro_bytes items)"
  using ss_bytes_no_zero by (auto simp: macro_bytes_def list_all_iff)

definition macros_bytes :: "ss_item list list \<Rightarrow> u8 list" where
  "macros_bytes macros = concat (map (\<lambda>items. macro_bytes items @ [0]) macros)"

lemma skip_whole_macros:
  assumes "list_all (list_all (macro_item_ok m)) macros" "holds drv e p (macros_bytes macros)"
  shows "skip_macros drv e (length (macros_bytes macros) + left) (length macros) p = Some (p + length (macros_bytes macros))"
  using assms
proof (induction macros arbitrary: p)
  case Nil
  then show ?case
    by (cases left) (simp_all add: macros_bytes_def)
next
  case (Cons items macros)
  define bs where "bs = macro_bytes items"
  have bs: "0 \<notin> set bs" "holds drv e p bs" "read_byte drv (of_nat (p + length bs)) e = 0"
      "holds drv e (p + length bs + 1) (macros_bytes macros)"
    using Cons.prems macro_bytes_no_zero [of m items] by (simp_all add: bs_def macros_bytes_def del: of_nat_add)
  have "length (macros_bytes (items # macros)) + left = length bs + Suc (length (macros_bytes macros) + left)"
    by (simp add: macros_bytes_def bs_def)
  then have "skip_macros drv e (length (macros_bytes (items # macros)) + left) (length (items # macros)) p =
      skip_macros drv e (Suc (length (macros_bytes macros) + left)) (Suc (length macros)) (p + length bs)"
    using skip_bytes [OF bs(2,1), of "length (items # macros)" "Suc (length (macros_bytes macros) + left)"]
    by (simp del: skip_macros.simps add: add.assoc)
  also have "\<dots> = skip_macros drv e (length (macros_bytes macros) + left) (length macros) (p + length bs + 1)"
    using bs(3) by (simp del: of_nat_add)
  also have "\<dots> = Some (p + length bs + 1 + length (macros_bytes macros))"
    by (rule Cons.IH) (use Cons.prems(1) bs(4) in simp_all)
  finally show ?case
    by (simp add: macros_bytes_def bs_def)
qed

lemma send_stored_macro:
  assumes ok: "list_all (list_all (macro_item_ok INT_MAX)) macros"
    and area: "holds drv e (DYNAMIC_KEYMAP_MACRO_EEPROM_ADDR c) (macros_bytes macros)"
      "length (macros_bytes macros) \<le> DYNAMIC_KEYMAP_MACRO_EEPROM_SIZE c"
      "read_byte drv (of_nat (DYNAMIC_KEYMAP_MACRO_EEPROM_ADDR c + DYNAMIC_KEYMAP_MACRO_EEPROM_SIZE c - 1)) e = 0"
    and index: "unat index < length macros" "unat index < DYNAMIC_KEYMAP_MACRO_COUNT c"
  shows "dynamic_keymap_macro_send c drv cf INT_MAX index e s =
    run_items cf (DYNAMIC_KEYMAP_MACRO_DELAY c) (macros ! unat index) s"
proof -
  define before where "before = take (unat index) macros"
  define items where "items = macros ! unat index"
  define p where "p = DYNAMIC_KEYMAP_MACRO_EEPROM_ADDR c"
  have macros: "macros = before @ items # drop (Suc (unat index)) macros"
    using index(1) by (simp add: before_def items_def id_take_nth_drop)
  have before: "length before = unat index"
    using index(1) by (simp add: before_def)
  have bytes: "macros_bytes macros =
      macros_bytes before @ (macro_bytes items @ [0]) @ macros_bytes (drop (Suc (unat index)) macros)"
    by (subst macros) (simp add: macros_bytes_def)
  then have holds: "holds drv e p (macros_bytes before)" "holds drv e (p + length (macros_bytes before)) (macro_bytes items @ [0])"
    using area(1) by (simp_all add: p_def)
  have items_ok: "list_all (list_all (macro_item_ok INT_MAX)) before" "list_all (macro_item_ok INT_MAX) items"
    using ok by (subst (asm) macros, simp)+
  obtain left where left: "DYNAMIC_KEYMAP_MACRO_EEPROM_SIZE c = length (macros_bytes before) + left"
    using area(2) bytes le_Suc_ex by fastforce
  have "skip_macros drv e (DYNAMIC_KEYMAP_MACRO_EEPROM_SIZE c) (unat index) p = Some (p + length (macros_bytes before))"
    unfolding left using skip_whole_macros [OF items_ok(1) holds(1), of left] by (simp add: before)
  moreover have "macro_send_loop drv cf INT_MAX (DYNAMIC_KEYMAP_MACRO_DELAY c) e (replicate 8 0) (p + length (macros_bytes before)) s =
      run_items cf (DYNAMIC_KEYMAP_MACRO_DELAY c) items s"
    by (rule macro_send_items [OF items_ok(2) holds(2)]) simp
  ultimately show ?thesis
    using area(3) index(2) by (simp add: dynamic_keymap_macro_send_def p_def items_def Let_def del: of_nat_add)
qed

lemma skip_all_macros:
  "holds drv e p bs \<Longrightarrow> bs \<noteq> [] \<Longrightarrow> last bs = 0 \<Longrightarrow> skip_macros drv e (length bs) (count_list bs 0) p = Some (p + length bs)"
proof (induction bs arbitrary: p)
  case (Cons b bs)
  have "0 < count_list (b # bs) 0"
    using Cons.prems(2,3) by (metis count_list_0_iff last_in_set neq0_conv)
  then show ?case
    using Cons by (cases "bs = []") auto
qed simp

text \<open>
  When the bytes of the macros hold as many zeros as the index of a macro, the search for that macro ends behind the last
  byte, and the bytes that follow there are sent.
\<close>

theorem macro_send_overruns:
  assumes "holds drv e (DYNAMIC_KEYMAP_MACRO_EEPROM_ADDR c) bs" "length bs = DYNAMIC_KEYMAP_MACRO_EEPROM_SIZE c" "bs \<noteq> []" "last bs = 0"
    and "unat index = count_list bs 0" "unat index < DYNAMIC_KEYMAP_MACRO_COUNT c"
  shows "dynamic_keymap_macro_send c drv cf INT_MAX index e s =
    macro_send_loop drv cf INT_MAX (DYNAMIC_KEYMAP_MACRO_DELAY c) e (replicate 8 0)
      (DYNAMIC_KEYMAP_MACRO_EEPROM_ADDR c + DYNAMIC_KEYMAP_MACRO_EEPROM_SIZE c) s"
proof -
  have "read_byte drv (of_nat (DYNAMIC_KEYMAP_MACRO_EEPROM_ADDR c + (length bs - 1))) e = last bs"
    using assms(1,3) by (simp add: holds_def last_conv_nth del: of_nat_add)
  moreover have "0 < length bs"
    using assms(3) by simp
  ultimately have "read_byte drv (of_nat (DYNAMIC_KEYMAP_MACRO_EEPROM_ADDR c + DYNAMIC_KEYMAP_MACRO_EEPROM_SIZE c - 1)) e = 0"
    using assms(2,4) by (simp del: of_nat_add)
  then show ?thesis
    using skip_all_macros [OF assms(1,3,4)] assms(2,5,6)
    by (simp add: dynamic_keymap_macro_send_def Let_def del: of_nat_add)
qed

text \<open>
  An escape with an unknown code is followed by what an earlier item left in the buffer: after a tap of the key \<open>k\<close> it
  types the character with the number \<open>k\<close>.
\<close>

theorem unknown_code_types_leftovers:
  assumes "holds drv e p [SS_QMK_PREFIX, SS_TAP_CODE, k, SS_QMK_PREFIX, 5, 0]" "k \<noteq> 0" "k \<noteq> SS_QMK_PREFIX" "length data = 8"
  shows "macro_send_loop drv cf INT_MAX interval e data p s = run_items cf interval [SS_TAP k, SS_DELAY 0, SS_CHAR k] s"
proof -
  have neq: "(5 :: u8) \<noteq> 1" "(5 :: u8) \<noteq> 2" "(5 :: u8) \<noteq> 3" "(5 :: u8) \<noteq> 4" "(5 :: u8) \<noteq> 0"
    by simp_all
  obtain x y z w where items: "macro_item drv e data p = Some ([1, 1, k, 0, x, y, z, w], p + 3)"
    using assms list8 [OF assms(4)] by (auto simp: macro_item_def Let_def add.commute)
  have tap: "send_string_with_delay cf INT_MAX [1, 1, k, 0, x, y, z, w] interval s = Some (wait_times (unat interval) (tap_code cf k s))"
    using send_string_round_trip [of INT_MAX "[SS_TAP k]" cf "[x, y, z, w]" interval s] by simp
  have stale: "macro_item drv e [1, 1, k, 0, x, y, z, w] (p + 3) = Some ([1, 5, k, 0, x, y, z, w], p + 5)"
    using assms(1) neq by (simp add: macro_item_def Let_def add.commute)
  have typed: "send_string_with_delay cf INT_MAX [1, 5, k, 0, x, y, z, w] interval t =
      (case send_char cf k (wait_times (unat interval) t) of None \<Rightarrow> None | Some t \<Rightarrow> Some (wait_times (unat interval) t))" for t
    using assms(2,3) neq
    by (simp add: send_string_with_delay.simps [where string = "1 # b" for b] send_string_with_delay.simps [where string = "k # b" for b]
        send_string_with_delay.simps [where string = "0 # b" for b] send_item_def split: option.splits)
  have stop: "macro_item drv e [1, 5, k, 0, x, y, z, w] (p + 5) = None"
    using assms(1) by (simp add: macro_item_def Let_def add.commute)
  have "wait_times 0 t = t" for t :: "('b) mods_vars_scheme"
    by (simp add: wait_times_def)
  then show ?thesis
    by (subst macro_send_loop.simps, simp add: items tap, subst macro_send_loop.simps, simp add: stale typed split: option.splits)
      (subst macro_send_loop.simps, simp add: stop)
qed

section \<open>What a byte store makes of it\<close>

context byte_store
begin

lemma macro_reset_at:
  assumes "keymap_fits c bytes" "ready e"
  defines "e' \<equiv> dynamic_keymap_macro_reset c drv e"
  shows "ready e'" "\<forall>j < bytes. cells e' ! j =
    (if DYNAMIC_KEYMAP_MACRO_EEPROM_ADDR c \<le> j \<and> j < DYNAMIC_KEYMAP_MACRO_EEPROM_ADDR c + DYNAMIC_KEYMAP_MACRO_EEPROM_SIZE c
     then 0 else cells e ! j)"
proof -
  define a where "a = DYNAMIC_KEYMAP_MACRO_EEPROM_ADDR c"
  have "ready (fold (\<lambda>p. update_byte drv (of_nat p) 0) [a..<a + n] e) \<and>
    (\<forall>j < bytes. cells (fold (\<lambda>p. update_byte drv (of_nat p) 0) [a..<a + n] e) ! j = (if a \<le> j \<and> j < a + n then 0 else cells e ! j))"
    if "n \<le> DYNAMIC_KEYMAP_MACRO_EEPROM_SIZE c" for n
    using that
  proof (induction n)
    case (Suc n)
    define w where "w = fold (\<lambda>p. update_byte drv (of_nat p) 0) [a..<a + n] e"
    have w: "ready w" "\<forall>j < bytes. cells w ! j = (if a \<le> j \<and> j < a + n then 0 else cells e ! j)" "length (cells w) = bytes"
      using Suc by (auto simp: w_def cells_length)
    have a: "a + n < bytes" "a + n \<le> 65535"
      using assms(1) Suc.prems by (auto simp: keymap_fits_def a_def DYNAMIC_KEYMAP_MACRO_EEPROM_SIZE_def)
    note update = update_at [OF w(1) a, of 0]
    have "fold (\<lambda>p. update_byte drv (of_nat p) 0) [a..<a + Suc n] e = update_byte drv (of_nat (a + n)) 0 w"
      by (simp add: w_def del: of_nat_add)
    then show ?case
      using update w(2,3) a(1) by (auto simp: nth_list_update simp del: of_nat_add)
  qed (use assms(2) in auto)
  from this [of "DYNAMIC_KEYMAP_MACRO_EEPROM_SIZE c"] show "ready e'" "\<forall>j < bytes. cells e' ! j =
    (if DYNAMIC_KEYMAP_MACRO_EEPROM_ADDR c \<le> j \<and> j < DYNAMIC_KEYMAP_MACRO_EEPROM_ADDR c + DYNAMIC_KEYMAP_MACRO_EEPROM_SIZE c
     then 0 else cells e ! j)"
    by (simp_all add: e'_def dynamic_keymap_macro_reset_def a_def)
qed

lemma macro_area:
  assumes "keymap_fits c bytes"
  shows "DYNAMIC_KEYMAP_MACRO_EEPROM_ADDR c + DYNAMIC_KEYMAP_MACRO_EEPROM_SIZE c \<le> bytes"
    "DYNAMIC_KEYMAP_MACRO_EEPROM_ADDR c + DYNAMIC_KEYMAP_MACRO_EEPROM_SIZE c \<le> 65536" "0 < DYNAMIC_KEYMAP_MACRO_EEPROM_SIZE c"
  using assms by (auto simp: keymap_fits_def DYNAMIC_KEYMAP_MACRO_EEPROM_SIZE_def)

lemma key_area:
  assumes "keymap_fits c bytes"
  shows "unat (dynamic_keymap_eeprom_size c) = DYNAMIC_KEYMAP_LAYER_COUNT c * KEYMAP_ROWS c * KEYMAP_COLS c * 2"
    and "DYNAMIC_KEYMAP_EEPROM_ADDR c + unat (dynamic_keymap_eeprom_size c) \<le> bytes"
    and "DYNAMIC_KEYMAP_EEPROM_ADDR c + unat (dynamic_keymap_eeprom_size c) \<le> 65536"
proof -
  have le: "DYNAMIC_KEYMAP_EEPROM_ADDR c + DYNAMIC_KEYMAP_LAYER_COUNT c * KEYMAP_ROWS c * KEYMAP_COLS c * 2 \<le> DYNAMIC_KEYMAP_MACRO_EEPROM_ADDR c"
    by (simp add: DYNAMIC_KEYMAP_MACRO_EEPROM_ADDR_def DYNAMIC_KEYMAP_ENCODER_EEPROM_ADDR_def)
  then have small: "DYNAMIC_KEYMAP_LAYER_COUNT c * KEYMAP_ROWS c * KEYMAP_COLS c * 2 < 2 ^ LENGTH(16)"
  proof -
    have "DYNAMIC_KEYMAP_LAYER_COUNT c * KEYMAP_ROWS c * KEYMAP_COLS c * 2 \<le> DYNAMIC_KEYMAP_MACRO_EEPROM_ADDR c"
      using le by (rule add_leD2)
    also have "\<dots> \<le> 65535"
      using assms unfolding keymap_fits_def by linarith
    finally show ?thesis
      by (rule order.strict_trans1) simp
  qed
  show "unat (dynamic_keymap_eeprom_size c) = DYNAMIC_KEYMAP_LAYER_COUNT c * KEYMAP_ROWS c * KEYMAP_COLS c * 2"
    unfolding dynamic_keymap_eeprom_size_def unat_of_nat by (rule mod_less [OF small])
  then show "DYNAMIC_KEYMAP_EEPROM_ADDR c + unat (dynamic_keymap_eeprom_size c) \<le> bytes"
    "DYNAMIC_KEYMAP_EEPROM_ADDR c + unat (dynamic_keymap_eeprom_size c) \<le> 65536"
    using assms le by (simp_all add: keymap_fits_def)
qed

lemma uploaded_macro_sends:
  assumes "keymap_fits c bytes" "ready e" "list_all (list_all (macro_item_ok INT_MAX)) macros"
    and "length (macros_bytes macros) \<le> DYNAMIC_KEYMAP_MACRO_EEPROM_SIZE c"
    and "unat index < length macros" "unat index < DYNAMIC_KEYMAP_MACRO_COUNT c"
    and "ready e2" "cells e2 = cells (dynamic_keymap_macro_set_buffer c drv 0 (macros_bytes macros) (dynamic_keymap_macro_reset c drv e))"
  shows "dynamic_keymap_macro_send c drv cf INT_MAX index e2 s = run_items cf (DYNAMIC_KEYMAP_MACRO_DELAY c) (macros ! unat index) s"
proof (rule send_stored_macro [OF assms(3) _ assms(4) _ assms(5,6)])
  define a where "a = DYNAMIC_KEYMAP_MACRO_EEPROM_ADDR c"
  define n where "n = DYNAMIC_KEYMAP_MACRO_EEPROM_SIZE c"
  note area = macro_area [OF assms(1), folded a_def n_def]
  note reset = macro_reset_at [OF assms(1,2), folded a_def n_def]
  have cell: "cells e2 ! j = (if j < a + length (macros_bytes macros) then macros_bytes macros ! (j - a) else 0)"
    if "a \<le> j" "j < a + n" for j
    using set_bytes_at [OF reset(1) area(1,2), of 0 "macros_bytes macros"] reset(2) that area(1) assms(8)
    by (simp add: dynamic_keymap_macro_set_buffer_def a_def [symmetric] n_def [symmetric])
  have read: "read_byte drv (of_nat j) e2 = cells e2 ! j" if "j < a + n" for j
    using read_at [OF assms(7), of j] that area by simp
  show "holds drv e2 (DYNAMIC_KEYMAP_MACRO_EEPROM_ADDR c) (macros_bytes macros)"
    using cell read assms(4) by (simp add: holds_def a_def [symmetric] n_def [symmetric] del: of_nat_add)
  have last: "cells e2 ! (a + n - 1) = 0"
  proof (cases "length (macros_bytes macros) = n")
    case True
    have "macros_bytes macros ! (n - 1) = last (macros_bytes macros)"
      using True area(3) by (subst last_conv_nth) auto
    also have "\<dots> = 0"
      using assms(5) by (cases macros rule: rev_cases) (simp_all add: macros_bytes_def)
    finally show ?thesis
      using cell [of "a + n - 1"] True area(3) by simp
  next
    case False
    then have "a + length (macros_bytes macros) \<le> a + n - 1"
      using assms(4) [folded n_def] by linarith
    then show ?thesis
      using cell [of "a + n - 1"] area(3) by simp
  qed
  then show "read_byte drv (of_nat (DYNAMIC_KEYMAP_MACRO_EEPROM_ADDR c + DYNAMIC_KEYMAP_MACRO_EEPROM_SIZE c - 1)) e2 = 0"
    using read [of "a + n - 1"] area(3) by (simp add: a_def [symmetric] n_def [symmetric] del: of_nat_add of_nat_diff)
qed

lemma uploaded_keys:
  fixes offset :: u16
  assumes "keymap_fits c bytes" "ready e" "length data < 2 ^ 16"
  defines "e' \<equiv> dynamic_keymap_set_buffer c drv offset data e"
  shows "ready e'"
    and "position_ok c (Key_at l r k) \<Longrightarrow> unat offset \<le> 2 * position_index c (Key_at l r k) \<Longrightarrow>
      2 * position_index c (Key_at l r k) + 1 < unat offset + length data \<Longrightarrow>
      keycode_at_keymap_location c drv l r k e' = keycode_in data (2 * position_index c (Key_at l r k) - unat offset)"
    and "dynamic_keymap_get_buffer c drv offset (of_nat (length data)) e' =
      map (\<lambda>i. if unat offset + i < DYNAMIC_KEYMAP_LAYER_COUNT c * KEYMAP_ROWS c * KEYMAP_COLS c * 2 then data ! i else 0) [0..<length data]"
    and "DYNAMIC_KEYMAP_ENCODER_EEPROM_ADDR c \<le> j \<Longrightarrow> j < bytes \<Longrightarrow> cells e' ! j = cells e ! j"
proof -
  note area = key_area [OF assms(1)]
  note set_e = set_bytes_at [OF assms(2) area(2,3), of offset data, folded dynamic_keymap_set_buffer_def e'_def]
  show ready: "ready e'"
    using set_e by blast
  have cell: "cells e' ! j =
      (if DYNAMIC_KEYMAP_EEPROM_ADDR c + unat offset \<le> j \<and> j < DYNAMIC_KEYMAP_EEPROM_ADDR c + unat offset + length data \<and>
         j < DYNAMIC_KEYMAP_EEPROM_ADDR c + DYNAMIC_KEYMAP_LAYER_COUNT c * KEYMAP_ROWS c * KEYMAP_COLS c * 2
       then data ! (j - DYNAMIC_KEYMAP_EEPROM_ADDR c - unat offset) else cells e ! j)" if "j < bytes" for j
    using set_e that area(1) by simp
  show "keycode_at_keymap_location c drv l r k e' = keycode_in data (2 * position_index c (Key_at l r k) - unat offset)"
    if pos: "position_ok c (Key_at l r k)" "unat offset \<le> 2 * position_index c (Key_at l r k)"
      "2 * position_index c (Key_at l r k) + 1 < unat offset + length data"
  proof -
    define i where "i = position_index c (Key_at l r k)"
    have i: "i < DYNAMIC_KEYMAP_LAYER_COUNT c * KEYMAP_ROWS c * KEYMAP_COLS c"
      using key_index_bound pos(1) by (simp add: i_def)
    have addr: "position_address c (Key_at l r k) = DYNAMIC_KEYMAP_EEPROM_ADDR c + 2 * i"
      unfolding position_address_index i_def ..
    have "keycode_at_keymap_location c drv l r k e' = keycode_in (cells e') (DYNAMIC_KEYMAP_EEPROM_ADDR c + 2 * i)"
      using get_position_at [OF assms(1) ready, of "Key_at l r k"] pos(1) addr by simp
    also have "\<dots> = keycode_in data (2 * i - unat offset)"
      using cell [of "DYNAMIC_KEYMAP_EEPROM_ADDR c + 2 * i"] cell [of "DYNAMIC_KEYMAP_EEPROM_ADDR c + 2 * i + 1"] i pos(2,3) [folded i_def] area
      by (simp add: keycode_in_def i_def [symmetric] Suc_diff_le)
    finally show ?thesis
      by (simp add: i_def)
  qed
  show "dynamic_keymap_get_buffer c drv offset (of_nat (length data)) e' =
      map (\<lambda>i. if unat offset + i < DYNAMIC_KEYMAP_LAYER_COUNT c * KEYMAP_ROWS c * KEYMAP_COLS c * 2 then data ! i else 0) [0..<length data]"
    unfolding dynamic_keymap_get_buffer_def get_bytes_at [OF ready area(2,3)]
    using assms(3) area cell by (auto simp: unat_of_nat)
  show "DYNAMIC_KEYMAP_ENCODER_EEPROM_ADDR c \<le> j \<Longrightarrow> j < bytes \<Longrightarrow> cells e' ! j = cells e ! j"
    using cell [of j] by (simp add: DYNAMIC_KEYMAP_ENCODER_EEPROM_ADDR_def)
qed

end

section \<open>On the wear-leveling EEPROM\<close>

abbreviation legacy_driver :: "wear_leveling_config \<Rightarrow> 'h flash_config \<Rightarrow> 'h wear_leveling eeprom_driver" where
  "legacy_driver cf fc \<equiv> wear_driver cf (legacy_store fc)"

abbreviation legacy_resting :: "wear_leveling_config \<Rightarrow> 'h flash_config \<Rightarrow> 'h wear_leveling \<Rightarrow> bool" where
  "legacy_resting cf fc \<equiv> sized_log_store.resting (legacy_store fc) (flash_word fc) (flash_idle fc) cf"

lemma legacy_byte_store:
  assumes "flash_ok fc" "sizes_ok cf" "WEAR_LEVELING_BACKING_SIZE cf \<le> flash_size fc"
  shows "restartable_byte_store (legacy_driver cf fc) cache (legacy_resting cf fc) (WEAR_LEVELING_LOGICAL_SIZE cf) (eeprom_restart cf fc)"
proof -
  note rl = legacy_resettable [OF assms]
  have sl: "sized_log_store (legacy_store fc) (flash_word fc) (flash_locked fc) (flash_idle fc) (flash_size fc) cf"
    by (rule resettable_log_store.axioms(1) [OF rl])
  have len: "length (cache s) = WEAR_LEVELING_LOGICAL_SIZE cf" if "legacy_resting cf fc s" for s
    using that by (simp add: sized_log_store.resting_def [OF sl] log_space_def)
  have read: "eeprom_read_byte cf a s = cache s ! unat a" if "legacy_resting cf fc s" "unat a < WEAR_LEVELING_LOGICAL_SIZE cf" for a s
    using read_in_range [OF assms(2) len [OF that(1)], of a 1] that(2) len [OF that(1)]
    by (simp add: eeprom_read_byte_def eeprom_read_block_def)
  show ?thesis
  proof (intro restartable_byte_store.intro byte_store.intro restartable_byte_store_axioms.intro)
    fix s and a :: u32 and v :: u8
    assume s: "legacy_resting cf fc s"
    show "length (cache s) = WEAR_LEVELING_LOGICAL_SIZE cf"
      by (rule len [OF s])
    obtain status t where "eeprom_step cf (legacy_store fc) (flash_reset fc) Power_cycle s = (status, t)" "legacy_resting cf fc t"
        "cache t = array_step cf Power_cycle (cache s)"
      using resettable_log_store.step_refines [OF rl s, of Power_cycle] by (metis in_array.simps(3))
    then show "legacy_resting cf fc (eeprom_restart cf fc s) \<and> cache (eeprom_restart cf fc s) = cache s"
      by (simp add: eeprom_restart_def eeprom_driver_init_def)
    assume a: "unat a < WEAR_LEVELING_LOGICAL_SIZE cf"
    show "read_byte (legacy_driver cf fc) a s = cache s ! unat a"
      using read [OF s a] by (simp add: wear_driver_def)
    show "legacy_resting cf fc (update_byte (legacy_driver cf fc) a v s) \<and>
        cache (update_byte (legacy_driver cf fc) a v s) = (cache s)[unat a := v]"
    proof (cases "cache s ! unat a = v")
      case True
      then show ?thesis
        using read [OF s a] s by (auto simp: wear_driver_def eeprom_update_byte_def)
    next
      case False
      obtain status t where t: "wear_leveling_write cf (legacy_store fc) a [v] s = (status, t)" "legacy_resting cf fc t"
          "cache t = put_bytes (unat a) [v] (cache s)"
        by (rule sized_log_store.write_rests [OF sl s, of a "[v]"]) (use a in simp_all)
      then show ?thesis
        using False read [OF s a] len [OF s] a
        by (simp add: wear_driver_def eeprom_update_byte_def eeprom_write_byte_def eeprom_write_block_def put_bytes_def upd_conv_take_nth_drop)
    qed
  qed
qed

interpretation stm32f072_bytes: restartable_byte_store "legacy_driver stm32f072_sizes stm32f072_flash" cache
  "legacy_resting stm32f072_sizes stm32f072_flash" "WEAR_LEVELING_LOGICAL_SIZE stm32f072_sizes"
  "eeprom_restart stm32f072_sizes stm32f072_flash"
  by (rule legacy_byte_store [OF stm32f072_flash_ok(1) stm32f072_sizes_ok])

text \<open>
  (C30)
  A key or an encoder that the host sets is what the firmware reads back, also after a power cycle; every other one
  keeps its keycode, and resetting gives every one the keycode it has in flash.
\<close>

theorem dynamic_keymap_remembers:
  assumes "flash_ok fc" "sizes_ok cf" "WEAR_LEVELING_BACKING_SIZE cf \<le> flash_size fc"
    and "blank_flash fc f" "list_all (in_array cf) ops"
    and "keymap_fits c (WEAR_LEVELING_LOGICAL_SIZE cf)" "position_ok c p" "position_ok c q"
  defines "drv \<equiv> legacy_driver cf fc" and "s \<equiv> snd (legacy_run cf fc ops f)"
  shows "get_position c drv q (set_position c drv p k s) = (if q = p then k else get_position c drv q s) \<and>
    get_position c drv q (eeprom_restart cf fc (set_position c drv p k s)) = (if q = p then k else get_position c drv q s) \<and>
    get_position c drv q (dynamic_keymap_reset c drv km em s) = raw_keycode km em q"
proof -
  note rest = legacy_byte_store [OF assms(1-3), folded drv_def]
  note bytes = restartable_byte_store.axioms(1) [OF rest]
  have ready: "legacy_resting cf fc s"
    using legacy_run_rests(2) [OF assms(1-5)] by (metis s_def surjective_pairing)
  note set_s = byte_store.set_position_at [OF bytes assms(6) ready assms(7), of k]
  note restart_s = restartable_byte_store.restarts [OF rest set_s [THEN conjunct1]]
  note get = byte_store.get_position_at [OF bytes assms(6)]
  have "get_position c drv q (eeprom_restart cf fc (set_position c drv p k s)) = get_position c drv q (set_position c drv p k s)"
    using get [OF set_s [THEN conjunct1], of q] get [OF restart_s [THEN conjunct1], of q] restart_s assms(8) by simp
  then show ?thesis
    using byte_store.get_set_position [OF bytes assms(6) ready assms(7,8), of k]
      byte_store.reset_at(2) [OF bytes assms(6) ready assms(8)] by simp
qed

definition example_keymap :: dynamic_keymap_config where
  "example_keymap =
    \<lparr>DYNAMIC_KEYMAP_LAYER_COUNT = 4, KEYMAP_ROWS = 5, KEYMAP_COLS = 14, NUM_ENCODERS = 2, ENCODER_MAP_ENABLE = True,
     DYNAMIC_KEYMAP_MACRO_COUNT = 16, DYNAMIC_KEYMAP_EEPROM_ADDR = 41, DYNAMIC_KEYMAP_EEPROM_MAX_ADDR = 1023,
     DYNAMIC_KEYMAP_MACRO_DELAY = 0\<rparr>"

lemma example_keymap_fits: "keymap_fits example_keymap (WEAR_LEVELING_LOGICAL_SIZE stm32f072_sizes)"
  by (simp add: example_keymap_def keymap_fits_def DYNAMIC_KEYMAP_MACRO_EEPROM_ADDR_def DYNAMIC_KEYMAP_ENCODER_EEPROM_ADDR_def
      stm32f072_sizes_def)

theorem dynamic_keymap_remembers_witness:
  "let drv = legacy_driver stm32f072_sizes stm32f072_flash;
       s = snd (legacy_run stm32f072_sizes stm32f072_flash [] erased_flash)
   in keycode_at_keymap_location example_keymap drv 3 4 13
        (eeprom_restart stm32f072_sizes stm32f072_flash (dynamic_keymap_set_keycode example_keymap drv 3 4 13 0x5C05 s)) = 0x5C05"
  using dynamic_keymap_remembers [OF stm32f072_flash_ok(1) stm32f072_sizes_ok, of "erased_flash"
      "[]" example_keymap "Key_at 3 4 13" "Key_at 3 4 13" "0x5C05"] example_keymap_fits
  by (simp add: erased_flash_blank Let_def key_in_range_def example_keymap_def)

text \<open>
  (C11)
  A host may also write the keymap and the macros as bytes.  Two bytes of the keymap are a keycode, the higher first, in the
  order of the layers, rows and columns; reading the buffer gives the bytes back and zeros behind the keymap.
\<close>

theorem dynamic_keymap_upload:
  fixes offset :: u16
  assumes "flash_ok fc" "sizes_ok cf" "WEAR_LEVELING_BACKING_SIZE cf \<le> flash_size fc"
    and "blank_flash fc f" "list_all (in_array cf) ops"
    and "keymap_fits c (WEAR_LEVELING_LOGICAL_SIZE cf)" "length data < 2 ^ 16"
    and "key_in_range c l r k" "i = (unat l * KEYMAP_ROWS c + unat r) * KEYMAP_COLS c + unat k"
      "unat offset \<le> 2 * i" "2 * i + 1 < unat offset + length data"
  defines "drv \<equiv> legacy_driver cf fc" and "s \<equiv> snd (legacy_run cf fc ops f)"
  shows "keycode_at_keymap_location c drv l r k (dynamic_keymap_set_buffer c drv offset data s) =
      push_bit 8 (ucast (data ! (2 * i - unat offset))) OR ucast (data ! (2 * i - unat offset + 1)) \<and>
    dynamic_keymap_get_buffer c drv offset (of_nat (length data)) (dynamic_keymap_set_buffer c drv offset data s) =
      map (\<lambda>j. if unat offset + j < DYNAMIC_KEYMAP_LAYER_COUNT c * KEYMAP_ROWS c * KEYMAP_COLS c * 2 then data ! j else 0) [0..<length data]"
proof -
  note bytes = restartable_byte_store.axioms(1) [OF legacy_byte_store [OF assms(1-3), folded drv_def]]
  have ready: "legacy_resting cf fc s"
    using legacy_run_rests(2) [OF assms(1-5)] by (metis s_def surjective_pairing)
  note up = byte_store.uploaded_keys [OF bytes assms(6) ready assms(7), where offset = offset]
  show ?thesis
    using up(2) [where l = l and r = r and k = k] up(3) assms(8-11) by (simp add: keycode_in_def)
qed

theorem dynamic_keymap_upload_witness:
  "let drv = legacy_driver stm32f072_sizes stm32f072_flash;
       s = snd (legacy_run stm32f072_sizes stm32f072_flash [] erased_flash)
   in keycode_at_keymap_location example_keymap drv 0 0 1 (dynamic_keymap_set_buffer example_keymap drv 2 [0x5C, 0x05] s) = 0x5C05"
  using dynamic_keymap_upload [OF stm32f072_flash_ok(1) stm32f072_sizes_ok,
      where f = "erased_flash" and ops = "[]" and c = example_keymap and data = "[0x5C, 0x05]"
        and l = 0 and r = 0 and k = 1 and i = 1 and offset = 2] example_keymap_fits
  by (simp add: erased_flash_blank Let_def key_in_range_def example_keymap_def)

text \<open>
  (C12)
  Macros that a host uploads run as they were written: after the reset of the macros and the upload of their strings, each
  ended by a zero, and also after a power cycle, sending macro \<open>index\<close> runs the taps, presses, releases, delays and
  characters of the string at that index.
\<close>

theorem dynamic_keymap_macros_run:
  assumes "flash_ok fc" "sizes_ok cf" "WEAR_LEVELING_BACKING_SIZE cf \<le> flash_size fc"
    and "blank_flash fc f" "list_all (in_array cf) ops" "keymap_fits c (WEAR_LEVELING_LOGICAL_SIZE cf)"
    and "list_all (list_all (macro_item_ok INT_MAX)) macros" "length (macros_bytes macros) \<le> DYNAMIC_KEYMAP_MACRO_EEPROM_SIZE c"
    and "unat index < length macros" "unat index < DYNAMIC_KEYMAP_MACRO_COUNT c"
  defines "drv \<equiv> legacy_driver cf fc" and "s \<equiv> snd (legacy_run cf fc ops f)"
  defines "e \<equiv> dynamic_keymap_macro_set_buffer c drv 0 (macros_bytes macros) (dynamic_keymap_macro_reset c drv s)"
  shows "dynamic_keymap_macro_send c drv acf INT_MAX index e v = run_items acf (DYNAMIC_KEYMAP_MACRO_DELAY c) (macros ! unat index) v \<and>
    dynamic_keymap_macro_send c drv acf INT_MAX index (eeprom_restart cf fc e) v =
      run_items acf (DYNAMIC_KEYMAP_MACRO_DELAY c) (macros ! unat index) v"
proof -
  note rest = legacy_byte_store [OF assms(1-3), folded drv_def]
  note bytes = restartable_byte_store.axioms(1) [OF rest]
  have ready: "legacy_resting cf fc s"
    using legacy_run_rests(2) [OF assms(1-5)] by (metis s_def surjective_pairing)
  note sends = byte_store.uploaded_macro_sends [OF bytes assms(6) ready assms(7-10)]
  have ready_e: "legacy_resting cf fc e"
    unfolding e_def dynamic_keymap_macro_set_buffer_def
    by (rule byte_store.set_bytes_at [OF bytes byte_store.macro_reset_at(1) [OF bytes assms(6) ready]
        byte_store.macro_area(1,2) [OF bytes assms(6)], THEN conjunct1])
  note restart_e = restartable_byte_store.restarts [OF rest ready_e]
  show ?thesis
    using sends [OF ready_e, of acf v] sends [OF restart_e [THEN conjunct1], of acf v] restart_e by (simp add: e_def)
qed

theorem dynamic_keymap_macros_run_witness:
  "let drv = legacy_driver stm32f072_sizes stm32f072_flash;
       s = snd (legacy_run stm32f072_sizes stm32f072_flash [] erased_flash);
       e = dynamic_keymap_macro_set_buffer example_keymap drv 0 [104, 0, 1, 1, 40, 0] (dynamic_keymap_macro_reset example_keymap drv s)
   in dynamic_keymap_macro_send example_keymap drv example_actions_config 32767 1 e example_mods_vars =
      Some (tap_code example_actions_config 40 example_mods_vars)"
  using dynamic_keymap_macros_run [OF stm32f072_flash_ok(1) stm32f072_sizes_ok, of "erased_flash"
      "[]" example_keymap 32767 "[[SS_CHAR 104], [SS_TAP 40]]" 1 example_actions_config example_mods_vars] example_keymap_fits
  by (simp add: erased_flash_blank Let_def example_keymap_def macros_bytes_def macro_bytes_def wait_times_def
      DYNAMIC_KEYMAP_MACRO_EEPROM_SIZE_def DYNAMIC_KEYMAP_MACRO_EEPROM_ADDR_def DYNAMIC_KEYMAP_ENCODER_EEPROM_ADDR_def)

end
