(* ===== verification/Keyboard.thy ===== *)
theory Keyboard
  imports Bitwise Events Debouncing
begin

text \<open>
  The matrix task of quantum/keyboard.c: from the debounced matrix to key events, with the tick events between them and the
  detection of ghost keys.

  What the rest of the firmware does is an environment over a state \<open>'w\<close>; \<open>kb_real_key\<close> says whether
  \<open>keycode_at_keymap_location\<close> is not zero on layer 0.  The time of a task is the value that \<open>timer_read()\<close> returns in it.
  Scan rates and debug output are left out.
\<close>

section \<open>State\<close>

record 'w keyboard_env =
  MATRIX_ROWS :: nat
  MATRIX_COLS :: nat
  MATRIX_HAS_GHOST :: bool
  kb_real_key :: "nat \<Rightarrow> nat \<Rightarrow> 'w \<Rightarrow> bool"
  kb_matrix_can_read :: "'w \<Rightarrow> bool"
  kb_should_process_keypress :: "'w \<Rightarrow> bool"
  kb_action_exec :: "keyevent_t \<Rightarrow> 'w \<Rightarrow> 'w"
  kb_switch_events :: "nat \<Rightarrow> nat \<Rightarrow> bool \<Rightarrow> 'w \<Rightarrow> 'w"

record ('m, 'w) keyboard =
  matrix_previous :: 'm
  last_tick :: u16
  world :: 'w

definition keyboard_start :: "'w keyboard_env \<Rightarrow> 'w \<Rightarrow> ('r::len matrix, 'w) keyboard" where
  "keyboard_start env w = \<lparr>matrix_previous = replicate (MATRIX_ROWS env) 0, last_tick = 0, world = w\<rparr>"

section \<open>Ghosts\<close>

definition get_real_keys :: "'w keyboard_env \<Rightarrow> 'w \<Rightarrow> nat \<Rightarrow> 'r::len word \<Rightarrow> 'r word" where
  "get_real_keys env w row rowdata =
     fold (\<lambda>col out. if kb_real_key env row col w \<and> rowdata AND push_bit col 1 \<noteq> 0 then out OR push_bit col 1 else out)
       [0..<MATRIX_COLS env] 0"

definition popcount_more_than_one :: "'r::len word \<Rightarrow> bool" where
  "popcount_more_than_one rowdata \<longleftrightarrow> rowdata AND (rowdata - 1) \<noteq> 0"

definition has_ghost_in_row :: "'w keyboard_env \<Rightarrow> 'w \<Rightarrow> 'r::len matrix \<Rightarrow> nat \<Rightarrow> 'r word \<Rightarrow> bool" where
  "has_ghost_in_row env w matrix row rowdata \<longleftrightarrow>
     MATRIX_HAS_GHOST env \<and>
     (let rowdata = get_real_keys env w row rowdata
      in if \<not> popcount_more_than_one rowdata then False
         else list_ex (\<lambda>i. i \<noteq> row \<and> popcount_more_than_one (get_real_keys env w i (matrix ! i) AND rowdata))
           [0..<MATRIX_ROWS env])"

section \<open>The task\<close>

definition generate_tick_event :: "'w keyboard_env \<Rightarrow> u16 \<Rightarrow> ('m, 'w) keyboard \<Rightarrow> ('m, 'w) keyboard" where
  "generate_tick_event env now s =
    (if TIMER_DIFF_16 now (last_tick s) \<noteq> 0
     then s\<lparr>world := kb_action_exec env (MAKE_TICK_EVENT now) (world s), last_tick := now\<rparr> else s)"

text \<open>One key of a row, and one row.\<close>

definition matrix_key ::
    "'w keyboard_env \<Rightarrow> u16 \<Rightarrow> bool \<Rightarrow> nat \<Rightarrow> 'r::len word \<Rightarrow> 'r word \<Rightarrow> nat \<Rightarrow> 'w \<Rightarrow> 'w" where
  "matrix_key env now process_keypress row current_row row_changes col w =
    (if row_changes AND push_bit col 1 \<noteq> 0 then
       (let key_pressed = current_row AND push_bit col 1 \<noteq> 0;
            w = (if process_keypress then kb_action_exec env (MAKE_KEYEVENT (of_nat row) (of_nat col) key_pressed now) w else w)
        in kb_switch_events env row col key_pressed w)
     else w)"

definition matrix_row ::
    "'w keyboard_env \<Rightarrow> u16 \<Rightarrow> bool \<Rightarrow> 'r::len matrix \<Rightarrow> nat \<Rightarrow> ('r matrix, 'w) keyboard \<Rightarrow> ('r matrix, 'w) keyboard" where
  "matrix_row env now process_keypress matrix row s =
    (let current_row = matrix ! row; row_changes = current_row XOR matrix_previous s ! row
     in if row_changes = 0 \<or> has_ghost_in_row env (world s) matrix row current_row then s
        else s\<lparr>world := fold (matrix_key env now process_keypress row current_row row_changes) [0..<MATRIX_COLS env] (world s),
               matrix_previous := (matrix_previous s)[row := current_row]\<rparr>)"

text \<open>\<open>matrix\<close> is what \<open>matrix_get_row\<close> returns after \<open>matrix_scan\<close>.\<close>

definition matrix_task ::
    "'w keyboard_env \<Rightarrow> u16 \<Rightarrow> 'r::len matrix \<Rightarrow> ('r matrix, 'w) keyboard \<Rightarrow> bool \<times> ('r matrix, 'w) keyboard" where
  "matrix_task env now matrix s =
    (if \<not> kb_matrix_can_read env (world s) then (False, generate_tick_event env now s)
     else
       let matrix_changed = list_ex (\<lambda>row. matrix_previous s ! row XOR matrix ! row \<noteq> 0) [0..<MATRIX_ROWS env]
       in if \<not> matrix_changed then (False, generate_tick_event env now s)
          else (True, fold (matrix_row env now (kb_should_process_keypress env (world s)) matrix) [0..<MATRIX_ROWS env] s))"

section \<open>What the helpers compute\<close>

lemma and_power_bit [simp]: "w AND 2 ^ n = 0 \<longleftrightarrow> \<not> bit w n" for w :: "'r::len word"
  by (simp add: and_exp_eq_0_iff_not_bit)

lemma bit_get_real_keys:
  fixes rowdata :: "'r::len word"
  shows "bit (get_real_keys env w row rowdata) c \<longleftrightarrow> c < MATRIX_COLS env \<and> kb_real_key env row c w \<and> bit rowdata c"
proof -
  have "bit (fold (\<lambda>col out. if kb_real_key env row col w \<and> rowdata AND push_bit col 1 \<noteq> 0 then out OR push_bit col 1 else out) [0..<n] (0 :: 'r word)) c
      \<longleftrightarrow> c < n \<and> kb_real_key env row c w \<and> bit rowdata c" for n
    by (induction n) (auto simp: bit_simps less_Suc_eq dest: bit_imp_le_length)
  then show ?thesis
    by (simp add: get_real_keys_def)
qed

text \<open>Two keys of a word.\<close>

lemma popcount_more_than_one_iff: "popcount_more_than_one w \<longleftrightarrow> (\<exists>a b. a \<noteq> b \<and> bit w a \<and> bit w b)" for w :: "'r::len word"
proof (cases "w = 0")
  case True
  then show ?thesis
    by (simp add: popcount_more_than_one_def)
next
  case False
  then obtain k where k: "bit w k" "{i. bit (w AND (w - 1)) i} = {i. bit w i} - {k}"
    by (rule and_minus_1_clears_one)
  have "w AND (w - 1) \<noteq> 0 \<longleftrightarrow> {i. bit (w AND (w - 1)) i} \<noteq> {}"
    by (simp add: bit_eq_iff) (meson bit_imp_le_length)
  also have "\<dots> \<longleftrightarrow> (\<exists>a b. a \<noteq> b \<and> bit w a \<and> bit w b)"
    unfolding k(2) using k(1) by auto
  finally show ?thesis
    by (simp add: popcount_more_than_one_def)
qed

lemma has_ghost_iff:
  "has_ghost_in_row env w matrix row rowdata \<longleftrightarrow> MATRIX_HAS_GHOST env \<and>
    (\<exists>i < MATRIX_ROWS env. i \<noteq> row \<and> (\<exists>a b. a \<noteq> b \<and> a < MATRIX_COLS env \<and> b < MATRIX_COLS env \<and>
      kb_real_key env row a w \<and> kb_real_key env row b w \<and> kb_real_key env i a w \<and> kb_real_key env i b w \<and>
      bit rowdata a \<and> bit rowdata b \<and> bit (matrix ! i) a \<and> bit (matrix ! i) b))"
  unfolding has_ghost_in_row_def Let_def popcount_more_than_one_iff bit_and_iff bit_get_real_keys list_ex_iff set_upt
  by (auto 0 4)

section \<open>The events of a key\<close>

text \<open>The environment that also writes down the events it is given.\<close>

definition logged :: "'w keyboard_env \<Rightarrow> ('w \<times> keyevent_t list) keyboard_env" where
  "logged env =
    \<lparr>MATRIX_ROWS = MATRIX_ROWS env, MATRIX_COLS = MATRIX_COLS env, MATRIX_HAS_GHOST = MATRIX_HAS_GHOST env,
     kb_real_key = (\<lambda>row col (w, log). kb_real_key env row col w), kb_matrix_can_read = (\<lambda>(w, log). kb_matrix_can_read env w),
     kb_should_process_keypress = (\<lambda>(w, log). kb_should_process_keypress env w),
     kb_action_exec = (\<lambda>ev (w, log). (kb_action_exec env ev w, log @ [ev])),
     kb_switch_events = (\<lambda>row col p (w, log). (kb_switch_events env row col p w, log))\<rparr>"

definition is_key :: "nat \<Rightarrow> nat \<Rightarrow> keyevent_t \<Rightarrow> bool" where
  "is_key row col ev \<longleftrightarrow> IS_KEYEVENT ev \<and> ev_key ev = \<lparr>kp_col = of_nat col, kp_row = of_nat row\<rparr>"

text \<open>What was written down last of a key, and that its events have always been a press after a release and the reverse.\<close>

definition key_down :: "nat \<Rightarrow> nat \<Rightarrow> keyevent_t list \<Rightarrow> bool" where
  "key_down row col log = fold (\<lambda>ev d. if is_key row col ev then ev_pressed ev else d) log False"

fun alternates_from :: "bool \<Rightarrow> nat \<Rightarrow> nat \<Rightarrow> keyevent_t list \<Rightarrow> bool" where
  "alternates_from d row col [] \<longleftrightarrow> True"
| "alternates_from d row col (ev # log) \<longleftrightarrow>
     (if is_key row col ev then ev_pressed ev \<noteq> d \<and> alternates_from (ev_pressed ev) row col log
      else alternates_from d row col log)"

definition alternates :: "nat \<Rightarrow> nat \<Rightarrow> keyevent_t list \<Rightarrow> bool" where
  "alternates row col log \<longleftrightarrow> alternates_from False row col log"

lemma key_down_snoc: "key_down row col (log @ [ev]) = (if is_key row col ev then ev_pressed ev else key_down row col log)"
  by (simp add: key_down_def)

lemma alternates_snoc:
  "alternates row col (log @ [ev]) \<longleftrightarrow>
    alternates row col log \<and> (is_key row col ev \<longrightarrow> ev_pressed ev \<noteq> key_down row col log)"
proof -
  have "alternates_from d row col (log @ [ev]) \<longleftrightarrow> alternates_from d row col log \<and>
      (is_key row col ev \<longrightarrow> ev_pressed ev \<noteq> fold (\<lambda>ev d. if is_key row col ev then ev_pressed ev else d) log d)" for d
    by (induction log arbitrary: d) auto
  then show ?thesis
    by (simp add: alternates_def key_down_def)
qed

text \<open>The log agrees with the matrix, by rows.\<close>

definition tracks_row :: "'w keyboard_env \<Rightarrow> nat \<Rightarrow> 'r::len word \<Rightarrow> keyevent_t list \<Rightarrow> bool" where
  "tracks_row env row w log \<longleftrightarrow>
     (\<forall>col < MATRIX_COLS env. (key_down row col log \<longleftrightarrow> bit w col) \<and> alternates row col log)"

definition tracks :: "'w keyboard_env \<Rightarrow> ('r::len matrix, 'w \<times> keyevent_t list) keyboard \<Rightarrow> bool" where
  "tracks env s \<longleftrightarrow> length (matrix_previous s) = MATRIX_ROWS env \<and>
     (\<forall>row < MATRIX_ROWS env. tracks_row env row (matrix_previous s ! row) (snd (world s)))"

definition board_ok :: "'w keyboard_env \<Rightarrow> bool" where
  "board_ok env \<longleftrightarrow> MATRIX_ROWS env \<le> 256 \<and> MATRIX_COLS env \<le> 256 \<and> (\<forall>w. kb_should_process_keypress env w)"

lemma logged_simps [simp]:
  "MATRIX_ROWS (logged env) = MATRIX_ROWS env" "MATRIX_COLS (logged env) = MATRIX_COLS env"
  "MATRIX_HAS_GHOST (logged env) = MATRIX_HAS_GHOST env" "kb_matrix_can_read (logged env) v = kb_matrix_can_read env (fst v)"
  "kb_should_process_keypress (logged env) v = kb_should_process_keypress env (fst v)"
  "snd (kb_action_exec (logged env) ev v) = snd v @ [ev]" "snd (kb_switch_events (logged env) row col p v) = snd v"
  by (simp_all add: logged_def split_beta)

lemma not_key_tick: "\<not> is_key row col (MAKE_TICK_EVENT now)"
  by (simp add: is_key_def IS_KEYEVENT_def MAKE_TICK_EVENT_def MAKE_EVENT_def)

lemma is_key_event:
  assumes "row < 256" "col < 256" "row' < 256" "col' < 256"
  shows "is_key row col (MAKE_KEYEVENT (of_nat row') (of_nat col') p now) \<longleftrightarrow> row = row' \<and> col = col'"
proof -
  have "(of_nat a :: u8) = of_nat b \<longleftrightarrow> a = b" if "a < 256" "b < 256" for a b :: nat
    using that by (simp add: word_of_nat_eq_iff take_bit_nat_def)
  then show ?thesis
    using assms by (auto simp: is_key_def IS_KEYEVENT_def MAKE_KEYEVENT_def MAKE_EVENT_def)
qed

lemma tick_tracks: "tracks env s \<Longrightarrow> tracks env (generate_tick_event (logged env) now s)"
  by (auto simp: generate_tick_event_def tracks_def tracks_row_def key_down_snoc alternates_snoc not_key_tick)

text \<open>The keys of a row before column \<open>n\<close> have been reported, and those behind it and the other rows not touched.\<close>

lemma matrix_keys_track:
  fixes now :: u16
  assumes "board_ok env" "row < MATRIX_ROWS env" "n \<le> MATRIX_COLS env" "tracks_row env row old (snd v)" "changes = current XOR old"
  defines "v' \<equiv> fold (matrix_key (logged env) now True row current changes) [0..<n] v"
  shows "(\<forall>col < MATRIX_COLS env.
      (key_down row col (snd v') \<longleftrightarrow> bit (if col < n then current else old) col) \<and> alternates row col (snd v')) \<and>
    (\<forall>row' < MATRIX_ROWS env. \<forall>col < MATRIX_COLS env. row' \<noteq> row \<longrightarrow>
      (key_down row' col (snd v') \<longleftrightarrow> key_down row' col (snd v)) \<and> (alternates row' col (snd v') \<longleftrightarrow> alternates row' col (snd v)))"
  using assms(3) unfolding v'_def
proof (induction n)
  case (Suc n)
  let ?v = "fold (matrix_key (logged env) now True row current changes) [0..<n] v"
  have is_key: "is_key row' col (MAKE_KEYEVENT (of_nat row) (of_nat n) p now) \<longleftrightarrow> row' = row \<and> col = n"
    if "row' < MATRIX_ROWS env" "col < MATRIX_COLS env" for row' col p
    using assms(1,2) Suc.prems that by (intro is_key_event) (auto simp: board_ok_def)
  have log: "snd (matrix_key (logged env) now True row current changes n ?v) =
      (if bit changes n then snd ?v @ [MAKE_KEYEVENT (of_nat row) (of_nat n) (bit current n) now] else snd ?v)"
    by (simp add: matrix_key_def Let_def)
  have pressed: "ev_pressed (MAKE_KEYEVENT r c p now) = p" for r c p
    by (simp add: MAKE_KEYEVENT_def MAKE_EVENT_def)
  have ch: "bit changes n \<longleftrightarrow> bit current n \<noteq> bit old n"
    by (simp add: assms(5) bit_xor_iff)
  show ?case
    using Suc.IH Suc.prems assms(2) ch by (auto simp: log key_down_snoc alternates_snoc is_key pressed less_Suc_eq)
qed (use assms(4) in \<open>auto simp: tracks_row_def\<close>)

lemma matrix_row_tracks:
  assumes "board_ok env" "row < MATRIX_ROWS env" "tracks env s"
  shows "tracks env (matrix_row (logged env) now True matrix row s)"
proof (cases "matrix ! row XOR matrix_previous s ! row = 0 \<or> has_ghost_in_row (logged env) (world s) matrix row (matrix ! row)")
  case True
  then show ?thesis
    using assms(3) by (auto simp: matrix_row_def Let_def)
next
  case False
  have row: "tracks_row env row (matrix_previous s ! row) (snd (world s))" "length (matrix_previous s) = MATRIX_ROWS env"
    using assms(2,3) by (auto simp: tracks_def)
  note keys = matrix_keys_track [OF assms(1,2) order_refl row(1) refl, of now "matrix ! row"]
  show ?thesis
    using False keys row(2) assms(2,3)
    by (auto simp: matrix_row_def Let_def tracks_def tracks_row_def nth_list_update)
qed

lemma matrix_rows_track:
  assumes "board_ok env" "n \<le> MATRIX_ROWS env" "tracks env s"
  shows "tracks env (fold (matrix_row (logged env) now True matrix) [0..<n] s)"
  using assms(2) by (induction n) (use assms(1,3) in \<open>auto intro: matrix_row_tracks\<close>)

lemma matrix_task_tracks:
  assumes "board_ok env" "tracks env s"
  shows "tracks env (snd (matrix_task (logged env) now matrix s))"
  using matrix_rows_track [OF assms(1) order_refl assms(2)] tick_tracks [OF assms(2)] assms(1)
  by (simp add: matrix_task_def Let_def board_ok_def)

section \<open>Runs\<close>

text \<open>A sequence of tasks, each with its time and the matrix that it reads.\<close>

fun keyboard_run ::
    "'w keyboard_env \<Rightarrow> (u16 \<times> 'r::len matrix) list \<Rightarrow> ('r matrix, 'w) keyboard \<Rightarrow> ('r matrix, 'w) keyboard" where
  "keyboard_run env [] s = s"
| "keyboard_run env ((now, matrix) # tasks) s = keyboard_run env tasks (snd (matrix_task env now matrix s))"

lemma keyboard_run_tracks:
  "board_ok env \<Longrightarrow> tracks env s \<Longrightarrow> tracks env (keyboard_run (logged env) tasks s)"
  by (induction "logged env" tasks s rule: keyboard_run.induct) (simp_all add: matrix_task_tracks)

lemma start_tracks: "tracks env (keyboard_start (logged env) (w, []))"
  by (simp add: tracks_def tracks_row_def keyboard_start_def key_down_def alternates_def)

text \<open>
  (C33)
  The rest of the firmware can rely on key events: whatever the matrix does, with ghosts and with tasks that may not read
  the matrix, the events of every key are a press, a release, a press and so on, and the last one says what the task
  remembers of the key.
\<close>

theorem key_events_alternate:
  fixes tasks :: "(u16 \<times> 'r::len matrix) list" and w :: 'w
  assumes "board_ok env" "row < MATRIX_ROWS env" "col < MATRIX_COLS env"
  defines "s \<equiv> keyboard_run (logged env) tasks (keyboard_start (logged env) (w, []))"
  shows "alternates row col (snd (world s)) \<and> (key_down row col (snd (world s)) \<longleftrightarrow> bit (matrix_previous s ! row) col)"
  using keyboard_run_tracks [OF assms(1) start_tracks, of tasks w] assms(2,3) by (simp add: s_def tracks_def tracks_row_def)

section \<open>What a task remembers\<close>

definition static_keys :: "'w keyboard_env \<Rightarrow> (nat \<Rightarrow> nat \<Rightarrow> bool) \<Rightarrow> bool" where
  "static_keys env real \<longleftrightarrow> (\<forall>row col w. kb_real_key env row col w = real row col)"

text \<open>Two keys of the row and two of another one make a rectangle, of which three keys may be pressed and one a ghost.\<close>

definition ghost_shape :: "'w keyboard_env \<Rightarrow> (nat \<Rightarrow> nat \<Rightarrow> bool) \<Rightarrow> 'r::len matrix \<Rightarrow> nat \<Rightarrow> bool" where
  "ghost_shape env real matrix row \<longleftrightarrow>
     (\<exists>i < MATRIX_ROWS env. \<exists>a < MATRIX_COLS env. \<exists>b < MATRIX_COLS env. i \<noteq> row \<and> a \<noteq> b \<and>
        (\<forall>r \<in> {i, row}. \<forall>c \<in> {a, b}. real r c \<and> bit (matrix ! r) c))"

lemma has_ghost_shape:
  "MATRIX_HAS_GHOST env \<longrightarrow> static_keys env real \<Longrightarrow> has_ghost_in_row env w matrix row (matrix ! row) \<longleftrightarrow> MATRIX_HAS_GHOST env \<and> ghost_shape env real matrix row"
  unfolding has_ghost_iff ghost_shape_def static_keys_def by (auto 0 4)

lemma matrix_row_previous:
  assumes "MATRIX_HAS_GHOST env \<longrightarrow> static_keys env real" "row < length (matrix_previous s)"
  shows "matrix_previous (matrix_row env now p matrix row s) = (matrix_previous s)
    [row := (if MATRIX_HAS_GHOST env \<and> ghost_shape env real matrix row then matrix_previous s ! row else matrix ! row)]"
  using assms by (simp add: matrix_row_def Let_def has_ghost_shape xor_eq_0_iff)

lemma matrix_rows_previous:
  fixes matrix :: "'r::len matrix" and now :: u16 and p :: bool
  assumes "MATRIX_HAS_GHOST env \<longrightarrow> static_keys env real" "n \<le> length (matrix_previous s)"
  defines "s' \<equiv> fold (matrix_row env now p matrix) [0..<n] s"
  shows "length (matrix_previous s') = length (matrix_previous s) \<and> (\<forall>row < length (matrix_previous s). matrix_previous s' ! row =
    (if row < n \<and> \<not> (MATRIX_HAS_GHOST env \<and> ghost_shape env real matrix row) then matrix ! row else matrix_previous s ! row))"
  using assms(2) unfolding s'_def
proof (induction n)
  case (Suc n)
  then show ?case
    using matrix_row_previous [OF assms(1), of n "fold (matrix_row env now p matrix) [0..<n] s" now p matrix]
    by (auto simp: nth_list_update less_Suc_eq)
qed simp

text \<open>
  A task that may read the matrix takes over every row of it, except that with \<open>MATRIX_HAS_GHOST\<close> a row stays as it was
  while it and another row have two pressed keys of the keymap in the same columns: then one of the four may be a ghost.
\<close>

theorem matrix_task_takes_rows:
  assumes "MATRIX_HAS_GHOST env \<longrightarrow> static_keys env real" "kb_matrix_can_read env (world s)" "length (matrix_previous s) = MATRIX_ROWS env" "row < MATRIX_ROWS env"
  shows "matrix_previous (snd (matrix_task env now matrix s)) ! row =
      (if MATRIX_HAS_GHOST env \<and> ghost_shape env real matrix row then matrix_previous s ! row else matrix ! row) \<and>
    (fst (matrix_task env now matrix s) \<longleftrightarrow> (\<exists>r < MATRIX_ROWS env. matrix ! r \<noteq> matrix_previous s ! r))"
  using matrix_rows_previous [OF assms(1), of "MATRIX_ROWS env" s now "kb_should_process_keypress env (world s)" matrix] assms(2-4)
  by (auto simp: matrix_task_def Let_def list_ex_iff xor_eq_0_iff generate_tick_event_def)

section \<open>From the switches to the events\<close>

text \<open>The keyboard loop: each scan is debounced, and the task gets the debounced matrix.\<close>

fun keyboard_scans ::
    "'w keyboard_env \<Rightarrow> (u32 \<Rightarrow> 'r::len matrix \<Rightarrow> bool \<Rightarrow> 'd \<times> 'r matrix \<Rightarrow> bool \<times> 'd \<times> 'r matrix) \<Rightarrow> u32 \<Rightarrow> 'r matrix \<Rightarrow>
     (nat \<times> 'r matrix) list \<Rightarrow> ('d \<times> 'r matrix) \<times> ('r matrix, 'w) keyboard \<Rightarrow> ('d \<times> 'r matrix) \<times> ('r matrix, 'w) keyboard" where
  "keyboard_scans env deb now raw0 [] ds = ds"
| "keyboard_scans env deb now raw0 ((gap, raw) # scans) (d, s) =
    (let now = now + of_nat gap; d = snd (deb now raw (raw \<noteq> raw0) d)
     in keyboard_scans env deb now raw scans (d, snd (matrix_task env (ucast now) (snd d) s)))"

lemma keyboard_scans_run:
  fixes deb :: "u32 \<Rightarrow> 'r::len matrix \<Rightarrow> bool \<Rightarrow> 'd \<times> 'r matrix \<Rightarrow> bool \<times> 'd \<times> 'r matrix" and now :: u32 and raw0 :: "'r matrix"
  assumes "board_ok env" "\<not> MATRIX_HAS_GHOST env" "\<forall>w. kb_matrix_can_read env w"
    and "tracks env s" "scans = [] \<longrightarrow> (\<forall>row < MATRIX_ROWS env. matrix_previous s ! row = snd d ! row)"
  defines "t \<equiv> keyboard_scans (logged env) deb now raw0 scans (d, s)"
  shows "fst t = scan_loop deb now raw0 scans d" "tracks env (snd t)"
    "\<forall>row < MATRIX_ROWS env. matrix_previous (snd t) ! row = snd (fst t) ! row"
proof -
  have "fst t = scan_loop deb now raw0 scans d \<and> tracks env (snd t) \<and>
    (\<forall>row < MATRIX_ROWS env. matrix_previous (snd t) ! row = snd (fst t) ! row)"
    using assms(4,5) unfolding t_def
  proof (induction scans arbitrary: now raw0 d s)
    case (Cons scan scans)
    obtain gap raw where scan: "scan = (gap, raw)"
      by (metis surj_pair)
    define d' where "d' = snd (deb (now + of_nat gap) raw (raw \<noteq> raw0) d)"
    define s' where "s' = snd (matrix_task (logged env) (ucast (now + of_nat gap)) (snd d') s)"
    have tracks: "tracks env s'"
      unfolding s'_def by (rule matrix_task_tracks [OF assms(1) Cons.prems(1)])
    have "matrix_previous s' ! row = snd d' ! row" if "row < MATRIX_ROWS env" for row
      using matrix_task_takes_rows [of "logged env" real s row "ucast (now + of_nat gap)" "snd d'"] that assms(2,3) Cons.prems(1)
      by (simp add: s'_def tracks_def)
    then show ?case
      using Cons.IH [OF tracks, of d' "now + of_nat gap" raw] by (simp add: scan Let_def d'_def s'_def)
  qed simp
  then show "fst t = scan_loop deb now raw0 scans d" "tracks env (snd t)"
    "\<forall>row < MATRIX_ROWS env. matrix_previous (snd t) ! row = snd (fst t) ! row"
    by blast+
qed

definition keys_are ::
    "'w keyboard_env \<Rightarrow> (u32 \<Rightarrow> 'r::len matrix \<Rightarrow> bool \<Rightarrow> 'd \<times> 'r matrix \<Rightarrow> bool \<times> 'd \<times> 'r matrix) \<Rightarrow> u32 \<Rightarrow>
     (nat \<times> 'r matrix) list \<Rightarrow> 'd \<Rightarrow> 'w \<Rightarrow> 'r matrix \<Rightarrow> bool" where
  "keys_are env deb now scans d w raw \<longleftrightarrow>
    (let start = matrix_start (MATRIX_ROWS env);
         s = snd (keyboard_scans (logged env) deb now start scans ((d, start), keyboard_start (logged env) (w, [])))
     in \<forall>row < MATRIX_ROWS env. \<forall>col < MATRIX_COLS env. key_down row col (snd (world s)) \<longleftrightarrow> bit (raw ! row) col)"

lemma keys_are_settled:
  assumes "board_ok env" "\<not> MATRIX_HAS_GHOST env" "\<forall>w. kb_matrix_can_read env w"
    and "snd (scan_loop deb now (matrix_start (MATRIX_ROWS env)) scans (d, matrix_start (MATRIX_ROWS env))) = raw"
  shows "keys_are env deb now scans d w raw"
proof -
  let ?start = "matrix_start (MATRIX_ROWS env)"
  note run = keyboard_scans_run [OF assms(1-3) start_tracks [of env w], where d = "(d, ?start)" and deb = deb and now = now and ?raw0.0 = ?start
      and scans = scans]
  have "\<forall>row < MATRIX_ROWS env. matrix_previous (keyboard_start (logged env) (w, [])) ! row = (?start :: 'b matrix) ! row"
    by (simp add: keyboard_start_def matrix_start_def)
  then show ?thesis
    using run assms(4) by (simp add: keys_are_def Let_def tracks_def tracks_row_def)
qed

text \<open>
  (C2)
  A key that is held is pressed, and a key that is let go is released: from power-up, after any scans, once the switches
  have stayed the same for the debounce time, the key events are those of exactly the keys that are down, with each of the
  algorithms, on a keyboard without ghosts.  The asymmetric algorithm may take twice the debounce time and a scan.
\<close>

theorem switches_become_events:
  fixes scans :: "(nat \<times> 'r::len matrix) list"
  assumes env: "board_ok env" "\<not> MATRIX_HAS_GHOST env" "\<forall>w. kb_matrix_can_read env w"
    and cf: "0 < DEBOUNCE cf" "DEBOUNCE cf \<le> 255"
    and scans: "valid_scans (keys_ok (MATRIX_ROWS env) (Debounce.debounce_config.MATRIX_COLS cf)) 65535 scans"
    and gaps: "\<forall>gap \<in> set gaps. gap \<le> 65535" "DEBOUNCE cf \<le> sum_list gaps"
  defines "raw \<equiv> final_raw (matrix_start (MATRIX_ROWS env)) scans"
  defines "all \<equiv> scans @ map (\<lambda>gap. (gap, raw)) gaps"
  shows "keys_are env (debounce_sym_defer_g cf) now all debounce_init_g w raw \<and>
    keys_are env (debounce_sym_defer_pr cf) now all (debounce_init_pr now (MATRIX_ROWS env)) w raw \<and>
    keys_are env (debounce_sym_eager_pr cf) now all (debounce_init_pr_eager (MATRIX_ROWS env)) w raw \<and>
    keys_are env (debounce_sym_defer_pk cf) now all (debounce_init_pk cf (MATRIX_ROWS env)) w raw \<and>
    keys_are env (debounce_sym_eager_pk cf) now all (debounce_init_pk cf (MATRIX_ROWS env)) w raw \<and>
    (\<forall>G. (\<forall>(gap, _) \<in> set all. gap \<le> G) \<and> G \<le> 65535 \<and> 2 * DEBOUNCE cf + G \<le> sum_list gaps \<longrightarrow>
      keys_are env (debounce_asym_eager_defer_pk cf) now all (debounce_init_asym cf junk (MATRIX_ROWS env)) w raw)"
proof -
  note settles = algorithms_settle [OF cf scans gaps, folded raw_def, folded all_def, of now junk]
  show ?thesis
    using settles by (intro conjI allI impI keys_are_settled [OF env]; blast)
qed

section \<open>Witnesses\<close>

text \<open>A board of two rows of two keys, with ghosts or without, whose state is a number that its events leave alone.\<close>

definition example_board :: "bool \<Rightarrow> nat keyboard_env" where
  "example_board ghosts =
    \<lparr>MATRIX_ROWS = 2, MATRIX_COLS = 2, MATRIX_HAS_GHOST = ghosts, kb_real_key = (\<lambda>_ _ _. True), kb_matrix_can_read = (\<lambda>_. True),
     kb_should_process_keypress = (\<lambda>_. True), kb_action_exec = (\<lambda>_ w. w), kb_switch_events = (\<lambda>_ _ _ w. w)\<rparr>"

lemma example_board_ok: "board_ok (example_board ghosts)" "static_keys (example_board ghosts) (\<lambda>_ _. True)"
  "\<forall>w. kb_matrix_can_read (example_board ghosts) w"
  by (simp_all add: board_ok_def example_board_def static_keys_def)

theorem key_events_alternate_witness:
  "key_down 1 0 (snd (world (keyboard_run (logged (example_board False)) [(5, [0, 1 :: 8 word])]
     (keyboard_start (logged (example_board False)) (0, [])))))"
proof -
  have rc: "1 < MATRIX_ROWS (example_board False)" "0 < MATRIX_COLS (example_board False)"
    by (simp_all add: example_board_def)
  let ?s = "keyboard_run (logged (example_board False)) [(5, [0, 1 :: 8 word])] (keyboard_start (logged (example_board False)) (0, []))"
  have "matrix_previous ?s ! 1 = [0, 1] ! 1"
    using matrix_task_takes_rows [of "logged (example_board False)" undefined "keyboard_start (logged (example_board False)) (0, [])" 1 5 "[0, 1 :: 8 word]"]
    by (simp add: example_board_def logged_def keyboard_start_def)
  then show ?thesis
    using key_events_alternate [OF example_board_ok(1) rc, of "[(5, [0, 1 :: 8 word])]" 0] by (simp add: bit_1_iff)
qed

theorem matrix_task_takes_rows_witness:
  "matrix_previous (snd (matrix_task (example_board True) 7 [3, 3]
     \<lparr>matrix_previous = [3, 1 :: 8 word], last_tick = 0, world = 0\<rparr>)) ! 1 = 1"
proof -
  have "ghost_shape (example_board True) (\<lambda>_ _. True) [3, 3 :: 8 word] 1"
  proof -
    have "\<forall>r \<in> {0, 1}. \<forall>c \<in> {0, 1}. True \<and> bit ([3, 3 :: 8 word] ! r) c" "(0 :: nat) \<noteq> 1"
      "0 < MATRIX_ROWS (example_board True)" "0 < MATRIX_COLS (example_board True)" "1 < MATRIX_COLS (example_board True)"
      by (simp_all add: bit_simps example_board_def)
    then show ?thesis
      unfolding ghost_shape_def by blast
  qed
  moreover have "MATRIX_HAS_GHOST (example_board True)"
    by (simp add: example_board_def)
  ultimately show ?thesis
    using matrix_task_takes_rows [OF impI [OF example_board_ok(2)], of True
        "\<lparr>matrix_previous = [3, 1 :: 8 word], last_tick = 0, world = 0\<rparr>" 1 7 "[3, 3]"] example_board_ok(3)
    by (simp add: example_board_def)
qed

theorem switches_become_events_witness:
  "keys_are (example_board False) (debounce_sym_eager_pk board) 0 [(1, [1, 0 :: 8 word]), (1, [3, 0]), (5, [3, 0])]
     (debounce_init_pk board 2) 0 [3, 0]"
proof -
  have rows: "MATRIX_ROWS (example_board False) = 2"
    by (simp add: example_board_def)
  have gaps: "\<forall>gap \<in> set [5]. gap \<le> (65535 :: nat)" "DEBOUNCE board \<le> sum_list [5]"
    by (simp_all add: board_def)
  have valid: "valid_scans (keys_ok (MATRIX_ROWS (example_board False)) (Debounce.debounce_config.MATRIX_COLS board)) 65535
      [(1, [1, 0]), (1, [3, 0 :: 8 word])]"
    by (simp add: rows valid_scans_def keys_ok_eval board_def)
  have raw: "final_raw (matrix_start (MATRIX_ROWS (example_board False))) [(1, [1, 0]), (1, [3, 0 :: 8 word])] = [3, 0]"
    by (simp add: final_raw_def)
  have "\<not> MATRIX_HAS_GHOST (example_board False)"
    by (simp add: example_board_def)
  from switches_become_events [OF example_board_ok(1) this example_board_ok(3) board_debounce(2,3) valid gaps, unfolded raw, unfolded rows, of 0 0 True]
  show ?thesis
    by simp
qed

end
