(* ===== verification/Pipeline.thy ===== *)
theory Pipeline
  imports Tapping Keyboard
begin

text \<open>
  From the switches to the host: the matrix task of \<open>Keyboard\<close> over \<open>action_exec\<close> of \<open>Tapping\<close>, with the action code of
  \<open>Actions\<close> behind it.  On a keyboard whose keys are plain keys and modifiers the host sees, after the debounce time,
  exactly the keys that are down.
\<close>

section \<open>The firmware behind the matrix task\<close>

text \<open>
  What keyboard.c calls, with \<open>MATRIX_HAS_GHOST\<close> off and the weak \<open>matrix_can_read\<close> and \<open>should_process_keypress\<close>;
  \<open>switch_events\<close> only tells the lights.
\<close>

definition keyboard_firmware ::
    "('h, 'c) tapping_config_scheme \<Rightarrow> 'h action_vars_scheme tapping_vars keyboard_env" where
  "keyboard_firmware cf = keyboard_env.make (keymap_tables.MATRIX_ROWS cf) (keymap_tables.MATRIX_COLS cf) False
     (\<lambda>row col t. keycode_at_keymap_location cf 0 (of_nat row) (of_nat col) \<noteq> 0) (\<lambda>t. True) (\<lambda>t. True)
     (action_exec cf) (\<lambda>row col pressed t. t)"

section \<open>Plain keys\<close>

text \<open>On layer 0 every position has a basic key, a modifier or nothing, and no two have the same.\<close>

definition plain_code :: "u16 \<Rightarrow> bool" where
  "plain_code k \<longleftrightarrow> k = KC_NO \<or> IS_BASIC_KEYCODE k \<or> IS_MODIFIER_KEYCODE k"

definition plain_keymap :: "('c) keymap_tables_scheme \<Rightarrow> bool" where
  "plain_keymap t \<longleftrightarrow> keymap_tables.MATRIX_ROWS t \<le> 256 \<and> keymap_tables.MATRIX_COLS t \<le> 256 \<and> 0 < keymap_layers t \<and>
     (\<forall>row < keymap_tables.MATRIX_ROWS t. \<forall>col < keymap_tables.MATRIX_COLS t. plain_code (keymaps t 0 row col) \<and>
       (\<forall>row' < keymap_tables.MATRIX_ROWS t. \<forall>col' < keymap_tables.MATRIX_COLS t.
         keymaps t 0 row col = keymaps t 0 row' col' \<longrightarrow> keymaps t 0 row col = KC_NO \<or> row = row' \<and> col = col'))"

text \<open>The keycode of a position that is down.\<close>

definition key_held :: "('c) keymap_tables_scheme \<Rightarrow> (nat \<Rightarrow> nat \<Rightarrow> bool) \<Rightarrow> u16 \<Rightarrow> bool" where
  "key_held t down k \<longleftrightarrow>
     (\<exists>row < keymap_tables.MATRIX_ROWS t. \<exists>col < keymap_tables.MATRIX_COLS t. down row col \<and> keymaps t 0 row col = k)"

text \<open>What the host has seen: the keys in the bit map, and the modifiers, are those of the positions that are down.\<close>

definition host_shows :: "('c) keymap_tables_scheme \<Rightarrow> (nat \<Rightarrow> nat \<Rightarrow> bool) \<Rightarrow> host_event list \<Rightarrow> bool" where
  "host_shows t down es \<longleftrightarrow>
     (\<forall>k. is_key_pressed True (empty_report\<lparr>rk_payload := snd (host_view es)\<rparr>) k \<longleftrightarrow>
        IS_BASIC_KEYCODE k \<and> key_held t down (ucast k)) \<and>
     (\<forall>b < 8. bit (fst (host_view es)) b \<longleftrightarrow> key_held t down (KC_LEFT_CTRL + of_nat b))"

lemma key_held_set:
  assumes "plain_keymap t" "row < keymap_tables.MATRIX_ROWS t" "col < keymap_tables.MATRIX_COLS t" "k \<noteq> KC_NO"
  shows "key_held t (\<lambda>r c. if r = row \<and> c = col then p else down r c) k \<longleftrightarrow>
    (if k = keymaps t 0 row col then p else key_held t down k)"
proof (cases "k = keymaps t 0 row col")
  case True
  have "r = row \<and> c = col" if "r < keymap_tables.MATRIX_ROWS t" "c < keymap_tables.MATRIX_COLS t" "keymaps t 0 r c = k" for r c
    using assms that True unfolding plain_keymap_def by metis
  then show ?thesis
    using assms(2,3) True unfolding key_held_def by auto
qed (auto simp: key_held_def)

lemma action_for_plain:
  assumes "plain_code k" "keycode_config c k = k"
  shows "action_for_keycode c k = k"
proof -
  have key: "ACTION_KEY k = k"
    by (simp add: ACTION_KEY_def ACTION_def)
  show ?thesis
  proof (cases "k = KC_NO")
    case True
    then show ?thesis
      using action_for_keycode_A by simp
  next
    case False
    then have "KC_A \<le> k \<and> k \<le> KC_EXSEL \<or> KC_LEFT_CTRL \<le> k \<and> k \<le> KC_RIGHT_GUI"
      using assms(1) by (simp add: plain_code_def IS_BASIC_KEYCODE_def IS_MODIFIER_KEYCODE_def)
    then show ?thesis
      unfolding action_for_keycode_def Let_def assms(2) key by (rule if_P)
  qed
qed

lemma plain_code_byte:
  assumes "plain_code k"
  shows "ucast (ucast k :: u8) = k" "kind_id k = ACT_LMODS" "key_mods k = 0" "key_code k = ucast k"
proof -
  have "k \<le> 0xFF"
    using assms by (auto simp: plain_code_def IS_BASIC_KEYCODE_def IS_MODIFIER_KEYCODE_def intro: order_trans)
  then have "unat k < 2 ^ 8"
    by (simp add: word_le_nat_alt)
  then have k: "take_bit 8 k = k"
    by (simp add: word_unat_eq_iff unsigned_take_bit_eq take_bit_nat_eq_self)
  have "ucast (ucast k :: u8) = take_bit 8 k" "drop_bit 12 (take_bit 8 k) = 0" "drop_bit 8 (take_bit 8 k) = 0"
    by (rule bit_word_eqI, auto simp: bit_simps)+
  then show "ucast (ucast k :: u8) = k" "kind_id k = ACT_LMODS" "key_mods k = 0" "key_code k = ucast k"
    using k by (simp_all add: kind_id_def key_mods_def key_code_def)
qed

lemma ucast_plain_eq: "plain_code k \<Longrightarrow> (ucast j :: u16) = k \<longleftrightarrow> j = ucast k" for j :: u8
  using plain_code_byte(1) [of k] by (auto simp: ucast_up_ucast_id is_up)

lemma basic_ucast:
  assumes "plain_code k"
  shows "IS_BASIC_KEYCODE (ucast k :: u8) \<longleftrightarrow> IS_BASIC_KEYCODE k" "IS_MODIFIER_KEYCODE (ucast k :: u8) \<longleftrightarrow> IS_MODIFIER_KEYCODE k"
    "(ucast k :: u8) = 0 \<longleftrightarrow> k = KC_NO"
proof -
  define j :: u8 where "j = ucast k"
  have "k = ucast j"
    using plain_code_byte(1) [OF assms] by (simp add: j_def)
  moreover have "unat (ucast j :: u16) = unat j"
    by (simp add: unsigned_ucast_eq take_bit_nat_eq_self unat_less_numeral_8 [of j, THEN less_trans])
  ultimately show "IS_BASIC_KEYCODE (ucast k :: u8) \<longleftrightarrow> IS_BASIC_KEYCODE k" "IS_MODIFIER_KEYCODE (ucast k :: u8) \<longleftrightarrow> IS_MODIFIER_KEYCODE k"
    "(ucast k :: u8) = 0 \<longleftrightarrow> k = KC_NO"
    by (simp_all add: IS_BASIC_KEYCODE_def IS_MODIFIER_KEYCODE_def word_le_nat_alt word_unat_eq_iff flip: j_def)
qed

lemma modifier_cases:
  fixes k :: u16
  assumes "IS_MODIFIER_KEYCODE k"
  obtains b where "b < 8" "k = KC_LEFT_CTRL + of_nat b"
proof
  have le: "0xE0 \<le> unat k" "unat k \<le> 0xE7"
    using assms by (simp_all add: IS_MODIFIER_KEYCODE_def word_le_nat_alt)
  then show "unat k - 0xE0 < 8"
    by simp
  show "k = KC_LEFT_CTRL + of_nat (unat k - 0xE0)"
    using le by (simp add: of_nat_diff)
qed

lemma modifier_bits:
  fixes k :: u16
  assumes "IS_MODIFIER_KEYCODE k" "b < 8"
  shows "bit (MOD_BIT (ucast k)) b \<longleftrightarrow> KC_LEFT_CTRL + of_nat b = k"
proof -
  obtain i where i: "i < 8" "k = KC_LEFT_CTRL + of_nat i"
    using modifier_cases [OF assms(1)] by blast
  have "MOD_BIT (ucast (KC_LEFT_CTRL + of_nat i :: u16)) = push_bit i 1"
  proof -
    have "i \<in> {0, 1, 2, 3, 4, 5, 6, 7}"
      using i(1) by auto
    then show ?thesis
      by (auto simp: MOD_BIT_def)
  qed
  then have "bit (MOD_BIT (ucast k)) b \<longleftrightarrow> b = i"
    using assms(2) i by (simp add: push_bit_1 bit_mask_1)
  moreover have "(of_nat b :: u16) = of_nat i \<longleftrightarrow> b = i"
    using i(1) assms(2) by (simp add: word_of_nat_eq_iff take_bit_nat_eq_self)
  ultimately show ?thesis
    by (simp add: i(2))
qed

section \<open>The report\<close>

text \<open>What the buffer and the real modifiers hold, and that the host has seen it.\<close>

definition buffer_shows :: "('c) keymap_tables_scheme \<Rightarrow> (nat \<Rightarrow> nat \<Rightarrow> bool) \<Rightarrow> ('s) mods_vars_scheme \<Rightarrow> bool" where
  "buffer_shows t down s \<longleftrightarrow> use_nkro s \<and> report_inv True (keyboard_report s) \<and>
     (\<forall>k. is_key_pressed True (keyboard_report s) k \<longleftrightarrow> IS_BASIC_KEYCODE k \<and> key_held t down (ucast k)) \<and>
     (\<forall>b < 8. bit (real_mods s) b \<longleftrightarrow> key_held t down (KC_LEFT_CTRL + of_nat b))"

definition host_current :: "('s) mods_vars_scheme \<Rightarrow> bool" where
  "host_current s \<longleftrightarrow> host_synced s \<and> host_view (out s) = (real_mods s, rk_payload (keyboard_report s))"

text \<open>No other modifiers are about.\<close>

definition no_other_mods :: "('s) mods_vars_scheme \<Rightarrow> bool" where
  "no_other_mods s \<longleftrightarrow> weak_mods s = 0 \<and> oneshot_mods s = 0 \<and> suppressed_mods s = 0 \<and> weak_override_mods s = 0"

lemma buffer_shows_host: "buffer_shows t down s \<Longrightarrow> host_current s \<Longrightarrow> host_shows t down (out s)"
  by (simp add: buffer_shows_def host_current_def host_shows_def is_key_pressed_payload)

lemma wanted_mods_real: "no_other_mods s \<Longrightarrow> wanted_mods cf s = real_mods s"
  by (simp add: no_other_mods_def wanted_mods_def live_oneshot_mods_def)

text \<open>The rest of the state: the key operations change nothing else.\<close>

definition behind_report :: "('s) mods_vars_scheme \<Rightarrow> ('s) mods_vars_scheme" where
  "behind_report s = s\<lparr>real_mods := 0, keyboard_report := empty_report, last_report := empty_report, out := []\<rparr>"

lemma behind_simps [simp]:
  "behind_report (s\<lparr>keyboard_report := r\<rparr>) = behind_report s" "behind_report (s\<lparr>last_report := r\<rparr>) = behind_report s"
  "behind_report (s\<lparr>out := e\<rparr>) = behind_report s" "behind_report (s\<lparr>real_mods := m\<rparr>) = behind_report s"
  "behind_report (put_report_mods m s) = behind_report s" "behind_report (emit ev s) = behind_report s"
  "behind_report (add_key k s) = behind_report s" "behind_report (del_key k s) = behind_report s"
  "behind_report (add_mods m s) = behind_report s" "behind_report (del_mods m s) = behind_report s"
  by (simp_all add: behind_report_def put_report_mods_def emit_def add_key_def del_key_def add_mods_def del_mods_def)

lemma behind_eq_mods: "behind_report s = behind_report s' \<Longrightarrow> no_other_mods s \<longleftrightarrow> no_other_mods s'"
  by (drule arg_cong [of _ _ no_other_mods]) (simp add: behind_report_def no_other_mods_def)

lemma behind_host_send [simp]: "behind_report (host_keyboard_send cf s) = behind_report s"
  by (simp add: host_keyboard_send_def Let_def)

lemma behind_send: "no_other_mods s \<Longrightarrow> behind_report (send_keyboard_report cf s) = behind_report s"
  by (simp add: no_other_mods_def send_keyboard_report_def update_report_mods_no_oneshot Let_def)

lemma send_current:
  assumes "host_driver cf" "host_synced s" "no_other_mods s"
  shows "host_current (send_keyboard_report cf s)"
  using send_keyboard_report_sync [OF assms(1,2)] wanted_mods_real [OF assms(3)] by (simp add: host_current_def)

lemma send_buffer_shows: "buffer_shows t down (send_keyboard_report cf s) = buffer_shows t down s"
  by (simp add: buffer_shows_def payload_cong [OF send_frame(6)])

lemma behind_register:
  assumes "no_other_mods s" "plain_code k"
  shows "behind_report (register_code cf (ucast k) s) = behind_report s"
    and "behind_report (unregister_code cf (ucast k) s) = behind_report s"
proof -
  have send: "behind_report (send_keyboard_report cf s') = behind_report s" if "behind_report s' = behind_report s" for s'
    using behind_send [of s'] behind_eq_mods [OF that] assms(1) that by simp
  show "behind_report (register_code cf (ucast k) s) = behind_report s"
    "behind_report (unregister_code cf (ucast k) s) = behind_report s"
    using assms(2) by (auto simp: plain_code_def register_code_def unregister_code_def Let_def basic_ucast send)
qed

section \<open>A key goes down or up\<close>

definition set_down :: "nat \<Rightarrow> nat \<Rightarrow> bool \<Rightarrow> (nat \<Rightarrow> nat \<Rightarrow> bool) \<Rightarrow> nat \<Rightarrow> nat \<Rightarrow> bool" where
  "set_down row col p down = (\<lambda>r c. if r = row \<and> c = col then p else down r c)"

lemma modifier_code: "b < 8 \<Longrightarrow> IS_MODIFIER_KEYCODE (KC_LEFT_CTRL + of_nat b :: u16)"
proof -
  assume "b < 8"
  then have "unat (KC_LEFT_CTRL + of_nat b :: u16) = 0xE0 + b"
    by (subst unat_add_lem [THEN iffD1]) (simp_all add: unat_of_nat)
  then show ?thesis
    using \<open>b < 8\<close> by (simp add: IS_MODIFIER_KEYCODE_def word_le_nat_alt)
qed

lemma code_classes: "IS_BASIC_KEYCODE k \<Longrightarrow> \<not> IS_MODIFIER_KEYCODE k" "IS_BASIC_KEYCODE k \<Longrightarrow> k \<noteq> KC_NO"
  "IS_MODIFIER_KEYCODE k \<Longrightarrow> k \<noteq> KC_NO" for k :: u16
  by (auto simp: IS_BASIC_KEYCODE_def IS_MODIFIER_KEYCODE_def word_le_nat_alt)

lemma basic_widen: "IS_BASIC_KEYCODE (ucast j :: u16) \<longleftrightarrow> IS_BASIC_KEYCODE j" for j :: u8
proof -
  have "unat (ucast j :: u16) = unat j"
    by (simp add: unsigned_ucast_eq take_bit_nat_eq_self unat_less_numeral_8 [of j, THEN less_trans])
  then show ?thesis
    by (simp add: IS_BASIC_KEYCODE_def word_le_nat_alt)
qed

text \<open>The effect that the report and the modifiers should have.\<close>

lemma buffer_shows_set:
  assumes "plain_keymap t" "row < keymap_tables.MATRIX_ROWS t" "col < keymap_tables.MATRIX_COLS t" "buffer_shows t down s"
    and "use_nkro s1" "report_inv True (keyboard_report s1)" and k: "k = keymaps t 0 row col"
    and pressed: "\<And>j. IS_BASIC_KEYCODE k \<Longrightarrow> is_key_pressed True (keyboard_report s1) j \<longleftrightarrow>
        (if j = ucast k then p else is_key_pressed True (keyboard_report s) j)"
      "\<And>j. \<not> IS_BASIC_KEYCODE k \<Longrightarrow> is_key_pressed True (keyboard_report s1) j \<longleftrightarrow> is_key_pressed True (keyboard_report s) j"
    and mods: "\<And>b. b < 8 \<Longrightarrow> bit (real_mods s1) b \<longleftrightarrow> (if KC_LEFT_CTRL + of_nat b = k then p else bit (real_mods s) b)"
  shows "buffer_shows t (set_down row col p down) s1"
proof -
  have plain: "plain_code k"
    using assms(1-3) by (simp add: k plain_keymap_def)
  note held = key_held_set [OF assms(1-3), of _ p down, folded k set_down_def]
  have "is_key_pressed True (keyboard_report s1) j \<longleftrightarrow> IS_BASIC_KEYCODE j \<and> key_held t (set_down row col p down) (ucast j)" for j
  proof (cases "IS_BASIC_KEYCODE j")
    case True
    then have j: "IS_BASIC_KEYCODE (ucast j :: u16)"
      by (simp add: basic_widen)
    show ?thesis
      using assms(4) True pressed [of j] held [of "ucast j"] code_classes(2) [OF j] j ucast_plain_eq [OF plain, of j]
      by (cases "IS_BASIC_KEYCODE k") (auto simp: buffer_shows_def)
  next
    case False
    then show ?thesis
      using assms(4) pressed [of j] basic_ucast(1) [OF plain] by (cases "IS_BASIC_KEYCODE k") (auto simp: buffer_shows_def)
  qed
  moreover have "bit (real_mods s1) b \<longleftrightarrow> key_held t (set_down row col p down) (KC_LEFT_CTRL + of_nat b)" if "b < 8" for b
    using assms(4) mods [OF that] held [OF code_classes(3) [OF modifier_code [OF that]]] that by (simp add: buffer_shows_def)
  ultimately show ?thesis
    using assms(5,6) by (simp add: buffer_shows_def)
qed

lemma fits_nkro: "IS_BASIC_KEYCODE j \<Longrightarrow> report_fits True r j"
  by (simp add: report_fits_def nkro_fits_def IS_BASIC_KEYCODE_def word_le_nat_alt KEYBOARD_REPORT_BITS_def)

lemma no_other_mods_simps [simp]:
  "no_other_mods (add_key k s) = no_other_mods s" "no_other_mods (del_key k s) = no_other_mods s"
  "no_other_mods (add_mods m s) = no_other_mods s" "no_other_mods (del_mods m s) = no_other_mods s"
  by (rule behind_eq_mods, simp)+

lemma send_no_other_mods: "no_other_mods s \<Longrightarrow> no_other_mods (send_keyboard_report cf s)"
  using behind_eq_mods [OF behind_send] by blast

lemma mods_ops_synced [simp]:
  "host_synced (add_mods m s) = host_synced s" "host_synced (del_mods m s) = host_synced s"
  "use_nkro (add_mods m s) = use_nkro s" "use_nkro (del_mods m s) = use_nkro s"
  "keyboard_report (add_mods m s) = keyboard_report s" "keyboard_report (del_mods m s) = keyboard_report s"
  "real_mods (add_key k s) = real_mods s" "real_mods (del_key k s) = real_mods s"
  "real_mods (add_mods m s) = real_mods s OR m" "real_mods (del_mods m s) = real_mods s AND NOT m"
  by (simp_all add: add_mods_def del_mods_def add_key_def del_key_def host_synced_def use_nkro_def)

lemma press_plain:
  assumes "plain_keymap t" "row < keymap_tables.MATRIX_ROWS t" "col < keymap_tables.MATRIX_COLS t"
    and "host_driver cf" "buffer_shows t down s" "host_current s" "no_other_mods s"
  defines "s1 \<equiv> register_code cf (ucast (keymaps t 0 row col)) s"
  shows "buffer_shows t (set_down row col True down) s1 \<and> host_current s1"
proof -
  define k where "k = keymaps t 0 row col"
  have plain: "plain_code k"
    using assms(1-3) by (simp add: k_def plain_keymap_def)
  note set = buffer_shows_set [OF assms(1-3,5) _ _ k_def, where p = True]
  have s: "host_synced s" "use_nkro s" "report_inv True (keyboard_report s)"
    using assms(5,6) by (simp_all add: host_current_def buffer_shows_def)
  consider "k = KC_NO" | "IS_BASIC_KEYCODE k" | "IS_MODIFIER_KEYCODE k"
    using plain by (auto simp: plain_code_def)
  then show ?thesis
  proof cases
    case 1
    have "s1 = s"
      using 1 by (simp add: s1_def k_def [symmetric] register_code_def)
    then show ?thesis
      using set [of s] s assms(6) 1 code_classes(3) [OF modifier_code] by (simp add: IS_BASIC_KEYCODE_def)
  next
    case 2
    define m where "m = (if is_key_pressed True (keyboard_report s) (ucast k) then send_keyboard_report cf (del_key (ucast k) s) else s)"
    have nz: "(ucast k :: u8) \<noteq> 0"
      using 2 basic_ucast [OF plain] code_classes(2) by simp
    have other: "KC_LEFT_CTRL + of_nat b \<noteq> k" if "b < 8" for b
      using modifier_code [OF that] code_classes(1) [OF 2] by auto
    have s1: "s1 = send_keyboard_report cf (add_key (ucast k) m)"
      using 2 s(2) nz basic_ucast [OF plain] by (simp add: s1_def register_code_def m_def k_def [symmetric])
    have m: "use_nkro m" "host_synced m" "report_inv True (keyboard_report m)" "real_mods m = real_mods s" "no_other_mods m"
      "\<And>j. is_key_pressed True (keyboard_report m) j \<longleftrightarrow> is_key_pressed True (keyboard_report s) j \<and> j \<noteq> ucast k \<or>
        j = ucast k \<and> is_key_pressed True (keyboard_report m) j"
      using s nz assms(4,7)
      by (auto simp: m_def send_host_pressed report.inv_del report.pressed_del send_no_other_mods)
    have pressed: "is_key_pressed True (keyboard_report (add_key (ucast k) m)) j \<longleftrightarrow> j = ucast k \<or> is_key_pressed True (keyboard_report s) j" for j
      using m(1,3,6) nz 2 basic_ucast(1) [OF plain] fits_nkro by (auto simp: report.pressed_add)
    have "buffer_shows t (set_down row col True down) (add_key (ucast k) m)"
      by (rule set) (use m nz 2 pressed other in \<open>auto simp: report.inv_add\<close>)
    then show ?thesis
      using send_current [OF assms(4), of "add_key (ucast k) m"] m by (simp add: s1 send_buffer_shows)
  next
    case 3
    have s1: "s1 = send_keyboard_report cf (add_mods (MOD_BIT (ucast k)) s)"
      using 3 code_classes [of k] basic_ucast [OF plain] by (auto simp: s1_def register_code_def k_def [symmetric])
    have "buffer_shows t (set_down row col True down) (add_mods (MOD_BIT (ucast k)) s)"
      by (rule set) (use s 3 code_classes(1) modifier_bits [OF 3] in \<open>auto simp: bit_or_iff\<close>)
    then show ?thesis
      using send_current [OF assms(4), of "add_mods (MOD_BIT (ucast k)) s"] s assms(7) by (simp add: s1 send_buffer_shows)
  qed
qed

lemma release_plain:
  assumes "plain_keymap t" "row < keymap_tables.MATRIX_ROWS t" "col < keymap_tables.MATRIX_COLS t"
    and "host_driver cf" "buffer_shows t down s" "host_current s" "no_other_mods s"
  defines "s1 \<equiv> unregister_code cf (ucast (keymaps t 0 row col)) s"
  shows "buffer_shows t (set_down row col False down) s1 \<and> host_current s1"
proof -
  define k where "k = keymaps t 0 row col"
  have plain: "plain_code k"
    using assms(1-3) by (simp add: k_def plain_keymap_def)
  note set = buffer_shows_set [OF assms(1-3,5) _ _ k_def, where p = False]
  have s: "host_synced s" "use_nkro s" "report_inv True (keyboard_report s)"
    using assms(5,6) by (simp_all add: host_current_def buffer_shows_def)
  consider "k = KC_NO" | "IS_BASIC_KEYCODE k" | "IS_MODIFIER_KEYCODE k"
    using plain by (auto simp: plain_code_def)
  then show ?thesis
  proof cases
    case 1
    have "s1 = s"
      using 1 by (simp add: s1_def k_def [symmetric] unregister_code_def)
    then show ?thesis
      using set [of s] s assms(6) 1 code_classes(3) [OF modifier_code] by (simp add: IS_BASIC_KEYCODE_def)
  next
    case 2
    have nz: "(ucast k :: u8) \<noteq> 0"
      using 2 basic_ucast [OF plain] code_classes(2) by simp
    have other: "KC_LEFT_CTRL + of_nat b \<noteq> k" if "b < 8" for b
      using modifier_code [OF that] code_classes(1) [OF 2] by auto
    have s1: "s1 = send_keyboard_report cf (del_key (ucast k) s)"
      using 2 nz basic_ucast [OF plain] by (simp add: s1_def unregister_code_def k_def [symmetric])
    have "buffer_shows t (set_down row col False down) (del_key (ucast k) s)"
      by (rule set) (use s nz 2 other in \<open>auto simp: report.inv_del report.pressed_del\<close>)
    then show ?thesis
      using send_current [OF assms(4), of "del_key (ucast k) s"] s assms(7) by (simp add: s1 send_buffer_shows)
  next
    case 3
    have s1: "s1 = send_keyboard_report cf (del_mods (MOD_BIT (ucast k)) s)"
      using 3 code_classes [of k] basic_ucast [OF plain] by (auto simp: s1_def unregister_code_def k_def [symmetric])
    have "buffer_shows t (set_down row col False down) (del_mods (MOD_BIT (ucast k)) s)"
      by (rule set) (use s 3 code_classes(1) modifier_bits [OF 3] in \<open>auto simp: bit_and_iff bit_not_iff\<close>)
    then show ?thesis
      using send_current [OF assms(4), of "del_mods (MOD_BIT (ucast k)) s"] s assms(7) by (simp add: s1 send_buffer_shows)
  qed
qed

section \<open>The state and the settings of a plain keyboard\<close>

text \<open>Layer 0 is the only layer in use, the hands are not swapped, nothing waits for a one-shot key.\<close>

definition plain_rest :: "('h, 'c) actions_config_scheme \<Rightarrow> 'h action_vars_scheme \<Rightarrow> bool" where
  "plain_rest cf s \<longleftrightarrow> no_other_mods s \<and> layer_state s OR default_layer_state s = 1 \<and> \<not> disable_action_cache s \<and>
     cache_ok cf s \<and> (\<forall>key. in_matrix cf key \<longrightarrow> read_source_layers_cache cf s key = 0) \<and>
     (\<forall>row < keymap_tables.MATRIX_ROWS cf. \<forall>col < keymap_tables.MATRIX_COLS cf.
       keycode_config (keymap_config s) (keymaps cf 0 row col) = keymaps cf 0 row col) \<and>
     oneshot_layer_data s = 0 \<and> \<not> swap_hands s \<and> swap_hands_oneshot s = SHO_OFF \<and>
     swap_shape (keymap_tables.MATRIX_ROWS cf * keymap_tables.MATRIX_COLS cf) (matrix_swap_state s) \<and>
     (\<forall>i < keymap_tables.MATRIX_ROWS cf * keymap_tables.MATRIX_COLS cf. \<not> swap_bit (matrix_swap_state s) i)"

definition plain_state ::
    "('h, 'c) actions_config_scheme \<Rightarrow> (nat \<Rightarrow> nat \<Rightarrow> bool) \<Rightarrow> 'h action_vars_scheme \<Rightarrow> bool" where
  "plain_state cf down s \<longleftrightarrow> plain_rest cf s \<and> buffer_shows cf down s \<and> host_current s"

text \<open>The hooks of the keyboard and the keymap do what the weak functions do: they look the keycode up, or nothing.\<close>

definition plain_hook ::
    "('h, 'c) actions_config_scheme \<Rightarrow> (keyrecord_t \<Rightarrow> 'h action_vars_scheme \<Rightarrow> bool \<times> 'h action_vars_scheme) \<Rightarrow> bool" where
  "plain_hook cf f \<longleftrightarrow> (\<forall>r s. f r s = (True, s) \<or> f r s = (True, snd (get_event_keycode cf (event r) True s)))"

definition plain_config :: "('h, 'c) tapping_config_scheme \<Rightarrow> bool" where
  "plain_config cf \<longleftrightarrow> plain_keymap cf \<and> host_driver cf \<and> ONESHOT_TIMEOUT cf = 0 \<and> \<not> RETRO_TAPPING cf \<and>
     plain_hook cf (process_record_quantum cf) \<and> plain_hook cf (pre_process_record_quantum cf) \<and>
     (\<forall>r s. post_process_record_quantum cf r s = s)"

lemma plain_rest_behind: "plain_rest cf (behind_report s) = plain_rest cf s"
  by (simp add: plain_rest_def behind_report_def no_other_mods_def cache_ok_def read_source_layers_cache_def)

lemma plain_rest_eq: "behind_report s' = behind_report s \<Longrightarrow> plain_rest cf s' = plain_rest cf s"
  by (metis plain_rest_behind)

lemma layer_search_0: "layer_search cf c 1 key is = 0"
proof (induction "is")
  case (Cons i "is")
  have "(1 :: u16) AND push_bit i 1 \<noteq> 0 \<Longrightarrow> i = 0"
    by (simp add: bit_1_iff)
  then show ?case
    using Cons.IH by auto
qed simp

definition pos :: "nat \<Rightarrow> nat \<Rightarrow> keypos_t" where
  "pos row col = \<lparr>kp_col = of_nat col, kp_row = of_nat row\<rparr>"

lemma plain_pos:
  assumes "plain_keymap cf" "row < keymap_tables.MATRIX_ROWS cf" "col < keymap_tables.MATRIX_COLS cf"
  shows "unat (kp_row (pos row col)) = row" "unat (kp_col (pos row col)) = col" "in_matrix cf (pos row col)"
    "cached_key cf (pos row col)" "keymap_key_to_keycode cf 0 (pos row col) = keymaps cf 0 row col"
proof -
  have "row < 256" "col < 256"
    using assms by (simp_all add: plain_keymap_def)
  then show u: "unat (kp_row (pos row col)) = row" "unat (kp_col (pos row col)) = col"
    by (simp_all add: pos_def unat_of_nat)
  then show "in_matrix cf (pos row col)"
    using assms(2,3) by (simp add: in_matrix_def)
  then show "cached_key cf (pos row col)"
    by (simp add: cached_key_def)
  show "keymap_key_to_keycode cf 0 (pos row col) = keymaps cf 0 row col"
    using assms u by (simp add: keymap_key_to_keycode_def keycode_at_keymap_location_def plain_keymap_def)
qed

lemma plain_cache:
  assumes "in_matrix cf key" "plain_state cf down s"
  shows "plain_state cf down (update_source_layers_cache cf key 0 s)"
proof -
  have key: "cached_key cf key"
    using assms(1) by (simp add: cached_key_def)
  have ok: "cache_ok cf s"
    using assms(2) by (simp add: plain_state_def plain_rest_def)
  have "read_source_layers_cache cf (update_source_layers_cache cf key 0 s) j = 0" if "in_matrix cf j" for j
    using source_cache.get_put [OF ok key, of j 0] assms(2) that
    by (simp add: cached_key_def layer_fits_def plain_state_def plain_rest_def)
  moreover have "cache_ok cf (update_source_layers_cache cf key 0 s)"
    by (rule source_cache.ok_put [OF ok key])
  ultimately show ?thesis
    using assms(2) unfolding plain_state_def plain_rest_def
    by (auto simp: cache_in_matrix [OF assms(1)] buffer_shows_def host_current_def no_other_mods_def host_synced_def use_nkro_def)
qed

lemma plain_lookup:
  assumes "plain_rest cf s"
  shows "layer_switch_get_layer cf s key = 0"
  using assms layer_search_0 by (simp add: layer_switch_get_layer_def plain_rest_def)

lemma plain_event_keycode:
  assumes "in_matrix cf (ev_key ev)" "plain_state cf down s"
  shows "plain_state cf down (snd (get_event_keycode cf ev b s))"
  using assms plain_cache [OF assms] plain_lookup [of cf s] by (simp add: get_event_keycode_def plain_state_def Let_def)

lemma plain_hook_state:
  assumes "plain_hook cf f" "in_matrix cf (ev_key (event r))" "plain_state cf down s"
  shows "\<exists>s'. f r s = (True, s') \<and> plain_state cf down s'"
  using assms(1) assms(3) plain_event_keycode [OF assms(2,3), of True] unfolding plain_hook_def by metis

lemma plain_action:
  assumes "plain_keymap cf" "row < keymap_tables.MATRIX_ROWS cf" "col < keymap_tables.MATRIX_COLS cf" "plain_state cf down s"
  shows "\<exists>s'. store_or_get_action cf p (pos row col) s = (keymaps cf 0 row col, s') \<and> plain_state cf down s'"
proof -
  note pos = plain_pos [OF assms(1-3)]
  have s: "plain_rest cf s" "\<not> disable_action_cache s" "read_source_layers_cache cf s (pos row col) = 0"
    "keycode_config (keymap_config s) (keymaps cf 0 row col) = keymaps cf 0 row col"
    using assms(2-4) pos(3) by (simp_all add: plain_state_def plain_rest_def)
  have "plain_code (keymaps cf 0 row col)"
    using assms(1-3) by (simp add: plain_keymap_def)
  then have act: "action_for_key cf (keymap_config s) 0 (pos row col) = keymaps cf 0 row col"
    by (simp add: action_for_key_def pos(5) action_for_plain s(4))
  have "keymap_config (update_source_layers_cache cf (pos row col) 0 s) = keymap_config s"
    by (simp add: cache_in_matrix [OF pos(3)])
  then show ?thesis
    using s(2,3) plain_lookup [OF s(1)] act plain_cache [OF pos(3) assms(4)] assms(4)
    by (cases p) (auto simp: store_or_get_action_def Let_def)
qed

text \<open>The action of a plain key presses or releases its code.\<close>

lemma plain_body:
  assumes "plain_code a" "oneshot_layer_data s = 0" "swap_hands_oneshot s = SHO_OFF" "\<not> RETRO_TAPPING cf"
    and "no_other_mods s"
  shows "process_action_body cf r a s =
    (r, False, (if ev_pressed (event r) then register_code cf (ucast a) s else unregister_code cf (ucast a) s))"
proof -
  define s1 where "s1 = (if ev_pressed (event r) then register_code cf (ucast a) s else unregister_code cf (ucast a) s)"
  note a = plain_code_byte [OF assms(1)]
  have "behind_report s1 = behind_report s"
    using behind_register [OF assms(5,1), of cf] by (simp add: s1_def)
  then have "swap_hands_oneshot s1 = swap_hands_oneshot s"
    by (drule_tac arg_cong [of _ _ swap_hands_oneshot]) (simp add: behind_report_def)
  then have "use_oneshot_swaphands cf s1 = s1"
    using assms(3) by (simp add: use_oneshot_swaphands_def)
  moreover have "\<not> ends_oneshot_layer r a s"
    using assms(2) by (simp add: ends_oneshot_layer_def is_oneshot_layer_active_def get_oneshot_layer_state_def)
  moreover have "action_switch cf r a False s = (r, False, s1)"
    by (simp add: action_switch_def a action_mods_def process_key_action_def s1_def)
  moreover have "update_layer_leds a s1 = s1" "process_retro_tapping cf p n r a s1 = s1" for p n
    using assms(4) by (simp_all add: update_layer_leds_def a process_retro_tapping_def)
  ultimately show ?thesis
    unfolding s1_def [symmetric] by (simp add: process_action_body_def)
qed

text \<open>One event.\<close>

lemma plain_record:
  assumes "plain_config cf" "row < keymap_tables.MATRIX_ROWS cf" "col < keymap_tables.MATRIX_COLS cf" "plain_state cf down s"
    and "ev_key (event r) = pos row col" "\<not> IS_NOEVENT (event r)"
  shows "plain_state cf (set_down row col (ev_pressed (event r)) down) (snd (process_record cf r s))"
proof -
  have cf: "plain_keymap cf" "host_driver cf" "\<not> RETRO_TAPPING cf" "plain_hook cf (process_record_quantum cf)"
    "\<And>r s. post_process_record_quantum cf r s = s"
    using assms(1) by (simp_all add: plain_config_def)
  define p where "p = ev_pressed (event r)"
  have plain: "plain_code (keymaps cf 0 row col)"
    using cf(1) assms(2,3) by (simp add: plain_keymap_def)
  have key: "in_matrix cf (ev_key (event r))"
    using plain_pos(3) [OF cf(1) assms(2,3)] assms(5) by simp
  obtain s1 where s1: "process_record_quantum cf r s = (True, s1)" "plain_state cf down s1"
    using plain_hook_state [OF cf(4) key assms(4)] by blast
  obtain s2 where s2: "store_or_get_action cf p (pos row col) s1 = (keymaps cf 0 row col, s2)" "plain_state cf down s2"
    using plain_action [OF cf(1) assms(2,3) s1(2)] by blast
  define s3 where "s3 = (if p then register_code cf (ucast (keymaps cf 0 row col)) s2 else unregister_code cf (ucast (keymaps cf 0 row col)) s2)"
  have rest: "plain_rest cf s2" "buffer_shows cf down s2" "host_current s2" "no_other_mods s2" "oneshot_layer_data s2 = 0"
    "swap_hands_oneshot s2 = SHO_OFF"
    using s2(2) by (simp_all add: plain_state_def plain_rest_def)
  have body: "process_action_body cf r (keymaps cf 0 row col) s2 = (r, False, s3)"
    using plain_body [OF plain rest(5,6) cf(3) rest(4), of r] by (simp add: s3_def p_def)
  have "process_record cf r s = (r, s3)"
    using assms(6) by (subst process_record.simps) (simp add: s1(1) assms(5) s2(1) [unfolded p_def] body cf(5))
  moreover have "plain_rest cf s3"
    by (rule plain_rest_eq [THEN iffD2, OF _ rest(1)]) (simp add: s3_def behind_register [OF rest(4) plain])
  moreover have "buffer_shows cf (set_down row col p down) s3 \<and> host_current s3"
    using press_plain [OF cf(1) assms(2,3) cf(2) rest(2,3,4)] release_plain [OF cf(1) assms(2,3) cf(2) rest(2,3,4)]
    by (cases p) (simp_all add: s3_def)
  ultimately show ?thesis
    by (simp add: plain_state_def p_def)
qed

lemma plain_prepare:
  assumes "plain_config cf" "row < keymap_tables.MATRIX_ROWS cf" "col < keymap_tables.MATRIX_COLS cf" "plain_state cf down s"
  shows "\<exists>s'. action_exec_prepare cf (MAKE_KEYEVENT (of_nat row) (of_nat col) p now) s =
      (record_of_event (MAKE_KEYEVENT (of_nat row) (of_nat col) p now), s') \<and> plain_state cf down s'"
proof -
  define e where "e = MAKE_KEYEVENT (of_nat row) (of_nat col) p now"
  have cf: "plain_keymap cf" "ONESHOT_TIMEOUT cf = 0" "\<not> RETRO_TAPPING cf"
    using assms(1) by (simp_all add: plain_config_def)
  have e: "ev_key e = pos row col" "ev_pressed e = p" "IS_EVENT e" "matrix_event cf e"
    using plain_pos(1,2) [OF cf(1) assms(2,3)] assms(2,3)
    by (simp_all add: e_def MAKE_KEYEVENT_def MAKE_EVENT_def pos_def IS_EVENT_def matrix_event_def IS_KEYEVENT_def)
  define s1 where "s1 = (if p then clear_weak_mods s else s)"
  have s1: "plain_state cf down s1"
    using assms(4) by (auto simp: s1_def clear_weak_mods_def plain_state_def plain_rest_def no_other_mods_def buffer_shows_def
        host_current_def host_synced_def use_nkro_def cache_ok_def read_source_layers_cache_def)
  define n where "n = keymap_tables.MATRIX_ROWS cf * keymap_tables.MATRIX_COLS cf"
  have i: "matrix_index cf (ev_key e) < n"
    using matrix_index_less [OF e(4)] by (simp add: n_def)
  have swap: "swap_shape n (matrix_swap_state s1)" "\<forall>i < n. \<not> swap_bit (matrix_swap_state s1) i" "\<not> swap_hands s1"
    using s1 by (simp_all add: plain_state_def plain_rest_def n_def)
  define st where "st = set_swap_hands_state (matrix_index cf (ev_key e)) (matrix_swap_state s1) False"
  have st: "swap_shape n st" "\<forall>i < n. \<not> swap_bit st i"
    using swap(1,2) i swap_state.ok_put [OF swap(1) i] swap_state.get_put [OF swap(1) i] by (auto simp: st_def)
  have "process_hand_swap cf e s1 = (e, s1\<lparr>matrix_swap_state := st\<rparr>)"
    using e(4) swap(2,3) i
    by (simp add: process_hand_swap_def matrix_event_def matrix_index_def Let_def should_swap_hands_def st_def swap_bit_def)
  then have "action_exec_prepare cf e s = (record_of_event e, s1\<lparr>matrix_swap_state := st\<rparr>)"
    using e(2,3) cf(2,3) by (simp add: action_exec_prepare_def s1_def [symmetric])
  moreover have "plain_state cf down (s1\<lparr>matrix_swap_state := st\<rparr>)"
    using s1 st by (auto simp: plain_state_def plain_rest_def no_other_mods_def buffer_shows_def host_current_def host_synced_def
        use_nkro_def cache_ok_def read_source_layers_cache_def n_def)
  ultimately show ?thesis
    by (auto simp: e_def)
qed

definition plain_tapping ::
    "('h, 'c) tapping_config_scheme \<Rightarrow> (nat \<Rightarrow> nat \<Rightarrow> bool) \<Rightarrow> 'h action_vars_scheme tapping_vars \<Rightarrow> bool" where
  "plain_tapping cf down t \<longleftrightarrow> IS_NOEVENT (event (tapping_key t)) \<and> waiting_buffer_head t = waiting_buffer_tail t \<and>
     plain_state cf down (tworld t)"

lemma plain_not_tap:
  assumes "plain_config cf" "row < keymap_tables.MATRIX_ROWS cf" "col < keymap_tables.MATRIX_COLS cf" "plain_state cf down s"
    and "ev_key (event r) = pos row col"
  shows "\<not> is_tap_record cf r s"
proof -
  have cf: "plain_keymap cf"
    using assms(1) by (simp add: plain_config_def)
  have plain: "plain_code (keymaps cf 0 row col)" "keycode_config (keymap_config s) (keymaps cf 0 row col) = keymaps cf 0 row col"
    using cf assms(2-4) by (simp_all add: plain_keymap_def plain_state_def plain_rest_def)
  have "layer_switch_get_action cf s (pos row col) = keymaps cf 0 row col"
    using assms(4) plain_pos(5) [OF cf assms(2,3)]
    by (simp add: layer_switch_get_action_def plain_lookup plain_state_def action_for_key_def action_for_plain [OF plain])
  then show ?thesis
    by (simp add: is_tap_record_def assms(5) is_tap_action_def plain_code_byte(2) [OF plain(1)])
qed

lemma plain_exec:
  assumes "plain_config cf" "row < keymap_tables.MATRIX_ROWS cf" "col < keymap_tables.MATRIX_COLS cf" "plain_tapping cf down t"
  shows "plain_tapping cf (set_down row col p down) (action_exec cf (MAKE_KEYEVENT (of_nat row) (of_nat col) p now) t)"
proof -
  define r where "r = record_of_event (MAKE_KEYEVENT (of_nat row) (of_nat col) p now)"
  have t: "IS_NOEVENT (event (tapping_key t))" "waiting_buffer_head t = waiting_buffer_tail t" "plain_state cf down (tworld t)"
    using assms(4) by (simp_all add: plain_tapping_def)
  have r: "ev_key (event r) = pos row col" "ev_pressed (event r) = p" "\<not> IS_NOEVENT (event r)" "IS_EVENT (event r)"
    by (simp_all add: r_def MAKE_KEYEVENT_def MAKE_EVENT_def pos_def IS_NOEVENT_def IS_EVENT_def)
  have cf: "plain_hook cf (pre_process_record_quantum cf)" "plain_keymap cf"
    using assms(1) by (simp_all add: plain_config_def)
  obtain s1 where s1: "action_exec_prepare cf (MAKE_KEYEVENT (of_nat row) (of_nat col) p now) (tworld t) = (r, s1)"
      "plain_state cf down s1"
    using plain_prepare [OF assms(1-3) t(3)] unfolding r_def by blast
  have key: "in_matrix cf (ev_key (event r))"
    using plain_pos(3) [OF cf(2) assms(2,3)] r(1) by simp
  obtain s2 where s2: "pre_process_record_quantum cf r s1 = (True, s2)" "plain_state cf down s2"
    using plain_hook_state [OF cf(1) key s1(2)] by blast
  have "action_tapping_process (actions_env cf) r (t\<lparr>tworld := s2\<rparr>) = t\<lparr>tworld := snd (process_record cf r s2)\<rparr>"
    using t(1,2) r plain_not_tap [OF assms(1-3) s2(2) r(1)]
    by (simp add: action_tapping_process_def process_tapping_def process_reset_def pass_record_def actions_env_def Let_def split_beta)
  then have "action_exec cf (MAKE_KEYEVENT (of_nat row) (of_nat col) p now) t = t\<lparr>tworld := snd (process_record cf r s2)\<rparr>"
    by (simp add: action_exec_def s1(1) s2(1) r(3))
  then show ?thesis
    using plain_record [OF assms(1-3) s2(2) r(1,3)] t(1,2) r(2) by (simp add: plain_tapping_def)
qed

lemma plain_tick:
  assumes "plain_config cf" "plain_tapping cf down t"
  shows "action_exec cf (MAKE_TICK_EVENT now) t = t"
proof -
  have "\<not> IS_EVENT (MAKE_TICK_EVENT now)" "IS_NOEVENT (MAKE_TICK_EVENT now)" "\<not> ev_pressed (MAKE_TICK_EVENT now)"
    by (simp_all add: MAKE_TICK_EVENT_def MAKE_EVENT_def IS_EVENT_def IS_NOEVENT_def)
  then show ?thesis
    using assms by (simp add: action_exec_def action_exec_prepare_def plain_config_def plain_tapping_def
        action_tapping_process_def process_tapping_def process_reset_def)
qed

section \<open>The log of the events is a ghost\<close>

definition unlog :: "('m, 'w \<times> keyevent_t list) keyboard \<Rightarrow> ('m, 'w) keyboard" where
  "unlog s = \<lparr>matrix_previous = matrix_previous s, last_tick = last_tick s, world = fst (world s)\<rparr>"

lemma unlog_simps [simp]:
  "matrix_previous (unlog s) = matrix_previous s" "last_tick (unlog s) = last_tick s" "world (unlog s) = fst (world s)"
  by (simp_all add: unlog_def)

lemma logged_fst [simp]:
  "fst (kb_action_exec (Keyboard.logged env) ev v) = kb_action_exec env ev (fst v)"
  "fst (kb_switch_events (Keyboard.logged env) row col p v) = kb_switch_events env row col p (fst v)"
  "kb_real_key (Keyboard.logged env) row col v = kb_real_key env row col (fst v)"
  by (simp_all add: Keyboard.logged_def split_beta)

lemma logged_ghost [simp]: "has_ghost_in_row (Keyboard.logged env) v matrix row w = has_ghost_in_row env (fst v) matrix row w"
  by (simp add: has_ghost_iff)

lemma unlog_keys:
  "fst (fold (matrix_key (Keyboard.logged env) now p row cur ch) cols v) = fold (matrix_key env now p row cur ch) cols (fst v)"
  by (induction cols arbitrary: v) (simp_all add: matrix_key_def Let_def)

lemma unlog_rows:
  "unlog (fold (matrix_row (Keyboard.logged env) now p matrix) rows s) = fold (matrix_row env now p matrix) rows (unlog s)"
proof (induction rows arbitrary: s)
  case (Cons row rows)
  have "unlog (matrix_row (Keyboard.logged env) now p matrix row s) = matrix_row env now p matrix row (unlog s)"
    by (simp add: matrix_row_def Let_def unlog_keys unlog_def)
  then show ?case
    using Cons.IH by simp
qed simp

lemma unlog_tick: "unlog (generate_tick_event (Keyboard.logged env) now s) = generate_tick_event env now (unlog s)"
  by (simp add: generate_tick_event_def unlog_def)

lemma unlog_task: "unlog (snd (matrix_task (Keyboard.logged env) now matrix s)) = snd (matrix_task env now matrix (unlog s))"
  by (simp add: matrix_task_def Let_def unlog_tick unlog_rows)

lemma unlog_scans:
  "unlog (snd (keyboard_scans (Keyboard.logged env) deb now raw scans (d, s))) = snd (keyboard_scans env deb now raw scans (d, unlog s))"
proof (induction scans arbitrary: now raw d s)
  case (Cons scan scans)
  then show ?case
    by (cases scan) (simp add: Let_def unlog_task)
qed simp

text \<open>What every event keeps, the task keeps.\<close>

lemma matrix_task_keeps:
  assumes tick: "\<And>t v. Q v \<Longrightarrow> Q (kb_action_exec env (MAKE_TICK_EVENT t) v)"
    and key: "\<And>row col p v. row < keyboard_env.MATRIX_ROWS env \<Longrightarrow> col < keyboard_env.MATRIX_COLS env \<Longrightarrow> Q v \<Longrightarrow>
      Q (kb_switch_events env row col p (kb_action_exec env (MAKE_KEYEVENT (of_nat row) (of_nat col) p now) v)) \<and>
      Q (kb_switch_events env row col p v)"
    and "Q (world s)"
  shows "Q (world (snd (matrix_task env now matrix s)))"
proof -
  have row: "Q (world (matrix_row env now p matrix row s))" if "row < keyboard_env.MATRIX_ROWS env" "Q (world s)" for row p s
  proof -
    have "Q (fold (matrix_key env now p row cur ch) [0..<n] (world s))" if "n \<le> keyboard_env.MATRIX_COLS env" for cur ch :: "'b word" and n
      using that
    proof (induction n)
      case (Suc n)
      then show ?case
        using key [of row n, OF \<open>row < keyboard_env.MATRIX_ROWS env\<close>] by (simp add: matrix_key_def Let_def)
    qed (use \<open>Q (world s)\<close> in simp)
    then show ?thesis
      using that(2) by (simp add: matrix_row_def Let_def)
  qed
  have "Q (world (fold (matrix_row env now p matrix) [0..<n] s))" if "n \<le> keyboard_env.MATRIX_ROWS env" for p n
    using that by (induction n) (use assms(3) row in simp_all)
  then show ?thesis
    using assms(3) tick by (simp add: matrix_task_def Let_def generate_tick_event_def)
qed

section \<open>From the switches to the host\<close>

definition in_step :: "('h, 'c) tapping_config_scheme \<Rightarrow> 'h action_vars_scheme tapping_vars \<times> keyevent_t list \<Rightarrow> bool" where
  "in_step cf v \<longleftrightarrow> (\<exists>down. plain_tapping cf down (fst v) \<and>
     (\<forall>row < keymap_tables.MATRIX_ROWS cf. \<forall>col < keymap_tables.MATRIX_COLS cf. down row col \<longleftrightarrow> key_down row col (snd v)))"

lemma firmware_simps [simp]:
  "keyboard_env.MATRIX_ROWS (keyboard_firmware cf) = keymap_tables.MATRIX_ROWS cf"
  "keyboard_env.MATRIX_COLS (keyboard_firmware cf) = keymap_tables.MATRIX_COLS cf"
  "kb_action_exec (keyboard_firmware cf) = action_exec cf" "kb_switch_events (keyboard_firmware cf) row col p t = t"
  "\<not> MATRIX_HAS_GHOST (keyboard_firmware cf)" "kb_matrix_can_read (keyboard_firmware cf) t"
  "kb_should_process_keypress (keyboard_firmware cf) t"
  by (simp_all add: keyboard_firmware_def keyboard_env.make_def)

lemma logged_firmware:
  "kb_action_exec (Keyboard.logged (keyboard_firmware cf)) ev v = (action_exec cf ev (fst v), snd v @ [ev])"
  "kb_switch_events (Keyboard.logged (keyboard_firmware cf)) row col p v = v"
  by (simp_all add: prod_eq_iff)

lemma task_in_step:
  assumes "plain_config cf" "in_step cf (world s)"
  shows "in_step cf (world (snd (matrix_task (Keyboard.logged (keyboard_firmware cf)) now matrix s)))"
proof (rule matrix_task_keeps [where Q = "in_step cf", OF _ _ assms(2)])
  have plain: "plain_keymap cf"
    using assms(1) by (simp add: plain_config_def)
  fix v assume "in_step cf v"
  then obtain down where down: "plain_tapping cf down (fst v)"
      "\<And>row col. row < keymap_tables.MATRIX_ROWS cf \<Longrightarrow> col < keymap_tables.MATRIX_COLS cf \<Longrightarrow> down row col \<longleftrightarrow> key_down row col (snd v)"
    unfolding in_step_def by blast
  show "in_step cf (kb_action_exec (Keyboard.logged (keyboard_firmware cf)) (MAKE_TICK_EVENT t) v)" for t
    using down plain_tick [OF assms(1) down(1)] by (auto simp: in_step_def logged_firmware key_down_snoc not_key_tick)
  fix row col p
  assume "row < keyboard_env.MATRIX_ROWS (Keyboard.logged (keyboard_firmware cf))"
    "col < keyboard_env.MATRIX_COLS (Keyboard.logged (keyboard_firmware cf))"
  then have rc: "row < keymap_tables.MATRIX_ROWS cf" "col < keymap_tables.MATRIX_COLS cf"
    by simp_all
  have is_key: "is_key r c (MAKE_KEYEVENT (of_nat row) (of_nat col) p now) \<longleftrightarrow> r = row \<and> c = col"
    if "r < keymap_tables.MATRIX_ROWS cf" "c < keymap_tables.MATRIX_COLS cf" for r c
    using plain rc that by (intro is_key_event) (auto simp: plain_keymap_def)
  have "set_down row col p down r c \<longleftrightarrow> key_down r c (snd v @ [MAKE_KEYEVENT (of_nat row) (of_nat col) p now])"
    if "r < keymap_tables.MATRIX_ROWS cf" "c < keymap_tables.MATRIX_COLS cf" for r c
    using down(2) [OF that] is_key [OF that] by (simp add: key_down_snoc set_down_def MAKE_KEYEVENT_def MAKE_EVENT_def)
  then have "in_step cf (action_exec cf (MAKE_KEYEVENT (of_nat row) (of_nat col) p now) (fst v),
      snd v @ [MAKE_KEYEVENT (of_nat row) (of_nat col) p now])"
    using plain_exec [OF assms(1) rc down(1), of p now] unfolding in_step_def by auto
  then show "in_step cf (kb_switch_events (Keyboard.logged (keyboard_firmware cf)) row col p
      (kb_action_exec (Keyboard.logged (keyboard_firmware cf)) (MAKE_KEYEVENT (of_nat row) (of_nat col) p now) v)) \<and>
      in_step cf (kb_switch_events (Keyboard.logged (keyboard_firmware cf)) row col p v)"
    using \<open>in_step cf v\<close> by (simp add: logged_firmware)
qed

lemma scans_in_step:
  assumes "plain_config cf" "in_step cf (world s)"
  shows "in_step cf (world (snd (keyboard_scans (Keyboard.logged (keyboard_firmware cf)) deb now raw scans (d, s))))"
  using assms(2)
proof (induction scans arbitrary: now raw d s)
  case (Cons scan scans)
  then show ?case
    by (cases scan) (simp add: Let_def task_in_step [OF assms(1)])
qed simp

lemma host_shows_cong:
  assumes "\<And>row col. row < keymap_tables.MATRIX_ROWS t \<Longrightarrow> col < keymap_tables.MATRIX_COLS t \<Longrightarrow> down row col \<longleftrightarrow> down' row col"
  shows "host_shows t down es \<longleftrightarrow> host_shows t down' es"
proof -
  have "key_held t down k \<longleftrightarrow> key_held t down' k" for k
    using assms unfolding key_held_def by blast
  then show ?thesis
    by (simp add: host_shows_def)
qed

text \<open>The host at the end of the scans, on a keyboard that starts in the state \<open>t\<close>.\<close>

definition host_follows ::
    "('h, 'c) tapping_config_scheme \<Rightarrow> (u32 \<Rightarrow> 'r::len matrix \<Rightarrow> bool \<Rightarrow> 'd \<times> 'r matrix \<Rightarrow> bool \<times> 'd \<times> 'r matrix) \<Rightarrow> u32 \<Rightarrow>
     (nat \<times> 'r matrix) list \<Rightarrow> 'd \<Rightarrow> 'h action_vars_scheme tapping_vars \<Rightarrow> 'r matrix \<Rightarrow> bool" where
  "host_follows cf deb now scans d t raw \<longleftrightarrow>
    (let start = matrix_start (keymap_tables.MATRIX_ROWS cf);
         s = snd (keyboard_scans (keyboard_firmware cf) deb now start scans ((d, start), keyboard_start (keyboard_firmware cf) t))
     in host_shows cf (\<lambda>row col. bit (raw ! row) col) (out (tworld (world s))))"

lemma keys_reach_host:
  fixes raw :: "'r::len matrix"
  assumes "plain_config cf" "plain_tapping cf (\<lambda>row col. False) t" "keys_are (keyboard_firmware cf) deb now scans d t raw"
  shows "host_follows cf deb now scans d t raw"
proof -
  let ?start = "matrix_start (keymap_tables.MATRIX_ROWS cf) :: 'r matrix"
  define s where "s = snd (keyboard_scans (Keyboard.logged (keyboard_firmware cf)) deb now ?start scans
      ((d, ?start), keyboard_start (Keyboard.logged (keyboard_firmware cf)) (t, [])))"
  have "in_step cf (world (keyboard_start (Keyboard.logged (keyboard_firmware cf)) (t, [])))"
    using assms(2) by (auto simp: in_step_def keyboard_start_def key_down_def)
  then have "in_step cf (world s)"
    unfolding s_def by (rule scans_in_step [OF assms(1)])
  then obtain down where down: "plain_tapping cf down (fst (world s))"
      "\<And>row col. row < keymap_tables.MATRIX_ROWS cf \<Longrightarrow> col < keymap_tables.MATRIX_COLS cf \<Longrightarrow> down row col \<longleftrightarrow> key_down row col (snd (world s))"
    unfolding in_step_def by blast
  have host: "host_shows cf down (out (tworld (fst (world s))))"
    using down(1) by (simp add: plain_tapping_def plain_state_def buffer_shows_host)
  have "host_shows cf down (out (tworld (fst (world s)))) \<longleftrightarrow>
      host_shows cf (\<lambda>row col. bit (raw ! row) col) (out (tworld (fst (world s))))"
    by (rule host_shows_cong) (use down(2) assms(3) in \<open>simp add: keys_are_def Let_def s_def\<close>)
  with host have "host_shows cf (\<lambda>row col. bit (raw ! row) col) (out (tworld (fst (world s))))"
    by simp
  moreover have "fst (world s) = world (unlog s)"
    by simp
  moreover have "unlog s = snd (keyboard_scans (keyboard_firmware cf) deb now ?start scans ((d, ?start), keyboard_start (keyboard_firmware cf) t))"
    unfolding s_def unlog_scans by (simp add: keyboard_start_def unlog_def)
  ultimately show ?thesis
    by (simp add: host_follows_def Let_def)
qed

text \<open>
  (C1)
  The host sees what is pressed: on a keyboard of plain keys and modifiers, without ghosts and with the NKRO report, from
  power-up and after any scans, once the switches have stayed the same for the debounce time, the keys and modifiers in the
  last report sent are those of exactly the switches that are closed, with each of the debounce algorithms.
\<close>

theorem switches_reach_host:
  fixes scans :: "(nat \<times> 'r::len matrix) list" and cf :: "('h, 'c) tapping_config_scheme" and t :: "'h action_vars_scheme tapping_vars"
  assumes plain: "plain_config cf" "plain_tapping cf (\<lambda>row col. False) t"
    and dcf: "0 < DEBOUNCE dcf" "DEBOUNCE dcf \<le> 255"
    and scans: "valid_scans (keys_ok (keymap_tables.MATRIX_ROWS cf) (debounce_config.MATRIX_COLS dcf)) 65535 scans"
    and gaps: "\<forall>gap \<in> set gaps. gap \<le> 65535" "DEBOUNCE dcf \<le> sum_list gaps"
  defines "raw \<equiv> final_raw (matrix_start (keymap_tables.MATRIX_ROWS cf)) scans"
  defines "all \<equiv> scans @ map (\<lambda>gap. (gap, raw)) gaps"
  shows "host_follows cf (debounce_sym_defer_g dcf) now all debounce_init_g t raw \<and>
    host_follows cf (debounce_sym_defer_pr dcf) now all (debounce_init_pr now (keymap_tables.MATRIX_ROWS cf)) t raw \<and>
    host_follows cf (debounce_sym_eager_pr dcf) now all (debounce_init_pr_eager (keymap_tables.MATRIX_ROWS cf)) t raw \<and>
    host_follows cf (debounce_sym_defer_pk dcf) now all (debounce_init_pk dcf (keymap_tables.MATRIX_ROWS cf)) t raw \<and>
    host_follows cf (debounce_sym_eager_pk dcf) now all (debounce_init_pk dcf (keymap_tables.MATRIX_ROWS cf)) t raw \<and>
    (\<forall>G. (\<forall>(gap, _) \<in> set all. gap \<le> G) \<and> G \<le> 65535 \<and> 2 * DEBOUNCE dcf + G \<le> sum_list gaps \<longrightarrow>
      host_follows cf (debounce_asym_eager_defer_pk dcf) now all (debounce_init_asym dcf junk (keymap_tables.MATRIX_ROWS cf)) t raw)"
proof -
  note settles = algorithms_settle [OF dcf scans gaps, folded raw_def, folded all_def, of now junk]
  have env: "board_ok (keyboard_firmware cf)" "\<not> MATRIX_HAS_GHOST (keyboard_firmware cf)"
    "\<forall>w. kb_matrix_can_read (keyboard_firmware cf) w"
    using plain(1) by (simp_all add: board_ok_def plain_config_def plain_keymap_def)
  note reach = keys_reach_host [OF plain keys_are_settled [OF env, unfolded firmware_simps]]
  show ?thesis
    using settles by (intro conjI allI impI reach; blast)
qed

text \<open>A board of two rows of two keys: A and the left shift, nothing and B.\<close>

definition plain_example :: "unit tapping_config" where
  "plain_example = example_tapping_config\<lparr>keymaps := \<lambda>layer row col.
     if layer = 0 then (if row = 0 then (if col = 0 then 0x04 else 0xE1) else (if col = 0 then 0 else 0x05)) else 0x01\<rparr>"

definition plain_start :: "action_vars tapping_vars" where
  "plain_start = initial_tapping (example_action_vars\<lparr>layer_state := 0, keymap_config := example_keymap_config\<lparr>nkro := True\<rparr>\<rparr>)"

lemmas plain_example_defs = plain_example_def example_tapping_config_def actions_config.extend_def actions_example mods_example

lemma less_2_cases_all: "(\<forall>i < 2. P i) \<longleftrightarrow> P 0 \<and> P (1 :: nat)"
  by (auto simp: less_2_cases_iff)

lemma plain_example_keys: "keymap_tables.MATRIX_ROWS plain_example = 2" "keymap_tables.MATRIX_COLS plain_example = 2"
  "keymaps plain_example 0 = (\<lambda>row col. if row = 0 then (if col = 0 then 0x04 else 0xE1) else (if col = 0 then 0 else 0x05))"
  by (simp_all add: plain_example_defs)

lemma plain_example_config: "plain_config plain_example"
proof -
  have "plain_keymap plain_example"
    by (simp add: plain_keymap_def plain_example_keys less_2_cases_all plain_code_def IS_BASIC_KEYCODE_def IS_MODIFIER_KEYCODE_def)
      (simp add: plain_example_defs)
  then show ?thesis
    by (simp add: plain_config_def) (simp add: plain_example_defs plain_hook_def)
qed

lemma plain_example_start: "plain_tapping plain_example (\<lambda>row col. False) plain_start"
proof -
  define s where "s = example_action_vars\<lparr>layer_state := 0, keymap_config := example_keymap_config\<lparr>nkro := True\<rparr>\<rparr>"
  have size: "keymap_tables.MATRIX_ROWS plain_example * keymap_tables.MATRIX_COLS plain_example \<le> 65536"
    by (simp add: plain_example_keys)
  have cells: "source_layers_cache s = [[0, 0, 0, 0]]" "matrix_swap_state s = [0]"
    by (simp_all add: s_def plain_example_defs)
  have cache: "read_source_layers_cache plain_example s key = 0" if "in_matrix plain_example key" for key
  proof -
    have four: "[0, 0, 0, 0 :: u8] = replicate 4 0"
      by (simp add: numeral_eq_Suc)
    have "unat (matrix_entry plain_example key) < 4"
      using matrix_entry_less(2) [OF that size] by (simp add: plain_example_keys)
    then have "\<not> bit (read_source_layers_cache plain_example s key) b" for b
      by (auto simp: cache_in_matrix(2) [OF that] read_bit cells four)
    then show ?thesis
      by (simp add: bit_word_eqI)
  qed
  have "plain_rest plain_example s"
    unfolding plain_rest_def plain_example_keys cells
    using cache
    by (simp add: less_2_cases_all swap_shape_def swap_bit_def)
      (simp add: s_def plain_example_defs no_other_mods_def cache_ok_def cache_shape_def keycode_config_def)
  moreover have "buffer_shows plain_example (\<lambda>row col. False) s"
    by (simp add: buffer_shows_def key_held_def) (simp add: s_def plain_example_defs use_nkro_def report_inv_empty not_pressed_empty)
  moreover have "host_current s"
    by (simp add: s_def plain_example_defs host_current_def host_synced_def host_view_def empty_report_def)
  ultimately show ?thesis
    by (simp add: plain_tapping_def plain_state_def plain_start_def initial_tapping_def s_def)
qed

theorem switches_reach_host_witness:
  "host_follows plain_example (debounce_sym_eager_pk board) 0 [(1, [1, 0 :: 8 word]), (1, [3, 2]), (5, [3, 2])]
     (debounce_init_pk board 2) plain_start [3, 2]"
proof -
  have rows: "keymap_tables.MATRIX_ROWS plain_example = 2"
    by (rule plain_example_keys)
  have gaps: "\<forall>gap \<in> set [5]. gap \<le> (65535 :: nat)" "DEBOUNCE board \<le> sum_list [5]"
    by (simp_all add: board_def)
  have valid: "valid_scans (keys_ok (keymap_tables.MATRIX_ROWS plain_example) (debounce_config.MATRIX_COLS board)) 65535
      [(1, [1, 0]), (1, [3, 2 :: 8 word])]"
    by (simp add: rows valid_scans_def keys_ok_eval board_def)
  have raw: "final_raw (matrix_start (keymap_tables.MATRIX_ROWS plain_example)) [(1, [1, 0]), (1, [3, 2 :: 8 word])] = [3, 2]"
    by (simp add: final_raw_def)
  from switches_reach_host [OF plain_example_config plain_example_start board_debounce(2,3) valid gaps, unfolded raw, unfolded rows, of 0 True]
  show ?thesis
    by simp
qed

end
