(* ===== verification/Encoder.thy ===== *)
theory Encoder
  imports Events "HOL-Library.Signed_Division"
begin

text \<open>
  quantum/encoder.c: rotary encoders, whose two pins make four quarter steps of a Gray code, and the transfer of their
  turns between the halves of a split keyboard.

  What the rest of the firmware does is an environment over a state \<open>'w\<close>.  The pins of the encoders of this half are the
  function \<open>pads\<close> of a scan.  Without \<open>SPLIT_KEYBOARD\<close> all encoders are on the left: \<open>NUM_ENCODERS_RIGHT\<close> is 0 and
  \<open>isLeftHand\<close> holds.  \<open>encoder_resolutions\<close> has an entry for every encoder, the same for all of them without
  \<open>ENCODER_RESOLUTIONS\<close>.  The keycodes of \<open>encoder_update_kb\<close> are those of \<open>EXTRAKEY_ENABLE\<close>.
\<close>

record encoder_config =
  SPLIT_KEYBOARD :: bool
  isLeftHand :: bool
  NUM_ENCODERS_LEFT :: nat
  NUM_ENCODERS_RIGHT :: nat
  encoder_resolutions :: "u8 list"
  ENCODER_DEFAULT_POS :: "u8 option"
  ENCODER_DIRECTION_FLIP :: bool
  ENCODER_MAP :: bool
  ENCODER_MAP_KEY_DELAY :: u16

record 'w encoder_env =
  en_timer :: "'w \<Rightarrow> u16"
  en_action_exec :: "keyevent_t \<Rightarrow> 'w \<Rightarrow> 'w"
  en_wait_ms :: "u16 \<Rightarrow> 'w \<Rightarrow> 'w"
  en_tap_code_delay :: "u8 \<Rightarrow> u16 \<Rightarrow> 'w \<Rightarrow> 'w"
  encoder_update_user :: "u8 \<Rightarrow> bool \<Rightarrow> 'w \<Rightarrow> bool \<times> 'w"
  should_process_encoder :: "'w \<Rightarrow> bool"
  last_encoder_activity_trigger :: "'w \<Rightarrow> 'w"

record 'w encoder_vars =
  encoder_state :: "u8 list"
  encoder_pulses :: "u8 list"
  encoder_value :: "u8 list"
  enc_world :: 'w

definition encoder_LUT :: "u8 list" where
  "encoder_LUT = [0, - 1, 1, 0, 1, 0, 0, - 1, - 1, 0, 0, 1, 0, 1, - 1, 0]"

definition ENCODER_CLOCKWISE :: "encoder_config \<Rightarrow> bool" where
  "ENCODER_CLOCKWISE cf \<longleftrightarrow> \<not> ENCODER_DIRECTION_FLIP cf"

definition ENCODER_COUNTER_CLOCKWISE :: "encoder_config \<Rightarrow> bool" where
  "ENCODER_COUNTER_CLOCKWISE cf \<longleftrightarrow> ENCODER_DIRECTION_FLIP cf"

definition NUM_ENCODERS :: "encoder_config \<Rightarrow> nat" where
  "NUM_ENCODERS cf = NUM_ENCODERS_LEFT cf + NUM_ENCODERS_RIGHT cf"

definition thisHand :: "encoder_config \<Rightarrow> nat" where
  "thisHand cf = (if isLeftHand cf then 0 else NUM_ENCODERS_LEFT cf)"

definition thatHand :: "encoder_config \<Rightarrow> nat" where
  "thatHand cf = NUM_ENCODERS_LEFT cf - thisHand cf"

definition thisCount :: "encoder_config \<Rightarrow> nat" where
  "thisCount cf =
    (if SPLIT_KEYBOARD cf then if isLeftHand cf then NUM_ENCODERS_LEFT cf else NUM_ENCODERS_RIGHT cf
     else NUM_ENCODERS cf)"

definition thatCount :: "encoder_config \<Rightarrow> nat" where
  "thatCount cf = (if isLeftHand cf then NUM_ENCODERS_RIGHT cf else NUM_ENCODERS_LEFT cf)"

definition MAKE_ENCODER_CW_EVENT :: "u8 \<Rightarrow> bool \<Rightarrow> u16 \<Rightarrow> keyevent_t" where
  "MAKE_ENCODER_CW_EVENT enc_id press now = MAKE_EVENT KEYLOC_ENCODER_CW enc_id press ENCODER_CW_EVENT now"

definition MAKE_ENCODER_CCW_EVENT :: "u8 \<Rightarrow> bool \<Rightarrow> u16 \<Rightarrow> keyevent_t" where
  "MAKE_ENCODER_CCW_EVENT enc_id press now = MAKE_EVENT KEYLOC_ENCODER_CCW enc_id press ENCODER_CCW_EVENT now"

section \<open>Turning\<close>

definition encoder_update_kb :: "'w encoder_env \<Rightarrow> u8 \<Rightarrow> bool \<Rightarrow> 'w \<Rightarrow> bool \<times> 'w" where
  "encoder_update_kb e index clockwise w =
    (let (res, w) = encoder_update_user e index clockwise w
     in (res, if res then en_tap_code_delay e (if clockwise then 0xA9 else 0xAA) 10 w else w))"

definition encoder_event :: "'w encoder_env \<Rightarrow> u8 \<Rightarrow> bool \<Rightarrow> bool \<Rightarrow> 'w \<Rightarrow> 'w" where
  "encoder_event e index clockwise press w =
    en_action_exec e
      ((if clockwise then MAKE_ENCODER_CW_EVENT else MAKE_ENCODER_CCW_EVENT) index press (en_timer e w)) w"

definition encoder_exec_mapping :: "encoder_config \<Rightarrow> 'w encoder_env \<Rightarrow> u8 \<Rightarrow> bool \<Rightarrow> 'w \<Rightarrow> 'w" where
  "encoder_exec_mapping cf e index clockwise w =
    (let wait = (if 0 < ENCODER_MAP_KEY_DELAY cf then en_wait_ms e (ENCODER_MAP_KEY_DELAY cf) else id)
     in wait (encoder_event e index clockwise False (wait (encoder_event e index clockwise True w))))"

text \<open>A turn is reported by events for the keymap or to \<open>encoder_update_kb\<close>.\<close>

definition encoder_turn :: "encoder_config \<Rightarrow> 'w encoder_env \<Rightarrow> nat \<Rightarrow> bool \<Rightarrow> 'w \<Rightarrow> 'w" where
  "encoder_turn cf e index clockwise w =
    (if ENCODER_MAP cf then encoder_exec_mapping cf e (of_nat index) clockwise w
     else snd (encoder_update_kb e (of_nat index) clockwise w))"

definition encoder_count :: "encoder_config \<Rightarrow> 'w encoder_env \<Rightarrow> nat \<Rightarrow> bool \<Rightarrow> 'w encoder_vars \<Rightarrow> 'w encoder_vars" where
  "encoder_count cf e index up s =
    s\<lparr>encoder_value := (encoder_value s)[index := encoder_value s ! index + (if up then 1 else - 1)],
      enc_world :=
        (if \<not> SPLIT_KEYBOARD cf \<or> should_process_encoder e (enc_world s)
         then encoder_turn cf e index (if up then ENCODER_COUNTER_CLOCKWISE cf else ENCODER_CLOCKWISE cf) (enc_world s)
         else enc_world s)\<rparr>"

definition encoder_update ::
    "encoder_config \<Rightarrow> 'w encoder_env \<Rightarrow> nat \<Rightarrow> u8 \<Rightarrow> 'w encoder_vars \<Rightarrow> bool \<times> 'w encoder_vars" where
  "encoder_update cf e i state s =
    (let resolution = uint (encoder_resolutions cf ! i);
         index = (if SPLIT_KEYBOARD cf then i + thisHand cf else i);
         pulses = encoder_pulses s ! i + encoder_LUT ! unat (state AND 0xF);
         s = s\<lparr>encoder_pulses := (encoder_pulses s)[i := pulses]\<rparr>;
         count = (\<lambda>up down.
           let s = (if up then encoder_count cf e index True s else s);
               s = (if down then encoder_count cf e index False s else s)
           in (up \<or> down, s))
     in case ENCODER_DEFAULT_POS cf of
          None \<Rightarrow>
            (let (changed, s) = count (resolution \<le> sint pulses) (sint pulses \<le> - resolution)
             in (changed, s\<lparr>encoder_pulses := (encoder_pulses s)[i := word_of_int (sint pulses smod resolution)]\<rparr>))
        | Some pos \<Rightarrow>
            (if resolution \<le> sint pulses \<or> sint pulses \<le> - resolution \<or> state AND 0x3 = pos then
               (let (changed, s) = count (1 \<le> sint pulses) (sint pulses \<le> - 1)
                in (changed, s\<lparr>encoder_pulses := (encoder_pulses s)[i := 0]\<rparr>))
             else (False, s)))"

section \<open>Scanning\<close>

definition read_pads :: "bool \<times> bool \<Rightarrow> u8" where
  "read_pads pads = push_bit 0 (of_bool (fst pads)) OR push_bit 1 (of_bool (snd pads))"

definition encoder_start :: "encoder_config \<Rightarrow> 'w \<Rightarrow> 'w encoder_vars" where
  "encoder_start cf w =
    \<lparr>encoder_state = replicate (NUM_ENCODERS cf) 0, encoder_pulses = replicate (NUM_ENCODERS cf) 0,
     encoder_value = replicate (NUM_ENCODERS cf) 0, enc_world = w\<rparr>"

definition encoder_init :: "encoder_config \<Rightarrow> (nat \<Rightarrow> bool \<times> bool) \<Rightarrow> 'w encoder_vars \<Rightarrow> 'w encoder_vars" where
  "encoder_init cf pads s =
    s\<lparr>encoder_state := fold (\<lambda>i st. st[i := read_pads (pads i)]) [0..<thisCount cf] (encoder_state s)\<rparr>"

definition encoder_read_one ::
    "encoder_config \<Rightarrow> 'w encoder_env \<Rightarrow> (nat \<Rightarrow> bool \<times> bool) \<Rightarrow> nat \<Rightarrow> bool \<times> 'w encoder_vars \<Rightarrow> bool \<times> 'w encoder_vars" where
  "encoder_read_one cf e pads i = (\<lambda>(changed, s).
    let new_status = read_pads (pads i)
    in if encoder_state s ! i AND 0x3 \<noteq> new_status then
         (let state = push_bit 2 (encoder_state s ! i) OR new_status;
              (c, s) = encoder_update cf e i state (s\<lparr>encoder_state := (encoder_state s)[i := state]\<rparr>)
          in (changed \<or> c, s))
       else (changed, s))"

definition encoder_read ::
    "encoder_config \<Rightarrow> 'w encoder_env \<Rightarrow> (nat \<Rightarrow> bool \<times> bool) \<Rightarrow> 'w encoder_vars \<Rightarrow> bool \<times> 'w encoder_vars" where
  "encoder_read cf e pads s = fold (encoder_read_one cf e pads) [0..<thisCount cf] (False, s)"

section \<open>The other half\<close>

definition encoder_state_raw :: "encoder_config \<Rightarrow> 'w encoder_vars \<Rightarrow> u8 list" where
  "encoder_state_raw cf s = take (thisCount cf) (drop (thisHand cf) (encoder_value s))"

text \<open>One turn of a \<open>while\<close> loop; \<open>up\<close> is the first loop.\<close>

definition encoder_far_turn :: "encoder_config \<Rightarrow> 'w encoder_env \<Rightarrow> nat \<Rightarrow> bool \<Rightarrow> 'w encoder_vars \<Rightarrow> 'w encoder_vars" where
  "encoder_far_turn cf e index up s =
    s\<lparr>encoder_value := (encoder_value s)[index := encoder_value s ! index + (if up then 1 else - 1)],
      enc_world :=
        encoder_turn cf e index (if up then ENCODER_COUNTER_CLOCKWISE cf else ENCODER_CLOCKWISE cf) (enc_world s)\<rparr>"

definition encoder_update_one ::
    "encoder_config \<Rightarrow> 'w encoder_env \<Rightarrow> u8 list \<Rightarrow> nat \<Rightarrow> bool \<times> 'w encoder_vars \<Rightarrow> bool \<times> 'w encoder_vars" where
  "encoder_update_one cf e slave_state i = (\<lambda>(changed, s).
    let index = i + thatHand cf;
        delta = sint (slave_state ! i - encoder_value s ! index);
        s = (encoder_far_turn cf e index True ^^ nat delta) s;
        s = (encoder_far_turn cf e index False ^^ nat (- delta)) s
    in (changed \<or> delta \<noteq> 0, s))"

definition encoder_update_raw ::
    "encoder_config \<Rightarrow> 'w encoder_env \<Rightarrow> u8 list \<Rightarrow> 'w encoder_vars \<Rightarrow> 'w encoder_vars" where
  "encoder_update_raw cf e slave_state s =
    (let (changed, s) = fold (encoder_update_one cf e slave_state) [0..<thatCount cf] (False, s)
     in if changed then s\<lparr>enc_world := last_encoder_activity_trigger e (enc_world s)\<rparr> else s)"

section \<open>Turning a shaft\<close>

text \<open>What the encoders call, and the turns of an encoder, counted like \<open>encoder_value\<close>.\<close>

datatype encoder_call = Turn nat bool | Activity

fun run_call :: "encoder_config \<Rightarrow> 'w encoder_env \<Rightarrow> encoder_call \<Rightarrow> 'w \<Rightarrow> 'w" where
  "run_call cf e (Turn index clockwise) w = encoder_turn cf e index clockwise w"
| "run_call cf e Activity w = last_encoder_activity_trigger e w"

fun call_turns :: "encoder_config \<Rightarrow> nat \<Rightarrow> encoder_call \<Rightarrow> int" where
  "call_turns cf index (Turn i clockwise) =
    (if i = index then if clockwise = ENCODER_COUNTER_CLOCKWISE cf then 1 else - 1 else 0)"
| "call_turns cf index Activity = 0"

definition net_turns :: "encoder_config \<Rightarrow> nat \<Rightarrow> encoder_call list \<Rightarrow> int" where
  "net_turns cf index calls = (\<Sum>call\<leftarrow>calls. call_turns cf index call)"

text \<open>The pins of a shaft in the position \<open>x\<close>, counted in quarter steps.\<close>

definition pads_at :: "int \<Rightarrow> bool \<times> bool" where
  "pads_at x = (x mod 4 \<in> {2, 3}, x mod 4 \<in> {1, 2})"

definition encoder_scans :: "encoder_config \<Rightarrow> 'w encoder_env \<Rightarrow> (nat \<Rightarrow> int) list \<Rightarrow> 'w encoder_vars \<Rightarrow> 'w encoder_vars" where
  "encoder_scans cf e xs s = fold (\<lambda>x s. snd (encoder_read cf e (pads_at \<circ> x) s)) xs s"

fun slow :: "nat \<Rightarrow> (nat \<Rightarrow> int) \<Rightarrow> (nat \<Rightarrow> int) list \<Rightarrow> bool" where
  "slow n x [] \<longleftrightarrow> True"
| "slow n x (y # ys) \<longleftrightarrow> (\<forall>i<n. \<bar>y i - x i\<bar> \<le> 1) \<and> slow n y ys"

definition encoder_config_ok :: "encoder_config \<Rightarrow> bool" where
  "encoder_config_ok cf \<longleftrightarrow>
     length (encoder_resolutions cf) = NUM_ENCODERS cf \<and>
     (\<forall>r \<in> set (encoder_resolutions cf). 0 < uint r \<and> uint r \<le> 127) \<and>
     (\<not> SPLIT_KEYBOARD cf \<longrightarrow> isLeftHand cf \<and> NUM_ENCODERS_RIGHT cf = 0)"

text \<open>With a default position the encoders have four quarter steps to a detent and start in one.\<close>

definition detents_ok :: "encoder_config \<Rightarrow> (nat \<Rightarrow> int) \<Rightarrow> bool" where
  "detents_ok cf x0 \<longleftrightarrow>
     (\<forall>pos. ENCODER_DEFAULT_POS cf = Some pos \<longrightarrow>
       (\<forall>i<thisCount cf. uint (encoder_resolutions cf ! i) = 4 \<and> read_pads (pads_at (x0 i)) = pos))"

text \<open>
  The turns follow the shafts: the encoders of this half have turned from \<open>x0\<close> to \<open>x\<close> and \<open>calls\<close> were made,
  on the half that processes them.
\<close>

definition own_encoder :: "encoder_config \<Rightarrow> nat \<Rightarrow> bool" where
  "own_encoder cf k \<longleftrightarrow> thisHand cf \<le> k \<and> k < thisHand cf + thisCount cf"

definition encoder_tracks ::
    "encoder_config \<Rightarrow> 'w encoder_env \<Rightarrow> bool \<Rightarrow> 'w \<Rightarrow> (nat \<Rightarrow> int) \<Rightarrow> (nat \<Rightarrow> int) \<Rightarrow> encoder_call list \<Rightarrow> 'w encoder_vars \<Rightarrow> bool" where
  "encoder_tracks cf e master w x0 x calls s \<longleftrightarrow>
     length (encoder_state s) = NUM_ENCODERS cf \<and> length (encoder_pulses s) = NUM_ENCODERS cf \<and>
     length (encoder_value s) = NUM_ENCODERS cf \<and>
     enc_world s = (if master then fold (run_call cf e) calls w else w) \<and>
     (\<forall>k<NUM_ENCODERS cf. encoder_value s ! k = of_int (net_turns cf k calls)) \<and>
     (\<forall>i<thisCount cf.
        encoder_state s ! i AND 0x3 = read_pads (pads_at (x i)) \<and>
        uint (encoder_resolutions cf ! i) * net_turns cf (i + thisHand cf) calls + sint (encoder_pulses s ! i) = x i - x0 i \<and>
        \<bar>sint (encoder_pulses s ! i)\<bar> < uint (encoder_resolutions cf ! i))"

lemma net_turns_simps [simp]:
  "net_turns cf index [] = 0"
  "net_turns cf index (calls @ calls') = net_turns cf index calls + net_turns cf index calls'"
  "net_turns cf index (call # calls) = call_turns cf index call + net_turns cf index calls"
  by (simp_all add: net_turns_def)

lemma directions_differ [simp]: "ENCODER_CLOCKWISE cf \<longleftrightarrow> \<not> ENCODER_COUNTER_CLOCKWISE cf"
  by (simp add: ENCODER_CLOCKWISE_def ENCODER_COUNTER_CLOCKWISE_def)

lemma pads_cases:
  obtains (p0) "x mod 4 = 0" "read_pads (pads_at x) = 0" | (p1) "x mod 4 = 1" "read_pads (pads_at x) = 2"
  | (p2) "x mod 4 = 2" "read_pads (pads_at x) = 3" | (p3) "x mod 4 = 3" "read_pads (pads_at x) = 1"
proof -
  have "x mod 4 \<in> {0, 1, 2, 3}"
    by auto
  moreover have "read_pads (True, True) = 3"
    by (rule bit_word_eqI) (auto simp: read_pads_def bit_simps)
  ultimately show ?thesis
    using that by (auto simp: pads_at_def read_pads_def)
qed

lemma pads_eq_iff: "read_pads (pads_at x) = read_pads (pads_at y) \<longleftrightarrow> x mod 4 = y mod 4"
  by (cases x rule: pads_cases; cases y rule: pads_cases) simp_all

lemma encoder_state_bits:
  fixes st :: u8
  assumes "st AND 0x3 = old" "new \<in> {0, 1, 2, 3}"
  shows "(push_bit 2 st OR new) AND 0xF = push_bit 2 old OR new" "(push_bit 2 st OR new) AND 0x3 = new"
proof -
  have masks: "(0xF :: u8) = mask 4" "(0x3 :: u8) = mask 2"
    by (simp_all add: mask_eq_exp_minus_1)
  have "take_bit 2 new = new"
    using assms(2) by auto
  then have new: "bit new i \<Longrightarrow> i < 2" for i
    by (metis bit_take_bit_iff)
  show "(push_bit 2 st OR new) AND 0xF = push_bit 2 old OR new"
    unfolding assms(1) [symmetric] masks by (rule bit_word_eqI) (auto simp: bit_simps dest: new)
  show "(push_bit 2 st OR new) AND 0x3 = new"
    unfolding masks by (rule bit_word_eqI) (auto simp: bit_simps dest: new)
qed

text \<open>The table is the difference of the positions, as long as the shaft moves by at most a quarter step.\<close>

lemma encoder_LUT_steps:
  assumes "st AND 0x3 = read_pads (pads_at x)" "\<bar>y - x\<bar> \<le> 1"
  shows "sint (encoder_LUT ! unat ((push_bit 2 st OR read_pads (pads_at y)) AND 0xF)) = y - x"
proof -
  have y: "read_pads (pads_at y) \<in> {0, 1, 2, 3}"
    by (cases y rule: pads_cases) simp_all
  have "y = x \<or> y = x + 1 \<or> y = x - 1"
    using assms(2) by auto
  then show ?thesis
    unfolding encoder_state_bits(1) [OF assms(1) y]
    by (cases x rule: pads_cases; cases y rule: pads_cases) (auto simp: encoder_LUT_def, presburger+)
qed

lemma sint_u8_of_int: "- 128 \<le> k \<Longrightarrow> k < 128 \<Longrightarrow> sint (of_int k :: u8) = k"
  by (simp add: signed_of_int signed_take_bit_int_eq_self)

lemma sint_u8_add: "- 128 \<le> sint p + sint d \<Longrightarrow> sint p + sint d < 128 \<Longrightarrow> sint (p + d) = sint p + sint d" for p d :: u8
  using sint_u8_of_int [of "sint p + sint d"] by simp

lemma smod_small: "\<bar>p\<bar> \<le> r \<Longrightarrow> 0 < r \<Longrightarrow> p smod r = (if \<bar>p\<bar> = r then 0 else p)" for p r :: int
  by (auto simp: smod_int_alt_def abs_mult_sgn mult.commute)

text \<open>What an update does to an encoder whose pulses stay within the resolution.\<close>

lemma encoder_update_cases:
  assumes "i < length (encoder_pulses s)" "r = uint (encoder_resolutions cf ! i)" "0 < r"
    and "p = encoder_pulses s ! i + encoder_LUT ! unat (state AND 0xF)" "\<bar>sint p\<bar> \<le> r"
    and "\<And>pos. ENCODER_DEFAULT_POS cf = Some pos \<Longrightarrow> state AND 0x3 = pos \<Longrightarrow> sint p = 0 \<or> \<bar>sint p\<bar> = r"
    and "index = (if SPLIT_KEYBOARD cf then i + thisHand cf else i)"
    and "s1 = s\<lparr>encoder_pulses := (encoder_pulses s)[i := if \<bar>sint p\<bar> = r then 0 else p]\<rparr>"
  shows "encoder_update cf e i state s =
    (if \<bar>sint p\<bar> = r then (True, encoder_count cf e index (sint p = r) s1) else (False, s1))"
proof (cases "ENCODER_DEFAULT_POS cf")
  case None
  have "p = 0" if "sint p = 0"
    using that by (metis signed_eq_0_iff)
  then show ?thesis
    using None assms(1,3,5)
    by (auto simp: encoder_update_def Let_def smod_small assms(8) encoder_count_def simp flip: assms(2,4,7))
next
  case (Some pos)
  have "p = 0" if "sint p = 0"
    using that by (metis signed_eq_0_iff)
  then show ?thesis
    using Some assms(1,3,5,6)
    by (auto simp: encoder_update_def Let_def assms(8) encoder_count_def simp flip: assms(2,4,7))
qed

lemma encoder_index:
  "encoder_config_ok cf \<Longrightarrow> (if SPLIT_KEYBOARD cf then i + thisHand cf else i) = i + thisHand cf"
  by (auto simp: encoder_config_ok_def thisHand_def)

lemma encoder_bounds:
  assumes "encoder_config_ok cf" "i < thisCount cf"
  shows "i < NUM_ENCODERS cf" "i + thisHand cf < NUM_ENCODERS cf"
    "0 < uint (encoder_resolutions cf ! i)" "uint (encoder_resolutions cf ! i) \<le> 127"
proof -
  show i: "i < NUM_ENCODERS cf" "i + thisHand cf < NUM_ENCODERS cf"
    using assms by (auto simp: encoder_config_ok_def thisCount_def thisHand_def NUM_ENCODERS_def split: if_splits)
  then show "0 < uint (encoder_resolutions cf ! i)" "uint (encoder_resolutions cf ! i) \<le> 127"
    using assms(1) by (auto simp: encoder_config_ok_def)
qed

text \<open>The scan of one encoder follows its shaft.\<close>

lemma encoder_read_one_tracks:
  assumes ok: "encoder_config_ok cf" "detents_ok cf x0" "\<forall>w. (\<not> SPLIT_KEYBOARD cf \<or> should_process_encoder e w) = master"
    and tracks: "encoder_tracks cf e master w x0 x calls s"
    and i: "i < thisCount cf" "\<bar>y i - x i\<bar> \<le> 1"
  shows "\<exists>calls'. encoder_tracks cf e master w x0 (x(i := y i)) (calls @ calls')
      (snd (encoder_read_one cf e (pads_at \<circ> y) i (c, s))) \<and> (\<forall>k. \<bar>net_turns cf k calls'\<bar> \<le> of_bool (k = i + thisHand cf))"
proof (cases "x i mod 4 = y i mod 4")
  case True
  then have "y i = x i"
    using i(2) by presburger
  moreover from this have "x(i := y i) = x"
    by auto
  moreover have "encoder_state s ! i AND 0x3 = read_pads (pads_at (x i))"
    using tracks i(1) by (simp add: encoder_tracks_def)
  ultimately show ?thesis
    using tracks by (intro exI [of _ "[]"]) (simp add: encoder_read_one_def)
next
  case False
  define n where "n = net_turns cf (i + thisHand cf) calls"
  define r where "r = uint (encoder_resolutions cf ! i)"
  define state where "state = push_bit 2 (encoder_state s ! i) OR read_pads (pads_at (y i))"
  define p where "p = encoder_pulses s ! i + encoder_LUT ! unat (state AND 0xF)"
  define s0 where "s0 = s\<lparr>encoder_state := (encoder_state s)[i := state]\<rparr>"
  define s1 where "s1 = s0\<lparr>encoder_pulses := (encoder_pulses s0)[i := if \<bar>sint p\<bar> = r then 0 else p]\<rparr>"
  define calls' where "calls' = (if \<bar>sint p\<bar> = r
    then [Turn (i + thisHand cf) (if sint p = r then ENCODER_COUNTER_CLOCKWISE cf else ENCODER_CLOCKWISE cf)] else [])"
  note bounds = encoder_bounds [OF ok(1) i(1), folded r_def]
  have t: "encoder_state s ! i AND 0x3 = read_pads (pads_at (x i))" "r * n + sint (encoder_pulses s ! i) = x i - x0 i"
      "\<bar>sint (encoder_pulses s ! i)\<bar> < r"
    and lengths: "i < length (encoder_state s)" "i < length (encoder_pulses s)" "i + thisHand cf < length (encoder_value s)"
    using tracks i(1) bounds by (simp_all add: encoder_tracks_def n_def r_def)
  have lut: "sint (encoder_LUT ! unat (state AND 0xF)) = y i - x i"
    unfolding state_def by (rule encoder_LUT_steps [OF t(1) i(2)])
  have p: "sint p = sint (encoder_pulses s ! i) + (y i - x i)"
    unfolding p_def lut [symmetric] by (rule sint_u8_add) (use t(3) i(2) bounds(4) in \<open>auto simp: lut\<close>)
  then have "\<bar>sint p\<bar> \<le> r" and moved: "r * n + sint p = y i - x0 i"
    using t(2,3) i(2) by auto
  have low: "state AND 0x3 = read_pads (pads_at (y i))"
    unfolding state_def by (rule encoder_state_bits(2) [OF refl]) (cases "y i" rule: pads_cases; simp)
  have detent: "sint p = 0 \<or> \<bar>sint p\<bar> = r" if "ENCODER_DEFAULT_POS cf = Some pos" "state AND 0x3 = pos" for pos
  proof -
    have "r = 4" "y i mod 4 = x0 i mod 4"
      using ok(2) i(1) that low by (auto simp: detents_ok_def r_def pads_eq_iff)
    then show ?thesis
      using moved \<open>\<bar>sint p\<bar> \<le> r\<close> by presburger
  qed
  have update: "encoder_update cf e i state s0 =
      (if \<bar>sint p\<bar> = r then (True, encoder_count cf e (i + thisHand cf) (sint p = r) s1) else (False, s1))"
    using encoder_update_cases [where s = s0 and r = r and p = p and state = state, OF _ r_def bounds(3) _ \<open>\<bar>sint p\<bar> \<le> r\<close> detent
        encoder_index [OF ok(1), symmetric] s1_def] lengths
    by (simp add: s0_def p_def)
  have differ: "read_pads (pads_at (x i)) \<noteq> read_pads (pads_at (y i))"
    using False by (simp add: pads_eq_iff)
  have "snd (encoder_read_one cf e (pads_at \<circ> y) i (c, s)) =
      (if \<bar>sint p\<bar> = r then encoder_count cf e (i + thisHand cf) (sint p = r) s1 else s1)"
    using differ by (simp add: encoder_read_one_def t(1) update flip: state_def s0_def)
  moreover have "encoder_tracks cf e master w x0 (x(i := y i)) (calls @ calls')
      (if \<bar>sint p\<bar> = r then encoder_count cf e (i + thisHand cf) (sint p = r) s1 else s1)"
    using tracks ok(3) low moved p \<open>\<bar>sint p\<bar> \<le> r\<close> lengths bounds(3)
    by (auto simp: encoder_tracks_def encoder_count_def s1_def s0_def calls'_def nth_list_update r_def [symmetric] n_def [symmetric]
        algebra_simps abs_if split: if_splits)
  moreover have "\<forall>k. \<bar>net_turns cf k calls'\<bar> \<le> of_bool (k = i + thisHand cf)"
    by (simp add: calls'_def)
  ultimately show ?thesis
    by (intro exI [of _ calls']) simp
qed

lemma encoder_tracks_cong:
  "(\<And>i. i < thisCount cf \<Longrightarrow> x i = y i) \<Longrightarrow>
    encoder_tracks cf e master w x0 x calls s = encoder_tracks cf e master w x0 y calls s"
  by (simp add: encoder_tracks_def cong: conj_cong)

lemma encoder_read_tracks:
  assumes ok: "encoder_config_ok cf" "detents_ok cf x0" "\<forall>w. (\<not> SPLIT_KEYBOARD cf \<or> should_process_encoder e w) = master"
    and tracks: "encoder_tracks cf e master w x0 x calls s" "\<forall>i<thisCount cf. \<bar>y i - x i\<bar> \<le> 1"
  shows "\<exists>calls'. encoder_tracks cf e master w x0 y (calls @ calls') (snd (encoder_read cf e (pads_at \<circ> y) s)) \<and>
    (\<forall>k. \<bar>net_turns cf k calls'\<bar> \<le> of_bool (own_encoder cf k))"
proof -
  define scan where "scan = encoder_read_one cf e (pads_at \<circ> y)"
  have "n \<le> thisCount cf \<Longrightarrow> \<exists>calls'. encoder_tracks cf e master w x0 (\<lambda>i. if i < n then y i else x i) (calls @ calls')
      (snd (fold scan [0..<n] (False, s))) \<and>
      (\<forall>k. \<bar>net_turns cf k calls'\<bar> \<le> of_bool (thisHand cf \<le> k \<and> k < n + thisHand cf))" for n
  proof (induction n)
    case 0
    show ?case
      using tracks(1) by (intro exI [of _ "[]"]) simp
  next
    case (Suc n)
    obtain c s1 where s1: "fold scan [0..<n] (False, s) = (c, s1)"
      by force
    from Suc obtain calls1 where
      t1: "encoder_tracks cf e master w x0 (\<lambda>i. if i < n then y i else x i) (calls @ calls1) s1"
      and n1: "\<forall>k. \<bar>net_turns cf k calls1\<bar> \<le> of_bool (thisHand cf \<le> k \<and> k < n + thisHand cf)"
      unfolding s1 snd_conv by (meson Suc_leD)
    obtain calls2 where
      t2: "encoder_tracks cf e master w x0 ((\<lambda>i. if i < n then y i else x i)(n := y n)) ((calls @ calls1) @ calls2)
        (snd (scan n (c, s1)))"
      and n2: "\<forall>k. \<bar>net_turns cf k calls2\<bar> \<le> of_bool (k = n + thisHand cf)"
      using encoder_read_one_tracks [OF ok t1, of n y c, folded scan_def] Suc.prems tracks(2) by auto
    have "(\<lambda>i. if i < n then y i else x i)(n := y n) = (\<lambda>i. if i < Suc n then y i else x i)"
      by (auto simp: less_Suc_eq)
    moreover have "\<bar>net_turns cf k (calls1 @ calls2)\<bar> \<le> of_bool (thisHand cf \<le> k \<and> k < Suc n + thisHand cf)" for k
      using n1 [rule_format, of k] n2 [rule_format, of k] by (cases "k = n + thisHand cf") (auto split: if_splits)
    ultimately show ?case
      using t2 by (intro exI [of _ "calls1 @ calls2"]) (simp add: s1)
  qed
  from this [of "thisCount cf"] obtain calls' where
    "encoder_tracks cf e master w x0 (\<lambda>i. if i < thisCount cf then y i else x i) (calls @ calls') (snd (encoder_read cf e (pads_at \<circ> y) s))"
    and n: "\<And>k. \<bar>net_turns cf k calls'\<bar> \<le> of_bool (thisHand cf \<le> k \<and> k < thisCount cf + thisHand cf)"
    by (auto simp: encoder_read_def scan_def)
  moreover have "\<bar>net_turns cf k calls'\<bar> \<le> of_bool (own_encoder cf k)" for k
    using n [of k] by (simp add: own_encoder_def add.commute)
  moreover have "encoder_tracks cf e master w x0 (\<lambda>i. if i < thisCount cf then y i else x i) calls1 s1 =
      encoder_tracks cf e master w x0 y calls1 s1" for calls1 s1
    by (rule encoder_tracks_cong) simp
  ultimately show ?thesis
    by blast
qed

lemma encoder_scans_track:
  assumes ok: "encoder_config_ok cf" "detents_ok cf x0" "\<forall>w. (\<not> SPLIT_KEYBOARD cf \<or> should_process_encoder e w) = master"
  shows "encoder_tracks cf e master w x0 x calls s \<Longrightarrow> slow (thisCount cf) x xs \<Longrightarrow>
    \<exists>calls'. encoder_tracks cf e master w x0 (last (x # xs)) (calls @ calls') (encoder_scans cf e xs s) \<and>
      (\<forall>k. \<bar>net_turns cf k calls'\<bar> \<le> of_bool (own_encoder cf k) * int (length xs))"
proof (induction xs arbitrary: x calls s)
  case Nil
  then show ?case
    by (intro exI [of _ "[]"]) (simp add: encoder_scans_def)
next
  case (Cons y ys)
  obtain calls1 where
    t1: "encoder_tracks cf e master w x0 y (calls @ calls1) (snd (encoder_read cf e (pads_at \<circ> y) s))"
    and n1: "\<forall>k. \<bar>net_turns cf k calls1\<bar> \<le> of_bool (own_encoder cf k)"
    using encoder_read_tracks [OF ok Cons.prems(1), of y] Cons.prems(2) by auto
  obtain calls2 where
    t2: "encoder_tracks cf e master w x0 (last (y # ys)) ((calls @ calls1) @ calls2)
      (encoder_scans cf e ys (snd (encoder_read cf e (pads_at \<circ> y) s)))"
    and n2: "\<forall>k. \<bar>net_turns cf k calls2\<bar> \<le> of_bool (own_encoder cf k) * int (length ys)"
    using Cons.IH [OF t1] Cons.prems(2) by auto
  have "\<bar>net_turns cf k (calls1 @ calls2)\<bar> \<le> of_bool (own_encoder cf k) * int (length (y # ys))" for k
    using n1 [rule_format, of k] n2 [rule_format, of k] by (cases "own_encoder cf k") simp_all
  then show ?case
    using t2 by (intro exI [of _ "calls1 @ calls2"]) (simp add: encoder_scans_def)
qed

lemma length_encoder_init_state:
  "length (fold (\<lambda>i st. st[i := f i]) [0..<n] st) = length st"
  by (induction n) simp_all

lemma nth_encoder_init_state:
  "n \<le> length st \<Longrightarrow> i < n \<Longrightarrow> fold (\<lambda>i st. st[i := f i]) [0..<n] st ! i = f i"
  by (induction n) (auto simp: nth_list_update length_encoder_init_state less_Suc_eq)

lemma encoder_init_tracks:
  assumes "encoder_config_ok cf"
  shows "encoder_tracks cf e master w x0 x0 [] (encoder_init cf (pads_at \<circ> x0) (encoder_start cf w))"
proof -
  have "read_pads (pads_at x) AND 3 = read_pads (pads_at x)" for x
    by (cases x rule: pads_cases) simp_all
  then show ?thesis
    using encoder_bounds [OF assms]
    by (auto simp: encoder_tracks_def encoder_init_def encoder_start_def length_encoder_init_state
        nth_encoder_init_state less_imp_le thisCount_def NUM_ENCODERS_def)
qed

section \<open>Transfer\<close>

lemma run_turns_swap:
  "encoder_turn cf e i d ((run_call cf e (Turn i d) ^^ n) w) = (run_call cf e (Turn i d) ^^ n) (encoder_turn cf e i d w)"
  by (induction n) simp_all

lemma far_turns:
  "index < length (encoder_value s) \<Longrightarrow> (encoder_far_turn cf e index up ^^ n) s =
    s\<lparr>encoder_value := (encoder_value s)[index := encoder_value s ! index + of_int (if up then int n else - int n)],
      enc_world := fold (run_call cf e)
        (replicate n (Turn index (if up then ENCODER_COUNTER_CLOCKWISE cf else ENCODER_CLOCKWISE cf))) (enc_world s)\<rparr>"
proof (induction n)
  case (Suc n)
  then have "(encoder_far_turn cf e index up ^^ Suc n) s = encoder_far_turn cf e index up
      (s\<lparr>encoder_value := (encoder_value s)[index := encoder_value s ! index + of_int (if up then int n else - int n)],
         enc_world := fold (run_call cf e)
           (replicate n (Turn index (if up then ENCODER_COUNTER_CLOCKWISE cf else ENCODER_CLOCKWISE cf))) (enc_world s)\<rparr>)"
    by simp
  also have "\<dots> =
      s\<lparr>encoder_value := (encoder_value s)[index := encoder_value s ! index + of_int (if up then int (Suc n) else - int (Suc n))],
        enc_world := fold (run_call cf e)
          (replicate (Suc n) (Turn index (if up then ENCODER_COUNTER_CLOCKWISE cf else ENCODER_CLOCKWISE cf))) (enc_world s)\<rparr>"
    using Suc.prems by (auto simp: encoder_far_turn_def run_turns_swap algebra_simps)
  finally show ?case .
qed simp

definition far_calls :: "encoder_config \<Rightarrow> nat \<Rightarrow> int \<Rightarrow> encoder_call list" where
  "far_calls cf index delta = replicate (nat \<bar>delta\<bar>) (Turn index (if 0 < delta then ENCODER_COUNTER_CLOCKWISE cf else ENCODER_CLOCKWISE cf))"

lemma net_replicate: "net_turns cf k (replicate n call) = int n * call_turns cf k call"
  by (induction n) (simp_all add: algebra_simps)

lemma net_far_calls [simp]: "net_turns cf k (far_calls cf index delta) = (if k = index then delta else 0)"
  by (simp add: far_calls_def net_replicate)

lemma encoder_update_one_effect:
  assumes "index = i + thatHand cf" "index < length (encoder_value s)" "delta = sint (slave_state ! i - encoder_value s ! index)"
  shows "encoder_update_one cf e slave_state i (c, s) = (c \<or> delta \<noteq> 0,
    s\<lparr>encoder_value := (encoder_value s)[index := slave_state ! i],
      enc_world := fold (run_call cf e) (far_calls cf index delta) (enc_world s)\<rparr>)"
proof -
  have "encoder_value s ! index + of_int delta = slave_state ! i"
    by (simp add: assms(3))
  moreover from this have "(encoder_value s)[index := slave_state ! i] = encoder_value s" if "delta = 0"
    using that by (metis add.right_neutral list_update_id of_int_0)
  ultimately show ?thesis
    by (cases "0 < delta"; cases "delta < 0")
      (auto simp: encoder_update_one_def Let_def far_turns far_calls_def assms(2) simp flip: assms(1,3))
qed

lemma far_bound: "i < thatCount cf \<Longrightarrow> i + thatHand cf < NUM_ENCODERS cf"
  by (auto simp: thatHand_def thatCount_def thisHand_def NUM_ENCODERS_def split: if_splits)

lemma encoder_update_raw_tracks:
  assumes ok: "encoder_config_ok cf" "SPLIT_KEYBOARD cf"
    and tracks: "encoder_tracks cf e True w y0 y calls s"
  shows "\<exists>calls'. encoder_tracks cf e True w y0 y (calls @ calls') (encoder_update_raw cf e slave_state s) \<and>
    (\<forall>i<thatCount cf. net_turns cf (i + thatHand cf) calls' = sint (slave_state ! i - of_int (net_turns cf (i + thatHand cf) calls)))"
proof -
  define delta where "delta i = sint (slave_state ! i - of_int (net_turns cf (i + thatHand cf) calls))" for i
  have far: "j + thisHand cf \<noteq> i + thatHand cf" if "i < thatCount cf" "j < thisCount cf" for i j
    using that ok(2) by (auto simp: thatHand_def thatCount_def thisHand_def thisCount_def NUM_ENCODERS_def split: if_splits)
  have "n \<le> thatCount cf \<Longrightarrow> \<exists>calls' c s'. fold (encoder_update_one cf e slave_state) [0..<n] (False, s) = (c, s') \<and>
      encoder_tracks cf e True w y0 y (calls @ calls') s' \<and>
      (\<forall>k. net_turns cf k calls' = (if thatHand cf \<le> k \<and> k < n + thatHand cf then delta (k - thatHand cf) else 0))" for n
  proof (induction n)
    case 0
    show ?case
      using tracks by (intro exI [of _ "[]"]) auto
  next
    case (Suc n)
    then obtain calls' c s' where s': "fold (encoder_update_one cf e slave_state) [0..<n] (False, s) = (c, s')"
        and t': "encoder_tracks cf e True w y0 y (calls @ calls') s'"
        and net': "\<And>k. net_turns cf k calls' = (if thatHand cf \<le> k \<and> k < n + thatHand cf then delta (k - thatHand cf) else 0)"
      by (metis Suc_leD)
    define index where "index = n + thatHand cf"
    have "index < length (encoder_value s')" and old: "encoder_value s' ! index = of_int (net_turns cf index calls)"
      using t' far_bound [of n cf] Suc.prems net' [of index] by (simp_all add: encoder_tracks_def index_def)
    then have step: "encoder_update_one cf e slave_state n (c, s') = (c \<or> delta n \<noteq> 0,
        s'\<lparr>encoder_value := (encoder_value s')[index := slave_state ! n],
           enc_world := fold (run_call cf e) (far_calls cf index (delta n)) (enc_world s')\<rparr>)"
      using encoder_update_one_effect [of index n cf s' "delta n" slave_state e c] by (simp add: index_def delta_def)
    have new: "slave_state ! n = of_int (net_turns cf index calls + delta n)"
      by (simp add: delta_def index_def)
    have "encoder_tracks cf e True w y0 y (calls @ (calls' @ far_calls cf index (delta n)))
        (snd (encoder_update_one cf e slave_state n (c, s')))"
      using t' far [of n] Suc.prems net' [of index] old
      by (auto simp: encoder_tracks_def step nth_list_update new index_def)
    moreover have "net_turns cf k (calls' @ far_calls cf index (delta n)) =
        (if thatHand cf \<le> k \<and> k < Suc n + thatHand cf then delta (k - thatHand cf) else 0)" for k
      using net' [of k] by (cases "k = index") (auto simp: index_def)
    ultimately show ?case
      by (intro exI [of _ "calls' @ far_calls cf index (delta n)"]) (simp add: s' step)
  qed
  from this [of "thatCount cf"] obtain calls' c s' where
    s': "fold (encoder_update_one cf e slave_state) [0..<thatCount cf] (False, s) = (c, s')"
    and t': "encoder_tracks cf e True w y0 y (calls @ calls') s'"
    and net': "\<And>i. i < thatCount cf \<Longrightarrow> net_turns cf (i + thatHand cf) calls' = delta i"
    by auto
  define rest where "rest = (if c then [Activity] else [])"
  have "encoder_tracks cf e True w y0 y (calls @ calls' @ rest) (encoder_update_raw cf e slave_state s)"
    using t' by (auto simp: encoder_update_raw_def s' encoder_tracks_def rest_def)
  moreover have "net_turns cf k (calls' @ rest) = net_turns cf k calls'" for k
    by (simp add: rest_def)
  ultimately show ?thesis
    using net' unfolding delta_def by (intro exI [of _ "calls' @ rest"]) simp
qed

section \<open>A split keyboard\<close>

text \<open>
  In a round both halves scan their encoders, and the half that is not the master sends its values.  The halves differ
  in \<open>isLeftHand\<close>.
\<close>

definition other_half :: "encoder_config \<Rightarrow> encoder_config" where
  "other_half cf = cf\<lparr>isLeftHand := \<not> isLeftHand cf\<rparr>"

definition split_round ::
    "encoder_config \<Rightarrow> 'v encoder_env \<Rightarrow> 'w encoder_env \<Rightarrow> (nat \<Rightarrow> int) list \<times> (nat \<Rightarrow> int) list \<Rightarrow>
     'v encoder_vars \<times> 'w encoder_vars \<Rightarrow> 'v encoder_vars \<times> 'w encoder_vars" where
  "split_round cf e' e = (\<lambda>(xs, ys) (far, near).
    let far = encoder_scans (other_half cf) e' xs far;
        near = encoder_scans cf e ys near
    in (far, encoder_update_raw cf e (encoder_state_raw (other_half cf) far) near))"

lemma net_other_half [simp]: "net_turns (other_half cf) k calls = net_turns cf k calls"
proof -
  have "call_turns (other_half cf) k = call_turns cf k"
    by (rule ext, rename_tac call, case_tac call) (simp_all add: other_half_def ENCODER_COUNTER_CLOCKWISE_def)
  then show ?thesis
    by (simp add: net_turns_def)
qed

lemma other_half_simps [simp]:
  "SPLIT_KEYBOARD (other_half cf) = SPLIT_KEYBOARD cf" "encoder_resolutions (other_half cf) = encoder_resolutions cf"
  "NUM_ENCODERS (other_half cf) = NUM_ENCODERS cf"
  "thisHand (other_half cf) = thatHand cf"
  "SPLIT_KEYBOARD cf \<Longrightarrow> thisCount (other_half cf) = thatCount cf"
  "SPLIT_KEYBOARD cf \<Longrightarrow> encoder_config_ok (other_half cf) = encoder_config_ok cf"
  by (auto simp: other_half_def thisHand_def thatHand_def thisCount_def thatCount_def NUM_ENCODERS_def encoder_config_ok_def)

lemma last_Cons_append: "last (x # xs @ ys) = last (last (x # xs) # ys)"
  by simp

lemma slow_append: "slow n x (xs @ ys) \<longleftrightarrow> slow n x xs \<and> slow n (last (x # xs)) ys"
  by (induction xs arbitrary: x) auto

definition rounds_ok ::
    "encoder_config \<Rightarrow> (nat \<Rightarrow> int) \<Rightarrow> (nat \<Rightarrow> int) \<Rightarrow> ((nat \<Rightarrow> int) list \<times> (nat \<Rightarrow> int) list) list \<Rightarrow> bool" where
  "rounds_ok cf x y rounds \<longleftrightarrow>
     slow (thatCount cf) x (concat (map fst rounds)) \<and> slow (thisCount cf) y (concat (map snd rounds)) \<and>
     (\<forall>(xs, ys) \<in> set rounds. length xs \<le> 127)"

lemma rounds_track:
  assumes ok: "encoder_config_ok cf" "SPLIT_KEYBOARD cf" "detents_ok (other_half cf) x0" "detents_ok cf y0"
    and master: "\<forall>v. \<not> should_process_encoder e' v" "\<forall>w. should_process_encoder e w"
  shows "encoder_tracks (other_half cf) e' False v x0 x calls' far \<Longrightarrow> encoder_tracks cf e True w y0 y calls near \<Longrightarrow>
    (\<forall>i<thatCount cf. net_turns cf (i + thatHand cf) calls = net_turns cf (i + thatHand cf) calls') \<Longrightarrow>
    rounds_ok cf x y rounds \<Longrightarrow> fold (split_round cf e' e) rounds (far, near) = (far1, near1) \<Longrightarrow>
    \<exists>calls1' calls1. encoder_tracks (other_half cf) e' False v x0 (last (x # concat (map fst rounds))) calls1' far1 \<and>
      encoder_tracks cf e True w y0 (last (y # concat (map snd rounds))) calls1 near1 \<and>
      (\<forall>i<thatCount cf. net_turns cf (i + thatHand cf) calls1 = net_turns cf (i + thatHand cf) calls1')"
proof (induction rounds arbitrary: x y calls' calls far near)
  case Nil
  then show ?case
    by auto
next
  case (Cons round rounds)
  obtain xs ys where round: "round = (xs, ys)"
    by (cases round)
  define far2 where "far2 = encoder_scans (other_half cf) e' xs far"
  define near2 where "near2 = encoder_scans cf e ys near"
  have slow: "slow (thisCount (other_half cf)) x xs" "slow (thisCount cf) y ys" "length xs \<le> 127"
      and rest: "rounds_ok cf (last (x # xs)) (last (y # ys)) rounds"
    using Cons.prems(4) ok(2) by (auto simp: rounds_ok_def slow_append round)
  obtain new' where far2: "encoder_tracks (other_half cf) e' False v x0 (last (x # xs)) (calls' @ new') far2"
      and turned: "\<And>k. \<bar>net_turns cf k new'\<bar> \<le> of_bool (own_encoder (other_half cf) k) * int (length xs)"
    using encoder_scans_track [OF _ ok(3) _ Cons.prems(1) slow(1)] ok(1,2) master(1) by (auto simp: far2_def)
  obtain new where near2: "encoder_tracks cf e True w y0 (last (y # ys)) (calls @ new) near2"
      and own: "\<And>k. \<bar>net_turns cf k new\<bar> \<le> of_bool (own_encoder cf k) * int (length ys)"
    using encoder_scans_track [OF ok(1,4) _ Cons.prems(2) slow(2)] master(2) by (auto simp: near2_def)
  obtain got where near3: "encoder_tracks cf e True w y0 (last (y # ys)) (calls @ new @ got)
        (encoder_update_raw cf e (encoder_state_raw (other_half cf) far2) near2)"
      and got: "\<And>i. i < thatCount cf \<Longrightarrow> net_turns cf (i + thatHand cf) got =
        sint (encoder_state_raw (other_half cf) far2 ! i - of_int (net_turns cf (i + thatHand cf) (calls @ new)))"
    using encoder_update_raw_tracks [OF ok(1,2) near2] by force
  have same: "net_turns cf (i + thatHand cf) (calls @ new @ got) = net_turns cf (i + thatHand cf) (calls' @ new')"
    if "i < thatCount cf" for i
  proof -
    have "\<not> own_encoder cf (i + thatHand cf)"
      using that by (auto simp: own_encoder_def thisHand_def thatHand_def thisCount_def thatCount_def ok(2) split: if_splits)
    then have "net_turns cf (i + thatHand cf) new = 0"
      using own [of "i + thatHand cf"] by simp
    moreover have "encoder_state_raw (other_half cf) far2 ! i = of_int (net_turns cf (i + thatHand cf) (calls' @ new'))"
      using far2 that far_bound [OF that] by (simp add: encoder_state_raw_def encoder_tracks_def add.commute ok(2) del: net_turns_simps)
    moreover have "\<bar>net_turns cf (i + thatHand cf) new'\<bar> \<le> 127"
      using turned [of "i + thatHand cf"] slow(3) by (auto split: if_splits intro: order_trans)
    ultimately show ?thesis
      using got [OF that] Cons.prems(3) that sint_u8_of_int [of "net_turns cf (i + thatHand cf) new'"] by simp
  qed
  have "split_round cf e' e round (far, near) = (far2, encoder_update_raw cf e (encoder_state_raw (other_half cf) far2) near2)"
    by (simp add: round split_round_def far2_def near2_def Let_def)
  then have "fold (split_round cf e' e) rounds (far2, encoder_update_raw cf e (encoder_state_raw (other_half cf) far2) near2) = (far1, near1)"
    using Cons.prems(5) by simp
  from Cons.IH [OF far2 near3 _ rest this] same show ?case
    by (simp only: round list.map fst_conv snd_conv concat.simps last_Cons_append) blast
qed

lemma encoder_tracks_rest:
  assumes "encoder_tracks cf e master w x0 x calls s" "i < thisCount cf"
  shows "\<bar>x i - x0 i - uint (encoder_resolutions cf ! i) * net_turns cf (i + thisHand cf) calls\<bar> < uint (encoder_resolutions cf ! i)"
proof -
  have "x i - x0 i - uint (encoder_resolutions cf ! i) * net_turns cf (i + thisHand cf) calls = sint (encoder_pulses s ! i)"
    using assms by (simp add: encoder_tracks_def algebra_simps)
  then show ?thesis
    using assms by (simp add: encoder_tracks_def)
qed

text \<open>What every half counts, with the resolutions that the code looks up.\<close>

lemma split_encoders_track:
  assumes "encoder_config_ok cf" "SPLIT_KEYBOARD cf" "detents_ok (other_half cf) x0" "detents_ok cf y0"
    and "\<forall>v. \<not> should_process_encoder e' v" "\<forall>w. should_process_encoder e w"
    and "rounds_ok cf x0 y0 rounds"
    and "fold (split_round cf e' e) rounds
        (encoder_init (other_half cf) (pads_at \<circ> x0) (encoder_start cf v), encoder_init cf (pads_at \<circ> y0) (encoder_start cf w)) = (far, near)"
  shows "\<exists>calls. enc_world near = fold (run_call cf e) calls w \<and>
    (\<forall>i<thisCount cf. \<bar>last (y0 # concat (map snd rounds)) i - y0 i -
        uint (encoder_resolutions cf ! i) * net_turns cf (i + thisHand cf) calls\<bar> < uint (encoder_resolutions cf ! i)) \<and>
    (\<forall>i<thatCount cf. \<bar>last (x0 # concat (map fst rounds)) i - x0 i -
        uint (encoder_resolutions cf ! i) * net_turns cf (i + thatHand cf) calls\<bar> < uint (encoder_resolutions cf ! i))"
proof -
  have "encoder_tracks (other_half cf) e' False v x0 x0 [] (encoder_init (other_half cf) (pads_at \<circ> x0) (encoder_start cf v))"
    using encoder_init_tracks [of "other_half cf" e' False v x0] assms(1,2) by (simp add: encoder_start_def)
  moreover have "encoder_tracks cf e True w y0 y0 [] (encoder_init cf (pads_at \<circ> y0) (encoder_start cf w))"
    by (rule encoder_init_tracks [OF assms(1)])
  ultimately obtain calls' calls where
    "encoder_tracks (other_half cf) e' False v x0 (last (x0 # concat (map fst rounds))) calls' far"
    "encoder_tracks cf e True w y0 (last (y0 # concat (map snd rounds))) calls near"
    and same: "\<forall>i<thatCount cf. net_turns cf (i + thatHand cf) calls = net_turns cf (i + thatHand cf) calls'"
    using rounds_track [OF assms(1-6) _ _ _ assms(7,8)] by force
  note far = this(1) and near = this(2)
  have "enc_world near = fold (run_call cf e) calls w"
    using near by (simp add: encoder_tracks_def)
  moreover note encoder_tracks_rest [OF near]
  moreover have "\<bar>last (x0 # concat (map fst rounds)) i - x0 i -
      uint (encoder_resolutions cf ! i) * net_turns cf (i + thatHand cf) calls\<bar> < uint (encoder_resolutions cf ! i)"
    if "i < thatCount cf" for i
    using encoder_tracks_rest [OF far, of i] that same assms(2) by simp
  ultimately show ?thesis
    by blast
qed

text \<open>
  The encoders of the right half have the resolutions of those of the left half at the same positions, as they do without
  \<open>ENCODER_RESOLUTIONS_RIGHT\<close>.
\<close>

definition same_resolutions :: "encoder_config \<Rightarrow> bool" where
  "same_resolutions cf \<longleftrightarrow>
     (\<forall>i < NUM_ENCODERS_RIGHT cf. encoder_resolutions cf ! (i + NUM_ENCODERS_LEFT cf) = encoder_resolutions cf ! i)"

lemma same_resolution:
  assumes "same_resolutions cf" "SPLIT_KEYBOARD cf"
  shows "i < thisCount cf \<Longrightarrow> encoder_resolutions cf ! (i + thisHand cf) = encoder_resolutions cf ! i"
    and "i < thatCount cf \<Longrightarrow> encoder_resolutions cf ! (i + thatHand cf) = encoder_resolutions cf ! i"
  using assms by (auto simp: same_resolutions_def thisCount_def thatCount_def thisHand_def thatHand_def split: if_splits)

text \<open>
  (C14)
  A rotary encoder reports the turns of its shaft.  From power-up, with shafts that move by at most a quarter step
  between two scans, on either half of a split keyboard whose halves have the same resolutions, the turns that the master
  has reported for an encoder times the resolution of that encoder are the quarter steps from its first position, up to a
  rest below the resolution; the turns of the other half arrive if there are at most 127 scans between two transfers,
  although the values sent wrap around.  (With different resolutions the right half counts with those of the left one:
  \<open>right_half_uses_left_resolution\<close>.)
\<close>

theorem split_encoders_report_turns:
  assumes "encoder_config_ok cf" "SPLIT_KEYBOARD cf" "same_resolutions cf" "detents_ok (other_half cf) x0" "detents_ok cf y0"
    and "\<forall>v. \<not> should_process_encoder e' v" "\<forall>w. should_process_encoder e w"
    and "rounds_ok cf x0 y0 rounds"
    and "fold (split_round cf e' e) rounds
        (encoder_init (other_half cf) (pads_at \<circ> x0) (encoder_start cf v), encoder_init cf (pads_at \<circ> y0) (encoder_start cf w)) = (far, near)"
  shows "\<exists>calls. enc_world near = fold (run_call cf e) calls w \<and>
    (\<forall>i<thisCount cf. let r = uint (encoder_resolutions cf ! (i + thisHand cf)) in
      \<bar>last (y0 # concat (map snd rounds)) i - y0 i - r * net_turns cf (i + thisHand cf) calls\<bar> < r) \<and>
    (\<forall>i<thatCount cf. let r = uint (encoder_resolutions cf ! (i + thatHand cf)) in
      \<bar>last (x0 # concat (map fst rounds)) i - x0 i - r * net_turns cf (i + thatHand cf) calls\<bar> < r)"
  using split_encoders_track [OF assms(1,2,4-9)] same_resolution [OF assms(3,2)] by (simp add: Let_def)

text \<open>The right half looks up its resolutions among those of the left half.\<close>

lemma right_half_uses_left_resolution:
  assumes "SPLIT_KEYBOARD cf" "\<not> isLeftHand cf" "0 < NUM_ENCODERS_LEFT cf" "0 < NUM_ENCODERS_RIGHT cf"
    and "resolutions = (encoder_resolutions cf)[NUM_ENCODERS_LEFT cf := r]"
  shows "encoder_update (cf\<lparr>encoder_resolutions := resolutions\<rparr>) e 0 state s = encoder_update cf e 0 state s"
proof -
  have "resolutions ! 0 = encoder_resolutions cf ! 0"
    using assms(3,5) by simp
  moreover have "encoder_turn (cf\<lparr>encoder_resolutions := resolutions\<rparr>) e = encoder_turn cf e"
    by (intro ext) (simp add: encoder_turn_def encoder_exec_mapping_def)
  then have "encoder_count (cf\<lparr>encoder_resolutions := resolutions\<rparr>) e = encoder_count cf e"
    by (intro ext) (simp add: encoder_count_def ENCODER_CLOCKWISE_def ENCODER_COUNTER_CLOCKWISE_def)
  ultimately show ?thesis
    by (cases "ENCODER_DEFAULT_POS cf") (simp_all add: encoder_update_def thisHand_def Let_def)
qed

section \<open>Witnesses\<close>

definition example_encoders :: encoder_config where
  "example_encoders =
    \<lparr>SPLIT_KEYBOARD = True, isLeftHand = True, NUM_ENCODERS_LEFT = 1, NUM_ENCODERS_RIGHT = 1, encoder_resolutions = [4, 4],
     ENCODER_DEFAULT_POS = Some 3, ENCODER_DIRECTION_FLIP = False, ENCODER_MAP = False, ENCODER_MAP_KEY_DELAY = 0\<rparr>"

definition example_encoder_env :: "bool \<Rightarrow> (u8 \<times> bool) list encoder_env" where
  "example_encoder_env master =
    \<lparr>en_timer = (\<lambda>_. 0), en_action_exec = (\<lambda>_ w. w), en_wait_ms = (\<lambda>_ w. w), en_tap_code_delay = (\<lambda>_ _ w. w),
     encoder_update_user = (\<lambda>i clockwise w. (False, w @ [(i, clockwise)])), should_process_encoder = (\<lambda>_. master),
     last_encoder_activity_trigger = (\<lambda>w. w)\<rparr>"

definition example_rounds :: "((nat \<Rightarrow> int) list \<times> (nat \<Rightarrow> int) list) list" where
  "example_rounds =
    [([\<lambda>_. 3, \<lambda>_. 4, \<lambda>_. 5, \<lambda>_. 6], [\<lambda>_. 1, \<lambda>_. 0]), ([\<lambda>_. 7, \<lambda>_. 8, \<lambda>_. 9, \<lambda>_. 10, \<lambda>_. 11], [\<lambda>_. - 1, \<lambda>_. - 2, \<lambda>_. - 3])]"

lemma example_encoders_ok:
  "encoder_config_ok example_encoders" "SPLIT_KEYBOARD example_encoders" "same_resolutions example_encoders"
  "detents_ok (other_half example_encoders) (\<lambda>_. 2)" "detents_ok example_encoders (\<lambda>_. 2)"
  "\<forall>v. \<not> should_process_encoder (example_encoder_env False) v" "\<forall>w. should_process_encoder (example_encoder_env True) w"
  "rounds_ok example_encoders (\<lambda>_. 2) (\<lambda>_. 2) example_rounds"
proof -
  have "read_pads (pads_at 2) = 3"
    by (cases "2 :: int" rule: pads_cases) simp_all
  then show "detents_ok (other_half example_encoders) (\<lambda>_. 2)" "detents_ok example_encoders (\<lambda>_. 2)"
    by (simp_all add: detents_ok_def example_encoders_def other_half_def thisCount_def)
qed (simp_all add: example_encoders_def example_encoder_env_def example_rounds_def rounds_ok_def encoder_config_ok_def
    same_resolutions_def NUM_ENCODERS_def thisCount_def thatCount_def)

lemma split_encoders_report_turns_witness:
  "\<exists>calls.
    enc_world (snd (fold (split_round example_encoders (example_encoder_env False) (example_encoder_env True)) example_rounds
      (encoder_init (other_half example_encoders) (pads_at \<circ> (\<lambda>_. 2)) (encoder_start example_encoders []),
       encoder_init example_encoders (pads_at \<circ> (\<lambda>_. 2)) (encoder_start example_encoders [])))) =
      fold (run_call example_encoders (example_encoder_env True)) calls [] \<and>
    \<bar>- 5 - 4 * net_turns example_encoders 0 calls\<bar> < 4 \<and> \<bar>9 - 4 * net_turns example_encoders 1 calls\<bar> < 4"
proof -
  have "thisCount example_encoders = 1" "thatCount example_encoders = 1" "thisHand example_encoders = 0" "thatHand example_encoders = 1"
    by (simp_all add: example_encoders_def thisCount_def thatCount_def thisHand_def thatHand_def)
  then show ?thesis
    using split_encoders_report_turns [OF example_encoders_ok prod.collapse [symmetric], of "[]" "[]"]
    by (auto simp: example_rounds_def example_encoders_def)
qed

end
