(* ===== verification/Autocorrect.thy ===== *)
theory Autocorrect
  imports Events "HOL-Library.Sublist"
begin

text \<open>
  quantum/process_keycode/process_autocorrect.c: typos are found in the last letters typed and corrected by backspaces
  and the rest of the right word.  The typos are a trie, written backwards and packed into an array of bytes.

  What the rest of the firmware does is an environment over a state \<open>'w\<close>.  \<open>None\<close> stands for an access outside of
  \<open>autocorrect_data\<close> or of the arrays \<open>typo\<close> and \<open>correct\<close>.  \<open>typo_buffer_size\<close> stays below 256 and is a natural number.
  Tapping, layers and \<open>SWAP_HANDS_ENABLE\<close> are on.
\<close>

record 'w autocorrect_env =
  AUTOCORRECT_MIN_LENGTH :: nat
  AUTOCORRECT_MAX_LENGTH :: nat
  autocorrect_data :: "u8 list"
  ac_get_mods :: "'w \<Rightarrow> u8"
  ac_get_oneshot_mods :: "'w \<Rightarrow> u8"
  ac_eeconfig_update_keymap :: "bool \<Rightarrow> 'w \<Rightarrow> 'w"
  ac_tap_code :: "u8 \<Rightarrow> 'w \<Rightarrow> 'w"
  ac_send_string_P :: "u8 list \<Rightarrow> 'w \<Rightarrow> 'w"
  process_autocorrect_user :: "u16 \<Rightarrow> keyrecord_t \<Rightarrow> nat \<Rightarrow> u8 \<Rightarrow> 'w \<Rightarrow> (bool \<times> u16 \<times> nat \<times> u8) \<times> 'w"
  apply_autocorrect :: "u8 \<Rightarrow> u8 list \<Rightarrow> u8 list \<Rightarrow> u8 list \<Rightarrow> 'w \<Rightarrow> bool \<times> 'w"

record 'w autocorrect_vars =
  autocorrect_on :: bool
  typo_buffer :: "u8 list"
  typo_buffer_size :: nat
  ac_world :: 'w

abbreviation AC_SPC :: "'a::len word" where "AC_SPC \<equiv> 0x2C"

abbreviation AC_QUOTE :: "'a::len word" where "AC_QUOTE \<equiv> 0x34"

definition autocorrect_start :: "'w autocorrect_env \<Rightarrow> bool \<Rightarrow> 'w \<Rightarrow> 'w autocorrect_vars" where
  "autocorrect_start e enable w =
    \<lparr>autocorrect_on = enable, typo_buffer = AC_SPC # replicate (AUTOCORRECT_MAX_LENGTH e - 1) 0, typo_buffer_size = 1,
     ac_world = w\<rparr>"

section \<open>Switching it on and off\<close>

definition autocorrect_enable :: "'w autocorrect_env \<Rightarrow> 'w autocorrect_vars \<Rightarrow> 'w autocorrect_vars" where
  "autocorrect_enable e s = s\<lparr>autocorrect_on := True, ac_world := ac_eeconfig_update_keymap e True (ac_world s)\<rparr>"

definition autocorrect_disable :: "'w autocorrect_env \<Rightarrow> 'w autocorrect_vars \<Rightarrow> 'w autocorrect_vars" where
  "autocorrect_disable e s =
    s\<lparr>autocorrect_on := False, typo_buffer_size := 0, ac_world := ac_eeconfig_update_keymap e False (ac_world s)\<rparr>"

definition autocorrect_toggle :: "'w autocorrect_env \<Rightarrow> 'w autocorrect_vars \<Rightarrow> 'w autocorrect_vars" where
  "autocorrect_toggle e s =
    s\<lparr>autocorrect_on := \<not> autocorrect_on s, typo_buffer_size := 0,
      ac_world := ac_eeconfig_update_keymap e (\<not> autocorrect_on s) (ac_world s)\<rparr>"

section \<open>The keys that count\<close>

definition ac_in :: "u16 \<Rightarrow> u16 \<Rightarrow> u16 \<Rightarrow> bool" where
  "ac_in lo hi k \<longleftrightarrow> lo \<le> k \<and> k \<le> hi"

text \<open>The keycodes of the first case of the switch.\<close>

definition autocorrect_excluded :: "u16 \<Rightarrow> bool" where
  "autocorrect_excluded k \<longleftrightarrow> k = 0xE1 \<or> k = 0xE5 \<or> k = 0x39 \<or> ac_in 0x5200 0x521F k \<or> ac_in 0x5220 0x523F k \<or>
     ac_in 0x5240 0x525F k \<or> ac_in 0x5260 0x527F k \<or> ac_in 0x5280 0x529F k \<or> ac_in 0x52C0 0x52DF k \<or>
     ac_in 0x5000 0x51FF k \<or> ac_in 0x52A0 0x52BF k"

text \<open>The result, and the keycode, buffer size and modifiers that the handler leaves.\<close>

definition process_autocorrect_default_handler :: "u16 \<Rightarrow> keyrecord_t \<Rightarrow> nat \<Rightarrow> u8 \<Rightarrow> bool \<times> u16 \<times> nat \<times> u8" where
  "process_autocorrect_default_handler keycode r n mods =
    (let after = (\<lambda>keycode.
       if mods AND NOT 0x22 \<noteq> 0 then (False, keycode, 0, mods) else (True, keycode, n, mods))
     in if autocorrect_excluded keycode then (False, keycode, n, mods)
        else if ac_in 0x0200 0x02FF keycode then (True, keycode AND 0xFF, n, mods OR 0x02)
        else if ac_in 0x1200 0x12FF keycode then (True, keycode AND 0xFF, n, mods OR 0x12)
        else if ac_in 0x4000 0x4FFF keycode \<or> ac_in 0x2000 0x3FFF keycode then
          (if tap_count r = 0 then (False, keycode, n, mods) else after (keycode AND 0xFF))
        else if ac_in 0x5600 0x56FF keycode then
          (if ac_in 0x56F0 0x56F6 keycode \<or> tap_count r = 0 then (False, keycode, n, mods) else after (keycode AND 0xFF))
        else after keycode)"

section \<open>The search\<close>

definition data_at :: "u8 list \<Rightarrow> nat \<Rightarrow> u8 option" where
  "data_at data i = (if i < length data then Some (data ! i) else None)"

text \<open>The loop over the children of a node; its result is the state at the child, or none.\<close>

function find_child :: "u8 list \<Rightarrow> nat \<Rightarrow> u8 \<Rightarrow> u8 \<Rightarrow> nat option option" where
  "find_child data state code key =
    (if code = key then Some (Some state)
     else if code = 0 then Some None
     else if state + 3 < length data then find_child data (state + 3) (data ! (state + 3)) key
     else None)"
  by pat_completeness auto

termination
  by (relation "measure (\<lambda>(data, state, _). length data - state)") auto

declare find_child.simps [simp del]

text \<open>The first half of a turn of the loop: the state behind a letter.\<close>

definition trie_step :: "u8 list \<Rightarrow> u8 \<Rightarrow> nat \<Rightarrow> u8 \<Rightarrow> nat option option" where
  "trie_step data key state code =
    (if code AND 64 \<noteq> 0 then
       (case find_child data state (code AND 63) key of
          None \<Rightarrow> None
        | Some None \<Rightarrow> Some None
        | Some (Some state) \<Rightarrow>
            (case (data_at data (state + 1), data_at data (state + 2)) of
               (Some lo, Some hi) \<Rightarrow> Some (Some (unat lo + 256 * unat hi))
             | _ \<Rightarrow> None))
     else if code \<noteq> key then Some None
     else case data_at data (state + 1) of
            None \<Rightarrow> None
          | Some code \<Rightarrow> Some (Some (if code = 0 then state + 2 else state + 1)))"

text \<open>
  The code keeps \<open>state\<close> in 16 bits and the index into the typo buffer in a signed byte; here they are unbounded.  They
  agree for what lib/python/qmk/cli/generate/autocorrect_data.py generates: it refuses typos of more than 127 letters
  and data whose links do not fit into 16 bits.
\<close>

fun search_typo :: "u8 list \<Rightarrow> u8 list \<Rightarrow> nat \<Rightarrow> u8 \<Rightarrow> nat option option" where
  "search_typo data [] state code = Some None"
| "search_typo data (key # keys) state code =
    (case trie_step data key state code of
       None \<Rightarrow> None
     | Some None \<Rightarrow> Some None
     | Some (Some state) \<Rightarrow>
         (if length data \<le> state then Some None
          else if data ! state AND 128 \<noteq> 0 then Some (Some state)
          else search_typo data keys state (data ! state)))"

section \<open>The correction\<close>

fun last_word :: "u8 list \<Rightarrow> nat \<Rightarrow> nat \<Rightarrow> nat \<Rightarrow> nat \<times> nat" where
  "last_word buffer n 0 len = (0, len)"
| "last_word buffer n (Suc i) len =
    (if buffer ! i = AC_SPC \<and> Suc i \<noteq> n then (Suc i, len) else last_word buffer n i (len + 1))"

definition c_string_at :: "u8 list \<Rightarrow> nat \<Rightarrow> u8 list option" where
  "c_string_at data i = (if 0 \<in> set (drop i data) then Some (takeWhile (\<lambda>c. c \<noteq> 0) (drop i data)) else None)"

text \<open>The strings \<open>typo\<close> and \<open>correct\<close>, without their terminators.\<close>

definition gather_words :: "nat \<Rightarrow> u8 list \<Rightarrow> nat \<Rightarrow> nat \<Rightarrow> u8 list \<Rightarrow> (u8 list \<times> u8 list) option" where
  "gather_words max_length buffer n backspaces changes =
    (let space_last = buffer ! (n - 1) = AC_SPC;
         (typo_start, typo_len) = last_word buffer n n 0;
         typo_len = (if space_last then typo_len - 1 else typo_len);
         typo = map (\<lambda>i. buffer ! (typo_start + i) - 4 + 97) [0..<typo_len];
         offset = (if space_last then backspaces else backspaces + 1)
     in if typo_len < offset \<or> max_length + 10 \<le> typo_len - offset + length changes then None
        else Some (typo, take (typo_len - offset) typo @ changes))"

definition correct_typo ::
    "'w autocorrect_env \<Rightarrow> bool \<Rightarrow> u16 \<Rightarrow> nat \<Rightarrow> 'w autocorrect_vars \<Rightarrow> (bool \<times> 'w autocorrect_vars) option" where
  "correct_typo e pressed keycode state s =
    (case c_string_at (autocorrect_data e) (state + 1) of
       None \<Rightarrow> None
     | Some changes \<Rightarrow>
         (let backspaces = (autocorrect_data e ! state AND 63) + of_bool (\<not> pressed)
          in case gather_words (AUTOCORRECT_MAX_LENGTH e) (typo_buffer s) (typo_buffer_size s) (unat backspaces) changes of
               None \<Rightarrow> None
             | Some (typo, correct) \<Rightarrow>
                 (let (apply, w) = apply_autocorrect e backspaces changes typo correct (ac_world s);
                      w = (if apply then ac_send_string_P e changes ((ac_tap_code e 0x2A ^^ unat backspaces) w) else w);
                      s = s\<lparr>ac_world := w\<rparr>
                  in if keycode = AC_SPC then Some (True, s\<lparr>typo_buffer := (typo_buffer s)[0 := AC_SPC], typo_buffer_size := 1\<rparr>)
                     else Some (False, s\<lparr>typo_buffer_size := 0\<rparr>))))"

section \<open>A key\<close>

text \<open>The buffer with a key appended, and the check.\<close>

definition autocorrect_append ::
    "'w autocorrect_env \<Rightarrow> bool \<Rightarrow> u16 \<Rightarrow> 'w autocorrect_vars \<Rightarrow> (bool \<times> 'w autocorrect_vars) option" where
  "autocorrect_append e pressed keycode s =
    (let s = (if AUTOCORRECT_MAX_LENGTH e \<le> typo_buffer_size s then
                s\<lparr>typo_buffer := take (AUTOCORRECT_MAX_LENGTH e - 1) (tl (typo_buffer s)) @ drop (AUTOCORRECT_MAX_LENGTH e - 1) (typo_buffer s),
                  typo_buffer_size := AUTOCORRECT_MAX_LENGTH e - 1\<rparr>
              else s);
         s = s\<lparr>typo_buffer := (typo_buffer s)[typo_buffer_size s := ucast keycode], typo_buffer_size := typo_buffer_size s + 1\<rparr>
     in if typo_buffer_size s < AUTOCORRECT_MIN_LENGTH e then Some (True, s)
        else case data_at (autocorrect_data e) 0 of
               None \<Rightarrow> None
             | Some code \<Rightarrow>
                 (case search_typo (autocorrect_data e) (rev (take (typo_buffer_size s) (typo_buffer s))) 0 code of
                    None \<Rightarrow> None
                  | Some None \<Rightarrow> Some (True, s)
                  | Some (Some state) \<Rightarrow> correct_typo e pressed keycode state s))"

definition process_autocorrect ::
    "'w autocorrect_env \<Rightarrow> u16 \<Rightarrow> keyrecord_t \<Rightarrow> 'w autocorrect_vars \<Rightarrow> (bool \<times> 'w autocorrect_vars) option" where
  "process_autocorrect e keycode r s =
    (let mods = ac_get_mods e (ac_world s) OR ac_get_oneshot_mods e (ac_world s);
         pressed = ev_pressed (event r)
     in if ac_in 0x7C74 0x7C76 keycode \<and> pressed then
          (if keycode = 0x7C74 then Some (False, autocorrect_enable e s)
           else if keycode = 0x7C75 then Some (False, autocorrect_disable e s)
           else Some (False, autocorrect_toggle e s))
        else if \<not> autocorrect_on s then Some (True, s\<lparr>typo_buffer_size := 0\<rparr>)
        else if \<not> pressed then Some (True, s)
        else
          (let ((ok, keycode, n, mods), w) = process_autocorrect_user e keycode r (typo_buffer_size s) mods (ac_world s);
               s = s\<lparr>typo_buffer_size := n, ac_world := w\<rparr>
           in if \<not> ok then Some (True, s)
              else if ac_in 0x04 0x1D keycode then autocorrect_append e pressed keycode s
              else if ac_in 0x1E 0x27 keycode \<or> ac_in 0x2B 0x33 keycode \<or> ac_in 0x35 0x38 keycode then
                autocorrect_append e pressed AC_SPC s
              else if keycode = 0x28 then autocorrect_append e pressed AC_SPC (s\<lparr>typo_buffer_size := 0\<rparr>)
              else if keycode = 0x2A then Some (True, s\<lparr>typo_buffer_size := typo_buffer_size s - 1\<rparr>)
              else if keycode = AC_QUOTE then
                autocorrect_append e pressed (if mods AND 0x22 \<noteq> 0 then AC_SPC else keycode) s
              else Some (True, s\<lparr>typo_buffer_size := 0\<rparr>)))"

section \<open>The dictionary\<close>

text \<open>
  A trie of typos: a leaf holds the backspaces and the rest of the right word.  \<open>packed data t p\<close> says that the data
  hold \<open>t\<close> from \<open>p\<close> on, in the layout of lib/python/qmk/cli/generate/autocorrect_data.py.
\<close>

datatype typo_trie = Leaf u8 "u8 list" | Chain "u8 list" typo_trie | Branch "(u8 \<times> typo_trie) list"

inductive packed :: "u8 list \<Rightarrow> typo_trie \<Rightarrow> nat \<Rightarrow> bool" for data where
  packed_Leaf:
    "b < 64 \<Longrightarrow> 0 \<notin> set changes \<Longrightarrow> prefix ((128 OR b) # changes @ [0]) (drop p data) \<Longrightarrow> packed data (Leaf b changes) p"
| packed_Chain:
    "cs \<noteq> [] \<Longrightarrow> \<forall>c \<in> set cs. 0 < c \<and> c < 64 \<Longrightarrow> prefix (cs @ [0]) (drop p data) \<Longrightarrow>
     packed data t (p + length cs + 1) \<Longrightarrow> packed data (Chain cs t) p"
| packed_Branch:
    "ts \<noteq> [] \<Longrightarrow> distinct (map fst ts) \<Longrightarrow> \<forall>c \<in> fst ` set ts. 0 < c \<and> c < 64 \<Longrightarrow>
     p + 3 * length ts < length data \<Longrightarrow> data ! (p + 3 * length ts) = 0 \<Longrightarrow>
     \<forall>k < length ts. data ! (p + 3 * k) = fst (ts ! k) OR (if k = 0 then 64 else 0) \<Longrightarrow>
     \<forall>k < length ts. packed data (snd (ts ! k)) (unat (data ! (p + 3 * k + 1)) + 256 * unat (data ! (p + 3 * k + 2))) \<Longrightarrow>
     packed data (Branch ts) p"

inductive_cases packed_LeafE: "packed data (Leaf b changes) p"
inductive_cases packed_ChainE: "packed data (Chain cs t) p"
inductive_simps packed_Branch_simp: "packed data (Branch ts) p"

text \<open>The typos of a trie, last letter first, with the contents of their leaves.\<close>

fun trie_words :: "typo_trie \<Rightarrow> (u8 list \<times> u8 \<times> u8 list) list" where
  "trie_words (Leaf b changes) = [([], b, changes)]"
| "trie_words (Chain cs t) = map (\<lambda>(w, v). (cs @ w, v)) (trie_words t)"
| "trie_words (Branch ts) = concat (map (\<lambda>(c, t). map (\<lambda>(w, v). (c # w, v)) (trie_words t)) ts)"

definition is_Leaf :: "typo_trie \<Rightarrow> bool" where
  "is_Leaf t \<longleftrightarrow> (\<exists>b changes. t = Leaf b changes)"

lemma u8_masks:
  fixes c :: u8
  assumes "c < 64"
  shows "c AND 64 = 0" "c AND 128 = 0" "c AND 63 = c" "(c OR 64) AND 63 = c" "(c OR 64) AND 64 \<noteq> 0" "(c OR 64) AND 128 = 0"
    "(128 OR c) AND 128 \<noteq> 0" "(128 OR c) AND 63 = c"
proof -
  have masks: "(64 :: u8) = 2 ^ 6" "(128 :: u8) = 2 ^ 7" "(63 :: u8) = mask 6"
    by (simp_all add: mask_eq_exp_minus_1)
  have "c AND mask 6 = c"
    using assms by (intro less_mask_eq) simp
  then have "take_bit 6 c = c"
    by (simp add: take_bit_eq_mask)
  then have small: "bit c i \<Longrightarrow> i < 6" for i
    by (metis bit_take_bit_iff)
  have high: "\<not> bit c 6" "\<not> bit c 7" "bit (64 :: u8) 6" "\<not> bit (64 :: u8) 7" "bit (128 :: u8) 7"
    using small [of 6] small [of 7] by auto
  show "c AND 64 = 0" "c AND 128 = 0" "(c OR 64) AND 64 \<noteq> 0" "(c OR 64) AND 128 = 0" "(128 OR c) AND 128 \<noteq> 0"
    using word_and_mask_eq_0 [of c 6] word_and_mask_eq_0 [of c 7] word_and_mask_eq_0 [of "c OR 64" 6]
      word_and_mask_eq_0 [of "c OR 64" 7] word_and_mask_eq_0 [of "128 OR c" 7] high
    by (simp_all add: bit_or_iff)
  have low: "\<not> bit (64 :: u8) n" "\<not> bit (128 :: u8) n" if "n < 6" for n
    using that bit_exp_iff [where 'a = "u8", of 6 n] bit_exp_iff [where 'a = "u8", of 7 n] by simp_all
  show "c AND 63 = c" "(c OR 64) AND 63 = c" "(128 OR c) AND 63 = c"
    unfolding masks(3) by (rule bit_word_eqI; use low small in \<open>auto simp: bit_simps\<close>)+
qed

lemma prefix_drop_nth:
  assumes "prefix xs (drop p data)" "i < length xs"
  shows "p + i < length data" "data ! (p + i) = xs ! i"
proof -
  obtain ys where ys: "drop p data = xs @ ys"
    using assms(1) by (auto simp: prefix_def)
  then have "length data - p = length xs + length ys"
    by (metis length_append length_drop)
  then show "p + i < length data"
    using assms(2) by simp
  then show "data ! (p + i) = xs ! i"
    using assms(2) ys by (metis nth_append nth_drop add_leD1 less_imp_le)
qed

lemma packed_node:
  assumes "packed data t p"
  shows "p < length data" "data ! p AND 128 \<noteq> 0 \<longleftrightarrow> is_Leaf t"
proof -
  have "p < length data \<and> (data ! p AND 128 \<noteq> 0 \<longleftrightarrow> is_Leaf t)"
    using assms
  proof cases
    case (packed_Leaf b changes)
    then show ?thesis
      using prefix_drop_nth [OF packed_Leaf(4), of 0] by (simp add: is_Leaf_def u8_masks)
  next
    case (packed_Chain cs t')
    then show ?thesis
      using prefix_drop_nth [OF packed_Chain(4), of 0] by (auto simp: is_Leaf_def u8_masks nth_append)
  next
    case (packed_Branch ts)
    have "fst (ts ! 0) < 64" "data ! p = fst (ts ! 0) OR 64"
      using packed_Branch(2,4) packed_Branch(7) [rule_format, of 0] by auto
    then show ?thesis
      using packed_Branch(1,5) by (simp add: is_Leaf_def u8_masks)
  qed
  then show "p < length data" "data ! p AND 128 \<noteq> 0 \<longleftrightarrow> is_Leaf t"
    by blast+
qed

text \<open>The search finds the child of a letter.\<close>

lemma find_child_packed:
  "ts \<noteq> [] \<Longrightarrow> p + 3 * length ts < length data \<Longrightarrow> data ! (p + 3 * length ts) = 0 \<Longrightarrow>
   \<forall>k < length ts. 0 < k \<longrightarrow> data ! (p + 3 * k) = fst (ts ! k) \<Longrightarrow> \<forall>c \<in> fst ` set ts. c \<noteq> 0 \<Longrightarrow> key \<noteq> 0 \<Longrightarrow>
   (case map_of ts key of
      None \<Rightarrow> find_child data p (fst (ts ! 0)) key = Some None
    | Some t \<Rightarrow> \<exists>k < length ts. ts ! k = (key, t) \<and> find_child data p (fst (ts ! 0)) key = Some (Some (p + 3 * k)))"
proof (induction ts arbitrary: p)
  case (Cons ct ts)
  obtain c t where ct: "ct = (c, t)"
    by (cases ct)
  have "c \<noteq> 0"
    using Cons.prems(5) by (simp add: ct)
  show ?case
  proof (cases "c = key")
    case True
    then show ?thesis
      by (auto simp: ct find_child.simps)
  next
    case False
    show ?thesis
    proof (cases ts)
      case Nil
      then show ?thesis
        using Cons.prems(2,3,6) False \<open>c \<noteq> 0\<close> by (simp add: ct find_child.simps)
    next
      case (Cons ct' ts')
      have "data ! (p + 3) = fst (ts ! 0)"
        using Cons.prems(4) [rule_format, of 1] Cons by simp
      then have next_child: "find_child data p c key = find_child data (p + 3) (fst (ts ! 0)) key"
        using Cons.prems(2) False \<open>c \<noteq> 0\<close> by (subst find_child.simps) (simp add: add.commute)
      have "case map_of ts key of
          None \<Rightarrow> find_child data (p + 3) (fst (ts ! 0)) key = Some None
        | Some t \<Rightarrow> \<exists>k < length ts. ts ! k = (key, t) \<and> find_child data (p + 3) (fst (ts ! 0)) key = Some (Some (p + 3 + 3 * k))"
      proof (rule Cons.IH)
        show "\<forall>k < length ts. 0 < k \<longrightarrow> data ! (p + 3 + 3 * k) = fst (ts ! k)"
          using Cons.prems(4) by (auto simp: algebra_simps dest: spec [of _ "Suc k" for k])
      qed (use Cons.prems Cons in \<open>simp_all add: algebra_simps\<close>)
      then show ?thesis
        using False by (auto simp: ct next_child split: option.splits intro: exI [of _ "Suc k" for k])
    qed
  qed
qed simp

text \<open>The search as a walk in the trie.\<close>

fun trie_next :: "typo_trie \<Rightarrow> u8 \<Rightarrow> typo_trie option" where
  "trie_next (Leaf b changes) key = None"
| "trie_next (Chain [] t) key = None"
| "trie_next (Chain (c # cs) t) key = (if key = c then Some (if cs = [] then t else Chain cs t) else None)"
| "trie_next (Branch ts) key = map_of ts key"

fun trie_walk :: "typo_trie \<Rightarrow> u8 list \<Rightarrow> (u8 \<times> u8 list) option" where
  "trie_walk t [] = None"
| "trie_walk t (key # keys) =
    (case trie_next t key of
       None \<Rightarrow> None
     | Some (Leaf b changes) \<Rightarrow> Some (b, changes)
     | Some t' \<Rightarrow> trie_walk t' keys)"

lemma packed_tail:
  assumes "packed data (Chain (c # cs) t) p"
  shows "p + 1 < length data" "data ! p = c" "0 < c" "c < 64" "data ! (p + 1) = 0 \<longleftrightarrow> cs = []"
    "if cs = [] then packed data t (p + 2) else packed data (Chain cs t) (p + 1)"
proof -
  from assms have pre: "prefix (c # cs @ [0]) (drop p data)" and cs: "\<forall>c \<in> set (c # cs). 0 < c \<and> c < 64"
      and t: "packed data t (p + length (c # cs) + 1)"
    by (auto elim: packed_ChainE)
  show "p + 1 < length data" "data ! p = c" "0 < c" "c < 64"
    using prefix_drop_nth [OF pre, of 0] prefix_drop_nth [OF pre, of 1] cs by auto
  have "data ! (p + 1) = (cs @ [0]) ! 0"
    using prefix_drop_nth(2) [OF pre, of 1] by simp
  then show "data ! (p + 1) = 0 \<longleftrightarrow> cs = []"
    using cs by (cases cs) auto
  have "prefix (cs @ [0]) (drop (p + 1) data)"
    using pre by (cases "drop p data") (auto simp: drop_Suc simp flip: tl_drop)
  then show "if cs = [] then packed data t (p + 2) else packed data (Chain cs t) (p + 1)"
    using t cs by (auto intro: packed_Chain)
qed

lemma trie_step_packed:
  assumes "packed data t p" "\<not> is_Leaf t" "key \<noteq> 0"
  shows "case trie_next t key of
      None \<Rightarrow> trie_step data key p (data ! p) = Some None
    | Some t' \<Rightarrow> \<exists>q. trie_step data key p (data ! p) = Some (Some q) \<and> packed data t' q"
proof (cases t)
  case (Leaf b changes)
  then show ?thesis
    using assms(2) by (simp add: is_Leaf_def)
next
  case (Chain cs t')
  then obtain c cs' where cs: "cs = c # cs'"
    using assms(1) by (cases cs) (auto elim: packed_ChainE)
  note tail = packed_tail [OF assms(1) [unfolded Chain cs]]
  show ?thesis
    using tail u8_masks [OF tail(4)] by (auto simp: Chain cs trie_step_def data_at_def)
next
  case (Branch ts)
  have b: "ts \<noteq> []" "distinct (map fst ts)" "\<forall>c \<in> set ts. 0 < fst c \<and> fst c < 64"
    "p + 3 * length ts < length data" "data ! (p + 3 * length ts) = 0"
    "\<forall>k < length ts. data ! (p + 3 * k) = fst (ts ! k) OR (if k = 0 then 64 else 0)"
    "\<forall>k < length ts. packed data (snd (ts ! k)) (unat (data ! Suc (p + 3 * k)) + 256 * unat (data ! Suc (Suc (p + 3 * k))))"
    using assms(1) unfolding Branch packed_Branch_simp by - (elim conjE, assumption)+
  have "fst (ts ! 0) < 64" "data ! p = fst (ts ! 0) OR 64"
    using b(1,3) b(6) [rule_format, of 0] by simp_all
  then have node: "data ! p AND 64 \<noteq> 0" "data ! p AND 63 = fst (ts ! 0)"
    by (simp_all add: u8_masks)
  have "case map_of ts key of
      None \<Rightarrow> find_child data p (fst (ts ! 0)) key = Some None
    | Some t \<Rightarrow> \<exists>k < length ts. ts ! k = (key, t) \<and> find_child data p (fst (ts ! 0)) key = Some (Some (p + 3 * k))"
    by (rule find_child_packed) (use b assms(3) in auto)
  moreover have "p + 3 * k + 2 < length data" if "k < length ts" for k
    using b(4) that by simp
  ultimately show ?thesis
    using b(7) node by (fastforce simp: Branch trie_step_def data_at_def split: option.splits)
qed

lemma search_packed:
  "packed data t p \<Longrightarrow> \<not> is_Leaf t \<Longrightarrow> 0 \<notin> set keys \<Longrightarrow>
   (case trie_walk t keys of
      None \<Rightarrow> search_typo data keys p (data ! p) = Some None
    | Some (b, changes) \<Rightarrow> \<exists>state. search_typo data keys p (data ! p) = Some (Some state) \<and> packed data (Leaf b changes) state)"
proof (induction keys arbitrary: t p)
  case (Cons key keys)
  note step = trie_step_packed [OF Cons.prems(1,2), of key]
  show ?case
  proof (cases "trie_next t key")
    case None
    then show ?thesis
      using step Cons.prems(3) by simp
  next
    case (Some t')
    then obtain q where q: "trie_step data key p (data ! p) = Some (Some q)" "packed data t' q"
      using step Cons.prems(3) by auto
    note node = packed_node [OF q(2)]
    show ?thesis
    proof (cases "is_Leaf t'")
      case True
      then show ?thesis
        using Some q node by (auto simp: is_Leaf_def)
    next
      case False
      then have "trie_walk t (key # keys) = trie_walk t' keys"
        using Some by (cases t') (auto simp: is_Leaf_def)
      then show ?thesis
        using Cons.IH [OF q(2) False] Cons.prems(3) q(1) node False by (auto split: option.splits)
    qed
  qed
qed simp

lemma words_next:
  assumes "packed data t p" "\<not> is_Leaf t"
  shows "(w, v) \<in> set (trie_words t) \<longleftrightarrow> (\<exists>key w' t'. w = key # w' \<and> trie_next t key = Some t' \<and> (w', v) \<in> set (trie_words t'))"
  using assms
proof cases
  case (packed_Chain cs t')
  then obtain c cs' where "cs = c # cs'"
    by (cases cs) auto
  then show ?thesis
    using packed_Chain(1) by (auto simp: image_iff) force+
next
  case (packed_Branch ts)
  have "(w, v) \<in> set (trie_words t) \<longleftrightarrow> (\<exists>c t' w'. (c, t') \<in> set ts \<and> w = c # w' \<and> (w', v) \<in> set (trie_words t'))"
    unfolding packed_Branch(1) by force
  then show ?thesis
    using packed_Branch(3) by (auto simp: packed_Branch(1) map_of_eq_Some_iff)
qed (auto simp: is_Leaf_def)

lemma next_packed:
  assumes "packed data t p" "trie_next t key = Some t'"
  shows "\<exists>q. packed data t' q"
proof -
  have "\<not> is_Leaf t"
    using assms(2) by (auto simp: is_Leaf_def)
  moreover have "key \<noteq> 0"
    using assms
  proof cases
    case (packed_Chain cs t')
    then show ?thesis
      using assms(2) by (cases cs) (auto split: if_splits)
  next
    case (packed_Branch ts)
    then have "(key, t') \<in> set ts"
      using assms(2) by (simp add: map_of_eq_Some_iff)
    then show ?thesis
      using packed_Branch(4) by force
  qed auto
  ultimately show ?thesis
    using trie_step_packed [OF assms(1), of key] assms(2) by auto
qed

lemma walk_words:
  "packed data t p \<Longrightarrow> \<not> is_Leaf t \<Longrightarrow>
    trie_walk t keys = Some v \<longleftrightarrow> (\<exists>w. (w, v) \<in> set (trie_words t) \<and> prefix w keys)"
proof (induction keys arbitrary: t p)
  case Nil
  then show ?case
    by (auto simp: words_next)
next
  case (Cons key keys)
  have words: "(\<exists>w. (w, v) \<in> set (trie_words t) \<and> prefix w (key # keys)) \<longleftrightarrow>
      (\<exists>w t'. trie_next t key = Some t' \<and> (w, v) \<in> set (trie_words t') \<and> prefix w keys)"
    unfolding words_next [OF Cons.prems] by (fastforce intro: exI [of _ "key # w" for w])
  show ?case
  proof (cases "trie_next t key")
    case (Some t')
    then obtain q where q: "packed data t' q"
      using next_packed [OF Cons.prems(1)] by blast
    show ?thesis
    proof (cases "is_Leaf t'")
      case True
      then show ?thesis
        unfolding words using Some by (cases v) (auto simp: is_Leaf_def)
    next
      case False
      then have "trie_walk t (key # keys) = trie_walk t' keys"
        using Some by (cases t') (auto simp: is_Leaf_def)
      then show ?thesis
        unfolding words using Cons.IH [OF q False] Some by simp
    qed
  qed (simp add: words)
qed

lemma packed_changes:
  assumes "packed data (Leaf b changes) p"
  shows "data ! p AND 63 = b" "c_string_at data (p + 1) = Some changes"
proof -
  from assms have b: "b < 64" "0 \<notin> set changes" and pre: "prefix ((128 OR b) # changes @ [0]) (drop p data)"
    by (auto elim: packed_LeafE)
  show "data ! p AND 63 = b"
    using prefix_drop_nth(2) [OF pre, of 0] b(1) by (simp add: u8_masks)
  obtain ys where "drop (p + 1) data = changes @ 0 # ys"
    using pre by (cases "drop p data") (auto simp: drop_Suc prefix_def simp flip: tl_drop)
  then show "c_string_at data (p + 1) = Some changes"
    using b(2) by (auto simp: c_string_at_def takeWhile_append)
qed

text \<open>
  (C15)
  The search for typos agrees with the dictionary: for data that hold a trie, it stays inside of them, and it finds a
  leaf, with its backspaces and its letters, if and only if the letters typed last are a typo of the dictionary.
\<close>

theorem search_finds_typos:
  assumes "packed data t 0" "\<not> is_Leaf t" "0 \<notin> set letters"
  shows "case search_typo data (rev letters) 0 (data ! 0) of
      None \<Rightarrow> False
    | Some None \<Rightarrow> \<forall>(w, b, changes) \<in> set (trie_words t). \<not> suffix (rev w) letters
    | Some (Some state) \<Rightarrow> \<exists>(w, b, changes) \<in> set (trie_words t). suffix (rev w) letters \<and>
        data ! state AND 63 = b \<and> c_string_at data (state + 1) = Some changes"
proof -
  have suffix: "suffix (rev w) letters \<longleftrightarrow> prefix w (rev letters)" for w
    by (simp add: suffix_to_prefix)
  show ?thesis
  proof (cases "trie_walk t (rev letters)")
    case None
    then have "\<forall>(w, b, changes) \<in> set (trie_words t). \<not> suffix (rev w) letters"
      using walk_words [OF assms(1,2), of "rev letters"] by (fastforce simp: suffix)
    then show ?thesis
      using search_packed [OF assms(1,2), of "rev letters"] None assms(3) by simp
  next
    case (Some v)
    obtain b changes where v: "v = (b, changes)"
      by (cases v)
    obtain w where "(w, b, changes) \<in> set (trie_words t)" "suffix (rev w) letters"
      using walk_words [OF assms(1,2), of "rev letters" v] Some by (auto simp: suffix v)
    then show ?thesis
      using search_packed [OF assms(1,2), of "rev letters"] Some assms(3) packed_changes by (fastforce simp: v)
  qed
qed

section \<open>Bounds\<close>

text \<open>
  The condition under which a correction stays inside of its arrays: the letters of the last word of the typo are not
  fewer than the backspaces, and the letters to add are at most nine more.
\<close>

definition entry_fits :: "u8 list \<Rightarrow> u8 \<Rightarrow> u8 list \<Rightarrow> bool" where
  "entry_fits w b changes \<longleftrightarrow> w \<noteq> [] \<and>
    (let word = takeWhile (\<lambda>c. c \<noteq> AC_SPC) (if hd w = AC_SPC then tl w else w);
         offset = (if hd w = AC_SPC then unat b else unat b + 1)
     in offset \<le> length word \<and> length changes \<le> 9 + offset)"

definition autocorrect_env_ok :: "'w autocorrect_env \<Rightarrow> typo_trie \<Rightarrow> bool" where
  "autocorrect_env_ok e t \<longleftrightarrow>
     0 < AUTOCORRECT_MAX_LENGTH e \<and> packed (autocorrect_data e) t 0 \<and> \<not> is_Leaf t \<and>
     (\<forall>(w, b, changes) \<in> set (trie_words t). entry_fits w b changes) \<and>
     (\<forall>keycode r n mods w. fst (snd (snd (fst (process_autocorrect_user e keycode r n mods w)))) \<le> n)"

definition typo_buffer_ok :: "'w autocorrect_env \<Rightarrow> 'w autocorrect_vars \<Rightarrow> bool" where
  "typo_buffer_ok e s \<longleftrightarrow>
     length (typo_buffer s) = AUTOCORRECT_MAX_LENGTH e \<and> typo_buffer_size s \<le> AUTOCORRECT_MAX_LENGTH e \<and>
     0 \<notin> set (take (typo_buffer_size s) (typo_buffer s))"

lemma last_word_length:
  "i < n \<Longrightarrow> i \<le> length buffer \<Longrightarrow>
    snd (last_word buffer n i len) = len + length (takeWhile (\<lambda>c. c \<noteq> AC_SPC) (rev (take i buffer)))"
  by (induction i arbitrary: len) (auto simp: take_Suc_conv_app_nth)

lemma last_word_letters:
  assumes "0 < n" "n \<le> length buffer"
  shows "snd (last_word buffer n n 0) = Suc (length (takeWhile (\<lambda>c. c \<noteq> AC_SPC) (rev (take (n - 1) buffer))))"
  using assms last_word_length [of "n - 1" n buffer 1] by (cases n) auto

lemma prefix_takeWhile: "prefix xs ys \<Longrightarrow> length (takeWhile P xs) \<le> length (takeWhile P ys)"
  by (auto simp: prefix_def takeWhile_append) (metis length_takeWhile_le trans_le_add1)

lemma gather_words_fits:
  assumes n: "0 < n" "n \<le> length buffer" "length buffer = max_length"
    and w: "prefix w (rev (take n buffer))" "entry_fits w b changes"
  shows "gather_words max_length buffer n (unat b) changes \<noteq> None"
proof -
  obtain m where m: "n = Suc m"
    using n(1) by (cases n) auto
  obtain c w' where cw: "w = c # w'" and c: "c = buffer ! m" "prefix w' (rev (take m buffer))"
    using w n(2) by (cases w) (auto simp: entry_fits_def m take_Suc_conv_app_nth)
  define word where "word = takeWhile (\<lambda>c. c \<noteq> AC_SPC) (rev (take m buffer))"
  have len: "snd (last_word buffer n n 0) = Suc (length word)"
    using last_word_letters [OF n(1,2)] by (simp add: m word_def)
  have "length (takeWhile (\<lambda>c. c \<noteq> AC_SPC) w') \<le> length word"
    unfolding word_def by (rule prefix_takeWhile [OF c(2)])
  moreover have "length word \<le> m"
    unfolding word_def using n(2) m by (metis Suc_leD length_rev length_take length_takeWhile_le min_absorb2)
  ultimately show ?thesis
    using w(2) len n by (auto simp: gather_words_def entry_fits_def cw c m Let_def split_beta split: if_splits)
qed

lemma search_result:
  assumes "packed data t 0" "\<not> is_Leaf t" "0 \<notin> set keys" "search_typo data keys 0 (data ! 0) = r"
  shows "r = Some None \<or>
    (\<exists>state b changes w. r = Some (Some state) \<and> (w, b, changes) \<in> set (trie_words t) \<and> prefix w keys \<and>
      data ! state AND 63 = b \<and> c_string_at data (state + 1) = Some changes)"
proof (cases "trie_walk t keys")
  case None
  then show ?thesis
    using search_packed [OF assms(1-3)] assms(4) by simp
next
  case (Some v)
  obtain b changes where v: "v = (b, changes)"
    by (cases v)
  obtain w where "(w, b, changes) \<in> set (trie_words t)" "prefix w keys"
    using walk_words [OF assms(1,2), of keys v] Some by (auto simp: v)
  moreover obtain state where "r = Some (Some state)" "packed data (Leaf b changes) state"
    using search_packed [OF assms(1-3)] Some assms(4) by (auto simp: v)
  ultimately show ?thesis
    using packed_changes by blast
qed

lemma correct_typo_ok:
  assumes "typo_buffer_ok e s" "0 < typo_buffer_size s" "0 < AUTOCORRECT_MAX_LENGTH e"
    and "prefix w (rev (take (typo_buffer_size s) (typo_buffer s)))" "entry_fits w b changes"
    and "autocorrect_data e ! state AND 63 = b" "c_string_at (autocorrect_data e) (state + 1) = Some changes"
  shows "\<exists>r s'. correct_typo e True keycode state s = Some (r, s') \<and> typo_buffer_ok e s'"
proof -
  have "gather_words (AUTOCORRECT_MAX_LENGTH e) (typo_buffer s) (typo_buffer_size s) (unat b) changes \<noteq> None"
    using assms by (intro gather_words_fits [OF _ _ _ assms(4,5)]) (simp_all add: typo_buffer_ok_def)
  then show ?thesis
    using assms(1,3,6,7) by (cases "typo_buffer s")
      (auto simp: correct_typo_def split_beta Let_def typo_buffer_ok_def split: if_splits)
qed

lemma autocorrect_append_ok:
  assumes env: "autocorrect_env_ok e t" and s: "typo_buffer_ok e s" and key: "(ucast keycode :: u8) \<noteq> 0"
  shows "\<exists>r s'. autocorrect_append e True keycode s = Some (r, s') \<and> typo_buffer_ok e s'"
proof -
  define m where "m = AUTOCORRECT_MAX_LENGTH e"
  have m: "0 < m" and data: "packed (autocorrect_data e) t 0" "\<not> is_Leaf t"
      and fits: "\<And>w b changes. (w, b, changes) \<in> set (trie_words t) \<Longrightarrow> entry_fits w b changes"
    using env by (auto simp: autocorrect_env_ok_def m_def)
  define s1 where "s1 = (if m \<le> typo_buffer_size s then
      s\<lparr>typo_buffer := take (m - 1) (tl (typo_buffer s)) @ drop (m - 1) (typo_buffer s), typo_buffer_size := m - 1\<rparr> else s)"
  define s2 where "s2 = s1\<lparr>typo_buffer := (typo_buffer s1)[typo_buffer_size s1 := ucast keycode], typo_buffer_size := typo_buffer_size s1 + 1\<rparr>"
  have "0 \<notin> set (take (m - 1) (tl (typo_buffer s)))" if "typo_buffer_size s = m"
    using s that by (cases "typo_buffer s") (auto simp: typo_buffer_ok_def m_def take_Cons')
  then have s1: "length (typo_buffer s1) = m" "typo_buffer_size s1 < m" "0 \<notin> set (take (typo_buffer_size s1) (typo_buffer s1))"
    using s m by (auto simp: s1_def typo_buffer_ok_def m_def min_def)
  then have s2: "typo_buffer_ok e s2" "0 < typo_buffer_size s2"
    using key by (auto simp: s2_def typo_buffer_ok_def m_def take_Suc_conv_app_nth)
  then have keys: "0 \<notin> set (rev (take (typo_buffer_size s2) (typo_buffer s2)))"
    by (simp add: typo_buffer_ok_def)
  have first: "data_at (autocorrect_data e) 0 = Some (autocorrect_data e ! 0)"
    using packed_node(1) [OF data(1)] by (simp add: data_at_def)
  note found = search_result [OF data keys refl]
  have append: "autocorrect_append e True keycode s =
      (if typo_buffer_size s2 < AUTOCORRECT_MIN_LENGTH e then Some (True, s2)
       else case search_typo (autocorrect_data e) (rev (take (typo_buffer_size s2) (typo_buffer s2))) 0 (autocorrect_data e ! 0) of
          None \<Rightarrow> None
        | Some None \<Rightarrow> Some (True, s2)
        | Some (Some state) \<Rightarrow> correct_typo e True keycode state s2)"
    unfolding autocorrect_append_def m_def [symmetric] Let_def s1_def [symmetric] s2_def [symmetric] by (simp add: first)
  from found show ?thesis
  proof (elim disjE exE conjE)
    fix state b changes w
    assume "search_typo (autocorrect_data e) (rev (take (typo_buffer_size s2) (typo_buffer s2))) 0 (autocorrect_data e ! 0) = Some (Some state)"
      and w: "(w, b, changes) \<in> set (trie_words t)" "prefix w (rev (take (typo_buffer_size s2) (typo_buffer s2)))"
        "autocorrect_data e ! state AND 63 = b" "c_string_at (autocorrect_data e) (state + 1) = Some changes"
    then show ?thesis
      using correct_typo_ok [OF s2 m [unfolded m_def] w(2) fits [OF w(1)] w(3,4)] s2(1) by (auto simp: append)
  qed (use s2(1) in \<open>auto simp: append\<close>)
qed

text \<open>
  (C16)
  Autocorrection stays inside of its arrays.  If the data hold a trie whose typos fit, and the user's hook at most
  shortens the buffer, then every key leaves a buffer of at most \<open>AUTOCORRECT_MAX_LENGTH\<close> letters and reads and
  writes nothing outside of the dictionary, the buffer and the strings for the typo and its correction.
\<close>

theorem autocorrect_stays_in_bounds:
  assumes "autocorrect_env_ok e t" "typo_buffer_ok e s"
  shows "\<exists>r s'. process_autocorrect e keycode r0 s = Some (r, s') \<and> typo_buffer_ok e s'"
proof -
  obtain ok keycode' n mods w where user: "process_autocorrect_user e keycode r0 (typo_buffer_size s)
      (ac_get_mods e (ac_world s) OR ac_get_oneshot_mods e (ac_world s)) (ac_world s) = ((ok, keycode', n, mods), w)"
    by (metis prod.exhaust)
  then have "n \<le> typo_buffer_size s"
    using assms(1) unfolding autocorrect_env_ok_def by (metis fst_conv snd_conv)
  have shorter: "typo_buffer_ok e (s\<lparr>typo_buffer_size := k, ac_world := v\<rparr>)" if "k \<le> typo_buffer_size s" for k v
    using assms(2) that set_take_subset_set_take [OF that, of "typo_buffer s"] by (auto simp: typo_buffer_ok_def)
  have appended: "\<exists>r s'. autocorrect_append e True key (s\<lparr>typo_buffer_size := k, ac_world := w\<rparr>) = Some (r, s') \<and> typo_buffer_ok e s'"
    if "k \<le> typo_buffer_size s" "0 < key" "key < 256" for k key
  proof (rule autocorrect_append_ok [OF assms(1) shorter [OF that(1)]])
    have "unat key < 256" "0 < unat key"
      using that(2,3) by (simp_all add: word_less_nat_alt)
    then have "unat (ucast key :: u8) \<noteq> 0"
      by (simp add: unsigned_ucast_eq take_bit_eq_mod)
    then show "(ucast key :: u8) \<noteq> 0"
      by force
  qed
  define P where "P x \<longleftrightarrow> (\<exists>(r :: bool) s'. x = Some (r, s') \<and> typo_buffer_ok e s')" for x
  have ifI: "P (if c then x else y)" if "c \<Longrightarrow> P x" "\<not> c \<Longrightarrow> P y" for c x y
    using that by simp
  have SomeI: "P (Some (r, s'))" if "typo_buffer_ok e s'" for r s'
    using that by (simp add: P_def)
  have keys: "0 < keycode' \<and> keycode' < 256" if "ac_in 0x04 0x1D keycode'"
    using that by (simp add: ac_in_def word_le_nat_alt word_less_nat_alt)
  have switches: "typo_buffer_ok e (autocorrect_enable e s)" "typo_buffer_ok e (autocorrect_disable e s)" "typo_buffer_ok e (autocorrect_toggle e s)"
      "typo_buffer_ok e (s\<lparr>typo_buffer_size := 0\<rparr>)"
    using assms(2) by (auto simp: typo_buffer_ok_def autocorrect_enable_def autocorrect_disable_def autocorrect_toggle_def)
  have swap: "s\<lparr>ac_world := w, typo_buffer_size := k\<rparr> = s\<lparr>typo_buffer_size := k, ac_world := w\<rparr>" for k
    by simp
  have "P (process_autocorrect e keycode r0 s)"
    unfolding process_autocorrect_def Let_def user prod.case
    by (intro ifI SomeI switches assms(2)) (use appended shorter \<open>n \<le> typo_buffer_size s\<close> keys in \<open>simp_all add: P_def swap\<close>)
  then show ?thesis
    by (simp add: P_def)
qed

section \<open>The default dictionary\<close>

text \<open>process_keycode/autocorrect_data_default.h, and the entries that its comment lists.\<close>

definition autocorrect_data_default :: "u8 list" where
  "autocorrect_data_default = [
   108, 43, 0, 6, 71, 0, 7, 81, 0, 8, 199, 0, 9, 240, 1, 10, 250, 1, 11, 26, 2, 17, 53, 2, 18, 190, 2, 19, 202, 2, 21, 212,
   2, 22, 20, 3, 23, 67, 3, 28, 16, 4, 0, 72, 50, 0, 22, 60, 0, 0, 11, 23, 44, 8, 11, 23, 44, 0, 132, 0, 8, 22, 18, 18,
   15, 0, 132, 115, 101, 115, 0, 11, 23, 12, 26, 22, 0, 129, 99, 104, 0, 68, 94, 0, 8, 106, 0, 15, 174, 0, 21, 187, 0, 0, 12, 15,
   25, 17, 12, 0, 131, 97, 108, 105, 100, 0, 74, 119, 0, 12, 129, 0, 21, 140, 0, 24, 165, 0, 0, 17, 12, 22, 0, 131, 103, 110, 101, 100,
   0, 25, 21, 8, 7, 0, 131, 105, 118, 101, 100, 0, 72, 147, 0, 24, 156, 0, 0, 9, 8, 21, 0, 129, 114, 101, 100, 0, 6, 6, 18, 0,
   129, 114, 101, 100, 0, 15, 6, 17, 12, 0, 129, 100, 101, 0, 18, 22, 8, 21, 11, 23, 0, 130, 104, 111, 108, 100, 0, 4, 26, 18, 9, 0,
   131, 114, 119, 97, 114, 100, 0, 68, 233, 0, 6, 246, 0, 7, 4, 1, 8, 16, 1, 10, 52, 1, 15, 81, 1, 21, 90, 1, 22, 117, 1, 23,
   144, 1, 24, 215, 1, 25, 228, 1, 0, 6, 19, 22, 8, 16, 4, 17, 0, 130, 97, 99, 101, 0, 19, 4, 22, 8, 16, 4, 17, 0, 131, 112,
   97, 99, 101, 0, 12, 21, 8, 25, 18, 0, 130, 114, 105, 100, 101, 0, 23, 0, 68, 25, 1, 17, 36, 1, 0, 21, 4, 24, 10, 0, 130, 110,
   116, 101, 101, 0, 4, 21, 24, 4, 10, 0, 135, 117, 97, 114, 97, 110, 116, 101, 101, 0, 68, 59, 1, 7, 69, 1, 0, 24, 10, 44, 0, 131,
   97, 117, 103, 101, 0, 8, 15, 12, 25, 12, 21, 19, 0, 130, 103, 101, 0, 22, 4, 9, 0, 130, 108, 115, 101, 0, 76, 97, 1, 24, 109, 1,
   0, 24, 20, 4, 0, 132, 99, 113, 117, 105, 114, 101, 0, 23, 44, 0, 130, 114, 117, 101, 0, 4, 0, 79, 126, 1, 24, 134, 1, 0, 9, 0,
   131, 97, 108, 115, 101, 0, 6, 8, 5, 0, 131, 97, 117, 115, 101, 0, 4, 0, 71, 156, 1, 19, 193, 1, 21, 203, 1, 0, 18, 16, 0, 80,
   166, 1, 18, 181, 1, 0, 18, 6, 4, 0, 135, 99, 111, 109, 109, 111, 100, 97, 116, 101, 0, 6, 6, 4, 0, 132, 109, 111, 100, 97, 116, 101,
   0, 7, 24, 0, 132, 112, 100, 97, 116, 101, 0, 8, 19, 8, 22, 0, 132, 97, 114, 97, 116, 101, 0, 10, 8, 15, 15, 18, 6, 0, 130, 97,
   103, 117, 101, 0, 8, 12, 6, 8, 21, 0, 131, 101, 105, 118, 101, 0, 12, 8, 11, 6, 0, 130, 105, 101, 102, 0, 17, 0, 76, 3, 2, 21,
   16, 2, 0, 15, 8, 12, 6, 0, 133, 101, 105, 108, 105, 110, 103, 0, 12, 23, 22, 0, 131, 114, 105, 110, 103, 0, 70, 33, 2, 23, 44, 2,
   0, 12, 23, 26, 22, 0, 131, 105, 116, 99, 104, 0, 10, 12, 8, 11, 0, 129, 104, 116, 0, 72, 69, 2, 10, 80, 2, 18, 89, 2, 21, 156,
   2, 24, 167, 2, 0, 22, 18, 18, 11, 6, 0, 131, 115, 101, 110, 0, 12, 21, 23, 22, 0, 129, 110, 103, 0, 12, 0, 86, 98, 2, 23, 124,
   2, 0, 68, 105, 2, 22, 114, 2, 0, 12, 15, 0, 131, 105, 115, 111, 110, 0, 4, 6, 6, 18, 0, 131, 105, 111, 110, 0, 76, 131, 2, 22,
   146, 2, 0, 23, 12, 19, 8, 21, 0, 134, 101, 116, 105, 116, 105, 111, 110, 0, 18, 19, 0, 131, 105, 116, 105, 111, 110, 0, 23, 24, 8, 21,
   0, 131, 116, 117, 114, 110, 0, 85, 174, 2, 23, 183, 2, 0, 23, 8, 21, 0, 130, 117, 114, 110, 0, 8, 21, 0, 128, 114, 110, 0, 7, 8,
   24, 22, 19, 0, 131, 101, 117, 100, 111, 0, 24, 18, 18, 15, 0, 129, 107, 117, 112, 0, 72, 219, 2, 18, 3, 3, 0, 76, 229, 2, 15, 238,
   2, 17, 248, 2, 0, 11, 23, 44, 0, 130, 101, 105, 114, 0, 23, 12, 9, 0, 131, 108, 116, 101, 114, 0, 23, 22, 12, 15, 0, 130, 101, 110,
   101, 114, 0, 23, 4, 21, 8, 23, 17, 12, 0, 135, 116, 101, 114, 97, 116, 111, 114, 0, 72, 30, 3, 17, 38, 3, 24, 51, 3, 0, 15, 4,
   9, 0, 129, 115, 101, 0, 4, 12, 23, 17, 18, 6, 0, 131, 97, 105, 110, 115, 0, 22, 17, 8, 6, 17, 18, 6, 0, 133, 115, 101, 110, 115,
   117, 115, 0, 74, 86, 3, 11, 96, 3, 15, 118, 3, 17, 129, 3, 22, 218, 3, 24, 232, 3, 0, 11, 24, 4, 6, 0, 130, 103, 104, 116, 0,
   71, 103, 3, 10, 110, 3, 0, 12, 26, 0, 129, 116, 104, 0, 17, 8, 15, 0, 129, 116, 104, 0, 22, 24, 8, 21, 0, 131, 115, 117, 108, 116,
   0, 68, 139, 3, 8, 150, 3, 22, 210, 3, 0, 21, 4, 19, 19, 4, 0, 130, 101, 110, 116, 0, 85, 157, 3, 25, 200, 3, 0, 68, 164, 3,
   21, 175, 3, 0, 19, 4, 0, 132, 112, 97, 114, 101, 110, 116, 0, 4, 19, 0, 68, 185, 3, 19, 193, 3, 0, 133, 112, 97, 114, 101, 110, 116,
   0, 4, 0, 131, 101, 110, 116, 0, 8, 15, 8, 21, 0, 130, 97, 110, 116, 0, 18, 6, 0, 130, 110, 115, 116, 0, 12, 9, 8, 17, 4, 16,
   0, 132, 105, 102, 101, 115, 116, 0, 83, 239, 3, 23, 6, 4, 0, 87, 246, 3, 24, 254, 3, 0, 17, 12, 0, 131, 112, 117, 116, 0, 18, 0,
   130, 116, 112, 117, 116, 0, 19, 24, 18, 0, 131, 116, 112, 117, 116, 0, 70, 29, 4, 8, 41, 4, 11, 51, 4, 21, 69, 4, 0, 8, 24, 20,
   8, 21, 9, 0, 129, 110, 99, 121, 0, 23, 9, 4, 22, 0, 130, 101, 116, 121, 0, 6, 21, 4, 21, 12, 8, 11, 0, 135, 105, 101, 114, 97,
   114, 99, 104, 121, 0, 4, 5, 12, 15, 0, 130, 114, 97, 114, 121, 0]"

text \<open>A host that shows what is typed: its state is the text, in reverse.\<close>

definition text_env :: "u8 list \<Rightarrow> u8 list autocorrect_env" where
  "text_env data =
    \<lparr>AUTOCORRECT_MIN_LENGTH = 5, AUTOCORRECT_MAX_LENGTH = 10, autocorrect_data = data,
     ac_get_mods = (\<lambda>_. 0), ac_get_oneshot_mods = (\<lambda>_. 0), ac_eeconfig_update_keymap = (\<lambda>_ w. w),
     ac_tap_code = (\<lambda>code w. if code = 0x2A then tl w else w), ac_send_string_P = (\<lambda>str w. rev str @ w),
     process_autocorrect_user = (\<lambda>keycode r n mods w. (process_autocorrect_default_handler keycode r n mods, w)),
     apply_autocorrect = (\<lambda>_ _ _ _ w. (True, w))\<rparr>"

text \<open>A colon is the space bar.  A key that the autocorrection lets through types its character.\<close>

definition shown :: "char \<Rightarrow> u8" where
  "shown c = (if c = CHR '':'' then 0x20 else of_char c)"

fun type_text :: "u8 list autocorrect_env \<Rightarrow> string \<Rightarrow> u8 list autocorrect_vars \<Rightarrow> u8 list autocorrect_vars option" where
  "type_text e [] s = Some s"
| "type_text e (c # cs) s =
    (case process_autocorrect e (if c = CHR '':'' then AC_SPC else of_char c - 97 + 4)
        (record_of_event (MAKE_KEYEVENT 0 0 True 0)) s of
       None \<Rightarrow> None
     | Some (ok, s) \<Rightarrow> type_text e cs (if ok then s\<lparr>ac_world := shown c # ac_world s\<rparr> else s))"

definition corrected :: "u8 list \<Rightarrow> string \<times> string \<Rightarrow> bool" where
  "corrected data = (\<lambda>(typo, correction).
    map_option (rev \<circ> ac_world) (type_text (text_env data) typo (autocorrect_start (text_env data) True [])) =
      Some ((if hd typo = CHR '':'' then [0x20] else []) @ map of_char correction @ (if last typo = CHR '':'' then [0x20] else [])))"

text \<open>
  The dictionary that the file shows for \<open>:the:the:\<close> writes in front of the array \<open>correct\<close>: four backspaces, but only
  three letters in the last word.
\<close>

lemma default_dictionary_overruns:
  "type_text (text_env autocorrect_data_default) '':the:the:'' (autocorrect_start (text_env autocorrect_data_default) True []) = None"
  by code_simp

section \<open>The dictionary of the documentation\<close>

text \<open>The data and the typos of docs/feature_autocorrect.md.\<close>

definition documented_data :: "u8 list" where
  "documented_data = [85, 7, 0, 23, 35, 0, 0, 8, 0, 76, 16, 0, 15, 25, 0, 0,
    11, 23, 44, 0, 130, 101, 105, 114, 0, 23, 12, 9, 0, 131, 108, 116, 101, 114, 0, 75, 42, 0, 24, 64, 0, 0, 71, 49, 0,
    10, 56, 0, 0, 12, 26, 0, 129, 116, 104, 0, 17, 8, 15, 0, 129, 116, 104, 0, 19, 24, 18, 0, 130, 116, 112, 117, 116,
    0]"

definition documented_trie :: typo_trie where
  "documented_trie = Branch
    [(21, Chain [8] (Branch
       [(12, Chain [11, 23, 44] (Leaf 2 [101, 105, 114])), (15, Chain [23, 12, 9] (Leaf 3 [108, 116, 101, 114]))])),
     (23, Branch
       [(11, Branch [(7, Chain [12, 26] (Leaf 1 [116, 104])), (10, Chain [17, 8, 15] (Leaf 1 [116, 104]))]),
        (24, Chain [19, 24, 18] (Leaf 2 [116, 112, 117, 116]))])]"

lemma size_child: "(k, c, t) \<in> set (enumerate n ts) \<Longrightarrow> size t < Suc (size_list (size_prod (\<lambda>_. 0) size) ts)"
proof -
  assume "(k, c, t) \<in> set (enumerate n ts)"
  then have "k - n < length ts" "ts ! (k - n) = (c, t)"
    by (auto simp: in_set_enumerate_eq)
  then have "(c, t) \<in> set ts"
    by (metis nth_mem)
  then show ?thesis
    by (induction ts) auto
qed

text \<open>A check for \<open>packed\<close> that can be evaluated.\<close>

function packs :: "u8 list \<Rightarrow> typo_trie \<Rightarrow> nat \<Rightarrow> bool" where
  "packs data (Leaf b changes) p \<longleftrightarrow>
     b < 64 \<and> 0 \<notin> set changes \<and> take (length changes + 2) (drop p data) = (128 OR b) # changes @ [0]"
| "packs data (Chain cs t) p \<longleftrightarrow>
     cs \<noteq> [] \<and> list_all (\<lambda>c. 0 < c \<and> c < 64) cs \<and> take (length cs + 1) (drop p data) = cs @ [0] \<and>
     packs data t (p + length cs + 1)"
| "packs data (Branch ts) p \<longleftrightarrow>
     ts \<noteq> [] \<and> distinct (map fst ts) \<and> list_all (\<lambda>(c, t). 0 < c \<and> c < 64) ts \<and>
     p + 3 * length ts < length data \<and> data ! (p + 3 * length ts) = 0 \<and>
     list_all (\<lambda>(k, c, t). data ! (p + 3 * k) = c OR (if k = 0 then 64 else 0) \<and>
       packs data t (unat (data ! (p + 3 * k + 1)) + 256 * unat (data ! (p + 3 * k + 2)))) (enumerate 0 ts)"
  by pat_completeness auto

termination
  by (relation "measure (\<lambda>(data, t, p). size t)") (auto dest: size_child)

lemma packs_packed: "packs data t p \<Longrightarrow> packed data t p"
proof (induction data t p rule: packs.induct)
  case (1 data b changes p)
  then have "prefix ((128 OR b) # changes @ [0]) (drop p data)"
    by (metis packs.simps(1) take_is_prefix)
  then show ?case
    using 1 by (auto intro: packed_Leaf)
next
  case (2 data cs t p)
  then have "prefix (cs @ [0]) (drop p data)"
    by (metis packs.simps(2) take_is_prefix)
  then show ?case
    using 2 by (auto intro: packed_Chain simp: list_all_iff)
next
  case (3 data ts p)
  have mem: "(k, fst (ts ! k), snd (ts ! k)) \<in> set (enumerate 0 ts)" if "k < length ts" for k
    using that by (simp add: in_set_enumerate_eq)
  have "\<forall>(k, c, t) \<in> set (enumerate 0 ts). data ! (p + 3 * k) = c OR (if k = 0 then 64 else 0) \<and>
      packs data t (unat (data ! (p + 3 * k + 1)) + 256 * unat (data ! (p + 3 * k + 2)))"
    using 3(2) by (simp only: packs.simps list_all_iff) blast
  note bspec [OF this mem, simplified prod.case]
  then have child: "data ! (p + 3 * k) = fst (ts ! k) OR (if k = 0 then 64 else 0)"
      "packs data (snd (ts ! k)) (unat (data ! (p + 3 * k + 1)) + 256 * unat (data ! (p + 3 * k + 2)))"
    if "k < length ts" for k
    using that by blast+
  show ?case
    using 3(2) child(1) 3(1) [OF mem refl refl child(2)] by (intro packed_Branch) (auto simp: list_all_iff split_beta)
qed

lemma documented_packed: "packed documented_data documented_trie 0"
  by (rule packs_packed) code_simp

lemma documented_entries_corrected:
  "list_all (corrected documented_data)
    [('':thier'', ''their''), (''fitler'', ''filter''), (''lenght'', ''length''), (''ouput'', ''output''), (''widht'', ''width'')]"
  by code_simp

lemma documented_env_ok: "autocorrect_env_ok (text_env documented_data) documented_trie"
proof -
  have "\<forall>(w, b, changes) \<in> set (trie_words documented_trie). entry_fits w b changes"
    by code_simp
  moreover have "\<not> is_Leaf documented_trie"
    by (simp add: is_Leaf_def documented_trie_def)
  moreover have "fst (snd (snd (process_autocorrect_default_handler keycode r n mods))) \<le> n" for keycode r n mods
    by (simp add: process_autocorrect_default_handler_def Let_def)
  ultimately show ?thesis
    using documented_packed by (simp add: autocorrect_env_ok_def text_env_def)
qed

lemma search_finds_typos_witness:
  "case search_typo documented_data (rev [15, 8, 17, 10, 11, 23]) 0 (documented_data ! 0) of
      None \<Rightarrow> False
    | Some None \<Rightarrow> \<forall>(w, b, changes) \<in> set (trie_words documented_trie). \<not> suffix (rev w) [15, 8, 17, 10, 11, 23]
    | Some (Some state) \<Rightarrow> \<exists>(w, b, changes) \<in> set (trie_words documented_trie). suffix (rev w) [15, 8, 17, 10, 11, 23] \<and>
        documented_data ! state AND 63 = b \<and> c_string_at documented_data (state + 1) = Some changes"
proof (rule search_finds_typos [OF documented_packed])
  show "\<not> is_Leaf documented_trie"
    by (simp add: is_Leaf_def documented_trie_def)
qed simp

lemma autocorrect_stays_in_bounds_witness:
  "\<exists>r s'. process_autocorrect (text_env documented_data) 0x4 (record_of_event (MAKE_KEYEVENT 0 0 True 0))
      (autocorrect_start (text_env documented_data) True []) = Some (r, s') \<and> typo_buffer_ok (text_env documented_data) s'"
proof (rule autocorrect_stays_in_bounds [OF documented_env_ok])
  show "typo_buffer_ok (text_env documented_data) (autocorrect_start (text_env documented_data) True [])"
    by (simp add: typo_buffer_ok_def autocorrect_start_def text_env_def)
qed

end
