(* ===== verification/KeyLock.thy ===== *)
theory KeyLock
  imports Events
begin

text \<open>
  quantum/process_keycode/process_key_lock.c: the key pressed after \<open>QK_LOCK\<close> stays down when it is let go, until it is pressed
  again.  A bit map says which of the 256 basic keys are locked; the function may replace the keycode it is given, so the
  keycode is part of its result.
\<close>

section \<open>State and operations\<close>

abbreviation QK_LOCK :: u16 where "QK_LOCK \<equiv> 0x7C59"

abbreviation QK_ONE_SHOT_MOD :: u16 where "QK_ONE_SHOT_MOD \<equiv> 0x52A0"

abbreviation QK_ONE_SHOT_MOD_MAX :: u16 where "QK_ONE_SHOT_MOD_MAX \<equiv> 0x52BF"

record key_lock =
  key_state :: "u64 list"
  watching :: bool

definition key_lock_start :: key_lock where
  "key_lock_start = \<lparr>key_state = [0, 0, 0, 0], watching = False\<rparr>"

text \<open>The element of the array for a code, and the bit in it.\<close>

definition KEY_ARRAY_INDEX :: "u16 \<Rightarrow> nat" where
  "KEY_ARRAY_INDEX code = (if code < 0x40 then 0 else if code < 0x80 then 1 else if code < 0xC0 then 2 else 3)"

definition GET_CODE_INDEX :: "u16 \<Rightarrow> nat" where
  "GET_CODE_INDEX code =
     unat (if code < 0x40 then code else if code < 0x80 then code - 0x40 else if code < 0xC0 then code - 0x80 else code - 0xC0)"

definition BV_64 :: "nat \<Rightarrow> u64" where
  "BV_64 shift = push_bit shift 1"

definition GET_KEY_ARRAY :: "u16 \<Rightarrow> key_lock \<Rightarrow> u64" where
  "GET_KEY_ARRAY code s = key_state s ! KEY_ARRAY_INDEX code"

definition KEY_STATE :: "u16 \<Rightarrow> key_lock \<Rightarrow> bool" where
  "KEY_STATE code s \<longleftrightarrow> GET_KEY_ARRAY code s AND BV_64 (GET_CODE_INDEX code) = BV_64 (GET_CODE_INDEX code)"

text \<open>The switch of \<open>SET_KEY_ARRAY_STATE\<close> has no case above 0xFF.\<close>

definition SET_KEY_ARRAY_STATE :: "u16 \<Rightarrow> u64 \<Rightarrow> key_lock \<Rightarrow> key_lock" where
  "SET_KEY_ARRAY_STATE code val s =
     (if code \<le> 0xFF then s\<lparr>key_state := (key_state s)[KEY_ARRAY_INDEX code := val]\<rparr> else s)"

definition SET_KEY_STATE :: "u16 \<Rightarrow> key_lock \<Rightarrow> key_lock" where
  "SET_KEY_STATE code s = SET_KEY_ARRAY_STATE code (GET_KEY_ARRAY code s OR BV_64 (GET_CODE_INDEX code)) s"

definition UNSET_KEY_STATE :: "u16 \<Rightarrow> key_lock \<Rightarrow> key_lock" where
  "UNSET_KEY_STATE code s = SET_KEY_ARRAY_STATE code (GET_KEY_ARRAY code s AND NOT (BV_64 (GET_CODE_INDEX code))) s"

definition IS_STANDARD_KEYCODE :: "u16 \<Rightarrow> bool" where
  "IS_STANDARD_KEYCODE code \<longleftrightarrow> code \<le> 0xFF"

definition translate_keycode :: "u16 \<Rightarrow> u16" where
  "translate_keycode keycode =
     (if QK_ONE_SHOT_MOD < keycode \<and> keycode \<le> QK_ONE_SHOT_MOD_MAX then keycode XOR QK_ONE_SHOT_MOD else keycode)"

definition cancel_key_lock :: "key_lock \<Rightarrow> key_lock" where
  "cancel_key_lock s = UNSET_KEY_STATE 0x0 (s\<lparr>watching := False\<rparr>)"

definition process_key_lock :: "u16 \<Rightarrow> keyrecord_t \<Rightarrow> key_lock \<Rightarrow> bool \<times> u16 \<times> key_lock" where
  "process_key_lock keycode r s =
    (let translated_keycode = translate_keycode keycode in
     if ev_pressed (event r) then
       (if \<not> (IS_STANDARD_KEYCODE translated_keycode \<or> translated_keycode = QK_LOCK) then
          (True, keycode, s\<lparr>watching := False\<rparr>)
        else if translated_keycode = QK_LOCK then (False, keycode, s\<lparr>watching := \<not> watching s\<rparr>)
        else if IS_STANDARD_KEYCODE translated_keycode \<and> watching s then
          (True, translated_keycode, SET_KEY_STATE translated_keycode (s\<lparr>watching := False\<rparr>))
        else if IS_STANDARD_KEYCODE translated_keycode \<and> KEY_STATE translated_keycode s then
          (False, keycode, UNSET_KEY_STATE translated_keycode s)
        else (True, keycode, s))
     else (\<not> (IS_STANDARD_KEYCODE translated_keycode \<and> KEY_STATE translated_keycode s), keycode, s))"

section \<open>The bit map is a set of keys\<close>

definition key_lock_ok :: "key_lock \<Rightarrow> bool" where
  "key_lock_ok s \<longleftrightarrow> length (key_state s) = 4"

text \<open>The position of a basic code is its quotient and remainder by 64.\<close>

lemma code_position:
  assumes "code \<le> 0xFF"
  shows "KEY_ARRAY_INDEX code = unat code div 64" "GET_CODE_INDEX code = unat code mod 64"
proof -
  have "unat code \<le> 255"
    using assms by (simp add: word_le_nat_alt)
  then show "KEY_ARRAY_INDEX code = unat code div 64"
    by (simp add: KEY_ARRAY_INDEX_def word_less_nat_alt) (auto simp: div_nat_eqI)
  have "unat (code - 0x40) = unat code - 64" if "64 \<le> unat code"
    using that by (subst unat_sub) (simp_all add: word_le_nat_alt)
  moreover have "unat (code - 0x80) = unat code - 128" if "128 \<le> unat code"
    using that by (subst unat_sub) (simp_all add: word_le_nat_alt)
  moreover have "unat (code - 0xC0) = unat code - 192" if "192 \<le> unat code"
    using that by (subst unat_sub) (simp_all add: word_le_nat_alt)
  ultimately show "GET_CODE_INDEX code = unat code mod 64"
    using \<open>unat code \<le> 255\<close> by (simp add: GET_CODE_INDEX_def word_less_nat_alt mod_if)
qed

lemma KEY_STATE_bit: "code \<le> 0xFF \<Longrightarrow> KEY_STATE code s \<longleftrightarrow> bit (key_state s ! (unat code div 64)) (unat code mod 64)"
  by (simp add: KEY_STATE_def GET_KEY_ARRAY_def BV_64_def code_position push_bit_1 bit_word_eqI_iff)
    (auto simp: bit_and_iff bit_mask_1 dest: spec [of _ "unat code mod 64"])

lemma KEY_STATE_set:
  assumes "key_lock_ok s" "code \<le> 0xFF" "c \<le> 0xFF"
  shows "KEY_STATE c (SET_KEY_STATE code s) \<longleftrightarrow> c = code \<or> KEY_STATE c s"
    and "KEY_STATE c (UNSET_KEY_STATE code s) \<longleftrightarrow> c \<noteq> code \<and> KEY_STATE c s"
proof -
  have "unat code \<le> 255" "unat c \<le> 255"
    using assms(2,3) by (simp_all add: word_le_nat_alt)
  then have pos: "c = code \<longleftrightarrow> unat c div 64 = unat code div 64 \<and> unat c mod 64 = unat code mod 64" "unat code div 64 < 4"
    by (auto simp: word_unat_eq_iff) (metis div_mult_mod_eq)
  show "KEY_STATE c (SET_KEY_STATE code s) \<longleftrightarrow> c = code \<or> KEY_STATE c s"
    "KEY_STATE c (UNSET_KEY_STATE code s) \<longleftrightarrow> c \<noteq> code \<and> KEY_STATE c s"
    using assms pos
    by (auto simp: KEY_STATE_bit SET_KEY_STATE_def UNSET_KEY_STATE_def SET_KEY_ARRAY_STATE_def GET_KEY_ARRAY_def code_position
        key_lock_ok_def nth_list_update BV_64_def push_bit_1 bit_simps bit_mask_1)
qed

lemma key_lock_ok_simps [simp]:
  "key_lock_ok key_lock_start" "key_lock_ok (s\<lparr>watching := w\<rparr>) = key_lock_ok s"
  "key_lock_ok (SET_KEY_STATE code s) = key_lock_ok s" "key_lock_ok (UNSET_KEY_STATE code s) = key_lock_ok s"
  "watching (SET_KEY_STATE code s) = watching s" "watching (UNSET_KEY_STATE code s) = watching s"
  "KEY_STATE code (s\<lparr>watching := w\<rparr>) = KEY_STATE code s"
  by (simp_all add: key_lock_ok_def key_lock_start_def SET_KEY_STATE_def UNSET_KEY_STATE_def SET_KEY_ARRAY_STATE_def
      KEY_STATE_def GET_KEY_ARRAY_def)

section \<open>What the rest of the firmware sees\<close>

text \<open>The key events that pass, as keycode and press or release, and the events as they arrive.\<close>

definition key_record :: "bool \<Rightarrow> keyrecord_t" where
  "key_record pressed = record_of_event (MAKE_KEYEVENT 0 0 pressed 0)"

fun key_lock_run :: "(u16 \<times> bool) list \<Rightarrow> key_lock \<Rightarrow> (u16 \<times> bool) list \<times> key_lock" where
  "key_lock_run [] s = ([], s)"
| "key_lock_run ((k, p) # es) s =
    (let (pass, k', s) = process_key_lock k (key_record p) s; (passed, s) = key_lock_run es s
     in (if pass then (k', p) # passed else passed, s))"

definition held :: "u16 \<Rightarrow> (u16 \<times> bool) list \<Rightarrow> bool \<Rightarrow> bool" where
  "held c es d = fold (\<lambda>(k, p) d. if k = c then p else d) es d"

text \<open>The set of locked keys, and whether the next key is to be locked.\<close>

fun lock_step :: "u16 \<times> bool \<Rightarrow> bool \<times> u16 set \<Rightarrow> bool \<times> u16 set" where
  "lock_step (k, p) (watch, locked) =
    (if \<not> p then (watch, locked)
     else if k = QK_LOCK then (\<not> watch, locked)
     else if \<not> IS_STANDARD_KEYCODE k then (False, locked)
     else (False, if watch then insert k locked else locked - {k}))"

definition lock_abs :: "key_lock \<Rightarrow> bool \<times> u16 set" where
  "lock_abs s = (watching s, {c. IS_STANDARD_KEYCODE c \<and> KEY_STATE c s})"

definition no_oneshot :: "u16 \<Rightarrow> bool" where
  "no_oneshot k \<longleftrightarrow> \<not> (QK_ONE_SHOT_MOD < k \<and> k \<le> QK_ONE_SHOT_MOD_MAX)"

lemma translate_id: "no_oneshot k \<Longrightarrow> translate_keycode k = k"
  by (auto simp: translate_keycode_def no_oneshot_def)

lemma key_record_pressed [simp]: "ev_pressed (event (key_record p)) = p"
  by (simp add: key_record_def MAKE_KEYEVENT_def MAKE_EVENT_def)

lemma standard_not_lock: "IS_STANDARD_KEYCODE k \<Longrightarrow> k \<noteq> QK_LOCK"
  by (auto simp: IS_STANDARD_KEYCODE_def)

lemma process_key_lock_step:
  fixes p :: bool
  assumes "key_lock_ok s" "no_oneshot k"
  defines "q \<equiv> process_key_lock k (key_record p) s"
  shows "key_lock_ok (snd (snd q))" "lock_abs (snd (snd q)) = lock_step (k, p) (lock_abs s)" "fst (snd q) = k"
    "fst q \<longleftrightarrow> \<not> (IS_STANDARD_KEYCODE k \<and> KEY_STATE k s \<and> (p \<longrightarrow> \<not> watching s) \<or> p \<and> k = QK_LOCK)"
  using assms(1) standard_not_lock [of k]
  by (auto simp: q_def process_key_lock_def translate_id [OF assms(2)] Let_def lock_abs_def KEY_STATE_set IS_STANDARD_KEYCODE_def)

lemma key_lock_run_refines:
  assumes "key_lock_ok s" "\<forall>(k, p) \<in> set es. no_oneshot k" "IS_STANDARD_KEYCODE c" "d \<longleftrightarrow> e \<or> KEY_STATE c s"
  defines "q \<equiv> key_lock_run es s"
  shows "lock_abs (snd q) = fold lock_step es (lock_abs s) \<and> (held c (fst q) d \<longleftrightarrow> held c es e \<or> KEY_STATE c (snd q))"
  using assms(1,2,4) unfolding q_def
proof (induction es s arbitrary: d e rule: key_lock_run.induct)
  case (1 s)
  then show ?case by (simp add: held_def)
next
  case (2 k p es s)
  obtain pass k' s' where step: "process_key_lock k (key_record p) s = (pass, k', s')"
    by (metis prod_cases3)
  have k: "no_oneshot k" and es: "\<forall>(k, p) \<in> set es. no_oneshot k"
    using "2.prems"(2) by simp_all
  note s' = process_key_lock_step [OF "2.prems"(1) k, of p, unfolded step fst_conv snd_conv]
  have "KEY_STATE c s' \<longleftrightarrow> c \<in> snd (lock_step (k, p) (lock_abs s))"
    unfolding s'(2) [symmetric] using assms(3) by (simp add: lock_abs_def)
  then have "(if pass \<and> k' = c then p else d) \<longleftrightarrow> (if k = c then p else e) \<or> KEY_STATE c s'"
    using s'(3,4) "2.prems"(3) assms(3) standard_not_lock by (auto simp: lock_abs_def)
  note IH = "2.IH" [OF step [symmetric] refl refl s'(1) es this]
  then show ?case
    using s'(2) by (auto simp: step Let_def held_def split_beta)
qed

section \<open>Properties\<close>

text \<open>
  (C17)
  Key lock holds what it should: whatever keys are pressed and released, without one-shot modifiers among them, the keys
  that are locked are those that the rule of the documentation says (the next key after the lock key, until it is pressed
  again), and the rest of the firmware sees a basic key down exactly when it is pressed or locked.
\<close>

theorem key_lock_holds:
  assumes "\<forall>(k, p) \<in> set es. no_oneshot k" "IS_STANDARD_KEYCODE c"
  defines "q \<equiv> key_lock_run es key_lock_start"
  shows "lock_abs (snd q) = fold lock_step es (False, {}) \<and>
    (held c (fst q) False \<longleftrightarrow> held c es False \<or> c \<in> snd (fold lock_step es (False, {})))"
proof -
  have none: "\<not> KEY_STATE k key_lock_start" if "IS_STANDARD_KEYCODE k" for k
    using that by (simp add: IS_STANDARD_KEYCODE_def KEY_STATE_bit key_lock_start_def nth_Cons' word_le_nat_alt)
  then have "lock_abs key_lock_start = (False, {})"
    by (auto simp: lock_abs_def) (simp add: key_lock_start_def)
  moreover have "False \<longleftrightarrow> False \<or> KEY_STATE c key_lock_start"
    using none [OF assms(2)] by simp
  ultimately have q: "lock_abs (snd q) = fold lock_step es (False, {})" "held c (fst q) False \<longleftrightarrow> held c es False \<or> KEY_STATE c (snd q)"
    using key_lock_run_refines [OF key_lock_ok_simps(1) assms(1,2), of False False] by (simp_all add: q_def)
  moreover have "KEY_STATE c (snd q) \<longleftrightarrow> c \<in> snd (lock_abs (snd q))"
    using assms(2) by (simp add: lock_abs_def)
  ultimately show ?thesis
    by simp
qed

text \<open>
  A one-shot modifier is translated to its modifier mask, not to a key: the mask of the left Alt, 4, is the code of A.
  Once that one-shot key is locked, pressing A does nothing.
\<close>

lemma oneshot_lock_swallows_A:
  "fst (key_lock_run [(QK_LOCK, True), (QK_LOCK, False), (0x52A4, True), (0x52A4, False), (KC_A, True)] key_lock_start) =
    [(QK_LOCK, False), (4, True)]"
  by (simp add: process_key_lock_def translate_keycode_def IS_STANDARD_KEYCODE_def KEY_STATE_set KEY_STATE_bit key_lock_start_def
      SET_KEY_STATE_def SET_KEY_ARRAY_STATE_def GET_KEY_ARRAY_def KEY_ARRAY_INDEX_def GET_CODE_INDEX_def BV_64_def Let_def)

text \<open>Cancelling the key lock leaves every key locked but the one with code 0.\<close>

lemma cancel_key_lock_keeps:
  assumes "key_lock_ok s" "IS_STANDARD_KEYCODE c"
  shows "KEY_STATE c (cancel_key_lock s) \<longleftrightarrow> c \<noteq> 0 \<and> KEY_STATE c s"
  using assms by (simp add: cancel_key_lock_def IS_STANDARD_KEYCODE_def KEY_STATE_set)

text \<open>F is locked and let go, and G typed; then F is pressed and let go again.\<close>

theorem key_lock_holds_witness:
  "held 9 (fst (key_lock_run [(QK_LOCK, True), (QK_LOCK, False), (9, True), (9, False), (10, True), (10, False)] key_lock_start)) False \<and>
   \<not> held 9 (fst (key_lock_run [(QK_LOCK, True), (QK_LOCK, False), (9, True), (9, False), (10, True), (10, False), (9, True), (9, False)]
     key_lock_start)) False"
  using key_lock_holds [of "[(QK_LOCK, True), (QK_LOCK, False), (9, True), (9, False), (10, True), (10, False)]" 9]
    key_lock_holds [of "[(QK_LOCK, True), (QK_LOCK, False), (9, True), (9, False), (10, True), (10, False), (9, True), (9, False)]" 9]
  by (simp add: no_oneshot_def IS_STANDARD_KEYCODE_def held_def)

end
