(* ===== verification/Secure.thy ===== *)
theory Secure
  imports Events "HOL-Library.Sublist"
begin

text \<open>
  quantum/secure.c and quantum/process_keycode/process_secure.c: the lock of the secure feature.  It is unlocked by pressing
  the keys at a sequence of positions within a time limit, and locks itself again after a time without activity.

  \<open>now\<close> is what \<open>timer_read32()\<close> returns in a call.  The three hooks that are told of the status are one function of the
  environment over a state \<open>'w\<close>; a timeout of 0 switches the test off, as the \<open>#if\<close> does.
\<close>

section \<open>State and operations\<close>

abbreviation QK_SECURE_LOCK :: u16 where "QK_SECURE_LOCK \<equiv> 0x7C60"
abbreviation QK_SECURE_UNLOCK :: u16 where "QK_SECURE_UNLOCK \<equiv> 0x7C61"
abbreviation QK_SECURE_TOGGLE :: u16 where "QK_SECURE_TOGGLE \<equiv> 0x7C62"
abbreviation QK_SECURE_REQUEST :: u16 where "QK_SECURE_REQUEST \<equiv> 0x7C63"

datatype secure_status_t = SECURE_LOCKED | SECURE_PENDING | SECURE_UNLOCKED

record 'w secure_env =
  SECURE_UNLOCK_TIMEOUT :: u32
  SECURE_IDLE_TIMEOUT :: u32
  SECURE_UNLOCK_SEQUENCE :: "(u8 \<times> u8) list"
  SECURE_DISABLE_KEYCODES :: bool
  secure_hooks :: "secure_status_t \<Rightarrow> 'w \<Rightarrow> 'w"

text \<open>\<open>sequence_offset\<close> is the static variable \<open>offset\<close> of \<open>secure_keypress_event\<close>.\<close>

record 'w secure_vars =
  secure_status :: secure_status_t
  unlock_time :: u32
  idle_time :: u32
  sequence_offset :: u8
  sworld :: 'w

definition secure_start :: "'w \<Rightarrow> 'w secure_vars" where
  "secure_start w = \<lparr>secure_status = SECURE_LOCKED, unlock_time = 0, idle_time = 0, sequence_offset = 0, sworld = w\<rparr>"

definition secure_hook :: "'w secure_env \<Rightarrow> 'w secure_vars \<Rightarrow> 'w secure_vars" where
  "secure_hook env s = s\<lparr>sworld := secure_hooks env (secure_status s) (sworld s)\<rparr>"

definition secure_lock :: "'w secure_env \<Rightarrow> 'w secure_vars \<Rightarrow> 'w secure_vars" where
  "secure_lock env s = secure_hook env (s\<lparr>secure_status := SECURE_LOCKED\<rparr>)"

definition secure_unlock :: "'w secure_env \<Rightarrow> u32 \<Rightarrow> 'w secure_vars \<Rightarrow> 'w secure_vars" where
  "secure_unlock env now s = secure_hook env (s\<lparr>secure_status := SECURE_UNLOCKED, idle_time := now\<rparr>)"

definition secure_request_unlock :: "'w secure_env \<Rightarrow> u32 \<Rightarrow> 'w secure_vars \<Rightarrow> 'w secure_vars" where
  "secure_request_unlock env now s =
     secure_hook env (if secure_status s = SECURE_LOCKED then s\<lparr>secure_status := SECURE_PENDING, unlock_time := now\<rparr> else s)"

definition secure_activity_event :: "u32 \<Rightarrow> 'w secure_vars \<Rightarrow> 'w secure_vars" where
  "secure_activity_event now s = (if secure_status s = SECURE_UNLOCKED then s\<lparr>idle_time := now\<rparr> else s)"

definition secure_keypress_event :: "'w secure_env \<Rightarrow> u32 \<Rightarrow> u8 \<Rightarrow> u8 \<Rightarrow> 'w secure_vars \<Rightarrow> 'w secure_vars" where
  "secure_keypress_event env now row col s =
    (if SECURE_UNLOCK_SEQUENCE env ! unat (sequence_offset s) = (row, col) then
       (let s = s\<lparr>sequence_offset := sequence_offset s + 1\<rparr>
        in if unat (sequence_offset s) = length (SECURE_UNLOCK_SEQUENCE env)
           then secure_unlock env now (s\<lparr>sequence_offset := 0\<rparr>) else s)
     else secure_lock env (s\<lparr>sequence_offset := 0\<rparr>))"

definition secure_task :: "'w secure_env \<Rightarrow> u32 \<Rightarrow> 'w secure_vars \<Rightarrow> 'w secure_vars" where
  "secure_task env now s =
    (let s = (if SECURE_UNLOCK_TIMEOUT env \<noteq> 0 \<and> secure_status s = SECURE_PENDING \<and>
                 SECURE_UNLOCK_TIMEOUT env \<le> TIMER_DIFF_32 now (unlock_time s) then secure_lock env s else s)
     in if SECURE_IDLE_TIMEOUT env \<noteq> 0 \<and> secure_status s = SECURE_UNLOCKED \<and>
           SECURE_IDLE_TIMEOUT env \<le> TIMER_DIFF_32 now (idle_time s) then secure_lock env s else s)"

definition preprocess_secure :: "'w secure_env \<Rightarrow> u32 \<Rightarrow> u16 \<Rightarrow> keyrecord_t \<Rightarrow> 'w secure_vars \<Rightarrow> bool \<times> 'w secure_vars" where
  "preprocess_secure env now keycode r s =
    (if secure_status s = SECURE_PENDING then
       (False, if ev_pressed (event r)
               then secure_keypress_event env now (kp_row (ev_key (event r))) (kp_col (ev_key (event r))) s else s)
     else (True, s))"

definition process_secure :: "'w secure_env \<Rightarrow> u32 \<Rightarrow> u16 \<Rightarrow> keyrecord_t \<Rightarrow> 'w secure_vars \<Rightarrow> bool \<times> 'w secure_vars" where
  "process_secure env now keycode r s =
    (if \<not> SECURE_DISABLE_KEYCODES env \<and> \<not> ev_pressed (event r) then
       (if keycode = QK_SECURE_LOCK then (False, secure_lock env s)
        else if keycode = QK_SECURE_UNLOCK then (False, secure_unlock env now s)
        else if keycode = QK_SECURE_TOGGLE then
          (False, if secure_status s = SECURE_LOCKED then secure_unlock env now s else secure_lock env s)
        else if keycode = QK_SECURE_REQUEST then (False, secure_request_unlock env now s)
        else (True, s))
     else (True, s))"

section \<open>Runs\<close>

text \<open>
  A key event runs through \<open>preprocess_secure\<close> and, when the functions in between let it through (the last argument), through
  \<open>process_secure\<close>; the code may also call the functions of secure.c.
\<close>

datatype secure_event =
    SecureKey u16 keyrecord_t bool
  | SecureTask
  | SecureActivity
  | SecureRequest
  | SecureLock

fun secure_exec :: "'w secure_env \<Rightarrow> u32 \<Rightarrow> secure_event \<Rightarrow> 'w secure_vars \<Rightarrow> 'w secure_vars" where
  "secure_exec env now (SecureKey keycode r reaches) s =
    (let (go, s) = preprocess_secure env now keycode r s in if go \<and> reaches then snd (process_secure env now keycode r s) else s)"
| "secure_exec env now SecureTask s = secure_task env now s"
| "secure_exec env now SecureActivity s = secure_activity_event now s"
| "secure_exec env now SecureRequest s = secure_request_unlock env now s"
| "secure_exec env now SecureLock s = secure_lock env s"

text \<open>The positions pressed while an unlock is pending, the latest last.\<close>

fun typed_position :: "secure_event \<Rightarrow> 'w secure_vars \<Rightarrow> (u8 \<times> u8) list" where
  "typed_position (SecureKey keycode r reaches) s =
    (if secure_status s = SECURE_PENDING \<and> ev_pressed (event r) then [(kp_row (ev_key (event r)), kp_col (ev_key (event r)))] else [])"
| "typed_position ev s = []"

inductive secure_run :: "'w secure_env \<Rightarrow> 'w secure_vars \<Rightarrow> (u8 \<times> u8) list \<Rightarrow> bool" for env :: "'w secure_env" where
  run_start: "secure_run env (secure_start w) []"
| run_step: "secure_run env s keys \<Longrightarrow> secure_run env (secure_exec env now ev s) (keys @ typed_position ev s)"

inductive_cases secure_runE: "secure_run env s keys"

definition secure_ok :: "'w secure_env \<Rightarrow> bool" where
  "secure_ok env \<longleftrightarrow> SECURE_UNLOCK_SEQUENCE env \<noteq> [] \<and> length (SECURE_UNLOCK_SEQUENCE env) \<le> 255"

text \<open>The keys typed last are the first part of the sequence.\<close>

definition matched :: "'w secure_env \<Rightarrow> 'w secure_vars \<Rightarrow> (u8 \<times> u8) list \<Rightarrow> bool" where
  "matched env s keys \<longleftrightarrow> unat (sequence_offset s) < length (SECURE_UNLOCK_SEQUENCE env) \<and>
     suffix (take (unat (sequence_offset s)) (SECURE_UNLOCK_SEQUENCE env)) keys"

lemma secure_ops_offset [simp]:
  "sequence_offset (secure_hook env s) = sequence_offset s" "sequence_offset (secure_lock env s) = sequence_offset s"
  "sequence_offset (secure_unlock env now s) = sequence_offset s"
  "sequence_offset (secure_request_unlock env now s) = sequence_offset s"
  "sequence_offset (secure_activity_event now s) = sequence_offset s" "sequence_offset (secure_task env now s) = sequence_offset s"
  "sequence_offset (snd (process_secure env now k r s)) = sequence_offset s"
  by (simp_all add: secure_hook_def secure_lock_def secure_unlock_def secure_request_unlock_def secure_activity_event_def
      secure_task_def process_secure_def Let_def)

lemma secure_ops_status [simp]:
  "secure_status (secure_hook env s) = secure_status s" "secure_status (secure_lock env s) = SECURE_LOCKED"
  "secure_status (secure_unlock env now s) = SECURE_UNLOCKED" "idle_time (secure_unlock env now s) = now"
  by (simp_all add: secure_hook_def secure_lock_def secure_unlock_def)

text \<open>One press while an unlock is pending.\<close>

lemma keypress_matched:
  fixes row col :: u8 and now :: u32
  assumes "secure_ok env" "matched env s keys"
  defines "s' \<equiv> secure_keypress_event env now row col s"
  shows "matched env s' (keys @ [(row, col)]) \<and>
    (secure_status s = SECURE_PENDING \<longrightarrow> secure_status s' = SECURE_UNLOCKED \<longrightarrow>
      suffix (SECURE_UNLOCK_SEQUENCE env) (keys @ [(row, col)]))"
proof -
  define q where "q = SECURE_UNLOCK_SEQUENCE env"
  define n where "n = unat (sequence_offset s)"
  have n: "n < length q" "length q \<le> 255" "suffix (take n q) keys"
    using assms(1,2) by (simp_all add: secure_ok_def matched_def q_def n_def)
  then have inc: "unat (sequence_offset s + 1) = Suc n"
    by (simp add: n_def unat_word_ariths)
  show ?thesis
  proof (cases "q ! n = (row, col)")
    case True
    then have "take (Suc n) q = take n q @ [(row, col)]"
      using n(1) by (simp add: take_Suc_conv_app_nth)
    then have suffix: "suffix (take (Suc n) q) (keys @ [(row, col)])"
      using n(3) by simp
    show ?thesis
      using True n suffix inc
      by (auto simp: s'_def secure_keypress_event_def Let_def matched_def n_def [symmetric] q_def [symmetric])
  next
    case False
    then show ?thesis
      using n by (simp add: s'_def secure_keypress_event_def matched_def n_def [symmetric] q_def [symmetric] del: length_greater_0_conv)
  qed
qed

lemma secure_exec_matched:
  assumes "secure_ok env" "matched env s keys"
  shows "matched env (secure_exec env now ev s) (keys @ typed_position ev s)"
proof (cases ev)
  case (SecureKey k r reaches)
  then show ?thesis
    using assms(2) keypress_matched [OF assms, of now "kp_row (ev_key (event r))" "kp_col (ev_key (event r))"]
    by (auto simp: preprocess_secure_def matched_def)
qed (use assms(2) in \<open>simp_all add: matched_def\<close>)

lemma secure_run_matched:
  assumes "secure_ok env" "secure_run env s keys"
  shows "matched env s keys"
  using assms(2)
proof induction
  case (run_start w)
  then show ?case
    using assms(1) by (simp add: matched_def secure_start_def secure_ok_def)
qed (rule secure_exec_matched [OF assms(1)])

section \<open>Properties\<close>

lemma pending_keeps: "secure_status (secure_task env now s) = SECURE_UNLOCKED \<Longrightarrow> secure_status s = SECURE_UNLOCKED"
  by (auto simp: secure_task_def Let_def split: if_splits)

text \<open>A press of the position, whose keycode does nothing.\<close>

definition press_position :: "'w secure_env \<Rightarrow> u32 \<Rightarrow> u8 \<times> u8 \<Rightarrow> 'w secure_vars \<Rightarrow> 'w secure_vars" where
  "press_position env now p = secure_exec env now (SecureKey 0 (record_of_event (MAKE_KEYEVENT (fst p) (snd p) True (ucast now))) False)"

lemma press_position_eq:
  "press_position env now (row, col) s = (if secure_status s = SECURE_PENDING then secure_keypress_event env now row col s else s)"
  by (simp add: press_position_def preprocess_secure_def MAKE_KEYEVENT_def MAKE_EVENT_def)

lemma not_pending_stays:
  "secure_status s \<noteq> SECURE_PENDING \<Longrightarrow> fold (press_position env now) ps s = s"
  by (induction ps) (auto simp: press_position_eq)

lemma sequence_unlocks:
  assumes "secure_ok env" "secure_status s = SECURE_PENDING" "unat (sequence_offset s) < length (SECURE_UNLOCK_SEQUENCE env)"
    and "length ps = length (SECURE_UNLOCK_SEQUENCE env) - unat (sequence_offset s)"
  shows "secure_status (fold (press_position env now) ps s) = SECURE_UNLOCKED \<longleftrightarrow>
    ps = drop (unat (sequence_offset s)) (SECURE_UNLOCK_SEQUENCE env)"
  using assms(2-4)
proof (induction ps arbitrary: s)
  case (Cons p ps)
  define q n where "q = SECURE_UNLOCK_SEQUENCE env" and "n = unat (sequence_offset s)"
  have n: "n < length q" "length q \<le> 255" "length ps = length q - Suc n"
    using Cons.prems assms(1) by (simp_all add: q_def n_def secure_ok_def)
  have inc: "unat (sequence_offset s + 1) = Suc n"
    using n by (simp add: n_def unat_word_ariths)
  have drop: "drop n q = q ! n # drop (Suc n) q"
    using n(1) by (simp add: Cons_nth_drop_Suc)
  obtain row col where p: "p = (row, col)"
    by (cases p)
  consider "q ! n \<noteq> p" | "q ! n = p" "Suc n = length q" | "q ! n = p" "Suc n < length q"
    using n(1) by linarith
  then show ?case
  proof cases
    case 1
    then have "fold (press_position env now) (p # ps) s = secure_lock env (s\<lparr>sequence_offset := 0\<rparr>)"
      using Cons.prems(1) by (simp add: p press_position_eq secure_keypress_event_def q_def n_def not_pending_stays)
    then show ?thesis
      using 1 by (simp add: q_def [symmetric] n_def [symmetric] drop)
  next
    case 2
    then show ?thesis
      using Cons.prems(1) n inc
      by (simp add: p press_position_eq secure_keypress_event_def Let_def q_def [symmetric] n_def [symmetric] drop not_pending_stays)
  next
    case 3
    define s' where "s' = s\<lparr>sequence_offset := sequence_offset s + 1\<rparr>"
    have "fold (press_position env now) (p # ps) s = fold (press_position env now) ps s'"
      using 3 Cons.prems(1) inc
      by (simp add: p press_position_eq secure_keypress_event_def Let_def q_def [symmetric] n_def [symmetric] s'_def)
    then show ?thesis
      using Cons.IH [of s'] Cons.prems(1) 3 n inc by (simp add: s'_def q_def [symmetric] n_def [symmetric] drop)
  qed
qed simp

text \<open>
  (C18)
  Only the sequence unlocks: however keys, requests, tasks and locks follow each other, when an event unlocks the keyboard
  while an unlock is pending, the positions typed at such times end with the whole sequence; the position that is
  compared next is always in the sequence.  Typing as many positions as the sequence has, from its start, unlocks the
  keyboard if and only if they are the sequence.
\<close>

theorem secure_unlock_needs_sequence:
  assumes "secure_ok env" "secure_run env s keys" "secure_status s = SECURE_PENDING"
  shows "(secure_status (secure_exec env now ev s) = SECURE_UNLOCKED \<longrightarrow>
      suffix (SECURE_UNLOCK_SEQUENCE env) (keys @ typed_position ev s)) \<and>
    unat (sequence_offset s) < length (SECURE_UNLOCK_SEQUENCE env) \<and>
    (sequence_offset s = 0 \<longrightarrow> length ps = length (SECURE_UNLOCK_SEQUENCE env) \<longrightarrow>
      (secure_status (fold (press_position env now) ps s) = SECURE_UNLOCKED \<longleftrightarrow> ps = SECURE_UNLOCK_SEQUENCE env))"
proof -
  note m = secure_run_matched [OF assms(1,2)]
  have offset: "unat (sequence_offset s) < length (SECURE_UNLOCK_SEQUENCE env)"
    using m by (simp add: matched_def)
  moreover have "suffix (SECURE_UNLOCK_SEQUENCE env) (keys @ typed_position ev s)"
    if "secure_status (secure_exec env now ev s) = SECURE_UNLOCKED"
  proof (cases ev)
    case (SecureKey k r reaches)
    then show ?thesis
      using that assms(3) keypress_matched [OF assms(1) m, of now "kp_row (ev_key (event r))" "kp_col (ev_key (event r))"]
      by (auto simp: preprocess_secure_def split: if_splits)
  next
    case SecureTask
    then show ?thesis
      using that pending_keeps [of env now s] assms(3) by simp
  qed (use that assms(3) in \<open>simp_all add: secure_activity_event_def secure_request_unlock_def\<close>)
  ultimately show ?thesis
    using sequence_unlocks [OF assms(1,3) offset, of ps now] by auto
qed

text \<open>Without activity the keyboard is locked again by the first task after the timeout, and so is a pending unlock.\<close>

lemma secure_times_out:
  assumes "secure_status s = SECURE_UNLOCKED \<longrightarrow> SECURE_IDLE_TIMEOUT env \<noteq> 0 \<and> SECURE_IDLE_TIMEOUT env \<le> TIMER_DIFF_32 now (idle_time s)"
    and "secure_status s = SECURE_PENDING \<longrightarrow> SECURE_UNLOCK_TIMEOUT env \<noteq> 0 \<and> SECURE_UNLOCK_TIMEOUT env \<le> TIMER_DIFF_32 now (unlock_time s)"
  shows "secure_status (secure_task env now s) = SECURE_LOCKED"
  using assms by (cases "secure_status s") (simp_all add: secure_task_def)

text \<open>
  The offset is not reset by a timeout: the sequence may be typed in parts, each in a time limit of its own.
\<close>

definition two_keys :: "unit secure_env" where
  "two_keys = \<lparr>SECURE_UNLOCK_TIMEOUT = 5000, SECURE_IDLE_TIMEOUT = 60000, SECURE_UNLOCK_SEQUENCE = [(0, 0), (0, 1)],
     SECURE_DISABLE_KEYCODES = False, secure_hooks = (\<lambda>_ w. w)\<rparr>"

lemma sequence_survives_timeout:
  "let s1 = press_position two_keys 100 (0, 0) (secure_request_unlock two_keys 0 (secure_start ()));
       s2 = secure_task two_keys 6000 s1;
       s3 = press_position two_keys 90100 (0, 1) (secure_request_unlock two_keys 90000 s2)
   in secure_status s2 = SECURE_LOCKED \<and> secure_status s3 = SECURE_UNLOCKED"
  by (simp add: Let_def two_keys_def secure_start_def secure_request_unlock_def press_position_eq secure_keypress_event_def
      secure_task_def secure_lock_def secure_unlock_def secure_hook_def TIMER_DIFF_32_def)

lemma two_keys_ok: "secure_ok two_keys"
  by (simp add: secure_ok_def two_keys_def)

theorem secure_unlock_needs_sequence_witness:
  "secure_status (fold (press_position two_keys 10) [(0, 0), (0, 1)] (secure_request_unlock two_keys 0 (secure_start ()))) =
    SECURE_UNLOCKED"
proof -
  define s where "s = secure_request_unlock two_keys 0 (secure_start ())"
  have "secure_run two_keys (secure_exec two_keys 0 SecureRequest (secure_start ())) ([] @ typed_position SecureRequest (secure_start ()))"
    by (intro secure_run.intros)
  then have run: "secure_run two_keys s []"
    by (simp add: s_def)
  have s: "secure_status s = SECURE_PENDING" "sequence_offset s = 0"
    by (simp_all add: s_def secure_request_unlock_def secure_start_def secure_hook_def)
  have "SECURE_UNLOCK_SEQUENCE two_keys = [(0, 0), (0, 1)]"
    by (simp add: two_keys_def)
  then show ?thesis
    using secure_unlock_needs_sequence [OF two_keys_ok run s(1), of 10 SecureTask "[(0, 0), (0, 1)]"] s(2) by (simp add: s_def)
qed

end
