(* ===== verification/Leader.thy ===== *)
theory Leader
  imports Events
begin

text \<open>
  quantum/leader.c and quantum/process_keycode/process_leader.c: after the leader key up to five keys are collected until a
  time limit; then the code of the user looks at them.

  \<open>now\<close> is what \<open>timer_read()\<close> returns in a call.  The two hooks of the user see the state and may change that of the rest
  of the firmware, \<open>'w\<close>.  \<open>LEADER_NO_TIMEOUT\<close>, \<open>LEADER_PER_KEY_TIMING\<close> and \<open>LEADER_KEY_STRICT_KEY_PROCESSING\<close> are settings.
\<close>

section \<open>State and operations\<close>

abbreviation QK_LEADER :: u16 where "QK_LEADER \<equiv> 0x7C58"

record leader_keys =
  leading :: bool
  leader_time :: u16
  leader_sequence :: "u16 list"
  leader_sequence_size :: u8

record 'w leader_env =
  LEADER_TIMEOUT :: u16
  LEADER_NO_TIMEOUT :: bool
  LEADER_PER_KEY_TIMING :: bool
  LEADER_KEY_STRICT_KEY_PROCESSING :: bool
  leader_start_user :: "leader_keys \<Rightarrow> 'w \<Rightarrow> 'w"
  leader_end_user :: "leader_keys \<Rightarrow> 'w \<Rightarrow> 'w"

definition leader_initial :: leader_keys where
  "leader_initial = \<lparr>leading = False, leader_time = 0, leader_sequence = [0, 0, 0, 0, 0], leader_sequence_size = 0\<rparr>"

definition leader_start :: "'w leader_env \<Rightarrow> u16 \<Rightarrow> leader_keys \<times> 'w \<Rightarrow> leader_keys \<times> 'w" where
  "leader_start env now = (\<lambda>(l, w).
     if leading l then (l, w)
     else (l\<lparr>leading := True, leader_time := now, leader_sequence_size := 0, leader_sequence := [0, 0, 0, 0, 0]\<rparr>,
           leader_start_user env l w))"

definition leader_end :: "'w leader_env \<Rightarrow> leader_keys \<times> 'w \<Rightarrow> leader_keys \<times> 'w" where
  "leader_end env = (\<lambda>(l, w). let l = l\<lparr>leading := False\<rparr> in (l, leader_end_user env l w))"

definition leader_sequence_timed_out :: "'w leader_env \<Rightarrow> u16 \<Rightarrow> leader_keys \<Rightarrow> bool" where
  "leader_sequence_timed_out env now l \<longleftrightarrow>
     (LEADER_NO_TIMEOUT env \<longrightarrow> 0 < leader_sequence_size l) \<and> LEADER_TIMEOUT env < TIMER_DIFF_16 now (leader_time l)"

definition leader_task :: "'w leader_env \<Rightarrow> u16 \<Rightarrow> leader_keys \<times> 'w \<Rightarrow> leader_keys \<times> 'w" where
  "leader_task env now s = (if leading (fst s) \<and> leader_sequence_timed_out env now (fst s) then leader_end env s else s)"

definition leader_reset_timer :: "u16 \<Rightarrow> leader_keys \<Rightarrow> leader_keys" where
  "leader_reset_timer now l = l\<lparr>leader_time := now\<rparr>"

definition leader_sequence_add :: "'w leader_env \<Rightarrow> u16 \<Rightarrow> u16 \<Rightarrow> leader_keys \<Rightarrow> bool \<times> leader_keys" where
  "leader_sequence_add env now keycode l =
    (if 5 \<le> leader_sequence_size l then (False, l)
     else
       (let l = (if LEADER_NO_TIMEOUT env \<and> leader_sequence_size l = 0 then leader_reset_timer now l else l)
        in (True, l\<lparr>leader_sequence := (leader_sequence l)[unat (leader_sequence_size l) := keycode],
                    leader_sequence_size := leader_sequence_size l + 1\<rparr>)))"

definition leader_sequence_is :: "u16 \<Rightarrow> u16 \<Rightarrow> u16 \<Rightarrow> u16 \<Rightarrow> u16 \<Rightarrow> leader_keys \<Rightarrow> bool" where
  "leader_sequence_is kc1 kc2 kc3 kc4 kc5 l \<longleftrightarrow>
     leader_sequence l ! 0 = kc1 \<and> leader_sequence l ! 1 = kc2 \<and> leader_sequence l ! 2 = kc3 \<and>
     leader_sequence l ! 3 = kc4 \<and> leader_sequence l ! 4 = kc5"

definition leader_sequence_one_key :: "u16 \<Rightarrow> leader_keys \<Rightarrow> bool" where
  "leader_sequence_one_key kc l = leader_sequence_is kc 0 0 0 0 l"

definition leader_sequence_two_keys :: "u16 \<Rightarrow> u16 \<Rightarrow> leader_keys \<Rightarrow> bool" where
  "leader_sequence_two_keys kc1 kc2 l = leader_sequence_is kc1 kc2 0 0 0 l"

definition leader_sequence_three_keys :: "u16 \<Rightarrow> u16 \<Rightarrow> u16 \<Rightarrow> leader_keys \<Rightarrow> bool" where
  "leader_sequence_three_keys kc1 kc2 kc3 l = leader_sequence_is kc1 kc2 kc3 0 0 l"

definition leader_sequence_four_keys :: "u16 \<Rightarrow> u16 \<Rightarrow> u16 \<Rightarrow> u16 \<Rightarrow> leader_keys \<Rightarrow> bool" where
  "leader_sequence_four_keys kc1 kc2 kc3 kc4 l = leader_sequence_is kc1 kc2 kc3 kc4 0 l"

definition leader_sequence_five_keys :: "u16 \<Rightarrow> u16 \<Rightarrow> u16 \<Rightarrow> u16 \<Rightarrow> u16 \<Rightarrow> leader_keys \<Rightarrow> bool" where
  "leader_sequence_five_keys kc1 kc2 kc3 kc4 kc5 l = leader_sequence_is kc1 kc2 kc3 kc4 kc5 l"

definition process_leader :: "'w leader_env \<Rightarrow> u16 \<Rightarrow> u16 \<Rightarrow> keyrecord_t \<Rightarrow> leader_keys \<times> 'w \<Rightarrow> bool \<times> leader_keys \<times> 'w" where
  "process_leader env now keycode r s =
    (if ev_pressed (event r) then
       (if leading (fst s) \<and> \<not> leader_sequence_timed_out env now (fst s) then
          (let keycode = (if LEADER_KEY_STRICT_KEY_PROCESSING env then keycode
                          else if IS_QK_MOD_TAP keycode then QK_MOD_TAP_GET_TAP_KEYCODE keycode
                          else if IS_QK_LAYER_TAP keycode then QK_LAYER_TAP_GET_TAP_KEYCODE keycode
                          else keycode);
               (added, l) = leader_sequence_add env now keycode (fst s)
           in if \<not> added then (True, leader_end env (l, snd s))
              else (False, if LEADER_PER_KEY_TIMING env then leader_reset_timer now l else l, snd s))
        else if keycode = QK_LEADER then (True, leader_start env now s)
        else (True, s))
     else (True, s))"

section \<open>What is collected\<close>

text \<open>Events at their times, after the leader key.\<close>

datatype leader_event = LeaderPress u16 u16 | LeaderRelease u16 u16 | LeaderTask u16

definition leader_record :: "bool \<Rightarrow> keyrecord_t" where
  "leader_record pressed = record_of_event (MAKE_KEYEVENT 0 0 pressed 0)"

fun leader_exec :: "'w leader_env \<Rightarrow> leader_event \<Rightarrow> leader_keys \<times> 'w \<Rightarrow> bool \<times> leader_keys \<times> 'w" where
  "leader_exec env (LeaderPress t k) s = process_leader env t k (leader_record True) s"
| "leader_exec env (LeaderRelease t k) s = process_leader env t k (leader_record False) s"
| "leader_exec env (LeaderTask t) s = (True, leader_task env t s)"

text \<open>The run, with the keycodes of the presses that are passed on.\<close>

fun leader_run :: "'w leader_env \<Rightarrow> leader_event list \<Rightarrow> leader_keys \<times> 'w \<Rightarrow> u16 list \<times> leader_keys \<times> 'w" where
  "leader_run env [] s = ([], s)"
| "leader_run env (ev # es) s =
    (let (pass, s) = leader_exec env ev s; (passed, s) = leader_run env es s
     in (case ev of LeaderPress t k \<Rightarrow> if pass then k # passed else passed | _ \<Rightarrow> passed, s))"

text \<open>The key that is collected for a keycode, and those of the events.\<close>

definition leader_key :: "'w leader_env \<Rightarrow> u16 \<Rightarrow> u16" where
  "leader_key env k =
    (if \<not> LEADER_KEY_STRICT_KEY_PROCESSING env \<and> (IS_QK_MOD_TAP k \<or> IS_QK_LAYER_TAP k) then k AND 0xFF else k)"

fun leader_pressed :: "'w leader_env \<Rightarrow> leader_event list \<Rightarrow> u16 list" where
  "leader_pressed env [] = []"
| "leader_pressed env (LeaderPress t k # es) = leader_key env k # leader_pressed env es"
| "leader_pressed env (LeaderRelease t k # es) = leader_pressed env es"
| "leader_pressed env (LeaderTask t # es) = leader_pressed env es"

text \<open>
  The time from which the limit counts after \<open>n\<close> keys: that of the leader key, of the first key without an initial limit, of
  the latest key with a limit per key.
\<close>

definition restarts :: "'w leader_env \<Rightarrow> nat \<Rightarrow> bool" where
  "restarts env n \<longleftrightarrow> LEADER_PER_KEY_TIMING env \<or> LEADER_NO_TIMEOUT env \<and> n = 0"

definition waits :: "'w leader_env \<Rightarrow> u16 \<Rightarrow> nat \<Rightarrow> u16 \<Rightarrow> bool" where
  "waits env since n t \<longleftrightarrow> LEADER_NO_TIMEOUT env \<and> n = 0 \<or> t - since \<le> LEADER_TIMEOUT env"

fun in_time :: "'w leader_env \<Rightarrow> u16 \<Rightarrow> nat \<Rightarrow> leader_event list \<Rightarrow> bool" where
  "in_time env since n [] \<longleftrightarrow> True"
| "in_time env since n (LeaderPress t k # es) \<longleftrightarrow>
     n < 5 \<and> waits env since n t \<and> in_time env (if restarts env n then t else since) (Suc n) es"
| "in_time env since n (LeaderRelease t k # es) \<longleftrightarrow> in_time env since n es"
| "in_time env since n (LeaderTask t # es) \<longleftrightarrow> waits env since n t \<and> in_time env since n es"

fun counted_from :: "'w leader_env \<Rightarrow> u16 \<Rightarrow> nat \<Rightarrow> leader_event list \<Rightarrow> u16" where
  "counted_from env since n [] = since"
| "counted_from env since n (LeaderPress t k # es) = counted_from env (if restarts env n then t else since) (Suc n) es"
| "counted_from env since n (LeaderRelease t k # es) = counted_from env since n es"
| "counted_from env since n (LeaderTask t # es) = counted_from env since n es"

definition padded :: "u16 list \<Rightarrow> u16 list" where
  "padded ks = ks @ replicate (5 - length ks) 0"

definition collecting :: "u16 \<Rightarrow> u16 list \<Rightarrow> leader_keys" where
  "collecting since ks = \<lparr>leading = True, leader_time = since, leader_sequence = padded ks, leader_sequence_size = of_nat (length ks)\<rparr>"

lemma collecting_leading [simp]: "leading (collecting since ks)"
  by (simp add: collecting_def)

lemma collecting_timed_out:
  "length ks \<le> 5 \<Longrightarrow> leader_sequence_timed_out env t (collecting since ks) \<longleftrightarrow> \<not> waits env since (length ks) t"
  by (auto simp: leader_sequence_timed_out_def waits_def collecting_def TIMER_DIFF_16_def word_gt_0 word_of_nat_eq_0_iff
      dest: dvd_imp_le)

lemma small_size: "n \<le> 5 \<Longrightarrow> 5 \<le> (of_nat n :: u8) \<longleftrightarrow> n = 5" "n \<le> 5 \<Longrightarrow> unat (of_nat n :: u8) = n"
  by (auto simp: word_le_nat_alt unat_of_nat)

lemma padded_update:
  assumes "length ks < 5"
  shows "(padded ks)[length ks := k] = padded (ks @ [k])"
proof -
  have "5 - length ks = Suc (5 - Suc (length ks))"
    using assms by simp
  then show ?thesis
    by (simp add: padded_def list_update_append)
qed

lemma leader_record_pressed [simp]: "ev_pressed (event (leader_record p)) = p"
  by (simp add: leader_record_def MAKE_KEYEVENT_def MAKE_EVENT_def)

lemma press_collects:
  assumes "length ks \<le> 5" "waits env since (length ks) t"
  shows "process_leader env t k (leader_record True) (collecting since ks, w) =
    (if length ks = 5 then (True, leader_end env (collecting since ks, w))
     else (False, collecting (if restarts env (length ks) then t else since) (ks @ [leader_key env k]), w))"
proof -
  have key: "(if LEADER_KEY_STRICT_KEY_PROCESSING env then k else if IS_QK_MOD_TAP k then QK_MOD_TAP_GET_TAP_KEYCODE k
      else if IS_QK_LAYER_TAP k then QK_LAYER_TAP_GET_TAP_KEYCODE k else k) = leader_key env k"
    by (simp add: leader_key_def QK_MOD_TAP_GET_TAP_KEYCODE_def QK_LAYER_TAP_GET_TAP_KEYCODE_def)
  have start: "process_leader env t k (leader_record True) (collecting since ks, w) =
      (let (added, l) = leader_sequence_add env t (leader_key env k) (collecting since ks)
       in if \<not> added then (True, leader_end env (l, w))
          else (False, if LEADER_PER_KEY_TIMING env then leader_reset_timer t l else l, w))"
    using collecting_timed_out [OF assms(1), of env t since] assms(2)
    by (simp add: process_leader_def Let_def key split_beta)
  show ?thesis
  proof (cases "length ks = 5")
    case True
    then show ?thesis
      unfolding start by (simp add: leader_sequence_add_def collecting_def)
  next
    case False
    then have less: "length ks < 5"
      using assms(1) by simp
    have size: "\<not> 5 \<le> leader_sequence_size (collecting since ks)" "unat (leader_sequence_size (collecting since ks)) = length ks"
      "leader_sequence_size (collecting since ks) = 0 \<longleftrightarrow> length ks = 0"
      using less by (auto simp: collecting_def small_size word_of_nat_eq_0_iff dest: dvd_imp_le)
    have "leader_sequence_add env t (leader_key env k) (collecting since ks) =
        (True, collecting (if LEADER_NO_TIMEOUT env \<and> length ks = 0 then t else since) (ks @ [leader_key env k]))"
      using less by (simp add: leader_sequence_add_def size Let_def leader_reset_timer_def)
        (use padded_update [OF less, of "leader_key env k"] in \<open>auto simp: collecting_def\<close>)
    then show ?thesis
      unfolding start using False by (simp add: leader_reset_timer_def restarts_def) (simp add: collecting_def)
  qed
qed

lemma leader_start_collects: "\<not> leading l \<Longrightarrow> leader_start env t (l, w) = (collecting t [], leader_start_user env l w)"
  by (simp add: leader_start_def collecting_def padded_def numeral_eq_Suc)

lemma leader_run_collects:
  assumes "length ks \<le> 5" "in_time env since (length ks) es"
  shows "leader_run env es (collecting since ks, w) =
    ([], collecting (counted_from env since (length ks) es) (ks @ leader_pressed env es), w) \<and>
    length (ks @ leader_pressed env es) \<le> 5"
  using assms
proof (induction es arbitrary: since ks)
  case (Cons ev es)
  show ?case
  proof (cases ev)
    case (LeaderPress t k)
    then show ?thesis
      using Cons.IH [of "ks @ [leader_key env k]" "if restarts env (length ks) then t else since"] Cons.prems press_collects [of ks env since t k w]
      by simp
  next
    case (LeaderRelease t k)
    then show ?thesis
      using Cons by (simp add: process_leader_def)
  next
    case (LeaderTask t)
    then show ?thesis
      using Cons.IH [of ks since] Cons.prems collecting_timed_out [OF Cons.prems(1), of env t since] by (simp add: leader_task_def)
  qed
qed simp

section \<open>Properties\<close>

definition ended :: "u16 \<Rightarrow> u16 list \<Rightarrow> leader_keys" where
  "ended since ks = (collecting since ks)\<lparr>leading := False\<rparr>"

text \<open>
  (C19)
  The leader key collects the keys that follow it: keys pressed in time, with releases and tasks between them, are not
  passed on, no hook runs in the meantime, and the first task behind the limit ends the sequence and calls the hook of the user
  with exactly these keys (the tap keys of dual-role keys), followed by zeros.  A sixth key in time ends the sequence
  with the five keys before it, and is passed on.
\<close>

theorem leader_sequence_collects:
  fixes es :: "leader_event list" and env :: "'w leader_env" and w :: 'w and t0 :: u16
  assumes "\<not> leading l" "in_time env t0 0 es"
  defines "s \<equiv> snd (process_leader env t0 QK_LEADER (leader_record True) (l, w))"
  defines "w1 \<equiv> leader_start_user env l w" and "ks \<equiv> leader_pressed env es" and "since \<equiv> counted_from env t0 0 es"
  shows "fst (leader_run env es s) = [] \<and> snd (snd (leader_run env es s)) = w1 \<and>
    (\<not> waits env since (length ks) t \<longrightarrow>
      leader_task env t (snd (leader_run env es s)) = (ended since ks, leader_end_user env (ended since ks) w1)) \<and>
    (waits env since (length ks) t \<and> length ks = 5 \<longrightarrow>
      process_leader env t k (leader_record True) (snd (leader_run env es s)) =
        (True, ended since ks, leader_end_user env (ended since ks) w1)) \<and>
    leader_sequence (ended since ks) = padded ks \<and> length ks \<le> 5"
proof -
  have s: "s = (collecting t0 [], w1)"
    using assms(1) by (simp add: s_def process_leader_def leader_start_collects w1_def)
  have run: "leader_run env es s = ([], collecting since ks, w1)" and len: "length ks \<le> 5"
    using leader_run_collects [of "[]" env t0 es w1] assms(2) by (simp_all add: s since_def ks_def)
  have "leader_sequence (ended since ks) = padded ks"
    by (simp add: ended_def collecting_def)
  moreover have "leader_end env (collecting since ks, w1) = (ended since ks, leader_end_user env (ended since ks) w1)"
    by (simp add: leader_end_def Let_def ended_def)
  ultimately show ?thesis
    using collecting_timed_out [OF len, of env t since] press_collects [OF len, of env since t k w1] len
    by (auto simp: run leader_task_def)
qed

definition example_leader :: "leader_keys list leader_env" where
  "example_leader = \<lparr>LEADER_TIMEOUT = 300, LEADER_NO_TIMEOUT = False, LEADER_PER_KEY_TIMING = False,
     LEADER_KEY_STRICT_KEY_PROCESSING = False, leader_start_user = (\<lambda>l w. w), leader_end_user = (\<lambda>l w. w @ [l])\<rparr>"

text \<open>D and a dual-role key of S, pressed in time: the hook sees D and S.\<close>

theorem leader_sequence_collects_witness:
  "map leader_sequence (snd (leader_task example_leader 500 (snd (leader_run example_leader
     [LeaderPress 150 7, LeaderTask 160, LeaderRelease 170 7, LeaderPress 200 0x4116]
     (snd (process_leader example_leader 100 QK_LEADER (leader_record True) (leader_initial, []))))))) = [[7, 0x16, 0, 0, 0]]"
proof -
  have env: "LEADER_TIMEOUT example_leader = 300" "\<not> LEADER_NO_TIMEOUT example_leader" "\<not> LEADER_PER_KEY_TIMING example_leader"
    "\<not> LEADER_KEY_STRICT_KEY_PROCESSING example_leader" "leader_start_user example_leader l w = w"
    "leader_end_user example_leader l w = w @ [l]" for l w
    by (simp_all add: example_leader_def)
  have "\<not> leading leader_initial" "in_time example_leader 100 0 [LeaderPress 150 7, LeaderTask 160, LeaderRelease 170 7, LeaderPress 200 0x4116]"
    by (simp_all add: leader_initial_def waits_def restarts_def env)
  note collects = leader_sequence_collects [OF this, of "[]" 500 0]
  moreover have "padded [7, 0x16] = [7, 0x16, 0, 0, 0]"
    by code_simp
  ultimately show ?thesis
    by (simp add: waits_def restarts_def leader_key_def IS_QK_MOD_TAP_def IS_QK_LAYER_TAP_def env)
qed

end
