(* ===== verification/Typing.thy ===== *)
theory Typing
  imports SendString
begin

text \<open>
  Keycodes with modifiers (\<open>register_code16\<close> and the functions around it in quantum/quantum.c), and what the host reads while
  keys are down: from a state in which the keys of a set are pressed, a press types its key with
  the modifiers, a release types nothing, and other modifiers may be sent in between.
\<close>

abbreviation KC_RIGHT_SHIFT :: "'a::len word" where "KC_RIGHT_SHIFT \<equiv> 0xE5"

section \<open>Keycodes of 16 bits\<close>

definition extract_mod_bits :: "u16 \<Rightarrow> u8" where
  "extract_mod_bits code =
    (if \<not> IS_QK_MODS code then 0
     else
       let right = code AND 0x1000 \<noteq> 0
       in (if code AND 0x0100 \<noteq> 0 then MOD_BIT (if right then KC_RIGHT_CTRL else KC_LEFT_CTRL) else 0) OR
          (if code AND 0x0200 \<noteq> 0 then MOD_BIT (if right then KC_RIGHT_SHIFT else KC_LEFT_SHIFT) else 0) OR
          (if code AND 0x0400 \<noteq> 0 then MOD_BIT (if right then KC_RIGHT_ALT else KC_LEFT_ALT) else 0) OR
          (if code AND 0x0800 \<noteq> 0 then MOD_BIT (if right then KC_RIGHT_GUI else KC_LEFT_GUI) else 0))"

definition register_code16 :: "('c) mods_config_scheme \<Rightarrow> u16 \<Rightarrow> ('s) mods_vars_scheme \<Rightarrow> ('s) mods_vars_scheme" where
  "register_code16 cf code s =
    register_code cf (ucast code)
      (if IS_MODIFIER_KEYCODE code \<or> code = KC_NO then register_mods cf (extract_mod_bits code) s
       else register_weak_mods cf (extract_mod_bits code) s)"

definition unregister_code16 :: "('c) mods_config_scheme \<Rightarrow> u16 \<Rightarrow> ('s) mods_vars_scheme \<Rightarrow> ('s) mods_vars_scheme" where
  "unregister_code16 cf code s =
    (let s = unregister_code cf (ucast code) s
     in if IS_MODIFIER_KEYCODE code \<or> code = KC_NO then unregister_mods cf (extract_mod_bits code) s
        else unregister_weak_mods cf (extract_mod_bits code) s)"

definition tap_code16_delay :: "('c) mods_config_scheme \<Rightarrow> u16 \<Rightarrow> u16 \<Rightarrow> ('s) mods_vars_scheme \<Rightarrow> ('s) mods_vars_scheme" where
  "tap_code16_delay cf code delay s = unregister_code16 cf code (wait_times (unat delay) (register_code16 cf code s))"

definition tap_code16 :: "('h, 'c) actions_config_scheme \<Rightarrow> u16 \<Rightarrow> ('s) mods_vars_scheme \<Rightarrow> ('s) mods_vars_scheme" where
  "tap_code16 cf code s =
     tap_code16_delay cf code (of_nat (if code = KC_CAPS_LOCK then TAP_HOLD_CAPS_DELAY cf else TAP_CODE_DELAY cf)) s"

section \<open>Keys down\<close>

definition typing :: "('c) mods_config_scheme \<Rightarrow> u8 set \<Rightarrow> ('s) mods_vars_scheme \<Rightarrow> bool" where
  "typing cf K s \<longleftrightarrow>
     host_driver cf \<and> host_synced s \<and> report_inv (use_nkro s) (keyboard_report s) \<and>
     (\<forall>k. is_key_pressed (use_nkro s) (keyboard_report s) k \<longleftrightarrow> k \<in> K) \<and> (\<forall>k. host_pressed s (out s) k \<longleftrightarrow> k \<in> K) \<and>
     oneshot_mods s = 0 \<and> suppressed_mods s = 0 \<and> weak_override_mods s = 0"

lemma typing_empty: "typing cf {} s \<longleftrightarrow> quiet cf s"
  by (simp add: typing_def quiet_def)

text \<open>The report of six keys has room for another one.\<close>

definition has_room :: "u8 set \<Rightarrow> ('s) mods_vars_scheme \<Rightarrow> bool" where
  "has_room K s \<longleftrightarrow> use_nkro s \<or> card K < 6"

lemma room_fits:
  assumes "report_inv n r" "\<And>j. is_key_pressed n r j \<longleftrightarrow> j \<in> K" "n \<or> card K < 6" "IS_BASIC_KEYCODE k"
  shows "report_fits n r k"
proof (cases n)
  case True
  then show ?thesis
    using assms(4) by (simp add: report_fits_def nkro_fits_def IS_BASIC_KEYCODE_def word_le_nat_alt KEYBOARD_REPORT_BITS_def)
next
  case False
  have "0 \<in> set (rk_keys r)"
  proof (rule ccontr)
    assume no: "0 \<notin> set (rk_keys r)"
    then have "filter (\<lambda>k. k \<noteq> 0) (rk_keys r) = rk_keys r"
      by (intro filter_True) auto
    then have "distinct (rk_keys r)" "length (rk_keys r) = 6"
      using assms(1) False length_rk_keys [of r] by (simp_all add: report_inv_def kro6_inv_def)
    then have "card (set (rk_keys r)) = 6"
      by (metis distinct_card)
    moreover have "j \<in> set (rk_keys r) \<longleftrightarrow> j \<in> K" for j
      using assms(2) [of j] no False by (auto simp: is_key_pressed_def split: if_splits)
    then have "set (rk_keys r) = K"
      by blast
    ultimately show False
      using assms(3) False by simp
  qed
  then show ?thesis
    using False by (simp add: report_fits_def kro6_fits_def)
qed

lemma timer_send [simp]: "timer (send_keyboard_report cf s) = timer s"
  by (simp add: send_keyboard_report_def update_report_mods_def clear_oneshot_mods_def host_keyboard_send_def Let_def emit_def
      put_report_mods_def)

lemma new_keys_none: "(\<And>j. is_key_pressed n (empty_report\<lparr>rk_payload := new\<rparr>) j \<Longrightarrow>
    is_key_pressed n (empty_report\<lparr>rk_payload := old\<rparr>) j) \<Longrightarrow> new_keys n old new = []"
  by (auto simp: new_keys_def filter_empty_conv)

lemma new_keys_one:
  assumes "k \<noteq> 0" "\<And>j. is_key_pressed n (empty_report\<lparr>rk_payload := new\<rparr>) j \<longleftrightarrow>
      j = k \<or> is_key_pressed n (empty_report\<lparr>rk_payload := old\<rparr>) j"
    and "\<not> is_key_pressed n (empty_report\<lparr>rk_payload := old\<rparr>) k"
  shows "new_keys n old new = [k]"
proof -
  have d: "distinct (map of_nat [1..<256] :: u8 list)"
    by (auto simp: distinct_map inj_on_def word_of_nat_eq_iff take_bit_nat_def)
  have "of_nat (unat k) \<in> set (map of_nat [1..<256] :: u8 list)"
    using assms(1) unsigned_less [of k] unfolding set_map by (intro imageI) (auto simp: unat_gt_0 Suc_le_eq)
  then have k: "k \<in> set (map of_nat [1..<256] :: u8 list)"
    by simp
  have "new_keys n old new = filter (\<lambda>j. j = k) (map of_nat [1..<256])"
    unfolding new_keys_def using assms(2,3) by (intro filter_cong) auto
  then show ?thesis
    using filter_eq_single [OF d k] by simp
qed

text \<open>A report is sent in a state that differs in its keys and modifiers.\<close>

lemma typing_send:
  assumes "typing cf K s" "host_synced s'" "use_nkro s' = use_nkro s" "out s' = out s"
    and "report_inv (use_nkro s) (keyboard_report s')" "\<And>j. is_key_pressed (use_nkro s) (keyboard_report s') j \<longleftrightarrow> j \<in> K'"
    and "oneshot_mods s' = 0" "suppressed_mods s' = 0" "weak_override_mods s' = 0"
  defines "t \<equiv> send_keyboard_report cf s'"
  shows "typing cf K' t" "use_nkro t = use_nkro s" "real_mods t = real_mods s'" "weak_mods t = weak_mods s'" "timer t = timer s'"
    and "K' \<subseteq> K \<Longrightarrow> host_typed (out t) = host_typed (out s)"
    and "K' = insert k K \<Longrightarrow> k \<noteq> 0 \<Longrightarrow> k \<notin> K \<Longrightarrow>
      host_typed (out t) = host_typed (out s) @ [(real_mods s' OR weak_mods s', k)]"
proof -
  have h: "host_driver cf"
    using assms(1) by (simp add: typing_def)
  note send = send_host_pressed [OF h assms(2)]
  show u: "use_nkro t = use_nkro s" and "real_mods t = real_mods s'" "weak_mods t = weak_mods s'" "timer t = timer s'"
    using assms(3) by (simp_all add: t_def)
  have "host_pressed t (out t) j \<longleftrightarrow> j \<in> K'" for j
    using send(2) [of t j] assms(6) [of j] u by (simp add: t_def)
  then show "typing cf K' t"
    using assms(5-9) u send h by (simp add: typing_def t_def send_oneshot live_oneshot_mods_def)
  have new: "is_key_pressed (use_nkro s) (empty_report\<lparr>rk_payload := rk_payload (keyboard_report s')\<rparr>) j \<longleftrightarrow> j \<in> K'" for j
    using assms(6) by (simp add: is_key_pressed_payload)
  have old: "is_key_pressed (use_nkro s) (empty_report\<lparr>rk_payload := snd (host_view (out s))\<rparr>) j \<longleftrightarrow> j \<in> K" for j
    using assms(1) by (simp add: typing_def host_pressed_def)
  have typed: "host_typed (out t) = host_typed (out s) @ map (Pair (real_mods s' OR weak_mods s'))
      (new_keys (use_nkro s) (snd (host_view (out s))) (rk_payload (keyboard_report s')))"
    using typed_send [OF h assms(2)] assms(3,4,7-9) by (simp add: t_def wanted_mods_def live_oneshot_mods_def)
  show "host_typed (out t) = host_typed (out s)" if "K' \<subseteq> K"
    unfolding typed using that by (subst new_keys_none) (auto simp: new old)
  show "host_typed (out t) = host_typed (out s) @ [(real_mods s' OR weak_mods s', k)]" if "K' = insert k K" "k \<noteq> 0" "k \<notin> K"
    unfolding typed using that by (subst new_keys_one [of k]) (auto simp: new old)
qed

lemma typing_press:
  assumes "typing cf K s" "IS_BASIC_KEYCODE k" "k \<notin> K" "has_room K s"
  defines "t \<equiv> register_code cf k s"
  shows "typing cf (insert k K) t" "host_typed (out t) = host_typed (out s) @ [(real_mods s OR weak_mods s, k)]"
    "use_nkro t = use_nkro s" "real_mods t = real_mods s" "weak_mods t = weak_mods s" "timer t = timer s"
proof -
  define n where "n = use_nkro s"
  have inv: "report_inv n (keyboard_report s)" and keys: "\<And>j. is_key_pressed n (keyboard_report s) j \<longleftrightarrow> j \<in> K"
    using assms(1) by (simp_all add: typing_def n_def)
  have k: "k \<noteq> 0"
    using assms(2) by (rule basic_keycode_nonzero)
  have fits: "report_fits n (keyboard_report s) k"
    using inv keys assms(2,4) by (intro room_fits) (auto simp: has_room_def n_def)
  have t: "t = send_keyboard_report cf (add_key k s)"
    using k assms(2,3) keys by (simp add: t_def register_code_def n_def)
  have pressed: "is_key_pressed n (keyboard_report (add_key k s)) j \<longleftrightarrow> j \<in> insert k K" for j
    using inv k fits keys by (auto simp: n_def [symmetric] report.pressed_add)
  have "host_synced (add_key k s)" "report_inv n (keyboard_report (add_key k s))"
    using assms(1) inv k by (simp_all add: typing_def n_def [symmetric] report.inv_add)
  note send = typing_send [OF assms(1) this(1) _ _ this(2) [unfolded n_def] pressed [unfolded n_def]]
  show "typing cf (insert k K) t" "host_typed (out t) = host_typed (out s) @ [(real_mods s OR weak_mods s, k)]"
    "use_nkro t = use_nkro s" "real_mods t = real_mods s" "weak_mods t = weak_mods s" "timer t = timer s"
    using send k assms(1,3) by (simp_all add: t typing_def add_key_def)
qed

lemma typing_release:
  assumes "typing cf K s" "IS_BASIC_KEYCODE k"
  defines "t \<equiv> unregister_code cf k s"
  shows "typing cf (K - {k}) t" "host_typed (out t) = host_typed (out s)"
    "use_nkro t = use_nkro s" "real_mods t = real_mods s" "weak_mods t = weak_mods s" "timer t = timer s"
proof -
  define n where "n = use_nkro s"
  have inv: "report_inv n (keyboard_report s)" and keys: "\<And>j. is_key_pressed n (keyboard_report s) j \<longleftrightarrow> j \<in> K"
    using assms(1) by (simp_all add: typing_def n_def)
  have k: "k \<noteq> 0"
    using assms(2) by (rule basic_keycode_nonzero)
  have t: "t = send_keyboard_report cf (del_key k s)"
    using k assms(2) by (simp add: t_def unregister_code_def)
  have pressed: "is_key_pressed n (keyboard_report (del_key k s)) j \<longleftrightarrow> j \<in> K - {k}" for j
    using inv k keys by (auto simp: n_def [symmetric] report.pressed_del)
  have "host_synced (del_key k s)" "report_inv n (keyboard_report (del_key k s))"
    using assms(1) inv k by (simp_all add: typing_def n_def [symmetric] report.inv_del)
  note send = typing_send [OF assms(1) this(1) _ _ this(2) [unfolded n_def] pressed [unfolded n_def]]
  show "typing cf (K - {k}) t" "host_typed (out t) = host_typed (out s)"
    "use_nkro t = use_nkro s" "real_mods t = real_mods s" "weak_mods t = weak_mods s" "timer t = timer s"
    using send assms(1) by (simp_all add: t typing_def del_key_def)
qed

lemma typing_set_mods:
  "typing cf K s \<Longrightarrow> typing cf K (s\<lparr>real_mods := m\<rparr>)" "typing cf K s \<Longrightarrow> typing cf K (s\<lparr>weak_mods := w\<rparr>)"
  "typing cf K s \<Longrightarrow> typing cf K (s\<lparr>real_mods := m, weak_mods := w\<rparr>)" "typing cf K s \<Longrightarrow> typing cf K (s\<lparr>timer := now\<rparr>)"
  by (auto simp: typing_def host_synced_def use_nkro_def host_pressed_def)

lemma typing_send_mods:
  assumes "typing cf K s"
  defines "t \<equiv> send_keyboard_report cf s"
  shows "typing cf K t" "host_typed (out t) = host_typed (out s)"
    "use_nkro t = use_nkro s" "real_mods t = real_mods s" "weak_mods t = weak_mods s" "timer t = timer s"
proof -
  have "host_synced s" "report_inv (use_nkro s) (keyboard_report s)" "is_key_pressed (use_nkro s) (keyboard_report s) j \<longleftrightarrow> j \<in> K"
    "oneshot_mods s = 0" "suppressed_mods s = 0" "weak_override_mods s = 0" for j
    using assms(1) by (simp_all add: typing_def)
  note send = typing_send [OF assms(1) this(1) refl refl this(2,3,4,5,6)]
  show "typing cf K t" "host_typed (out t) = host_typed (out s)"
    "use_nkro t = use_nkro s" "real_mods t = real_mods s" "weak_mods t = weak_mods s" "timer t = timer s"
    using send by (simp_all add: t_def)
qed

text \<open>Pressing and releasing a modifier.\<close>

lemma typing_modifier:
  assumes "typing cf K s" "IS_MODIFIER_KEYCODE k"
  shows "typing cf K (register_code cf k s)" "host_typed (out (register_code cf k s)) = host_typed (out s)"
    "use_nkro (register_code cf k s) = use_nkro s" "real_mods (register_code cf k s) = real_mods s OR MOD_BIT k"
    "weak_mods (register_code cf k s) = weak_mods s" "timer (register_code cf k s) = timer s"
    "typing cf K (unregister_code cf k s)" "host_typed (out (unregister_code cf k s)) = host_typed (out s)"
    "use_nkro (unregister_code cf k s) = use_nkro s" "real_mods (unregister_code cf k s) = real_mods s AND NOT (MOD_BIT k)"
    "weak_mods (unregister_code cf k s) = weak_mods s" "timer (unregister_code cf k s) = timer s"
proof -
  have code: "k \<noteq> 0" "\<not> IS_BASIC_KEYCODE k"
    using assms(2) by (auto simp: IS_MODIFIER_KEYCODE_def IS_BASIC_KEYCODE_def word_le_nat_alt)
  have reg: "register_code cf k s = send_keyboard_report cf (add_mods (MOD_BIT k) s)"
    "unregister_code cf k s = send_keyboard_report cf (del_mods (MOD_BIT k) s)"
    using code assms(2) by (simp_all add: register_code_def unregister_code_def)
  have "add_mods m s = s\<lparr>real_mods := real_mods s OR m\<rparr>"
    "del_mods m s = s\<lparr>real_mods := real_mods s AND NOT m\<rparr>" for m
    by (simp_all add: add_mods_def del_mods_def)
  then have "typing cf K (add_mods m s)" "typing cf K (del_mods m s)" for m
    using typing_set_mods(1) [OF assms(1)] by simp_all
  note send = typing_send_mods [OF this(1), of "MOD_BIT k"] typing_send_mods [OF this(2), of "MOD_BIT k"]
  show "typing cf K (register_code cf k s)" "host_typed (out (register_code cf k s)) = host_typed (out s)"
    "use_nkro (register_code cf k s) = use_nkro s" "real_mods (register_code cf k s) = real_mods s OR MOD_BIT k"
    "weak_mods (register_code cf k s) = weak_mods s" "timer (register_code cf k s) = timer s"
    "typing cf K (unregister_code cf k s)" "host_typed (out (unregister_code cf k s)) = host_typed (out s)"
    "use_nkro (unregister_code cf k s) = use_nkro s" "real_mods (unregister_code cf k s) = real_mods s AND NOT (MOD_BIT k)"
    "weak_mods (unregister_code cf k s) = weak_mods s" "timer (unregister_code cf k s) = timer s"
    unfolding reg using send by (simp_all add: add_mods_def del_mods_def use_nkro_def)
qed

text \<open>A keycode of 16 bits without modifiers.\<close>

lemma plain_code16:
  fixes k :: u8
  assumes "IS_BASIC_KEYCODE k"
  shows "register_code16 cf (ucast k) s = register_code cf k s" "unregister_code16 cf (ucast k) s = unregister_code cf k s"
proof -
  have k: "unat (ucast k :: u16) = unat k"
    using unat_less_numeral_8 [of k] by (simp add: unsigned_ucast_eq take_bit_nat_eq_self)
  have "extract_mod_bits (ucast k) = 0"
    using k unat_less_numeral_8 [of k] by (simp add: extract_mod_bits_def IS_QK_MODS_def word_le_nat_alt)
  moreover have "ucast (ucast k :: u16) = k"
    by (rule bit_word_eqI) (auto simp: bit_simps)
  ultimately show "register_code16 cf (ucast k) s = register_code cf k s" "unregister_code16 cf (ucast k) s = unregister_code cf k s"
    by (simp_all add: Let_def register_code16_def unregister_code16_def register_mods_def register_weak_mods_def unregister_mods_def
        unregister_weak_mods_def)
qed

end
