(* ===== verification/CapsWord.thy ===== *)
theory CapsWord
  imports Typing
begin

text \<open>
  quantum/caps_word.c and quantum/process_keycode/process_caps_word.c: caps word shifts the letters of one word.

  The state is a pair, of the variables of the feature and those of the rest of the firmware, which hold the modifiers and
  the time.  The two hooks of the user may change the latter.  An idle timeout of 0 switches the timer off, as the \<open>#if\<close> does.
  Tapping, one-shot keys, layers and the swap of hands are enabled, \<open>COMMAND_ENABLE\<close> and \<open>AUTO_SHIFT_ENABLE\<close> are not.
\<close>

section \<open>Operations\<close>

abbreviation QK_CAPS_WORD_TOGGLE :: u16 where "QK_CAPS_WORD_TOGGLE \<equiv> 0x7C73"
abbreviation MOD_MASK_SHIFT :: u8 where "MOD_MASK_SHIFT \<equiv> 0x22"
abbreviation MOD_LSFT :: u8 where "MOD_LSFT \<equiv> 0x02"
abbreviation MOD_RSFT :: u8 where "MOD_RSFT \<equiv> 0x12"

record 'w caps_word_env =
  CAPS_WORD_IDLE_TIMEOUT :: u16
  CAPS_WORD_INVERT_ON_SHIFT :: bool
  BOTH_SHIFTS_TURNS_ON_CAPS_WORD :: bool
  DOUBLE_TAP_SHIFT_TURNS_ON_CAPS_WORD :: bool
  GET_TAPPING_TERM :: "u16 \<Rightarrow> keyrecord_t \<Rightarrow> u16"
  caps_word_set_user :: "bool \<Rightarrow> 'w \<Rightarrow> 'w"
  caps_word_press_user :: "u16 \<Rightarrow> 'w \<Rightarrow> bool \<times> 'w"

text \<open>\<open>tapped\<close> and \<open>tap_deadline\<close> are the static variables \<open>tapped\<close> and \<open>timer\<close> of \<open>process_caps_word\<close>.\<close>

record caps_word_vars =
  caps_word_active :: bool
  idle_timer :: u16
  held_mods :: u8
  tapped :: bool
  tap_deadline :: u16

definition caps_word_start :: caps_word_vars where
  "caps_word_start = \<lparr>caps_word_active = False, idle_timer = 0, held_mods = 0, tapped = False, tap_deadline = 0\<rparr>"

definition timer_expired :: "u16 \<Rightarrow> u16 \<Rightarrow> bool" where
  "timer_expired current future \<longleftrightarrow> current - future < 0x7FFF"

text \<open>What the user may override.\<close>

definition default_caps_word_press_user :: "u16 \<Rightarrow> ('s) mods_vars_scheme \<Rightarrow> bool \<times> ('s) mods_vars_scheme" where
  "default_caps_word_press_user keycode s =
    (if 0x04 \<le> keycode \<and> keycode \<le> 0x1D \<or> keycode = 0x2D then (True, add_weak_mods (MOD_BIT KC_LEFT_SHIFT) s)
     else if 0x1E \<le> keycode \<and> keycode \<le> 0x27 \<or> keycode = KC_BACKSPACE \<or> keycode = 0x4C \<or> keycode = 0x022D then (True, s)
     else (False, s))"

definition caps_word_reset_idle_timer ::
    "'w caps_word_env \<Rightarrow> caps_word_vars \<times> ('s) mods_vars_scheme \<Rightarrow> caps_word_vars \<times> ('s) mods_vars_scheme" where
  "caps_word_reset_idle_timer env = (\<lambda>(c, s). (c\<lparr>idle_timer := timer s + CAPS_WORD_IDLE_TIMEOUT env\<rparr>, s))"

definition caps_word_on ::
    "('c) mods_config_scheme \<Rightarrow> ('s) mods_vars_scheme caps_word_env \<Rightarrow> caps_word_vars \<times> ('s) mods_vars_scheme \<Rightarrow>
     caps_word_vars \<times> ('s) mods_vars_scheme" where
  "caps_word_on cf env cs =
    (if caps_word_active (fst cs) then cs
     else
       let (c, s) = cs;
           s = clear_oneshot_mods cf (clear_mods s);
           (c, s) = (if CAPS_WORD_IDLE_TIMEOUT env > 0 then caps_word_reset_idle_timer env (c, s) else (c, s))
       in (c\<lparr>caps_word_active := True\<rparr>, caps_word_set_user env True s))"

definition caps_word_off ::
    "('c) mods_config_scheme \<Rightarrow> ('s) mods_vars_scheme caps_word_env \<Rightarrow> caps_word_vars \<times> ('s) mods_vars_scheme \<Rightarrow>
     caps_word_vars \<times> ('s) mods_vars_scheme" where
  "caps_word_off cf env cs =
    (if \<not> caps_word_active (fst cs) then cs
     else let (c, s) = cs; s = unregister_weak_mods cf MOD_MASK_SHIFT s
          in (c\<lparr>caps_word_active := False\<rparr>, caps_word_set_user env False s))"

definition caps_word_toggle ::
    "('c) mods_config_scheme \<Rightarrow> ('s) mods_vars_scheme caps_word_env \<Rightarrow> caps_word_vars \<times> ('s) mods_vars_scheme \<Rightarrow>
     caps_word_vars \<times> ('s) mods_vars_scheme" where
  "caps_word_toggle cf env cs = (if caps_word_active (fst cs) then caps_word_off cf env cs else caps_word_on cf env cs)"

definition caps_word_task ::
    "('c) mods_config_scheme \<Rightarrow> ('s) mods_vars_scheme caps_word_env \<Rightarrow> caps_word_vars \<times> ('s) mods_vars_scheme \<Rightarrow>
     caps_word_vars \<times> ('s) mods_vars_scheme" where
  "caps_word_task cf env cs =
    (if CAPS_WORD_IDLE_TIMEOUT env > 0 \<and> caps_word_active (fst cs) \<and> timer_expired (timer (snd cs)) (idle_timer (fst cs))
     then caps_word_off cf env cs else cs)"

text \<open>The key that \<open>handle_shift\<close> takes a keycode for.\<close>

definition shift_key :: "u16 \<Rightarrow> keyrecord_t \<Rightarrow> u16" where
  "shift_key keycode r =
    (if keycode = OSM (ucast MOD_LSFT) then KC_LEFT_SHIFT
     else if keycode = OSM (ucast MOD_RSFT) then KC_RIGHT_SHIFT
     else if IS_QK_MOD_TAP keycode \<and> tap_count r = 0 then
       (if QK_MOD_TAP_GET_MODS keycode = MOD_LSFT then KC_LEFT_SHIFT
        else if QK_MOD_TAP_GET_MODS keycode = MOD_RSFT then KC_RIGHT_SHIFT else keycode)
     else keycode)"

definition handle_shift ::
    "u16 \<Rightarrow> keyrecord_t \<Rightarrow> caps_word_vars \<times> ('s) mods_vars_scheme \<Rightarrow> bool \<times> caps_word_vars \<times> ('s) mods_vars_scheme" where
  "handle_shift keycode r = (\<lambda>(c, s).
    let keycode = shift_key keycode r; m = MOD_BIT (ucast keycode)
    in if keycode = KC_LEFT_SHIFT \<or> keycode = KC_RIGHT_SHIFT then
         (if caps_word_active c then
            (False, c\<lparr>held_mods := (if ev_pressed (event r) then held_mods c OR m else held_mods c AND NOT m)\<rparr>, s)
          else if held_mods c AND m \<noteq> 0 then
            (ev_pressed (event r), c\<lparr>held_mods := held_mods c AND NOT m\<rparr>, del_mods m s)
          else (True, c, s))
       else (True, c, s))"

text \<open>Turning caps word on by the shift keys, when it is off.\<close>

definition caps_word_shifts ::
    "('c) mods_config_scheme \<Rightarrow> ('s) mods_vars_scheme caps_word_env \<Rightarrow> u16 \<Rightarrow> keyrecord_t \<Rightarrow> u8 \<Rightarrow>
     caps_word_vars \<times> ('s) mods_vars_scheme \<Rightarrow> caps_word_vars \<times> ('s) mods_vars_scheme" where
  "caps_word_shifts cf env keycode r m cs =
    (let cs = (if BOTH_SHIFTS_TURNS_ON_CAPS_WORD env \<and> m = MOD_MASK_SHIFT then caps_word_on cf env cs else cs)
     in if DOUBLE_TAP_SHIFT_TURNS_ON_CAPS_WORD env \<and> ev_pressed (event r) then
          (if keycode = KC_LEFT_SHIFT \<or> keycode = OSM (ucast MOD_LSFT) then
             (let (c, s) = (if tapped (fst cs) \<and> \<not> timer_expired (ev_time (event r)) (tap_deadline (fst cs))
                            then caps_word_on cf env cs else cs)
              in (c\<lparr>tapped := True, tap_deadline := ev_time (event r) + GET_TAPPING_TERM env keycode r\<rparr>, s))
           else ((fst cs)\<lparr>tapped := False\<rparr>, snd cs))
        else cs)"

text \<open>What the switch over the keycode decides.\<close>

datatype caps_word_choice = CapsIgnore | CapsStop | CapsKey u16

definition caps_word_key :: "'w caps_word_env \<Rightarrow> u16 \<Rightarrow> keyrecord_t \<Rightarrow> caps_word_choice" where
  "caps_word_key env keycode r =
    (if IS_QK_MOMENTARY keycode \<or> IS_QK_TO keycode \<or> IS_QK_TOGGLE_LAYER keycode \<or> IS_QK_LAYER_TAP_TOGGLE keycode \<or>
        IS_QK_ONE_SHOT_LAYER keycode \<or> 0x7C77 \<le> keycode \<and> keycode \<le> 0x7C78 \<or> keycode = KC_RIGHT_ALT \<or> keycode = OSM (ucast MOD_RALT)
     then CapsIgnore
     else if IS_QK_MOD_TAP keycode then
       (if tap_count r = 0 then
          (let m = QK_MOD_TAP_GET_MODS keycode
           in if \<not> CAPS_WORD_INVERT_ON_SHIFT env \<and> m = MOD_LSFT then CapsKey KC_LEFT_SHIFT
              else if \<not> CAPS_WORD_INVERT_ON_SHIFT env \<and> m = MOD_RSFT then CapsKey KC_RIGHT_SHIFT
              else if m = MOD_RSFT OR MOD_RALT then CapsKey (0x1200 OR KC_RIGHT_ALT)
              else if m = MOD_RALT then CapsIgnore
              else CapsStop)
        else CapsKey (QK_MOD_TAP_GET_TAP_KEYCODE keycode))
     else if IS_QK_LAYER_TAP keycode then
       (if tap_count r = 0 then CapsIgnore else CapsKey (QK_LAYER_TAP_GET_TAP_KEYCODE keycode))
     else if IS_QK_SWAP_HANDS keycode then
       (if IS_SWAP_HANDS_KEYCODE keycode \<or> tap_count r = 0 then CapsIgnore
        else CapsKey (QK_SWAP_HANDS_GET_TAP_KEYCODE keycode))
     else CapsKey keycode)"

text \<open>The end of the function, which turns caps word off.\<close>

definition caps_word_stop ::
    "('c) mods_config_scheme \<Rightarrow> ('s) mods_vars_scheme caps_word_env \<Rightarrow> caps_word_vars \<times> ('s) mods_vars_scheme \<Rightarrow>
     bool \<times> caps_word_vars \<times> ('s) mods_vars_scheme" where
  "caps_word_stop cf env cs =
    (let (c, s) = caps_word_off cf env cs
     in (True, c, if CAPS_WORD_INVERT_ON_SHIFT env then add_mods (held_mods c) s else s))"

definition process_caps_word ::
    "('c) mods_config_scheme \<Rightarrow> ('s) mods_vars_scheme caps_word_env \<Rightarrow> u16 \<Rightarrow> keyrecord_t \<Rightarrow>
     caps_word_vars \<times> ('s) mods_vars_scheme \<Rightarrow> bool \<times> caps_word_vars \<times> ('s) mods_vars_scheme" where
  "process_caps_word cf env keycode r cs =
    (if keycode = QK_CAPS_WORD_TOGGLE then (False, if ev_pressed (event r) then caps_word_toggle cf env cs else cs)
     else
       let (go, cs) = (if CAPS_WORD_INVERT_ON_SHIFT env then handle_shift keycode r cs else (True, cs))
       in if \<not> go then (False, cs)
          else
            let m = real_mods (snd cs) OR oneshot_mods (snd cs)
            in if \<not> caps_word_active (fst cs) then (True, caps_word_shifts cf env keycode r m cs)
               else
                 let cs = (if CAPS_WORD_IDLE_TIMEOUT env > 0 then caps_word_reset_idle_timer env cs else cs)
                 in if \<not> ev_pressed (event r) then (True, cs)
                    else if m AND NOT (MOD_MASK_SHIFT OR MOD_BIT KC_RIGHT_ALT) = 0 then
                      (case caps_word_key env keycode r of
                         CapsIgnore \<Rightarrow> (True, cs)
                       | CapsStop \<Rightarrow> caps_word_stop cf env cs
                       | CapsKey keycode \<Rightarrow>
                           (let (c, s) = cs; (on, s) = caps_word_press_user env keycode (clear_weak_mods s)
                            in if on then
                                 (True, c, send_keyboard_report cf
                                    (if CAPS_WORD_INVERT_ON_SHIFT env \<and> held_mods c \<noteq> 0
                                     then set_weak_mods (weak_mods s XOR MOD_BIT KC_LEFT_SHIFT) s else s))
                               else caps_word_stop cf env (c, s)))
                    else caps_word_stop cf env cs)"

section \<open>Use\<close>

text \<open>
  Basic keys, the left shift and the key of caps word are pressed and released, and tasks run, at their times.  A key
  that \<open>process_caps_word\<close> lets through is registered or unregistered.
\<close>

datatype caps_event =
    CapsKeyEvent u16 u8 bool
  | CapsShift u16 bool
  | CapsToggle u16
  | CapsTask u16

definition caps_key_event ::
    "('c) mods_config_scheme \<Rightarrow> ('s) mods_vars_scheme caps_word_env \<Rightarrow> u16 \<Rightarrow> u8 \<Rightarrow> bool \<Rightarrow>
     caps_word_vars \<times> ('s) mods_vars_scheme \<Rightarrow> caps_word_vars \<times> ('s) mods_vars_scheme" where
  "caps_key_event cf env t k p = (\<lambda>(c, s).
    let (go, c, s) = process_caps_word cf env (ucast k) (record_of_event (MAKE_KEYEVENT 0 0 p t)) (c, s\<lparr>timer := t\<rparr>)
    in (c, if go then (if p then register_code cf k s else unregister_code cf k s) else s))"

fun caps_exec ::
    "('c) mods_config_scheme \<Rightarrow> ('s) mods_vars_scheme caps_word_env \<Rightarrow> caps_event \<Rightarrow>
     caps_word_vars \<times> ('s) mods_vars_scheme \<Rightarrow> caps_word_vars \<times> ('s) mods_vars_scheme" where
  "caps_exec cf env (CapsKeyEvent t k p) cs = caps_key_event cf env t k p cs"
| "caps_exec cf env (CapsShift t p) cs = caps_key_event cf env t KC_LEFT_SHIFT p cs"
| "caps_exec cf env (CapsToggle t) cs =
    snd (process_caps_word cf env QK_CAPS_WORD_TOGGLE (record_of_event (MAKE_KEYEVENT 0 0 False t))
      (snd (process_caps_word cf env QK_CAPS_WORD_TOGGLE (record_of_event (MAKE_KEYEVENT 0 0 True t))
        (fst cs, (snd cs)\<lparr>timer := t\<rparr>))))"
| "caps_exec cf env (CapsTask t) cs = caps_word_task cf env (fst cs, (snd cs)\<lparr>timer := t\<rparr>)"

text \<open>
  What should be typed.  Letters and the minus come out shifted while caps word is on, digits, the underscore and keys that
  delete do not end it, every other key, the shift key (unless it inverts) and the timeout do.  With
  \<open>CAPS_WORD_INVERT_ON_SHIFT\<close> a held shift key inverts the shift of the keys of the word; a key that ends the word gets it as
  an ordinary shift.
\<close>

record caps_spec =
  cs_on :: bool
  cs_since :: u16
  cs_shift :: bool
  cs_held :: bool
  cs_down :: "u8 set"

definition caps_letter :: "u8 \<Rightarrow> bool" where
  "caps_letter k \<longleftrightarrow> 0x04 \<le> k \<and> k \<le> 0x1D \<or> k = 0x2D"

definition caps_continues :: "u8 \<Rightarrow> bool" where
  "caps_continues k \<longleftrightarrow> caps_letter k \<or> 0x1E \<le> k \<and> k \<le> 0x27 \<or> k = KC_BACKSPACE \<or> k = 0x4C"

fun caps_step :: "'w caps_word_env \<Rightarrow> caps_event \<Rightarrow> caps_spec \<Rightarrow> (u8 \<times> u8) list \<times> caps_spec" where
  "caps_step env (CapsKeyEvent t k True) a =
    (if cs_on a \<and> caps_continues k then
       ([(if caps_letter k \<noteq> cs_held a then 2 else 0, k)], a\<lparr>cs_since := t, cs_down := insert k (cs_down a)\<rparr>)
     else
       let shift = (if cs_on a then cs_held a else cs_shift a)
       in ([(if shift then 2 else 0, k)], a\<lparr>cs_on := False, cs_shift := shift, cs_down := insert k (cs_down a)\<rparr>))"
| "caps_step env (CapsKeyEvent t k False) a = ([], a\<lparr>cs_since := t, cs_down := cs_down a - {k}\<rparr>)"
| "caps_step env (CapsShift t p) a =
    ([], if cs_on a \<and> CAPS_WORD_INVERT_ON_SHIFT env then a\<lparr>cs_held := p\<rparr>
         else a\<lparr>cs_on := cs_on a \<and> \<not> p, cs_since := t, cs_shift := p, cs_held := False\<rparr>)"
| "caps_step env (CapsToggle t) a =
    ([], if cs_on a then a\<lparr>cs_on := False\<rparr> else a\<lparr>cs_on := True, cs_since := t, cs_shift := False\<rparr>)"
| "caps_step env (CapsTask t) a =
    ([], if cs_on a \<and> CAPS_WORD_IDLE_TIMEOUT env > 0 \<and> CAPS_WORD_IDLE_TIMEOUT env \<le> t - cs_since a \<and>
            unat (t - cs_since a) < unat (CAPS_WORD_IDLE_TIMEOUT env) + 0x7FFF
         then a\<lparr>cs_on := False\<rparr> else a)"

fun caps_steps :: "'w caps_word_env \<Rightarrow> caps_event list \<Rightarrow> caps_spec \<Rightarrow> (u8 \<times> u8) list \<times> caps_spec" where
  "caps_steps env [] a = ([], a)"
| "caps_steps env (e # es) a =
    (let (typed, a) = caps_step env e a; (rest, a) = caps_steps env es a in (typed @ rest, a))"

definition caps_word_ok :: "('s) mods_vars_scheme caps_word_env \<Rightarrow> bool" where
  "caps_word_ok env \<longleftrightarrow> CAPS_WORD_IDLE_TIMEOUT env \<le> 30000 \<and> \<not> DOUBLE_TAP_SHIFT_TURNS_ON_CAPS_WORD env \<and>
     (\<forall>b s. caps_word_set_user env b s = s) \<and> caps_word_press_user env = default_caps_word_press_user"

text \<open>Basic keys are pressed when they are up, at most six at a time in the report of six keys.\<close>

fun caps_valid :: "bool \<Rightarrow> u8 set \<Rightarrow> caps_event list \<Rightarrow> bool" where
  "caps_valid n K [] \<longleftrightarrow> True"
| "caps_valid n K (CapsKeyEvent t k p # es) \<longleftrightarrow> IS_BASIC_KEYCODE k \<and>
    (if p then k \<notin> K \<and> (n \<or> card K < 6) \<and> caps_valid n (insert k K) es else caps_valid n (K - {k}) es)"
| "caps_valid n K (e # es) \<longleftrightarrow> caps_valid n K es"

definition caps_rel ::
    "('c) mods_config_scheme \<Rightarrow> ('s) mods_vars_scheme caps_word_env \<Rightarrow> bool \<Rightarrow> caps_spec \<Rightarrow> caps_word_vars \<times> ('s) mods_vars_scheme \<Rightarrow> bool" where
  "caps_rel cf env n a cs \<longleftrightarrow> (case cs of (c, s) \<Rightarrow>
     typing cf (cs_down a) s \<and> use_nkro s = n \<and> caps_word_active c = cs_on a \<and>
     real_mods s = (if cs_shift a then 2 else 0) \<and> held_mods c = (if cs_held a then 2 else 0) \<and>
     (cs_on a \<longrightarrow> \<not> cs_shift a) \<and> (\<not> CAPS_WORD_INVERT_ON_SHIFT env \<longrightarrow> \<not> cs_held a) \<and>
     (if cs_on a then weak_mods s = 0 \<or> weak_mods s = 2 else weak_mods s = 0) \<and>
     (cs_on a \<longrightarrow> CAPS_WORD_IDLE_TIMEOUT env > 0 \<longrightarrow> idle_timer c = cs_since a + CAPS_WORD_IDLE_TIMEOUT env))"

text \<open>The keycodes of these events.\<close>

lemma unat_widen: "unat (ucast k :: u16) = unat k" for k :: u8
proof -
  have "unat k < 2 ^ 16"
    using unat_less_numeral_8 [of k] by simp
  then show ?thesis
    by (simp add: unsigned_ucast_eq take_bit_nat_eq_self)
qed

lemma caps_keycode:
  fixes k :: u8
  assumes "IS_BASIC_KEYCODE k \<or> k = KC_LEFT_SHIFT"
  shows "caps_word_key env (ucast k) r = CapsKey (ucast k)" "shift_key (ucast k) r = ucast k" "(ucast k :: u16) \<noteq> QK_CAPS_WORD_TOGGLE"
proof -
  have k: "unat (ucast k :: u16) = unat k" "unat k < 256"
    by (rule unat_widen, use unat_less_numeral_8 [of k] in simp)
  moreover have "unat (ucast k :: u16) \<noteq> 0xE6"
    using assms k by (auto simp: IS_BASIC_KEYCODE_def word_le_nat_alt)
  then have "(ucast k :: u16) \<noteq> KC_RIGHT_ALT"
    by (auto simp: word_unat_eq_iff)
  ultimately show "caps_word_key env (ucast k) r = CapsKey (ucast k)" "shift_key (ucast k) r = ucast k"
    "(ucast k :: u16) \<noteq> QK_CAPS_WORD_TOGGLE"
    by (simp_all add: caps_word_key_def shift_key_def IS_QK_MOMENTARY_def IS_QK_TO_def IS_QK_TOGGLE_LAYER_def
        IS_QK_LAYER_TAP_TOGGLE_def IS_QK_ONE_SHOT_LAYER_def IS_QK_MOD_TAP_def IS_QK_LAYER_TAP_def IS_QK_SWAP_HANDS_def OSM_def
        word_le_nat_alt word_unat_eq_iff)
qed

lemma caps_press_user:
  "IS_BASIC_KEYCODE k \<Longrightarrow> default_caps_word_press_user (ucast k) s = (caps_continues k, if caps_letter k then add_weak_mods 2 s else s)"
  "default_caps_word_press_user KC_LEFT_SHIFT s = (False, s)"
  using unat_widen [of k] unat_less_numeral_8 [of k]
  by (simp_all add: default_caps_word_press_user_def caps_continues_def caps_letter_def MOD_BIT_def word_le_nat_alt word_unat_eq_iff)

text \<open>Turning caps word off sends a report without its shift.\<close>

lemma caps_word_off_typing:
  assumes "caps_word_ok env" "typing cf K s" "weak_mods s = 0 \<or> weak_mods s = 2" "caps_word_active c"
  obtains u where "caps_word_off cf env (c, s) = (c\<lparr>caps_word_active := False\<rparr>, u)" "typing cf K u"
    "host_typed (out u) = host_typed (out s)" "use_nkro u = use_nkro s" "real_mods u = real_mods s" "weak_mods u = 0"
proof
  have "weak_mods s AND NOT MOD_MASK_SHIFT = 0"
    using assms(3) by auto
  then have s: "del_weak_mods MOD_MASK_SHIFT s = s\<lparr>weak_mods := 0\<rparr>"
    by (simp add: del_weak_mods_def)
  note send = typing_send_mods [OF typing_set_mods(2) [OF assms(2), of 0]]
  show "caps_word_off cf env (c, s) = (c\<lparr>caps_word_active := False\<rparr>, send_keyboard_report cf (s\<lparr>weak_mods := 0\<rparr>))"
    using assms(1,4) by (simp add: caps_word_off_def unregister_weak_mods_def s caps_word_ok_def)
  show "typing cf K (send_keyboard_report cf (s\<lparr>weak_mods := 0\<rparr>))"
    "host_typed (out (send_keyboard_report cf (s\<lparr>weak_mods := 0\<rparr>))) = host_typed (out s)"
    "use_nkro (send_keyboard_report cf (s\<lparr>weak_mods := 0\<rparr>)) = use_nkro s"
    "real_mods (send_keyboard_report cf (s\<lparr>weak_mods := 0\<rparr>)) = real_mods s"
    "weak_mods (send_keyboard_report cf (s\<lparr>weak_mods := 0\<rparr>)) = 0"
    using send by (simp_all add: use_nkro_def)
qed

lemma basic_not_shift: "IS_BASIC_KEYCODE k \<Longrightarrow> (ucast k :: u16) \<noteq> KC_LEFT_SHIFT \<and> (ucast k :: u16) \<noteq> KC_RIGHT_SHIFT" for k :: u8
  using unat_widen [of k] by (auto simp: IS_BASIC_KEYCODE_def word_le_nat_alt word_unat_eq_iff)

lemma keyevent_pressed [simp]: "ev_pressed (MAKE_KEYEVENT row col p t) = p"
  by (simp add: MAKE_KEYEVENT_def MAKE_EVENT_def)

definition idle_reset :: "'w caps_word_env \<Rightarrow> u16 \<Rightarrow> caps_word_vars \<Rightarrow> caps_word_vars" where
  "idle_reset env t c = (if CAPS_WORD_IDLE_TIMEOUT env > 0 then c\<lparr>idle_timer := t + CAPS_WORD_IDLE_TIMEOUT env\<rparr> else c)"

lemma idle_reset_simps [simp]:
  "caps_word_active (idle_reset env t c) = caps_word_active c" "held_mods (idle_reset env t c) = held_mods c"
  "CAPS_WORD_IDLE_TIMEOUT env > 0 \<Longrightarrow> idle_timer (idle_reset env t c) = t + CAPS_WORD_IDLE_TIMEOUT env"
  by (simp_all add: idle_reset_def)

lemma handle_basic: "IS_BASIC_KEYCODE k \<Longrightarrow> handle_shift (ucast k) r cs = (True, cs)" for k :: u8
  using basic_not_shift [of k] by (simp add: handle_shift_def caps_keycode split_beta)

text \<open>A key event while caps word is on.\<close>

lemma process_on:
  fixes k :: u8
  assumes "IS_BASIC_KEYCODE k \<or> k = KC_LEFT_SHIFT \<and> \<not> CAPS_WORD_INVERT_ON_SHIFT env" "caps_word_active c"
    "real_mods s = 0" "oneshot_mods s = 0"
  shows "process_caps_word cf env (ucast k) (record_of_event (MAKE_KEYEVENT 0 0 p t)) (c, s) =
    (if \<not> p then (True, idle_reset env (timer s) c, s)
     else let (on, u) = caps_word_press_user env (ucast k) (clear_weak_mods s)
          in if on then (True, idle_reset env (timer s) c, send_keyboard_report cf
               (if CAPS_WORD_INVERT_ON_SHIFT env \<and> held_mods c \<noteq> 0 then set_weak_mods (weak_mods u XOR 2) u else u))
             else caps_word_stop cf env (idle_reset env (timer s) c, u))"
proof -
  have shift: "(if CAPS_WORD_INVERT_ON_SHIFT env then handle_shift (ucast k) r (c, s) else (True, c, s)) = (True, c, s)" for r
    using assms(1) handle_basic by auto
  have idle: "(if CAPS_WORD_IDLE_TIMEOUT env > 0 then caps_word_reset_idle_timer env (c, s) else (c, s)) = (idle_reset env (timer s) c, s)"
    by (simp add: caps_word_reset_idle_timer_def idle_reset_def)
  have bit: "MOD_BIT KC_LEFT_SHIFT = 2"
    by (simp add: MOD_BIT_def)
  have key: "caps_word_key env (ucast k) r = CapsKey (ucast k)" "(ucast k :: u16) \<noteq> QK_CAPS_WORD_TOGGLE" for r
    using caps_keycode assms(1) by blast+
  show ?thesis
    using assms(2-4) unfolding process_caps_word_def shift
    by (simp add: key idle bit split_beta Let_def)
qed

text \<open>A key event while it is off; the left shift may be held since before.\<close>

lemma process_off:
  fixes k :: u8
  assumes "IS_BASIC_KEYCODE k \<or> k = KC_LEFT_SHIFT" "\<not> caps_word_active c" "real_mods s = 0 \<or> real_mods s = 2" "oneshot_mods s = 0"
    "held_mods c = 0 \<or> k \<noteq> KC_LEFT_SHIFT \<or> \<not> CAPS_WORD_INVERT_ON_SHIFT env" "\<not> DOUBLE_TAP_SHIFT_TURNS_ON_CAPS_WORD env"
  shows "process_caps_word cf env (ucast k) (record_of_event (MAKE_KEYEVENT 0 0 p t)) (c, s) = (True, c, s)"
proof -
  have shift: "(if CAPS_WORD_INVERT_ON_SHIFT env then handle_shift (ucast k) r (c, s) else (True, c, s)) = (True, c, s)" for r
  proof (cases "CAPS_WORD_INVERT_ON_SHIFT env \<and> k = KC_LEFT_SHIFT")
    case True
    then show ?thesis
      using assms(2,5) by (simp add: handle_shift_def shift_key_def OSM_def IS_QK_MOD_TAP_def)
  next
    case False
    then show ?thesis
      using assms(1) handle_basic [of k] by auto
  qed
  have key: "(ucast k :: u16) \<noteq> QK_CAPS_WORD_TOGGLE"
    using caps_keycode(3) assms(1) by blast
  have "real_mods s \<noteq> 0x22"
    using assms(3) by auto
  then show ?thesis
    using assms(2,4,6) key unfolding process_caps_word_def shift by (simp add: caps_word_shifts_def Let_def)
qed

section \<open>The events keep to the specification\<close>

lemma caps_rel_intro:
  "typing cf (cs_down a) s \<Longrightarrow> use_nkro s = n \<Longrightarrow> caps_word_active c = cs_on a \<Longrightarrow>
   real_mods s = (if cs_shift a then 2 else 0) \<Longrightarrow> held_mods c = (if cs_held a then 2 else 0) \<Longrightarrow>
   (cs_on a \<Longrightarrow> \<not> cs_shift a) \<Longrightarrow> (\<not> CAPS_WORD_INVERT_ON_SHIFT env \<Longrightarrow> \<not> cs_held a) \<Longrightarrow>
   (if cs_on a then weak_mods s = 0 \<or> weak_mods s = 2 else weak_mods s = 0) \<Longrightarrow>
   (cs_on a \<Longrightarrow> CAPS_WORD_IDLE_TIMEOUT env > 0 \<Longrightarrow> idle_timer c = cs_since a + CAPS_WORD_IDLE_TIMEOUT env) \<Longrightarrow>
   caps_rel cf env n a (c, s)"
  by (simp add: caps_rel_def)

text \<open>A key that ends the word, on its way to the action.\<close>

lemma caps_word_stop_typing:
  assumes "caps_word_ok env" "typing cf K s" "weak_mods s = 0 \<or> weak_mods s = 2" "caps_word_active c" "real_mods s = 0"
    "held_mods c = (if held then 2 else 0)" "\<not> CAPS_WORD_INVERT_ON_SHIFT env \<Longrightarrow> \<not> held"
  obtains u where "caps_word_stop cf env (c, s) = (True, c\<lparr>caps_word_active := False\<rparr>, u)" "typing cf K u"
    "host_typed (out u) = host_typed (out s)" "use_nkro u = use_nkro s" "real_mods u = (if held then 2 else 0)" "weak_mods u = 0"
proof -
  obtain u where off: "caps_word_off cf env (c, s) = (c\<lparr>caps_word_active := False\<rparr>, u)" "typing cf K u"
    "host_typed (out u) = host_typed (out s)" "use_nkro u = use_nkro s" "real_mods u = 0" "weak_mods u = 0"
    using caps_word_off_typing [OF assms(1-4)] assms(5) by metis
  show ?thesis
  proof (cases "CAPS_WORD_INVERT_ON_SHIFT env")
    case True
    show ?thesis
    proof (rule that)
      show "caps_word_stop cf env (c, s) = (True, c\<lparr>caps_word_active := False\<rparr>, u\<lparr>real_mods := (if held then 2 else 0)\<rparr>)"
        using True off(1,5) assms(6) by (simp add: caps_word_stop_def add_mods_def)
    qed (use off in \<open>simp_all add: use_nkro_def typing_set_mods\<close>)
  next
    case False
    then show ?thesis
      using that [of u] off assms(7) by (simp add: caps_word_stop_def)
  qed
qed

lemma caps_press_on:
  fixes t :: u16
  assumes "caps_word_ok env" "caps_rel cf env n a (c, s)" "cs_on a" "IS_BASIC_KEYCODE k" "k \<notin> cs_down a" "n \<or> card (cs_down a) < 6"
  defines "b \<equiv> caps_step env (CapsKeyEvent t k True) a" and "q \<equiv> caps_key_event cf env t k True (c, s)"
  shows "caps_rel cf env n (snd b) q \<and> host_typed (out (snd q)) = host_typed (out s) @ fst b"
proof -
  define K where "K = cs_down a"
  define u where "u = clear_weak_mods (s\<lparr>timer := t\<rparr>)"
  define c' where "c' = idle_reset env t c"
  have rel: "typing cf K s" "use_nkro s = n" "caps_word_active c" "real_mods s = 0" "held_mods c = (if cs_held a then 2 else 0)"
    "\<not> CAPS_WORD_INVERT_ON_SHIFT env \<Longrightarrow> \<not> cs_held a" "\<not> cs_shift a"
    using assms(2,3) by (auto simp: caps_rel_def K_def)
  have u: "u = s\<lparr>timer := t, weak_mods := 0\<rparr>"
    by (simp add: u_def clear_weak_mods_def)
  have typing_u: "typing cf K (s\<lparr>timer := t, weak_mods := w\<rparr>)" for w
    using typing_set_mods(2) [OF typing_set_mods(4) [OF rel(1)]] by simp
  have os: "oneshot_mods (s\<lparr>timer := t\<rparr>) = 0"
    using rel(1) by (simp add: typing_def)
  have c': "caps_word_active c'" "held_mods c' = held_mods c"
    using rel(3) by (simp_all add: c'_def)
  have press: "caps_word_press_user env (ucast k) u = (caps_continues k, if caps_letter k then add_weak_mods 2 u else u)"
    using assms(1,4) by (simp add: caps_word_ok_def caps_press_user)
  show ?thesis
  proof (cases "caps_continues k")
    case True
    define m :: u8 where "m = (if caps_letter k \<noteq> cs_held a then 2 else 0)"
    define v where "v = send_keyboard_report cf (s\<lparr>timer := t, weak_mods := m\<rparr>)"
    have mods: "(if CAPS_WORD_INVERT_ON_SHIFT env \<and> held_mods c \<noteq> 0 then set_weak_mods (weak_mods w XOR 2) w else w) =
        s\<lparr>timer := t, weak_mods := m\<rparr>" if "w = (if caps_letter k then add_weak_mods 2 u else u)" for w
      using that rel(5,6) by (auto simp: m_def u add_weak_mods_def set_weak_mods_def)
    have proc: "process_caps_word cf env (ucast k) (record_of_event (MAKE_KEYEVENT 0 0 True t)) (c, s\<lparr>timer := t\<rparr>) = (True, c', v)"
      using process_on [of k env c "s\<lparr>timer := t\<rparr>" cf True t] assms(4) rel(3,4) os
      by (simp add: u_def [symmetric] press True v_def mods c'_def)
    note v = typing_send_mods [OF typing_u [of m], folded v_def]
    have "has_room K v"
      using assms(6) rel(2) v(3) by (simp add: has_room_def K_def use_nkro_def)
    note reg = typing_press [OF v(1) assms(4) _ this]
    have q: "q = (c', register_code cf k v)"
      by (simp add: q_def caps_key_event_def proc)
    have b: "b = ([(m, k)], a\<lparr>cs_since := t, cs_down := insert k K\<rparr>)"
      using True assms(3) by (simp add: b_def m_def K_def)
    have "caps_rel cf env n (snd b) q"
      unfolding q b using assms(3,5) reg v rel c' by (intro caps_rel_intro) (simp_all add: c'_def m_def K_def use_nkro_def)
    then show ?thesis
      using reg v assms(5) rel(4) by (simp add: q b K_def)
  next
    case False
    have w: "caps_word_press_user env (ucast k) u = (False, u)"
      using False press by (simp add: caps_continues_def)
    obtain v where stop: "caps_word_stop cf env (c', u) = (True, c'\<lparr>caps_word_active := False\<rparr>, v)" "typing cf K v"
      "host_typed (out v) = host_typed (out u)" "use_nkro v = use_nkro u" "real_mods v = (if cs_held a then 2 else 0)" "weak_mods v = 0"
      using caps_word_stop_typing [of env cf K u c' "cs_held a"] assms(1) typing_u [of 0] rel c' by (auto simp: u)
    have proc: "process_caps_word cf env (ucast k) (record_of_event (MAKE_KEYEVENT 0 0 True t)) (c, s\<lparr>timer := t\<rparr>) =
        (True, c'\<lparr>caps_word_active := False\<rparr>, v)"
      using process_on [of k env c "s\<lparr>timer := t\<rparr>" cf True t] assms(4) rel(3,4) os
      by (simp add: u_def [symmetric] w stop(1) c'_def [symmetric])
    have "has_room K v"
      using assms(6) rel(2) stop(4) by (simp add: has_room_def K_def use_nkro_def u)
    note reg = typing_press [OF stop(2) assms(4) _ this]
    have q: "q = (c'\<lparr>caps_word_active := False\<rparr>, register_code cf k v)"
      by (simp add: q_def caps_key_event_def proc)
    have b: "b = ([(if cs_held a then 2 else 0, k)], a\<lparr>cs_on := False, cs_shift := cs_held a, cs_down := insert k K\<rparr>)"
      using False assms(3) by (simp add: b_def K_def)
    have "caps_rel cf env n (snd b) q"
      unfolding q b using assms(3,5) reg stop rel c' by (intro caps_rel_intro) (simp_all add: K_def use_nkro_def u)
    then show ?thesis
      using reg stop assms(5) by (simp add: q b K_def u)
  qed
qed

lemma basic_not_left_shift: "IS_BASIC_KEYCODE k \<Longrightarrow> k \<noteq> KC_LEFT_SHIFT" for k :: u8
  by (auto simp: IS_BASIC_KEYCODE_def)

lemma caps_rel_typing: "caps_rel cf env n a (c, s) \<Longrightarrow> typing cf (cs_down a) (s\<lparr>timer := t\<rparr>) \<and> oneshot_mods s = 0 \<and> use_nkro s = n"
  by (simp add: caps_rel_def typing_set_mods) (simp add: typing_def)

lemma caps_press_off:
  fixes t :: u16
  assumes "caps_word_ok env" "caps_rel cf env n a (c, s)" "\<not> cs_on a" "IS_BASIC_KEYCODE k" "k \<notin> cs_down a" "n \<or> card (cs_down a) < 6"
  defines "b \<equiv> caps_step env (CapsKeyEvent t k True) a" and "q \<equiv> caps_key_event cf env t k True (c, s)"
  shows "caps_rel cf env n (snd b) q \<and> host_typed (out (snd q)) = host_typed (out s) @ fst b"
proof -
  note rel = caps_rel_typing [OF assms(2), of t]
  have proc: "process_caps_word cf env (ucast k) (record_of_event (MAKE_KEYEVENT 0 0 True t)) (c, s\<lparr>timer := t\<rparr>) =
      (True, c, s\<lparr>timer := t\<rparr>)"
    using assms(1-4) rel basic_not_left_shift [OF assms(4)] by (intro process_off) (auto simp: caps_rel_def caps_word_ok_def)
  have "has_room (cs_down a) (s\<lparr>timer := t\<rparr>)"
    using assms(6) rel by (simp add: has_room_def use_nkro_def)
  note reg = typing_press [OF conjunct1 [OF rel] assms(4,5) this]
  have q: "q = (c, register_code cf k (s\<lparr>timer := t\<rparr>))"
    by (simp add: q_def caps_key_event_def proc)
  have b: "b = ([(if cs_shift a then 2 else 0, k)], a\<lparr>cs_down := insert k (cs_down a)\<rparr>)"
    using assms(3) by (cases a) (simp add: b_def)
  show ?thesis
    using reg rel assms(2,3) by (simp add: q b caps_rel_def use_nkro_def)
qed

lemma caps_release:
  fixes t :: u16
  assumes "caps_word_ok env" "caps_rel cf env n a (c, s)" "IS_BASIC_KEYCODE k"
  defines "b \<equiv> caps_step env (CapsKeyEvent t k False) a" and "q \<equiv> caps_key_event cf env t k False (c, s)"
  shows "caps_rel cf env n (snd b) q \<and> host_typed (out (snd q)) = host_typed (out s) @ fst b"
proof -
  note rel = caps_rel_typing [OF assms(2), of t]
  define c' where "c' = (if cs_on a then idle_reset env t c else c)"
  have proc: "process_caps_word cf env (ucast k) (record_of_event (MAKE_KEYEVENT 0 0 False t)) (c, s\<lparr>timer := t\<rparr>) =
      (True, c', s\<lparr>timer := t\<rparr>)"
  proof (cases "cs_on a")
    case True
    then show ?thesis
      using process_on [of k env c "s\<lparr>timer := t\<rparr>" cf False t] assms(2,3) rel by (simp add: caps_rel_def c'_def)
  next
    case False
    then show ?thesis
      unfolding c'_def using assms(1-3) rel basic_not_left_shift [OF assms(3)]
      by (simp add: process_off caps_rel_def caps_word_ok_def)
  qed
  note reg = typing_release [OF conjunct1 [OF rel] assms(3)]
  have q: "q = (c', unregister_code cf k (s\<lparr>timer := t\<rparr>))"
    by (simp add: q_def caps_key_event_def proc)
  show ?thesis
    using reg rel assms(2) by (simp add: q b_def caps_rel_def c'_def use_nkro_def)
qed

text \<open>The shift key.\<close>

lemma left_shift_code: "IS_MODIFIER_KEYCODE (KC_LEFT_SHIFT :: u8)" "MOD_BIT KC_LEFT_SHIFT = 2"
  by (simp_all add: IS_MODIFIER_KEYCODE_def MOD_BIT_def)

lemma handle_left_shift:
  "handle_shift KC_LEFT_SHIFT r (c, s) =
    (if caps_word_active c then (False, c\<lparr>held_mods := (if ev_pressed (event r) then held_mods c OR 2 else held_mods c AND NOT 2)\<rparr>, s)
     else if held_mods c AND 2 \<noteq> 0 then (ev_pressed (event r), c\<lparr>held_mods := held_mods c AND NOT 2\<rparr>, del_mods 2 s)
     else (True, c, s))"
  by (simp add: handle_shift_def shift_key_def OSM_def IS_QK_MOD_TAP_def MOD_BIT_def)

lemma caps_shift_off:
  fixes t :: u16 and p :: bool
  assumes "caps_word_ok env" "caps_rel cf env n a (c, s)" "\<not> cs_on a"
  defines "q \<equiv> caps_key_event cf env t KC_LEFT_SHIFT p (c, s)"
  shows "caps_rel cf env n (a\<lparr>cs_since := t, cs_shift := p, cs_held := False\<rparr>) q \<and> host_typed (out (snd q)) = host_typed (out s)"
proof -
  note rel = caps_rel_typing [OF assms(2), of t]
  have mods: "real_mods s = 0 \<or> real_mods s = 2" "\<not> caps_word_active c" "weak_mods s = 0" "held_mods c = (if cs_held a then 2 else 0)"
    "cs_held a \<longrightarrow> CAPS_WORD_INVERT_ON_SHIFT env"
    using assms(2,3) by (auto simp: caps_rel_def)
  show ?thesis
  proof (cases "cs_held a")
    case False
    then have "process_caps_word cf env KC_LEFT_SHIFT (record_of_event (MAKE_KEYEVENT 0 0 p t)) (c, s\<lparr>timer := t\<rparr>) =
        (True, c, s\<lparr>timer := t\<rparr>)"
      using process_off [of "KC_LEFT_SHIFT" c "s\<lparr>timer := t\<rparr>" env cf p t] assms(1) mods rel by (simp add: caps_word_ok_def)
    then have q: "q = (c, if p then register_code cf KC_LEFT_SHIFT (s\<lparr>timer := t\<rparr>) else unregister_code cf KC_LEFT_SHIFT (s\<lparr>timer := t\<rparr>))"
      by (simp add: q_def caps_key_event_def)
    show ?thesis
      using typing_modifier [of cf "cs_down a" "s\<lparr>timer := t\<rparr>" KC_LEFT_SHIFT] rel left_shift_code mods False assms(2,3)
      by (auto simp: q caps_rel_def use_nkro_def)
  next
    case True
    define c' where "c' = c\<lparr>held_mods := 0\<rparr>"
    define v where "v = del_mods 2 (s\<lparr>timer := t\<rparr>)"
    have v: "v = s\<lparr>timer := t, real_mods := 0\<rparr>"
      using mods(1) by (auto simp: v_def del_mods_def)
    have typing_v: "typing cf (cs_down a) v"
      unfolding v using typing_set_mods(1) [of cf "cs_down a" "s\<lparr>timer := t\<rparr>" 0] rel by simp
    have "process_caps_word cf env KC_LEFT_SHIFT (record_of_event (MAKE_KEYEVENT 0 0 p t)) (c, s\<lparr>timer := t\<rparr>) = (p, c', v)"
      using True mods rel assms(1)
      by (simp add: process_caps_word_def handle_left_shift v_def [symmetric] c'_def caps_word_shifts_def caps_word_ok_def Let_def)
        (simp add: v)
    then have q: "q = (c', if p then register_code cf KC_LEFT_SHIFT v else v)"
      by (simp add: q_def caps_key_event_def)
    show ?thesis
      using typing_modifier [OF typing_v left_shift_code(1)] left_shift_code(2) typing_v True mods assms(2,3) rel
      by (auto simp: q caps_rel_def use_nkro_def c'_def v)
  qed
qed

lemma caps_shift_on:
  fixes t :: u16 and p :: bool
  assumes "caps_word_ok env" "caps_rel cf env n a (c, s)" "cs_on a"
  defines "q \<equiv> caps_key_event cf env t KC_LEFT_SHIFT p (c, s)"
  shows "caps_rel cf env n (snd (caps_step env (CapsShift t p) a)) q \<and> host_typed (out (snd q)) = host_typed (out s)"
proof -
  define c' where "c' = idle_reset env t c"
  note rel = caps_rel_typing [OF assms(2), of t]
  have mods: "real_mods s = 0" "caps_word_active c" "weak_mods s = 0 \<or> weak_mods s = 2" "held_mods c = (if cs_held a then 2 else 0)"
    "\<not> CAPS_WORD_INVERT_ON_SHIFT env \<longrightarrow> \<not> cs_held a"
    using assms(2,3) by (auto simp: caps_rel_def)
  show ?thesis
  proof (cases "CAPS_WORD_INVERT_ON_SHIFT env")
    case True
    define h where "h = c\<lparr>held_mods := (if p then 2 else 0)\<rparr>"
    have "process_caps_word cf env KC_LEFT_SHIFT (record_of_event (MAKE_KEYEVENT 0 0 p t)) (c, s\<lparr>timer := t\<rparr>) = (False, h, s\<lparr>timer := t\<rparr>)"
      using True mods by (simp add: process_caps_word_def handle_left_shift h_def)
    then have q: "q = (h, s\<lparr>timer := t\<rparr>)"
      by (simp add: q_def caps_key_event_def)
    show ?thesis
      using True rel assms(2,3) by (auto simp: q caps_rel_def h_def use_nkro_def)
  next
    case False
    have held: "held_mods c = 0" "\<not> cs_held a"
      using False mods by simp_all
    show ?thesis
    proof (cases p)
      case True
      define u where "u = s\<lparr>timer := t, weak_mods := 0\<rparr>"
      have u: "typing cf (cs_down a) u" "clear_weak_mods (s\<lparr>timer := t\<rparr>) = u"
        using typing_set_mods(2) [OF conjunct1 [OF rel], of 0] by (simp_all add: u_def clear_weak_mods_def)
      obtain v where stop: "caps_word_stop cf env (c', u) = (True, c'\<lparr>caps_word_active := False\<rparr>, v)" "typing cf (cs_down a) v"
        "host_typed (out v) = host_typed (out u)" "use_nkro v = use_nkro u" "real_mods v = 0" "weak_mods v = 0"
        using caps_word_stop_typing [of env cf "cs_down a" u c' False] assms(1) u(1) mods held by (auto simp: u_def c'_def)
      have "process_caps_word cf env KC_LEFT_SHIFT (record_of_event (MAKE_KEYEVENT 0 0 p t)) (c, s\<lparr>timer := t\<rparr>) =
          (True, c'\<lparr>caps_word_active := False\<rparr>, v)"
        using process_on [of "KC_LEFT_SHIFT" env c "s\<lparr>timer := t\<rparr>" cf p t] True False mods rel assms(1)
        by (simp add: u(2) caps_word_ok_def caps_press_user(2) stop(1) c'_def [symmetric])
      then have q: "q = (c'\<lparr>caps_word_active := False\<rparr>, register_code cf KC_LEFT_SHIFT v)"
        using True by (simp add: q_def caps_key_event_def)
      show ?thesis
        using typing_modifier [OF stop(2) left_shift_code(1)] left_shift_code(2) stop held True False assms(2,3) rel
        by (simp add: q caps_rel_def c'_def u_def use_nkro_def)
    next
      case p: False
      have "process_caps_word cf env KC_LEFT_SHIFT (record_of_event (MAKE_KEYEVENT 0 0 p t)) (c, s\<lparr>timer := t\<rparr>) =
          (True, c', s\<lparr>timer := t\<rparr>)"
        using process_on [of "KC_LEFT_SHIFT" env c "s\<lparr>timer := t\<rparr>" cf p t] p False mods rel
        by (simp add: c'_def)
      then have q: "q = (c', unregister_code cf KC_LEFT_SHIFT (s\<lparr>timer := t\<rparr>))"
        using p by (simp add: q_def caps_key_event_def)
      show ?thesis
        using typing_modifier [OF conjunct1 [OF rel] left_shift_code(1)] left_shift_code(2) held p False assms(2,3) rel mods(1)
        by (simp add: q caps_rel_def c'_def use_nkro_def)
    qed
  qed
qed

text \<open>The key of caps word and the task.\<close>

lemma caps_on_effect:
  assumes "caps_word_ok env" "typing cf K s" "\<not> caps_word_active c"
  shows "caps_word_on cf env (c, s) = ((idle_reset env (timer s) c)\<lparr>caps_word_active := True\<rparr>, s\<lparr>real_mods := 0\<rparr>)"
  using assms
  by (simp add: caps_word_on_def clear_mods_def caps_word_ok_def Let_def caps_word_reset_idle_timer_def idle_reset_def
      clear_oneshot_mods_def typing_def)

lemma caps_toggle:
  assumes "caps_word_ok env" "caps_rel cf env n a (c, s)"
  shows "caps_rel cf env n (snd (caps_step env (CapsToggle t) a)) (caps_exec cf env (CapsToggle t) (c, s)) \<and>
    host_typed (out (snd (caps_exec cf env (CapsToggle t) (c, s)))) = host_typed (out s)"
proof -
  note rel = caps_rel_typing [OF assms(2), of t]
  have mods: "caps_word_active c = cs_on a" "cs_on a \<Longrightarrow> real_mods s = 0" "cs_on a \<Longrightarrow> weak_mods s = 0 \<or> weak_mods s = 2"
    using assms(2) by (auto simp: caps_rel_def)
  have exec: "caps_exec cf env (CapsToggle t) (c, s) = caps_word_toggle cf env (c, s\<lparr>timer := t\<rparr>)"
    by (simp add: process_caps_word_def)
  show ?thesis
  proof (cases "cs_on a")
    case True
    obtain u where off: "caps_word_off cf env (c, s\<lparr>timer := t\<rparr>) = (c\<lparr>caps_word_active := False\<rparr>, u)" "typing cf (cs_down a) u"
      "host_typed (out u) = host_typed (out s)" "use_nkro u = n" "real_mods u = 0" "weak_mods u = 0"
      using caps_word_off_typing [of env cf "cs_down a" "s\<lparr>timer := t\<rparr>" c] assms(1) rel mods True by (auto simp: use_nkro_def)
    then show ?thesis
      using True assms(2) mods by (simp add: exec caps_word_toggle_def caps_rel_def del: caps_exec.simps)
  next
    case False
    have "caps_word_on cf env (c, s\<lparr>timer := t\<rparr>) = ((idle_reset env t c)\<lparr>caps_word_active := True\<rparr>, s\<lparr>timer := t, real_mods := 0\<rparr>)"
      using caps_on_effect [OF assms(1) conjunct1 [OF rel], of c] mods False by simp
    moreover have "typing cf (cs_down a) (s\<lparr>timer := t, real_mods := 0\<rparr>)"
      using typing_set_mods(1) [OF conjunct1 [OF rel], of 0] by simp
    ultimately show ?thesis
      using False assms(2) mods by (simp add: exec caps_word_toggle_def caps_rel_def use_nkro_def del: caps_exec.simps)
  qed
qed

text \<open>The timer has expired from the timeout on, for half of its range.\<close>

lemma idle_expired:
  fixes to :: u16
  assumes "to \<le> 30000"
  shows "timer_expired t (since + to) \<longleftrightarrow> to \<le> t - since \<and> unat (t - since) < unat to + 0x7FFF"
proof -
  define d where "d = t - since"
  have to: "unat to \<le> 30000" "unat d < 65536"
    using assms unat_less_numeral_16 [of d] by (simp_all add: word_le_nat_alt)
  have e: "t - (since + to) = d - to"
    by (simp add: d_def)
  have "unat (d - to) = (if to \<le> d then unat d - unat to else 65536 + unat d - unat to)"
    by (simp add: unat_sub_if' word_le_nat_alt) arith
  then show ?thesis
    unfolding timer_expired_def e d_def [symmetric] using to by (auto simp: word_less_nat_alt word_le_nat_alt split: if_splits)
qed

lemma caps_task:
  assumes "caps_word_ok env" "caps_rel cf env n a (c, s)"
  shows "caps_rel cf env n (snd (caps_step env (CapsTask t) a)) (caps_exec cf env (CapsTask t) (c, s)) \<and>
    host_typed (out (snd (caps_exec cf env (CapsTask t) (c, s)))) = host_typed (out s)"
proof -
  note rel = caps_rel_typing [OF assms(2), of t]
  have mods: "caps_word_active c = cs_on a" "cs_on a \<Longrightarrow> real_mods s = 0" "cs_on a \<Longrightarrow> weak_mods s = 0 \<or> weak_mods s = 2"
    "cs_on a \<Longrightarrow> CAPS_WORD_IDLE_TIMEOUT env > 0 \<Longrightarrow> idle_timer c = cs_since a + CAPS_WORD_IDLE_TIMEOUT env"
    using assms(2) by (auto simp: caps_rel_def)
  show ?thesis
  proof (cases "CAPS_WORD_IDLE_TIMEOUT env > 0 \<and> cs_on a \<and> timer_expired t (idle_timer c)")
    case True
    obtain u where off: "caps_word_off cf env (c, s\<lparr>timer := t\<rparr>) = (c\<lparr>caps_word_active := False\<rparr>, u)" "typing cf (cs_down a) u"
      "host_typed (out u) = host_typed (out s)" "use_nkro u = n" "real_mods u = 0" "weak_mods u = 0"
      using caps_word_off_typing [of env cf "cs_down a" "s\<lparr>timer := t\<rparr>" c] assms(1) rel mods True by (auto simp: use_nkro_def)
    moreover have "CAPS_WORD_IDLE_TIMEOUT env \<le> t - cs_since a \<and> unat (t - cs_since a) < unat (CAPS_WORD_IDLE_TIMEOUT env) + 0x7FFF"
      using True mods(4) assms(1) idle_expired [of "CAPS_WORD_IDLE_TIMEOUT env" t "cs_since a"] by (simp add: caps_word_ok_def)
    ultimately show ?thesis
      using True assms(2) mods by (simp add: caps_word_task_def caps_rel_def)
  next
    case False
    then have "\<not> (cs_on a \<and> CAPS_WORD_IDLE_TIMEOUT env > 0 \<and> CAPS_WORD_IDLE_TIMEOUT env \<le> t - cs_since a \<and>
        unat (t - cs_since a) < unat (CAPS_WORD_IDLE_TIMEOUT env) + 0x7FFF)"
      using mods(4) assms(1) idle_expired [of "CAPS_WORD_IDLE_TIMEOUT env" t "cs_since a"] by (auto simp: caps_word_ok_def)
    then have "caps_step env (CapsTask t) a = ([], a)"
      by (simp only: caps_step.simps if_False)
    then show ?thesis
      using False mods(1) assms(2) rel by (auto simp: caps_word_task_def caps_rel_def use_nkro_def)
  qed
qed

text \<open>One event, and all of them.\<close>

lemma caps_exec_step:
  assumes "caps_word_ok env" "caps_rel cf env n a cs" "caps_valid n (cs_down a) (e # es)"
  shows "caps_rel cf env n (snd (caps_step env e a)) (caps_exec cf env e cs) \<and>
    host_typed (out (snd (caps_exec cf env e cs))) = host_typed (out (snd cs)) @ fst (caps_step env e a) \<and>
    caps_valid n (cs_down (snd (caps_step env e a))) es"
proof -
  obtain c s where cs: "cs = (c, s)"
    by (cases cs)
  note rel = assms(2) [unfolded cs]
  show ?thesis
  proof (cases e)
    case (CapsKeyEvent t k p)
    then show ?thesis
      using caps_press_on [OF assms(1) rel, where k = k and t = t] caps_press_off [OF assms(1) rel, where k = k and t = t] caps_release [OF assms(1) rel, where k = k and t = t] assms(3)
      by (cases p; cases "cs_on a") (auto simp: cs Let_def)
  next
    case (CapsShift t p)
    have "\<not> cs_on a \<Longrightarrow> caps_step env e a = ([], a\<lparr>cs_since := t, cs_shift := p, cs_held := False\<rparr>)"
      by (cases a) (simp add: CapsShift)
    then show ?thesis
      using caps_shift_on [OF assms(1) rel, where t = t and p = p] caps_shift_off [OF assms(1) rel, where t = t and p = p] assms(3)
      by (cases "cs_on a") (simp_all add: cs CapsShift del: caps_step.simps, simp_all)
  next
    case (CapsToggle t)
    then show ?thesis
      using caps_toggle [OF assms(1) rel, of t] assms(3) by (auto simp: cs)
  next
    case (CapsTask t)
    then show ?thesis
      using caps_task [OF assms(1) rel, of t] assms(3) by (auto simp: cs)
  qed
qed

lemma caps_run_steps:
  assumes "caps_word_ok env" "caps_rel cf env n a cs" "caps_valid n (cs_down a) es"
  shows "caps_rel cf env n (snd (caps_steps env es a)) (fold (caps_exec cf env) es cs) \<and>
    host_typed (out (snd (fold (caps_exec cf env) es cs))) = host_typed (out (snd cs)) @ fst (caps_steps env es a)"
  using assms(2,3)
proof (induction es arbitrary: a cs)
  case (Cons e es)
  note step = caps_exec_step [OF assms(1) Cons.prems]
  show ?case
    using Cons.IH [of "snd (caps_step env e a)" "caps_exec cf env e cs"] step by (simp add: Let_def split_beta)
qed simp

section \<open>Properties\<close>

definition caps_spec_start :: caps_spec where
  "caps_spec_start = \<lparr>cs_on = False, cs_since = 0, cs_shift = False, cs_held = False, cs_down = {}\<rparr>"

text \<open>
  (C40)
  Caps word types its words in capitals: however basic keys, the left shift, the key of caps word and tasks follow each
  other, at any times and with keys held across each other, a host reads exactly what the specification says: the keys in
  their order, letters shifted while caps word is on and nothing else, until a key that ends a word, the shift key or the idle
  timeout turns it off; with the inverting shift key, the keys typed while it is held have the other case.  Caps word is on
  when the specification has it on, and the host sees the keys that are down.
\<close>

theorem caps_word_types_words:
  assumes "caps_word_ok env" "quiet cf s" "real_mods s = 0" "weak_mods s = 0" "caps_valid (use_nkro s) {} es"
  defines "q \<equiv> fold (caps_exec cf env) es (caps_word_start, s)" and "b \<equiv> caps_steps env es caps_spec_start"
  shows "host_typed (out (snd q)) = host_typed (out s) @ fst b \<and> caps_word_active (fst q) = cs_on (snd b) \<and>
    (\<forall>k. host_pressed (snd q) (out (snd q)) k \<longleftrightarrow> k \<in> cs_down (snd b))"
proof -
  have "caps_rel cf env (use_nkro s) caps_spec_start (caps_word_start, s)"
    using assms(2-4) by (simp add: caps_rel_def caps_spec_start_def caps_word_start_def typing_empty)
  note steps = caps_run_steps [OF assms(1) this]
  have "caps_rel cf env (use_nkro s) (snd b) q \<and> host_typed (out (snd q)) = host_typed (out s) @ fst b"
    using steps [of es] assms(5) by (simp add: q_def b_def caps_spec_start_def)
  then show ?thesis
    by (cases q) (simp add: caps_rel_def typing_def)
qed

text \<open>
  When the word ended while the inverting shift key was held, the key counts as a shift key.  Letting it go takes the shift
  away without a report: the host, which has seen it, sees it held until the next report.
\<close>

lemma shift_release_not_sent:
  assumes "CAPS_WORD_INVERT_ON_SHIFT env" "\<not> caps_word_active c" "held_mods c = 2" "real_mods s = 2"
  shows "caps_key_event cf env t KC_LEFT_SHIFT False (c, s) = (c\<lparr>held_mods := 0\<rparr>, s\<lparr>timer := t, real_mods := 0\<rparr>)"
  using assms by (simp add: caps_key_event_def process_caps_word_def handle_left_shift del_mods_def)

text \<open>
  The idle timeout, unlike a key that ends the word, does not turn the held shift key into a shift: what is typed behind it
  is not shifted though the key is down.
\<close>

lemma timeout_loses_shift:
  assumes "caps_word_ok env" "caps_word_active c" "CAPS_WORD_IDLE_TIMEOUT env > 0" "timer_expired (timer s) (idle_timer c)"
  shows "real_mods (snd (caps_word_task cf env (c, s))) = real_mods s" "held_mods (fst (caps_word_task cf env (c, s))) = held_mods c"
    "\<not> caps_word_active (fst (caps_word_task cf env (c, s)))"
  using assms by (simp_all add: caps_word_task_def caps_word_off_def caps_word_ok_def Let_def unregister_weak_mods_def del_weak_mods_def)

definition example_caps_word :: "mods_vars caps_word_env" where
  "example_caps_word = \<lparr>CAPS_WORD_IDLE_TIMEOUT = 5000, CAPS_WORD_INVERT_ON_SHIFT = False, BOTH_SHIFTS_TURNS_ON_CAPS_WORD = True,
     DOUBLE_TAP_SHIFT_TURNS_ON_CAPS_WORD = False, GET_TAPPING_TERM = (\<lambda>k r. 200), caps_word_set_user = (\<lambda>b s. s),
     caps_word_press_user = default_caps_word_press_user\<rparr>"

text \<open>A, 1 and B while A is still down, then space and another A.\<close>

theorem caps_word_types_words_witness:
  "host_typed (out (snd (fold (caps_exec example_mods_config example_caps_word)
     [CapsToggle 100, CapsKeyEvent 200 4 True, CapsTask 250, CapsKeyEvent 300 0x1E True, CapsKeyEvent 350 4 False, CapsKeyEvent 400 5 True,
      CapsKeyEvent 450 0x2C True, CapsKeyEvent 500 4 True] (caps_word_start, example_mods_vars)))) =
   [(2, 4), (0, 0x1E), (2, 5), (0, 0x2C), (0, 4)]"
proof -
  have "caps_word_ok example_caps_word"
    by (simp add: caps_word_ok_def example_caps_word_def)
  moreover have "quiet example_mods_config example_mods_vars"
    using report_inv_empty [of False]
    by (simp add: quiet_def mods_example host_pressed_def host_synced_def host_view_def use_nkro_def)
      (simp add: empty_report_def is_key_pressed_def rk_keys_def)
  moreover have "real_mods example_mods_vars = 0" "weak_mods example_mods_vars = 0" "host_typed (out example_mods_vars) = []"
    by (simp_all add: mods_example host_typed_def)
  moreover have "CAPS_WORD_INVERT_ON_SHIFT example_caps_word = False" "CAPS_WORD_IDLE_TIMEOUT example_caps_word = 5000"
    by (simp_all add: example_caps_word_def)
  ultimately show ?thesis
    by (subst caps_word_types_words [THEN conjunct1])
      (simp_all add: IS_BASIC_KEYCODE_def caps_spec_start_def caps_continues_def caps_letter_def)
qed

end
