(* ===== verification/Spec2Isabelle.thy ===== *)
theory Spec2Isabelle
  imports Bitwise Report Keycodes Layers Mods Events Actions ActionFacts Tapping WearLog WearLeveling Recovery FlashOps FlashStore Debouncing DeferredExec Crc DynamicMacro SendString DynamicKeymap Keyboard Pipeline Encoder Autocorrect KeyLock Secure Leader Typing CapsWord
begin

text \<open>
  The keyboard core of the QMK firmware, from the switches of a keyboard to the reports that its host receives, and
  the parts of the firmware that store, replay and delay what is typed.

  \<^bold>\<open>The program.\<close>  The main loop runs a set of tasks.  The matrix task scans the switches, debounces what it reads and
  turns every changed switch into a key event.  An event runs through the tapping machine, which decides whether a
  dual-role key was tapped or held, to the action code.  There the position of the key is looked up in the active
  layers of the keymap, its keycode becomes an action, and the action changes the modifiers, the layers and the
  keyboard report.  Reports are sent to the host.  The other tasks run delayed callbacks; settings, keymaps and macros
  live in an emulated EEPROM, a log in flash memory that levels its wear.

  \<^bold>\<open>Theories and code.\<close>  Every definition has the name of what it models, with a suffix or a prefix where Isabelle
  needs another one.

    \<^item> \<open>Prelude\<close>: the word types, the timer differences of platforms/timer.h, lemmas and collections for all theories.
    \<^item> \<open>Bitwise\<close> (quantum/bitwise.c): population count, highest bit and bit reversal.
    \<^item> \<open>Report\<close> (tmk_core/protocol/report.c): the keyboard report in the layouts of six keys and of a bit map.
    \<^item> \<open>Keycodes\<close> (quantum/keycodes.h, quantum_keycodes.h, action_code.h, keycode_config.c, keymap_common.c and
      keymap_introspection.c): from a keymap position to a keycode to an action.
    \<^item> \<open>Layers\<close> (quantum/action_layer.c, tri_layer.c, process_tri_layer.c): the layer masks, the resolution of a
      position and the cache that makes a release undo its press.
    \<^item> \<open>Mods\<close> (quantum/action_util.c, tmk_core/protocol/host.c): modifiers, one-shot modifiers, layer and hand swap, and
      sending.
    \<^item> \<open>Events\<close>, \<open>Actions\<close>, \<open>ActionFacts\<close> (quantum/keyboard.h, action.h, action.c, the codes of quantum.c): what an
      action does, and its properties.
    \<^item> \<open>Tapping\<close> (quantum/action_tapping.c, \<open>action_exec\<close> of action.c): tap or hold, with the waiting buffer.
    \<^item> \<open>WearLog\<close>, \<open>WearLeveling\<close>, \<open>Recovery\<close> (quantum/wear_leveling, lib/fnv/hash_64a.c): the log that levels the wear
      of a backing store, and its repair at start, on the backing store of the tests.
    \<^item> \<open>FlashOps\<close>, \<open>FlashStore\<close> (platforms/chibios/drivers/flash/legacy_flash_ops.c, the legacy driver of
      platforms/chibios/drivers/wear_leveling, drivers/eeprom): the flash operations, as accesses to the registers of a
      controller, and on top of them the backing store and the emulated EEPROM.
    \<^item> \<open>Debounce\<close>, \<open>DebounceCells\<close>, \<open>DebounceKeys\<close>, \<open>Debouncing\<close> (quantum/debounce, the scan of quantum/matrix.c): the
      seven debounce algorithms.
    \<^item> \<open>Keyboard\<close> (the matrix task of quantum/keyboard.c): from the matrix to key events, with the detection of ghosts.
    \<^item> \<open>Pipeline\<close>: the matrix task, the tapping machine and the actions put together, from the switches to the host.
    \<^item> \<open>Encoder\<close> (quantum/encoder.c): rotary encoders and the transfer of their turns between the halves.
    \<^item> \<open>Autocorrect\<close> (quantum/process_keycode/process_autocorrect.c, autocorrect_data_default.h): typing the
      correction of a typo, found in a packed trie.
    \<^item> \<open>KeyLock\<close> (quantum/process_keycode/process_key_lock.c): holding keys down.
    \<^item> \<open>Secure\<close> (quantum/secure.c, process_secure.c): the lock that a sequence of positions opens.
    \<^item> \<open>Leader\<close> (quantum/leader.c, process_leader.c): sequences behind the leader key.
    \<^item> \<open>Typing\<close>, \<open>CapsWord\<close> (quantum/quantum.c, quantum/caps_word.c, process_caps_word.c): keycodes with modifiers, and
      the capitalisation of a word.
    \<^item> \<open>DeferredExec\<close> (quantum/deferred_exec.c): delayed callbacks.
    \<^item> \<open>Crc\<close> (quantum/crc.c): the two checksums of a split keyboard.
    \<^item> \<open>DynamicMacro\<close> (quantum/process_keycode/process_dynamic_macro.c): recording and playing macros.
    \<^item> \<open>SendString\<close> (quantum/send_string/send_string.c): typing strings.
    \<^item> \<open>DynamicKeymap\<close> (quantum/dynamic_keymap.c): a keymap and macros in the EEPROM.

  \<^bold>\<open>State and effects.\<close>  The static variables of a component are a record, its operations take the state and return
  the new one.  What the host and overridable hooks see is a list of outputs in the state, in the order of the calls.
  Time is a parameter of an operation or a field of the state, as it is read from the timer; it does not advance within
  an operation, and differences of times wrap around as they do in C.  Integers keep their width.  Hooks that a
  keyboard or keymap overrides, the generated keymap, and the drivers below the code are functions of a configuration
  or of an environment record over an arbitrary state.  So is the flash controller: what the reference manuals promise
  of it is the predicate \<open>controller_ok\<close>, part of \<open>flash_ok\<close>, and \<open>stm32f072_flash\<close> is a controller that has it.  An access outside an array, and a loop that does not return,
  are \<open>None\<close> where the source allows them.

  \<^bold>\<open>Interfaces.\<close>  The locale \<open>key_set\<close> (\<open>Report\<close>) is the report as a set of keys; both layouts and the choice between
  them provide it.  \<open>slot_cache\<close> (\<open>Layers\<close>) is what the source layer cache and the state of the hand swap share: slots
  that keep what a press stored.  \<open>record_processor\<close> (\<open>Tapping\<close>) is what the tapping machine relies on; the action code
  provides it.  \<open>log_store\<close>, \<open>sized_log_store\<close> and \<open>resettable_log_store\<close> (\<open>WearLeveling\<close>) are the backing store
  of the wear leveling; the flash driver provides them.  \<open>always_erasable_log_store\<close> (\<open>Recovery\<close>) is one that is erased
  whether or not it is unlocked, as the store of the tests is.  \<open>debouncer\<close> and \<open>exact_debouncer\<close> (\<open>Debounce\<close>) are the
  contract of a debounce algorithm; \<open>cell_machine\<close>, \<open>cellwise\<close> and \<open>exact_cellwise\<close> (\<open>DebounceCells\<close>) give it to the
  algorithms with a counter per row or key.  \<open>byte_store\<close> and \<open>restartable_byte_store\<close> (\<open>DynamicKeymap\<close>) are the
  EEPROM below the keymap; the wear-leveling EEPROM provides them.

  \<^bold>\<open>What is shown.\<close>
    \<^item> The whole path: on a keyboard of plain keys the host sees, after the debounce time, exactly the keys that are down.
    \<^item> Switches to events: every algorithm settles within the debounce time and only reports what was read; the events
      of a key alternate, and after the debounce time they are those of the keys that are down.
    \<^item> Events to actions: the invariant of the tapping machine, its decision table, no event lost or processed twice
      while the buffer has room, and what happens when it has none.
    \<^item> Actions: a release finds the action its press found, whatever the layers do in between; the host sees exactly
      the wanted modifiers and keys after a report; clearing the keyboard releases everything; one-shot modifiers and
      layers end when they should.
    \<^item> Layers, reports and keycodes: refinement of sets of layers and of keys, decoding of the layer keycodes.
    \<^item> EEPROM: it refines an array of bytes through any sequence of writes, erasures and power cycles; values read
      back as written, keymaps and macros on top of it as well.
    \<^item> Replay and delay: macros play what was recorded; strings type their characters; queued callbacks run once, on
      time and not before; tokens are unique, and allocating one ends.
    \<^item> Features: the locked keys are those of the documented rule, only the sequence unlocks, the leader key collects what
      follows it, autocorrection finds its typos and stays within its arrays, encoders report their turns (where the halves have the
      same resolutions), caps word types what its specification says.
    \<^item> Errors: a corrupt log is repaired, where the store can be erased; what happens with a full waiting buffer, a macro
      that plays itself, unterminated strings.

  \<^bold>\<open>Bounds.\<close>  Loops over arrays, words and counters terminate by their measures.  \<open>playback_loop\<close> and
  \<open>wear_leveling_write_raw\<close> decrease the rest of the log or of the data, \<open>allocate_loop\<close> the distance to the first token
  it tried, \<open>send_string_with_delay\<close> the rest of the string.  Two loops may run forever or leave their array and are
  \<open>partial_function (option)\<close>: playing a dynamic macro (\<open>play_loop\<close>), whose nesting is bounded by the argument of
  \<open>process_record_nested\<close>, and sending a stored macro (\<open>macro_send_loop\<close>).  For the first the theorems show which nesting
  is enough and that none is for a macro that plays itself; for the second, that a well-formed macro is sent.

  \<^bold>\<open>Not modelled.\<close>  Reading pins, USB and wireless protocol stacks, platform code and drivers are input and output.
  Keyboards, layouts, users' keymaps and data files are configuration, libraries are third-party code.  Lighting,
  audio, displays, pointing devices and split communication are separate subsystems that the keyboard core only
  notifies.  Of the key processing, combos, key overrides, auto shift, tap dance,
  repeat keys, mouse keys and Unicode input are left for later.
\<close>

end
